(* ===== verification/MC_Prelude.thy ===== *)
theory MC_Prelude
  imports Main "HOL-Library.Word"
begin

text \<open>
  Prelude of the development: the machine types of the C++ sources, the ways an operation
  can go wrong, a small store for objects made with \<open>new\<close>, \<open>memcpy\<close> on byte buffers, and
  the generic lemmas on words, positions in a ring and maps that the components share.
\<close>

unbundle bit_operations_syntax

section \<open>Machine types and outcomes\<close>

type_synonym u8 = "8 word"
type_synonym u16 = "16 word"
type_synonym u32 = "32 word"
type_synonym u64 = "64 word"

text \<open>\<open>UINT16_MAX\<close>, the error value of the \<open>registerTopic\<close> functions.\<close>

abbreviation UINT16_MAX :: u16 where "UINT16_MAX \<equiv> 65535"

text \<open>
  What the C++ standard leaves undefined is a fault of the model, never a silent value:
  access to an object that was deleted or never made, a call through a null pointer (or of
  an empty \<open>std::function\<close>, which throws), a read past a buffer, a read of an uninitialised object, and
  overflow of a signed subtraction.
\<close>

datatype fault = UseAfterFree | NullCall | NullRead | OutOfBounds | UninitRead | SignedOverflow

text \<open>
  An operation that always returns yields \<open>fault + 'a\<close>. One that holds a loop which may
  not end yields \<open>(fault + 'a) option\<close>, with \<open>None\<close> for a loop that never ends.
\<close>

type_synonym 'a outcome = "fault + 'a"
type_synonym 'a run = "(fault + 'a) option"

definition obind :: "'a outcome \<Rightarrow> ('a \<Rightarrow> 'b outcome) \<Rightarrow> 'b outcome" where
  "obind m f = (case m of Inl e \<Rightarrow> Inl e | Inr a \<Rightarrow> f a)"

definition rbind :: "'a run \<Rightarrow> ('a \<Rightarrow> 'b run) \<Rightarrow> 'b run" where
  "rbind m f = (case m of None \<Rightarrow> None | Some (Inl e) \<Rightarrow> Some (Inl e) | Some (Inr a) \<Rightarrow> f a)"

abbreviation ret :: "'a \<Rightarrow> 'a run" where "ret a \<equiv> Some (Inr a)"

lemma obind_simps [simp]:
  "obind (Inr a) f = f a"
  "obind (Inl e) f = Inl e"
  by (simp_all add: obind_def)

lemma rbind_simps [simp]:
  "rbind (Some (Inr a)) f = f a"
  "rbind (Some (Inl e)) f = Some (Inl e)"
  "rbind None f = None"
  by (simp_all add: rbind_def)

lemma obind_eq_Inr: "obind m f = Inr b \<longleftrightarrow> (\<exists>a. m = Inr a \<and> f a = Inr b)"
  by (cases m) simp_all

lemma rbind_eq_ret: "rbind m f = ret b \<longleftrightarrow> (\<exists>a. m = ret a \<and> f a = ret b)"
  by (auto simp: rbind_def split: option.splits sum.splits)

text \<open>So that \<open>partial_function\<close> accepts a loop whose recursive call stands under \<open>rbind\<close>.\<close>

lemma rbind_mono [partial_function_mono]:
  assumes "mono_option B" and "\<And>y. mono_option (\<lambda>f. C y f)"
  shows "mono_option (\<lambda>f. rbind (B f) (\<lambda>y. C y f))"
proof (rule monotoneI)
  fix f g :: "'a \<Rightarrow> 'b option"
  assume fg: "fun_ord option_ord f g"
  then have B: "B f = None \<or> B f = B g" and C: "\<And>y. C y f = None \<or> C y f = C y g"
    using assms by (auto simp: monotone_def flat_ord_def)
  show "option_ord (rbind (B f) (\<lambda>y. C y f)) (rbind (B g) (\<lambda>y. C y g))"
  proof (cases "B f")
    case None
    then show ?thesis by (simp add: flat_ord_def)
  next
    case (Some r)
    with B have "B g = Some r" by simp
    with Some C show ?thesis by (cases r) (simp_all add: flat_ord_def)
  qed
qed

section \<open>Objects made with new\<close>

text \<open>
  A store maps the address of each live object to its contents. \<open>new\<close> takes the next
  unused address: it never returns the address of a live object, and the model also never
  hands out a freed address again, so that any later use of a deleted object is a fault.
\<close>

record 'a heap =
  cells :: "nat \<Rightarrow> 'a option"
  next_addr :: nat

definition heap_empty :: "'a heap" where
  "heap_empty = \<lparr>cells = (\<lambda>_. None), next_addr = 0\<rparr>"

definition heap_new :: "'a heap \<Rightarrow> 'a \<Rightarrow> 'a heap \<times> nat" where
  "heap_new h v = (h\<lparr>cells := (cells h)(next_addr h := Some v), next_addr := Suc (next_addr h)\<rparr>, next_addr h)"

definition heap_write :: "'a heap \<Rightarrow> nat \<Rightarrow> 'a \<Rightarrow> 'a heap" where
  "heap_write h a v = h\<lparr>cells := (cells h)(a := Some v)\<rparr>"

definition heap_delete :: "'a heap \<Rightarrow> nat \<Rightarrow> 'a heap" where
  "heap_delete h a = h\<lparr>cells := (cells h)(a := None)\<rparr>"

definition heap_read :: "'a heap \<Rightarrow> nat \<Rightarrow> 'a outcome" where
  "heap_read h a = (case cells h a of None \<Rightarrow> Inl UseAfterFree | Some v \<Rightarrow> Inr v)"

abbreviation live :: "'a heap \<Rightarrow> nat set" where "live h \<equiv> dom (cells h)"

text \<open>Addresses not handed out yet hold no object.\<close>

definition heap_ok :: "'a heap \<Rightarrow> bool" where
  "heap_ok h \<longleftrightarrow> (\<forall>a \<in> live h. a < next_addr h)"

lemma heap_ok_empty [simp]: "heap_ok heap_empty"
  by (simp add: heap_ok_def heap_empty_def)

lemma cells_empty [simp]: "cells heap_empty a = None"
  by (simp add: heap_empty_def)

lemma heap_ok_write [intro]: "heap_ok h \<Longrightarrow> a \<in> live h \<Longrightarrow> heap_ok (heap_write h a v)"
  by (auto simp: heap_ok_def heap_write_def)

lemma heap_ok_delete [intro]: "heap_ok h \<Longrightarrow> heap_ok (heap_delete h a)"
  by (auto simp: heap_ok_def heap_delete_def split: if_splits)

lemma heap_ok_new [intro]: "heap_ok h \<Longrightarrow> heap_ok (fst (heap_new h v))"
  by (auto simp: heap_ok_def heap_new_def less_Suc_eq split: if_splits)

lemma heap_ok_fresh: "heap_ok h \<Longrightarrow> cells h (next_addr h) = None"
  by (fastforce simp: heap_ok_def)

lemma cells_write [simp]: "cells (heap_write h a v) = (cells h)(a := Some v)"
  by (simp add: heap_write_def)

lemma cells_delete [simp]: "cells (heap_delete h a) = (cells h)(a := None)"
  by (simp add: heap_delete_def)

lemma heap_read_Inr [simp]: "heap_read h a = Inr v \<longleftrightarrow> cells h a = Some v"
  by (simp add: heap_read_def split: option.splits)

lemma heap_read_Some [simp]: "cells h a = Some v \<Longrightarrow> heap_read h a = Inr v"
  by simp

lemma heap_read_None [simp]: "cells h a = None \<Longrightarrow> heap_read h a = Inl UseAfterFree"
  by (simp add: heap_read_def)

text \<open>\<open>delete\<close> of an object, of each object of a list, and the contents of a list of objects.\<close>

definition delete_obj :: "'a heap \<Rightarrow> nat \<Rightarrow> 'a heap outcome" where
  "delete_obj h a = (case cells h a of None \<Rightarrow> Inl UseAfterFree | Some _ \<Rightarrow> Inr (heap_delete h a))"

fun delete_all :: "'a heap \<Rightarrow> nat list \<Rightarrow> 'a heap outcome" where
  "delete_all h [] = Inr h"
| "delete_all h (a # as) = obind (delete_obj h a) (\<lambda>h'. delete_all h' as)"

fun read_all :: "'a heap \<Rightarrow> nat list \<Rightarrow> 'a list outcome" where
  "read_all h [] = Inr []"
| "read_all h (a # as) = obind (heap_read h a) (\<lambda>v. obind (read_all h as) (\<lambda>vs. Inr (v # vs)))"

lemma delete_obj_live [simp]: "a \<in> live h \<Longrightarrow> delete_obj h a = Inr (heap_delete h a)"
  by (auto simp: delete_obj_def)

lemma read_all_live: "set as \<subseteq> live h \<Longrightarrow> read_all h as = Inr (map (\<lambda>a. the (cells h a)) as)"
  by (induction as) auto

lemma delete_all_live:
  assumes "distinct as" and "set as \<subseteq> live h"
  shows "\<exists>h'. delete_all h as = Inr h' \<and> cells h' = (\<lambda>a. if a \<in> set as then None else cells h a) \<and> next_addr h' = next_addr h"
  using assms
proof (induction as arbitrary: h)
  case Nil
  then show ?case by simp
next
  case (Cons a as)
  have "distinct as" "set as \<subseteq> live (heap_delete h a)" using Cons.prems by auto
  from Cons.IH [OF this] obtain h' where h': "delete_all (heap_delete h a) as = Inr h'"
    "cells h' = (\<lambda>x. if x \<in> set as then None else cells (heap_delete h a) x)" "next_addr h' = next_addr (heap_delete h a)"
    by blast
  have "a \<in> live h" using Cons.prems by simp
  then have "delete_all h (a # as) = Inr h'" using h'(1) by (simp add: delete_obj_live del: domIff)
  moreover have "cells h' = (\<lambda>x. if x \<in> set (a # as) then None else cells h x)" using h'(2) by (auto simp: fun_eq_iff)
  ultimately show ?case using h'(3) by (auto simp: heap_delete_def)
qed

section \<open>Counted loops\<close>

text \<open>\<open>for (i = from; i < from + n; i++) body(i)\<close>, on a state, and the rule for a loop that returns.\<close>

fun for_loop :: "(nat \<Rightarrow> 's \<Rightarrow> 's run) \<Rightarrow> nat \<Rightarrow> nat \<Rightarrow> 's \<Rightarrow> 's run" where
  "for_loop body i 0 s = ret s"
| "for_loop body i (Suc n) s = rbind (body i s) (\<lambda>s1. for_loop body (Suc i) n s1)"

lemma for_loop_ok:
  assumes "I i s" and "\<And>j s. i \<le> j \<Longrightarrow> j < i + n \<Longrightarrow> I j s \<Longrightarrow> \<exists>s'. body j s = ret s' \<and> I (Suc j) s'"
  shows "\<exists>s'. for_loop body i n s = ret s' \<and> I (i + n) s'"
  using assms
proof (induction n arbitrary: i s)
  case 0
  then show ?case by simp
next
  case (Suc n)
  obtain s1 where s1: "body i s = ret s1" "I (Suc i) s1" using Suc.prems by force
  have "\<exists>s'. for_loop body (Suc i) n s1 = ret s' \<and> I (Suc i + n) s'"
    by (rule Suc.IH) (use s1 Suc.prems(2) in auto)
  with s1(1) show ?case by simp
qed

lemma for_loop_append:
  "for_loop body i (m + n) s = rbind (for_loop body i m s) (\<lambda>s1. for_loop body (i + m) n s1)"
proof (induction m arbitrary: i s)
  case (Suc m)
  then show ?case by (simp add: rbind_def split: option.split sum.split)
qed simp

text \<open>The result of a call that the caller ignores.\<close>

definition ignore :: "('s \<times> 'r) run \<Rightarrow> 's run" where
  "ignore m = rbind m (\<lambda>(s, r). ret s)"

lemma ignore_simps [simp]: "ignore (ret (s, r)) = ret s" "ignore None = None"
  by (simp_all add: ignore_def)

section \<open>Bytes in memory\<close>

text \<open>
  A byte of memory is \<open>None\<close> while it is uninitialised. A \<open>const void* data\<close> argument is
  \<open>None\<close> for the null pointer and the caller's bytes otherwise. \<open>memcpy dst src n\<close>
  overwrites the first \<open>n\<close> bytes of \<open>dst\<close>; reading past the source is a fault, and so is
  reading from the null pointer.
\<close>

type_synonym mbyte = "u8 option"
type_synonym buffer = "u8 list option"

definition memcpy :: "mbyte list \<Rightarrow> buffer \<Rightarrow> nat \<Rightarrow> mbyte list outcome" where
  "memcpy dst src n =
     (case src of
        None \<Rightarrow> Inl NullRead
      | Some bs \<Rightarrow>
          if length bs < n \<or> length dst < n then Inl OutOfBounds
          else Inr (map Some (take n bs) @ drop n dst))"

lemma memcpy_ok [simp]:
  "n \<le> length bs \<Longrightarrow> n \<le> length dst \<Longrightarrow>
   memcpy dst (Some bs) n = Inr (map Some (take n bs) @ drop n dst)"
  by (simp add: memcpy_def)

lemma memcpy_length: "memcpy dst src n = Inr r \<Longrightarrow> length r = length dst"
  by (auto simp: memcpy_def split: option.splits if_splits)

section \<open>Words and ring positions\<close>

lemma unat_of_nat_small:
  "p < 2 ^ 63 \<Longrightarrow> unat (of_nat p :: u64) = p"
  by (simp add: unat_of_nat take_bit_nat_eq_self_iff)

lemma sint_of_nat_small:
  assumes "p < 2 ^ 63"
  shows "sint (of_nat p :: u64) = int p"
proof -
  have "sint (of_nat p :: u64) = signed_take_bit 63 (int p)"
    by (simp add: signed_of_nat)
  also have "\<dots> = int p"
    using assms by (intro signed_take_bit_int_eq_self) auto
  finally show ?thesis .
qed

text \<open>Two positions less than one turn of the ring apart use different slots.\<close>

lemma ring_index_distinct:
  fixes p r :: nat
  assumes "p < r" and "r - p < C"
  shows "p mod C \<noteq> r mod C"
proof
  assume "p mod C = r mod C"
  then have "C dvd r - p" using assms(1) by (metis less_imp_le_nat mod_eq_dvd_iff_nat)
  then show False using assms by (auto dest: dvd_imp_le)
qed

lemma ring_index_inj:
  fixes p r :: nat
  assumes "p mod C = r mod C" and "p < r + C" and "r < p + C"
  shows "p = r"
proof (cases p r rule: linorder_cases)
  case less
  then have "p mod C \<noteq> r mod C" using assms(3) by (intro ring_index_distinct) auto
  with assms(1) show ?thesis by simp
next
  case greater
  then have "r mod C \<noteq> p mod C" using assms(2) by (intro ring_index_distinct) auto
  with assms(1) show ?thesis by simp
qed simp

text \<open>Every slot belongs to one position of each window of a full turn.\<close>

lemma ring_window:
  fixes p H C :: nat
  assumes "0 < C"
  shows "\<exists>r. H \<le> r \<and> r < H + C \<and> r mod C = p mod C"
proof (intro exI conjI)
  let ?r = "H + (p + (C - 1) * H) mod C"
  show "H \<le> ?r" and "?r < H + C" using assms by simp_all
  have "H + (p + (C - 1) * H) = p + C * H" using assms by (cases C) simp_all
  then show "?r mod C = p mod C" by (metis mod_add_right_eq mod_mult_self2)
qed

text \<open>A capacity that passes the source's \<open>static_assert\<close> is zero or a power of two.\<close>

lemma and_pred_eq_0_power2:
  fixes n :: nat
  assumes "n AND (n - 1) = 0" and "0 < n"
  shows "\<exists>k. n = 2 ^ k"
  using assms
proof (induction n rule: less_induct)
  case (less n)
  show ?case
  proof (cases "even n")
    case True
    then obtain m where m: "n = 2 * m" "0 < m" using less.prems(2) by (auto elim!: evenE)
    then have "n - 1 = 1 + 2 * (m - 1)" by simp
    then have "n AND (n - 1) = 2 * (m AND (m - 1))"
      by (simp add: m and_rec [of "2 * m"])
    with less.prems have "m AND (m - 1) = 0" by simp
    with m less.IH [of m] obtain k where "m = 2 ^ k" by auto
    with m have "n = 2 ^ Suc k" by simp
    then show ?thesis by blast
  next
    case False
    then obtain m where m: "n = 2 * m + 1" by (auto elim!: oddE)
    then have "n AND (n - 1) = 2 * m" by (simp add: and_rec [of "Suc (2 * m)"])
    with less.prems m have "n = 2 ^ 0" by simp
    then show ?thesis by blast
  qed
qed

end
