(* ===== verification/MPMC_Queue.thy ===== *)
theory MPMC_Queue
  imports MC_Prelude
begin

text \<open>
  \<open>src/mpmc_queue.h\<close>, class \<open>MPMCQueue\<close>: the bounded ring buffer with one sequence
  number per slot, as one thread runs it without interference. \<open>MPMC_Concurrent\<close> holds
  the same operations cut into their atomic accesses, for any number of threads.

  Positions and sequence numbers are 64-bit words. The comparison of the source subtracts
  two \<open>intptr_t\<close> values, which is undefined when it overflows: \<open>pdiff\<close> is \<open>None\<close> there and
  the operations end in the fault \<open>SignedOverflow\<close>. A loop that comes back to its head
  with nothing changed never ends, which is the value \<open>None\<close> of \<open>try_push_loop\<close>.

  \<open>ring_inv\<close> is the invariant, \<open>contents\<close> the queue the ring stands for, and \<open>push_room\<close> the
  number of further pushes before the signed subtraction can overflow. The locale
  \<open>bounded_fifo\<close> is the contract every client of the ring relies on.
\<close>

section \<open>The ring\<close>

record 'a slot =
  seq :: u64
  data :: "'a option"

record 'a mpmc =
  m_slots :: "'a slot list"
  m_head :: u64
  m_tail :: u64

definition capacity_assert :: "u64 \<Rightarrow> bool" where
  "capacity_assert C \<longleftrightarrow> (C AND (C - 1)) = 0"

definition capacity :: "'a mpmc \<Rightarrow> nat" where
  "capacity q = length (m_slots q)"

definition MASK :: "'a mpmc \<Rightarrow> u64" where
  "MASK q = of_nat (capacity q) - 1"

definition mpmc_new :: "nat \<Rightarrow> 'a mpmc" where
  "mpmc_new C = \<lparr>m_slots = map (\<lambda>i. \<lparr>seq = of_nat i, data = None\<rparr>) [0..<C], m_head = 0, m_tail = 0\<rparr>"

definition slot_ix :: "'a mpmc \<Rightarrow> u64 \<Rightarrow> nat" where
  "slot_ix q pos = unat (pos AND MASK q)"

definition pdiff :: "u64 \<Rightarrow> u64 \<Rightarrow> int option" where
  "pdiff a b =
     (let d = sint a - sint b in if - (2 ^ 63) \<le> d \<and> d < 2 ^ 63 then Some d else None)"

partial_function (option) try_push_loop :: "'a mpmc \<Rightarrow> 'a \<Rightarrow> u64 \<Rightarrow> ('a mpmc \<times> bool) run" where
  "try_push_loop q item tail =
     (let i = slot_ix q tail; s = m_slots q ! i in
      case pdiff (seq s) tail of
        None \<Rightarrow> Some (Inl SignedOverflow)
      | Some diff \<Rightarrow>
          if diff = 0 then
            if m_tail q = tail
            then ret (q\<lparr>m_tail := tail + 1, m_slots := (m_slots q)[i := \<lparr>seq = tail + 1, data = Some item\<rparr>]\<rparr>, True)
            else try_push_loop q item (m_tail q)
          else if diff < 0 then ret (q, False)
          else try_push_loop q item (m_tail q))"

definition try_push :: "'a mpmc \<Rightarrow> 'a \<Rightarrow> ('a mpmc \<times> bool) run" where
  "try_push q item = try_push_loop q item (m_tail q)"

text \<open>
  \<open>try_pop\<close> writes the item through a reference and returns whether it did: \<open>Some item\<close>
  stands for \<open>true\<close>, \<open>None\<close> for \<open>false\<close>.
\<close>

partial_function (option) try_pop_loop :: "'a mpmc \<Rightarrow> u64 \<Rightarrow> ('a mpmc \<times> 'a option) run" where
  "try_pop_loop q head =
     (let i = slot_ix q head; s = m_slots q ! i in
      case pdiff (seq s) (head + 1) of
        None \<Rightarrow> Some (Inl SignedOverflow)
      | Some diff \<Rightarrow>
          if diff = 0 then
            if m_head q = head
            then (case data s of
                    None \<Rightarrow> Some (Inl UninitRead)
                  | Some item \<Rightarrow>
                      ret (q\<lparr>m_head := head + 1,
                             m_slots := (m_slots q)[i := s\<lparr>seq := head + of_nat (capacity q)\<rparr>]\<rparr>, Some item))
            else try_pop_loop q (m_head q)
          else if diff < 0 then ret (q, None)
          else try_pop_loop q (m_head q))"

definition try_pop :: "'a mpmc \<Rightarrow> ('a mpmc \<times> 'a option) run" where
  "try_pop q = try_pop_loop q (m_head q)"

definition size_approx :: "'a mpmc \<Rightarrow> u64" where
  "size_approx q = (if m_head q \<le> m_tail q then m_tail q - m_head q else 0)"

definition mpmc_empty :: "'a mpmc \<Rightarrow> bool" where
  "mpmc_empty q \<longleftrightarrow> size_approx q = 0"

section \<open>Invariant and abstraction\<close>

definition ring_inv :: "'a mpmc \<Rightarrow> bool" where
  "ring_inv q \<longleftrightarrow>
     (let C = capacity q; H = unat (m_head q); T = unat (m_tail q) in
      (\<exists>k. C = 2 ^ k) \<and> 2 \<le> C \<and> H \<le> T \<and> T \<le> H + C \<and> T + C < 2 ^ 63 \<and>
      (\<forall>p. H \<le> p \<longrightarrow> p < T \<longrightarrow> seq (m_slots q ! (p mod C)) = of_nat (Suc p) \<and> data (m_slots q ! (p mod C)) \<noteq> None) \<and>
      (\<forall>p. T \<le> p \<longrightarrow> p < H + C \<longrightarrow> seq (m_slots q ! (p mod C)) = of_nat p))"

definition contents :: "'a mpmc \<Rightarrow> 'a list" where
  "contents q = map (\<lambda>p. the (data (m_slots q ! (p mod capacity q)))) [unat (m_head q)..<unat (m_tail q)]"

definition push_room :: "'a mpmc \<Rightarrow> nat" where
  "push_room q = 2 ^ 63 - 1 - capacity q - unat (m_tail q)"

lemma ring_invD:
  assumes "ring_inv q"
  shows "2 \<le> capacity q" and "unat (m_head q) \<le> unat (m_tail q)"
    and "unat (m_tail q) \<le> unat (m_head q) + capacity q"
    and "unat (m_tail q) + capacity q < 2 ^ 63"
    and "\<And>p. unat (m_head q) \<le> p \<Longrightarrow> p < unat (m_tail q) \<Longrightarrow>
           seq (m_slots q ! (p mod capacity q)) = of_nat (Suc p)"
    and "\<And>p. unat (m_head q) \<le> p \<Longrightarrow> p < unat (m_tail q) \<Longrightarrow>
           \<exists>x. data (m_slots q ! (p mod capacity q)) = Some x"
    and "\<And>p. unat (m_tail q) \<le> p \<Longrightarrow> p < unat (m_head q) + capacity q \<Longrightarrow>
           seq (m_slots q ! (p mod capacity q)) = of_nat p"
  using assms by (auto simp: ring_inv_def Let_def)

lemma ring_invI:
  assumes "\<exists>k. capacity q = 2 ^ k" and "2 \<le> capacity q" and "unat (m_head q) \<le> unat (m_tail q)"
    and "unat (m_tail q) \<le> unat (m_head q) + capacity q"
    and "unat (m_tail q) + capacity q < 2 ^ 63"
    and "\<And>p. unat (m_head q) \<le> p \<Longrightarrow> p < unat (m_tail q) \<Longrightarrow>
           seq (m_slots q ! (p mod capacity q)) = of_nat (Suc p) \<and> data (m_slots q ! (p mod capacity q)) \<noteq> None"
    and "\<And>p. unat (m_tail q) \<le> p \<Longrightarrow> p < unat (m_head q) + capacity q \<Longrightarrow>
           seq (m_slots q ! (p mod capacity q)) = of_nat p"
  shows "ring_inv q"
  using assms by (auto simp: ring_inv_def Let_def)

lemma ring_inv_power2: "ring_inv q \<Longrightarrow> \<exists>k. capacity q = 2 ^ k"
  by (simp add: ring_inv_def Let_def)

lemma length_contents: "length (contents q) = unat (m_tail q) - unat (m_head q)"
  by (simp add: contents_def)

lemma mask_index:
  assumes "C = 2 ^ k" and "C < 2 ^ 63" and "p < 2 ^ 63"
  shows "unat ((of_nat p :: u64) AND (of_nat C - 1)) = p mod C"
proof -
  have "(of_nat C - 1 :: u64) = mask k"
    using assms(1) by (simp add: mask_eq_exp_minus_1)
  then have "(of_nat p :: u64) AND (of_nat C - 1) = take_bit k (of_nat p)"
    by (simp only: take_bit_eq_mask)
  then have "unat ((of_nat p :: u64) AND (of_nat C - 1)) = take_bit k (unat (of_nat p :: u64))"
    by (simp only: unsigned_take_bit_eq)
  also have "\<dots> = p mod C"
    using assms by (simp only: unat_of_nat_small take_bit_eq_mod)
  finally show ?thesis .
qed

lemma slot_ix_mod:
  assumes "ring_inv q" and "p < 2 ^ 63"
  shows "slot_ix q (of_nat p) = p mod capacity q"
  using assms mask_index [of "capacity q" _ p]
  by (auto simp: slot_ix_def MASK_def ring_inv_def Let_def)

lemma slot_ix_head: "ring_inv q \<Longrightarrow> slot_ix q (m_head q) = unat (m_head q) mod capacity q"
  using slot_ix_mod [of q "unat (m_head q)"] ring_invD(2,4) [of q] by simp

lemma slot_ix_tail: "ring_inv q \<Longrightarrow> slot_ix q (m_tail q) = unat (m_tail q) mod capacity q"
  using slot_ix_mod [of q "unat (m_tail q)"] ring_invD(4) [of q] by simp

lemma pdiff_small:
  assumes "a < 2 ^ 63" and "b < 2 ^ 63"
  shows "pdiff (of_nat a) (of_nat b) = Some (int a - int b)"
proof -
  have "int a < 2 ^ 63" and "int b < 2 ^ 63" using assms by simp_all
  then have "- (2 ^ 63) \<le> int a - int b \<and> int a - int b < 2 ^ 63" by linarith
  then show ?thesis
    using assms by (simp add: pdiff_def sint_of_nat_small)
qed

section \<open>try_push and try_pop implement a bounded queue\<close>

lemma try_push_full:
  assumes inv: "ring_inv q" and full: "length (contents q) = capacity q"
  shows "try_push q x = ret (q, False)"
proof -
  note D = ring_invD [OF inv]
  let ?C = "capacity q" and ?H = "unat (m_head q)" and ?T = "unat (m_tail q)"
  have T: "?T = ?H + ?C" using full D(2) by (simp add: length_contents)
  then have "seq (m_slots q ! (?T mod ?C)) = of_nat (Suc ?H)"
    using D(1) D(5) [of ?H] by simp
  moreover have "pdiff (of_nat (Suc ?H)) (of_nat ?T) = Some (1 - int ?C)"
    using D(1,4) T by (subst pdiff_small) simp_all
  ultimately show ?thesis
    using D(1) inv by (simp add: try_push_def try_push_loop.simps slot_ix_tail)
qed

lemma contents_upd_beyond:
  assumes "ring_inv q" and "unat (m_tail q) < unat (m_head q) + capacity q"
  shows "map (\<lambda>p. the (data (((m_slots q)[unat (m_tail q) mod capacity q := s]) ! (p mod capacity q))))
           [unat (m_head q)..<unat (m_tail q)] = contents q"
  using assms ring_index_distinct [of _ "unat (m_tail q)" "capacity q"]
  by (fastforce simp: contents_def)

lemma try_push_ok:
  assumes inv: "ring_inv q" and free: "length (contents q) < capacity q" and room: "0 < push_room q"
  shows "\<exists>q'. try_push q x = ret (q', True) \<and> ring_inv q' \<and> contents q' = contents q @ [x] \<and>
           capacity q' = capacity q \<and> push_room q' = push_room q - 1"
proof -
  note D = ring_invD [OF inv]
  let ?C = "capacity q" and ?H = "unat (m_head q)" and ?T = "unat (m_tail q)"
  let ?q = "q\<lparr>m_tail := m_tail q + 1, m_slots := (m_slots q)[?T mod ?C := \<lparr>seq = m_tail q + 1, data = Some x\<rparr>]\<rparr>"
  have T: "?T < ?H + ?C" using free D(2) by (simp add: length_contents)
  then have "seq (m_slots q ! (?T mod ?C)) = of_nat ?T" using D(7) [of ?T] by simp
  moreover have "pdiff (of_nat ?T) (of_nat ?T) = Some 0"
    using D(4) by (subst pdiff_small) simp_all
  ultimately have push: "try_push q x = ret (?q, True)"
    using inv by (simp add: try_push_def try_push_loop.simps slot_ix_tail)
  have bound: "?T + 1 + ?C < 2 ^ 63" using room by (simp add: push_room_def)
  then have tail: "unat (m_tail q + 1) = Suc ?T"
    by (simp add: unat_word_ariths)
  have len: "?T mod ?C < length (m_slots q)" using D(1) by (simp add: capacity_def [symmetric])
  have other: "p mod ?C \<noteq> ?T mod ?C" if "?H \<le> p" "p < ?H + ?C" "p \<noteq> ?T" for p
    using that T D(2) ring_index_inj [of p ?C ?T] by linarith
  have tail_nat: "m_tail q + 1 = of_nat (Suc ?T)" by simp
  have "ring_inv ?q"
  proof (rule ring_invI)
    fix p assume p: "unat (m_head ?q) \<le> p" "p < unat (m_tail ?q)"
    show "seq (m_slots ?q ! (p mod capacity ?q)) = of_nat (Suc p) \<and> data (m_slots ?q ! (p mod capacity ?q)) \<noteq> None"
    proof (cases "p = ?T")
      case True
      with len show ?thesis by (simp add: capacity_def)
    next
      case False
      with p have "p < ?T" by (simp add: tail)
      with p(1) T False other [of p] have "p mod ?C \<noteq> ?T mod ?C" by simp
      with p(1) \<open>p < ?T\<close> D(5,6) [of p] show ?thesis by (auto simp: capacity_def)
    qed
  next
    fix p assume p: "unat (m_tail ?q) \<le> p" "p < unat (m_head ?q) + capacity ?q"
    then have "?T < p" "p < ?H + ?C" by (simp_all add: tail capacity_def)
    then have "p mod ?C \<noteq> ?T mod ?C" using D(2) by (intro other) auto
    with D(7) [of p] \<open>?T < p\<close> \<open>p < ?H + ?C\<close>
    show "seq (m_slots ?q ! (p mod capacity ?q)) = of_nat p" by (simp add: capacity_def)
  qed (use D T bound ring_inv_power2 [OF inv] in \<open>simp_all add: tail capacity_def\<close>)
  moreover have "contents ?q = contents q @ [x]"
    unfolding contents_def [of ?q]
    using D(2) len contents_upd_beyond [OF inv T] by (simp add: tail capacity_def)
  moreover have "push_room ?q = push_room q - 1"
    by (simp add: push_room_def tail capacity_def)
  ultimately show ?thesis using push by (auto simp: capacity_def)
qed

lemma try_pop_empty:
  assumes inv: "ring_inv q" and empty: "contents q = []"
  shows "try_pop q = ret (q, None)"
proof -
  note D = ring_invD [OF inv]
  let ?C = "capacity q" and ?H = "unat (m_head q)"
  have "unat (m_tail q) = ?H" using empty D(2) by (auto simp: contents_def)
  then have "seq (m_slots q ! (?H mod ?C)) = of_nat ?H" using D(1) D(7) [of ?H] by simp
  moreover have "m_head q + 1 = of_nat (Suc ?H)" by simp
  moreover have "pdiff (of_nat ?H) (of_nat (Suc ?H)) = Some (- 1)"
    using D(2,4) \<open>unat (m_tail q) = ?H\<close> D(1) by (subst pdiff_small) simp_all
  ultimately show ?thesis
    using inv by (simp add: try_pop_def try_pop_loop.simps slot_ix_head add.commute Let_def)
qed

lemma contents_Cons:
  assumes "ring_inv q" and "contents q = x # xs"
  shows "unat (m_head q) < unat (m_tail q)"
    and "data (m_slots q ! (unat (m_head q) mod capacity q)) = Some x"
    and "xs = map (\<lambda>p. the (data (m_slots q ! (p mod capacity q)))) [Suc (unat (m_head q))..<unat (m_tail q)]"
proof -
  show lt: "unat (m_head q) < unat (m_tail q)"
    using assms(2) by (cases "unat (m_head q) < unat (m_tail q)") (simp_all add: contents_def)
  show "xs = map (\<lambda>p. the (data (m_slots q ! (p mod capacity q)))) [Suc (unat (m_head q))..<unat (m_tail q)]"
    using assms(2) lt by (simp add: contents_def upt_conv_Cons)
  show "data (m_slots q ! (unat (m_head q) mod capacity q)) = Some x"
    using assms lt ring_invD(6) [OF assms(1), of "unat (m_head q)"]
    by (auto simp: contents_def upt_conv_Cons)
qed

lemma try_pop_ok:
  assumes inv: "ring_inv q" and cont: "contents q = x # xs"
  shows "\<exists>q'. try_pop q = ret (q', Some x) \<and> ring_inv q' \<and> contents q' = xs \<and>
           capacity q' = capacity q \<and> push_room q' = push_room q"
proof -
  note D = ring_invD [OF inv] and K = contents_Cons [OF inv cont]
  let ?C = "capacity q" and ?H = "unat (m_head q)" and ?T = "unat (m_tail q)"
  let ?s = "m_slots q ! (?H mod ?C)"
  let ?q = "q\<lparr>m_head := m_head q + 1, m_slots := (m_slots q)[?H mod ?C := ?s\<lparr>seq := m_head q + of_nat ?C\<rparr>]\<rparr>"
  have seqH: "seq ?s = of_nat (Suc ?H)" using D(5) [of ?H] K(1) by simp
  have hd1: "m_head q + 1 = of_nat (Suc ?H)" by simp
  have "pdiff (of_nat (Suc ?H)) (of_nat (Suc ?H)) = Some 0"
    using D(2,4) D(1) by (subst pdiff_small) simp_all
  with seqH K(2) have pop: "try_pop q = ret (?q, Some x)"
    using inv by (simp add: try_pop_def try_pop_loop.simps slot_ix_head add.commute Let_def)
  have head: "unat (m_head q + 1) = Suc ?H"
    using D(2,4) K(1) by (simp add: unat_word_ariths)
  have len: "?H mod ?C < length (m_slots q)" using D(1) by (simp add: capacity_def [symmetric])
  have other: "p mod ?C \<noteq> ?H mod ?C" if "?H < p" "p < ?H + ?C" for p
    using that ring_index_inj [of p ?C ?H] by linarith
  have "ring_inv ?q"
  proof (rule ring_invI)
    fix p assume p: "unat (m_head ?q) \<le> p" "p < unat (m_tail ?q)"
    then have "?H < p" "p < ?T" by (simp_all add: head)
    with D(3) other [of p] D(5,6) [of p]
    show "seq (m_slots ?q ! (p mod capacity ?q)) = of_nat (Suc p) \<and> data (m_slots ?q ! (p mod capacity ?q)) \<noteq> None"
      by (auto simp: capacity_def)
  next
    fix p assume p: "unat (m_tail ?q) \<le> p" "p < unat (m_head ?q) + capacity ?q"
    show "seq (m_slots ?q ! (p mod capacity ?q)) = of_nat p"
    proof (cases "p = ?H + ?C")
      case True
      with len show ?thesis by (simp add: capacity_def)
    next
      case False
      with p K(1) have "?H < p" "p < ?H + ?C" by (simp_all add: head capacity_def)
      with p(1) other [of p] D(7) [of p] show ?thesis by (simp add: capacity_def)
    qed
  qed (use D K(1) ring_inv_power2 [OF inv] in \<open>simp_all add: head capacity_def\<close>)
  moreover have "contents ?q = xs"
    unfolding K(3) contents_def
    using D(3) other [THEN not_sym] by (intro map_cong) (auto simp: head capacity_def)
  moreover have "push_room ?q = push_room q" by (simp add: push_room_def capacity_def)
  ultimately show ?thesis using pop by (auto simp: capacity_def)
qed

lemma mpmc_new_inv:
  assumes "C = 2 ^ k" and "1 \<le> k" and "k \<le> 61"
  shows "ring_inv (mpmc_new C :: 'a mpmc)" and "contents (mpmc_new C :: 'a mpmc) = []"
    and "capacity (mpmc_new C :: 'a mpmc) = C" and "push_room (mpmc_new C :: 'a mpmc) = 2 ^ 63 - 1 - C"
proof -
  have "(2 :: nat) ^ 1 \<le> 2 ^ k" using assms(2) by (intro power_increasing) auto
  moreover have "(2 :: nat) ^ k \<le> 2 ^ 61" using assms(3) by (intro power_increasing) auto
  ultimately have C: "2 \<le> C" "C < 2 ^ 63" using assms(1) by simp_all
  show "ring_inv (mpmc_new C :: 'a mpmc)"
    using C assms(1) by (intro ring_invI) (auto simp: capacity_def mpmc_new_def)
  show "contents (mpmc_new C :: 'a mpmc) = []" by (simp add: contents_def mpmc_new_def)
  show "capacity (mpmc_new C :: 'a mpmc) = C" by (simp add: capacity_def mpmc_new_def)
  show "push_room (mpmc_new C :: 'a mpmc) = 2 ^ 63 - 1 - C"
    by (simp only: push_room_def capacity_def) (simp add: mpmc_new_def)
qed

lemma length_contents_le: "ring_inv q \<Longrightarrow> length (contents q) \<le> capacity q"
  using ring_invD(2,3) [of q] by (simp add: length_contents)

lemma size_approx_contents:
  assumes "ring_inv q"
  shows "unat (size_approx q) = length (contents q)"
proof -
  have "m_head q \<le> m_tail q" using ring_invD(2) [OF assms] by (simp add: word_le_nat_alt)
  then show ?thesis by (simp add: size_approx_def unat_sub length_contents)
qed

lemma mpmc_empty_contents: "ring_inv q \<Longrightarrow> mpmc_empty q \<longleftrightarrow> contents q = []"
  using size_approx_contents [of q] by (auto simp: mpmc_empty_def unat_eq_zero simp flip: length_0_conv)

section \<open>The contract of a bounded first-in first-out queue\<close>

text \<open>
  What the event queues rely on: a push appends when there is room and otherwise changes
  nothing, a pop removes the oldest item. \<open>room\<close> is how many more pushes the queue can
  take in its life.
\<close>

locale bounded_fifo =
  fixes push :: "'q \<Rightarrow> 'a \<Rightarrow> ('q \<times> bool) run"
    and pop :: "'q \<Rightarrow> ('q \<times> 'a option) run"
    and inv :: "'q \<Rightarrow> bool"
    and items :: "'q \<Rightarrow> 'a list"
    and cap :: "'q \<Rightarrow> nat"
    and room :: "'q \<Rightarrow> nat"
  assumes push_full: "inv q \<Longrightarrow> length (items q) = cap q \<Longrightarrow> push q x = ret (q, False)"
    and push_ok: "inv q \<Longrightarrow> length (items q) < cap q \<Longrightarrow> 0 < room q \<Longrightarrow>
      \<exists>q'. push q x = ret (q', True) \<and> inv q' \<and> items q' = items q @ [x] \<and> cap q' = cap q \<and> room q' = room q - 1"
    and pop_empty: "inv q \<Longrightarrow> items q = [] \<Longrightarrow> pop q = ret (q, None)"
    and pop_ok: "inv q \<Longrightarrow> items q = x # xs \<Longrightarrow>
      \<exists>q'. pop q = ret (q', Some x) \<and> inv q' \<and> items q' = xs \<and> cap q' = cap q \<and> room q' = room q"
    and items_le_cap: "inv q \<Longrightarrow> length (items q) \<le> cap q"

text \<open>
  \<open>while (!queue.try_push(msg)) std::this_thread::yield();\<close> of every \<open>post\<close>, and pushing
  or popping several items in a row.
\<close>

partial_function (option) push_spin :: "('q \<Rightarrow> 'a \<Rightarrow> ('q \<times> bool) run) \<Rightarrow> 'q \<Rightarrow> 'a \<Rightarrow> 'q run" where
  "push_spin push q x = rbind (push q x) (\<lambda>r. if snd r then ret (fst r) else push_spin push (fst r) x)"

fun push_all :: "('q \<Rightarrow> 'a \<Rightarrow> ('q \<times> bool) run) \<Rightarrow> 'q \<Rightarrow> 'a list \<Rightarrow> 'q run" where
  "push_all push q [] = ret q"
| "push_all push q (x # xs) = rbind (push_spin push q x) (\<lambda>q'. push_all push q' xs)"

fun pop_times :: "('q \<Rightarrow> ('q \<times> 'a option) run) \<Rightarrow> nat \<Rightarrow> 'q \<Rightarrow> ('q \<times> 'a list) run" where
  "pop_times pop 0 q = ret (q, [])"
| "pop_times pop (Suc n) q =
     rbind (pop q) (\<lambda>(q', r). case r of
       None \<Rightarrow> ret (q', [])
     | Some x \<Rightarrow> rbind (pop_times pop n q') (\<lambda>(q'', xs). ret (q'', x # xs)))"

lemma push_spin_stuck:
  assumes "push q x = ret (q, False)"
  shows "push_spin push q x = None"
proof (rule ccontr)
  assume "push_spin push q x \<noteq> None"
  then obtain r where r: "(case ((push, q), x) of (x, xa) \<Rightarrow> (case x of (x, xa) \<Rightarrow> push_spin x xa) xa) = Some r" by auto
  have "(case ((push, q), x) of (x, xa) \<Rightarrow> (case x of (push, q) \<Rightarrow> \<lambda>x r. push q x \<noteq> ret (q, False)) xa) r"
    by (rule push_spin.raw_induct [where P = "\<lambda>push q x r. push q x \<noteq> ret (q, False)", OF _ r]) auto
  with assms show False by simp
qed

context bounded_fifo
begin

lemma push_spin_ok:
  assumes "inv q" and "length (items q) < cap q" and "0 < room q"
  shows "\<exists>q'. push_spin push q x = ret q' \<and> inv q' \<and> items q' = items q @ [x] \<and> cap q' = cap q \<and> room q' = room q - 1"
  using push_ok [OF assms, of x] by (auto simp: push_spin.simps)

lemma push_spin_diverges:
  assumes "inv q" and "length (items q) = cap q"
  shows "push_spin push q x = None"
  by (rule push_spin_stuck) (rule push_full [OF assms])

lemma push_spin_returns_iff:
  assumes "inv q" and "0 < room q"
  shows "push_spin push q x \<noteq> None \<longleftrightarrow> length (items q) < cap q"
  using push_spin_ok [OF assms(1) _ assms(2), of x] push_spin_diverges [OF assms(1), of x]
    items_le_cap [OF assms(1)] by force

lemma push_all_ok:
  assumes "inv q" and "length (items q) + length xs \<le> cap q" and "length xs \<le> room q"
  shows "\<exists>q'. push_all push q xs = ret q' \<and> inv q' \<and> items q' = items q @ xs \<and> cap q' = cap q \<and> room q' = room q - length xs"
  using assms
proof (induction xs arbitrary: q)
  case Nil
  then show ?case by simp
next
  case (Cons x xs)
  then obtain q' where q': "push_spin push q x = ret q'" "inv q'" "items q' = items q @ [x]"
      "cap q' = cap q" "room q' = room q - 1"
    using push_spin_ok [of q x] by auto
  with Cons.prems Cons.IH [of q'] show ?case by auto
qed

lemma pop_times_ok:
  assumes "inv q" and "n \<le> length (items q)"
  shows "\<exists>q'. pop_times pop n q = ret (q', take n (items q)) \<and> inv q' \<and> items q' = drop n (items q)"
  using assms
proof (induction n arbitrary: q)
  case 0
  then show ?case by simp
next
  case (Suc n)
  then obtain x xs where x: "items q = x # xs" by (cases "items q") auto
  with Suc.prems pop_ok obtain q' where q': "pop q = ret (q', Some x)" "inv q'" "items q' = xs" by blast
  with Suc.prems x Suc.IH [of q'] show ?case by auto
qed

lemma pop_times_min:
  assumes "inv q"
  shows "\<exists>q'. pop_times pop n q = ret (q', take n (items q)) \<and> inv q' \<and> items q' = drop n (items q) \<and>
    cap q' = cap q \<and> room q' = room q"
  using assms
proof (induction n arbitrary: q)
  case 0
  then show ?case by simp
next
  case (Suc n)
  show ?case
  proof (cases "items q")
    case Nil
    then show ?thesis using pop_empty [OF Suc.prems] Suc.prems by simp
  next
    case (Cons x xs)
    then obtain q' where q': "pop q = ret (q', Some x)" "inv q'" "items q' = xs" "cap q' = cap q" "room q' = room q"
      using pop_ok [OF Suc.prems] by blast
    with Cons Suc.IH [of q'] show ?thesis by auto
  qed
qed

lemma fifo_roundtrip:
  assumes "inv q" and "items q = []" and "length xs \<le> cap q" and "length xs \<le> room q"
  shows "\<exists>q' q''. push_all push q xs = ret q' \<and> pop_times pop (length xs) q' = ret (q'', xs) \<and> items q'' = []"
proof -
  obtain q' where q': "push_all push q xs = ret q'" "inv q'" "items q' = xs"
    using push_all_ok [of q xs] assms by auto
  then show ?thesis using pop_times_ok [of q' "length xs"] by auto
qed

end

interpretation ring: bounded_fifo try_push try_pop ring_inv contents capacity push_room
  by unfold_locales
    (blast intro: try_push_full try_push_ok try_pop_empty try_pop_ok length_contents_le)+

section \<open>Capacities\<close>

lemma capacity_assert_iff: "capacity_assert C \<longleftrightarrow> C = 0 \<or> (\<exists>k. unat C = 2 ^ k)"
proof
  assume "capacity_assert C"
  then have "unat (C AND (C - 1)) = 0" by (simp add: capacity_assert_def)
  then have and0: "unat C AND unat (C - 1) = 0" by (simp only: unsigned_and_eq)
  show "C = 0 \<or> (\<exists>k. unat C = 2 ^ k)"
  proof (cases "C = 0")
    case False
    then have "unat (C - 1) = unat C - 1" by (simp add: unat_minus_one)
    with and0 False and_pred_eq_0_power2 [of "unat C"] show ?thesis by (auto simp: unat_gt_0)
  qed simp
next
  assume "C = 0 \<or> (\<exists>k. unat C = 2 ^ k)"
  then show "capacity_assert C"
  proof
    assume "\<exists>k. unat C = 2 ^ k"
    then obtain k where "unat C = 2 ^ k" ..
    then have "of_nat (unat C) = (2 ^ k :: u64)" by simp
    then have C: "C = 2 ^ k" by simp
    then have "C AND (C - 1) = take_bit k (2 ^ k)"
      by (simp only: take_bit_eq_mask mask_eq_exp_minus_1)
    also have "\<dots> = 0" by (simp add: take_bit_eq_mod)
    finally show ?thesis by (simp add: capacity_assert_def)
  qed (simp add: capacity_assert_def)
qed

text \<open>With one slot, "published" and "free for the next turn" are the same sequence number.\<close>

lemma try_pop_loop_stuck:
  assumes "pdiff (seq (m_slots q ! slot_ix q (m_head q))) (m_head q + 1) = Some d" and "0 < d"
  shows "try_pop_loop q (m_head q) = None"
proof (rule ccontr)
  assume "try_pop_loop q (m_head q) \<noteq> None"
  then obtain r where r: "try_pop_loop q (m_head q) = Some r" by blast
  have "m_head q = m_head q \<longrightarrow> \<not> (\<exists>d > 0. pdiff (seq (m_slots q ! slot_ix q (m_head q))) (m_head q + 1) = Some d)"
    by (rule try_pop_loop.raw_induct [where P =
          "\<lambda>q h r. h = m_head q \<longrightarrow> \<not> (\<exists>d > 0. pdiff (seq (m_slots q ! slot_ix q h)) (h + 1) = Some d)", OF _ r])
      (auto simp: Let_def)
  with assms show False by blast
qed

section \<open>Properties\<close>

text \<open>
  C38. Functional correctness of \<open>try_push\<close> and \<open>try_pop\<close>: the push returns whether the
  ring has a free slot and appends the item exactly then; the pop returns and removes the
  oldest item, or reports an empty ring and changes nothing. Neither faults nor loops.
\<close>

theorem ring_push_pop_spec:
  assumes "ring_inv q" and "0 < push_room q"
  shows "(\<exists>q'. try_push q x = ret (q', length (contents q) < capacity q) \<and> ring_inv q' \<and>
            contents q' = contents q @ (if length (contents q) < capacity q then [x] else [])) \<and>
         (\<exists>q'. try_pop q = ret (q', case contents q of [] \<Rightarrow> None | y # ys \<Rightarrow> Some y) \<and> ring_inv q' \<and>
            contents q' = tl (contents q))"
proof (intro conjI)
  show "\<exists>q'. try_push q x = ret (q', length (contents q) < capacity q) \<and> ring_inv q' \<and>
          contents q' = contents q @ (if length (contents q) < capacity q then [x] else [])"
    using try_push_ok [OF assms(1) _ assms(2), of x] try_push_full [OF assms(1), of x] assms(1)
      length_contents_le [OF assms(1)]
    by (cases "length (contents q) < capacity q") auto
  show "\<exists>q'. try_pop q = ret (q', case contents q of [] \<Rightarrow> None | y # ys \<Rightarrow> Some y) \<and> ring_inv q' \<and>
          contents q' = tl (contents q)"
    using try_pop_ok [OF assms(1)] try_pop_empty [OF assms(1)] assms(1)
    by (cases "contents q") auto
qed

theorem ring_push_pop_spec_witness:
  "ring_inv (mpmc_new 4 :: nat mpmc) \<and> (\<exists>q'. try_push (mpmc_new 4) (5 :: nat) = ret (q', True) \<and> contents q' = [5])"
  using mpmc_new_inv [of 4 2, where 'a = nat] ring_push_pop_spec [of "mpmc_new 4 :: nat mpmc" 5] by auto

text \<open>
  Round trip: pushing any items that fit into an empty ring and popping as many gives
  the same items in the same order and leaves the ring empty, and \<open>size_approx\<close> and
  \<open>empty\<close> are exact when no other thread runs.
\<close>

theorem ring_roundtrip:
  assumes "ring_inv q" and "contents q = []" and "length xs \<le> capacity q" and "length xs \<le> push_room q"
  shows "\<exists>q' q''. push_all try_push q xs = ret q' \<and> unat (size_approx q') = length xs \<and>
           pop_times try_pop (length xs) q' = ret (q'', xs) \<and> mpmc_empty q''"
proof -
  obtain q' where q': "push_all try_push q xs = ret q'" "ring_inv q'" "contents q' = xs"
    using ring.push_all_ok [of q xs] assms by auto
  moreover obtain q'' where "pop_times try_pop (length xs) q' = ret (q'', xs)" "ring_inv q''" "contents q'' = []"
    using ring.pop_times_ok [of q' "length xs"] q' by auto
  ultimately show ?thesis using size_approx_contents [of q'] mpmc_empty_contents [of q''] by auto
qed

theorem ring_roundtrip_witness:
  "\<exists>q' q''. push_all try_push (mpmc_new 4) [1, 2, 3 :: nat] = ret q' \<and>
     pop_times try_pop (length [1, 2, 3 :: nat]) q' = ret (q'', [1, 2, 3])"
proof -
  have new: "ring_inv (mpmc_new 4 :: nat mpmc)" "contents (mpmc_new 4 :: nat mpmc) = []"
      "length [1, 2, 3 :: nat] \<le> capacity (mpmc_new 4 :: nat mpmc)" "length [1, 2, 3 :: nat] \<le> push_room (mpmc_new 4 :: nat mpmc)"
    using mpmc_new_inv [of 4 2, where 'a = nat] by simp_all
  show ?thesis using ring_roundtrip [OF new] by blast
qed

text \<open>
  The loop \<open>while (!queue.try_push(msg)) yield();\<close> of the \<open>post\<close> functions returns
  exactly when the ring is not full; on a full ring that no other thread empties it never
  returns.
\<close>

theorem ring_push_spin_returns_iff:
  assumes "ring_inv q" and "0 < push_room q"
  shows "push_spin try_push q x \<noteq> None \<longleftrightarrow> length (contents q) < capacity q"
  by (rule ring.push_spin_returns_iff [OF assms])

theorem ring_push_spin_returns_iff_witness:
  "push_spin try_push (mpmc_new 2) (7 :: nat) \<noteq> None"
  using ring_push_spin_returns_iff [of "mpmc_new 2" "7 :: nat"] mpmc_new_inv [of 2 1, where 'a = nat] by simp

text \<open>
  The \<open>static_assert\<close> lets a capacity of one through, and such a ring loses items: the
  second push overwrites the first item and both return \<open>true\<close>, and the next \<open>try_pop\<close>
  never returns.
\<close>

theorem ring_capacity_one_broken:
  "capacity_assert 1 \<and>
   (\<exists>q q' :: nat mpmc. try_push (mpmc_new 1) 7 = ret (q, True) \<and> try_push q 8 = ret (q', True) \<and>
      map data (m_slots q') = [Some 8] \<and> try_pop q' = None)"
proof (intro conjI exI)
  let ?q = "\<lambda>t x. \<lparr>m_slots = [\<lparr>seq = t, data = Some x\<rparr>], m_head = 0, m_tail = t\<rparr> :: nat mpmc"
  show "capacity_assert 1" by (simp add: capacity_assert_def)
  show "try_push (mpmc_new 1) 7 = ret (?q 1 7, True)"
    by (simp add: try_push_def try_push_loop.simps mpmc_new_def slot_ix_def MASK_def capacity_def pdiff_def)
  show "try_push (?q 1 7) 8 = ret (?q 2 8, True)"
    by (simp add: try_push_def try_push_loop.simps slot_ix_def MASK_def capacity_def pdiff_def)
  show "map data (m_slots (?q 2 8)) = [Some 8]" by simp
  show "try_pop (?q 2 8) = None"
    unfolding try_pop_def
    by (rule try_pop_loop_stuck [where d = 1]) (simp_all add: slot_ix_def MASK_def capacity_def pdiff_def)
qed

end
