(* ===== verification/MPMC_Concurrent.thy ===== *)
theory MPMC_Concurrent
  imports MPMC_Queue
begin

text \<open>
  \<open>src/mpmc_queue.h\<close> again, for any number of threads that call \<open>try_push\<close> and \<open>try_pop\<close>
  on one ring. Each atomic access and each access to \<open>slot.data\<close> is one step, steps of
  different threads interleave in any order, and \<open>compare_exchange_weak\<close> may fail for no
  reason. The steps are sequentially consistent: the memory orders of the source, which
  are weaker, are not modelled.

  \<open>thread_step\<close> is one step of one thread; \<open>sys_step\<close> adds the history: \<open>pushed\<close> lists the
  items in the order their positions were claimed, \<open>popped\<close> counts the claims of \<open>try_pop\<close>,
  and \<open>returned p\<close> is what the call that claimed position \<open>p\<close> gave its caller. The history
  has no effect on the steps. \<open>sys_inv\<close> is the invariant; it holds as long as the number
  of pushes stays below \<open>2 ^ 63\<close> minus the capacity.
\<close>

section \<open>Threads\<close>

datatype 'a pc =
    Idle
  | PushLoad 'a              \<comment> \<open>load \<open>m_tail\<close>\<close>
  | PushSeq 'a u64           \<comment> \<open>load \<open>slot.seq\<close> and branch on the difference\<close>
  | PushCas 'a u64           \<comment> \<open>\<open>m_tail.compare_exchange_weak(tail, tail + 1)\<close>\<close>
  | PushData 'a u64          \<comment> \<open>\<open>slot.data = item\<close>\<close>
  | PushPub u64              \<comment> \<open>\<open>slot.seq.store(tail + 1)\<close>\<close>
  | PushDone bool
  | PopLoad                  \<comment> \<open>load \<open>m_head\<close>\<close>
  | PopSeq u64               \<comment> \<open>load \<open>slot.seq\<close> and branch on the difference\<close>
  | PopCas u64               \<comment> \<open>\<open>m_head.compare_exchange_weak(head, head + 1)\<close>\<close>
  | PopData u64              \<comment> \<open>\<open>item = slot.data\<close>\<close>
  | PopPub u64 "'a option"   \<comment> \<open>\<open>slot.seq.store(head + Capacity)\<close>\<close>
  | PopDone bool "'a option"
  | Stuck fault

definition slot_upd :: "'a mpmc \<Rightarrow> u64 \<Rightarrow> ('a slot \<Rightarrow> 'a slot) \<Rightarrow> 'a mpmc" where
  "slot_upd q pos f = q\<lparr>m_slots := (m_slots q)[slot_ix q pos := f (m_slots q ! slot_ix q pos)]\<rparr>"

fun thread_step :: "bool \<Rightarrow> 'a mpmc \<Rightarrow> 'a pc \<Rightarrow> 'a mpmc \<times> 'a pc" where
  "thread_step fail q (PushLoad x) = (q, PushSeq x (m_tail q))"
| "thread_step fail q (PushSeq x tail) =
     (case pdiff (seq (m_slots q ! slot_ix q tail)) tail of
        None \<Rightarrow> (q, Stuck SignedOverflow)
      | Some diff \<Rightarrow>
          (q, if diff = 0 then PushCas x tail else if diff < 0 then PushDone False else PushLoad x))"
| "thread_step fail q (PushCas x tail) =
     (if m_tail q = tail \<and> \<not> fail
      then (q\<lparr>m_tail := tail + 1\<rparr>, PushData x tail)
      else (q, PushSeq x (m_tail q)))"
| "thread_step fail q (PushData x tail) = (slot_upd q tail (\<lambda>s. s\<lparr>data := Some x\<rparr>), PushPub tail)"
| "thread_step fail q (PushPub tail) = (slot_upd q tail (\<lambda>s. s\<lparr>seq := tail + 1\<rparr>), PushDone True)"
| "thread_step fail q PopLoad = (q, PopSeq (m_head q))"
| "thread_step fail q (PopSeq head) =
     (case pdiff (seq (m_slots q ! slot_ix q head)) (head + 1) of
        None \<Rightarrow> (q, Stuck SignedOverflow)
      | Some diff \<Rightarrow>
          (q, if diff = 0 then PopCas head else if diff < 0 then PopDone False None else PopLoad))"
| "thread_step fail q (PopCas head) =
     (if m_head q = head \<and> \<not> fail
      then (q\<lparr>m_head := head + 1\<rparr>, PopData head)
      else (q, PopSeq (m_head q)))"
| "thread_step fail q (PopData head) = (q, PopPub head (data (m_slots q ! slot_ix q head)))"
| "thread_step fail q (PopPub head item) =
     (slot_upd q head (\<lambda>s. s\<lparr>seq := head + of_nat (capacity q)\<rparr>), PopDone True item)"
| "thread_step fail q Idle = (q, Idle)"
| "thread_step fail q (PushDone b) = (q, PushDone b)"
| "thread_step fail q (PopDone b item) = (q, PopDone b item)"
| "thread_step fail q (Stuck f) = (q, Stuck f)"

section \<open>The system\<close>

record 'a sys =
  ring :: "'a mpmc"
  pcs :: "nat \<Rightarrow> 'a pc"
  pushed :: "'a list"
  popped :: nat
  returned :: "nat \<Rightarrow> 'a option"

definition sys_step :: "nat \<Rightarrow> bool \<Rightarrow> 'a sys \<Rightarrow> 'a sys" where
  "sys_step t fail s =
     (let (q, pc) = thread_step fail (ring s) (pcs s t) in
      s\<lparr>ring := q,
        pcs := (pcs s)(t := pc),
        pushed := (case pc of
                     PushData x _ \<Rightarrow> (case pcs s t of PushCas _ _ \<Rightarrow> pushed s @ [x] | _ \<Rightarrow> pushed s)
                   | _ \<Rightarrow> pushed s),
        popped := (case pc of
                     PopData _ \<Rightarrow> (case pcs s t of PopCas _ \<Rightarrow> Suc (popped s) | _ \<Rightarrow> popped s)
                   | _ \<Rightarrow> popped s),
        returned := (case pcs s t of
                       PopPub head item \<Rightarrow> (returned s)(unat head := item)
                     | _ \<Rightarrow> returned s)\<rparr>)"

definition sys_init :: "nat \<Rightarrow> 'a sys" where
  "sys_init C = \<lparr>ring = mpmc_new C, pcs = (\<lambda>_. Idle), pushed = [], popped = 0, returned = (\<lambda>_. None)\<rparr>"

inductive step :: "'a sys \<Rightarrow> 'a sys \<Rightarrow> bool" where
  call_push: "pcs s t = Idle \<Longrightarrow> step s (s\<lparr>pcs := (pcs s)(t := PushLoad x)\<rparr>)"
| call_pop: "pcs s t = Idle \<Longrightarrow> step s (s\<lparr>pcs := (pcs s)(t := PopLoad)\<rparr>)"
| access: "step s (sys_step t fail s)"
| push_return: "pcs s t = PushDone b \<Longrightarrow> step s (s\<lparr>pcs := (pcs s)(t := Idle)\<rparr>)"
| pop_return: "pcs s t = PopDone b item \<Longrightarrow> step s (s\<lparr>pcs := (pcs s)(t := Idle)\<rparr>)"

inductive reachable :: "nat \<Rightarrow> 'a sys \<Rightarrow> bool" for C where
  reach_init: "reachable C (sys_init C)"
| reach_step: "reachable C s \<Longrightarrow> step s s' \<Longrightarrow> reachable C s'"

section \<open>The invariant\<close>

definition slot_at :: "'a mpmc \<Rightarrow> nat \<Rightarrow> 'a slot" where
  "slot_at q p = m_slots q ! (p mod capacity q)"

abbreviation seq_at :: "'a mpmc \<Rightarrow> nat \<Rightarrow> nat" where
  "seq_at q p \<equiv> unat (seq (slot_at q p))"

text \<open>
  The ring: positions from \<open>H\<close> to \<open>T\<close> are claimed by a push and not yet by a pop, and
  their slot is either published (with the item) or still being written; positions from
  \<open>T\<close> to \<open>H + C\<close> are free, or their slot is still being read for the position one turn
  earlier.
\<close>

definition ring_ok :: "'a mpmc \<Rightarrow> 'a list \<Rightarrow> nat \<Rightarrow> bool" where
  "ring_ok q xs H \<longleftrightarrow>
     (\<exists>k. capacity q = 2 ^ k) \<and> 2 \<le> capacity q \<and>
     unat (m_tail q) = length xs \<and> unat (m_head q) = H \<and>
     H \<le> length xs \<and> length xs \<le> H + capacity q \<and> length xs + capacity q < 2 ^ 63 \<and>
     (\<forall>p. H \<le> p \<longrightarrow> p < length xs \<longrightarrow>
        seq_at q p = p \<or> seq_at q p = Suc p \<and> data (slot_at q p) = Some (xs ! p)) \<and>
     (\<forall>p. length xs \<le> p \<longrightarrow> p < H + capacity q \<longrightarrow>
        seq_at q p = p \<or> capacity q \<le> p \<and> seq_at q p = Suc (p - capacity q))"

fun pc_ok :: "'a mpmc \<Rightarrow> 'a list \<Rightarrow> nat \<Rightarrow> 'a pc \<Rightarrow> bool" where
  "pc_ok q xs H (PushSeq x w) = (unat w \<le> length xs)"
| "pc_ok q xs H (PushCas x w) =
     (unat w \<le> length xs \<and> (unat w = length xs \<longrightarrow> seq_at q (unat w) = unat w))"
| "pc_ok q xs H (PushData x w) =
     (H \<le> unat w \<and> unat w < length xs \<and> xs ! unat w = x \<and> seq_at q (unat w) = unat w)"
| "pc_ok q xs H (PushPub w) =
     (H \<le> unat w \<and> unat w < length xs \<and> seq_at q (unat w) = unat w \<and>
      data (slot_at q (unat w)) = Some (xs ! unat w))"
| "pc_ok q xs H (PopSeq w) = (unat w \<le> H)"
| "pc_ok q xs H (PopCas w) = (unat w \<le> H \<and> (unat w = H \<longrightarrow> seq_at q H = Suc H))"
| "pc_ok q xs H (PopData w) =
     (unat w < H \<and> length xs \<le> unat w + capacity q \<and> seq_at q (unat w) = Suc (unat w) \<and>
      data (slot_at q (unat w)) = Some (xs ! unat w))"
| "pc_ok q xs H (PopPub w item) =
     (unat w < H \<and> length xs \<le> unat w + capacity q \<and> seq_at q (unat w) = Suc (unat w) \<and>
      item = Some (xs ! unat w))"
| "pc_ok q xs H (PopDone b item) = (b \<longleftrightarrow> item \<noteq> None)"
| "pc_ok q xs H (Stuck f) = False"
| "pc_ok q xs H _ = True"

text \<open>The position a thread has claimed and not released yet.\<close>

fun push_claim :: "'a pc \<Rightarrow> nat option" where
  "push_claim (PushData x w) = Some (unat w)"
| "push_claim (PushPub w) = Some (unat w)"
| "push_claim _ = None"

fun pop_claim :: "'a pc \<Rightarrow> nat option" where
  "pop_claim (PopData w) = Some (unat w)"
| "pop_claim (PopPub w item) = Some (unat w)"
| "pop_claim _ = None"

definition claims_unique :: "('a pc \<Rightarrow> nat option) \<Rightarrow> (nat \<Rightarrow> 'a pc) \<Rightarrow> bool" where
  "claims_unique claim P \<longleftrightarrow> (\<forall>t u p. claim (P t) = Some p \<longrightarrow> claim (P u) = Some p \<longrightarrow> t = u)"

definition sys_inv :: "'a sys \<Rightarrow> bool" where
  "sys_inv s \<longleftrightarrow>
     ring_ok (ring s) (pushed s) (popped s) \<and>
     (\<forall>t. pc_ok (ring s) (pushed s) (popped s) (pcs s t)) \<and>
     claims_unique push_claim (pcs s) \<and> claims_unique pop_claim (pcs s) \<and>
     (\<forall>p x. returned s p = Some x \<longrightarrow> p < popped s \<and> x = pushed s ! p) \<and>
     (\<forall>t p. pop_claim (pcs s t) = Some p \<longrightarrow> returned s p = None)"

section \<open>Every step keeps the invariant\<close>

lemma ring_okD:
  assumes "ring_ok q xs H"
  shows "2 \<le> capacity q" and "unat (m_tail q) = length xs" and "unat (m_head q) = H"
    and "H \<le> length xs" and "length xs \<le> H + capacity q" and "length xs + capacity q < 2 ^ 63"
    and "\<And>p. H \<le> p \<Longrightarrow> p < length xs \<Longrightarrow>
           seq_at q p = p \<or> seq_at q p = Suc p \<and> data (slot_at q p) = Some (xs ! p)"
    and "\<And>p. length xs \<le> p \<Longrightarrow> p < H + capacity q \<Longrightarrow>
           seq_at q p = p \<or> capacity q \<le> p \<and> seq_at q p = Suc (p - capacity q)"
  using assms by (auto simp: ring_ok_def)

lemma capacity_upd [simp]:
  "capacity (slot_upd q w f) = capacity q"
  "capacity (q\<lparr>m_tail := t\<rparr>) = capacity q"
  "capacity (q\<lparr>m_head := h\<rparr>) = capacity q"
  by (simp_all add: slot_upd_def capacity_def)

lemma slot_upd_ends [simp]:
  "m_tail (slot_upd q w f) = m_tail q"
  "m_head (slot_upd q w f) = m_head q"
  by (simp_all add: slot_upd_def)

lemma slot_ix_eq:
  assumes "ring_ok q xs H" and "unat w < 2 ^ 63"
  shows "slot_ix q w = unat w mod capacity q"
  using assms mask_index [of "capacity q" _ "unat w"]
  by (auto simp: slot_ix_def MASK_def ring_ok_def)

lemma slot_ix_slot_at:
  assumes "ring_ok q xs H" and "unat w < 2 ^ 63"
  shows "m_slots q ! slot_ix q w = slot_at q (unat w)"
  by (simp add: slot_at_def slot_ix_eq [OF assms])

lemma slot_at_ends [simp]:
  "slot_at (q\<lparr>m_tail := t\<rparr>) p = slot_at q p"
  "slot_at (q\<lparr>m_head := h\<rparr>) p = slot_at q p"
  by (simp_all add: slot_at_def)

lemma slot_at_upd:
  assumes "ring_ok q xs H" and "unat w < 2 ^ 63"
  shows "slot_at (slot_upd q w f) p =
    (if p mod capacity q = unat w mod capacity q then f (slot_at q p) else slot_at q p)"
proof -
  have "0 < length (m_slots q)" using ring_okD(1) [OF assms(1)] by (auto simp: capacity_def)
  then have "p mod capacity q < length (m_slots q)" by (simp add: capacity_def)
  then show ?thesis by (auto simp: slot_upd_def slot_at_def capacity_def slot_ix_eq [OF assms, unfolded capacity_def])
qed

lemma slot_at_upd_same:
  assumes "ring_ok q xs H" and "unat w < 2 ^ 63"
  shows "slot_at (slot_upd q w f) (unat w) = f (slot_at q (unat w))"
  by (simp add: slot_at_upd [OF assms])

text \<open>A position within one turn of \<open>w\<close> keeps its slot.\<close>

lemma slot_at_upd_near:
  assumes "ring_ok q xs H" and "unat w < 2 ^ 63"
    and "p \<noteq> unat w" and "p < unat w + capacity q" and "unat w < p + capacity q"
  shows "slot_at (slot_upd q w f) p = slot_at q p"
  using ring_index_inj [of p "capacity q" "unat w"] assms(3-5) by (auto simp: slot_at_upd [OF assms(1,2)])

lemma slot_at_upd_seq:
  assumes "ring_ok q xs H" and "unat w < 2 ^ 63" and "seq_at q p \<noteq> seq_at q (unat w)"
  shows "slot_at (slot_upd q w f) p = slot_at q p"
  unfolding slot_at_upd [OF assms(1,2)] using assms(3) by (auto simp: slot_at_def)

text \<open>The slot of a claimed position is touched by no condition on another thread.\<close>

definition push_owned :: "'a mpmc \<Rightarrow> 'a list \<Rightarrow> nat \<Rightarrow> u64 \<Rightarrow> bool" where
  "push_owned q xs H w \<longleftrightarrow> H \<le> unat w \<and> unat w < length xs \<and> seq_at q (unat w) = unat w"

definition pop_owned :: "'a mpmc \<Rightarrow> 'a list \<Rightarrow> nat \<Rightarrow> u64 \<Rightarrow> bool" where
  "pop_owned q xs H w \<longleftrightarrow> unat w < H \<and> length xs \<le> unat w + capacity q \<and> seq_at q (unat w) = Suc (unat w)"

lemma push_owned_frame:
  assumes ring: "ring_ok q xs H" and w: "push_owned q xs H w"
    and pc: "pc_ok q xs H pc" and claim: "push_claim pc \<noteq> Some (unat w)"
  shows "pc_ok (slot_upd q w f) xs H pc"
proof -
  note D = ring_okD [OF ring] and W = w [unfolded push_owned_def]
  have wb: "unat w < 2 ^ 63" using W D(6) by simp
  note near = slot_at_upd_near [OF ring wb] and seq = slot_at_upd_seq [OF ring wb]
  show ?thesis
  proof (cases pc)
    case (PushCas x v)
    with pc W show ?thesis by (auto simp: seq)
  next
    case (PopCas v)
    have "slot_at (slot_upd q w f) H = slot_at q H" if "seq_at q H = Suc H"
      using that W D(1) by (cases "unat w = Suc H") (auto intro: near seq)
    with PopCas pc show ?thesis by auto
  next
    case (PushData x v)
    with pc claim W D(5) have "slot_at (slot_upd q w f) (unat v) = slot_at q (unat v)"
      by (intro near) auto
    with PushData pc show ?thesis by simp
  next
    case (PushPub v)
    with pc claim W D(5) have "slot_at (slot_upd q w f) (unat v) = slot_at q (unat v)"
      by (intro near) auto
    with PushPub pc show ?thesis by simp
  next
    case (PopData v)
    with pc W have "slot_at (slot_upd q w f) (unat v) = slot_at q (unat v)"
      by (intro near) auto
    with PopData pc show ?thesis by simp
  next
    case (PopPub v item)
    with pc W have "slot_at (slot_upd q w f) (unat v) = slot_at q (unat v)"
      by (intro near) auto
    with PopPub pc show ?thesis by simp
  qed (use pc in simp_all)
qed

lemma pop_owned_frame:
  assumes ring: "ring_ok q xs H" and w: "pop_owned q xs H w"
    and pc: "pc_ok q xs H pc" and claim: "pop_claim pc \<noteq> Some (unat w)"
  shows "pc_ok (slot_upd q w f) xs H pc"
proof -
  note D = ring_okD [OF ring] and W = w [unfolded pop_owned_def]
  have wb: "unat w < 2 ^ 63" using W D(4,6) by simp
  note near = slot_at_upd_near [OF ring wb] and seq = slot_at_upd_seq [OF ring wb]
  show ?thesis
  proof (cases pc)
    case (PushCas x v)
    have "slot_at (slot_upd q w f) (length xs) = slot_at q (length xs)" if "seq_at q (length xs) = length xs"
      using that W D(1,4) by (cases "length xs = Suc (unat w)") (auto intro: near seq)
    with PushCas pc show ?thesis by auto
  next
    case (PopCas v)
    with pc W show ?thesis by (auto simp: seq)
  next
    case (PushData x v)
    with pc claim W D(5) have "slot_at (slot_upd q w f) (unat v) = slot_at q (unat v)"
      by (intro near) auto
    with PushData pc show ?thesis by simp
  next
    case (PushPub v)
    with pc claim W D(5) have "slot_at (slot_upd q w f) (unat v) = slot_at q (unat v)"
      by (intro near) auto
    with PushPub pc show ?thesis by simp
  next
    case (PopData v)
    with pc claim W D(4) have "slot_at (slot_upd q w f) (unat v) = slot_at q (unat v)"
      by (intro near) auto
    with PopData pc show ?thesis by simp
  next
    case (PopPub v item)
    with pc claim W D(4) have "slot_at (slot_upd q w f) (unat v) = slot_at q (unat v)"
      by (intro near) auto
    with PopPub pc show ?thesis by simp
  qed (use pc in simp_all)
qed

lemma slot_at_turn [simp]: "slot_at q (p + capacity q) = slot_at q p"
  by (simp add: slot_at_def)

lemma push_claim_free:
  assumes "ring_ok q xs H" and "seq_at q (length xs) = length xs"
  shows "length xs < H + capacity q"
proof (rule ccontr)
  note D = ring_okD [OF assms(1)]
  assume "\<not> length xs < H + capacity q"
  then have T: "length xs = H + capacity q" using D(5) by simp
  with D(1) D(7) [of H] assms(2) show False by auto
qed

lemma ring_ok_claim_push:
  assumes ring: "ring_ok q xs H" and free: "seq_at q (length xs) = length xs"
    and room: "Suc (length xs) + capacity q < 2 ^ 63"
  shows "ring_ok (q\<lparr>m_tail := m_tail q + 1\<rparr>) (xs @ [x]) H"
proof -
  note D = ring_okD [OF ring] and T = push_claim_free [OF ring free]
  have "unat (m_tail q + 1) = Suc (length xs)" using D(2) room by (simp add: unat_word_ariths)
  then show ?thesis
    using ring T room free by (auto simp: ring_ok_def nth_append less_Suc_eq)
qed

lemma pc_ok_claim_push:
  assumes ring: "ring_ok q xs H" and free: "seq_at q (length xs) = length xs" and pc: "pc_ok q xs H pc"
  shows "pc_ok (q\<lparr>m_tail := m_tail q + 1\<rparr>) (xs @ [x]) H pc"
proof -
  note D = ring_okD [OF ring]
  have turn: "Suc (length xs) \<le> p + capacity q" if "length xs \<le> p + capacity q" "seq_at q p = Suc p" for p
  proof (rule ccontr)
    assume "\<not> Suc (length xs) \<le> p + capacity q"
    with that have "length xs = p + capacity q" by simp
    with that free D(1) show False by simp
  qed
  show ?thesis
    using pc D(4) by (cases pc) (auto simp: nth_append intro: turn)
qed

lemma ring_ok_claim_pop:
  assumes ring: "ring_ok q xs H" and ready: "seq_at q H = Suc H"
  shows "ring_ok (q\<lparr>m_head := m_head q + 1\<rparr>) xs (Suc H)" and "H < length xs"
    and "data (slot_at q H) = Some (xs ! H)"
proof -
  note D = ring_okD [OF ring]
  show lt: "H < length xs"
    using D(1,4) D(8) [of H] ready by (cases "H = length xs") auto
  then show item: "data (slot_at q H) = Some (xs ! H)" using D(7) [of H] ready by simp
  have "unat (m_head q + 1) = Suc H" using D(3,6) lt by (simp add: unat_word_ariths)
  moreover have "seq_at q p = p \<or> capacity q \<le> p \<and> seq_at q p = Suc (p - capacity q)"
    if "length xs \<le> p" "p < Suc H + capacity q" for p
    using that D(8) [of p] ready by (cases "p = H + capacity q") auto
  ultimately show "ring_ok (q\<lparr>m_head := m_head q + 1\<rparr>) xs (Suc H)"
    using ring lt by (auto simp: ring_ok_def)
qed

lemma pc_ok_claim_pop:
  assumes ring: "ring_ok q xs H" and ready: "seq_at q H = Suc H" and pc: "pc_ok q xs H pc"
  shows "pc_ok (q\<lparr>m_head := m_head q + 1\<rparr>) xs (Suc H) pc"
proof -
  have "Suc H \<le> p" if "H \<le> p" "seq_at q p = p" for p
    using that ready by (cases "p = H") auto
  then show ?thesis
    using pc by (cases pc) auto
qed

text \<open>A change to the slot of one position \<open>r\<close> of the window.\<close>

lemma ring_ok_slot_change:
  assumes ring: "ring_ok q xs H"
    and ends: "capacity q' = capacity q" "m_tail q' = m_tail q" "m_head q' = m_head q"
    and same: "\<And>p. H \<le> p \<Longrightarrow> p < H + capacity q \<Longrightarrow> p \<noteq> r \<Longrightarrow> slot_at q' p = slot_at q p"
    and taken: "r < length xs \<Longrightarrow> seq_at q' r = r \<or> seq_at q' r = Suc r \<and> data (slot_at q' r) = Some (xs ! r)"
    and free: "length xs \<le> r \<Longrightarrow> seq_at q' r = r"
  shows "ring_ok q' xs H"
proof -
  note D = ring_okD [OF ring]
  have "seq_at q' p = p \<or> seq_at q' p = Suc p \<and> data (slot_at q' p) = Some (xs ! p)"
    if "H \<le> p" "p < length xs" for p
    using that D(5) D(7) [of p] same [of p] taken by (cases "p = r") auto
  moreover have "seq_at q' p = p \<or> capacity q \<le> p \<and> seq_at q' p = Suc (p - capacity q)"
    if "length xs \<le> p" "p < H + capacity q" for p
    using that D(4) D(8) [of p] same [of p] free by (cases "p = r") auto
  ultimately show ?thesis using ring by (simp add: ring_ok_def ends)
qed

lemma ring_ok_write:
  assumes ring: "ring_ok q xs H" and w: "push_owned q xs H w" and f: "\<And>s. seq (f s) = seq s"
  shows "ring_ok (slot_upd q w f) xs H"
proof -
  note D = ring_okD [OF ring] and W = w [unfolded push_owned_def]
  have wb: "unat w < 2 ^ 63" using W D(6) by simp
  show ?thesis
    using W D(5) by (intro ring_ok_slot_change [OF ring, where r = "unat w"])
      (simp_all add: slot_at_upd_near [OF ring wb] slot_at_upd_same [OF ring wb] f)
qed

lemma ring_ok_publish:
  assumes ring: "ring_ok q xs H" and w: "push_owned q xs H w" and item: "data (slot_at q (unat w)) = Some (xs ! unat w)"
  shows "ring_ok (slot_upd q w (\<lambda>s. s\<lparr>seq := w + 1\<rparr>)) xs H"
proof -
  note D = ring_okD [OF ring] and W = w [unfolded push_owned_def]
  have wb: "unat w < 2 ^ 63" and "unat (w + 1) = Suc (unat w)"
    using W D(6) by (simp_all add: unat_word_ariths)
  then show ?thesis
    using W D(5) item by (intro ring_ok_slot_change [OF ring, where r = "unat w"])
      (simp_all add: slot_at_upd_near [OF ring wb] slot_at_upd_same [OF ring wb])
qed

lemma ring_ok_release:
  assumes ring: "ring_ok q xs H" and w: "pop_owned q xs H w"
  shows "ring_ok (slot_upd q w (\<lambda>s. s\<lparr>seq := w + of_nat (capacity q)\<rparr>)) xs H" (is "ring_ok ?q _ _")
proof -
  note D = ring_okD [OF ring] and W = w [unfolded pop_owned_def]
  let ?r = "unat w + capacity q"
  have wb: "unat w < 2 ^ 63" and r: "unat (w + of_nat (capacity q)) = ?r"
    using W D(4,6) by (simp_all add: unat_word_ariths unat_of_nat_small)
  have "slot_at ?q p = slot_at q p" if "H \<le> p" "p < H + capacity q" "p \<noteq> ?r" for p
    using that W D(4) ring_index_inj [of p "capacity q" ?r] by (auto simp: slot_at_upd [OF ring wb])
  moreover have "slot_at ?q ?r = (slot_at q (unat w))\<lparr>seq := w + of_nat (capacity q)\<rparr>"
    by (simp add: slot_at_upd [OF ring wb])
  ultimately show ?thesis
    using W D(4) r by (intro ring_ok_slot_change [OF ring, where r = ?r]) simp_all
qed

lemma seq_at_bound:
  assumes ring: "ring_ok q xs H"
  shows "seq_at q p < 2 ^ 63"
proof -
  note D = ring_okD [OF ring]
  obtain r where r: "H \<le> r" "r < H + capacity q" "r mod capacity q = p mod capacity q"
    using ring_window [of "capacity q" H p] D(1) by auto
  then have "seq_at q p = seq_at q r" by (simp add: slot_at_def)
  also have "\<dots> < 2 ^ 63"
    using r D(4,5,6) D(7) [of r] D(8) [of r] by (cases "r < length xs") auto
  finally show ?thesis .
qed

lemma pdiff_sign:
  assumes "unat a < 2 ^ 63" and "unat b < 2 ^ 63"
  obtains d where "pdiff a b = Some d" and "d = 0 \<longleftrightarrow> unat a = unat b" and "d < 0 \<longleftrightarrow> unat a < unat b"
proof
  show "pdiff a b = Some (int (unat a) - int (unat b))"
    using pdiff_small [OF assms] by simp
qed arith+

lemma claims_unique_upd:
  assumes "claims_unique claim P"
    and "\<And>u p. u \<noteq> t \<Longrightarrow> claim pc = Some p \<Longrightarrow> claim (P u) \<noteq> Some p"
  shows "claims_unique claim (P(t := pc))"
  using assms by (auto simp: claims_unique_def)

lemma sys_inv_upd:
  assumes inv: "sys_inv s" and ring: "ring_ok q xs H" and pc: "pc_ok q xs H pc"
    and others: "\<And>u. u \<noteq> t \<Longrightarrow> pc_ok q xs H (pcs s u)"
    and push_new: "\<And>u p. u \<noteq> t \<Longrightarrow> push_claim pc = Some p \<Longrightarrow> push_claim (pcs s u) \<noteq> Some p"
    and pop_new: "\<And>u p. u \<noteq> t \<Longrightarrow> pop_claim pc = Some p \<Longrightarrow> pop_claim (pcs s u) \<noteq> Some p"
    and ret: "\<And>p x. r p = Some x \<Longrightarrow> p < H \<and> x = xs ! p"
    and ret_others: "\<And>u p. u \<noteq> t \<Longrightarrow> pop_claim (pcs s u) = Some p \<Longrightarrow> r p = None"
    and ret_pc: "\<And>p. pop_claim pc = Some p \<Longrightarrow> r p = None"
  shows "sys_inv (s\<lparr>ring := q, pcs := (pcs s)(t := pc), pushed := xs, popped := H, returned := r\<rparr>)"
  using assms claims_unique_upd [of push_claim "pcs s" t pc] claims_unique_upd [of pop_claim "pcs s" t pc]
  by (auto simp: sys_inv_def)

lemma sys_invD:
  assumes "sys_inv s"
  shows "ring_ok (ring s) (pushed s) (popped s)"
    and "\<And>t. pc_ok (ring s) (pushed s) (popped s) (pcs s t)"
    and "\<And>t u p. push_claim (pcs s t) = Some p \<Longrightarrow> u \<noteq> t \<Longrightarrow> push_claim (pcs s u) \<noteq> Some p"
    and "\<And>t u p. pop_claim (pcs s t) = Some p \<Longrightarrow> u \<noteq> t \<Longrightarrow> pop_claim (pcs s u) \<noteq> Some p"
    and "\<And>p x. returned s p = Some x \<Longrightarrow> p < popped s \<and> x = pushed s ! p"
    and "\<And>t p. pop_claim (pcs s t) = Some p \<Longrightarrow> returned s p = None"
  using assms by (auto simp: sys_inv_def claims_unique_def)

lemma claim_bounds:
  assumes "pc_ok q xs H pc"
  shows "push_claim pc = Some p \<Longrightarrow> p < length xs" and "pop_claim pc = Some p \<Longrightarrow> p < H"
  using assms by (cases pc; auto)+

text \<open>A step that changes only the thread's own program counter.\<close>

lemma sys_inv_local:
  assumes inv: "sys_inv s" and pc: "pc_ok (ring s) (pushed s) (popped s) pc"
    and "push_claim pc = None \<or> push_claim pc = push_claim (pcs s t)"
    and "pop_claim pc = None \<or> pop_claim pc = pop_claim (pcs s t)"
  shows "sys_inv (s\<lparr>pcs := (pcs s)(t := pc)\<rparr>)"
proof -
  note I = sys_invD [OF inv]
  have "sys_inv (s\<lparr>ring := ring s, pcs := (pcs s)(t := pc), pushed := pushed s, popped := popped s, returned := returned s\<rparr>)"
  proof (rule sys_inv_upd [OF inv I(1) pc I(2)])
    show "push_claim (pcs s u) \<noteq> Some p" if "u \<noteq> t" "push_claim pc = Some p" for u p
      using that assms(3) I(3) [of t p u] by auto
    show "pop_claim (pcs s u) \<noteq> Some p" if "u \<noteq> t" "pop_claim pc = Some p" for u p
      using that assms(4) I(4) [of t p u] by auto
  qed (use assms(4) I(5,6) in auto)
  then show ?thesis by simp
qed

text \<open>A step that writes the slot its thread owns.\<close>

lemma sys_inv_push_slot:
  assumes inv: "sys_inv s" and claim: "push_claim (pcs s t) = Some (unat w)"
    and w: "push_owned (ring s) (pushed s) (popped s) w"
    and ring: "ring_ok (slot_upd (ring s) w f) (pushed s) (popped s)"
    and pc: "pc_ok (slot_upd (ring s) w f) (pushed s) (popped s) pc"
    and "push_claim pc = None \<or> push_claim pc = Some (unat w)" and "pop_claim pc = None"
  shows "sys_inv (s\<lparr>ring := slot_upd (ring s) w f, pcs := (pcs s)(t := pc)\<rparr>)"
proof -
  note I = sys_invD [OF inv]
  have "sys_inv (s\<lparr>ring := slot_upd (ring s) w f, pcs := (pcs s)(t := pc), pushed := pushed s, popped := popped s, returned := returned s\<rparr>)"
    using assms(6,7) I(5,6) push_owned_frame [OF I(1) w I(2)] I(3) [OF claim]
    by (intro sys_inv_upd [OF inv ring pc]) auto
  then show ?thesis by simp
qed

lemma sys_step_push_cas:
  assumes inv: "sys_inv s" and pc: "pcs s t = PushCas x w" and cas: "m_tail (ring s) = w"
    and room: "Suc (length (pushed s)) + capacity (ring s) < 2 ^ 63"
  shows "sys_inv (s\<lparr>ring := (ring s)\<lparr>m_tail := w + 1\<rparr>, pcs := (pcs s)(t := PushData x w), pushed := pushed s @ [x]\<rparr>)"
proof -
  note I = sys_invD [OF inv] and D = ring_okD [OF sys_invD(1) [OF inv]]
  have w: "unat w = length (pushed s)" using D(2) cas by simp
  then have free: "seq_at (ring s) (length (pushed s)) = length (pushed s)" using I(2) [of t] pc by simp
  note claim = ring_ok_claim_push [OF I(1) free room, unfolded cas] pc_ok_claim_push [OF I(1) free, unfolded cas]
  have "sys_inv (s\<lparr>ring := (ring s)\<lparr>m_tail := w + 1\<rparr>, pcs := (pcs s)(t := PushData x w), pushed := pushed s @ [x],
      popped := popped s, returned := returned s\<rparr>)"
  proof (rule sys_inv_upd [OF inv claim(1)])
    show "pc_ok ((ring s)\<lparr>m_tail := w + 1\<rparr>) (pushed s @ [x]) (popped s) (PushData x w)"
      using D(4) w free by simp
    show "push_claim (pcs s u) \<noteq> Some p" if "push_claim (PushData x w) = Some p" for u p
      using that w claim_bounds(1) [OF I(2)] by force
    show "p < popped s \<and> y = (pushed s @ [x]) ! p" if "returned s p = Some y" for p y
      using that I(5) [of p y] D(4) by (simp add: nth_append)
  qed (use I(2,6) in \<open>auto intro: claim(2)\<close>)
  then show ?thesis by simp
qed

lemma sys_step_pop_cas:
  assumes inv: "sys_inv s" and pc: "pcs s t = PopCas w" and cas: "m_head (ring s) = w"
  shows "sys_inv (s\<lparr>ring := (ring s)\<lparr>m_head := w + 1\<rparr>, pcs := (pcs s)(t := PopData w), popped := Suc (popped s)\<rparr>)"
proof -
  note I = sys_invD [OF inv] and D = ring_okD [OF sys_invD(1) [OF inv]]
  have w: "unat w = popped s" using D(3) cas by simp
  then have ready: "seq_at (ring s) (popped s) = Suc (popped s)" using I(2) [of t] pc by simp
  note claim = ring_ok_claim_pop [OF I(1) ready, unfolded cas] pc_ok_claim_pop [OF I(1) ready, unfolded cas]
  have "sys_inv (s\<lparr>ring := (ring s)\<lparr>m_head := w + 1\<rparr>, pcs := (pcs s)(t := PopData w), pushed := pushed s,
      popped := Suc (popped s), returned := returned s\<rparr>)"
  proof (rule sys_inv_upd [OF inv claim(1)])
    show "pc_ok ((ring s)\<lparr>m_head := w + 1\<rparr>) (pushed s) (Suc (popped s)) (PopData w)"
      using D(5) w ready claim(3) by simp
    show "pop_claim (pcs s u) \<noteq> Some p" if "pop_claim (PopData w) = Some p" for u p
      using that w claim_bounds(2) [OF I(2)] by force
    show "returned s p = None" if "pop_claim (PopData w) = Some p" for p
      using that w I(5) [of p] by (cases "returned s p") auto
  qed (use I in \<open>auto intro: claim(4) less_SucI\<close>)
  then show ?thesis by simp
qed

lemma sys_step_pop_pub:
  assumes inv: "sys_inv s" and pc: "pcs s t = PopPub w item"
  shows "sys_inv (s\<lparr>ring := slot_upd (ring s) w (\<lambda>s'. s'\<lparr>seq := w + of_nat (capacity (ring s))\<rparr>),
    pcs := (pcs s)(t := PopDone True item), returned := (returned s)(unat w := item)\<rparr>)" (is "sys_inv ?s")
proof -
  note I = sys_invD [OF inv]
  have w: "pop_owned (ring s) (pushed s) (popped s) w" and item: "item = Some (pushed s ! unat w)"
    and lt: "unat w < popped s"
    using I(2) [of t] pc by (simp_all add: pop_owned_def)
  have claim: "pop_claim (pcs s t) = Some (unat w)" using pc by simp
  have "sys_inv (s\<lparr>ring := slot_upd (ring s) w (\<lambda>s'. s'\<lparr>seq := w + of_nat (capacity (ring s))\<rparr>),
    pcs := (pcs s)(t := PopDone True item), pushed := pushed s, popped := popped s, returned := (returned s)(unat w := item)\<rparr>)"
  proof (rule sys_inv_upd [OF inv ring_ok_release [OF I(1) w]])
    show "p < popped s \<and> y = pushed s ! p" if "((returned s)(unat w := item)) p = Some y" for p y
      using that I(5) [of p y] lt item by (auto split: if_splits)
    show "((returned s)(unat w := item)) p = None" if "u \<noteq> t" "pop_claim (pcs s u) = Some p" for u p
      using that I(4) [OF claim, of u] I(6) [of u p] by auto
  qed (use I(4) [OF claim] item in \<open>auto intro: pop_owned_frame [OF I(1) w I(2)]\<close>)
  then show ?thesis by simp
qed

lemma sys_step_push_seq:
  assumes inv: "sys_inv s" and pc: "pcs s t = PushSeq x w"
  shows "sys_inv (sys_step t fail s)"
proof -
  note I = sys_invD [OF inv] and D = ring_okD [OF sys_invD(1) [OF inv]]
  have w: "unat w \<le> length (pushed s)" and wb: "unat w < 2 ^ 63" using pc I(2) [of t] D(6) by simp_all
  obtain d where "pdiff (seq (slot_at (ring s) (unat w))) w = Some d"
      "d = 0 \<longleftrightarrow> seq_at (ring s) (unat w) = unat w"
    using pdiff_sign [OF seq_at_bound [OF I(1)] wb] by metis
  moreover have "pc_ok (ring s) (pushed s) (popped s) (PushCas x w)" if "seq_at (ring s) (unat w) = unat w"
    unfolding pc_ok.simps using w that by blast
  ultimately show ?thesis
    using pc wb sys_inv_local [OF inv, of _ t]
    by (cases "d = 0") (simp_all add: sys_step_def slot_ix_slot_at [OF I(1)] del: pc_ok.simps(2))
qed

lemma sys_step_pop_seq:
  assumes inv: "sys_inv s" and pc: "pcs s t = PopSeq w"
  shows "sys_inv (sys_step t fail s)"
proof -
  note I = sys_invD [OF inv] and D = ring_okD [OF sys_invD(1) [OF inv]]
  have w: "unat w \<le> popped s" using pc I(2) [of t] by simp
  then have wb: "unat w < 2 ^ 63" and w1: "unat (w + 1) = Suc (unat w)" "unat (w + 1) < 2 ^ 63"
    using D(1,4,6) by (simp_all add: unat_word_ariths)
  obtain d where "pdiff (seq (slot_at (ring s) (unat w))) (w + 1) = Some d"
      "d = 0 \<longleftrightarrow> seq_at (ring s) (unat w) = Suc (unat w)"
    using pdiff_sign [OF seq_at_bound [OF I(1)] w1(2)] w1(1) by metis
  moreover have "pc_ok (ring s) (pushed s) (popped s) (PopCas w)" if "seq_at (ring s) (unat w) = Suc (unat w)"
    unfolding pc_ok.simps using w that by metis
  ultimately show ?thesis
    using pc wb sys_inv_local [OF inv, of _ t]
    by (cases "d = 0") (simp_all add: sys_step_def slot_ix_slot_at [OF I(1)] del: pc_ok.simps(6))
qed

lemma sys_step_push_data:
  assumes inv: "sys_inv s" and pc: "pcs s t = PushData x w"
  shows "sys_inv (sys_step t fail s)"
proof -
  note I = sys_invD [OF inv] and D = ring_okD [OF sys_invD(1) [OF inv]]
  have w: "push_owned (ring s) (pushed s) (popped s) w" and x: "pushed s ! unat w = x"
    and wb: "unat w < 2 ^ 63" using pc I(2) [of t] D(6) by (auto simp: push_owned_def)
  have "sys_inv (s\<lparr>ring := slot_upd (ring s) w (\<lambda>s. s\<lparr>data := Some x\<rparr>), pcs := (pcs s)(t := PushPub w)\<rparr>)"
    using w x pc
    by (intro sys_inv_push_slot [OF inv _ w] ring_ok_write [OF I(1) w])
      (auto simp: push_owned_def slot_at_upd_same [OF I(1) wb])
  then show ?thesis using pc by (simp add: sys_step_def)
qed

lemma sys_step_push_pub:
  assumes inv: "sys_inv s" and pc: "pcs s t = PushPub w"
  shows "sys_inv (sys_step t fail s)"
proof -
  note I = sys_invD [OF inv]
  have w: "push_owned (ring s) (pushed s) (popped s) w"
    and item: "data (slot_at (ring s) (unat w)) = Some (pushed s ! unat w)"
    using pc I(2) [of t] by (auto simp: push_owned_def)
  have "sys_inv (s\<lparr>ring := slot_upd (ring s) w (\<lambda>s. s\<lparr>seq := w + 1\<rparr>), pcs := (pcs s)(t := PushDone True)\<rparr>)"
    using pc by (intro sys_inv_push_slot [OF inv _ w] ring_ok_publish [OF I(1) w item]) auto
  then show ?thesis using pc by (simp add: sys_step_def)
qed

lemma sys_step_inv:
  assumes inv: "sys_inv s" and room: "length (pushed (sys_step t fail s)) + capacity (ring s) < 2 ^ 63"
  shows "sys_inv (sys_step t fail s)"
proof -
  note I = sys_invD [OF inv] and D = ring_okD [OF sys_invD(1) [OF inv]]
  note ix = slot_ix_slot_at [OF I(1)]
  show ?thesis
  proof (cases "pcs s t")
    case (PushLoad x)
    then show ?thesis using D(2) by (simp add: sys_step_def sys_inv_local [OF inv])
  next
    case (PushSeq x w)
    then show ?thesis by (rule sys_step_push_seq [OF inv])
  next
    case (PushCas x w)
    show ?thesis
    proof (cases "m_tail (ring s) = w \<and> \<not> fail")
      case True
      then show ?thesis
        using PushCas sys_step_push_cas [OF inv PushCas] room by (simp add: sys_step_def)
    next
      case False
      then show ?thesis
        using PushCas D(2) sys_inv_local [OF inv, of "PushSeq x (m_tail (ring s))" t] by (auto simp: sys_step_def)
    qed
  next
    case (PushData x w)
    then show ?thesis by (rule sys_step_push_data [OF inv])
  next
    case (PushPub w)
    then show ?thesis by (rule sys_step_push_pub [OF inv])
  next
    case PopLoad
    then show ?thesis using D(3) by (simp add: sys_step_def sys_inv_local [OF inv])
  next
    case (PopSeq w)
    then show ?thesis by (rule sys_step_pop_seq [OF inv])
  next
    case (PopCas w)
    show ?thesis
    proof (cases "m_head (ring s) = w \<and> \<not> fail")
      case True
      then show ?thesis
        using PopCas sys_step_pop_cas [OF inv PopCas] by (simp add: sys_step_def)
    next
      case False
      then show ?thesis
        using PopCas D(3) sys_inv_local [OF inv, of "PopSeq (m_head (ring s))" t] by (auto simp: sys_step_def)
    qed
  next
    case (PopData w)
    then have "pc_ok (ring s) (pushed s) (popped s) (PopPub w (data (m_slots (ring s) ! slot_ix (ring s) w)))"
      using I(2) [of t] D(4,6) by (simp add: ix)
    then show ?thesis using PopData sys_inv_local [OF inv, of _ t] by (simp add: sys_step_def)
  next
    case (PopPub w item)
    then show ?thesis using sys_step_pop_pub [OF inv PopPub] by (simp add: sys_step_def)
  qed (use inv I(2) [of t] in \<open>simp_all add: sys_step_def fun_upd_idem\<close>)
qed

section \<open>Reachable states\<close>

lemma thread_step_capacity: "capacity (fst (thread_step fail q pc)) = capacity q"
  by (cases pc) (simp_all split: option.split)

lemma sys_step_capacity: "capacity (ring (sys_step t fail s)) = capacity (ring s)"
  using thread_step_capacity [of fail "ring s" "pcs s t"]
  by (simp add: sys_step_def case_prod_unfold Let_def)

lemma sys_step_pushed: "length (pushed s) \<le> length (pushed (sys_step t fail s))"
  by (simp add: sys_step_def case_prod_unfold Let_def split: pc.split)

lemma step_grows:
  assumes "step s s'"
  shows "length (pushed s) \<le> length (pushed s')" and "capacity (ring s') = capacity (ring s)"
  using assms by (cases rule: step.cases; simp add: sys_step_pushed sys_step_capacity)+

lemma step_inv:
  assumes "step s s'" and "sys_inv s" and "length (pushed s') + capacity (ring s) < 2 ^ 63"
  shows "sys_inv s'"
  using assms
proof (cases rule: step.cases)
  case (access t fail)
  then show ?thesis using assms(2,3) sys_step_inv by blast
qed (use assms(2) in \<open>auto intro: sys_inv_local\<close>)

lemma sys_init_inv:
  assumes "C = 2 ^ k" and "1 \<le> k" and "k \<le> 61"
  shows "sys_inv (sys_init C)"
proof -
  note new = mpmc_new_inv [OF assms]
  have "ring_ok (mpmc_new C) [] 0"
    using new(3) ring_invD(1,4) [OF new(1)] assms(1)
    by (auto simp: ring_ok_def mpmc_new_def slot_at_def capacity_def unat_of_nat_small)
  then show ?thesis by (simp add: sys_inv_def sys_init_def claims_unique_def)
qed

text \<open>The capacities the ring is correct for, and how long a run may be.\<close>

definition capacity_ok :: "nat \<Rightarrow> bool" where
  "capacity_ok C \<longleftrightarrow> (\<exists>k. C = 2 ^ k \<and> 1 \<le> k \<and> k \<le> 61)"

lemma capacity_ok_2: "capacity_ok 2"
  unfolding capacity_ok_def by (intro exI [of _ 1]) simp

lemma reachable_capacity: "reachable C s \<Longrightarrow> capacity (ring s) = C"
  by (induction rule: reachable.induct) (simp_all add: sys_init_def mpmc_new_def capacity_def [symmetric] step_grows,
    simp add: capacity_def)

lemma reachable_inv:
  assumes "reachable C s" and "capacity_ok C" and "length (pushed s) + C < 2 ^ 63"
  shows "sys_inv s"
  using assms
proof (induction rule: reachable.induct)
  case reach_init
  then show ?case by (auto simp: capacity_ok_def intro: sys_init_inv)
next
  case (reach_step s s')
  then have "sys_inv s" using step_grows(1) [OF reach_step.hyps(2)] by simp
  then show ?case
    using reach_step step_inv reachable_capacity by blast
qed

text \<open>The queue a state of the system stands for: claimed by a push, not yet by a pop.\<close>

definition queue :: "'a sys \<Rightarrow> 'a list" where
  "queue s = drop (popped s) (pushed s)"

lemma queue_bound: "sys_inv s \<Longrightarrow> length (queue s) \<le> capacity (ring s)"
  using ring_okD(5) [OF sys_invD(1)] by (force simp: queue_def)

lemma sys_step_access:
  "pushed (sys_step t fail s) = (case pcs s t of PushCas x w \<Rightarrow> if m_tail (ring s) = w \<and> \<not> fail then pushed s @ [x] else pushed s | _ \<Rightarrow> pushed s)"
  "popped (sys_step t fail s) = (case pcs s t of PopCas w \<Rightarrow> if m_head (ring s) = w \<and> \<not> fail then Suc (popped s) else popped s | _ \<Rightarrow> popped s)"
  by (cases "pcs s t"; simp add: sys_step_def split: option.split)+

lemma push_cas_has_room:
  assumes inv: "sys_inv s" and pc: "pcs s t = PushCas x w" and cas: "m_tail (ring s) = w"
  shows "length (queue s) < capacity (ring s)" and "popped s \<le> length (pushed s)"
proof -
  note D = ring_okD [OF sys_invD(1) [OF inv]]
  have "unat w = length (pushed s)" using D(2) cas by simp
  then have "seq_at (ring s) (length (pushed s)) = length (pushed s)"
    using sys_invD(2) [OF inv, of t] pc by simp
  then have "length (pushed s) < popped s + capacity (ring s)"
    by (rule push_claim_free [OF sys_invD(1) [OF inv]])
  then show "length (queue s) < capacity (ring s)" using D(4) by (simp add: queue_def)
  show "popped s \<le> length (pushed s)" by (rule D(4))
qed

lemma pop_cas_has_item:
  assumes inv: "sys_inv s" and pc: "pcs s t = PopCas w" and cas: "m_head (ring s) = w"
  shows "popped s < length (pushed s)"
proof -
  note D = ring_okD [OF sys_invD(1) [OF inv]]
  have "unat w = popped s" using D(3) cas by simp
  then have "seq_at (ring s) (popped s) = Suc (popped s)" using sys_invD(2) [OF inv, of t] pc by simp
  then show ?thesis by (rule ring_ok_claim_pop(2) [OF sys_invD(1) [OF inv]])
qed

text \<open>Concrete runs: what each thread does, in order. A call or a return that is not enabled does nothing.\<close>

datatype 'a act = Call_Push 'a | Call_Pop | Access bool | Return

fun act_step :: "nat \<Rightarrow> 'a act \<Rightarrow> 'a sys \<Rightarrow> 'a sys" where
  "act_step t (Call_Push x) s = (case pcs s t of Idle \<Rightarrow> s\<lparr>pcs := (pcs s)(t := PushLoad x)\<rparr> | _ \<Rightarrow> s)"
| "act_step t Call_Pop s = (case pcs s t of Idle \<Rightarrow> s\<lparr>pcs := (pcs s)(t := PopLoad)\<rparr> | _ \<Rightarrow> s)"
| "act_step t (Access fail) s = sys_step t fail s"
| "act_step t Return s =
     (case pcs s t of PushDone b \<Rightarrow> s\<lparr>pcs := (pcs s)(t := Idle)\<rparr> | PopDone b item \<Rightarrow> s\<lparr>pcs := (pcs s)(t := Idle)\<rparr> | _ \<Rightarrow> s)"

fun exec :: "(nat \<times> 'a act) list \<Rightarrow> 'a sys \<Rightarrow> 'a sys" where
  "exec [] s = s"
| "exec ((t, a) # as) s = exec as (act_step t a s)"

abbreviation solo :: "nat \<Rightarrow> nat \<Rightarrow> 'a sys \<Rightarrow> 'a sys" where
  "solo n t s \<equiv> exec (replicate n (t, Access False)) s"

lemma steps_act: "step\<^sup>*\<^sup>* s (act_step t a s)"
  by (cases a) (auto intro: step.intros split: pc.split)

lemma steps_exec: "step\<^sup>*\<^sup>* s (exec as s)"
  by (induction as s rule: exec.induct) (auto intro: rtranclp_trans steps_act)

lemma reachable_steps: "step\<^sup>*\<^sup>* s s' \<Longrightarrow> reachable C s \<Longrightarrow> reachable C s'"
  by (induction rule: rtranclp_induct) (auto intro: reach_step)

lemma reachable_exec: "reachable C (exec as (sys_init C))"
  by (rule reachable_steps [OF steps_exec reach_init])

section \<open>Properties\<close>

text \<open>
  C1. Refinement to a bounded queue: in every interleaving, each step of each thread either
  leaves the queue of claimed items alone, or is the successful compare-and-swap of a
  \<open>try_push\<close> that appends its item to a queue that was not full, or the successful
  compare-and-swap of a \<open>try_pop\<close> that removes the oldest item.
\<close>

theorem conc_step_refines_queue:
  assumes "reachable C s" and "step s s'" and "capacity_ok C" and "length (pushed s') + C < 2 ^ 63"
  shows "queue s' = queue s \<or>
    (\<exists>t x w. pcs s t = PushCas x w \<and> pcs s' t = PushData x w \<and> length (queue s) < C \<and> queue s' = queue s @ [x]) \<or>
    (\<exists>t w. pcs s t = PopCas w \<and> pcs s' t = PopData w \<and> queue s = pushed s ! unat w # queue s')"
  using assms(2)
proof (cases rule: step.cases)
  case (access t fail)
  have inv: "sys_inv s"
    using reachable_inv [OF assms(1,3)] step_grows(1) [OF assms(2)] assms(4) by simp
  note head = ring_okD(3) [OF sys_invD(1) [OF inv]]
  have "(\<exists>x w. pcs s t = PushCas x w \<and> m_tail (ring s) = w \<and> \<not> fail) \<or>
      (\<exists>w. pcs s t = PopCas w \<and> m_head (ring s) = w \<and> \<not> fail) \<or> queue s' = queue s"
    unfolding access queue_def sys_step_access by (cases "pcs s t") simp_all
  then consider (push) x w where "pcs s t = PushCas x w" "m_tail (ring s) = w" "\<not> fail"
    | (pop) w where "pcs s t = PopCas w" "m_head (ring s) = w" "\<not> fail"
    | (other) "queue s' = queue s" by blast
  then show ?thesis
  proof cases
    case push
    then have "queue s' = queue s @ [x]" and "pcs s' t = PushData x w"
      using push_cas_has_room(2) [OF inv push(1,2)]
      by (simp_all add: access queue_def sys_step_access) (simp add: sys_step_def)
    then show ?thesis
      using push push_cas_has_room(1) [OF inv push(1,2)] reachable_capacity [OF assms(1)] by blast
  next
    case pop
    then have "queue s = pushed s ! unat w # queue s'" and "pcs s' t = PopData w"
      using pop_cas_has_item [OF inv pop(1,2)] head
      by (simp_all add: access queue_def sys_step_access Cons_nth_drop_Suc) (simp add: sys_step_def)
    then show ?thesis using pop(1) by blast
  qed simp
qed (simp_all add: queue_def)

theorem conc_step_refines_queue_witness:
  "let s = exec [(0, Call_Push (7 :: nat)), (0, Access False), (0, Access False)] (sys_init 2)
   in queue s = [] \<and> queue (sys_step 0 False s) = [7]"
proof -
  define s where "s = exec [(0, Call_Push (7 :: nat)), (0, Access False), (0, Access False)] (sys_init 2)"
  have r: "reachable 2 s" unfolding s_def by (rule reachable_exec)
  have len: "length (pushed (sys_step 0 False s)) = 1" and q: "queue s = []"
    and q': "queue (sys_step 0 False s) = [7]"
    unfolding s_def by code_simp+
  have "length (pushed (sys_step 0 False s)) + 2 < 2 ^ 63" unfolding len by simp
  from conc_step_refines_queue [OF r step.access capacity_ok_2 this] q q' show ?thesis
    unfolding s_def Let_def by simp
qed

text \<open>
  C2. First in, first out, nothing lost and nothing delivered twice: in every interleaving
  the call that claimed position \<open>p\<close> returns exactly the item of the push that claimed
  position \<open>p\<close>; no two calls hold the same position, and a position whose call has
  returned is never claimed again.
\<close>

theorem conc_fifo:
  assumes "reachable C s" and "capacity_ok C" and "length (pushed s) + C < 2 ^ 63"
  shows "(\<forall>p x. returned s p = Some x \<longrightarrow> p < popped s \<and> popped s \<le> length (pushed s) \<and> x = pushed s ! p) \<and>
    (\<forall>t w item. pcs s t = PopPub w item \<longrightarrow> item = Some (pushed s ! unat w) \<and> returned s (unat w) = None) \<and>
    (\<forall>t u p. pop_claim (pcs s t) = Some p \<longrightarrow> pop_claim (pcs s u) = Some p \<longrightarrow> t = u)"
proof -
  have inv: "sys_inv s" by (rule reachable_inv [OF assms])
  note I = sys_invD [OF inv] and D = ring_okD [OF sys_invD(1) [OF inv]]
  have "item = Some (pushed s ! unat w) \<and> returned s (unat w) = None" if "pcs s t = PopPub w item" for t w item
    using that I(2) [of t] I(6) [of t "unat w"] by simp
  then show ?thesis using I(4,5) D(4) by blast
qed

theorem conc_fifo_witness:
  "let s = exec ((0, Call_Push (7 :: nat)) # replicate 5 (0, Access False) @
                 (1, Call_Push 8) # replicate 5 (1, Access True) @ replicate 5 (1, Access False) @
                 (2, Call_Pop) # replicate 4 (2, Access False)) (sys_init 2)
   in pushed s = [7, 8] \<and> popped s = 1 \<and> pcs s 2 = PopPub 0 (Some 7)"
proof -
  define s where "s = exec ((0, Call_Push (7 :: nat)) # replicate 5 (0, Access False) @
                 (1, Call_Push 8) # replicate 5 (1, Access True) @ replicate 5 (1, Access False) @
                 (2, Call_Pop) # replicate 4 (2, Access False)) (sys_init 2)"
  have p: "pushed s = [7, 8]" and h: "popped s = 1" and w: "(case pcs s 2 of PopPub w item \<Rightarrow> w = 0 | _ \<Rightarrow> False)"
    unfolding s_def by code_simp+
  obtain item where item: "pcs s 2 = PopPub 0 item" using w by (cases "pcs s 2") auto
  have r: "reachable 2 s" unfolding s_def by (rule reachable_exec)
  have "length (pushed s) + 2 < 2 ^ 63" unfolding p by simp
  from conc_fifo [OF r capacity_ok_2 this] item
  have "item = Some (pushed s ! unat (0 :: u64))" by blast
  then have "item = Some 7" by (simp add: p)
  with p h item show ?thesis unfolding s_def [symmetric] Let_def by simp
qed

text \<open>
  C36. No data race on a slot: while one thread is about to write the item of a slot, no
  other thread is about to write or to read the item of the same slot.
\<close>

theorem conc_slot_exclusive:
  assumes "reachable C s" and "capacity_ok C" and "length (pushed s) + C < 2 ^ 63"
    and "pcs s t = PushData x w" and "u \<noteq> t"
    and "pcs s u = PushData y v \<or> pcs s u = PopData v"
  shows "slot_ix (ring s) w \<noteq> slot_ix (ring s) v"
proof -
  have inv: "sys_inv s" by (rule reachable_inv [OF assms(1-3)])
  note I = sys_invD [OF inv] and D = ring_okD [OF sys_invD(1) [OF inv]]
  have w: "popped s \<le> unat w" "unat w < length (pushed s)" using I(2) [of t] assms(4) by simp_all
  have v: "unat v < length (pushed s)" "unat v < unat w + capacity (ring s)" "unat w < unat v + capacity (ring s)"
    using I(2) [of u] assms(6) w D(1,4,5) by auto
  have "unat w \<noteq> unat v"
    using I(2) [of u] I(3) [of t "unat w" u] assms(4-6) w by auto
  then have "unat w mod capacity (ring s) \<noteq> unat v mod capacity (ring s)"
    using ring_index_inj [of "unat w" "capacity (ring s)" "unat v"] v by blast
  then show ?thesis
    using w v D(6) slot_ix_eq [OF I(1)] by simp
qed

theorem conc_slot_exclusive_witness:
  "let s = exec [(0, Call_Push (7 :: nat)), (1, Call_Push 8), (0, Access False), (0, Access False), (0, Access False),
                 (1, Access False), (1, Access False), (1, Access False)] (sys_init 2)
   in pcs s 0 = PushData 7 0 \<and> pcs s 1 = PushData 8 1 \<and> slot_ix (ring s) 0 \<noteq> slot_ix (ring s) 1"
proof -
  define s where "s = exec [(0, Call_Push (7 :: nat)), (1, Call_Push 8), (0, Access False), (0, Access False), (0, Access False),
                 (1, Access False), (1, Access False), (1, Access False)] (sys_init 2)"
  have r: "reachable 2 s" unfolding s_def by (rule reachable_exec)
  have p: "pushed s = [7, 8]" and pc: "pcs s 0 = PushData 7 0" "pcs s 1 = PushData 8 1"
    unfolding s_def by code_simp+
  have "length (pushed s) + 2 < 2 ^ 63" unfolding p by simp
  from conc_slot_exclusive [OF r capacity_ok_2 this pc(1), of 1] pc
  show ?thesis unfolding s_def [symmetric] Let_def by simp
qed

text \<open>Each operation alone.\<close>

lemma conc_push_obstruction_free:
  assumes "reachable C s" and "capacity_ok C" and "Suc (length (pushed s)) + C < 2 ^ 63"
    and "pcs s t = PushLoad x"
  shows "\<exists>n b. n \<le> 5 \<and> pcs (solo n t s) t = PushDone b \<and>
    (b \<longrightarrow> queue (solo n t s) = queue s @ [x]) \<and>
    (length (queue s) = C \<longrightarrow> \<not> b)"
proof -
  let ?run = "\<lambda>n. solo n t s"
  have inv: "sys_inv s" by (rule reachable_inv [OF assms(1,2)]) (use assms(3) in simp)
  note I = sys_invD [OF inv] and D = ring_okD [OF sys_invD(1) [OF inv]]
  let ?q = "ring s" let ?T = "length (pushed s)" let ?w = "m_tail (ring s)"
  have C: "capacity ?q = C" by (rule reachable_capacity [OF assms(1)])
  have wb: "unat ?w < 2 ^ 63" using D(2,6) by simp
  note ix = slot_ix_slot_at [OF I(1) wb]
  obtain d where d: "pdiff (seq (slot_at ?q ?T)) ?w = Some d" "d = 0 \<longleftrightarrow> seq_at ?q ?T = ?T"
      "d < 0 \<longleftrightarrow> seq_at ?q ?T < ?T"
    using pdiff_sign [OF seq_at_bound [OF I(1)] wb] D(2) by metis
  show ?thesis
  proof (cases "seq_at ?q ?T = ?T")
    case True
    then have "pcs (?run 5) t = PushDone True" and "queue (?run 5) = queue s @ [x]"
      using assms(4) d D(2,4) ix by (simp_all add: numeral_eq_Suc sys_step_def queue_def)
    moreover have "length (queue s) \<noteq> C"
      using push_claim_free [OF I(1) True] D(4) C by (simp add: queue_def)
    ultimately show ?thesis by blast
  next
    case False
    have "?T < popped s + C \<longrightarrow> seq_at ?q ?T < ?T"
      using False D(8) [of ?T] D(1) C by auto
    moreover have "seq_at ?q ?T < ?T" if "?T = popped s + C"
      using that D(1) D(7) [of "popped s"] C slot_at_turn [of ?q "popped s"] by auto
    ultimately have "seq_at ?q ?T < ?T" using D(5) C by linarith
    then have "pcs (?run 2) t = PushDone False"
      using assms(4) d D(2) ix by (simp add: numeral_eq_Suc sys_step_def)
    then show ?thesis by (intro exI [of _ 2] exI [of _ False]) simp
  qed
qed

lemma conc_pop_obstruction_free:
  assumes "reachable C s" and "capacity_ok C" and "length (pushed s) + C < 2 ^ 63"
    and "pcs s t = PopLoad"
  shows "\<exists>n b item. n \<le> 5 \<and> pcs (solo n t s) t = PopDone b item \<and>
    (b \<longrightarrow> (\<exists>x. item = Some x \<and> queue s = x # queue (solo n t s))) \<and>
    (queue s = [] \<longrightarrow> \<not> b)"
proof -
  have inv: "sys_inv s" by (rule reachable_inv [OF assms(1-3)])
  note I = sys_invD [OF inv] and D = ring_okD [OF sys_invD(1) [OF inv]]
  let ?q = "ring s" let ?H = "popped s" let ?w = "m_head (ring s)"
  have C: "capacity ?q = C" by (rule reachable_capacity [OF assms(1)])
  have wb: "unat ?w < 2 ^ 63" and w1: "unat (?w + 1) = Suc ?H" "unat (?w + 1) < 2 ^ 63"
    using D(1,3,4,6) by (simp_all add: unat_word_ariths)
  note ix = slot_ix_slot_at [OF I(1) wb]
  obtain d where d: "pdiff (seq (slot_at ?q ?H)) (?w + 1) = Some d" "d = 0 \<longleftrightarrow> seq_at ?q ?H = Suc ?H"
      "d < 0 \<longleftrightarrow> seq_at ?q ?H < Suc ?H"
    using pdiff_sign [OF seq_at_bound [OF I(1)] w1(2)] w1(1) by metis
  show ?thesis
  proof (cases "seq_at ?q ?H = Suc ?H")
    case True
    note claim = ring_ok_claim_pop(2,3) [OF I(1) True]
    have "slot_ix (?q\<lparr>m_head := ?w + 1\<rparr>) ?w = slot_ix ?q ?w"
      by (simp add: slot_ix_def MASK_def)
    then have "pcs (solo 5 t s) t = PopDone True (Some (pushed s ! ?H))" and "queue (solo 5 t s) = drop (Suc ?H) (pushed s)"
      using assms(4) d D(3) ix claim(2) True by (simp_all add: numeral_eq_Suc sys_step_def queue_def)
    moreover have "queue s = pushed s ! ?H # drop (Suc ?H) (pushed s)"
      using claim(1) by (simp add: queue_def Cons_nth_drop_Suc)
    ultimately show ?thesis by (intro exI [of _ 5] exI [of _ True] exI [of _ "Some (pushed s ! ?H)"]) simp
  next
    case False
    have "seq_at ?q ?H < Suc ?H"
      using False D(1,4) D(7) [of ?H] D(8) [of ?H] C by (cases "?H < length (pushed s)") auto
    then have "pcs (solo 2 t s) t = PopDone False None"
      using assms(4) d D(3) ix by (simp add: numeral_eq_Suc sys_step_def)
    then show ?thesis by (intro exI [of _ 2] exI [of _ False] exI [of _ None]) simp
  qed
qed

text \<open>
  C37. Obstruction freedom: an operation that starts in any reachable state and then runs
  without interference returns after at most five of its steps. A \<open>try_push\<close> that returns
  \<open>true\<close> has put its item at the end, and on a full queue it returns \<open>false\<close>; a \<open>try_pop\<close> that
  returns \<open>true\<close> has taken the oldest item, and on an empty queue it returns \<open>false\<close>.
\<close>

theorem conc_obstruction_free:
  assumes "reachable C s" and "capacity_ok C" and "Suc (length (pushed s)) + C < 2 ^ 63"
  shows "(\<forall>x. pcs s t = PushLoad x \<longrightarrow> (\<exists>n b. n \<le> 5 \<and> pcs (solo n t s) t = PushDone b \<and>
      (b \<longrightarrow> queue (solo n t s) = queue s @ [x]) \<and> (length (queue s) = C \<longrightarrow> \<not> b))) \<and>
    (pcs s t = PopLoad \<longrightarrow> (\<exists>n b item. n \<le> 5 \<and> pcs (solo n t s) t = PopDone b item \<and>
      (b \<longrightarrow> (\<exists>x. item = Some x \<and> queue s = x # queue (solo n t s))) \<and> (queue s = [] \<longrightarrow> \<not> b)))"
proof -
  have "length (pushed s) + C < 2 ^ 63" using assms(3) by simp
  then show ?thesis using conc_push_obstruction_free [OF assms] conc_pop_obstruction_free [OF assms(1,2)] by blast
qed

theorem conc_obstruction_free_witness:
  "let s = exec [(0, Call_Push (7 :: nat)), (0, Access False), (0, Access False), (0, Access False), (1, Call_Push 8)] (sys_init 2);
       s' = exec ((0, Call_Push (7 :: nat)) # replicate 5 (0, Access False) @ [(1, Call_Pop)]) (sys_init 2)
   in pcs s 0 = PushData 7 0 \<and> (\<exists>n b. n \<le> 5 \<and> pcs (solo n 1 s) 1 = PushDone b) \<and>
      queue s' = [7] \<and> (\<exists>n b item. n \<le> 5 \<and> pcs (solo n 1 s') 1 = PopDone b item)"
proof -
  define s where "s = exec [(0, Call_Push (7 :: nat)), (0, Access False), (0, Access False), (0, Access False), (1, Call_Push 8)] (sys_init 2)"
  define s' where "s' = exec ((0, Call_Push (7 :: nat)) # replicate 5 (0, Access False) @ [(1, Call_Pop)]) (sys_init 2)"
  have r: "reachable 2 s" "reachable 2 s'" unfolding s_def s'_def by (rule reachable_exec)+
  have p: "pushed s = [7]" and pc: "pcs s 0 = PushData 7 0" "pcs s 1 = PushLoad 8"
    unfolding s_def by code_simp+
  have p': "pushed s' = [7]" and q': "queue s' = [7]" and pc': "pcs s' 1 = PopLoad"
    unfolding s'_def by code_simp+
  have "Suc (length (pushed s)) + 2 < 2 ^ 63" "Suc (length (pushed s')) + 2 < 2 ^ 63" unfolding p p' by simp_all
  with conc_obstruction_free [OF r(1) capacity_ok_2, of 1] conc_obstruction_free [OF r(2) capacity_ok_2, of 1] pc pc' q'
  show ?thesis unfolding s_def [symmetric] s'_def [symmetric] Let_def by blast
qed

text \<open>
  C40. A claimed slot blocks the consumers: \<open>try_pop\<close> may return \<open>false\<close>, which its comment
  reads as "Queue is empty", although a push has returned \<open>true\<close> before the pop began
  and no other pop ever ran. The thread that claimed the first position is paused before
  it publishes its item, so the item behind it cannot be reached.
\<close>

theorem conc_false_empty:
  "\<exists>s s' :: nat sys. reachable 2 s \<and> pcs s 1 = PushDone True \<and> pcs s 2 = Idle \<and> popped s = 0 \<and>
     step\<^sup>*\<^sup>* s s' \<and> pcs s' 2 = PopDone False None \<and> popped s' = 0 \<and> queue s' = [7, 8]"
proof (intro exI conjI)
  let ?a = "[(0, Call_Push 7), (0, Access False), (0, Access False), (0, Access False), (1, Call_Push 8)] @ replicate 5 (1, Access False)"
  let ?b = "[(2, Call_Pop), (2, Access False), (2, Access False)]"
  show "reachable 2 (exec ?a (sys_init 2))" by (rule reachable_exec)
  show "step\<^sup>*\<^sup>* (exec ?a (sys_init 2)) (exec ?b (exec ?a (sys_init 2)))" by (rule steps_exec)
qed code_simp+

end
