(* ===== verification/Object_Pool.thy ===== *)
theory Object_Pool
  imports MC_Prelude
begin

text \<open>
  \<open>src/objectpool.h\<close>, class \<open>ObjectPool\<close>, and the contract of an object pool. Every public
  method runs under one mutex, so calls are atomic and the model is sequential.

  \<open>o_heap\<close> holds the objects the pool made and nobody deleted; the vector \<open>m_pool\<close> is a
  list with its back at the end. \<open>opool_inv p U\<close> says that \<open>U\<close> is the set of objects handed
  out and not returned. The constructor of the element type is the argument \<open>init\<close>.
\<close>

section \<open>The contract of an object pool\<close>

text \<open>
  \<open>inv p U\<close>: the pool is well formed and the objects \<open>U\<close> are in use. Acquiring gives an
  object that is not in use and leaves those in use alone; so do releasing and writing.
\<close>

locale object_pool =
  fixes acq :: "'p \<Rightarrow> ('p \<times> nat) outcome"
    and rel :: "'p \<Rightarrow> nat \<Rightarrow> 'p outcome"
    and rd :: "'p \<Rightarrow> nat \<Rightarrow> 'a option"
    and wr :: "'p \<Rightarrow> nat \<Rightarrow> 'a \<Rightarrow> 'p"
    and inv :: "'p \<Rightarrow> nat set \<Rightarrow> bool"
  assumes acq_ok: "inv p U \<Longrightarrow>
      \<exists>p' n. acq p = Inr (p', n) \<and> n \<notin> U \<and> inv p' (insert n U) \<and> (\<forall>a \<in> U. rd p' a = rd p a)"
    and rel_ok: "inv p U \<Longrightarrow> n \<in> U \<Longrightarrow>
      \<exists>p'. rel p n = Inr p' \<and> inv p' (U - {n}) \<and> (\<forall>a \<in> U - {n}. rd p' a = rd p a)"
    and rd_ok: "inv p U \<Longrightarrow> a \<in> U \<Longrightarrow> \<exists>v. rd p a = Some v"
    and wr_ok: "inv p U \<Longrightarrow> a \<in> U \<Longrightarrow>
      inv (wr p a v) U \<and> (\<forall>b \<in> U. rd (wr p a v) b = (if b = a then Some v else rd p b))"

text \<open>Several acquisitions in a row, and the release of several objects.\<close>

fun acq_times :: "('p \<Rightarrow> ('p \<times> nat) outcome) \<Rightarrow> nat \<Rightarrow> 'p \<Rightarrow> ('p \<times> nat list) outcome" where
  "acq_times acq 0 p = Inr (p, [])"
| "acq_times acq (Suc k) p =
     obind (acq p) (\<lambda>(p', n). obind (acq_times acq k p') (\<lambda>(p'', ns). Inr (p'', n # ns)))"

fun rel_all :: "('p \<Rightarrow> nat \<Rightarrow> 'p outcome) \<Rightarrow> nat list \<Rightarrow> 'p \<Rightarrow> 'p outcome" where
  "rel_all rel [] p = Inr p"
| "rel_all rel (n # ns) p = obind (rel p n) (\<lambda>p'. rel_all rel ns p')"

context object_pool
begin

lemma acq_times_ok:
  assumes "inv p U"
  shows "\<exists>p' ns. acq_times acq k p = Inr (p', ns) \<and> length ns = k \<and> distinct ns \<and> set ns \<inter> U = {} \<and>
    inv p' (U \<union> set ns) \<and> (\<forall>a \<in> U. rd p' a = rd p a)"
  using assms
proof (induction k arbitrary: p U)
  case 0
  then show ?case by simp
next
  case (Suc k)
  obtain p1 n where 1: "acq p = Inr (p1, n)" "n \<notin> U" "inv p1 (insert n U)" "\<forall>a \<in> U. rd p1 a = rd p a"
    using acq_ok [OF Suc.prems] by blast
  obtain p2 ns where 2: "acq_times acq k p1 = Inr (p2, ns)" "length ns = k" "distinct ns"
      "set ns \<inter> insert n U = {}" "inv p2 (insert n U \<union> set ns)" "\<forall>a \<in> insert n U. rd p2 a = rd p1 a"
    using Suc.IH [OF 1(3)] by blast
  have "inv p2 (U \<union> set (n # ns))" using 2(5) by simp
  then show ?case using 1 2 by auto
qed

lemma rel_all_ok:
  assumes "inv p U" and "set ns \<subseteq> U" and "distinct ns"
  shows "\<exists>p'. rel_all rel ns p = Inr p' \<and> inv p' (U - set ns) \<and> (\<forall>a \<in> U - set ns. rd p' a = rd p a)"
  using assms
proof (induction ns arbitrary: p U)
  case Nil
  then show ?case by simp
next
  case (Cons n ns)
  then obtain p1 where 1: "rel p n = Inr p1" "inv p1 (U - {n})" "\<forall>a \<in> U - {n}. rd p1 a = rd p a"
    using rel_ok [of p U n] by auto
  have "set ns \<subseteq> U - {n}" using Cons.prems by auto
  then obtain p2 where 2: "rel_all rel ns p1 = Inr p2" "inv p2 (U - {n} - set ns)"
      "\<forall>a \<in> U - {n} - set ns. rd p2 a = rd p1 a"
    using Cons.IH [OF 1(2)] Cons.prems(3) by auto
  have "U - set (n # ns) = U - {n} - set ns" by auto
  with 1 2 show ?case by auto
qed

text \<open>Acquire, use, release: the pool is as before and nobody else's objects were touched.\<close>

lemma acq_wr_rel:
  assumes "inv p U"
  shows "\<exists>p' n p''. acq p = Inr (p', n) \<and> rd (wr p' n v) n = Some v \<and> rel (wr p' n v) n = Inr p'' \<and>
    inv p'' U \<and> (\<forall>a \<in> U. rd p'' a = rd p a)"
proof -
  obtain p1 n where 1: "acq p = Inr (p1, n)" "n \<notin> U" "inv p1 (insert n U)" "\<forall>a \<in> U. rd p1 a = rd p a"
    using acq_ok [OF assms] by blast
  have 2: "inv (wr p1 n v) (insert n U)" "\<forall>b \<in> insert n U. rd (wr p1 n v) b = (if b = n then Some v else rd p1 b)"
    using wr_ok [OF 1(3)] by auto
  obtain p2 where 3: "rel (wr p1 n v) n = Inr p2" "inv p2 (insert n U - {n})"
      "\<forall>a \<in> insert n U - {n}. rd p2 a = rd (wr p1 n v) a"
    using rel_ok [OF 2(1), of n] by auto
  have "insert n U - {n} = U" using 1(2) by simp
  with 1 2 3 show ?thesis by auto
qed

end

section \<open>ObjectPool\<close>

record 'a opool =
  o_heap :: "'a heap"
  m_pool :: "nat list"
  o_maxSize :: u64
  o_allocated :: u64

fun opool_fill :: "'a \<Rightarrow> nat \<Rightarrow> 'a opool \<Rightarrow> 'a opool" where
  "opool_fill init 0 p = p"
| "opool_fill init (Suc k) p =
     (let (h, a) = heap_new (o_heap p) init in
      opool_fill init k (p\<lparr>o_heap := h, m_pool := m_pool p @ [a], o_allocated := o_allocated p + 1\<rparr>))"

definition opool_new :: "'a \<Rightarrow> nat \<Rightarrow> u64 \<Rightarrow> 'a opool" where
  "opool_new init initialSize maxSize =
     opool_fill init initialSize \<lparr>o_heap = heap_empty, m_pool = [], o_maxSize = maxSize, o_allocated = 0\<rparr>"

definition opool_acquire :: "'a \<Rightarrow> 'a opool \<Rightarrow> 'a opool \<times> nat" where
  "opool_acquire init p =
     (if m_pool p \<noteq> [] then (p\<lparr>m_pool := butlast (m_pool p)\<rparr>, last (m_pool p))
      else let (h, a) = heap_new (o_heap p) init in (p\<lparr>o_heap := h, o_allocated := o_allocated p + 1\<rparr>, a))"

definition opool_release :: "'a opool \<Rightarrow> nat option \<Rightarrow> 'a opool outcome" where
  "opool_release p obj =
     (case obj of
        None \<Rightarrow> Inr p
      | Some a \<Rightarrow>
          if o_maxSize p = 0 \<or> of_nat (length (m_pool p)) < o_maxSize p
          then Inr (p\<lparr>m_pool := m_pool p @ [a]\<rparr>)
          else obind (delete_obj (o_heap p) a) (\<lambda>h. Inr (p\<lparr>o_heap := h, o_allocated := o_allocated p - 1\<rparr>)))"

definition opool_size :: "'a opool \<Rightarrow> u64" where
  "opool_size p = of_nat (length (m_pool p))"

definition opool_allocated :: "'a opool \<Rightarrow> u64" where
  "opool_allocated p = o_allocated p"

definition opool_clear :: "'a opool \<Rightarrow> 'a opool outcome" where
  "opool_clear p =
     obind (delete_all (o_heap p) (m_pool p)) (\<lambda>h. Inr (p\<lparr>o_heap := h, m_pool := [], o_allocated := 0\<rparr>))"

definition opool_destroy :: "'a opool \<Rightarrow> 'a opool outcome" where
  "opool_destroy p = obind (delete_all (o_heap p) (m_pool p)) (\<lambda>h. Inr (p\<lparr>o_heap := h, m_pool := []\<rparr>))"

definition opool_read :: "'a opool \<Rightarrow> nat \<Rightarrow> 'a option" where
  "opool_read p a = cells (o_heap p) a"

definition opool_write :: "'a opool \<Rightarrow> nat \<Rightarrow> 'a \<Rightarrow> 'a opool" where
  "opool_write p a v = p\<lparr>o_heap := heap_write (o_heap p) a v\<rparr>"

section \<open>Invariant\<close>

definition opool_inv :: "'a opool \<Rightarrow> nat set \<Rightarrow> bool" where
  "opool_inv p U \<longleftrightarrow>
     finite U \<and> distinct (m_pool p) \<and> set (m_pool p) \<inter> U = {} \<and>
     live (o_heap p) = set (m_pool p) \<union> U \<and> heap_ok (o_heap p) \<and>
     o_allocated p = of_nat (length (m_pool p) + card U)"

lemma opool_fill_inv:
  assumes "opool_inv p {}"
  shows "opool_inv (opool_fill init k p) {} \<and> length (m_pool (opool_fill init k p)) = length (m_pool p) + k \<and>
    o_maxSize (opool_fill init k p) = o_maxSize p"
  using assms
proof (induction k arbitrary: p)
  case 0
  then show ?case by simp
next
  case (Suc k)
  let ?a = "next_addr (o_heap p)"
  have "?a \<notin> live (o_heap p)" using Suc.prems heap_ok_fresh [of "o_heap p"] by (auto simp: opool_inv_def)
  then have "opool_inv (p\<lparr>o_heap := fst (heap_new (o_heap p) init), m_pool := m_pool p @ [?a], o_allocated := o_allocated p + 1\<rparr>) {}"
    using Suc.prems heap_ok_new [of "o_heap p" init]
    by (auto simp: opool_inv_def heap_new_def)
  from Suc.IH [OF this] show ?case by (simp add: heap_new_def)
qed

lemma opool_new_inv: "opool_inv (opool_new init k m) {}"
  unfolding opool_new_def
  by (rule conjunct1 [OF opool_fill_inv]) (simp add: opool_inv_def heap_empty_def heap_ok_def)

lemma opool_acquire_inv:
  assumes inv: "opool_inv p U"
  shows "\<exists>p' n. opool_acquire init p = (p', n) \<and> n \<notin> U \<and> opool_inv p' (insert n U) \<and>
    (\<forall>a \<in> U. opool_read p' a = opool_read p a)"
proof (cases "m_pool p = []")
  case True
  have "next_addr (o_heap p) \<notin> live (o_heap p)"
    using inv heap_ok_fresh [of "o_heap p"] by (auto simp: opool_inv_def)
  then show ?thesis
    using inv True heap_ok_new [of "o_heap p" init]
    by (auto simp: opool_acquire_def opool_inv_def heap_new_def opool_read_def)
next
  case False
  then obtain xs x where xs: "m_pool p = xs @ [x]" by (cases "m_pool p" rule: rev_cases) auto
  then show ?thesis
    using inv by (auto simp: opool_acquire_def opool_inv_def opool_read_def)
qed

lemma opool_release_inv:
  assumes inv: "opool_inv p U" and n: "n \<in> U"
  shows "\<exists>p'. opool_release p (Some n) = Inr p' \<and> opool_inv p' (U - {n}) \<and>
    (\<forall>a \<in> U - {n}. opool_read p' a = opool_read p a)"
proof -
  obtain c where card: "card U = Suc c" using inv n by (cases "card U") (auto simp: opool_inv_def)
  have live: "cells (o_heap p) n \<noteq> None" using inv n by (auto simp: opool_inv_def)
  then obtain v where v: "cells (o_heap p) n = Some v" by blast
  show ?thesis
  proof (cases "o_maxSize p = 0 \<or> of_nat (length (m_pool p)) < o_maxSize p")
    case True
    then show ?thesis
      using inv n card by (auto simp: opool_release_def opool_inv_def opool_read_def)
  next
    case False
    then show ?thesis
      using inv n card v heap_ok_delete [of "o_heap p" n]
      by (auto simp: opool_release_def delete_obj_def opool_inv_def opool_read_def)
  qed
qed

lemma opool_write_inv:
  assumes "opool_inv p U" and "a \<in> U"
  shows "opool_inv (opool_write p a v) U"
  using assms heap_ok_write [of "o_heap p" a v] by (auto simp: opool_write_def opool_inv_def)

interpretation mutex_pool: object_pool "\<lambda>p. Inr (opool_acquire init p)" "\<lambda>p n. opool_release p (Some n)"
    opool_read opool_write opool_inv
proof
  fix p :: "'a opool" and U :: "nat set" and n a :: nat and v :: 'a
  assume inv: "opool_inv p U"
  show "\<exists>p' n. Inr (opool_acquire init p) = Inr (p', n) \<and> n \<notin> U \<and> opool_inv p' (insert n U) \<and>
      (\<forall>a \<in> U. opool_read p' a = opool_read p a)"
    using opool_acquire_inv [OF inv, of init] by auto
  assume "a \<in> U"
  then show "\<exists>v. opool_read p a = Some v" using inv by (auto simp: opool_inv_def opool_read_def)
next
  show "opool_inv (opool_write p a v) U \<and> (\<forall>b \<in> U. opool_read (opool_write p a v) b = (if b = a then Some v else opool_read p b))"
    if "opool_inv p U" and "a \<in> U" for p :: "'a opool" and U a v
    using opool_write_inv [OF that] by (simp add: opool_read_def opool_write_def)
qed (rule opool_release_inv)

section \<open>Properties\<close>

text \<open>
  \<open>ObjectPool\<close> never hands out an object that is in use, keeps the objects in use
  unchanged, and its \<open>allocated()\<close> counts exactly the objects in the pool and in use:
  acquiring any number of objects gives distinct live ones, and returning them all leaves
  none in use.
\<close>

lemma opool_acquire_release_many:
  assumes "opool_inv p U"
  shows "\<exists>p' ns p''. acq_times (\<lambda>p. Inr (opool_acquire init p)) k p = Inr (p', ns) \<and>
    length ns = k \<and> distinct ns \<and> set ns \<inter> U = {} \<and> set ns \<subseteq> live (o_heap p') \<and>
    o_allocated p' = of_nat (length (m_pool p') + card (U \<union> set ns)) \<and>
    rel_all (\<lambda>p n. opool_release p (Some n)) ns p' = Inr p'' \<and> opool_inv p'' U \<and>
    (\<forall>a \<in> U. opool_read p'' a = opool_read p a)"
proof -
  obtain p' ns where 1: "acq_times (\<lambda>p. Inr (opool_acquire init p)) k p = Inr (p', ns)" "length ns = k"
      "distinct ns" "set ns \<inter> U = {}" "opool_inv p' (U \<union> set ns)" "\<forall>a \<in> U. opool_read p' a = opool_read p a"
    using mutex_pool.acq_times_ok [OF assms, of init k] by blast
  have "U \<union> set ns - set ns = U" using 1(4) by auto
  with mutex_pool.rel_all_ok [OF 1(5) _ 1(3)] 1(4,6)
  obtain p'' where "rel_all (\<lambda>p n. opool_release p (Some n)) ns p' = Inr p''" "opool_inv p'' U"
      "\<forall>a \<in> U. opool_read p'' a = opool_read p a"
    by auto
  moreover have "set ns \<subseteq> live (o_heap p')" "o_allocated p' = of_nat (length (m_pool p') + card (U \<union> set ns))"
    using 1(5) by (auto simp: opool_inv_def)
  ultimately show ?thesis using 1(1-4) by blast
qed

lemma opool_acquire_release_many_witness:
  "\<exists>p' ns. acq_times (\<lambda>p. Inr (opool_acquire (0 :: nat) p)) 3 (opool_new 0 2 1024) = Inr (p', ns) \<and> distinct ns"
  using opool_acquire_release_many [OF opool_new_inv [of "0 :: nat" 2 1024], where init = 0 and k = 3] by blast

text \<open>
  Recycling: an object returned to a pool with room is the next one handed out, with
  its contents as they were left, and the pool is then exactly as before.
\<close>

theorem opool_release_acquire:
  assumes "o_maxSize p = 0 \<or> of_nat (length (m_pool p)) < o_maxSize p"
  shows "\<exists>p'. opool_release p (Some n) = Inr p' \<and> opool_acquire init p' = (p, n)"
  using assms by (auto simp: opool_release_def opool_acquire_def)

theorem opool_release_acquire_witness:
  "\<exists>p'. opool_release (opool_new (0 :: nat) 2 1024) (Some 7) = Inr p' \<and> opool_acquire 0 p' = (opool_new 0 2 1024, 7)"
  by (rule opool_release_acquire) code_simp

text \<open>
  \<open>clear()\<close> breaks the count: it resets \<open>m_allocated\<close> to zero although objects are
  still in use, so that returning them later makes \<open>allocated()\<close> wrap to the largest
  64-bit number.
\<close>

theorem opool_clear_breaks_count:
  "\<exists>p1 p2 p3 p4 p5 :: nat opool. opool_acquire 0 (opool_new 0 0 1) = (p1, 0) \<and> opool_acquire 0 p1 = (p2, 1) \<and>
     opool_clear p2 = Inr p3 \<and> opool_release p3 (Some 0) = Inr p4 \<and> opool_release p4 (Some 1) = Inr p5 \<and>
     live (o_heap p5) = {0} \<and> o_allocated p5 = 2 ^ 64 - 1"
  by (simp add: opool_acquire_def opool_new_def opool_clear_def opool_release_def delete_obj_def heap_new_def
      heap_delete_def heap_empty_def dom_def)

end
