(* ===== verification/Pool_LockFree.thy ===== *)
theory Pool_LockFree
  imports Object_Pool
begin

text \<open>
  \<open>src/objectpool_lockfree.h\<close>, class \<open>ObjectPoolLockFree\<close>: the Treiber stack of free nodes,
  as one thread runs it without interference, so that every compare-and-swap succeeds at
  its first try. \<open>Pool_Concurrent\<close> holds \<open>pushFree\<close> and \<open>popFree\<close> cut into their atomic
  accesses.

  \<open>nodes\<close> is the store of live nodes: those on the free list, which starts at \<open>m_freeList\<close>
  and is linked by \<open>nd_next\<close>, and those handed out. A node and the object in it have the same
  address, since the object is the node's first member. \<open>lf_inv p fl U\<close> says that \<open>fl\<close> is the
  free list and \<open>U\<close> the set of nodes in use. The constructor of the element type is \<open>init\<close>.
\<close>

section \<open>The pool\<close>

record 'a pnode =
  nd_data :: 'a
  nd_next :: "nat option"

record 'a pool =
  nodes :: "'a pnode heap"
  m_freeList :: "nat option"
  m_allocated :: u64
  m_maxSize :: u64

definition pushFree :: "'a pool \<Rightarrow> nat \<Rightarrow> 'a pool outcome" where
  "pushFree p node =
     obind (heap_read (nodes p) node) (\<lambda>nd.
       Inr (p\<lparr>nodes := heap_write (nodes p) node (nd\<lparr>nd_next := m_freeList p\<rparr>), m_freeList := Some node\<rparr>))"

definition popFree :: "'a pool \<Rightarrow> ('a pool \<times> nat option) outcome" where
  "popFree p =
     (case m_freeList p of
        None \<Rightarrow> Inr (p, None)
      | Some oldHead \<Rightarrow>
          obind (heap_read (nodes p) oldHead) (\<lambda>nd. Inr (p\<lparr>m_freeList := nd_next nd\<rparr>, Some oldHead)))"

definition new_node :: "'a \<Rightarrow> 'a pool \<Rightarrow> 'a pool \<times> nat" where
  "new_node init p =
     (let (h, a) = heap_new (nodes p) \<lparr>nd_data = init, nd_next = None\<rparr> in (p\<lparr>nodes := h\<rparr>, a))"

fun pool_fill :: "'a \<Rightarrow> nat \<Rightarrow> 'a pool \<Rightarrow> 'a pool outcome" where
  "pool_fill init 0 p = Inr p"
| "pool_fill init (Suc k) p =
     (let (p1, node) = new_node init p in
      obind (pushFree p1 node) (\<lambda>p2. pool_fill init k (p2\<lparr>m_allocated := m_allocated p2 + 1\<rparr>)))"

definition pool_new :: "'a \<Rightarrow> nat \<Rightarrow> u64 \<Rightarrow> 'a pool outcome" where
  "pool_new init initialSize maxSize =
     pool_fill init initialSize \<lparr>nodes = heap_empty, m_freeList = None, m_allocated = 0, m_maxSize = maxSize\<rparr>"

definition acquire :: "'a \<Rightarrow> 'a pool \<Rightarrow> ('a pool \<times> nat) outcome" where
  "acquire init p =
     obind (popFree p) (\<lambda>(p1, r). case r of
       Some node \<Rightarrow> Inr (p1, node)
     | None \<Rightarrow>
         let (p2, node) = new_node init p1 in Inr (p2\<lparr>m_allocated := m_allocated p2 + 1\<rparr>, node))"

definition release :: "'a pool \<Rightarrow> nat option \<Rightarrow> 'a pool outcome" where
  "release p obj =
     (case obj of
        None \<Rightarrow> Inr p
      | Some node \<Rightarrow>
          if 0 < m_maxSize p \<and> m_maxSize p < m_allocated p
          then obind (delete_obj (nodes p) node) (\<lambda>h. Inr (p\<lparr>nodes := h, m_allocated := m_allocated p - 1\<rparr>))
          else pushFree p node)"

text \<open>The destructor walks the free list; on a cyclic list it would not end.\<close>

partial_function (option) pool_destroy_loop :: "'a pnode heap \<Rightarrow> nat option \<Rightarrow> 'a pnode heap run" where
  "pool_destroy_loop h node =
     (case node of
        None \<Rightarrow> ret h
      | Some a \<Rightarrow>
          (case cells h a of
             None \<Rightarrow> Some (Inl UseAfterFree)
           | Some nd \<Rightarrow> pool_destroy_loop (heap_delete h a) (nd_next nd)))"

definition pool_destroy :: "'a pool \<Rightarrow> 'a pnode heap run" where
  "pool_destroy p = pool_destroy_loop (nodes p) (m_freeList p)"

text \<open>Access to the object in a node through the pointer \<open>acquire\<close> returned.\<close>

definition obj_read :: "'a pool \<Rightarrow> nat \<Rightarrow> 'a option" where
  "obj_read p a = map_option nd_data (cells (nodes p) a)"

definition obj_write :: "'a pool \<Rightarrow> nat \<Rightarrow> 'a \<Rightarrow> 'a pool" where
  "obj_write p a v =
     (case cells (nodes p) a of
        None \<Rightarrow> p
      | Some nd \<Rightarrow> p\<lparr>nodes := heap_write (nodes p) a (nd\<lparr>nd_data := v\<rparr>)\<rparr>)"

section \<open>Invariant\<close>

fun free_chain :: "(nat \<Rightarrow> 'a pnode option) \<Rightarrow> nat option \<Rightarrow> nat list \<Rightarrow> bool" where
  "free_chain c start [] \<longleftrightarrow> start = None"
| "free_chain c start (a # as) \<longleftrightarrow> start = Some a \<and> (\<exists>nd. c a = Some nd \<and> free_chain c (nd_next nd) as)"

definition lf_inv :: "'a pool \<Rightarrow> nat list \<Rightarrow> nat set \<Rightarrow> bool" where
  "lf_inv p fl U \<longleftrightarrow>
     finite U \<and> distinct fl \<and> set fl \<inter> U = {} \<and> live (nodes p) = set fl \<union> U \<and> heap_ok (nodes p) \<and>
     free_chain (cells (nodes p)) (m_freeList p) fl \<and> m_allocated p = of_nat (length fl + card U)"

definition pool_inv :: "'a pool \<Rightarrow> nat set \<Rightarrow> bool" where
  "pool_inv p U \<longleftrightarrow> (\<exists>fl. lf_inv p fl U)"

lemma free_chain_frame:
  assumes "free_chain c start fl" and "\<And>a. a \<in> set fl \<Longrightarrow> map_option nd_next (c' a) = map_option nd_next (c a)"
  shows "free_chain c' start fl"
  using assms
proof (induction fl arbitrary: start)
  case Nil
  then show ?case by simp
next
  case (Cons a fl)
  then obtain nd where nd: "start = Some a" "c a = Some nd" "free_chain c (nd_next nd) fl" by auto
  have "map_option nd_next (c' a) = Some (nd_next nd)" using Cons.prems(2) [of a] nd by simp
  then obtain nd' where "c' a = Some nd'" "nd_next nd' = nd_next nd" by (cases "c' a") auto
  moreover have "free_chain c' (nd_next nd) fl" using Cons.IH [OF nd(3)] Cons.prems(2) by simp
  ultimately show ?case using nd(1) by simp
qed

lemma free_chain_upd:
  "free_chain c start fl \<Longrightarrow> a \<notin> set fl \<Longrightarrow> free_chain (c(a := v)) start fl"
  by (erule free_chain_frame) auto

lemma lf_invD:
  assumes "lf_inv p fl U"
  shows "finite U" and "distinct fl" and "set fl \<inter> U = {}" and "live (nodes p) = set fl \<union> U"
    and "heap_ok (nodes p)" and "free_chain (cells (nodes p)) (m_freeList p) fl"
    and "m_allocated p = of_nat (length fl + card U)"
  using assms by (simp_all add: lf_inv_def)

lemma lf_inv_cell:
  assumes "lf_inv p fl U" and "n \<in> U"
  obtains nd where "cells (nodes p) n = Some nd" and "n \<notin> set fl"
proof -
  have "n \<in> live (nodes p)" and "n \<notin> set fl" using lf_invD(3,4) [OF assms(1)] assms(2) by auto
  with that show ?thesis by blast
qed

lemma card_move: "finite U \<Longrightarrow> n \<in> U \<Longrightarrow> Suc (card (U - {n})) = card U"
  by (rule card_Suc_Diff1)

lemma pushFree_ok:
  assumes inv: "lf_inv p fl U" and n: "n \<in> U"
  shows "\<exists>p'. pushFree p n = Inr p' \<and> lf_inv p' (n # fl) (U - {n}) \<and> m_allocated p' = m_allocated p \<and>
    m_maxSize p' = m_maxSize p \<and> (\<forall>a. obj_read p' a = obj_read p a)"
proof -
  note D = lf_invD [OF inv]
  obtain nd where nd: "cells (nodes p) n = Some nd" "n \<notin> set fl" using inv n by (rule lf_inv_cell)
  let ?nd = "nd\<lparr>nd_next := m_freeList p\<rparr>"
  let ?p = "p\<lparr>nodes := heap_write (nodes p) n ?nd, m_freeList := Some n\<rparr>"
  have "heap_ok (heap_write (nodes p) n ?nd)" using D(5) nd(1) by blast
  moreover have "free_chain (cells (nodes ?p)) (m_freeList ?p) (n # fl)"
    using free_chain_upd [OF D(6) nd(2)] by simp
  moreover have "live (nodes ?p) = set (n # fl) \<union> (U - {n})" using D(4) n by auto
  moreover have "m_allocated p = of_nat (length (n # fl) + card (U - {n}))"
    using D(7) by (simp add: card_move [OF D(1) n, symmetric])
  ultimately have "lf_inv ?p (n # fl) (U - {n})"
    unfolding lf_inv_def using D(1,2,3) nd(2) by auto
  moreover have "pushFree p n = Inr ?p" using nd by (simp add: pushFree_def)
  moreover have "obj_read ?p a = obj_read p a" for a using nd by (simp add: obj_read_def)
  ultimately show ?thesis by auto
qed

lemma popFree_ok:
  assumes inv: "lf_inv p (n # fl) U"
  shows "\<exists>p'. popFree p = Inr (p', Some n) \<and> lf_inv p' fl (insert n U) \<and> n \<notin> U \<and> nodes p' = nodes p \<and>
    m_allocated p' = m_allocated p \<and> m_maxSize p' = m_maxSize p"
proof -
  note D = lf_invD [OF inv]
  obtain nd where nd: "m_freeList p = Some n" "cells (nodes p) n = Some nd" "free_chain (cells (nodes p)) (nd_next nd) fl"
    using D(6) by auto
  have "n \<notin> U" using D(3) by auto
  have "lf_inv (p\<lparr>m_freeList := nd_next nd\<rparr>) fl (insert n U)"
    unfolding lf_inv_def using D(1-5,7) nd \<open>n \<notin> U\<close> by auto
  with nd \<open>n \<notin> U\<close> show ?thesis by (simp add: popFree_def)
qed

lemma popFree_empty: "lf_inv p [] U \<Longrightarrow> popFree p = Inr (p, None)"
  by (simp add: popFree_def lf_inv_def)

lemma new_node_ok:
  assumes inv: "lf_inv p fl U" and new: "new_node init p = (p', n)"
  shows "n \<notin> U" and "n \<notin> set fl" and "lf_inv (p'\<lparr>m_allocated := m_allocated p' + 1\<rparr>) fl (insert n U)"
    and "\<forall>a \<in> U. obj_read p' a = obj_read p a" and "obj_read p' n = Some init"
    and "m_maxSize p' = m_maxSize p" and "m_allocated p' = m_allocated p"
proof -
  note D = lf_invD [OF inv]
  let ?nd = "\<lparr>nd_data = init, nd_next = None\<rparr>"
  have p': "p' = p\<lparr>nodes := fst (heap_new (nodes p) ?nd)\<rparr>" and n: "n = next_addr (nodes p)"
    using new by (auto simp: new_node_def heap_new_def)
  have "n \<notin> live (nodes p)" using heap_ok_fresh [OF D(5)] by (simp add: n domIff)
  with D(4) show nU: "n \<notin> U" and nfl: "n \<notin> set fl" by auto
  let ?p = "p'\<lparr>m_allocated := m_allocated p' + 1\<rparr>"
  have cells: "cells (nodes p') = (cells (nodes p))(n := Some ?nd)" by (simp add: p' heap_new_def n)
  have "live (nodes ?p) = set fl \<union> insert n U" using D(4) by (simp add: cells)
  moreover have "heap_ok (nodes ?p)" using heap_ok_new [OF D(5)] by (simp add: p')
  moreover have "free_chain (cells (nodes ?p)) (m_freeList ?p) fl"
    using free_chain_upd [OF D(6) nfl] by (simp add: cells) (simp add: p')
  moreover have "m_allocated ?p = of_nat (length fl + card (insert n U))"
    using D(1,7) nU by (simp add: p')
  ultimately show "lf_inv ?p fl (insert n U)"
    unfolding lf_inv_def using D(1-3) nfl by simp
  show "\<forall>a \<in> U. obj_read p' a = obj_read p a" and "obj_read p' n = Some init"
    using nU by (auto simp: obj_read_def cells)
  show "m_maxSize p' = m_maxSize p" and "m_allocated p' = m_allocated p" by (simp_all add: p')
qed

lemma obj_read_simps [simp]:
  "obj_read (p\<lparr>m_freeList := x\<rparr>) a = obj_read p a"
  "obj_read (p\<lparr>m_allocated := k\<rparr>) a = obj_read p a"
  by (simp_all add: obj_read_def)

lemma acquire_ok:
  assumes inv: "lf_inv p fl U"
  shows "\<exists>p' n. acquire init p = Inr (p', n) \<and> n \<notin> U \<and> lf_inv p' (tl fl) (insert n U) \<and>
    m_maxSize p' = m_maxSize p \<and> (\<forall>a \<in> U. obj_read p' a = obj_read p a)"
proof (cases fl)
  case Nil
  obtain p' n where new: "new_node init p = (p', n)" by fastforce
  note N = new_node_ok [OF inv new]
  have "popFree p = Inr (p, None)" using inv Nil popFree_empty by blast
  then have "acquire init p = Inr (p'\<lparr>m_allocated := m_allocated p' + 1\<rparr>, n)" by (simp add: acquire_def new)
  with N Nil show ?thesis by auto
next
  case (Cons n fl')
  with inv obtain p' where "popFree p = Inr (p', Some n)" "lf_inv p' fl' (insert n U)" "n \<notin> U"
      "nodes p' = nodes p" "m_maxSize p' = m_maxSize p"
    using popFree_ok [of p n fl' U] by blast
  with Cons show ?thesis by (simp add: acquire_def obj_read_def)
qed

lemma release_ok:
  assumes inv: "lf_inv p fl U" and n: "n \<in> U"
  shows "\<exists>p'. release p (Some n) = Inr p' \<and> m_maxSize p' = m_maxSize p \<and>
    lf_inv p' (if 0 < m_maxSize p \<and> m_maxSize p < m_allocated p then fl else n # fl) (U - {n}) \<and>
    (\<forall>a \<in> U - {n}. obj_read p' a = obj_read p a)"
proof (cases "0 < m_maxSize p \<and> m_maxSize p < m_allocated p")
  case True
  note D = lf_invD [OF inv]
  obtain nd where nd: "cells (nodes p) n = Some nd" "n \<notin> set fl" using inv n by (rule lf_inv_cell)
  let ?p = "p\<lparr>nodes := heap_delete (nodes p) n, m_allocated := m_allocated p - 1\<rparr>"
  have "live (nodes ?p) = set fl \<union> (U - {n})" using D(4) nd(2) by auto
  moreover have "heap_ok (nodes ?p)" using heap_ok_delete [OF D(5)] by simp
  moreover have "free_chain (cells (nodes ?p)) (m_freeList ?p) fl"
    using free_chain_upd [OF D(6) nd(2)] by simp
  moreover have "m_allocated ?p = of_nat (length fl + card (U - {n}))"
    using D(7) by (simp add: card_move [OF D(1) n, symmetric])
  ultimately have "lf_inv ?p fl (U - {n})"
    unfolding lf_inv_def using D(1-3) by auto
  moreover have "release p (Some n) = Inr ?p" using True nd by (simp add: release_def delete_obj_def)
  ultimately show ?thesis using True by (simp add: obj_read_def)
next
  case False
  obtain p' where P: "pushFree p n = Inr p'" "lf_inv p' (n # fl) (U - {n})" "m_maxSize p' = m_maxSize p"
      "\<forall>a. obj_read p' a = obj_read p a"
    using pushFree_ok [OF inv n] by blast
  then show ?thesis using False by (simp only: release_def option.case if_False P(1)) simp
qed

lemma obj_write_ok:
  assumes inv: "lf_inv p fl U" and a: "a \<in> U"
  shows "lf_inv (obj_write p a v) fl U" and "obj_read (obj_write p a v) b = (if b = a then Some v else obj_read p b)"
proof -
  note D = lf_invD [OF inv]
  obtain nd where nd: "cells (nodes p) a = Some nd" "a \<notin> set fl" using inv a by (rule lf_inv_cell)
  let ?h = "heap_write (nodes p) a (nd\<lparr>nd_data := v\<rparr>)"
  have w: "obj_write p a v = p\<lparr>nodes := ?h\<rparr>" using nd by (simp add: obj_write_def)
  have "live ?h = live (nodes p)" using nd by auto
  moreover have "heap_ok ?h" using D(5) nd(1) by blast
  ultimately show "lf_inv (obj_write p a v) fl U"
    unfolding w lf_inv_def using D free_chain_upd [OF D(6) nd(2)] by simp
  show "obj_read (obj_write p a v) b = (if b = a then Some v else obj_read p b)"
    unfolding w by (simp add: obj_read_def)
qed

lemma obj_read_ok: "lf_inv p fl U \<Longrightarrow> a \<in> U \<Longrightarrow> \<exists>v. obj_read p a = Some v"
  by (erule (1) lf_inv_cell) (simp add: obj_read_def)

interpretation lf_pool: object_pool "acquire init" "\<lambda>p n. release p (Some n)" obj_read obj_write pool_inv
proof
  show "\<exists>p' n. acquire init p = Inr (p', n) \<and> n \<notin> U \<and> pool_inv p' (insert n U) \<and> (\<forall>a \<in> U. obj_read p' a = obj_read p a)"
    if "pool_inv p U" for p :: "'a pool" and U
    using that acquire_ok [of p _ U init] unfolding pool_inv_def by blast
  show "\<exists>p'. release p (Some n) = Inr p' \<and> pool_inv p' (U - {n}) \<and> (\<forall>a \<in> U - {n}. obj_read p' a = obj_read p a)"
    if "pool_inv p U" and "n \<in> U" for p :: "'a pool" and U n
    using that release_ok [of p _ U n] unfolding pool_inv_def by blast
  show "\<exists>v. obj_read p a = Some v" if "pool_inv p U" and "a \<in> U" for p :: "'a pool" and U a
    using that obj_read_ok [of p _ U a] unfolding pool_inv_def by blast
  show "pool_inv (obj_write p a v) U \<and> (\<forall>b \<in> U. obj_read (obj_write p a v) b = (if b = a then Some v else obj_read p b))"
    if "pool_inv p U" and "a \<in> U" for p :: "'a pool" and U a v
    using that obj_write_ok [of p _ U a v] unfolding pool_inv_def by blast
qed

section \<open>How many nodes there are\<close>

text \<open>
  \<open>m_allocated\<close> counts the nodes, in use or free. A release deletes a node only when there are more
  than the limit, so below it the number of nodes never falls.
\<close>

definition pool_nodes :: "'a pool \<Rightarrow> nat" where
  "pool_nodes p = card (live (nodes p))"

definition pool_kept :: "'a pool \<Rightarrow> 'a pool \<Rightarrow> bool" where
  "pool_kept p p' \<longleftrightarrow> m_maxSize p' = m_maxSize p \<and> (pool_nodes p \<le> unat (m_maxSize p) \<longrightarrow> pool_nodes p' = pool_nodes p)"

lemma pool_kept_refl [simp]: "pool_kept p p"
  by (simp add: pool_kept_def)

lemma pool_kept_trans: "pool_kept p p1 \<Longrightarrow> pool_kept p1 p2 \<Longrightarrow> pool_kept p p2"
  by (auto simp: pool_kept_def)

lemma lf_inv_nodes: "lf_inv p fl U \<Longrightarrow> pool_nodes p = length fl + card U"
  unfolding pool_nodes_def lf_inv_def by (simp add: card_Un_disjoint distinct_card)

lemma acquire_nodes:
  assumes "pool_inv p U" and "acquire init p = Inr (p', n)"
  shows "pool_nodes p \<le> pool_nodes p'" and "pool_nodes p' \<le> pool_nodes p + 1" and "m_maxSize p' = m_maxSize p"
proof -
  obtain fl where fl: "lf_inv p fl U" using assms(1) by (auto simp: pool_inv_def)
  have new: "n \<notin> U" "lf_inv p' (tl fl) (insert n U)" and max: "m_maxSize p' = m_maxSize p"
    using acquire_ok [OF fl, of init] assms(2) by auto
  have "card (insert n U) = card U + 1" using lf_invD(1) [OF fl] new(1) by simp
  then show "pool_nodes p \<le> pool_nodes p'" "pool_nodes p' \<le> pool_nodes p + 1"
    using lf_inv_nodes [OF fl] lf_inv_nodes [OF new(2)] by simp_all
  show "m_maxSize p' = m_maxSize p" by (rule max)
qed

lemma obj_write_nodes [simp]: "pool_nodes (obj_write p a v) = pool_nodes p" "m_maxSize (obj_write p a v) = m_maxSize p"
proof -
  have "live (nodes (obj_write p a v)) = live (nodes p)" by (auto simp: obj_write_def split: option.splits if_splits)
  then show "pool_nodes (obj_write p a v) = pool_nodes p" by (simp add: pool_nodes_def)
  show "m_maxSize (obj_write p a v) = m_maxSize p" by (simp add: obj_write_def split: option.split)
qed

lemma release_nodes:
  assumes "pool_inv p U" and n: "n \<in> U" and "release p (Some n) = Inr p'"
  shows "pool_kept p p'" and "pool_inv p' (U - {n})"
proof -
  obtain fl where fl: "lf_inv p fl U" using assms(1) by (auto simp: pool_inv_def)
  have rel: "m_maxSize p' = m_maxSize p"
    "lf_inv p' (if 0 < m_maxSize p \<and> m_maxSize p < m_allocated p then fl else n # fl) (U - {n})"
    using release_ok [OF fl n] assms(3) by auto
  have "pool_nodes p' = pool_nodes p" if "pool_nodes p \<le> unat (m_maxSize p)"
  proof -
    have alloc: "m_allocated p = of_nat (pool_nodes p)" using lf_invD(7) [OF fl] lf_inv_nodes [OF fl] by simp
    have "pool_nodes p < 2 ^ LENGTH(64)" using that unsigned_less [of "m_maxSize p"] by (rule le_less_trans)
    then have "unat (m_allocated p) = pool_nodes p" unfolding alloc by (simp add: unsigned_of_nat take_bit_nat_eq_self)
    then have "\<not> m_maxSize p < m_allocated p" using that by (simp add: word_less_nat_alt)
    then show ?thesis using lf_inv_nodes [OF fl] lf_inv_nodes [OF rel(2)] card_move [OF lf_invD(1) [OF fl] n] by simp
  qed
  with rel show "pool_kept p p'" "pool_inv p' (U - {n})" by (auto simp: pool_kept_def pool_inv_def)
qed

lemma rel_all_nodes:
  assumes "pool_inv p U" and "distinct ns" and "set ns \<subseteq> U" and "rel_all (\<lambda>p n. release p (Some n)) ns p = Inr p'"
  shows "pool_kept p p'"
  using assms
proof (induction ns arbitrary: p U)
  case Nil
  then show ?case by simp
next
  case (Cons n ns)
  then obtain p1 where p1: "release p (Some n) = Inr p1" "rel_all (\<lambda>p n. release p (Some n)) ns p1 = Inr p'"
    by (auto simp: obind_eq_Inr)
  have "n \<in> U" using Cons.prems(3) by simp
  note R = release_nodes [OF Cons.prems(1) this p1(1)]
  have "pool_kept p1 p'" using Cons.IH [OF R(2) _ _ p1(2)] Cons.prems(2,3) by auto
  with R(1) show ?case by (rule pool_kept_trans)
qed

section \<open>Construction and destruction\<close>

lemma pool_fill_ok:
  assumes "lf_inv p fl {}"
  shows "\<exists>p' fl'. pool_fill init k p = Inr p' \<and> lf_inv p' fl' {} \<and> length fl' = length fl + k \<and>
    m_maxSize p' = m_maxSize p"
  using assms
proof (induction k arbitrary: p fl)
  case 0
  then show ?case by (intro exI [of _ p] exI [of _ fl]) simp
next
  case (Suc k)
  obtain p1 n where new: "new_node init p = (p1, n)" by fastforce
  note N = new_node_ok [OF Suc.prems new]
  obtain p2 where p2: "pushFree (p1\<lparr>m_allocated := m_allocated p1 + 1\<rparr>) n = Inr p2" "lf_inv p2 (n # fl) {}"
      "m_maxSize p2 = m_maxSize p"
    using pushFree_ok [OF N(3), of n] N(6) by auto
  have "pushFree p1 n = Inr p3 \<Longrightarrow> p2 = p3\<lparr>m_allocated := m_allocated p3 + 1\<rparr>" for p3
    using p2(1) by (cases "cells (nodes p1) n") (auto simp: pushFree_def)
  moreover obtain p3 where p3: "pushFree p1 n = Inr p3"
    using p2(1) by (cases "cells (nodes p1) n") (auto simp: pushFree_def)
  ultimately have "pool_fill init (Suc k) p = pool_fill init k p2" by (simp add: new)
  with Suc.IH [OF p2(2)] p2(3) show ?case by auto
qed

lemma pool_new_ok:
  "\<exists>p fl. pool_new init k m = Inr p \<and> lf_inv p fl {} \<and> length fl = k \<and> m_maxSize p = m"
proof -
  have "lf_inv \<lparr>nodes = heap_empty, m_freeList = None, m_allocated = 0, m_maxSize = m\<rparr> [] {}"
    by (simp add: lf_inv_def heap_empty_def heap_ok_def)
  from pool_fill_ok [OF this, of init k] show ?thesis by (auto simp: pool_new_def)
qed

lemma pool_new_nodes:
  assumes "pool_new init k m = Inr p"
  shows "pool_nodes p = k" and "m_maxSize p = m"
  using pool_new_ok [of init k m] assms lf_inv_nodes [of p _ "{}"] by auto

lemma pool_destroy_loop_ok:
  assumes "free_chain (cells h) start fl" and "distinct fl"
  shows "\<exists>h'. pool_destroy_loop h start = ret h' \<and> cells h' = (\<lambda>a. if a \<in> set fl then None else cells h a)"
  using assms
proof (induction fl arbitrary: h start)
  case Nil
  then show ?case by (simp add: pool_destroy_loop.simps)
next
  case (Cons a fl)
  then obtain nd where nd: "start = Some a" "cells h a = Some nd" "free_chain (cells h) (nd_next nd) fl" by auto
  have chain: "free_chain (cells (heap_delete h a)) (nd_next nd) fl" and dist: "distinct fl"
    using free_chain_upd [OF nd(3)] Cons.prems(2) by simp_all
  obtain h' where "pool_destroy_loop (heap_delete h a) (nd_next nd) = ret h'"
      "cells h' = (\<lambda>b. if b \<in> set fl then None else cells (heap_delete h a) b)"
    using Cons.IH [OF chain dist] by blast
  with nd show ?case by (auto simp: pool_destroy_loop.simps [of h "Some a"])
qed

section \<open>Properties\<close>

text \<open>
  The lock-free pool keeps its contract and its bound. From any well-formed pool,
  \<open>acquire\<close> returns a node that is not in use, taken from the free list as long as there is
  one; \<open>release\<close> of a node in use never faults, and with a positive \<open>m_maxSize\<close> the free list
  never grows beyond it. Nodes in use keep their contents in both.
\<close>

lemma lf_pool_contract:
  assumes inv: "lf_inv p fl U" and bound: "length fl \<le> unat (m_maxSize p)" and pos: "0 < m_maxSize p"
    and count: "length fl + card U < 2 ^ 64"
  shows "(\<exists>p' n. acquire init p = Inr (p', n) \<and> n \<notin> U \<and> (fl \<noteq> [] \<longrightarrow> n = hd fl) \<and> lf_inv p' (tl fl) (insert n U) \<and>
        (\<forall>a \<in> U. obj_read p' a = obj_read p a)) \<and>
    (\<forall>n \<in> U. \<exists>p' fl'. release p (Some n) = Inr p' \<and> lf_inv p' fl' (U - {n}) \<and>
        length fl' \<le> unat (m_maxSize p') \<and> (\<forall>a \<in> U - {n}. obj_read p' a = obj_read p a))"
proof (intro conjI ballI)
  have "n = hd fl" if "acquire init p = Inr (p', n)" and "fl \<noteq> []" for p' n
  proof -
    have "lf_inv p (hd fl # tl fl) U" using inv that(2) by simp
    from popFree_ok [OF this] that(1) show ?thesis by (auto simp: acquire_def)
  qed
  with acquire_ok [OF inv, of init]
  show "\<exists>p' n. acquire init p = Inr (p', n) \<and> n \<notin> U \<and> (fl \<noteq> [] \<longrightarrow> n = hd fl) \<and> lf_inv p' (tl fl) (insert n U) \<and>
      (\<forall>a \<in> U. obj_read p' a = obj_read p a)" by blast
next
  fix n assume n: "n \<in> U"
  let ?fl = "if 0 < m_maxSize p \<and> m_maxSize p < m_allocated p then fl else n # fl"
  note D = lf_invD [OF inv]
  have "unat (m_allocated p) = length fl + card U"
    unfolding D(7) unat_of_nat take_bit_nat_eq_self_iff using count by simp
  moreover have "0 < card U" using D(1) n by (auto simp: card_gt_0_iff)
  ultimately have "\<not> m_maxSize p < m_allocated p \<Longrightarrow> length (n # fl) \<le> unat (m_maxSize p)"
    by (simp add: word_less_nat_alt)
  then have "length ?fl \<le> unat (m_maxSize p)" using bound pos by simp
  with release_ok [OF inv n]
  show "\<exists>p' fl'. release p (Some n) = Inr p' \<and> lf_inv p' fl' (U - {n}) \<and>
      length fl' \<le> unat (m_maxSize p') \<and> (\<forall>a \<in> U - {n}. obj_read p' a = obj_read p a)" by metis
qed

lemma lf_pool_contract_witness:
  "\<exists>p :: nat pool. \<exists>fl. pool_new 0 2 2 = Inr p \<and> length fl = 2 \<and> (\<exists>p' n. acquire 0 p = Inr (p', n) \<and> n = hd fl)"
proof -
  obtain p :: "nat pool" and fl where p: "pool_new 0 2 2 = Inr p" "lf_inv p fl {}" "length fl = 2" "m_maxSize p = 2"
    using pool_new_ok [of 0 2 2] by blast
  have "length fl \<le> unat (m_maxSize p)" "0 < m_maxSize p" "length fl + card ({} :: nat set) < 2 ^ 64"
    using p(3,4) by simp_all
  from lf_pool_contract [OF p(2) this, of 0] have "\<exists>p' n. acquire 0 p = Inr (p', n) \<and> (fl \<noteq> [] \<longrightarrow> n = hd fl)" by blast
  moreover have "fl \<noteq> []" using p(3) by auto
  ultimately show ?thesis using p(1,3) by blast
qed

text \<open>
  The life of a pool: whatever its initial size and limit, constructing it, acquiring
  any number of objects, returning them all and destroying it always returns, faults
  nowhere, and leaves no node behind.
\<close>

lemma lf_pool_lifecycle:
  "\<exists>p p' ns p'' h. pool_new init k m = Inr p \<and> acq_times (acquire init) j p = Inr (p', ns) \<and> length ns = j \<and> distinct ns \<and>
     rel_all (\<lambda>p n. release p (Some n)) ns p' = Inr p'' \<and> pool_destroy p'' = ret h \<and> live h = {}"
proof -
  obtain p fl where p: "pool_new init k m = Inr p" "lf_inv p fl {}" using pool_new_ok [of init k m] by blast
  then have "pool_inv p {}" by (auto simp: pool_inv_def)
  from lf_pool.acq_times_ok [OF this, of init j]
  obtain p' ns where acq: "acq_times (acquire init) j p = Inr (p', ns)" "length ns = j" "distinct ns" "pool_inv p' (set ns)"
    by auto
  from lf_pool.rel_all_ok [OF acq(4) _ acq(3)]
  obtain p'' where rel: "rel_all (\<lambda>p n. release p (Some n)) ns p' = Inr p''" "pool_inv p'' {}" by auto
  then obtain fl' where "lf_inv p'' fl' {}" by (auto simp: pool_inv_def)
  note D = lf_invD [OF this]
  obtain h where h: "pool_destroy p'' = ret h" "cells h = (\<lambda>a. if a \<in> set fl' then None else cells (nodes p'') a)"
    using pool_destroy_loop_ok [OF D(6,2)] by (auto simp: pool_destroy_def)
  have "live h = {}" using D(4) by (auto simp: h(2) dom_def)
  with p(1) acq rel(1) h(1) show ?thesis by blast
qed

end
