(* ===== verification/Pool_Concurrent.thy ===== *)
theory Pool_Concurrent
  imports Pool_LockFree
begin

text \<open>
  \<open>src/objectpool_lockfree.h\<close> under concurrency: \<open>acquire\<close>, \<open>release\<close>, \<open>pushFree\<close> and
  \<open>popFree\<close> cut at their atomic accesses and at the plain accesses to \<open>next\<close>, one program
  counter per thread and any interleaving, with compare-and-swaps that may also fail
  spuriously (\<open>compare_exchange_weak\<close>). Accesses are sequentially consistent.

  With one thread that acquires and any number that release, the pool is correct: this is
  the invariant \<open>linv\<close>. With two acquiring threads it is not: the stack has the ABA problem
  and reads the \<open>next\<close> field of deleted nodes, shown by two explicit runs.
\<close>

section \<open>The atomic steps\<close>

datatype lpc =
    LIdle
  | PopLoad
  | PopRead nat
  | PopCas nat "nat option"
  | NewNode
  | CountUp nat
  | RelLoad nat
  | DeleteNode nat
  | CountDown
  | PushStore nat "nat option"
  | PushCas nat "nat option"

text \<open>
  \<open>weak\<close> makes a compare-and-swap fail although its value matches. The last component of
  the result is the node \<open>acquire\<close> returns in this step.
\<close>

fun pool_step :: "'a \<Rightarrow> bool \<Rightarrow> 'a pool \<Rightarrow> lpc \<Rightarrow> ('a pool \<times> lpc \<times> nat option) outcome" where
  "pool_step init weak p LIdle = Inr (p, LIdle, None)"
| "pool_step init weak p PopLoad =
     (case m_freeList p of None \<Rightarrow> Inr (p, NewNode, None) | Some a \<Rightarrow> Inr (p, PopRead a, None))"
| "pool_step init weak p (PopRead a) =
     obind (heap_read (nodes p) a) (\<lambda>nd. Inr (p, PopCas a (nd_next nd), None))"
| "pool_step init weak p (PopCas a newHead) =
     (if m_freeList p = Some a \<and> \<not> weak then Inr (p\<lparr>m_freeList := newHead\<rparr>, LIdle, Some a)
      else case m_freeList p of None \<Rightarrow> Inr (p, NewNode, None) | Some b \<Rightarrow> Inr (p, PopRead b, None))"
| "pool_step init weak p NewNode = (let (p', a) = new_node init p in Inr (p', CountUp a, None))"
| "pool_step init weak p (CountUp a) = Inr (p\<lparr>m_allocated := m_allocated p + 1\<rparr>, LIdle, Some a)"
| "pool_step init weak p (RelLoad a) =
     (if 0 < m_maxSize p \<and> m_maxSize p < m_allocated p then Inr (p, DeleteNode a, None)
      else Inr (p, PushStore a (m_freeList p), None))"
| "pool_step init weak p (DeleteNode a) =
     obind (delete_obj (nodes p) a) (\<lambda>h. Inr (p\<lparr>nodes := h\<rparr>, CountDown, None))"
| "pool_step init weak p CountDown = Inr (p\<lparr>m_allocated := m_allocated p - 1\<rparr>, LIdle, None)"
| "pool_step init weak p (PushStore a oldHead) =
     obind (heap_read (nodes p) a) (\<lambda>nd.
       Inr (p\<lparr>nodes := heap_write (nodes p) a (nd\<lparr>nd_next := oldHead\<rparr>)\<rparr>, PushCas a oldHead, None))"
| "pool_step init weak p (PushCas a oldHead) =
     (if m_freeList p = oldHead \<and> \<not> weak then Inr (p\<lparr>m_freeList := Some a\<rparr>, LIdle, None)
      else Inr (p, PushStore a (m_freeList p), None))"

text \<open>
  A system: the pool, one program counter per thread, and the nodes that \<open>acquire\<close> returned
  and nobody passed to \<open>release\<close> since. Any thread may release any node in use (messages
  travel from producers to consumers), each once; only the threads of \<open>A\<close> acquire.
\<close>

record 'a lsys =
  lpool :: "'a pool"
  lpcs :: "nat \<Rightarrow> lpc"
  in_use :: "nat set"

datatype lact = StartAcquire | StartRelease nat | Run bool

definition lsys_step :: "'a \<Rightarrow> nat set \<Rightarrow> nat \<Rightarrow> lact \<Rightarrow> 'a lsys \<Rightarrow> 'a lsys outcome option" where
  "lsys_step init A t act s =
     (case act of
        StartAcquire \<Rightarrow>
          if t \<in> A \<and> lpcs s t = LIdle then Some (Inr (s\<lparr>lpcs := (lpcs s)(t := PopLoad)\<rparr>)) else None
      | StartRelease n \<Rightarrow>
          if n \<in> in_use s \<and> lpcs s t = LIdle
          then Some (Inr (s\<lparr>lpcs := (lpcs s)(t := RelLoad n), in_use := in_use s - {n}\<rparr>)) else None
      | Run weak \<Rightarrow>
          if lpcs s t = LIdle then None
          else Some (obind (pool_step init weak (lpool s) (lpcs s t)) (\<lambda>(p', pc', r).
            Inr (s\<lparr>lpool := p', lpcs := (lpcs s)(t := pc'), in_use := in_use s \<union> set_option r\<rparr>))))"

definition lsys_init :: "'a pool \<Rightarrow> 'a lsys" where
  "lsys_init p = \<lparr>lpool = p, lpcs = (\<lambda>_. LIdle), in_use = {}\<rparr>"

inductive lreachable :: "'a \<Rightarrow> nat set \<Rightarrow> 'a pool \<Rightarrow> 'a lsys \<Rightarrow> bool" for init A p0 where
  start: "lreachable init A p0 (lsys_init p0)"
| next_step: "lreachable init A p0 s \<Longrightarrow> lsys_step init A t act s = Some (Inr s') \<Longrightarrow> lreachable init A p0 s'"

section \<open>One acquiring thread: the invariant\<close>

text \<open>The node a thread owns while it acquires or releases.\<close>

fun owned :: "lpc \<Rightarrow> nat option" where
  "owned (CountUp a) = Some a"
| "owned (RelLoad a) = Some a"
| "owned (DeleteNode a) = Some a"
| "owned (PushStore a h0) = Some a"
| "owned (PushCas a h0) = Some a"
| "owned pc = None"

fun acquiring :: "lpc \<Rightarrow> bool" where
  "acquiring PopLoad = True"
| "acquiring (PopRead a) = True"
| "acquiring (PopCas a h0) = True"
| "acquiring NewNode = True"
| "acquiring (CountUp a) = True"
| "acquiring pc = False"

fun local_ok :: "'a pool \<Rightarrow> nat list \<Rightarrow> lpc \<Rightarrow> bool" where
  "local_ok p fl (PopRead a) \<longleftrightarrow> a \<in> set fl"
| "local_ok p fl (PopCas a newHead) \<longleftrightarrow> a \<in> set fl \<and> map_option nd_next (cells (nodes p) a) = Some newHead"
| "local_ok p fl (PushCas a oldHead) \<longleftrightarrow> map_option nd_next (cells (nodes p) a) = Some oldHead"
| "local_ok p fl pc \<longleftrightarrow> True"

definition linv :: "nat \<Rightarrow> 'a lsys \<Rightarrow> nat list \<Rightarrow> bool" where
  "linv t0 s fl \<longleftrightarrow>
     distinct fl \<and> set fl \<inter> in_use s = {} \<and> heap_ok (nodes (lpool s)) \<and>
     free_chain (cells (nodes (lpool s))) (m_freeList (lpool s)) fl \<and>
     set fl \<union> in_use s \<subseteq> live (nodes (lpool s)) \<and>
     (\<forall>t a. owned (lpcs s t) = Some a \<longrightarrow> a \<in> live (nodes (lpool s)) \<and> a \<notin> set fl \<and> a \<notin> in_use s) \<and>
     (\<forall>t u a. owned (lpcs s t) = Some a \<longrightarrow> owned (lpcs s u) = Some a \<longrightarrow> t = u) \<and>
     (\<forall>t. acquiring (lpcs s t) \<longrightarrow> t = t0) \<and>
     (\<forall>t. local_ok (lpool s) fl (lpcs s t))"

lemma linvD:
  assumes "linv t0 s fl"
  shows "distinct fl" and "set fl \<inter> in_use s = {}" and "heap_ok (nodes (lpool s))"
    and "free_chain (cells (nodes (lpool s))) (m_freeList (lpool s)) fl"
    and "a \<in> set fl \<Longrightarrow> a \<in> live (nodes (lpool s))" and "a \<in> in_use s \<Longrightarrow> a \<in> live (nodes (lpool s))"
    and "owned (lpcs s t) = Some a \<Longrightarrow> a \<in> live (nodes (lpool s)) \<and> a \<notin> set fl \<and> a \<notin> in_use s"
    and "owned (lpcs s t) = Some a \<Longrightarrow> owned (lpcs s u) = Some a \<Longrightarrow> t = u"
    and "acquiring (lpcs s t) \<Longrightarrow> t = t0" and "local_ok (lpool s) fl (lpcs s t)"
  using assms unfolding linv_def by blast+

lemma linv_upd:
  assumes "linv t0 s fl" and "distinct fl'" and "set fl' \<inter> V = {}" and "heap_ok (nodes p')"
    and "free_chain (cells (nodes p')) (m_freeList p') fl'" and "set fl' \<union> V \<subseteq> live (nodes p')"
    and "\<And>a. owned pc' = Some a \<Longrightarrow> a \<in> live (nodes p') \<and> a \<notin> set fl' \<and> a \<notin> V"
    and "\<And>u b. u \<noteq> t \<Longrightarrow> owned (lpcs s u) = Some b \<Longrightarrow>
           b \<in> live (nodes p') \<and> b \<notin> set fl' \<and> b \<notin> V \<and> owned pc' \<noteq> Some b"
    and "acquiring pc' \<Longrightarrow> t = t0" and "local_ok p' fl' pc'"
    and "\<And>u. u \<noteq> t \<Longrightarrow> local_ok p' fl' (lpcs s u)"
  shows "linv t0 (s\<lparr>lpool := p', lpcs := (lpcs s)(t := pc'), in_use := V\<rparr>) fl'"
  using assms linvD(8,9) [OF assms(1)] unfolding linv_def
  by (simp add: all_conj_distrib) (metis option.inject)

lemma local_ok_frame:
  assumes "local_ok p fl pc" and "acquiring pc \<Longrightarrow> set fl \<subseteq> set fl'"
    and "\<And>a. a \<in> set fl \<or> owned pc = Some a \<Longrightarrow>
           map_option nd_next (cells (nodes p') a) = map_option nd_next (cells (nodes p) a)"
  shows "local_ok p' fl' pc"
  using assms by (cases pc) auto

text \<open>A step that changes neither the nodes nor the free list.\<close>

lemma linv_quiet:
  assumes inv: "linv t0 s fl" and nodes: "nodes p' = nodes (lpool s)" "m_freeList p' = m_freeList (lpool s)"
    and own: "owned pc' = owned (lpcs s t)" and acq: "acquiring pc' \<Longrightarrow> t = t0" and loc: "local_ok (lpool s) fl pc'"
  shows "linv t0 (s\<lparr>lpool := p', lpcs := (lpcs s)(t := pc'), in_use := in_use s\<rparr>) fl"
proof -
  note D = linvD [OF inv]
  have frame: "local_ok p' fl pc" if "local_ok (lpool s) fl pc" for pc
    using that by (rule local_ok_frame) (simp_all add: nodes)
  show ?thesis
  proof (rule linv_upd [OF inv])
    show "set fl \<union> in_use s \<subseteq> live (nodes p')" using D(5,6) nodes by auto
    show "b \<in> live (nodes p') \<and> b \<notin> set fl \<and> b \<notin> in_use s \<and> owned pc' \<noteq> Some b"
      if "u \<noteq> t" and "owned (lpcs s u) = Some b" for u b
      using D(7,8) that own nodes by metis
  qed (use D nodes own acq loc frame in auto)
qed

text \<open>What each step of a thread guarantees.\<close>

definition step_safe :: "'a \<Rightarrow> bool \<Rightarrow> nat \<Rightarrow> 'a lsys \<Rightarrow> nat \<Rightarrow> bool" where
  "step_safe init weak t0 s t \<longleftrightarrow>
     (\<exists>p' pc' r fl'. pool_step init weak (lpool s) (lpcs s t) = Inr (p', pc', r) \<and> set_option r \<inter> in_use s = {} \<and>
        (\<forall>a \<in> in_use s. obj_read p' a = obj_read (lpool s) a) \<and>
        linv t0 (s\<lparr>lpool := p', lpcs := (lpcs s)(t := pc'), in_use := in_use s \<union> set_option r\<rparr>) fl')"

lemma step_safeI:
  assumes "pool_step init weak (lpool s) (lpcs s t) = Inr (p', pc', None)"
    and "\<And>a. a \<in> in_use s \<Longrightarrow> obj_read p' a = obj_read (lpool s) a"
    and "linv t0 (s\<lparr>lpool := p', lpcs := (lpcs s)(t := pc'), in_use := in_use s\<rparr>) fl'"
  shows "step_safe init weak t0 s t"
  unfolding step_safe_def using assms by (intro exI [of _ p'] exI [of _ pc'] exI [of _ None] exI [of _ fl']) simp

lemma step_safe_quiet:
  assumes "linv t0 s fl" and "pool_step init weak (lpool s) (lpcs s t) = Inr (p', pc', None)"
    and "nodes p' = nodes (lpool s)" and "m_freeList p' = m_freeList (lpool s)"
    and "owned pc' = owned (lpcs s t)" and "acquiring pc' \<Longrightarrow> t = t0" and "local_ok (lpool s) fl pc'"
  shows "step_safe init weak t0 s t"
  using linv_quiet [OF assms(1,3-7)] assms(2,3) by (intro step_safeI) (simp_all add: obj_read_def)

text \<open>The address a thread of an acquiring step reads next: the current head of the list.\<close>

lemma step_safe_reload:
  assumes inv: "linv t0 s fl" and acq: "acquiring (lpcs s t)" and own: "owned (lpcs s t) = None"
    and step: "pool_step init weak (lpool s) (lpcs s t) =
      (case m_freeList (lpool s) of None \<Rightarrow> Inr (lpool s, NewNode, None) | Some a \<Rightarrow> Inr (lpool s, PopRead a, None))"
  shows "step_safe init weak t0 s t"
proof -
  note D = linvD [OF inv]
  show ?thesis
  proof (cases "m_freeList (lpool s)")
    case None
    then show ?thesis using D(9) [OF acq] own step by (intro step_safe_quiet [OF inv, where pc' = NewNode]) auto
  next
    case (Some a)
    then have "a \<in> set fl" using D(4) by (cases fl) auto
    with Some show ?thesis
      using D(9) [OF acq] own step by (intro step_safe_quiet [OF inv, where pc' = "PopRead a"]) auto
  qed
qed

lemma step_safe_PopRead:
  assumes inv: "linv t0 s fl" and pc: "lpcs s t = PopRead a"
  shows "step_safe init weak t0 s t"
proof -
  note D = linvD [OF inv]
  have "a \<in> set fl" using D(10) [of t] pc by simp
  then obtain nd where nd: "cells (nodes (lpool s)) a = Some nd" using D(5) by blast
  then show ?thesis
    using D(9) [of t] pc \<open>a \<in> set fl\<close> by (intro step_safe_quiet [OF inv, where pc' = "PopCas a (nd_next nd)"]) simp_all
qed

lemma step_safe_PopCas:
  assumes inv: "linv t0 s fl" and pc: "lpcs s t = PopCas a newHead"
  shows "step_safe init weak t0 s t"
proof (cases "m_freeList (lpool s) = Some a \<and> \<not> weak")
  case False
  then show ?thesis using pc by (intro step_safe_reload [OF inv]) auto
next
  case True
  note D = linvD [OF inv]
  have t: "t = t0" using D(9) [of t] pc by simp
  have next_a: "map_option nd_next (cells (nodes (lpool s)) a) = Some newHead" using D(10) [of t] pc by simp
  obtain fl' where fl: "fl = a # fl'" using D(4) True by (cases fl) auto
  let ?p = "lpool s\<lparr>m_freeList := newHead\<rparr>"
  have chain: "free_chain (cells (nodes ?p)) (m_freeList ?p) fl'" using D(4) next_a by (auto simp: fl)
  have "linv t0 (s\<lparr>lpool := ?p, lpcs := (lpcs s)(t := LIdle), in_use := insert a (in_use s)\<rparr>) fl'"
  proof (rule linv_upd [OF inv])
    show "set fl' \<inter> insert a (in_use s) = {}" "distinct fl'" using D(1,2) by (auto simp: fl)
    show "set fl' \<union> insert a (in_use s) \<subseteq> live (nodes ?p)" using D(5) D(6) by (auto simp: fl)
    show "b \<in> live (nodes ?p) \<and> b \<notin> set fl' \<and> b \<notin> insert a (in_use s) \<and> owned LIdle \<noteq> Some b"
      if "u \<noteq> t" "owned (lpcs s u) = Some b" for u b
      using D(7) [OF that(2)] by (auto simp: fl)
    show "local_ok ?p fl' (lpcs s u)" if "u \<noteq> t" for u
    proof (rule local_ok_frame [OF D(10) [of u]])
      show "set fl \<subseteq> set fl'" if "acquiring (lpcs s u)" using D(9) [OF that] t \<open>u \<noteq> t\<close> by simp
    qed simp
  qed (use chain D(3) in simp_all)
  then show ?thesis
    unfolding step_safe_def using True pc D(2)
    by (intro exI [of _ ?p] exI [of _ LIdle] exI [of _ "Some a"] exI [of _ fl']) (auto simp: obj_read_def fl)
qed

lemma step_safe_NewNode:
  assumes inv: "linv t0 s fl" and pc: "lpcs s t = NewNode"
  shows "step_safe init weak t0 s t"
proof -
  note D = linvD [OF inv]
  let ?nd = "\<lparr>nd_data = init, nd_next = None\<rparr>"
  let ?a = "next_addr (nodes (lpool s))"
  let ?p = "lpool s\<lparr>nodes := fst (heap_new (nodes (lpool s)) ?nd)\<rparr>"
  have new: "new_node init (lpool s) = (?p, ?a)" by (simp add: new_node_def heap_new_def)
  have cells: "cells (nodes ?p) = (cells (nodes (lpool s)))(?a := Some ?nd)" by (simp add: heap_new_def)
  have fresh: "?a \<notin> live (nodes (lpool s))" using heap_ok_fresh [OF D(3)] by (simp add: domIff)
  then have fl: "?a \<notin> set fl" and use: "?a \<notin> in_use s" and others: "\<And>u. owned (lpcs s u) \<noteq> Some ?a"
    using D(5-7) by blast+
  have "linv t0 (s\<lparr>lpool := ?p, lpcs := (lpcs s)(t := CountUp ?a), in_use := in_use s\<rparr>) fl"
  proof (rule linv_upd [OF inv])
    show "heap_ok (nodes ?p)" using heap_ok_new [OF D(3)] by simp
    show "free_chain (cells (nodes ?p)) (m_freeList ?p) fl"
      unfolding cells using free_chain_upd [OF D(4) fl] by simp
    show "set fl \<union> in_use s \<subseteq> live (nodes ?p)" unfolding cells using D(5,6) by auto
    show "b \<in> live (nodes ?p) \<and> b \<notin> set fl \<and> b \<notin> in_use s \<and> owned (CountUp ?a) \<noteq> Some b"
      if "u \<noteq> t" "owned (lpcs s u) = Some b" for u b
      unfolding cells using D(7) [OF that(2)] others [of u] that(2) by auto
    show "b \<in> live (nodes ?p) \<and> b \<notin> set fl \<and> b \<notin> in_use s" if "owned (CountUp ?a) = Some b" for b
      unfolding cells using that fl use by auto
    show "local_ok ?p fl (lpcs s u)" if "u \<noteq> t" for u
    proof (rule local_ok_frame [OF D(10) [of u]])
      show "map_option nd_next (cells (nodes ?p) b) = map_option nd_next (cells (nodes (lpool s)) b)"
        if "b \<in> set fl \<or> owned (lpcs s u) = Some b" for b
        unfolding cells using that fl others [of u] by (cases "b = ?a") simp_all
    qed simp
    show "t = t0" using D(9) [of t] pc by simp
  qed (use D(1,2) in simp_all)
  moreover have "obj_read ?p a = obj_read (lpool s) a" if "a \<in> in_use s" for a
    unfolding obj_read_def cells using that use by (cases "a = ?a") simp_all
  moreover have "pool_step init weak (lpool s) (lpcs s t) = Inr (?p, CountUp ?a, None)" using pc new by simp
  ultimately show ?thesis by (intro step_safeI [where p' = ?p])
qed

lemma step_safe_CountUp:
  assumes inv: "linv t0 s fl" and pc: "lpcs s t = CountUp a"
  shows "step_safe init weak t0 s t"
proof -
  note D = linvD [OF inv]
  have a: "a \<in> live (nodes (lpool s))" "a \<notin> set fl" "a \<notin> in_use s" using D(7) [of t] pc by auto
  let ?p = "lpool s\<lparr>m_allocated := m_allocated (lpool s) + 1\<rparr>"
  have "linv t0 (s\<lparr>lpool := ?p, lpcs := (lpcs s)(t := LIdle), in_use := insert a (in_use s)\<rparr>) fl"
  proof (rule linv_upd [OF inv])
    show "set fl \<inter> insert a (in_use s) = {}" using D(2) a by auto
    show "set fl \<union> insert a (in_use s) \<subseteq> live (nodes ?p)" using D(5,6) a by auto
    show "b \<in> live (nodes ?p) \<and> b \<notin> set fl \<and> b \<notin> insert a (in_use s) \<and> owned LIdle \<noteq> Some b"
      if "u \<noteq> t" "owned (lpcs s u) = Some b" for u b
      using D(7) [OF that(2)] D(8) [of t a u] that pc by auto
    show "local_ok ?p fl (lpcs s u)" for u
      using D(10) [of u] by (rule local_ok_frame) simp_all
  qed (use D(1,3,4) in simp_all)
  then show ?thesis
    unfolding step_safe_def using pc a
    by (intro exI [of _ ?p] exI [of _ LIdle] exI [of _ "Some a"] exI [of _ fl]) (auto simp: obj_read_def)
qed

lemma step_safe_DeleteNode:
  assumes inv: "linv t0 s fl" and pc: "lpcs s t = DeleteNode a"
  shows "step_safe init weak t0 s t"
proof -
  note D = linvD [OF inv]
  have a: "a \<in> live (nodes (lpool s))" "a \<notin> set fl" "a \<notin> in_use s" using D(7) [of t] pc by auto
  have others: "owned (lpcs s u) \<noteq> Some a" if "u \<noteq> t" for u using D(8) [of t a u] that pc by auto
  let ?p = "lpool s\<lparr>nodes := heap_delete (nodes (lpool s)) a\<rparr>"
  have "linv t0 (s\<lparr>lpool := ?p, lpcs := (lpcs s)(t := CountDown), in_use := in_use s\<rparr>) fl"
  proof (rule linv_upd [OF inv])
    show "heap_ok (nodes ?p)" using heap_ok_delete [OF D(3)] by simp
    show "free_chain (cells (nodes ?p)) (m_freeList ?p) fl" using free_chain_upd [OF D(4) a(2)] by simp
    show "set fl \<union> in_use s \<subseteq> live (nodes ?p)" using D(5,6) a by auto
    show "b \<in> live (nodes ?p) \<and> b \<notin> set fl \<and> b \<notin> in_use s \<and> owned CountDown \<noteq> Some b"
      if "u \<noteq> t" "owned (lpcs s u) = Some b" for u b
      using D(7) [OF that(2)] others [OF that(1)] that(2) by auto
    show "local_ok ?p fl (lpcs s u)" if "u \<noteq> t" for u
    proof (rule local_ok_frame [OF D(10) [of u]])
      show "map_option nd_next (cells (nodes ?p) b) = map_option nd_next (cells (nodes (lpool s)) b)"
        if "b \<in> set fl \<or> owned (lpcs s u) = Some b" for b
        using that a others [OF \<open>u \<noteq> t\<close>] by (cases "b = a") simp_all
    qed simp
  qed (use D(1,2) in simp_all)
  moreover have "obj_read ?p b = obj_read (lpool s) b" if "b \<in> in_use s" for b
    using that a by (cases "b = a") (simp_all add: obj_read_def)
  moreover have "pool_step init weak (lpool s) (lpcs s t) = Inr (?p, CountDown, None)"
    using pc a(1) by (auto simp: delete_obj_def)
  ultimately show ?thesis by (intro step_safeI [where p' = ?p])
qed

lemma step_safe_PushStore:
  assumes inv: "linv t0 s fl" and pc: "lpcs s t = PushStore a oldHead"
  shows "step_safe init weak t0 s t"
proof -
  note D = linvD [OF inv]
  have a: "a \<in> live (nodes (lpool s))" "a \<notin> set fl" "a \<notin> in_use s" using D(7) [of t] pc by auto
  then obtain nd where nd: "cells (nodes (lpool s)) a = Some nd" by blast
  have others: "owned (lpcs s u) \<noteq> Some a" if "u \<noteq> t" for u using D(8) [of t a u] that pc by auto
  let ?p = "lpool s\<lparr>nodes := heap_write (nodes (lpool s)) a (nd\<lparr>nd_next := oldHead\<rparr>)\<rparr>"
  have live: "live (nodes ?p) = live (nodes (lpool s))" using a(1) by auto
  have "linv t0 (s\<lparr>lpool := ?p, lpcs := (lpcs s)(t := PushCas a oldHead), in_use := in_use s\<rparr>) fl"
  proof (rule linv_upd [OF inv])
    show "heap_ok (nodes ?p)" using heap_ok_write [OF D(3) a(1)] by simp
    show "free_chain (cells (nodes ?p)) (m_freeList ?p) fl" using free_chain_upd [OF D(4) a(2)] by simp
    show "set fl \<union> in_use s \<subseteq> live (nodes ?p)" unfolding live using D(5,6) by auto
    show "b \<in> live (nodes ?p) \<and> b \<notin> set fl \<and> b \<notin> in_use s \<and> owned (PushCas a oldHead) \<noteq> Some b"
      if "u \<noteq> t" "owned (lpcs s u) = Some b" for u b
      unfolding live using D(7) [OF that(2)] others [OF that(1)] that(2) by auto
    show "b \<in> live (nodes ?p) \<and> b \<notin> set fl \<and> b \<notin> in_use s" if "owned (PushCas a oldHead) = Some b" for b
      unfolding live using that a by simp
    show "local_ok ?p fl (lpcs s u)" if "u \<noteq> t" for u
    proof (rule local_ok_frame [OF D(10) [of u]])
      show "map_option nd_next (cells (nodes ?p) b) = map_option nd_next (cells (nodes (lpool s)) b)"
        if "b \<in> set fl \<or> owned (lpcs s u) = Some b" for b
        using that a others [OF \<open>u \<noteq> t\<close>] by (cases "b = a") simp_all
    qed simp
  qed (use D(1,2) in simp_all)
  moreover have "obj_read ?p b = obj_read (lpool s) b" if "b \<in> in_use s" for b
    using that a by (cases "b = a") (simp_all add: obj_read_def)
  moreover have "pool_step init weak (lpool s) (lpcs s t) = Inr (?p, PushCas a oldHead, None)"
    using pc nd by simp
  ultimately show ?thesis by (intro step_safeI [where p' = ?p])
qed

lemma step_safe_PushCas:
  assumes inv: "linv t0 s fl" and pc: "lpcs s t = PushCas a oldHead"
  shows "step_safe init weak t0 s t"
proof (cases "m_freeList (lpool s) = oldHead \<and> \<not> weak")
  case False
  then show ?thesis
    using pc by (intro step_safe_quiet [OF inv, where pc' = "PushStore a (m_freeList (lpool s))"]) auto
next
  case True
  note D = linvD [OF inv]
  have a: "a \<in> live (nodes (lpool s))" "a \<notin> set fl" "a \<notin> in_use s" using D(7) [of t] pc by auto
  have next_a: "map_option nd_next (cells (nodes (lpool s)) a) = Some oldHead" using D(10) [of t] pc by simp
  have others: "owned (lpcs s u) \<noteq> Some a" if "u \<noteq> t" for u using D(8) [of t a u] that pc by auto
  let ?p = "lpool s\<lparr>m_freeList := Some a\<rparr>"
  have "linv t0 (s\<lparr>lpool := ?p, lpcs := (lpcs s)(t := LIdle), in_use := in_use s\<rparr>) (a # fl)"
  proof (rule linv_upd [OF inv])
    show "free_chain (cells (nodes ?p)) (m_freeList ?p) (a # fl)" using D(4) next_a True by auto
    show "set (a # fl) \<union> in_use s \<subseteq> live (nodes ?p)" using D(5,6) a by auto
    show "b \<in> live (nodes ?p) \<and> b \<notin> set (a # fl) \<and> b \<notin> in_use s \<and> owned LIdle \<noteq> Some b"
      if "u \<noteq> t" "owned (lpcs s u) = Some b" for u b
      using D(7) [OF that(2)] others [OF that(1)] that(2) by auto
    show "local_ok ?p (a # fl) (lpcs s u)" for u
      using D(10) [of u] by (rule local_ok_frame) auto
  qed (use D(1-3) a in simp_all)
  moreover have "obj_read ?p b = obj_read (lpool s) b" for b by (simp add: obj_read_def)
  moreover have "pool_step init weak (lpool s) (lpcs s t) = Inr (?p, LIdle, None)" using pc True by simp
  ultimately show ?thesis by (intro step_safeI [where p' = ?p])
qed

lemma step_safe_all:
  assumes inv: "linv t0 s fl"
  shows "step_safe init weak t0 s t"
proof (cases "lpcs s t")
  case LIdle
  then show ?thesis by (intro step_safe_quiet [OF inv, where pc' = LIdle]) simp_all
next
  case PopLoad
  then show ?thesis by (intro step_safe_reload [OF inv]) simp_all
next
  case (RelLoad a)
  show ?thesis
  proof (cases "0 < m_maxSize (lpool s) \<and> m_maxSize (lpool s) < m_allocated (lpool s)")
    case True
    with RelLoad show ?thesis by (intro step_safe_quiet [OF inv, where pc' = "DeleteNode a"]) simp_all
  next
    case False
    with RelLoad show ?thesis
      by (intro step_safe_quiet [OF inv, where pc' = "PushStore a (m_freeList (lpool s))"]) auto
  qed
next
  case CountDown
  then have "pool_step init weak (lpool s) (lpcs s t) =
      Inr (lpool s\<lparr>m_allocated := m_allocated (lpool s) - 1\<rparr>, LIdle, None)" by simp
  then show ?thesis by (rule step_safe_quiet [OF inv]) (simp_all add: CountDown)
qed (use inv in \<open>simp_all add: step_safe_PopRead step_safe_PopCas step_safe_NewNode step_safe_CountUp
       step_safe_DeleteNode step_safe_PushStore step_safe_PushCas\<close>)

lemma lsys_step_ok:
  assumes inv: "linv t0 s fl" and step: "lsys_step init {t0} t act s = Some r"
  shows "\<exists>s' fl'. r = Inr s' \<and> linv t0 s' fl'"
proof (cases act)
  case StartAcquire
  then have r: "r = Inr (s\<lparr>lpcs := (lpcs s)(t := PopLoad)\<rparr>)" and t: "t = t0" and pc: "lpcs s t = LIdle"
    using step by (auto simp: lsys_step_def split: if_splits)
  have "linv t0 (s\<lparr>lpool := lpool s, lpcs := (lpcs s)(t := PopLoad), in_use := in_use s\<rparr>) fl"
    using t pc by (intro linv_quiet [OF inv]) simp_all
  then show ?thesis using r by auto
next
  case (StartRelease n)
  then have r: "r = Inr (s\<lparr>lpcs := (lpcs s)(t := RelLoad n), in_use := in_use s - {n}\<rparr>)"
    and n: "n \<in> in_use s" and pc: "lpcs s t = LIdle"
    using step by (auto simp: lsys_step_def split: if_splits)
  note D = linvD [OF inv]
  have "linv t0 (s\<lparr>lpool := lpool s, lpcs := (lpcs s)(t := RelLoad n), in_use := in_use s - {n}\<rparr>) fl"
  proof (rule linv_upd [OF inv])
    show "b \<in> live (nodes (lpool s)) \<and> b \<notin> set fl \<and> b \<notin> in_use s - {n} \<and> owned (RelLoad n) \<noteq> Some b"
      if "u \<noteq> t" "owned (lpcs s u) = Some b" for u b
      using D(7) [OF that(2)] n by auto
    show "b \<in> live (nodes (lpool s)) \<and> b \<notin> set fl \<and> b \<notin> in_use s - {n}" if "owned (RelLoad n) = Some b" for b
      using that D(2) D(6) [OF n] n by auto
    show "set fl \<union> (in_use s - {n}) \<subseteq> live (nodes (lpool s))" using D(5,6) by auto
    show "set fl \<inter> (in_use s - {n}) = {}" using D(2) by auto
  qed (use D(1,3,4,10) in simp_all)
  then show ?thesis using r by auto
next
  case (Run weak)
  with step_safe_all [OF inv, of init weak t] step show ?thesis
    by (auto simp: step_safe_def lsys_step_def split: if_splits)
qed

lemma lreachable_linv:
  assumes "lreachable init {t0} p0 s" and "lf_inv p0 fl0 {}"
  shows "\<exists>fl. linv t0 s fl"
  using assms(1)
proof induction
  case start
  have "linv t0 (lsys_init p0) fl0"
    using lf_invD [OF assms(2)] by (simp add: linv_def lsys_init_def)
  then show ?case by blast
next
  case (next_step s t act s')
  then obtain fl where "linv t0 s fl" by auto
  from lsys_step_ok [OF this next_step.hyps(2)] show ?case by auto
qed

section \<open>Runs\<close>

fun lexec :: "'a \<Rightarrow> nat set \<Rightarrow> (nat \<times> lact) list \<Rightarrow> 'a lsys \<Rightarrow> 'a lsys outcome option" where
  "lexec init A [] s = Some (Inr s)"
| "lexec init A ((t, act) # acts) s =
     (case lsys_step init A t act s of
        None \<Rightarrow> None
      | Some (Inl e) \<Rightarrow> Some (Inl e)
      | Some (Inr s') \<Rightarrow> lexec init A acts s')"

lemma lexec_lreachable:
  assumes "lreachable init A p0 s" and "lexec init A acts s = Some (Inr s')"
  shows "lreachable init A p0 s'"
  using assms
proof (induction acts arbitrary: s)
  case Nil
  then show ?case by simp
next
  case (Cons x acts)
  obtain t act where x: "x = (t, act)" by fastforce
  with Cons.prems(2) obtain s1 where "lsys_step init A t act s = Some (Inr s1)" "lexec init A acts s1 = Some (Inr s')"
    by (auto split: option.splits sum.splits)
  with Cons show ?case using lreachable.next_step [OF Cons.prems(1)] by auto
qed

lemmas run_reachable = lexec_lreachable [OF lreachable.start]

section \<open>Properties\<close>

text \<open>
  C29. With a single acquiring thread the lock-free pool is safe under every interleaving
  with any number of releasing threads: no step of any thread ever touches a deleted node,
  \<open>acquire\<close> never returns a node that is in use, and the nodes in use are live and keep their
  contents.
\<close>

theorem lf_pool_single_acquirer_safe:
  assumes "lf_inv p0 fl0 {}" and "lreachable init {t0} p0 s"
  shows "\<exists>p' pc' r. pool_step init weak (lpool s) (lpcs s t) = Inr (p', pc', r) \<and> set_option r \<inter> in_use s = {} \<and>
    (\<forall>a \<in> in_use s. obj_read p' a = obj_read (lpool s) a \<and> obj_read (lpool s) a \<noteq> None)"
proof -
  obtain fl where inv: "linv t0 s fl" using lreachable_linv [OF assms(2,1)] by auto
  have "obj_read (lpool s) a \<noteq> None" if "a \<in> in_use s" for a
    using linvD(6) [OF inv that] by (auto simp: obj_read_def)
  with step_safe_all [OF inv, of init weak t] show ?thesis unfolding step_safe_def by blast
qed

definition two_nodes :: "u64 \<Rightarrow> nat pool" where
  "two_nodes m = (case pool_new 0 2 m of Inl e \<Rightarrow> undefined | Inr p \<Rightarrow> p)"

lemma two_nodes_inv: "pool_new 0 2 m = Inr (two_nodes m) \<and> (\<exists>fl. lf_inv (two_nodes m) fl {})"
  using pool_new_ok [of "0 :: nat" 2 m] by (auto simp: two_nodes_def)

lemma two_nodes_eq:
  "two_nodes m = \<lparr>nodes = \<lparr>cells = [0 \<mapsto> \<lparr>nd_data = 0, nd_next = None\<rparr>, Suc 0 \<mapsto> \<lparr>nd_data = 0, nd_next = Some 0\<rparr>],
     next_addr = Suc (Suc 0)\<rparr>, m_freeList = Some (Suc 0), m_allocated = 2, m_maxSize = m\<rparr>"
  by (simp add: two_nodes_def pool_new_def numeral_2_eq_2 new_node_def heap_new_def heap_empty_def pushFree_def
      heap_read_def heap_write_def)

theorem lf_pool_single_acquirer_safe_witness:
  "\<exists>s. lreachable 0 {0} (two_nodes 4) s \<and> Suc 0 \<in> in_use s \<and> obj_read (lpool s) (Suc 0) \<noteq> None"
proof -
  obtain fl where inv: "lf_inv (two_nodes 4) fl {}" using two_nodes_inv by blast
  obtain s where s: "lexec 0 {0} [(0, StartAcquire), (0, Run False), (0, Run False), (0, Run False)]
      (lsys_init (two_nodes 4)) = Some (Inr s) \<and> Suc 0 \<in> in_use s"
    by (simp add: two_nodes_eq lsys_init_def lsys_step_def heap_read_def)
  from run_reachable [OF conjunct1 [OF s]] have r: "lreachable 0 {0} (two_nodes 4) s" .
  from lf_pool_single_acquirer_safe [OF inv this, of False 0] s have "obj_read (lpool s) (Suc 0) \<noteq> None" by blast
  with r s show ?thesis by blast
qed

text \<open>
  Two acquiring threads break the pool (ABA): there is a run from a fresh pool of two
  nodes in which \<open>acquire\<close> returns a node that another client still has in use; and, when the
  pool is above its limit so that released nodes are deleted, a run in which \<open>popFree\<close> reads
  the \<open>next\<close> field of a deleted node.
\<close>

lemma lf_pool_two_acquirers_unsafe:
  "(\<exists>s p' pc' n. lreachable 0 {0, 1} (two_nodes 4) s \<and>
      pool_step 0 False (lpool s) (lpcs s 1) = Inr (p', pc', Some n) \<and> n \<in> in_use s) \<and>
   (\<exists>s. lreachable 0 {0, 1} (two_nodes 1) s \<and> pool_step 0 False (lpool s) (lpcs s 0) = Inl UseAfterFree)"
proof (intro conjI)
  let ?run = "\<lambda>t. [(t, StartAcquire), (t, Run False), (t, Run False), (t, Run False)] :: (nat \<times> lact) list"
  let ?aba = "take 3 (?run 0) @ ?run 1 @ ?run 1 @
    [(1, StartRelease 1), (1, Run False), (1, Run False), (1, Run False), (0, Run False)] @ take 3 (?run 1)"
  obtain s where s: "lexec 0 {0, 1} ?aba (lsys_init (two_nodes 4)) = Some (Inr s)"
    "lpcs s 1 = PopCas 0 None" "m_freeList (lpool s) = Some 0" "0 \<in> in_use s"
    by (simp add: two_nodes_eq lsys_init_def lsys_step_def heap_read_def heap_write_def)
  from run_reachable [OF s(1)] have "lreachable 0 {0, 1} (two_nodes 4) s" .
  with s show "\<exists>s p' pc' n. lreachable 0 {0, 1} (two_nodes 4) s \<and>
      pool_step 0 False (lpool s) (lpcs s 1) = Inr (p', pc', Some n) \<and> n \<in> in_use s"
    by (intro exI [of _ s]) simp
next
  let ?uaf = "[(0, StartAcquire), (0, Run False), (1, StartAcquire), (1, Run False), (1, Run False), (1, Run False),
    (1, StartRelease 1), (1, Run False), (1, Run False)] :: (nat \<times> lact) list"
  obtain s where s: "lexec 0 {0, 1} ?uaf (lsys_init (two_nodes 1)) = Some (Inr s)"
    "pool_step 0 False (lpool s) (lpcs s 0) = Inl UseAfterFree"
    by (simp add: two_nodes_eq lsys_init_def lsys_step_def heap_read_def delete_obj_def heap_delete_def)
  from run_reachable [OF s(1)] have "lreachable 0 {0, 1} (two_nodes 1) s" .
  with s(2) show "\<exists>s. lreachable 0 {0, 1} (two_nodes 1) s \<and> pool_step 0 False (lpool s) (lpcs s 0) = Inl UseAfterFree"
    by blast
qed

end
