(* ===== verification/Message_Channel.thy ===== *)
theory Message_Channel
  imports MPMC_Queue Pool_LockFree
begin

text \<open>
  What all the lock-free event queues share: a ring of message pointers over a message pool.
  \<open>chan_send\<close> is the tail of every \<open>post\<close>: acquire a message, fill it in, spin until the ring
  takes it. \<open>chan_receive\<close> is every \<open>dispatchOne\<close>: pop a pointer, use the message, release it.
  \<open>mk\<close> and \<open>use\<close> are the parts that differ; they work on the message and on a world \<open>w\<close>
  (payloads, what the callbacks saw).

  The locale \<open>message_channel\<close> combines the contracts of the ring and of the pool: seen from
  outside, a channel is the list of the messages in it. \<open>B\<close> are messages that are in use but
  not in the ring (the batch buffer of a poster, the messages a dispatcher holds).
\<close>

section \<open>Sending and receiving\<close>

definition deref :: "'a option \<Rightarrow> 'a outcome" where
  "deref r = (case r of None \<Rightarrow> Inl UseAfterFree | Some v \<Rightarrow> Inr v)"

lemma deref_simps [simp]: "deref None = Inl UseAfterFree" "deref (Some v) = Inr v"
  by (simp_all add: deref_def)

definition chan_fill ::
  "('p \<Rightarrow> ('p \<times> nat) outcome) \<Rightarrow> ('p \<Rightarrow> nat \<Rightarrow> 'm option) \<Rightarrow> ('p \<Rightarrow> nat \<Rightarrow> 'm \<Rightarrow> 'p) \<Rightarrow>
   ('m \<Rightarrow> 'w \<Rightarrow> ('m \<times> 'w) outcome) \<Rightarrow> 'p \<Rightarrow> 'w \<Rightarrow> ('p \<times> nat \<times> 'w) outcome" where
  "chan_fill acq rd wr mk p w =
     obind (acq p) (\<lambda>(p1, n). obind (deref (rd p1 n)) (\<lambda>old. obind (mk old w) (\<lambda>(m, w1). Inr (wr p1 n m, n, w1))))"

definition chan_send ::
  "('p \<Rightarrow> ('p \<times> nat) outcome) \<Rightarrow> ('p \<Rightarrow> nat \<Rightarrow> 'm option) \<Rightarrow> ('p \<Rightarrow> nat \<Rightarrow> 'm \<Rightarrow> 'p) \<Rightarrow>
   ('q \<Rightarrow> nat \<Rightarrow> ('q \<times> bool) run) \<Rightarrow> ('m \<Rightarrow> 'w \<Rightarrow> ('m \<times> 'w) outcome) \<Rightarrow> 'q \<Rightarrow> 'p \<Rightarrow> 'w \<Rightarrow> ('q \<times> 'p \<times> 'w) run" where
  "chan_send acq rd wr push mk q p w =
     rbind (Some (chan_fill acq rd wr mk p w)) (\<lambda>(p1, n, w1). rbind (push_spin push q n) (\<lambda>q1. ret (q1, p1, w1)))"

definition chan_receive ::
  "('q \<Rightarrow> ('q \<times> nat option) run) \<Rightarrow> ('p \<Rightarrow> nat \<Rightarrow> 'm option) \<Rightarrow> ('p \<Rightarrow> nat \<Rightarrow> 'p outcome) \<Rightarrow>
   ('m \<Rightarrow> 'w \<Rightarrow> 'w outcome) \<Rightarrow> 'q \<Rightarrow> 'p \<Rightarrow> 'w \<Rightarrow> ('q \<times> 'p \<times> 'w \<times> bool) run" where
  "chan_receive pop rd rel use q p w =
     rbind (pop q) (\<lambda>(q1, r). case r of
       None \<Rightarrow> ret (q1, p, w, False)
     | Some n \<Rightarrow>
         Some (obind (deref (rd p n)) (\<lambda>m. obind (use m w) (\<lambda>w1. obind (rel p n) (\<lambda>p1. Inr (q1, p1, w1, True))))))"

text \<open>
  The loops \<open>while (dispatchOne()) ++count;\<close> and its variant with an upper bound.
\<close>

partial_function (option) while_count :: "('s \<Rightarrow> ('s \<times> bool) run) \<Rightarrow> 's \<times> u64 \<Rightarrow> ('s \<times> u64) run" where
  "while_count body x =
     rbind (body (fst x)) (\<lambda>r. if snd r then while_count body (fst r, snd x + 1) else ret (fst r, snd x))"

partial_function (option) while_count_max :: "('s \<Rightarrow> ('s \<times> bool) run) \<Rightarrow> u64 \<Rightarrow> 's \<times> u64 \<Rightarrow> ('s \<times> u64) run" where
  "while_count_max body maxCount x =
     (if snd x < maxCount
      then rbind (body (fst x)) (\<lambda>r. if snd r then while_count_max body maxCount (fst r, snd x + 1) else ret (fst r, snd x))
      else ret x)"

section \<open>A channel is a list of messages\<close>

definition vals :: "('p \<Rightarrow> nat \<Rightarrow> 'm option) \<Rightarrow> 'p \<Rightarrow> nat list \<Rightarrow> 'm list" where
  "vals rd p ns = map (\<lambda>n. the (rd p n)) ns"

lemma vals_simps [simp]:
  "vals rd p [] = []"
  "vals rd p (n # ns) = the (rd p n) # vals rd p ns"
  "vals rd p (ns @ ns') = vals rd p ns @ vals rd p ns'"
  "length (vals rd p ns) = length ns"
  by (simp_all add: vals_def)

lemma vals_cong: "(\<And>n. n \<in> set ns \<Longrightarrow> rd p n = rd p' n) \<Longrightarrow> vals rd p ns = vals rd p' ns"
  by (simp add: vals_def)

context object_pool
begin

lemma chan_fill_ok:
  assumes "inv p (set ns)" and "distinct ns" and "\<And>old. \<exists>m w1. mk old w = Inr (m, w1)"
  shows "\<exists>p1 n w1 old m. chan_fill acq rd wr mk p w = Inr (p1, n, w1) \<and> mk old w = Inr (m, w1) \<and>
    inv p1 (set (n # ns)) \<and> distinct (n # ns) \<and> vals rd p1 ns = vals rd p ns \<and> the (rd p1 n) = m"
proof -
  obtain p1 n where 1: "acq p = Inr (p1, n)" "n \<notin> set ns" "inv p1 (insert n (set ns))" "\<forall>a \<in> set ns. rd p1 a = rd p a"
    using acq_ok [OF assms(1)] by blast
  obtain old where old: "rd p1 n = Some old" using rd_ok [OF 1(3)] by blast
  obtain m w1 where m: "mk old w = Inr (m, w1)" using assms(3) by blast
  have 2: "inv (wr p1 n m) (insert n (set ns))" "rd (wr p1 n m) n = Some m"
      "\<forall>a \<in> set ns. rd (wr p1 n m) a = rd p a"
    using wr_ok [OF 1(3), of n m] 1(2,4) by auto
  have "chan_fill acq rd wr mk p w = Inr (wr p1 n m, n, w1)"
    by (simp add: chan_fill_def 1(1) old m)
  moreover have "vals rd (wr p1 n m) ns = vals rd p ns" using 2(3) by (simp add: vals_def)
  ultimately show ?thesis using m 2 1(2) assms(2) by auto
qed

lemma drop_ok:
  assumes "inv p (set (n # ns))" and "distinct (n # ns)"
  shows "\<exists>p1. rel p n = Inr p1 \<and> inv p1 (set ns) \<and> vals rd p1 ns = vals rd p ns"
proof -
  have "set (n # ns) - {n} = set ns" using assms(2) by auto
  then show ?thesis using rel_ok [OF assms(1), of n] by (auto simp: vals_def)
qed

lemma drop_all_ok:
  assumes "inv p (set (ks @ ns))" and "distinct (ks @ ns)"
  shows "\<exists>p1. rel_all rel ks p = Inr p1 \<and> inv p1 (set ns) \<and> vals rd p1 ns = vals rd p ns"
proof -
  have "set (ks @ ns) - set ks = set ns" using assms(2) by auto
  then show ?thesis using rel_all_ok [OF assms(1), of ks] assms(2) by (auto simp: vals_def)
qed

end

definition chan_ok :: "('q \<Rightarrow> bool) \<Rightarrow> ('q \<Rightarrow> nat list) \<Rightarrow> ('p \<Rightarrow> nat set \<Rightarrow> bool) \<Rightarrow> 'q \<Rightarrow> 'p \<Rightarrow> nat list \<Rightarrow> bool" where
  "chan_ok rinv items pinv q p B \<longleftrightarrow> rinv q \<and> distinct (items q @ B) \<and> pinv p (set (items q @ B))"

definition chan_msgs :: "('q \<Rightarrow> nat list) \<Rightarrow> ('p \<Rightarrow> nat \<Rightarrow> 'm option) \<Rightarrow> 'q \<Rightarrow> 'p \<Rightarrow> 'm list" where
  "chan_msgs items rd q p = vals rd p (items q)"

lemma length_chan_msgs [simp]: "length (chan_msgs items rd q p) = length (items q)"
  by (simp add: chan_msgs_def)

locale message_channel =
  ring: bounded_fifo push pop rinv items cap room + pool: object_pool acq rel rd wr pinv
  for push :: "'q \<Rightarrow> nat \<Rightarrow> ('q \<times> bool) run" and pop rinv items cap room
    and acq :: "'p \<Rightarrow> ('p \<times> nat) outcome" and rel and rd :: "'p \<Rightarrow> nat \<Rightarrow> 'm option" and wr pinv
begin

lemma send_ok:
  assumes ok: "chan_ok rinv items pinv q p B" and free: "length (items q) < cap q" "0 < room q"
    and mk: "\<And>old. \<exists>m w1. mk old w = Inr (m, w1)"
  shows "\<exists>q1 p1 w1 old m. chan_send acq rd wr push mk q p w = ret (q1, p1, w1) \<and> mk old w = Inr (m, w1) \<and>
    chan_ok rinv items pinv q1 p1 B \<and> chan_msgs items rd q1 p1 = chan_msgs items rd q p @ [m] \<and>
    vals rd p1 B = vals rd p B \<and> cap q1 = cap q \<and> room q1 = room q - 1"
proof -
  have inv: "rinv q" "distinct (items q @ B)" "pinv p (set (items q @ B))" using ok by (simp_all add: chan_ok_def)
  obtain p1 n w1 old m where f: "chan_fill acq rd wr mk p w = Inr (p1, n, w1)" "mk old w = Inr (m, w1)"
      "pinv p1 (set (n # items q @ B))" "distinct (n # items q @ B)" "vals rd p1 (items q @ B) = vals rd p (items q @ B)"
      "the (rd p1 n) = m"
    using pool.chan_fill_ok [where mk = mk, OF inv(3,2) mk] by blast
  obtain q1 where q1: "push_spin push q n = ret q1" "rinv q1" "items q1 = items q @ [n]" "cap q1 = cap q" "room q1 = room q - 1"
    using ring.push_spin_ok [OF inv(1) free] by blast
  have "set (items q1 @ B) = set (n # items q @ B)" using q1(3) by auto
  then have "chan_ok rinv items pinv q1 p1 B" using f(3,4) q1(2,3) by (auto simp: chan_ok_def)
  moreover have "vals rd p1 B = vals rd p B" "chan_msgs items rd q1 p1 = chan_msgs items rd q p @ [m]"
    using f(5,6) q1(3) by (simp_all add: chan_msgs_def)
  moreover have "chan_send acq rd wr push mk q p w = ret (q1, p1, w1)"
    by (simp add: chan_send_def f(1) q1(1))
  ultimately show ?thesis using f(2) q1(4,5) by blast
qed

text \<open>On a full ring that nobody empties the post spins for ever.\<close>

lemma send_full:
  assumes ok: "chan_ok rinv items pinv q p B" and full: "length (items q) = cap q"
    and mk: "\<And>old. \<exists>m w1. mk old w = Inr (m, w1)"
  shows "chan_send acq rd wr push mk q p w = None"
proof -
  have inv: "rinv q" "distinct (items q @ B)" "pinv p (set (items q @ B))" using ok by (simp_all add: chan_ok_def)
  obtain p1 n w1 where f: "chan_fill acq rd wr mk p w = Inr (p1, n, w1)"
    using pool.chan_fill_ok [where mk = mk, OF inv(3,2) mk] by blast
  show ?thesis using ring.push_spin_diverges [OF inv(1) full, of n] by (simp add: chan_send_def f)
qed

lemma send_fault:
  assumes ok: "chan_ok rinv items pinv q p B" and mk: "\<And>old. mk old w = Inl e"
  shows "chan_send acq rd wr push mk q p w = Some (Inl e)"
proof -
  have "pinv p (set (items q @ B))" using ok by (simp add: chan_ok_def)
  then obtain p1 n where 1: "acq p = Inr (p1, n)" "pinv p1 (insert n (set (items q @ B)))" using pool.acq_ok by blast
  then obtain old where "rd p1 n = Some old" using pool.rd_ok by blast
  then show ?thesis by (simp add: chan_send_def chan_fill_def 1(1) mk)
qed

text \<open>Filling in a message without pushing it, pushing the messages held back, popping several.\<close>

lemma hold_ok:
  assumes ok: "chan_ok rinv items pinv q p B" and mk: "\<And>old. \<exists>m w1. mk old w = Inr (m, w1)"
  shows "\<exists>p1 n w1 old m. chan_fill acq rd wr mk p w = Inr (p1, n, w1) \<and> mk old w = Inr (m, w1) \<and>
    chan_ok rinv items pinv q p1 (B @ [n]) \<and> chan_msgs items rd q p1 = chan_msgs items rd q p \<and>
    vals rd p1 (B @ [n]) = vals rd p B @ [m]"
proof -
  have inv: "rinv q" "distinct (items q @ B)" "pinv p (set (items q @ B))" using ok by (simp_all add: chan_ok_def)
  obtain p1 n w1 old m where f: "chan_fill acq rd wr mk p w = Inr (p1, n, w1)" "mk old w = Inr (m, w1)"
      "pinv p1 (set (n # items q @ B))" "distinct (n # items q @ B)" "vals rd p1 (items q @ B) = vals rd p (items q @ B)"
      "the (rd p1 n) = m"
    using pool.chan_fill_ok [where mk = mk, OF inv(3,2) mk] by blast
  have "set (items q @ B @ [n]) = set (n # items q @ B)" by auto
  then have "chan_ok rinv items pinv q p1 (B @ [n])" using f(3,4) inv(1) by (auto simp: chan_ok_def)
  then show ?thesis using f by (intro exI [of _ p1] exI [of _ n]) (auto simp: chan_msgs_def)
qed

lemma flush_ok:
  assumes ok: "chan_ok rinv items pinv q p B" and "length (items q) + length B \<le> cap q" and "length B \<le> room q"
  shows "\<exists>q1. push_all push q B = ret q1 \<and> chan_ok rinv items pinv q1 p [] \<and>
    chan_msgs items rd q1 p = chan_msgs items rd q p @ vals rd p B \<and> cap q1 = cap q \<and> room q1 = room q - length B"
  using ring.push_all_ok [of q B] assms by (auto simp: chan_ok_def chan_msgs_def)

lemma pop_many_ok:
  assumes ok: "chan_ok rinv items pinv q p B"
  shows "\<exists>q1 ks. pop_times pop k q = ret (q1, ks) \<and> chan_ok rinv items pinv q1 p (ks @ B) \<and>
    chan_msgs items rd q1 p = drop k (chan_msgs items rd q p) \<and> vals rd p ks = take k (chan_msgs items rd q p) \<and>
    (\<forall>n \<in> set ks. rd p n \<noteq> None) \<and> cap q1 = cap q \<and> room q1 = room q"
proof -
  have inv: "rinv q" "distinct (items q @ B)" "pinv p (set (items q @ B))" using ok by (simp_all add: chan_ok_def)
  obtain q1 where q1: "pop_times pop k q = ret (q1, take k (items q))" "rinv q1" "items q1 = drop k (items q)"
    "cap q1 = cap q" "room q1 = room q"
    using ring.pop_times_min [OF inv(1), of k] by blast
  have split: "items q = take k (items q) @ drop k (items q)" by simp
  have "set (items q @ B) = set (drop k (items q) @ take k (items q) @ B)"
    by (subst split) (simp only: set_append, blast)
  moreover have "distinct (drop k (items q) @ take k (items q) @ B)"
    using inv(2) by (subst (asm) split) (simp only: distinct_append set_append, blast)
  ultimately have "chan_ok rinv items pinv q1 p (take k (items q) @ B)"
    using inv(3) q1(2,3) by (simp add: chan_ok_def)
  moreover have "rd p n \<noteq> None" if "n \<in> set (take k (items q))" for n
    using pool.rd_ok [OF inv(3), of n] in_set_takeD [OF that] by auto
  ultimately show ?thesis using q1 by (auto simp: chan_msgs_def vals_def take_map drop_map)
qed

lemma receive_empty:
  assumes "chan_ok rinv items pinv q p B" and "chan_msgs items rd q p = []"
  shows "chan_receive pop rd rel use q p w = ret (q, p, w, False)"
proof -
  have "items q = []" using assms(2) by (simp add: chan_msgs_def vals_def)
  then have "pop q = ret (q, None)" using ring.pop_empty assms(1) by (simp add: chan_ok_def)
  then show ?thesis by (simp add: chan_receive_def)
qed

lemma pop_msg:
  assumes ok: "chan_ok rinv items pinv q p B" and msgs: "chan_msgs items rd q p = m # ms"
  shows "\<exists>q1 n. pop q = ret (q1, Some n) \<and> rd p n = Some m \<and> items q = n # items q1 \<and> chan_ok rinv items pinv q1 p (n # B) \<and>
    vals rd p (items q1) = ms \<and> cap q1 = cap q \<and> room q1 = room q"
proof -
  obtain n ns where n: "items q = n # ns" using msgs by (cases "items q") (simp_all add: chan_msgs_def)
  have inv: "rinv q" "distinct (items q @ B)" "pinv p (set (items q @ B))" using ok by (simp_all add: chan_ok_def)
  obtain q1 where q1: "pop q = ret (q1, Some n)" "rinv q1" "items q1 = ns" "cap q1 = cap q" "room q1 = room q"
    using ring.pop_ok [OF inv(1) n] by blast
  have "\<exists>v. rd p n = Some v" using pool.rd_ok [OF inv(3)] n by auto
  then have "rd p n = Some m" and "vals rd p ns = ms" using msgs n by (auto simp: chan_msgs_def)
  moreover have "set (items q @ B) = set (items q1 @ n # B)" using n q1(3) by auto
  then have "chan_ok rinv items pinv q1 p (n # B)" using inv q1(2,3) n by (auto simp: chan_ok_def)
  ultimately show ?thesis using q1 n by blast
qed

lemma receive_ok:
  assumes ok: "chan_ok rinv items pinv q p B" and msgs: "chan_msgs items rd q p = m # ms" and use: "use m w = Inr w1"
  shows "\<exists>q1 p1. chan_receive pop rd rel use q p w = ret (q1, p1, w1, True) \<and> chan_ok rinv items pinv q1 p1 B \<and>
    chan_msgs items rd q1 p1 = ms \<and> vals rd p1 B = vals rd p B \<and> cap q1 = cap q \<and> room q1 = room q"
proof -
  obtain q1 n where q1: "pop q = ret (q1, Some n)" "rd p n = Some m" "chan_ok rinv items pinv q1 p (n # B)"
      "vals rd p (items q1) = ms" "cap q1 = cap q" "room q1 = room q"
    using pop_msg [OF ok msgs] by blast
  have "pinv p (set (n # items q1 @ B))" "distinct (n # items q1 @ B)"
    using q1(3) by (auto simp: chan_ok_def insert_commute)
  from pool.drop_ok [OF this] obtain p1 where p1: "rel p n = Inr p1" "pinv p1 (set (items q1 @ B))"
      "vals rd p1 (items q1 @ B) = vals rd p (items q1 @ B)" by blast
  have "chan_receive pop rd rel use q p w = ret (q1, p1, w1, True)"
    by (simp add: chan_receive_def q1(1,2) use p1(1))
  moreover have "chan_ok rinv items pinv q1 p1 B" using q1(3) p1(2) by (simp add: chan_ok_def)
  moreover have "chan_msgs items rd q1 p1 = ms" "vals rd p1 B = vals rd p B"
    using p1(3) q1(4) by (simp_all add: chan_msgs_def)
  ultimately show ?thesis using q1(5,6) by blast
qed

lemma receive_fault:
  assumes ok: "chan_ok rinv items pinv q p B" and msgs: "chan_msgs items rd q p = m # ms" and use: "use m w = Inl e"
  shows "chan_receive pop rd rel use q p w = Some (Inl e)"
  using pop_msg [OF ok msgs] by (auto simp: chan_receive_def use)

end

text \<open>The ring of \<open>mpmc_queue.h\<close> over the pool of \<open>objectpool_lockfree.h\<close>.\<close>

abbreviation "ring_chan_ok \<equiv> chan_ok ring_inv contents pool_inv"
abbreviation "ring_msgs \<equiv> chan_msgs contents obj_read"

interpretation chan: message_channel try_push try_pop ring_inv contents capacity push_room
    "acquire init" "\<lambda>p n. release p (Some n)" obj_read obj_write pool_inv
  by unfold_locales

lemma new_chan_ok:
  assumes "C = 2 ^ k" and "1 \<le> k" and "k \<le> 61"
  shows "\<exists>p. pool_new init j m = Inr p \<and> ring_chan_ok (mpmc_new C) p [] \<and> ring_msgs (mpmc_new C) p = [] \<and>
    capacity (mpmc_new C :: nat mpmc) = C \<and> push_room (mpmc_new C :: nat mpmc) = 2 ^ 63 - 1 - C"
  using mpmc_new_inv [OF assms, where 'a = nat] pool_new_ok [of init j m]
  by (auto simp: chan_ok_def chan_msgs_def pool_inv_def)

section \<open>Draining\<close>

text \<open>
  A loop whose body removes one element of a list and answers \<open>True\<close>, until the list is empty
  and it answers \<open>False\<close>, ends and counts the elements. \<open>R s xs\<close> relates the state and what is
  left to do.
\<close>

lemma while_count_ok:
  assumes step: "\<And>s x xs. R s (x # xs) \<Longrightarrow> \<exists>s'. body s = ret (s', True) \<and> R s' xs"
    and stop: "\<And>s. R s [] \<Longrightarrow> \<exists>s'. body s = ret (s', False) \<and> R s' []" and start: "R s xs"
  shows "\<exists>s'. while_count body (s, c) = ret (s', c + of_nat (length xs)) \<and> R s' []"
  using start
proof (induction xs arbitrary: s c)
  case Nil
  then show ?case using stop [OF Nil] by (auto simp: while_count.simps)
next
  case (Cons x xs)
  obtain s' where s': "body s = ret (s', True)" "R s' xs" using step [OF Cons.prems] by blast
  then show ?case using Cons.IH [OF s'(2), of "c + 1"] by (simp add: while_count.simps [of body "(s, c)"] add.assoc)
qed

lemma while_count_max_ok:
  assumes step: "\<And>s x xs. R s (x # xs) \<Longrightarrow> \<exists>s'. body s = ret (s', True) \<and> R s' xs"
    and stop: "\<And>s. R s [] \<Longrightarrow> \<exists>s'. body s = ret (s', False) \<and> R s' []" and start: "R s xs"
    and c: "c \<le> maxCount"
  shows "\<exists>s' n. while_count_max body maxCount (s, c) = ret (s', c + of_nat n) \<and>
    n = min (unat (maxCount - c)) (length xs) \<and> R s' (drop n xs)"
  using start c
proof (induction xs arbitrary: s c)
  case Nil
  then show ?case using stop [OF Nil(1)] by (auto simp: while_count_max.simps)
next
  case (Cons x xs)
  show ?case
  proof (cases "c < maxCount")
    case False
    then have "c = maxCount" using Cons.prems(2) by simp
    then show ?thesis using Cons.prems(1) by (auto simp: while_count_max.simps)
  next
    case True
    obtain s' where s': "body s = ret (s', True)" "R s' xs" using step [OF Cons.prems(1)] by blast
    have "c + 1 \<le> maxCount" using True by (simp add: inc_le)
    from Cons.IH [OF s'(2) this] obtain s'' n where
      s'': "while_count_max body maxCount (s', c + 1) = ret (s'', c + 1 + of_nat n)"
        "n = min (unat (maxCount - (c + 1))) (length xs)" "R s'' (drop n xs)" by blast
    have "unat (maxCount - (c + 1)) + 1 = unat (maxCount - c)"
      using True by (simp add: unat_sub word_less_nat_alt inc_le unat_plus_simple) (unat_arith)
    then have "Suc n = min (unat (maxCount - c)) (length (x # xs))" using s''(2) by simp
    moreover have "while_count_max body maxCount (s, c) = ret (s'', c + of_nat (Suc n))"
      using True s'(1) s''(1) by (simp add: while_count_max.simps [of body _ "(s, c)"] add.assoc)
    ultimately show ?thesis using s''(3) drop_Suc_Cons by metis
  qed
qed

end
