(* ===== verification/Payload.thy ===== *)
theory Payload
  imports MC_Prelude
begin

text \<open>
  \<open>src/payload_refcounted.h\<close>: \<open>RefCountedPayload\<close>, a block of bytes with an atomic reference
  count that is freed by the last \<open>release\<close>, and \<open>PayloadGuard\<close>, which releases on
  destruction. Payloads live on a store; the address is the pointer. The count is a C++
  \<open>int\<close>: a 32-bit word, whose atomic arithmetic wraps.
\<close>

section \<open>RefCountedPayload\<close>

record rc_payload =
  m_refCount :: u32
  m_size :: u64
  m_data :: "mbyte list"

type_synonym payloads = "rc_payload heap"

definition rc_create :: "payloads \<Rightarrow> u64 \<Rightarrow> payloads \<times> nat" where
  "rc_create h sz = heap_new h \<lparr>m_refCount = 1, m_size = sz, m_data = replicate (unat sz) None\<rparr>"

definition rc_create_data :: "payloads \<Rightarrow> buffer \<Rightarrow> u64 \<Rightarrow> (payloads \<times> nat) outcome" where
  "rc_create_data h data sz =
     (let (h1, p) = rc_create h sz in
      obind (heap_read h1 p) (\<lambda>r.
        obind (memcpy (m_data r) data (unat sz)) (\<lambda>bytes.
          Inr (heap_write h1 p (r\<lparr>m_data := bytes\<rparr>), p))))"

text \<open>The bytes of a trivially copyable value stand for the value.\<close>

definition rc_fromValue :: "payloads \<Rightarrow> u8 list \<Rightarrow> (payloads \<times> nat) outcome" where
  "rc_fromValue h value = rc_create_data h (Some value) (of_nat (length value))"

definition rc_addRefs :: "payloads \<Rightarrow> nat \<Rightarrow> u32 \<Rightarrow> payloads outcome" where
  "rc_addRefs h p n =
     obind (heap_read h p) (\<lambda>r. Inr (heap_write h p (r\<lparr>m_refCount := m_refCount r + n\<rparr>)))"

definition rc_addRef :: "payloads \<Rightarrow> nat \<Rightarrow> payloads outcome" where
  "rc_addRef h p = obind (heap_read h p) (\<lambda>r. Inr (heap_write h p (r\<lparr>m_refCount := m_refCount r + 1\<rparr>)))"

definition rc_release :: "payloads \<Rightarrow> nat \<Rightarrow> payloads outcome" where
  "rc_release h p =
     obind (heap_read h p) (\<lambda>r.
       if m_refCount r = 1 then Inr (heap_delete h p)
       else Inr (heap_write h p (r\<lparr>m_refCount := m_refCount r - 1\<rparr>)))"

definition rc_data :: "payloads \<Rightarrow> nat \<Rightarrow> mbyte list outcome" where
  "rc_data h p = obind (heap_read h p) (\<lambda>r. Inr (m_data r))"

definition rc_size :: "payloads \<Rightarrow> nat \<Rightarrow> u64 outcome" where
  "rc_size h p = obind (heap_read h p) (\<lambda>r. Inr (m_size r))"

definition rc_refCount :: "payloads \<Rightarrow> nat \<Rightarrow> u32 outcome" where
  "rc_refCount h p = obind (heap_read h p) (\<lambda>r. Inr (m_refCount r))"

text \<open>Several releases in a row.\<close>

fun rc_releases :: "nat \<Rightarrow> payloads \<Rightarrow> nat \<Rightarrow> payloads outcome" where
  "rc_releases 0 h p = Inr h"
| "rc_releases (Suc k) h p = obind (rc_release h p) (\<lambda>h'. rc_releases k h' p)"

section \<open>PayloadGuard\<close>

text \<open>
  A guard is the pointer it holds, null after it was moved from or released. The move
  constructor returns the new guard and what is left of the other.
\<close>

type_synonym guard = "nat option"

definition guard_make :: "nat option \<Rightarrow> guard" where
  "guard_make p = p"

definition guard_move :: "guard \<Rightarrow> guard \<times> guard" where
  "guard_move other = (other, None)"

definition guard_get :: "guard \<Rightarrow> nat option" where
  "guard_get g = g"

definition guard_arrow :: "guard \<Rightarrow> nat option" where
  "guard_arrow g = g"

definition guard_release :: "guard \<Rightarrow> guard \<times> nat option" where
  "guard_release g = (None, g)"

definition guard_destroy :: "payloads \<Rightarrow> guard \<Rightarrow> payloads outcome" where
  "guard_destroy h g = (case g of None \<Rightarrow> Inr h | Some p \<Rightarrow> rc_release h p)"

text \<open>
  A guard passed through a chain of moves leaves one guard per move behind. At the end
  all are destroyed, the newest first.
\<close>

fun guard_chain :: "nat \<Rightarrow> guard \<Rightarrow> guard list" where
  "guard_chain 0 g = [g]"
| "guard_chain (Suc k) g = (let (g', old) = guard_move g in guard_chain k g' @ [old])"

fun guards_destroy :: "payloads \<Rightarrow> guard list \<Rightarrow> payloads outcome" where
  "guards_destroy h [] = Inr h"
| "guards_destroy h (g # gs) = obind (guard_destroy h g) (\<lambda>h'. guards_destroy h' gs)"

section \<open>The life of a payload\<close>

lemma heap_new_cells:
  assumes "heap_new h v = (h', a)"
  shows "cells h' = (cells h)(a := Some v)" and "heap_ok h \<Longrightarrow> heap_ok h'" and "heap_ok h \<Longrightarrow> a \<notin> live h"
  using assms heap_ok_new [of h v] heap_ok_fresh [of h] by (auto simp: heap_new_def)

lemma rc_create_data_ok:
  assumes "heap_ok h" and "unat sz \<le> length bs"
  shows "\<exists>h' p. rc_create_data h (Some bs) sz = Inr (h', p) \<and> p \<notin> live h \<and> heap_ok h' \<and>
    cells h' = (cells h)(p := Some \<lparr>m_refCount = 1, m_size = sz, m_data = map Some (take (unat sz) bs)\<rparr>)"
proof -
  let ?r = "\<lparr>m_refCount = 1, m_size = sz, m_data = replicate (unat sz) None\<rparr>"
  obtain h1 p where new: "heap_new h ?r = (h1, p)" by fastforce
  note N = heap_new_cells [OF new]
  let ?r' = "?r\<lparr>m_data := map Some (take (unat sz) bs)\<rparr>"
  have "rc_create_data h (Some bs) sz = Inr (heap_write h1 p ?r', p)"
    using assms(2) by (simp add: rc_create_data_def rc_create_def new N(1))
  moreover have "heap_ok (heap_write h1 p ?r')" using N assms(1) by auto
  moreover have "cells (heap_write h1 p ?r') = (cells h)(p := Some \<lparr>m_refCount = 1, m_size = sz,
      m_data = map Some (take (unat sz) bs)\<rparr>)" by (simp add: N(1))
  ultimately show ?thesis using N(3) assms(1) by blast
qed

lemma rc_addRefs_ok:
  "cells h p = Some r \<Longrightarrow> rc_addRefs h p n = Inr (heap_write h p (r\<lparr>m_refCount := m_refCount r + n\<rparr>))"
  by (simp add: rc_addRefs_def)

lemma rc_release_last:
  "cells h p = Some r \<Longrightarrow> m_refCount r = 1 \<Longrightarrow> rc_release h p = Inr (heap_delete h p)"
  by (simp add: rc_release_def)

lemma rc_release_more:
  "cells h p = Some r \<Longrightarrow> m_refCount r \<noteq> 1 \<Longrightarrow>
   rc_release h p = Inr (heap_write h p (r\<lparr>m_refCount := m_refCount r - 1\<rparr>))"
  by (simp add: rc_release_def)

lemma of_nat_eq_1_u32:
  assumes "k < 2 ^ 31"
  shows "(of_nat k :: u32) = 1 \<longleftrightarrow> k = 1"
proof -
  have "unat (of_nat k :: u32) = k"
    using assms by (simp only: unat_of_nat take_bit_nat_eq_self_iff) simp
  then show ?thesis by (metis of_nat_1 unat_1)
qed

lemma rc_releases_partial:
  assumes "cells h p = Some r" and "m_refCount r = of_nat n" and "n < 2 ^ 31" and "j < n"
  shows "\<exists>h'. rc_releases j h p = Inr h' \<and> cells h' = (cells h)(p := Some (r\<lparr>m_refCount := of_nat (n - j)\<rparr>)) \<and>
    (heap_ok h \<longrightarrow> heap_ok h')"
  using assms
proof (induction j arbitrary: h r n)
  case 0
  then show ?case by (auto simp: fun_upd_idem)
next
  case (Suc j)
  have "m_refCount r \<noteq> 1" using Suc.prems of_nat_eq_1_u32 [of n] by simp
  note rel = rc_release_more [OF Suc.prems(1) this]
  let ?r = "r\<lparr>m_refCount := m_refCount r - 1\<rparr>"
  have "cells (heap_write h p ?r) p = Some ?r" and "m_refCount ?r = of_nat (n - 1)" and "n - 1 < 2 ^ 31" and "j < n - 1"
    using Suc.prems by simp_all
  from Suc.IH [OF this] obtain h' where "rc_releases j (heap_write h p ?r) p = Inr h'"
      "cells h' = (cells (heap_write h p ?r))(p := Some (?r\<lparr>m_refCount := of_nat (n - 1 - j)\<rparr>))"
      "heap_ok (heap_write h p ?r) \<longrightarrow> heap_ok h'" by blast
  moreover have "heap_ok h \<longrightarrow> heap_ok (heap_write h p ?r)" using Suc.prems(1) by auto
  ultimately show ?case by (simp add: rel fun_eq_iff)
qed

lemma rc_releases_all:
  assumes "cells h p = Some r" and "m_refCount r = of_nat n" and "0 < n" and "n < 2 ^ 31"
  shows "\<exists>h'. rc_releases n h p = Inr h' \<and> cells h' = (cells h)(p := None)"
proof -
  have add: "rc_releases (Suc j) h p = obind (rc_releases j h p) (\<lambda>h'. rc_release h' p)" for j h
  proof (induction j arbitrary: h)
    case 0
    then show ?case by (cases "rc_release h p") simp_all
  next
    case (Suc j)
    then show ?case by (cases "rc_release h p") simp_all
  qed
  obtain k where n: "n = Suc k" using assms(3) by (cases n) auto
  obtain h' where h': "rc_releases k h p = Inr h'" "cells h' = (cells h)(p := Some (r\<lparr>m_refCount := of_nat (n - k)\<rparr>))"
    using rc_releases_partial [OF assms(1,2,4), of k] n by auto
  then have "rc_release h' p = Inr (heap_delete h' p)"
    by (intro rc_release_last [of h' p "r\<lparr>m_refCount := 1\<rparr>"]) (simp_all add: n)
  then show ?thesis unfolding n add h'(1) by (simp add: h'(2))
qed

section \<open>Properties\<close>

text \<open>
  C30. A payload shared by \<open>n\<close> observers lives exactly until the last of them releases it.
  After \<open>create\<close> and \<open>addRefs(n - 1)\<close>, any \<open>j < n\<close> releases leave the bytes intact, the
  \<open>n\<close>-th frees the payload and nothing else, and one release more is a use after free.
\<close>

theorem rc_freed_by_last_release:
  assumes "heap_ok h" and "unat sz \<le> length bs" and "0 < n" and "n < 2 ^ 31"
  shows "\<exists>h1 p h2 h3. rc_create_data h (Some bs) sz = Inr (h1, p) \<and> p \<notin> live h \<and>
    rc_addRefs h1 p (of_nat (n - 1)) = Inr h2 \<and>
    (\<forall>j < n. \<exists>h'. rc_releases j h2 p = Inr h' \<and> rc_data h' p = Inr (map Some (take (unat sz) bs)) \<and>
       rc_size h' p = Inr sz \<and> rc_refCount h' p = Inr (of_nat (n - j))) \<and>
    rc_releases n h2 p = Inr h3 \<and> cells h3 = cells h \<and> rc_release h3 p = Inl UseAfterFree"
proof -
  obtain h1 p where c: "rc_create_data h (Some bs) sz = Inr (h1, p)" "p \<notin> live h"
      "cells h1 = (cells h)(p := Some \<lparr>m_refCount = 1, m_size = sz, m_data = map Some (take (unat sz) bs)\<rparr>)"
    using rc_create_data_ok [OF assms(1,2)] by blast
  let ?r = "\<lparr>m_refCount = of_nat n, m_size = sz, m_data = map Some (take (unat sz) bs)\<rparr> :: rc_payload"
  have n: "1 + (of_nat (n - 1) :: u32) = of_nat n" using assms(3) by (cases n) simp_all
  then have n': "1 + (of_nat (n - Suc 0) :: u32) = of_nat n" by simp
  let ?h2 = "heap_write h1 p ?r"
  have add: "rc_addRefs h1 p (of_nat (n - 1)) = Inr ?h2"
    using rc_addRefs_ok [of h1 p _ "of_nat (n - 1)"] by (simp add: c(3) n')
  have r: "cells ?h2 p = Some ?r" "m_refCount ?r = of_nat n" by simp_all
  have part: "\<exists>h'. rc_releases j ?h2 p = Inr h' \<and> rc_data h' p = Inr (map Some (take (unat sz) bs)) \<and>
      rc_size h' p = Inr sz \<and> rc_refCount h' p = Inr (of_nat (n - j))" if j: "j < n" for j
  proof -
    obtain h' where h': "rc_releases j ?h2 p = Inr h'" "cells h' = (cells ?h2)(p := Some (?r\<lparr>m_refCount := of_nat (n - j)\<rparr>))"
      using rc_releases_partial [OF r assms(4) j] by blast
    then show ?thesis by (simp add: rc_data_def rc_size_def rc_refCount_def)
  qed
  obtain h3 where h3: "rc_releases n ?h2 p = Inr h3" "cells h3 = (cells ?h2)(p := None)"
    using rc_releases_all [OF r assms(3,4)] by blast
  have "cells h3 = cells h" using c(2) by (auto simp: h3(2) c(3) domIff)
  moreover have "rc_release h3 p = Inl UseAfterFree" by (simp add: rc_release_def h3(2))
  ultimately show ?thesis using c(1,2) add part h3(1) by blast
qed

theorem rc_freed_by_last_release_witness:
  "\<exists>h1 p h2 h3. rc_create_data heap_empty (Some [7, 8]) 2 = Inr (h1, p) \<and> rc_addRefs h1 p 2 = Inr h2 \<and>
     rc_releases 3 h2 p = Inr h3 \<and> live h3 = {}"
proof -
  have "cells heap_empty = (\<lambda>_. None :: rc_payload option)" by (simp add: heap_empty_def)
  then show ?thesis
    using rc_freed_by_last_release [of heap_empty 2 "[7, 8]" 3] by (auto simp: dom_def)
qed

lemma guards_destroy_append:
  "guards_destroy h (gs @ gs') = obind (guards_destroy h gs) (\<lambda>h'. guards_destroy h' gs')"
proof (induction gs arbitrary: h)
  case Nil
  then show ?case by simp
next
  case (Cons g gs)
  then show ?case by (cases "guard_destroy h g") simp_all
qed

text \<open>
  \<open>PayloadGuard\<close> releases exactly once: however often a guard is moved, destroying all
  the guards left behind has the effect of a single \<open>release\<close>; and a payload taken out of
  its guard with \<open>release()\<close> is not released by the destructor.
\<close>

theorem guard_releases_once:
  "guards_destroy h (guard_chain k (guard_make (Some p))) = rc_release h p \<and>
   guard_destroy h (fst (guard_release (guard_make (Some p)))) = Inr h"
proof
  have "guards_destroy h (guard_chain k g) = guard_destroy h g" for g
  proof (induction k arbitrary: g)
    case 0
    then show ?case by (cases "guard_destroy h g") simp_all
  next
    case (Suc k)
    then show ?case
      by (cases "guard_destroy h g") (simp_all add: guard_move_def guards_destroy_append guard_destroy_def)
  qed
  then show "guards_destroy h (guard_chain k (guard_make (Some p))) = rc_release h p"
    by (simp add: guard_make_def guard_destroy_def)
  show "guard_destroy h (fst (guard_release (guard_make (Some p)))) = Inr h"
    by (simp add: guard_release_def guard_destroy_def)
qed

end
