(* ===== verification/Broadcast_Message.thy ===== *)
theory Broadcast_Message
  imports Message_Channel Payload
begin

text \<open>
  The message of \<open>eventqueue_fast.h\<close>, \<open>eventqueue_batch.h\<close> and (its bulk message)
  \<open>eventqueue_emulator.h\<close>: three structs with the same members, filled in and delivered by
  the same code. \<open>fill_message\<close> is what the \<open>post\<close> functions write into a message,
  \<open>deliver\<close> is what the dispatchers do with it.

  Arrays of fixed length are functions of the index. The union of a payload pointer and
  inline bytes is the datatype \<open>payload_union\<close>. A callback is a function pointer or null; calling
  it is recorded in the log of the world, with the topic, the \<open>size\<close> bytes that the pointer it
  receives leads to (\<open>None\<close> for a null pointer), the size and the user data. Callbacks do not
  call back into the queue in this model.
\<close>

section \<open>Messages\<close>

record observer =
  callback :: "nat option"
  userData :: nat

datatype payload_union = Managed "nat option" | InlineData "nat \<Rightarrow> mbyte"

text \<open>
  The members that \<open>BroadcastMessage\<close> of \<open>eventqueue_broadcast.h\<close> has too, and the snapshot of
  the observers.
\<close>

record broadcast_message =
  topicId :: u16
  observerCount :: u8
  isInline :: bool
  payloadSize :: u64
  payload :: payload_union

record message = broadcast_message +
  observers :: "nat \<Rightarrow> observer option"

text \<open>\<open>new Node()\<close> zero-initialises the message.\<close>

definition zero_message :: message where
  "zero_message = \<lparr>topicId = 0, observerCount = 0, isInline = False, payloadSize = 0,
     payload = Managed None, observers = (\<lambda>_. Some \<lparr>callback = None, userData = 0\<rparr>)\<rparr>"

definition FAST_INLINE_MAX :: u64 where "FAST_INLINE_MAX = 48"

datatype delivery = Call nat u16 "mbyte list option" u64 nat

record world =
  rc_heap :: payloads
  log :: "delivery list"

text \<open>The bytes of a union that does not hold inline data are unspecified.\<close>

fun union_bytes :: "payload_union \<Rightarrow> nat \<Rightarrow> mbyte" where
  "union_bytes (InlineData bs) = bs"
| "union_bytes (Managed p) = (\<lambda>_. None)"

text \<open>\<open>memcpy\<close> of \<open>n\<close> bytes into an array.\<close>

definition memcpy_array :: "(nat \<Rightarrow> mbyte) \<Rightarrow> u8 list \<Rightarrow> nat \<Rightarrow> (nat \<Rightarrow> mbyte) outcome" where
  "memcpy_array dst src n = (if length src < n then Inl OutOfBounds else Inr (\<lambda>i. if i < n then Some (src ! i) else dst i))"

section \<open>Filling in a message\<close>

definition store_payload ::
  "u8 \<Rightarrow> buffer \<Rightarrow> u64 \<Rightarrow> 'a broadcast_message_scheme \<Rightarrow> world \<Rightarrow> ('a broadcast_message_scheme \<times> world) outcome" where
  "store_payload count dat sz msg w =
     (if sz \<le> FAST_INLINE_MAX then
        (case dat of
           None \<Rightarrow> Inr (msg\<lparr>isInline := True\<rparr>, w)
         | Some bs \<Rightarrow>
             if 0 < sz then
               obind (memcpy_array (union_bytes (payload msg)) bs (unat sz)) (\<lambda>bytes.
                 Inr (msg\<lparr>isInline := True, payload := InlineData bytes\<rparr>, w))
             else Inr (msg\<lparr>isInline := True\<rparr>, w))
      else
        obind (rc_create_data (rc_heap w) dat sz) (\<lambda>(h1, p).
          if 1 < count then
            obind (rc_addRefs h1 p (ucast (count - 1))) (\<lambda>h2.
              Inr (msg\<lparr>isInline := False, payload := Managed (Some p)\<rparr>, w\<lparr>rc_heap := h2\<rparr>))
          else Inr (msg\<lparr>isInline := False, payload := Managed (Some p)\<rparr>, w\<lparr>rc_heap := h1\<rparr>)))"

definition fill_message :: "u16 \<Rightarrow> u8 \<Rightarrow> (nat \<Rightarrow> observer option) \<Rightarrow> buffer \<Rightarrow> u64 \<Rightarrow> message \<Rightarrow> world \<Rightarrow> (message \<times> world) outcome" where
  "fill_message topic count obs dat sz msg w =
     store_payload count dat sz
       (msg\<lparr>topicId := topic, observerCount := count, payloadSize := sz,
            observers := (\<lambda>i. if i < unat count then obs i else observers msg i)\<rparr>) w"

section \<open>Delivering a message\<close>

text \<open>
  \<open>data\<close>, the pointer that a dispatch takes once and hands to every callback: null, the
  inline bytes of the message, or the bytes of a payload. A callback reads through it.
\<close>

datatype data_ptr = NullData | MessageBytes | PayloadBytes nat

definition payload_data :: "'a broadcast_message_scheme \<Rightarrow> world \<Rightarrow> data_ptr outcome" where
  "payload_data msg w =
     (if isInline msg then Inr MessageBytes
      else case payload msg of
        InlineData bs \<Rightarrow> Inl UninitRead
      | Managed None \<Rightarrow> Inr NullData
      | Managed (Some p) \<Rightarrow> obind (rc_data (rc_heap w) p) (\<lambda>bytes. Inr (PayloadBytes p)))"

definition data_bytes :: "'a broadcast_message_scheme \<Rightarrow> data_ptr \<Rightarrow> world \<Rightarrow> mbyte list option outcome" where
  "data_bytes msg dp w =
     (case dp of
        NullData \<Rightarrow> Inr None
      | MessageBytes \<Rightarrow> Inr (Some (map (union_bytes (payload msg)) [0..<unat (payloadSize msg)]))
      | PayloadBytes p \<Rightarrow> obind (rc_data (rc_heap w) p) (\<lambda>bytes. Inr (Some (take (unat (payloadSize msg)) bytes))))"

definition release_managed :: "'a broadcast_message_scheme \<Rightarrow> world \<Rightarrow> world outcome" where
  "release_managed msg w =
     (if isInline msg then Inr w
      else case payload msg of
        InlineData bs \<Rightarrow> Inl UninitRead
      | Managed None \<Rightarrow> Inr w
      | Managed (Some p) \<Rightarrow> obind (rc_release (rc_heap w) p) (\<lambda>h. Inr (w\<lparr>rc_heap := h\<rparr>)))"

text \<open>An empty function is not called; a function that is called sees what \<open>data\<close> leads to at that moment.\<close>

definition call_observer :: "'a broadcast_message_scheme \<Rightarrow> data_ptr \<Rightarrow> observer option \<Rightarrow> world \<Rightarrow> world outcome" where
  "call_observer msg dp ob w =
     (case ob of
        None \<Rightarrow> Inl UninitRead
      | Some o1 \<Rightarrow>
          (case callback o1 of
             None \<Rightarrow> Inl NullCall
           | Some f \<Rightarrow>
               obind (data_bytes msg dp w) (\<lambda>bytes.
                 Inr (w\<lparr>log := log w @ [Call f (topicId msg) bytes (payloadSize msg) (userData o1)]\<rparr>))))"

text \<open>The loop over the first \<open>observerCount\<close> observers, from index \<open>i\<close> on.\<close>

fun deliver_loop :: "nat \<Rightarrow> message \<Rightarrow> data_ptr \<Rightarrow> nat \<Rightarrow> nat \<Rightarrow> world \<Rightarrow> world outcome" where
  "deliver_loop maxObs msg dp i 0 w = Inr w"
| "deliver_loop maxObs msg dp i (Suc k) w =
     (if maxObs \<le> i then Inl OutOfBounds
      else obind (call_observer msg dp (observers msg i) w) (\<lambda>w1.
           obind (release_managed msg w1) (\<lambda>w2. deliver_loop maxObs msg dp (Suc i) k w2)))"

definition deliver :: "nat \<Rightarrow> message \<Rightarrow> world \<Rightarrow> world outcome" where
  "deliver maxObs msg w =
     obind (payload_data msg w) (\<lambda>dp. deliver_loop maxObs msg dp 0 (unat (observerCount msg)) w)"

section \<open>Ownership\<close>

text \<open>
  The payloads on the store are exactly those the messages point to, each pointed to by one
  message and with one reference per observer of that message. \<open>deliveries\<close> is what a message
  in a queue stands for: the calls it will make.
\<close>

definition callable :: "observer option \<Rightarrow> bool" where
  "callable ob \<longleftrightarrow> ob \<noteq> None \<and> callback (the ob) \<noteq> None"

definition msg_refs :: "'a broadcast_message_scheme \<Rightarrow> nat list" where
  "msg_refs m = (if isInline m then [] else case payload m of Managed (Some p) \<Rightarrow> [p] | _ \<Rightarrow> [])"

definition msg_ok :: "payloads \<Rightarrow> message \<Rightarrow> bool" where
  "msg_ok h m \<longleftrightarrow> 0 < observerCount m \<and> (\<forall>i < unat (observerCount m). callable (observers m i)) \<and>
     (isInline m \<or> (\<exists>p r. payload m = Managed (Some p) \<and> cells h p = Some r \<and> m_refCount r = ucast (observerCount m)))"

definition refs :: "message list \<Rightarrow> nat list" where
  "refs ms = concat (map msg_refs ms)"

definition owns :: "payloads \<Rightarrow> message list \<Rightarrow> bool" where
  "owns h ms \<longleftrightarrow> heap_ok h \<and> distinct (refs ms) \<and> live h = set (refs ms) \<and> (\<forall>m \<in> set ms. msg_ok h m)"

definition view_of :: "payloads \<Rightarrow> 'a broadcast_message_scheme \<Rightarrow> mbyte list option" where
  "view_of h m =
     (if isInline m then Some (map (union_bytes (payload m)) [0..<unat (payloadSize m)])
      else case payload m of
        Managed (Some p) \<Rightarrow> map_option (\<lambda>r. take (unat (payloadSize m)) (m_data r)) (cells h p)
      | _ \<Rightarrow> None)"

definition call_of :: "'a broadcast_message_scheme \<Rightarrow> mbyte list option \<Rightarrow> observer option \<Rightarrow> delivery" where
  "call_of m bytes ob = Call (the (callback (the ob))) (topicId m) bytes (payloadSize m) (userData (the ob))"

definition deliveries :: "payloads \<Rightarrow> message \<Rightarrow> delivery list" where
  "deliveries h m = map (\<lambda>i. call_of m (view_of h m) (observers m i)) [0..<unat (observerCount m)]"

lemma refs_simps [simp]:
  "refs [] = []" "refs (m # ms) = msg_refs m @ refs ms" "refs (ms @ ms') = refs ms @ refs ms'"
  by (simp_all add: refs_def)

lemma owns_empty [simp]: "owns heap_empty []"
  by (simp add: owns_def heap_empty_def heap_ok_def)

lemma owns_snoc: "owns h (ms @ [m]) \<longleftrightarrow> owns h (m # ms)"
  by (auto simp: owns_def)

lemma owns_msg_refs: "owns h ms \<Longrightarrow> m \<in> set ms \<Longrightarrow> set (msg_refs m) \<subseteq> set (refs ms)"
  by (auto simp: refs_def)

lemma msg_frame:
  assumes "\<And>p. p \<in> set (msg_refs m) \<Longrightarrow> cells h' p = cells h p"
  shows "msg_ok h' m \<longleftrightarrow> msg_ok h m" and "deliveries h' m = deliveries h m"
proof -
  have "isInline m \<or> (\<exists>p. payload m = Managed (Some p) \<and> cells h' p = cells h p) \<or> payload m = Managed None \<or>
      (\<exists>bs. payload m = InlineData bs)"
    using assms by (cases "payload m"; cases "isInline m") (auto simp: msg_refs_def split: option.splits)
  then show "msg_ok h' m \<longleftrightarrow> msg_ok h m" and "deliveries h' m = deliveries h m"
    by (auto simp: msg_ok_def deliveries_def view_of_def)
qed

text \<open>The messages that stay, after the payloads outside their own changed.\<close>

lemma owns_frame:
  assumes "owns h (ks @ ms)" and "heap_ok h'" and "live h' = set (refs ms)"
    and "\<And>p. p \<in> set (refs ms) \<Longrightarrow> cells h' p = cells h p"
  shows "owns h' ms" and "map (deliveries h') ms = map (deliveries h) ms"
proof -
  have frame: "cells h' p = cells h p" if "m \<in> set ms" "p \<in> set (msg_refs m)" for m p
    using that by (intro assms(4)) (auto simp: refs_def)
  have "msg_ok h' m" if "m \<in> set ms" for m
    using msg_frame(1) [of m h' h] frame [OF that] assms(1) that by (auto simp: owns_def)
  then show "owns h' ms" using assms(1-3) by (auto simp: owns_def)
  show "map (deliveries h') ms = map (deliveries h) ms"
    using msg_frame(2) frame by (metis (no_types, lifting) map_cong)
qed

section \<open>Delivery\<close>

lemma call_observer_ok:
  assumes "data_bytes m dp w = Inr v" and "callable ob"
  shows "call_observer m dp ob w = Inr (w\<lparr>log := log w @ [call_of m v ob]\<rparr>)"
  using assms by (auto simp: call_observer_def callable_def call_of_def)

lemma upt_first: "[i..<Suc (i + k)] = i # [Suc i..<Suc (i + k)]"
  by (simp add: upt_conv_Cons del: upt_Suc)

lemma deliver_loop_inline:
  assumes "isInline m" and "i + k \<le> maxObs" and "\<And>j. i \<le> j \<Longrightarrow> j < i + k \<Longrightarrow> callable (observers m j)"
  shows "deliver_loop maxObs m MessageBytes i k w =
    Inr (w\<lparr>log := log w @ map (\<lambda>j. call_of m (view_of h m) (observers m j)) [i..<i + k]\<rparr>)"
  using assms
proof (induction k arbitrary: i w)
  case 0
  then show ?case by simp
next
  case (Suc k)
  have "data_bytes m MessageBytes w = Inr (view_of h m)" using Suc.prems(1) by (simp add: data_bytes_def view_of_def)
  note call = call_observer_ok [OF this Suc.prems(3) [of i]]
  have "\<not> maxObs \<le> i" using Suc.prems(2) by simp
  then show ?case
    using Suc.prems Suc.IH [of "Suc i"] by (simp add: call release_managed_def upt_first del: upt_Suc)
qed

lemma deliver_loop_managed:
  assumes "\<not> isInline m" and "payload m = Managed (Some p)" and "cells (rc_heap w) p = Some r"
    and "m_refCount r = of_nat (Suc k)" and "k < 255" and "i + Suc k \<le> maxObs"
    and "\<And>j. i \<le> j \<Longrightarrow> j < i + Suc k \<Longrightarrow> callable (observers m j)"
  shows "\<exists>w'. deliver_loop maxObs m (PayloadBytes p) i (Suc k) w = Inr w' \<and>
    log w' = log w @ map (\<lambda>j. call_of m (Some (take (unat (payloadSize m)) (m_data r))) (observers m j)) [i..<i + Suc k] \<and>
    (\<forall>a. cells (rc_heap w') a = (if a = p then None else cells (rc_heap w) a)) \<and>
    (heap_ok (rc_heap w) \<longrightarrow> heap_ok (rc_heap w'))"
  using assms
proof (induction k arbitrary: i w r)
  case (0 i w r)
  let ?v = "Some (take (unat (payloadSize m)) (m_data r))"
  have "data_bytes m (PayloadBytes p) w = Inr ?v" using 0 by (simp add: data_bytes_def rc_data_def)
  note call = call_observer_ok [OF this 0(7) [of i]]
  have "rc_release (rc_heap w) p = Inr (heap_delete (rc_heap w) p)" using 0 by (simp add: rc_release_last)
  then show ?case using 0 by (auto simp: call release_managed_def)
next
  case (Suc k i w r)
  let ?v = "Some (take (unat (payloadSize m)) (m_data r))"
  let ?r = "r\<lparr>m_refCount := m_refCount r - 1\<rparr>"
  let ?w = "w\<lparr>log := log w @ [call_of m ?v (observers m i)], rc_heap := heap_write (rc_heap w) p ?r\<rparr>"
  have "data_bytes m (PayloadBytes p) w = Inr ?v" using Suc.prems by (simp add: data_bytes_def rc_data_def)
  note call = call_observer_ok [OF this Suc.prems(7) [of i]]
  have "m_refCount r \<noteq> 1" using Suc.prems(4,5) of_nat_eq_1_u32 [of "Suc (Suc k)"] by simp
  then have "rc_release (rc_heap w) p = Inr (heap_write (rc_heap w) p ?r)"
    using Suc.prems(3) by (intro rc_release_more)
  then have step: "deliver_loop maxObs m (PayloadBytes p) i (Suc (Suc k)) w = deliver_loop maxObs m (PayloadBytes p) (Suc i) (Suc k) ?w"
    using Suc.prems(1,2,6) by (simp add: call release_managed_def)
  have 1: "cells (rc_heap ?w) p = Some ?r" "m_refCount ?r = of_nat (Suc k)" "k < 255" "Suc i + Suc k \<le> maxObs"
    using Suc.prems(4-6) by simp_all
  have 2: "callable (observers m j)" if "Suc i \<le> j" "j < Suc i + Suc k" for j
    using that by (intro Suc.prems(7)) simp_all
  have "m_data ?r = m_data r" by simp
  with Suc.IH [OF Suc.prems(1,2) 1 2] obtain w' where w': "deliver_loop maxObs m (PayloadBytes p) (Suc i) (Suc k) ?w = Inr w'"
    "log w' = log ?w @ map (\<lambda>j. call_of m ?v (observers m j)) [Suc i..<Suc i + Suc k]"
    "\<forall>a. cells (rc_heap w') a = (if a = p then None else cells (rc_heap ?w) a)"
    "heap_ok (rc_heap ?w) \<longrightarrow> heap_ok (rc_heap w')" by metis
  have "log w' = log w @ map (\<lambda>j. call_of m ?v (observers m j)) [i..<i + Suc (Suc k)]"
    using w'(2) upt_first [of i "Suc k"] by simp
  moreover have "heap_ok (rc_heap w) \<longrightarrow> heap_ok (rc_heap ?w)" using Suc.prems(3) by auto
  ultimately show ?case unfolding step using w'(1,3,4) by (intro exI [of _ w']) simp
qed

lemma unat_pos_Suc: "0 < c \<Longrightarrow> \<exists>k. unat (c :: u8) = Suc k \<and> k < 255"
proof -
  assume "0 < c"
  then have "0 < unat c" by (simp add: unat_gt_0)
  moreover have "unat c < 2 ^ LENGTH(8)" by (rule unsigned_less)
  ultimately show ?thesis by (intro exI [of _ "unat c - 1"]) simp
qed

lemma deliver_ok:
  assumes own: "owns (rc_heap w) (m # ms)" and max: "unat (observerCount m) \<le> maxObs"
  shows "\<exists>w'. deliver maxObs m w = Inr w' \<and> log w' = log w @ deliveries (rc_heap w) m \<and> owns (rc_heap w') ms \<and>
    map (deliveries (rc_heap w')) ms = map (deliveries (rc_heap w)) ms"
proof -
  have ok: "msg_ok (rc_heap w) m" using own by (simp add: owns_def)
  show ?thesis
  proof (cases "isInline m")
    case True
    have "deliver maxObs m w = Inr (w\<lparr>log := log w @ deliveries (rc_heap w) m\<rparr>)"
      using deliver_loop_inline [OF True, of 0 "unat (observerCount m)" maxObs w "rc_heap w"] max ok
      by (simp add: deliver_def payload_data_def deliveries_def msg_ok_def True)
    moreover have "owns (rc_heap w) ms" using own True by (auto simp: owns_def msg_refs_def)
    ultimately show ?thesis by simp
  next
    case False
    then obtain p r where p: "payload m = Managed (Some p)" "cells (rc_heap w) p = Some r"
        "m_refCount r = ucast (observerCount m)" using ok by (auto simp: msg_ok_def)
    obtain k where k: "unat (observerCount m) = Suc k" "k < 255" using unat_pos_Suc ok by (auto simp: msg_ok_def)
    have "m_refCount r = of_nat (unat (observerCount m))" using p(3) by simp
    then have "m_refCount r = of_nat (Suc k)" unfolding k(1) .
    from deliver_loop_managed [OF False p(1,2) this k(2), of 0 maxObs] max k(1) ok
    obtain w' where w': "deliver maxObs m w = Inr w'"
      "log w' = log w @ map (\<lambda>j. call_of m (Some (take (unat (payloadSize m)) (m_data r))) (observers m j)) [0..<Suc k]"
      "\<forall>a. cells (rc_heap w') a = (if a = p then None else cells (rc_heap w) a)"
      "heap_ok (rc_heap w) \<longrightarrow> heap_ok (rc_heap w')"
      by (auto simp: deliver_def payload_data_def rc_data_def False p(1,2) msg_ok_def)
    have refs: "refs (m # ms) = p # refs ms" using False p(1) by (simp add: msg_refs_def)
    have "log w' = log w @ deliveries (rc_heap w) m"
      using w'(2) False p(1,2) k(1) by (simp add: deliveries_def view_of_def)
    moreover have "live (rc_heap w') = set (refs ms)" and "\<And>x. x \<in> set (refs ms) \<Longrightarrow> cells (rc_heap w') x = cells (rc_heap w) x"
      using own refs w'(3) by (auto simp: owns_def domIff set_eq_iff)
    with own w'(4) have "owns (rc_heap w') ms" "map (deliveries (rc_heap w')) ms = map (deliveries (rc_heap w)) ms"
      using owns_frame [of "rc_heap w" "[m]" ms "rc_heap w'"] by (auto simp: owns_def)
    ultimately show ?thesis using w'(1) by blast
  qed
qed

section \<open>Posting\<close>

text \<open>
  A caller's buffer holds at least the \<open>size\<close> bytes it announces; a null pointer goes with
  size zero. \<open>expected\<close> is the calls a posted message has to make.
\<close>

definition buffer_bytes :: "buffer \<Rightarrow> u8 list" where
  "buffer_bytes dat = (case dat of None \<Rightarrow> [] | Some bs \<Rightarrow> bs)"

definition buffer_ok :: "buffer \<Rightarrow> u64 \<Rightarrow> bool" where
  "buffer_ok dat sz \<longleftrightarrow> unat sz \<le> length (buffer_bytes dat)"

definition expected :: "u16 \<Rightarrow> u8 \<Rightarrow> (nat \<Rightarrow> observer option) \<Rightarrow> buffer \<Rightarrow> u64 \<Rightarrow> delivery list" where
  "expected topic count obs dat sz =
     map (\<lambda>i. Call (the (callback (the (obs i)))) topic (Some (map Some (take (unat sz) (buffer_bytes dat)))) sz
       (userData (the (obs i)))) [0..<unat count]"

lemma unat_pos_word: "0 < (x :: 'a::len word) \<longleftrightarrow> 0 < unat x"
  by (simp add: unat_gt_0 word_gt_0)

lemma one_plus_ucast_pred:
  assumes "0 < (c :: u8)"
  shows "1 + ucast (c - 1) = (ucast c :: u32)"
proof -
  obtain k where k: "unat c = Suc k" using unat_pos_Suc [OF assms] by blast
  have "unat (c - 1) = k" using k assms by (subst unat_minus_one) auto
  then have "(ucast (c - 1) :: u32) = of_nat k" and "(ucast c :: u32) = of_nat (Suc k)"
    using k by (metis of_nat_unat)+
  then show ?thesis by simp
qed

definition payload_stored :: "world \<Rightarrow> message \<Rightarrow> message list \<Rightarrow> buffer \<Rightarrow> message \<Rightarrow> world \<Rightarrow> bool" where
  "payload_stored w msg ms dat msg' w1 \<longleftrightarrow> log w1 = log w \<and> owns (rc_heap w1) (msg' # ms) \<and>
     map (deliveries (rc_heap w1)) ms = map (deliveries (rc_heap w)) ms \<and>
     topicId msg' = topicId msg \<and> observerCount msg' = observerCount msg \<and> payloadSize msg' = payloadSize msg \<and>
     observers msg' = observers msg \<and>
     view_of (rc_heap w1) msg' = Some (map Some (take (unat (payloadSize msg)) (buffer_bytes dat)))"

text \<open>A small payload is copied into the message itself.\<close>

lemma store_payload_inline:
  assumes own: "owns (rc_heap w) ms" and small: "sz \<le> FAST_INLINE_MAX" and count: "0 < count" and buf: "buffer_ok dat sz"
    and msg: "observerCount msg = count" "payloadSize msg = sz" "\<And>i. i < unat count \<Longrightarrow> callable (observers msg i)"
  shows "\<exists>msg' w1. store_payload count dat sz msg w = Inr (msg', w1) \<and> payload_stored w msg ms dat msg' w1"
proof -
  have own': "owns (rc_heap w) (m' # ms)" if "isInline m'" "observerCount m' = count" "observers m' = observers msg" for m'
    using that own count msg(3) by (simp add: owns_def msg_refs_def msg_ok_def)
  show ?thesis
  proof (cases "0 < sz")
    case False
    then have 0: "sz = 0" by (simp add: word_gt_0)
    have "store_payload count dat sz msg w = Inr (msg\<lparr>isInline := True\<rparr>, w)"
      using small False by (cases dat) (simp_all add: store_payload_def)
    then show ?thesis using own' [of "msg\<lparr>isInline := True\<rparr>"] msg(1,2) by (simp add: payload_stored_def view_of_def 0)
  next
    case pos: True
    then obtain bs where bs: "dat = Some bs" "unat sz \<le> length bs"
      using buf by (cases dat) (simp_all add: buffer_ok_def buffer_bytes_def unat_pos_word)
    let ?bytes = "\<lambda>i. if i < unat sz then Some (bs ! i) else union_bytes (payload msg) i"
    let ?m = "msg\<lparr>isInline := True, payload := InlineData ?bytes\<rparr>"
    have "store_payload count dat sz msg w = Inr (?m, w)"
      using small pos bs by (simp add: store_payload_def memcpy_array_def)
    moreover have "map ?bytes [0..<unat sz] = map Some (take (unat sz) bs)"
      using bs(2) by (intro nth_equalityI) simp_all
    ultimately show ?thesis using own' [of ?m] msg(1,2) bs(1) by (simp add: payload_stored_def view_of_def buffer_bytes_def)
  qed
qed

text \<open>A larger one goes to the heap, with one reference for every observer.\<close>

lemma store_payload_cell:
  assumes ok: "heap_ok (rc_heap w)" and large: "\<not> sz \<le> FAST_INLINE_MAX" and count: "0 < count"
    and bs: "dat = Some bs" "unat sz \<le> length bs"
  shows "\<exists>p h2. store_payload count dat sz msg w = Inr (msg\<lparr>isInline := False, payload := Managed (Some p)\<rparr>, w\<lparr>rc_heap := h2\<rparr>) \<and>
    p \<notin> live (rc_heap w) \<and> heap_ok h2 \<and>
    cells h2 = (cells (rc_heap w))(p := Some \<lparr>m_refCount = ucast count, m_size = sz, m_data = map Some (take (unat sz) bs)\<rparr>)"
proof -
  from rc_create_data_ok [OF ok bs(2)] obtain h1 p where h1: "rc_create_data (rc_heap w) (Some bs) sz = Inr (h1, p)"
    "p \<notin> live (rc_heap w)" "heap_ok h1"
    "cells h1 = (cells (rc_heap w))(p := Some \<lparr>m_refCount = 1, m_size = sz, m_data = map Some (take (unat sz) bs)\<rparr>)"
    by blast
  let ?m = "msg\<lparr>isInline := False, payload := Managed (Some p)\<rparr>"
  have "\<exists>h2. store_payload count dat sz msg w = Inr (?m, w\<lparr>rc_heap := h2\<rparr>) \<and> heap_ok h2 \<and>
    cells h2 = (cells (rc_heap w))(p := Some \<lparr>m_refCount = ucast count, m_size = sz, m_data = map Some (take (unat sz) bs)\<rparr>)"
  proof (cases "1 < count")
    case True
    have "1 + ucast (count - 1) = (ucast count :: u32)"
      using count by (rule one_plus_ucast_pred)
    then have "rc_addRefs h1 p (ucast (count - 1)) = Inr (heap_write h1 p
        \<lparr>m_refCount = ucast count, m_size = sz, m_data = map Some (take (unat sz) bs)\<rparr>)" (is "_ = Inr ?h2")
      by (simp add: rc_addRefs_def h1(4))
    then have "store_payload count dat sz msg w = Inr (?m, w\<lparr>rc_heap := ?h2\<rparr>)"
      using large True by (simp add: store_payload_def bs(1) h1(1))
    moreover have "heap_ok ?h2" by (rule heap_ok_write [OF h1(3)]) (simp add: h1(4))
    ultimately show ?thesis by (intro exI [of _ ?h2]) (simp add: h1(4))
  next
    case F: False
    then have "count = 1" using count by unat_arith
    then show ?thesis using large F bs h1 by (intro exI [of _ h1]) (simp add: store_payload_def)
  qed
  then show ?thesis using h1(2) by blast
qed

lemma store_payload_managed:
  assumes own: "owns (rc_heap w) ms" and large: "\<not> sz \<le> FAST_INLINE_MAX" and count: "0 < count" and buf: "buffer_ok dat sz"
    and msg: "observerCount msg = count" "payloadSize msg = sz" "\<And>i. i < unat count \<Longrightarrow> callable (observers msg i)"
  shows "\<exists>msg' w1. store_payload count dat sz msg w = Inr (msg', w1) \<and> payload_stored w msg ms dat msg' w1"
proof -
  from large have "0 < sz" by (auto simp: FAST_INLINE_MAX_def not_le intro: order_less_trans [rotated])
  then obtain bs where bs: "dat = Some bs" "unat sz \<le> length bs"
    using buf by (cases dat) (simp_all add: buffer_ok_def buffer_bytes_def unat_pos_word)
  have "heap_ok (rc_heap w)" using own by (simp add: owns_def)
  from store_payload_cell [OF this large count bs] obtain p h2 where
    h2: "store_payload count dat sz msg w = Inr (msg\<lparr>isInline := False, payload := Managed (Some p)\<rparr>, w\<lparr>rc_heap := h2\<rparr>)" "heap_ok h2"
      "cells h2 = (cells (rc_heap w))(p := Some \<lparr>m_refCount = ucast count, m_size = sz, m_data = map Some (take (unat sz) bs)\<rparr>)"
      and new: "p \<notin> live (rc_heap w)" by blast
  let ?m = "msg\<lparr>isInline := False, payload := Managed (Some p)\<rparr>"
  have p: "p \<notin> set (refs ms)" "live (rc_heap w) = set (refs ms)" using own new by (auto simp: owns_def)
  have frame: "cells h2 x = cells (rc_heap w) x" if "m \<in> set ms" "x \<in> set (msg_refs m)" for m x
    using that p(1) owns_msg_refs [OF own] by (auto simp: h2(3))
  have "msg_ok h2 m" if "m \<in> set ms" for m
    using msg_frame(1) [of m h2 "rc_heap w"] frame [OF that] own that by (auto simp: owns_def)
  moreover have "msg_ok h2 ?m" using count msg by (simp add: msg_ok_def h2(3))
  ultimately have "owns h2 (?m # ms)"
    using own h2(2) p by (auto simp: owns_def msg_refs_def h2(3))
  moreover have "map (deliveries h2) ms = map (deliveries (rc_heap w)) ms"
    using msg_frame(2) frame by (metis (no_types, lifting) map_cong)
  moreover have "view_of h2 ?m = Some (map Some (take (unat sz) (buffer_bytes dat)))"
    using msg(2) bs by (simp add: view_of_def h2(3) buffer_bytes_def)
  ultimately show ?thesis using h2(1) msg by (simp add: payload_stored_def)
qed

lemma store_payload_ok:
  assumes own: "owns (rc_heap w) ms" and count: "0 < count" and buf: "buffer_ok dat sz"
    and msg: "observerCount msg = count" "payloadSize msg = sz" "\<And>i. i < unat count \<Longrightarrow> callable (observers msg i)"
  shows "\<exists>msg' w1. store_payload count dat sz msg w = Inr (msg', w1) \<and> log w1 = log w \<and> owns (rc_heap w1) (msg' # ms) \<and>
    map (deliveries (rc_heap w1)) ms = map (deliveries (rc_heap w)) ms \<and>
    topicId msg' = topicId msg \<and> observerCount msg' = count \<and> payloadSize msg' = sz \<and> observers msg' = observers msg \<and>
    view_of (rc_heap w1) msg' = Some (map Some (take (unat sz) (buffer_bytes dat)))"
  using store_payload_inline [OF own _ count buf msg] store_payload_managed [OF own _ count buf msg]
  by (cases "sz \<le> FAST_INLINE_MAX") (auto simp: payload_stored_def msg)

lemma fill_message_ok:
  assumes own: "owns (rc_heap w) ms" and count: "0 < count" and buf: "buffer_ok dat sz"
    and obs: "\<And>i. i < unat count \<Longrightarrow> callable (obs i)"
  shows "\<exists>msg w1. fill_message topic count obs dat sz old w = Inr (msg, w1) \<and> log w1 = log w \<and>
    owns (rc_heap w1) (ms @ [msg]) \<and> map (deliveries (rc_heap w1)) ms = map (deliveries (rc_heap w)) ms \<and>
    observerCount msg = count \<and> deliveries (rc_heap w1) msg = expected topic count obs dat sz"
proof -
  let ?m = "old\<lparr>topicId := topic, observerCount := count, payloadSize := sz,
            observers := (\<lambda>i. if i < unat count then obs i else observers old i)\<rparr>"
  have "callable (observers ?m i)" if "i < unat count" for i using obs that by simp
  from store_payload_ok [OF own count buf _ _ this] obtain msg w1 where m: "store_payload count dat sz ?m w = Inr (msg, w1)"
    "log w1 = log w" "owns (rc_heap w1) (msg # ms)" "map (deliveries (rc_heap w1)) ms = map (deliveries (rc_heap w)) ms"
    "topicId msg = topic" "observerCount msg = count" "payloadSize msg = sz" "observers msg = observers ?m"
    "view_of (rc_heap w1) msg = Some (map Some (take (unat sz) (buffer_bytes dat)))" by auto
  then have "deliveries (rc_heap w1) msg = expected topic count obs dat sz"
    by (simp add: deliveries_def expected_def call_of_def)
  with m show ?thesis by (auto simp: fill_message_def owns_snoc)
qed

end
