(* ===== verification/Event_Contract.thy ===== *)
theory Event_Contract
  imports Broadcast_Message
begin

text \<open>
  The contract that the lock-free event queues share. \<open>dispatcher\<close> is the consumer's side:
  a dispatch makes the calls of the oldest message and removes it. \<open>event_queue\<close> adds the
  producer's side: a post appends the calls of its event. From the two follow the loops
  (\<open>dispatchAll\<close>, \<open>dispatchBatch\<close>) and the end-to-end behaviour, proved here once.
\<close>

text \<open>An event to post: topic, buffer and size; a poster keeps to the topics and to its buffer.\<close>

type_synonym event = "u16 \<times> buffer \<times> u64"

fun accepts_event :: "u16 \<Rightarrow> event \<Rightarrow> bool" where
  "accepts_event maxTopics (topic, dat, sz) \<longleftrightarrow> topic < maxTopics \<and> buffer_ok dat sz"

fun post_each :: "('s \<Rightarrow> 'e \<Rightarrow> ('s \<times> bool) run) \<Rightarrow> 's \<Rightarrow> 'e list \<Rightarrow> 's run" where
  "post_each post q [] = ret q"
| "post_each post q (e # es) = rbind (post q e) (\<lambda>(q', b). post_each post q' es)"

locale dispatcher =
  fixes disp :: "'s \<Rightarrow> ('s \<times> bool) run"
    and ok :: "'s \<Rightarrow> bool"
    and pending :: "'s \<Rightarrow> delivery list list"
    and logged :: "'s \<Rightarrow> delivery list"
  assumes disp_empty: "ok q \<Longrightarrow> pending q = [] \<Longrightarrow> disp q = ret (q, False)"
    and disp_ok: "ok q \<Longrightarrow> pending q = d # ds \<Longrightarrow>
      \<exists>q'. disp q = ret (q', True) \<and> ok q' \<and> pending q' = ds \<and> logged q' = logged q @ d"
begin

lemma drain_from_ok:
  assumes "ok q"
  shows "\<exists>q'. while_count disp (q, c) = ret (q', c + of_nat (length (pending q))) \<and> ok q' \<and> pending q' = [] \<and>
    logged q' = logged q @ concat (pending q)"
proof -
  let ?R = "\<lambda>q' ds. ok q' \<and> pending q' = ds \<and> logged q' @ concat ds = logged q @ concat (pending q)"
  have "\<exists>q'. while_count disp (q, c) = ret (q', c + of_nat (length (pending q))) \<and> ?R q' []"
  proof (rule while_count_ok [where R = ?R])
    show "\<exists>q''. disp q' = ret (q'', True) \<and> ?R q'' ds" if "?R q' (d # ds)" for q' d ds
      using that disp_ok [of q' d ds] by auto
    show "\<exists>q''. disp q' = ret (q'', False) \<and> ?R q'' []" if "?R q' []" for q'
      using that disp_empty [of q'] by auto
  qed (use assms in simp)
  then show ?thesis by auto
qed

lemma drain_ok:
  assumes "ok q"
  shows "\<exists>q'. while_count disp (q, 0) = ret (q', of_nat (length (pending q))) \<and> ok q' \<and> pending q' = [] \<and>
    logged q' = logged q @ concat (pending q)"
  using drain_from_ok [OF assms, of 0] by simp

lemma drain_max_ok:
  assumes "ok q"
  shows "\<exists>q' n. while_count_max disp maxCount (q, 0) = ret (q', of_nat n) \<and> n = min (unat maxCount) (length (pending q)) \<and>
    ok q' \<and> pending q' = drop n (pending q) \<and> logged q' = logged q @ concat (take n (pending q))"
proof -
  let ?R = "\<lambda>q' ds. ok q' \<and> pending q' = ds \<and> logged q' @ concat ds = logged q @ concat (pending q)"
  have "\<exists>q' n. while_count_max disp maxCount (q, 0) = ret (q', 0 + of_nat n) \<and>
      n = min (unat (maxCount - 0)) (length (pending q)) \<and> ?R q' (drop n (pending q))"
  proof (rule while_count_max_ok [where R = ?R])
    show "\<exists>q''. disp q' = ret (q'', True) \<and> ?R q'' ds" if "?R q' (d # ds)" for q' d ds
      using that disp_ok [of q' d ds] by auto
    show "\<exists>q''. disp q' = ret (q'', False) \<and> ?R q'' []" if "?R q' []" for q'
      using that disp_empty [of q'] by auto
  qed (use assms in simp_all)
  then obtain q' n where n: "while_count_max disp maxCount (q, 0) = ret (q', of_nat n)"
    "n = min (unat maxCount) (length (pending q))" and R: "?R q' (drop n (pending q))" by auto
  have "concat (pending q) = concat (take n (pending q)) @ concat (drop n (pending q))"
    by (metis append_take_drop_id concat_append)
  with R have "logged q' = logged q @ concat (take n (pending q))" by auto
  with n R show ?thesis by blast
qed

end

locale event_queue = dispatcher disp ok pending logged
  for disp :: "'s \<Rightarrow> ('s \<times> bool) run" and ok pending logged +
  fixes post :: "'s \<Rightarrow> 'e \<Rightarrow> ('s \<times> bool) run"
    and accepts :: "'e \<Rightarrow> bool"
    and calls :: "'s \<Rightarrow> 'e \<Rightarrow> delivery list list"
    and cap room :: "'s \<Rightarrow> nat"
  assumes post_ok: "ok q \<Longrightarrow> accepts e \<Longrightarrow> length (pending q) < cap q \<Longrightarrow> 0 < room q \<Longrightarrow>
      \<exists>q'. post q e = ret (q', True) \<and> ok q' \<and> logged q' = logged q \<and> pending q' = pending q @ calls q e \<and>
        calls q' = calls q \<and> cap q' = cap q \<and> room q \<le> room q' + 1"
    and calls_le: "length (calls q e) \<le> 1"
begin

lemma post_each_ok:
  assumes "ok q" and "\<forall>e \<in> set es. accepts e" and "length (pending q) + length es \<le> cap q" and "length es \<le> room q"
  shows "\<exists>q'. post_each post q es = ret q' \<and> ok q' \<and> logged q' = logged q \<and>
    pending q' = pending q @ concat (map (calls q) es)"
  using assms
proof (induction es arbitrary: q)
  case Nil
  then show ?case by simp
next
  case (Cons e es)
  then obtain q1 where q1: "post q e = ret (q1, True)" "ok q1" "logged q1 = logged q" "pending q1 = pending q @ calls q e"
    "calls q1 = calls q" "cap q1 = cap q" "room q \<le> room q1 + 1"
    using post_ok [of q e] by auto
  with Cons.prems Cons.IH [of q1] calls_le [of q e] show ?case by auto
qed

text \<open>Whatever is posted is delivered by the next \<open>dispatchAll\<close>, in order, and nothing else is.\<close>

lemma end_to_end:
  assumes "ok q" and "pending q = []" and "\<forall>e \<in> set es. accepts e" and "length es \<le> cap q" and "length es \<le> room q"
  shows "\<exists>q1 q2. post_each post q es = ret q1 \<and>
    while_count disp (q1, 0) = ret (q2, of_nat (length (concat (map (calls q) es)))) \<and> ok q2 \<and> pending q2 = [] \<and>
    logged q2 = logged q @ concat (concat (map (calls q) es))"
proof -
  obtain q1 where q1: "post_each post q es = ret q1" "ok q1" "logged q1 = logged q" "pending q1 = concat (map (calls q) es)"
    using post_each_ok [of q es] assms by auto
  with drain_ok [OF q1(2)] show ?thesis by auto
qed

end

section \<open>Topic tables\<close>

text \<open>
  The table of observers per topic that the fast, the batch and the emulator queue keep, with
  the same code and different limits. \<open>add_observer\<close> is their \<open>addObserver\<close>.
\<close>

record topic_observers =
  t_count :: u8
  t_observers :: "nat \<Rightarrow> observer option"

type_synonym topic_table = "nat \<Rightarrow> topic_observers"

definition no_observers :: topic_observers where
  "no_observers = \<lparr>t_count = 0, t_observers = (\<lambda>_. None)\<rparr>"

definition add_observer :: "u16 \<Rightarrow> u8 \<Rightarrow> topic_table \<Rightarrow> u16 \<Rightarrow> nat option \<Rightarrow> nat \<Rightarrow> topic_table \<times> bool" where
  "add_observer maxTopics maxObs ts topic cb ud =
     (if maxTopics \<le> topic then (ts, False)
      else
        let tp = ts (unat topic); idx = t_count tp in
        if maxObs \<le> idx then (ts, False)
        else (ts(unat topic :=
                tp\<lparr>t_observers := (t_observers tp)(unat idx := Some \<lparr>callback = cb, userData = ud\<rparr>),
                   t_count := idx + 1\<rparr>), True))"

definition topics_ok :: "nat \<Rightarrow> topic_table \<Rightarrow> bool" where
  "topics_ok maxObs ts \<longleftrightarrow>
     (\<forall>t. unat (t_count (ts t)) \<le> maxObs \<and> (\<forall>i < unat (t_count (ts t)). callable (t_observers (ts t) i)))"

text \<open>The calls due for an event.\<close>

definition expected_calls :: "topic_table \<Rightarrow> u16 \<Rightarrow> buffer \<Rightarrow> u64 \<Rightarrow> delivery list" where
  "expected_calls ts topic dat sz = expected topic (t_count (ts (unat topic))) (t_observers (ts (unat topic))) dat sz"

fun topic_calls :: "topic_table \<Rightarrow> event \<Rightarrow> delivery list list" where
  "topic_calls ts (topic, dat, sz) = (if t_count (ts (unat topic)) = 0 then [] else [expected_calls ts topic dat sz])"

text \<open>The messages of a channel own their payloads and fit the dispatcher's loop.\<close>

definition msgs_ok :: "nat \<Rightarrow> payloads \<Rightarrow> message list \<Rightarrow> bool" where
  "msgs_ok maxObs h ms \<longleftrightarrow> owns h ms \<and> (\<forall>m \<in> set ms. unat (observerCount m) \<le> maxObs)"

lemma topic_calls_one: "topic_calls ts (topic, dat, sz) = [c] \<Longrightarrow> t_count (ts (unat topic)) \<noteq> 0 \<and> expected_calls ts topic dat sz = c"
  by (auto simp: topic_calls.simps split: if_splits)

lemma length_topic_calls: "length (topic_calls ts e) \<le> 1"
  by (cases e) simp

lemma topics_ok_none [simp]: "topics_ok k (\<lambda>_. no_observers)"
  by (simp add: topics_ok_def no_observers_def)

lemma msgs_ok_empty [simp]: "msgs_ok k heap_empty []"
  by (simp add: msgs_ok_def)

lemma msgs_ok_no_payload: "msgs_ok k h [] \<Longrightarrow> live h = {}"
  by (simp add: msgs_ok_def owns_def)

lemma add_observer_True:
  assumes "snd (add_observer maxTopics maxObs ts topic (Some cb) ud)" and "maxObs < 255"
  shows "topic < maxTopics" and "t_count (ts (unat topic)) < maxObs"
    and "expected_calls (fst (add_observer maxTopics maxObs ts topic (Some cb) ud)) topic dat sz =
           expected_calls ts topic dat sz @ [Call cb topic (Some (map Some (take (unat sz) (buffer_bytes dat)))) sz ud]"
    and "t \<noteq> topic \<Longrightarrow> expected_calls (fst (add_observer maxTopics maxObs ts topic (Some cb) ud)) t = expected_calls ts t"
proof -
  let ?tp = "ts (unat topic)"
  let ?c = "t_count ?tp"
  show guard: "topic < maxTopics" "?c < maxObs"
    using assms(1) by (auto simp: add_observer_def Let_def not_le split: if_splits)
  have "unat ?c < 255" using guard(2) assms(2) by (simp add: word_less_nat_alt)
  then have c: "unat (?c + 1) = Suc (unat ?c)" by (simp add: unat_word_ariths)
  have add: "fst (add_observer maxTopics maxObs ts topic (Some cb) ud) = ts(unat topic := ?tp\<lparr>t_observers := (t_observers ?tp)(unat ?c :=
      Some \<lparr>callback = Some cb, userData = ud\<rparr>), t_count := ?c + 1\<rparr>)"
    using guard by (simp add: add_observer_def Let_def not_le [symmetric])
  show "expected_calls (fst (add_observer maxTopics maxObs ts topic (Some cb) ud)) topic dat sz =
           expected_calls ts topic dat sz @ [Call cb topic (Some (map Some (take (unat sz) (buffer_bytes dat)))) sz ud]"
    unfolding add by (simp add: expected_calls_def expected_def c)
  show "expected_calls (fst (add_observer maxTopics maxObs ts topic (Some cb) ud)) t = expected_calls ts t" if "t \<noteq> topic"
  proof -
    have "unat t \<noteq> unat topic" using that unsigned_word_eqI by blast
    then show ?thesis unfolding add by (intro ext) (simp add: expected_calls_def)
  qed
qed

lemma add_observer_ok:
  assumes "topics_ok (unat maxObs) ts" and "cb \<noteq> None" and "maxObs < 255"
  shows "topics_ok (unat maxObs) (fst (add_observer maxTopics maxObs ts topic cb ud))"
proof (cases "maxTopics \<le> topic \<or> maxObs \<le> t_count (ts (unat topic))")
  case True
  then show ?thesis using assms(1) by (auto simp: add_observer_def)
next
  case False
  let ?tp = "ts (unat topic)"
  let ?c = "t_count ?tp"
  let ?new = "?tp\<lparr>t_observers := (t_observers ?tp)(unat ?c := Some \<lparr>callback = cb, userData = ud\<rparr>), t_count := ?c + 1\<rparr>"
  have lt: "unat ?c < unat maxObs" "unat maxObs < 255" using False assms(3) by (simp_all add: word_less_nat_alt not_le)
  then have c: "unat (?c + 1) = Suc (unat ?c)" by (simp add: unat_word_ariths)
  have "callable (t_observers ?new i)" if "i < unat (t_count ?new)" for i
    using that c assms(1,2) by (cases "i = unat ?c") (simp_all add: callable_def topics_ok_def)
  then have "topics_ok (unat maxObs) (ts(unat topic := ?new))"
    using assms(1) c lt by (simp add: topics_ok_def)
  then show ?thesis using False by (simp add: add_observer_def Let_def)
qed

text \<open>Filling in a message for a topic that has observers.\<close>

definition fill_for :: "topic_table \<Rightarrow> u16 \<Rightarrow> buffer \<Rightarrow> u64 \<Rightarrow> message \<Rightarrow> world \<Rightarrow> (message \<times> world) outcome" where
  "fill_for ts topic dat sz =
     fill_message topic (t_count (ts (unat topic))) (t_observers (ts (unat topic))) dat sz"

lemma fill_for_ok:
  assumes msgs: "msgs_ok k (rc_heap w) ms" and topics: "topics_ok k ts" and buf: "buffer_ok dat sz"
    and obs: "t_count (ts (unat topic)) \<noteq> 0"
  shows "\<exists>msg w1. fill_for ts topic dat sz old w = Inr (msg, w1)"
    and "fill_for ts topic dat sz old w = Inr (msg, w1) \<Longrightarrow> log w1 = log w \<and> msgs_ok k (rc_heap w1) (ms @ [msg]) \<and>
      map (deliveries (rc_heap w1)) ms = map (deliveries (rc_heap w)) ms \<and>
      deliveries (rc_heap w1) msg = expected_calls ts topic dat sz"
proof -
  let ?tp = "ts (unat topic)"
  have own: "owns (rc_heap w) ms" and max: "\<forall>m \<in> set ms. unat (observerCount m) \<le> k" using msgs by (simp_all add: msgs_ok_def)
  have pos: "0 < t_count ?tp" using obs by (simp add: word_gt_0)
  have "callable (t_observers ?tp i)" if "i < unat (t_count ?tp)" for i using topics that by (simp add: topics_ok_def)
  from fill_message_ok [where obs = "t_observers ?tp", OF own pos buf this, of topic old]
  obtain msg1 w2 where m: "fill_for ts topic dat sz old w = Inr (msg1, w2)" "log w2 = log w" "owns (rc_heap w2) (ms @ [msg1])"
    "map (deliveries (rc_heap w2)) ms = map (deliveries (rc_heap w)) ms" "observerCount msg1 = t_count ?tp"
    "deliveries (rc_heap w2) msg1 = expected_calls ts topic dat sz"
    by (auto simp: fill_for_def expected_calls_def)
  then show "\<exists>msg w1. fill_for ts topic dat sz old w = Inr (msg, w1)" by blast
  have "unat (t_count ?tp) \<le> k" using topics by (simp add: topics_ok_def)
  then show "log w1 = log w \<and> msgs_ok k (rc_heap w1) (ms @ [msg]) \<and>
      map (deliveries (rc_heap w1)) ms = map (deliveries (rc_heap w)) ms \<and>
      deliveries (rc_heap w1) msg = expected_calls ts topic dat sz"
    if "fill_for ts topic dat sz old w = Inr (msg, w1)"
    using that m max by (auto simp: msgs_ok_def)
qed

lemma deliver_msgs_ok:
  assumes "msgs_ok k (rc_heap w) (m # ms)"
  shows "\<exists>w'. deliver k m w = Inr w' \<and> log w' = log w @ deliveries (rc_heap w) m \<and> msgs_ok k (rc_heap w') ms \<and>
    map (deliveries (rc_heap w')) ms = map (deliveries (rc_heap w)) ms"
  using deliver_ok [of w m ms k] assms by (auto simp: msgs_ok_def)

section \<open>Ring and pool of messages\<close>

text \<open>
  Posting to and dispatching from a channel whose messages belong to the store of payloads.
  \<open>B\<close> are messages held outside the ring.
\<close>

abbreviation "send_message ts topic dat sz \<equiv>
  chan_send (acquire zero_message) obj_read obj_write try_push (fill_for ts topic dat sz)"

abbreviation "receive_message k \<equiv> chan_receive try_pop obj_read (\<lambda>p n. release p (Some n)) (deliver k)"

definition mchan :: "nat \<Rightarrow> nat mpmc \<Rightarrow> message pool \<Rightarrow> nat list \<Rightarrow> world \<Rightarrow> bool" where
  "mchan k r p B w \<longleftrightarrow> ring_chan_ok r p B \<and> msgs_ok k (rc_heap w) (ring_msgs r p @ vals obj_read p B)"

definition mpending :: "nat mpmc \<Rightarrow> message pool \<Rightarrow> world \<Rightarrow> delivery list list" where
  "mpending r p w = map (deliveries (rc_heap w)) (ring_msgs r p)"

definition mheld :: "message pool \<Rightarrow> nat list \<Rightarrow> world \<Rightarrow> delivery list list" where
  "mheld p B w = map (deliveries (rc_heap w)) (vals obj_read p B)"

lemma length_mpending [simp]: "length (mpending r p w) = length (contents r)"
  by (simp add: mpending_def)

lemma mheld_simps [simp]: "mheld p [] w = []" "length (mheld p B w) = length B"
  by (simp_all add: mheld_def)

lemma msgs_ok_move: "msgs_ok k h (xs @ m # ys) \<longleftrightarrow> msgs_ok k h ((xs @ ys) @ [m])"
  by (auto simp: msgs_ok_def owns_def)

lemma send_message_ok:
  assumes chan: "mchan k r p B w" and topics: "topics_ok k ts" and buf: "buffer_ok dat sz"
    and obs: "t_count (ts (unat topic)) \<noteq> 0" and free: "length (contents r) < capacity r" and room: "0 < push_room r"
  shows "\<exists>r' p' w'. send_message ts topic dat sz r p w = ret (r', p', w') \<and> mchan k r' p' B w' \<and> log w' = log w \<and>
    mpending r' p' w' = mpending r p w @ [expected_calls ts topic dat sz] \<and> mheld p' B w' = mheld p B w \<and>
    capacity r' = capacity r \<and> push_room r' = push_room r - 1"
proof -
  have ok: "ring_chan_ok r p B" and msgs: "msgs_ok k (rc_heap w) (ring_msgs r p @ vals obj_read p B)"
    using chan by (simp_all add: mchan_def)
  note fill = fill_for_ok [where topic = topic, OF msgs topics buf obs]
  obtain r' p' w' old m where s: "send_message ts topic dat sz r p w = ret (r', p', w')" "fill_for ts topic dat sz old w = Inr (m, w')"
    "ring_chan_ok r' p' B" "ring_msgs r' p' = ring_msgs r p @ [m]" "vals obj_read p' B = vals obj_read p B"
    "capacity r' = capacity r" "push_room r' = push_room r - 1"
    using chan.send_ok [where mk = "fill_for ts topic dat sz" and w = w, OF ok free room fill(1), of zero_message] by blast
  note m = fill(2) [OF s(2)]
  then have "msgs_ok k (rc_heap w') (ring_msgs r' p' @ vals obj_read p' B)"
    by (simp add: s(4,5) msgs_ok_move)
  with s m show ?thesis by (auto simp: mchan_def mpending_def mheld_def)
qed

lemma hold_message_ok:
  assumes chan: "mchan k r p B w" and topics: "topics_ok k ts" and buf: "buffer_ok dat sz"
    and obs: "t_count (ts (unat topic)) \<noteq> 0"
  shows "\<exists>p' n w'. chan_fill (acquire zero_message) obj_read obj_write (fill_for ts topic dat sz) p w = Inr (p', n, w') \<and>
    mchan k r p' (B @ [n]) w' \<and> log w' = log w \<and> mpending r p' w' = mpending r p w \<and>
    mheld p' (B @ [n]) w' = mheld p B w @ [expected_calls ts topic dat sz]"
proof -
  have ok: "ring_chan_ok r p B" and msgs: "msgs_ok k (rc_heap w) (ring_msgs r p @ vals obj_read p B)"
    using chan by (simp_all add: mchan_def)
  note fill = fill_for_ok [where topic = topic, OF msgs topics buf obs]
  obtain p' n w' old m where s: "chan_fill (acquire zero_message) obj_read obj_write (fill_for ts topic dat sz) p w = Inr (p', n, w')"
    "fill_for ts topic dat sz old w = Inr (m, w')" "ring_chan_ok r p' (B @ [n])" "ring_msgs r p' = ring_msgs r p"
    "vals obj_read p' (B @ [n]) = vals obj_read p B @ [m]"
    using chan.hold_ok [where mk = "fill_for ts topic dat sz" and w = w, OF ok fill(1), of zero_message] by blast
  note m = fill(2) [OF s(2)]
  have "mchan k r p' (B @ [n]) w'" unfolding mchan_def s(4,5) using s(3) m by simp
  moreover have "mheld p' (B @ [n]) w' = mheld p B w @ [expected_calls ts topic dat sz]"
    unfolding mheld_def s(5) using m by simp
  ultimately show ?thesis using s(1,4) m by (auto simp: mpending_def)
qed

lemma receive_message_empty:
  assumes "mchan k r p B w" and "mpending r p w = []"
  shows "receive_message k r p w = ret (r, p, w, False)"
  by (rule chan.receive_empty [where B = B]) (use assms in \<open>simp_all add: mchan_def mpending_def\<close>)

lemma receive_message_ok:
  assumes chan: "mchan k r p B w" and pending: "mpending r p w = d # ds"
  shows "\<exists>r' p' w'. receive_message k r p w = ret (r', p', w', True) \<and> mchan k r' p' B w' \<and> log w' = log w @ d \<and>
    mpending r' p' w' = ds \<and> mheld p' B w' = mheld p B w \<and> capacity r' = capacity r \<and> push_room r' = push_room r"
proof -
  obtain m ms where m: "ring_msgs r p = m # ms" "d = deliveries (rc_heap w) m" "ds = map (deliveries (rc_heap w)) ms"
    using pending by (auto simp: mpending_def)
  have ok: "ring_chan_ok r p B" and msgs: "msgs_ok k (rc_heap w) (m # ms @ vals obj_read p B)"
    using chan m(1) by (simp_all add: mchan_def)
  obtain w' where w': "deliver k m w = Inr w'" "log w' = log w @ d" "msgs_ok k (rc_heap w') (ms @ vals obj_read p B)"
    "map (deliveries (rc_heap w')) (ms @ vals obj_read p B) = map (deliveries (rc_heap w)) (ms @ vals obj_read p B)"
    using deliver_msgs_ok [OF msgs] m(2) by blast
  obtain r' p' where r: "receive_message k r p w = ret (r', p', w', True)" "ring_chan_ok r' p' B" "ring_msgs r' p' = ms"
    "vals obj_read p' B = vals obj_read p B" "capacity r' = capacity r" "push_room r' = push_room r"
    using chan.receive_ok [where use = "deliver k", OF ok m(1) w'(1)] by blast
  have "map (deliveries (rc_heap w')) ms = ds" "mheld p' B w' = mheld p B w"
    using w'(4) m(3) by (simp_all add: mheld_def r(4) map_append [symmetric] del: map_append)
  with r w'(2,3) show ?thesis by (auto simp: mchan_def mpending_def)
qed

lemma send_message_full:
  assumes chan: "mchan k r p B w" and topics: "topics_ok k ts" and buf: "buffer_ok dat sz"
    and obs: "t_count (ts (unat topic)) \<noteq> 0" and full: "length (contents r) = capacity r"
  shows "send_message ts topic dat sz r p w = None"
proof -
  have ok: "ring_chan_ok r p B" and msgs: "msgs_ok k (rc_heap w) (ring_msgs r p @ vals obj_read p B)"
    using chan by (simp_all add: mchan_def)
  note fill = fill_for_ok [where topic = topic, OF msgs topics buf obs]
  show ?thesis by (rule chan.send_full [where mk = "fill_for ts topic dat sz" and w = w, OF ok full fill(1)])
qed

lemma send_message_null:
  assumes chan: "mchan k r p B w" and large: "FAST_INLINE_MAX < sz"
  shows "send_message ts topic None sz r p w = Some (Inl NullRead)"
proof -
  have ok: "ring_chan_ok r p B" using chan by (simp add: mchan_def)
  have "fill_for ts topic None sz old w = Inl NullRead" for old
    using large by (simp add: fill_for_def fill_message_def store_payload_def not_le rc_create_data_def rc_create_def
        heap_new_def memcpy_def heap_read_def)
  then show ?thesis by (rule chan.send_fault [where mk = "fill_for ts topic None sz" and w = w, OF ok])
qed

lemma mchan_no_payload: "mchan k r p [] w \<Longrightarrow> mpending r p w = [] \<Longrightarrow> live (rc_heap w) = {}"
  by (rule msgs_ok_no_payload [of k]) (simp add: mchan_def mpending_def)

text \<open>A world in which nothing was posted yet.\<close>

definition new_world :: world where
  "new_world = \<lparr>rc_heap = heap_empty, log = []\<rparr>"

lemma new_mchan:
  assumes "C = 2 ^ e" and "1 \<le> e" and "e \<le> 61"
  shows "\<exists>p. pool_new zero_message j m = Inr p \<and> mchan k (mpmc_new C) p [] new_world \<and> mpending (mpmc_new C) p new_world = [] \<and>
    capacity (mpmc_new C :: nat mpmc) = C \<and> push_room (mpmc_new C :: nat mpmc) = 2 ^ 63 - 1 - C"
  using new_chan_ok [OF assms, of zero_message j m] by (auto simp: mchan_def mpending_def new_world_def)

end
