(* ===== verification/Queue_Fast.thy ===== *)
theory Queue_Fast
  imports Event_Contract
begin

text \<open>
  \<open>src/eventqueue_fast.h\<close>, class \<open>EventQueueBroadcastFast\<close>: every operation, as one thread
  runs it (the concurrent behaviour of the ring and of the pool is in \<open>MPMC_Concurrent\<close> and
  \<open>Pool_Concurrent\<close>). A post takes a snapshot of the observers of the topic into the message;
  a dispatch calls the observers of the snapshot.

  \<open>fq_ok\<close> is the invariant of a queue, \<open>fq_pending\<close> what it stands for: the calls that the
  messages in it will make, message by message. The capacity of the ring is a parameter of
  the constructor, the template argument \<open>QueueCapacity\<close>.
\<close>

section \<open>The queue\<close>

definition FAST_MAX_TOPICS :: u16 where "FAST_MAX_TOPICS = 4096"

definition FAST_MAX_OBSERVERS :: u8 where "FAST_MAX_OBSERVERS = 16"

record fast_queue =
  m_queue :: "nat mpmc"
  m_messagePool :: "message pool"
  m_topics :: topic_table
  m_topicCount :: u16
  fq_world :: world

definition fq_new :: "nat \<Rightarrow> fast_queue outcome" where
  "fq_new QueueCapacity =
     obind (pool_new zero_message 512 16384) (\<lambda>p.
       Inr \<lparr>m_queue = mpmc_new QueueCapacity, m_messagePool = p, m_topics = (\<lambda>_. no_observers), m_topicCount = 0,
            fq_world = new_world\<rparr>)"

definition fq_registerTopic :: "fast_queue \<Rightarrow> fast_queue \<times> u16" where
  "fq_registerTopic q =
     (let id = m_topicCount q in
      (q\<lparr>m_topicCount := m_topicCount q + 1\<rparr>, if id < FAST_MAX_TOPICS then id else UINT16_MAX))"

definition fq_addObserver :: "fast_queue \<Rightarrow> u16 \<Rightarrow> nat option \<Rightarrow> nat \<Rightarrow> fast_queue \<times> bool" where
  "fq_addObserver q topic cb ud =
     (let (ts, b) = add_observer FAST_MAX_TOPICS FAST_MAX_OBSERVERS (m_topics q) topic cb ud in (q\<lparr>m_topics := ts\<rparr>, b))"

definition fq_post :: "fast_queue \<Rightarrow> u16 \<Rightarrow> buffer \<Rightarrow> u64 \<Rightarrow> (fast_queue \<times> bool) run" where
  "fq_post q topic dat sz =
     (if FAST_MAX_TOPICS \<le> topic then ret (q, False)
      else if t_count (m_topics q (unat topic)) = 0 then ret (q, True)
      else
        rbind (send_message (m_topics q) topic dat sz (m_queue q) (m_messagePool q) (fq_world q))
          (\<lambda>(r, p, w). ret (q\<lparr>m_queue := r, m_messagePool := p, fq_world := w\<rparr>, True)))"

definition fq_postValue :: "fast_queue \<Rightarrow> u16 \<Rightarrow> u8 list \<Rightarrow> (fast_queue \<times> bool) run" where
  "fq_postValue q topic value = fq_post q topic (Some value) (of_nat (length value))"

definition fq_postSignal :: "fast_queue \<Rightarrow> u16 \<Rightarrow> (fast_queue \<times> bool) run" where
  "fq_postSignal q topic = fq_post q topic None 0"

definition fq_dispatchOne :: "fast_queue \<Rightarrow> (fast_queue \<times> bool) run" where
  "fq_dispatchOne q =
     rbind (receive_message (unat FAST_MAX_OBSERVERS) (m_queue q) (m_messagePool q) (fq_world q))
       (\<lambda>(r, p, w, b). ret (q\<lparr>m_queue := r, m_messagePool := p, fq_world := w\<rparr>, b))"

definition fq_dispatchBatch :: "fast_queue \<Rightarrow> u64 \<Rightarrow> (fast_queue \<times> u64) run" where
  "fq_dispatchBatch q maxCount = while_count_max fq_dispatchOne maxCount (q, 0)"

definition fq_dispatchAll :: "fast_queue \<Rightarrow> (fast_queue \<times> u64) run" where
  "fq_dispatchAll q = while_count fq_dispatchOne (q, 0)"

definition fq_empty :: "fast_queue \<Rightarrow> bool" where
  "fq_empty q = mpmc_empty (m_queue q)"

definition fq_queueSize :: "fast_queue \<Rightarrow> u64" where
  "fq_queueSize q = size_approx (m_queue q)"

section \<open>Invariant and abstraction\<close>

definition fq_ok :: "fast_queue \<Rightarrow> bool" where
  "fq_ok q \<longleftrightarrow> mchan 16 (m_queue q) (m_messagePool q) [] (fq_world q) \<and> topics_ok 16 (m_topics q)"

abbreviation fq_pending :: "fast_queue \<Rightarrow> delivery list list" where
  "fq_pending q \<equiv> mpending (m_queue q) (m_messagePool q) (fq_world q)"

text \<open>What dispatching leaves as it is.\<close>

definition fq_frame :: "fast_queue \<Rightarrow> topic_table \<times> u16 \<times> nat \<times> nat" where
  "fq_frame q = (m_topics q, m_topicCount q, capacity (m_queue q), push_room (m_queue q))"

abbreviation "fq_heap q \<equiv> rc_heap (fq_world q)"

lemma FAST_MAX_OBSERVERS_16 [simp]: "unat FAST_MAX_OBSERVERS = 16"
  by (simp add: FAST_MAX_OBSERVERS_def)

lemma fq_new_ok:
  assumes "C = 2 ^ k" and "1 \<le> k" and "k \<le> 61"
  shows "\<exists>q. fq_new C = Inr q \<and> fq_ok q \<and> fq_pending q = [] \<and> log (fq_world q) = [] \<and> m_topicCount q = 0 \<and>
    (\<forall>t. m_topics q t = no_observers) \<and> capacity (m_queue q) = C \<and> push_room (m_queue q) = 2 ^ 63 - 1 - C"
  using new_mchan [OF assms, of 512 16384 16] by (auto simp: fq_new_def fq_ok_def new_world_def)

section \<open>The operations keep the invariant and do what they promise\<close>

fun fq_post_event :: "fast_queue \<Rightarrow> event \<Rightarrow> (fast_queue \<times> bool) run" where
  "fq_post_event q (topic, dat, sz) = fq_post q topic dat sz"

abbreviation "fq_calls q \<equiv> topic_calls (m_topics q)"

lemma fq_post_ok:
  assumes ok: "fq_ok q" and accept: "accepts_event FAST_MAX_TOPICS e"
    and free: "length (fq_pending q) < capacity (m_queue q)" and room: "0 < push_room (m_queue q)"
  shows "\<exists>q'. fq_post_event q e = ret (q', True) \<and> fq_ok q' \<and> log (fq_world q') = log (fq_world q) \<and>
    fq_pending q' = fq_pending q @ fq_calls q e \<and> fq_calls q' = fq_calls q \<and>
    capacity (m_queue q') = capacity (m_queue q) \<and> push_room (m_queue q) \<le> push_room (m_queue q') + 1"
proof -
  obtain topic dat sz where e: "e = (topic, dat, sz)" by (cases e)
  have topic: "topic < FAST_MAX_TOPICS" and buf: "buffer_ok dat sz" using accept by (simp_all add: e)
  show ?thesis
  proof (cases "t_count (m_topics q (unat topic)) = 0")
    case True
    then show ?thesis using ok topic by (simp add: fq_post_def not_le e)
  next
    case False
    have chan: "mchan 16 (m_queue q) (m_messagePool q) [] (fq_world q)" and topics: "topics_ok 16 (m_topics q)"
      using ok by (simp_all add: fq_ok_def)
    obtain r p w where s: "send_message (m_topics q) topic dat sz (m_queue q) (m_messagePool q) (fq_world q) = ret (r, p, w)"
      "mchan 16 r p [] w" "log w = log (fq_world q)" "mpending r p w = fq_pending q @ [expected_calls (m_topics q) topic dat sz]"
      "capacity r = capacity (m_queue q)" "push_room r = push_room (m_queue q) - 1"
      using send_message_ok [OF chan topics buf False] free room by auto
    let ?q = "q\<lparr>m_queue := r, m_messagePool := p, fq_world := w\<rparr>"
    have "fq_post q topic dat sz = ret (?q, True)" using topic False s(1) by (simp add: fq_post_def not_le)
    then show ?thesis using s False topics by (intro exI [of _ ?q]) (simp add: e fq_ok_def)
  qed
qed

lemma fq_dispatchOne_empty:
  "fq_ok q \<Longrightarrow> fq_pending q = [] \<Longrightarrow> fq_dispatchOne q = ret (q, False)"
  using receive_message_empty [of 16 "m_queue q" "m_messagePool q" "[]" "fq_world q"]
  by (simp add: fq_dispatchOne_def fq_ok_def)

lemma fq_dispatchOne_ok:
  assumes ok: "fq_ok q" and pending: "fq_pending q = d # ds"
  shows "\<exists>q'. fq_dispatchOne q = ret (q', True) \<and> fq_ok q' \<and> fq_pending q' = ds \<and> log (fq_world q') = log (fq_world q) @ d \<and>
    fq_frame q' = fq_frame q"
proof -
  have "mchan 16 (m_queue q) (m_messagePool q) [] (fq_world q)" using ok by (simp add: fq_ok_def)
  from receive_message_ok [OF this pending] ok show ?thesis by (auto simp: fq_dispatchOne_def fq_ok_def fq_frame_def)
qed

interpretation fq: event_queue fq_dispatchOne fq_ok fq_pending "\<lambda>q. log (fq_world q)" fq_post_event
    "accepts_event FAST_MAX_TOPICS" fq_calls "\<lambda>q. capacity (m_queue q)" "\<lambda>q. push_room (m_queue q)"
proof
  show "\<exists>q'. fq_dispatchOne q = ret (q', True) \<and> fq_ok q' \<and> fq_pending q' = ds \<and> log (fq_world q') = log (fq_world q) @ d"
    if "fq_ok q" "fq_pending q = d # ds" for q d ds
    using fq_dispatchOne_ok [OF that] by blast
qed (rule fq_dispatchOne_empty fq_post_ok length_topic_calls; assumption)+

interpretation fq_framed: dispatcher fq_dispatchOne "\<lambda>q. fq_ok q \<and> fq_frame q = fr" fq_pending "\<lambda>q. log (fq_world q)"
proof
  show "\<exists>q'. fq_dispatchOne q = ret (q', True) \<and> (fq_ok q' \<and> fq_frame q' = fr) \<and> fq_pending q' = ds \<and>
      log (fq_world q') = log (fq_world q) @ d"
    if "fq_ok q \<and> fq_frame q = fr" "fq_pending q = d # ds" for q d ds
    using fq_dispatchOne_ok [of q d ds] that by auto
qed (simp add: fq_dispatchOne_empty)

lemma fq_addObserver_parts [simp]:
  "fst (fq_addObserver q topic cb ud) =
     q\<lparr>m_topics := fst (add_observer FAST_MAX_TOPICS FAST_MAX_OBSERVERS (m_topics q) topic cb ud)\<rparr>"
  "snd (fq_addObserver q topic cb ud) = snd (add_observer FAST_MAX_TOPICS FAST_MAX_OBSERVERS (m_topics q) topic cb ud)"
  by (simp_all add: fq_addObserver_def split_def Let_def)

lemma fq_addObserver_ok:
  assumes "fq_ok q" and "cb \<noteq> None"
  shows "fq_ok (fst (fq_addObserver q topic cb ud))"
  using assms add_observer_ok [of FAST_MAX_OBSERVERS "m_topics q" cb FAST_MAX_TOPICS topic ud]
  by (simp add: fq_ok_def FAST_MAX_OBSERVERS_def)

lemma fq_registerTopic_ok: "fq_ok q \<Longrightarrow> fq_ok (fst (fq_registerTopic q))"
  by (simp add: fq_registerTopic_def Let_def fq_ok_def)

section \<open>Properties\<close>

text \<open>
  C3. End to end: from an empty queue, posting any sequence of events that fits and then
  calling \<open>dispatchAll\<close> returns, and makes exactly the calls due: for every event in posting
  order, for every observer of its topic in order of registration, one call with the bytes
  of the caller's buffer, its size and the observer's user data. The count returned is the
  number of events that had observers, and no payload is left allocated.
\<close>

theorem fq_end_to_end:
  assumes "fq_ok q" and "fq_pending q = []" and "\<forall>e \<in> set es. accepts_event FAST_MAX_TOPICS e"
    and "length es \<le> capacity (m_queue q)" and "length es \<le> push_room (m_queue q)"
  shows "\<exists>q1 q2. post_each fq_post_event q es = ret q1 \<and>
    fq_dispatchAll q1 = ret (q2, of_nat (length (concat (map (fq_calls q) es)))) \<and>
    log (fq_world q2) = log (fq_world q) @ concat (concat (map (fq_calls q) es)) \<and>
    live (fq_heap q2) = {} \<and> fq_ok q2"
proof -
  obtain q1 q2 where q: "post_each fq_post_event q es = ret q1"
    "while_count fq_dispatchOne (q1, 0) = ret (q2, of_nat (length (concat (map (fq_calls q) es))))"
    "fq_ok q2" "fq_pending q2 = []" "log (fq_world q2) = log (fq_world q) @ concat (concat (map (fq_calls q) es))"
    using fq.end_to_end [OF assms] by blast
  then have "live (fq_heap q2) = {}" by (intro mchan_no_payload [of 16]) (simp_all add: fq_ok_def)
  with q show ?thesis by (auto simp: fq_dispatchAll_def)
qed

lemma fq_new_4: "\<exists>q. fq_new 4 = Inr q \<and> fq_ok q \<and> fq_pending q = [] \<and> log (fq_world q) = [] \<and> (\<forall>t. m_topics q t = no_observers) \<and>
    capacity (m_queue q) = 4 \<and> push_room (m_queue q) = 2 ^ 63 - 5"
  using fq_new_ok [of 4 2] by auto

theorem fq_end_to_end_witness:
  "\<exists>q q1 q2. fq_new 4 = Inr q \<and> post_each fq_post_event (fst (fq_addObserver q 3 (Some 7) 9)) [(3, Some [1, 2], 2)] = ret q1 \<and>
     fq_dispatchAll q1 = ret (q2, 1) \<and> log (fq_world q2) = [Call 7 3 (Some [Some 1, Some 2]) 2 9]"
proof -
  obtain q where q: "fq_new 4 = Inr q" "fq_ok q" "fq_pending q = []" "log (fq_world q) = []" "\<forall>t. m_topics q t = no_observers"
    "capacity (m_queue q) = 4" "push_room (m_queue q) = 2 ^ 63 - 5" using fq_new_4 by blast
  let ?q = "fst (fq_addObserver q 3 (Some 7) 9)"
  let ?es = "[(3, Some [1, 2], 2)] :: event list"
  have prem: "fq_ok ?q" "fq_pending ?q = []" "\<forall>e \<in> set ?es. accepts_event FAST_MAX_TOPICS e"
    "length ?es \<le> capacity (m_queue ?q)" "length ?es \<le> push_room (m_queue ?q)"
    using q fq_addObserver_ok [OF q(2), of "Some 7" 3 9] by (simp_all add: FAST_MAX_TOPICS_def buffer_ok_def buffer_bytes_def)
  have "fq_calls ?q (3, Some [1, 2], 2) = [[Call 7 3 (Some [Some 1, Some 2]) 2 9]]"
    by (simp add: add_observer_def FAST_MAX_TOPICS_def FAST_MAX_OBSERVERS_def q(5) no_observers_def expected_calls_def
        expected_def buffer_bytes_def)
  then show ?thesis using fq_end_to_end [OF prem] q(1,4) by auto
qed

text \<open>
  \<open>dispatchBatch(maxCount)\<close> returns, delivers the oldest \<open>min(maxCount, pending)\<close> messages
  in order, leaves the others as they were, and returns how many it delivered.
\<close>

theorem fq_dispatchBatch_spec:
  assumes "fq_ok q"
  shows "\<exists>q' n. fq_dispatchBatch q maxCount = ret (q', of_nat n) \<and> n = min (unat maxCount) (length (fq_pending q)) \<and>
    fq_ok q' \<and> fq_pending q' = drop n (fq_pending q) \<and> log (fq_world q') = log (fq_world q) @ concat (take n (fq_pending q))"
  unfolding fq_dispatchBatch_def by (rule fq.drain_max_ok [OF assms])

theorem fq_dispatchBatch_spec_witness:
  "\<exists>q q'. fq_new 4 = Inr q \<and> fq_dispatchBatch q 5 = ret (q', 0) \<and> log (fq_world q') = []"
proof -
  obtain q where "fq_new 4 = Inr q" "fq_ok q" "fq_pending q = []" "log (fq_world q) = []" using fq_new_4 by blast
  then show ?thesis using fq_dispatchBatch_spec [of q 5] by auto
qed

lemma fq_new_observed:
  "\<exists>q. fq_new 4 = Inr q \<and> fq_ok (fst (fq_addObserver q 3 (Some 7) 9)) \<and> snd (fq_addObserver q 3 (Some 7) 9) \<and>
     0 < t_count (m_topics (fst (fq_addObserver q 3 (Some 7) 9)) 3)"
proof -
  obtain q where q: "fq_new 4 = Inr q" "fq_ok q" "\<forall>t. m_topics q t = no_observers" using fq_new_4 by blast
  then show ?thesis using fq_addObserver_ok [OF q(2), of "Some 7" 3 9]
    by (simp add: add_observer_def FAST_MAX_TOPICS_def FAST_MAX_OBSERVERS_def no_observers_def)
qed

text \<open>
  Observers: \<open>addObserver\<close> answers \<open>true\<close> exactly if the topic is in range and has fewer
  than 16 observers, and otherwise changes nothing. The new observer is called last for
  every later event of its topic and for no other topic, and never for a message that was
  posted before (the snapshot).
\<close>

theorem fq_addObserver_spec:
  assumes "fq_ok q" and "snd (fq_addObserver q topic (Some cb) ud)"
  shows "topic < FAST_MAX_TOPICS \<and> t_count (m_topics q (unat topic)) < FAST_MAX_OBSERVERS \<and>
    (\<exists>q'. fq_addObserver q topic (Some cb) ud = (q', True) \<and> fq_ok q' \<and> fq_pending q' = fq_pending q \<and>
       expected_calls (m_topics q') topic dat sz = expected_calls (m_topics q) topic dat sz @
         [Call cb topic (Some (map Some (take (unat sz) (buffer_bytes dat)))) sz ud] \<and>
       (\<forall>t. t \<noteq> topic \<longrightarrow> expected_calls (m_topics q') t = expected_calls (m_topics q) t))"
proof -
  obtain ts b where add: "add_observer FAST_MAX_TOPICS FAST_MAX_OBSERVERS (m_topics q) topic (Some cb) ud = (ts, b)" by fastforce
  then have b: "snd (add_observer FAST_MAX_TOPICS FAST_MAX_OBSERVERS (m_topics q) topic (Some cb) ud)" "b"
    using assms(2) by (simp_all add: fq_addObserver_def)
  have "FAST_MAX_OBSERVERS < 255" by (simp add: FAST_MAX_OBSERVERS_def)
  note A = add_observer_True [OF b(1) this, unfolded add fst_conv]
  have q': "fq_addObserver q topic (Some cb) ud = (q\<lparr>m_topics := ts\<rparr>, True)" using b(2) by (simp add: fq_addObserver_def add)
  then have "fq_ok (q\<lparr>m_topics := ts\<rparr>)" using fq_addObserver_ok [OF assms(1), of "Some cb" topic ud] by simp
  with A q' show ?thesis by (intro conjI exI [of _ "q\<lparr>m_topics := ts\<rparr>"]) simp_all
qed

theorem fq_addObserver_spec_witness:
  "\<exists>q q'. fq_new 4 = Inr q \<and> fq_addObserver q 3 (Some 7) 9 = (q', True) \<and> fq_pending q' = fq_pending q"
proof -
  obtain q where "fq_new 4 = Inr q" "fq_ok q" "\<forall>t. m_topics q t = no_observers" using fq_new_4 by blast
  moreover then have "snd (fq_addObserver q 3 (Some 7) 9)"
    by (simp add: add_observer_def FAST_MAX_TOPICS_def FAST_MAX_OBSERVERS_def no_observers_def)
  ultimately show ?thesis using fq_addObserver_spec [of q 3 7 9] by blast
qed

text \<open>
  Topic ids: on a fresh queue the calls of \<open>registerTopic\<close> number the topics 0, 1, ... up
  to 4095 and then answer \<open>UINT16_MAX\<close>; but the counter is never taken back, so that the
  call number 65536 wraps round and hands out id 0 a second time.
\<close>

theorem fq_registerTopic_ids:
  assumes "m_topicCount q = 0"
  shows "snd (fq_registerTopic (((\<lambda>q. fst (fq_registerTopic q)) ^^ n) q)) =
      (if n mod 65536 < 4096 then of_nat n else UINT16_MAX) \<and>
    snd (fq_registerTopic (((\<lambda>q. fst (fq_registerTopic q)) ^^ 65536) q)) = snd (fq_registerTopic q)"
proof -
  have count: "m_topicCount (((\<lambda>q. fst (fq_registerTopic q)) ^^ k) q) = of_nat k" for k
    using assms by (induction k) (simp_all add: fq_registerTopic_def Let_def add.commute)
  have "of_nat k < FAST_MAX_TOPICS \<longleftrightarrow> k mod 65536 < 4096" for k
    by (simp add: FAST_MAX_TOPICS_def word_less_nat_alt unat_of_nat take_bit_eq_mod)
  moreover have "snd (fq_registerTopic p) = (if m_topicCount p < FAST_MAX_TOPICS then m_topicCount p else UINT16_MAX)" for p
    by (simp add: fq_registerTopic_def Let_def)
  ultimately show ?thesis
    using assms by (simp only: count) (simp add: FAST_MAX_TOPICS_def)
qed

theorem fq_registerTopic_ids_witness:
  "\<exists>q. fq_new 4 = Inr q \<and> snd (fq_registerTopic (((\<lambda>q. fst (fq_registerTopic q)) ^^ 65536) q)) = 0"
proof -
  obtain q where "fq_new 4 = Inr q" "m_topicCount q = 0" using fq_new_ok [of 4 2] by auto
  with fq_registerTopic_ids [of q 65536] show ?thesis by (auto simp: fq_registerTopic_def Let_def FAST_MAX_TOPICS_def)
qed

text \<open>
  C39. Where a post goes wrong: with observers registered, a post to a full queue that no
  other thread empties never returns, and a post of more than 48 bytes from a null pointer
  copies from null.
\<close>

theorem fq_post_full_or_null:
  assumes ok: "fq_ok q" and topic: "topic < FAST_MAX_TOPICS" and obs: "0 < t_count (m_topics q (unat topic))"
  shows "(length (fq_pending q) = capacity (m_queue q) \<longrightarrow> buffer_ok dat sz \<longrightarrow> fq_post q topic dat sz = None) \<and>
    (FAST_INLINE_MAX < sz \<longrightarrow> fq_post q topic None sz = Some (Inl NullRead))"
proof -
  have "t_count (m_topics q (unat topic)) \<noteq> 0" "\<not> FAST_MAX_TOPICS \<le> topic" using obs topic by auto
  then show ?thesis
    using ok send_message_full [of 16 "m_queue q" "m_messagePool q" "[]" "fq_world q" "m_topics q" dat sz topic]
      send_message_null [of 16 "m_queue q" "m_messagePool q" "[]" "fq_world q" sz "m_topics q" topic]
    by (simp add: fq_post_def fq_ok_def)
qed

theorem fq_post_full_or_null_witness:
  "\<exists>q. fq_new 4 = Inr q \<and> fq_post (fst (fq_addObserver q 3 (Some 7) 9)) 3 None 49 = Some (Inl NullRead)"
proof -
  obtain q where q: "fq_new 4 = Inr q" "fq_ok (fst (fq_addObserver q 3 (Some 7) 9))"
    "0 < t_count (m_topics (fst (fq_addObserver q 3 (Some 7) 9)) (unat (3 :: u16)))"
    using fq_new_observed by auto
  have "(3 :: u16) < FAST_MAX_TOPICS" "FAST_INLINE_MAX < 49" by (simp_all add: FAST_MAX_TOPICS_def FAST_INLINE_MAX_def)
  with fq_post_full_or_null [OF q(2) _ q(3), of None 49] q(1) show ?thesis by blast
qed

end
