(* ===== verification/Queue_Batch.thy ===== *)
theory Queue_Batch
  imports Event_Contract
begin

text \<open>
  \<open>src/eventqueue_batch.h\<close>, class \<open>EventQueueBroadcastFastBatch\<close>: the fast queue with a buffer
  of up to 32 messages that \<open>postBatched\<close> fills and \<open>flushBatch\<close> pushes to the ring.

  \<open>t_batch\<close> is the list of the messages in the buffer of the posting thread. In the source the
  buffer is a static thread-local member: it belongs to the thread and is shared by all
  queues of the same capacity, so this model is of a thread that uses one queue.
\<close>

section \<open>The queue\<close>

definition BATCH_MAX_TOPICS :: u16 where "BATCH_MAX_TOPICS = 4096"

definition BATCH_MAX_OBSERVERS :: u8 where "BATCH_MAX_OBSERVERS = 16"

definition BATCH_INLINE_MAX :: u64 where "BATCH_INLINE_MAX = 48"

lemma BATCH_INLINE_MAX_fast: "BATCH_INLINE_MAX = FAST_INLINE_MAX"
  by (simp add: BATCH_INLINE_MAX_def FAST_INLINE_MAX_def)

text \<open>The structs have the members of those of \<open>eventqueue_fast.h\<close>.\<close>

type_synonym batch_observer = observer

type_synonym batch_message = message

definition BATCH_SIZE :: nat where "BATCH_SIZE = 32"

record batch_queue =
  b_queue :: "nat mpmc"
  b_messagePool :: "message pool"
  b_topics :: topic_table
  b_topicCount :: u16
  t_batch :: "nat list"
  b_world :: world

definition bq_new :: "nat \<Rightarrow> batch_queue outcome" where
  "bq_new QueueCapacity =
     obind (pool_new zero_message 512 16384) (\<lambda>p.
       Inr \<lparr>b_queue = mpmc_new QueueCapacity, b_messagePool = p, b_topics = (\<lambda>_. no_observers), b_topicCount = 0,
            t_batch = [], b_world = new_world\<rparr>)"

definition bq_registerTopic :: "batch_queue \<Rightarrow> batch_queue \<times> u16" where
  "bq_registerTopic q =
     (let id = b_topicCount q in
      (q\<lparr>b_topicCount := b_topicCount q + 1\<rparr>, if id < BATCH_MAX_TOPICS then id else UINT16_MAX))"

definition bq_addObserver :: "batch_queue \<Rightarrow> u16 \<Rightarrow> nat option \<Rightarrow> nat \<Rightarrow> batch_queue \<times> bool" where
  "bq_addObserver q topic cb ud =
     (let (ts, b) = add_observer BATCH_MAX_TOPICS BATCH_MAX_OBSERVERS (b_topics q) topic cb ud in (q\<lparr>b_topics := ts\<rparr>, b))"

definition bq_post :: "batch_queue \<Rightarrow> u16 \<Rightarrow> buffer \<Rightarrow> u64 \<Rightarrow> (batch_queue \<times> bool) run" where
  "bq_post q topic dat sz =
     (if BATCH_MAX_TOPICS \<le> topic then ret (q, False)
      else if t_count (b_topics q (unat topic)) = 0 then ret (q, True)
      else
        rbind (send_message (b_topics q) topic dat sz (b_queue q) (b_messagePool q) (b_world q))
          (\<lambda>(r, p, w). ret (q\<lparr>b_queue := r, b_messagePool := p, b_world := w\<rparr>, True)))"

definition bq_flushBatch :: "batch_queue \<Rightarrow> batch_queue run" where
  "bq_flushBatch q =
     rbind (push_all try_push (b_queue q) (t_batch q)) (\<lambda>r. ret (q\<lparr>b_queue := r, t_batch := []\<rparr>))"

definition bq_postBatched :: "batch_queue \<Rightarrow> u16 \<Rightarrow> buffer \<Rightarrow> u64 \<Rightarrow> (batch_queue \<times> bool) run" where
  "bq_postBatched q topic dat sz =
     (if BATCH_MAX_TOPICS \<le> topic then ret (q, False)
      else if t_count (b_topics q (unat topic)) = 0 then ret (q, True)
      else
        rbind (Some (chan_fill (acquire zero_message) obj_read obj_write (fill_for (b_topics q) topic dat sz)
                       (b_messagePool q) (b_world q)))
          (\<lambda>(p, n, w).
            if BATCH_SIZE \<le> length (t_batch q) then Some (Inl OutOfBounds)
            else
              let q1 = q\<lparr>b_messagePool := p, b_world := w, t_batch := t_batch q @ [n]\<rparr> in
              if BATCH_SIZE \<le> length (t_batch q1)
              then rbind (bq_flushBatch q1) (\<lambda>q2. ret (q2, True))
              else ret (q1, True)))"

definition bq_postValue :: "batch_queue \<Rightarrow> u16 \<Rightarrow> u8 list \<Rightarrow> (batch_queue \<times> bool) run" where
  "bq_postValue q topic value = bq_post q topic (Some value) (of_nat (length value))"

definition bq_postSignal :: "batch_queue \<Rightarrow> u16 \<Rightarrow> (batch_queue \<times> bool) run" where
  "bq_postSignal q topic = bq_post q topic None 0"

definition bq_dispatchOne :: "batch_queue \<Rightarrow> (batch_queue \<times> bool) run" where
  "bq_dispatchOne q =
     rbind (receive_message (unat BATCH_MAX_OBSERVERS) (b_queue q) (b_messagePool q) (b_world q))
       (\<lambda>(r, p, w, b). ret (q\<lparr>b_queue := r, b_messagePool := p, b_world := w\<rparr>, b))"

text \<open>The second of the three loops of \<open>dispatchBatch\<close>: deliver the popped messages.\<close>

fun deliver_batch :: "nat \<Rightarrow> message pool \<Rightarrow> nat list \<Rightarrow> world \<Rightarrow> world outcome" where
  "deliver_batch maxObs p [] w = Inr w"
| "deliver_batch maxObs p (n # ns) w =
     obind (deref (obj_read p n)) (\<lambda>msg. obind (deliver maxObs msg w) (\<lambda>w1. deliver_batch maxObs p ns w1))"

definition bq_dispatchBatch :: "batch_queue \<Rightarrow> u64 \<Rightarrow> (batch_queue \<times> u64) run" where
  "bq_dispatchBatch q maxCount =
     rbind (pop_times try_pop (min (unat maxCount) BATCH_SIZE) (b_queue q)) (\<lambda>(r, batch).
       Some (obind (deliver_batch (unat BATCH_MAX_OBSERVERS) (b_messagePool q) batch (b_world q)) (\<lambda>w.
         obind (rel_all (\<lambda>p n. release p (Some n)) batch (b_messagePool q)) (\<lambda>p.
           Inr (q\<lparr>b_queue := r, b_messagePool := p, b_world := w\<rparr>, of_nat (length batch))))))"

definition bq_dispatchAll :: "batch_queue \<Rightarrow> (batch_queue \<times> u64) run" where
  "bq_dispatchAll q = while_count bq_dispatchOne (q, 0)"

definition bq_empty :: "batch_queue \<Rightarrow> bool" where
  "bq_empty q = mpmc_empty (b_queue q)"

definition bq_queueSize :: "batch_queue \<Rightarrow> u64" where
  "bq_queueSize q = size_approx (b_queue q)"

section \<open>Invariant and abstraction\<close>

text \<open>Messages in the ring are pending, messages in the buffer are held back.\<close>

definition bq_ok :: "batch_queue \<Rightarrow> bool" where
  "bq_ok q \<longleftrightarrow> mchan 16 (b_queue q) (b_messagePool q) (t_batch q) (b_world q) \<and> topics_ok 16 (b_topics q) \<and>
     length (t_batch q) < BATCH_SIZE"

abbreviation bq_pending :: "batch_queue \<Rightarrow> delivery list list" where
  "bq_pending q \<equiv> mpending (b_queue q) (b_messagePool q) (b_world q)"

abbreviation bq_held :: "batch_queue \<Rightarrow> delivery list list" where
  "bq_held q \<equiv> mheld (b_messagePool q) (t_batch q) (b_world q)"

text \<open>What dispatching leaves as it is.\<close>

definition bq_frame :: "batch_queue \<Rightarrow> topic_table \<times> u16 \<times> nat list \<times> nat \<times> nat" where
  "bq_frame q = (b_topics q, b_topicCount q, t_batch q, capacity (b_queue q), push_room (b_queue q))"

abbreviation "bq_calls q \<equiv> topic_calls (b_topics q)"

lemma BATCH_MAX_OBSERVERS_16 [simp]: "unat BATCH_MAX_OBSERVERS = 16"
  by (simp add: BATCH_MAX_OBSERVERS_def)

lemma bq_new_ok:
  assumes "C = 2 ^ k" and "1 \<le> k" and "k \<le> 61"
  shows "\<exists>q. bq_new C = Inr q \<and> bq_ok q \<and> bq_pending q = [] \<and> t_batch q = [] \<and> log (b_world q) = [] \<and> b_topicCount q = 0 \<and>
    (\<forall>t. b_topics q t = no_observers) \<and> capacity (b_queue q) = C \<and> push_room (b_queue q) = 2 ^ 63 - 1 - C"
  using new_mchan [OF assms, of 512 16384 16] by (auto simp: bq_new_def bq_ok_def new_world_def BATCH_SIZE_def)

section \<open>The operations keep the invariant and do what they promise\<close>

fun bq_post_event :: "batch_queue \<Rightarrow> event \<Rightarrow> (batch_queue \<times> bool) run" where
  "bq_post_event q (topic, dat, sz) = bq_post q topic dat sz"

fun bq_hold_event :: "batch_queue \<Rightarrow> event \<Rightarrow> (batch_queue \<times> bool) run" where
  "bq_hold_event q (topic, dat, sz) = bq_postBatched q topic dat sz"

lemma bq_post_ok:
  assumes ok: "bq_ok q" and accept: "accepts_event BATCH_MAX_TOPICS e"
    and free: "length (bq_pending q) < capacity (b_queue q)" and room: "0 < push_room (b_queue q)"
  shows "\<exists>q'. bq_post_event q e = ret (q', True) \<and> bq_ok q' \<and> log (b_world q') = log (b_world q) \<and>
    bq_pending q' = bq_pending q @ bq_calls q e \<and> bq_calls q' = bq_calls q \<and>
    capacity (b_queue q') = capacity (b_queue q) \<and> push_room (b_queue q) \<le> push_room (b_queue q') + 1"
proof -
  obtain topic dat sz where e: "e = (topic, dat, sz)" by (cases e)
  have topic: "topic < BATCH_MAX_TOPICS" and buf: "buffer_ok dat sz" using accept by (simp_all add: e)
  show ?thesis
  proof (cases "t_count (b_topics q (unat topic)) = 0")
    case True
    then show ?thesis using ok topic by (simp add: bq_post_def not_le e)
  next
    case False
    have chan: "mchan 16 (b_queue q) (b_messagePool q) (t_batch q) (b_world q)" and topics: "topics_ok 16 (b_topics q)"
      using ok by (simp_all add: bq_ok_def)
    obtain r p w where s: "send_message (b_topics q) topic dat sz (b_queue q) (b_messagePool q) (b_world q) = ret (r, p, w)"
      "mchan 16 r p (t_batch q) w" "log w = log (b_world q)"
      "mpending r p w = bq_pending q @ [expected_calls (b_topics q) topic dat sz]"
      "capacity r = capacity (b_queue q)" "push_room r = push_room (b_queue q) - 1"
      using send_message_ok [OF chan topics buf False] free room by auto
    let ?q = "q\<lparr>b_queue := r, b_messagePool := p, b_world := w\<rparr>"
    have "bq_post q topic dat sz = ret (?q, True)" using topic False s(1) by (simp add: bq_post_def not_le)
    then show ?thesis using s False topics ok by (intro exI [of _ ?q]) (simp add: e bq_ok_def)
  qed
qed

lemma bq_dispatchOne_empty:
  "bq_ok q \<Longrightarrow> bq_pending q = [] \<Longrightarrow> bq_dispatchOne q = ret (q, False)"
  using receive_message_empty [of 16 "b_queue q" "b_messagePool q" "t_batch q" "b_world q"]
  by (simp add: bq_dispatchOne_def bq_ok_def)

lemma bq_dispatchOne_ok:
  assumes ok: "bq_ok q" and pending: "bq_pending q = d # ds"
  shows "\<exists>q'. bq_dispatchOne q = ret (q', True) \<and> bq_ok q' \<and> bq_pending q' = ds \<and> log (b_world q') = log (b_world q) @ d \<and>
    bq_held q' = bq_held q \<and> bq_frame q' = bq_frame q"
proof -
  have "mchan 16 (b_queue q) (b_messagePool q) (t_batch q) (b_world q)" using ok by (simp add: bq_ok_def)
  from receive_message_ok [OF this pending] ok show ?thesis by (auto simp: bq_dispatchOne_def bq_ok_def bq_frame_def)
qed

interpretation bq: event_queue bq_dispatchOne bq_ok bq_pending "\<lambda>q. log (b_world q)" bq_post_event
    "accepts_event BATCH_MAX_TOPICS" bq_calls "\<lambda>q. capacity (b_queue q)" "\<lambda>q. push_room (b_queue q)"
proof
  show "\<exists>q'. bq_dispatchOne q = ret (q', True) \<and> bq_ok q' \<and> bq_pending q' = ds \<and> log (b_world q') = log (b_world q) @ d"
    if "bq_ok q" "bq_pending q = d # ds" for q d ds
    using bq_dispatchOne_ok [OF that] by blast
qed (rule bq_dispatchOne_empty bq_post_ok length_topic_calls; assumption)+

text \<open>Dispatching leaves the buffer alone.\<close>

interpretation bq_flushed: dispatcher bq_dispatchOne "\<lambda>q. bq_ok q \<and> t_batch q = []" bq_pending "\<lambda>q. log (b_world q)"
proof
  show "\<exists>q'. bq_dispatchOne q = ret (q', True) \<and> (bq_ok q' \<and> t_batch q' = []) \<and> bq_pending q' = ds \<and>
      log (b_world q') = log (b_world q) @ d"
    if "bq_ok q \<and> t_batch q = []" "bq_pending q = d # ds" for q d ds
    using bq_dispatchOne_ok [of q d ds] that by (auto simp: bq_frame_def)
qed (simp add: bq_dispatchOne_empty)

interpretation bq_framed: dispatcher bq_dispatchOne "\<lambda>q. bq_ok q \<and> bq_held q = H \<and> bq_frame q = fr" bq_pending "\<lambda>q. log (b_world q)"
proof
  show "\<exists>q'. bq_dispatchOne q = ret (q', True) \<and> (bq_ok q' \<and> bq_held q' = H \<and> bq_frame q' = fr) \<and> bq_pending q' = ds \<and>
      log (b_world q') = log (b_world q) @ d"
    if "bq_ok q \<and> bq_held q = H \<and> bq_frame q = fr" "bq_pending q = d # ds" for q d ds
    using bq_dispatchOne_ok [of q d ds] that by metis
qed (simp add: bq_dispatchOne_empty)

lemma flush_messages_ok:
  assumes chan: "mchan k r p B w" and free: "length (contents r) + length B \<le> capacity r" and room: "length B \<le> push_room r"
  shows "\<exists>r'. push_all try_push r B = ret r' \<and> mchan k r' p [] w \<and> mpending r' p w = mpending r p w @ mheld p B w \<and>
    capacity r' = capacity r \<and> push_room r' = push_room r - length B"
proof -
  have "ring_chan_ok r p B" using chan by (simp add: mchan_def)
  from chan.flush_ok [OF this free room] show ?thesis using chan by (auto simp: mchan_def mpending_def mheld_def)
qed

lemma bq_flushBatch_ok:
  assumes ok: "bq_ok q" and free: "length (bq_pending q @ bq_held q) \<le> capacity (b_queue q)"
    and room: "length (t_batch q) \<le> push_room (b_queue q)"
  shows "\<exists>q'. bq_flushBatch q = ret q' \<and> bq_ok q' \<and> bq_pending q' = bq_pending q @ bq_held q \<and> t_batch q' = [] \<and>
    b_world q' = b_world q \<and> b_topics q' = b_topics q \<and> capacity (b_queue q') = capacity (b_queue q) \<and>
    push_room (b_queue q') = push_room (b_queue q) - length (t_batch q)"
proof -
  have "mchan 16 (b_queue q) (b_messagePool q) (t_batch q) (b_world q)" using ok by (simp add: bq_ok_def)
  from flush_messages_ok [OF this _ room] free ok show ?thesis by (auto simp: bq_flushBatch_def bq_ok_def BATCH_SIZE_def)
qed

text \<open>
  What is due in all: the pending calls, then those held back. \<open>postBatched\<close> appends, whether or not
  it flushes.
\<close>

lemma bq_postBatched_ok:
  assumes ok: "bq_ok q" and accept: "accepts_event BATCH_MAX_TOPICS e"
    and free: "length (bq_pending q @ bq_held q) < capacity (b_queue q)" and room: "length (t_batch q) < push_room (b_queue q)"
  shows "\<exists>q'. bq_hold_event q e = ret (q', True) \<and> bq_ok q' \<and> b_topics q' = b_topics q \<and>
    log (b_world q') = log (b_world q) \<and> bq_pending q' @ bq_held q' = bq_pending q @ bq_held q @ bq_calls q e \<and>
    (length (bq_held q @ bq_calls q e) < BATCH_SIZE \<longrightarrow> bq_pending q' = bq_pending q) \<and>
    capacity (b_queue q') = capacity (b_queue q) \<and>
    push_room (b_queue q) + length (t_batch q') \<le> push_room (b_queue q') + length (t_batch q) + 1"
proof -
  obtain topic dat sz where e: "e = (topic, dat, sz)" by (cases e)
  have topic: "topic < BATCH_MAX_TOPICS" and buf: "buffer_ok dat sz" using accept by (simp_all add: e)
  show ?thesis
  proof (cases "t_count (b_topics q (unat topic)) = 0")
    case True
    then show ?thesis using ok topic by (simp add: bq_postBatched_def not_le e)
  next
    case False
    have chan: "mchan 16 (b_queue q) (b_messagePool q) (t_batch q) (b_world q)" and topics: "topics_ok 16 (b_topics q)"
      and len: "length (t_batch q) < BATCH_SIZE" using ok by (simp_all add: bq_ok_def)
    obtain p n w where h: "chan_fill (acquire zero_message) obj_read obj_write (fill_for (b_topics q) topic dat sz)
        (b_messagePool q) (b_world q) = Inr (p, n, w)" "mchan 16 (b_queue q) p (t_batch q @ [n]) w" "log w = log (b_world q)"
      "mpending (b_queue q) p w = bq_pending q" "mheld p (t_batch q @ [n]) w = bq_held q @ [expected_calls (b_topics q) topic dat sz]"
      using hold_message_ok [OF chan topics buf False] by blast
    let ?q = "q\<lparr>b_messagePool := p, b_world := w, t_batch := t_batch q @ [n]\<rparr>"
    have calls: "bq_calls q e = [expected_calls (b_topics q) topic dat sz]" using False by (simp add: e)
    show ?thesis
    proof (cases "BATCH_SIZE \<le> length (t_batch ?q)")
      case short: False
      then have "bq_hold_event q e = ret (?q, True)" using topic False h(1) len by (simp add: e bq_postBatched_def not_le)
      then show ?thesis using h topics short calls by (intro exI [of _ ?q]) (simp add: bq_ok_def)
    next
      case full: True
      have "length (contents (b_queue q)) + length (t_batch ?q) \<le> capacity (b_queue q)" "length (t_batch ?q) \<le> push_room (b_queue q)"
        using free room by simp_all
      from flush_messages_ok [OF h(2)] this obtain r where r: "push_all try_push (b_queue q) (t_batch q @ [n]) = ret r"
        "mchan 16 r p [] w" "mpending r p w = bq_pending q @ bq_held q @ bq_calls q e" "capacity r = capacity (b_queue q)"
        "push_room r = push_room (b_queue q) - length (t_batch q @ [n])"
        by (auto simp: h(4,5) calls)
      let ?q2 = "?q\<lparr>b_queue := r, t_batch := []\<rparr>"
      have "bq_flushBatch ?q = ret ?q2" using r(1) by (simp add: bq_flushBatch_def)
      then have "bq_hold_event q e = ret (?q2, True)"
        using topic False h(1) len full by (simp add: e bq_postBatched_def not_le)
      moreover have "\<not> length (bq_held q @ bq_calls q e) < BATCH_SIZE" using full by (simp add: calls)
      ultimately show ?thesis using h(3) r topics room by (intro exI [of _ ?q2]) (simp add: bq_ok_def BATCH_SIZE_def)
    qed
  qed
qed

lemma bq_hold_each_ok:
  assumes "bq_ok q" and "\<forall>e \<in> set es. accepts_event BATCH_MAX_TOPICS e"
    and "length (bq_pending q @ bq_held q) + length es \<le> capacity (b_queue q)"
    and "length (t_batch q) + length es \<le> push_room (b_queue q)"
  shows "\<exists>q'. post_each bq_hold_event q es = ret q' \<and> bq_ok q' \<and> b_topics q' = b_topics q \<and>
    log (b_world q') = log (b_world q) \<and> bq_pending q' @ bq_held q' = bq_pending q @ bq_held q @ concat (map (bq_calls q) es) \<and>
    (length (bq_held q @ concat (map (bq_calls q) es)) < BATCH_SIZE \<longrightarrow> bq_pending q' = bq_pending q) \<and>
    capacity (b_queue q') = capacity (b_queue q) \<and> length (t_batch q') \<le> push_room (b_queue q')"
  using assms
proof (induction es arbitrary: q)
  case Nil
  then show ?case by simp
next
  case (Cons e es)
  have "accepts_event BATCH_MAX_TOPICS e" "length (bq_pending q @ bq_held q) < capacity (b_queue q)"
    "length (t_batch q) < push_room (b_queue q)" using Cons.prems by simp_all
  from bq_postBatched_ok [OF Cons.prems(1) this] obtain q1 where q1: "bq_hold_event q e = ret (q1, True)" "bq_ok q1"
    "b_topics q1 = b_topics q" "log (b_world q1) = log (b_world q)"
    "bq_pending q1 @ bq_held q1 = bq_pending q @ bq_held q @ bq_calls q e"
    "length (bq_held q @ bq_calls q e) < BATCH_SIZE \<longrightarrow> bq_pending q1 = bq_pending q" "capacity (b_queue q1) = capacity (b_queue q)"
    "push_room (b_queue q) + length (t_batch q1) \<le> push_room (b_queue q1) + length (t_batch q) + 1" by blast
  have "length (bq_pending q1 @ bq_held q1) \<le> length (bq_pending q @ bq_held q) + 1"
    unfolding q1(5) using length_topic_calls [of "b_topics q" e] by simp
  then have "length (bq_pending q1 @ bq_held q1) + length es \<le> capacity (b_queue q1)"
    "length (t_batch q1) + length es \<le> push_room (b_queue q1)" using Cons.prems(3,4) q1(7,8) by simp_all
  with Cons.IH [OF q1(2)] Cons.prems(2) obtain q2 where q2: "post_each bq_hold_event q1 es = ret q2" "bq_ok q2"
    "b_topics q2 = b_topics q1" "log (b_world q2) = log (b_world q1)"
    "bq_pending q2 @ bq_held q2 = (bq_pending q1 @ bq_held q1) @ concat (map (bq_calls q1) es)"
    "length (bq_held q1 @ concat (map (bq_calls q1) es)) < BATCH_SIZE \<longrightarrow> bq_pending q2 = bq_pending q1"
    "capacity (b_queue q2) = capacity (b_queue q1)" "length (t_batch q2) \<le> push_room (b_queue q2)" by auto
  have "bq_pending q2 = bq_pending q" if short: "length (bq_held q @ concat (map (bq_calls q) (e # es))) < BATCH_SIZE"
  proof -
    have "bq_pending q1 = bq_pending q" using q1(6) short by simp
    moreover then have "bq_held q1 = bq_held q @ bq_calls q e" using q1(5) by simp
    ultimately show ?thesis using q2(6) short q1(3) by simp
  qed
  then show ?case using q1 q2 by (intro exI [of _ q2]) simp
qed

section \<open>Batched dispatch\<close>

lemma msgs_ok_swap: "msgs_ok k h (xs @ ys @ zs) \<longleftrightarrow> msgs_ok k h (ys @ xs @ zs)"
  by (auto simp: msgs_ok_def owns_def)

lemma deliver_batch_ok:
  assumes "msgs_ok k (rc_heap w) (vals obj_read p ns @ ms)" and "\<forall>n \<in> set ns. obj_read p n \<noteq> None"
  shows "\<exists>w'. deliver_batch k p ns w = Inr w' \<and> log w' = log w @ concat (map (deliveries (rc_heap w)) (vals obj_read p ns)) \<and>
    msgs_ok k (rc_heap w') ms \<and> map (deliveries (rc_heap w')) ms = map (deliveries (rc_heap w)) ms"
  using assms
proof (induction ns arbitrary: w)
  case Nil
  then show ?case by simp
next
  case (Cons n ns)
  obtain m where m: "obj_read p n = Some m" using Cons.prems(2) by auto
  let ?ms = "vals obj_read p ns @ ms"
  obtain w1 where w1: "deliver k m w = Inr w1" "log w1 = log w @ deliveries (rc_heap w) m" "msgs_ok k (rc_heap w1) ?ms"
    "map (deliveries (rc_heap w1)) ?ms = map (deliveries (rc_heap w)) ?ms"
    using deliver_msgs_ok [of k w m ?ms] Cons.prems(1) m by auto
  obtain w2 where w2: "deliver_batch k p ns w1 = Inr w2"
    "log w2 = log w1 @ concat (map (deliveries (rc_heap w1)) (vals obj_read p ns))"
    "msgs_ok k (rc_heap w2) ms" "map (deliveries (rc_heap w2)) ms = map (deliveries (rc_heap w1)) ms"
    using Cons.IH [OF w1(3)] Cons.prems(2) by auto
  have "map (deliveries (rc_heap w1)) (vals obj_read p ns) = map (deliveries (rc_heap w)) (vals obj_read p ns)"
    "map (deliveries (rc_heap w1)) ms = map (deliveries (rc_heap w)) ms" using w1(4) by auto
  then show ?case using m w1(1,2) w2 by (simp del: map_eq_conv)
qed

lemma bq_dispatchBatch_ok:
  assumes ok: "bq_ok q"
  shows "\<exists>q' n. bq_dispatchBatch q maxCount = ret (q', of_nat n) \<and> n = min (min (unat maxCount) 32) (length (bq_pending q)) \<and>
    bq_ok q' \<and> bq_pending q' = drop n (bq_pending q) \<and> bq_held q' = bq_held q \<and> bq_frame q' = bq_frame q \<and>
    log (b_world q') = log (b_world q) @ concat (take n (bq_pending q))"
proof -
  let ?k = "min (unat maxCount) BATCH_SIZE"
  let ?p = "b_messagePool q" and ?B = "t_batch q" and ?w = "b_world q"
  have chan: "ring_chan_ok (b_queue q) ?p ?B" and msgs: "msgs_ok 16 (rc_heap ?w) (ring_msgs (b_queue q) ?p @ vals obj_read ?p ?B)"
    using ok by (simp_all add: bq_ok_def mchan_def)
  obtain r ks where r: "pop_times try_pop ?k (b_queue q) = ret (r, ks)" "ring_chan_ok r ?p (ks @ ?B)"
    "ring_msgs r ?p = drop ?k (ring_msgs (b_queue q) ?p)" "vals obj_read ?p ks = take ?k (ring_msgs (b_queue q) ?p)"
    "\<forall>n \<in> set ks. obj_read ?p n \<noteq> None" "capacity r = capacity (b_queue q)" "push_room r = push_room (b_queue q)"
    using chan.pop_many_ok [OF chan] by blast
  let ?rest = "ring_msgs r ?p @ vals obj_read ?p ?B"
  have "msgs_ok 16 (rc_heap ?w) (vals obj_read ?p ks @ ?rest)"
    using msgs by (metis append_assoc append_take_drop_id r(3,4))
  from deliver_batch_ok [OF this r(5)] obtain w where w: "deliver_batch 16 ?p ks ?w = Inr w"
    "log w = log ?w @ concat (map (deliveries (rc_heap ?w)) (vals obj_read ?p ks))" "msgs_ok 16 (rc_heap w) ?rest"
    "map (deliveries (rc_heap w)) ?rest = map (deliveries (rc_heap ?w)) ?rest" by blast
  have "pool_inv ?p (set (ks @ contents r @ ?B))" "distinct (ks @ contents r @ ?B)" and rinv: "ring_inv r"
    using r(2) by (auto simp: chan_ok_def Un_left_commute)
  from lf_pool.drop_all_ok [OF this(1,2)] obtain p where p: "rel_all (\<lambda>p n. release p (Some n)) ks ?p = Inr p"
    "pool_inv p (set (contents r @ ?B))" "vals obj_read p (contents r @ ?B) = vals obj_read ?p (contents r @ ?B)" by blast
  have vals: "ring_msgs r p = ring_msgs r ?p" "vals obj_read p ?B = vals obj_read ?p ?B"
    using p(3) by (simp_all add: chan_msgs_def)
  let ?q = "q\<lparr>b_queue := r, b_messagePool := p, b_world := w\<rparr>"
  have n: "length ks = min ?k (length (bq_pending q))" using arg_cong [OF r(4), of length] by simp
  have "bq_dispatchBatch q maxCount = ret (?q, of_nat (length ks))"
    using r(1) w(1) p(1) by (simp add: bq_dispatchBatch_def)
  moreover have "bq_ok ?q"
    using ok p(2) r(2) w(3) vals by (auto simp: bq_ok_def mchan_def chan_ok_def)
  moreover have "bq_pending ?q = drop ?k (bq_pending q)" "bq_held ?q = bq_held q"
    using w(4) vals r(3) by (simp_all add: mpending_def mheld_def drop_map)
  moreover have "drop ?k (bq_pending q) = drop (length ks) (bq_pending q)" "take ?k (bq_pending q) = take (length ks) (bq_pending q)"
    using n by (simp_all add: min_def)
  moreover have "log w = log ?w @ concat (take ?k (bq_pending q))"
    using w(2) r(4) by (simp add: mpending_def take_map)
  moreover have "bq_frame ?q = bq_frame q" using r(6,7) by (simp add: bq_frame_def)
  ultimately show ?thesis using n by (intro exI [of _ ?q] exI [of _ "length ks"]) (simp add: BATCH_SIZE_def)
qed

text \<open>What the two operations do to the number of nodes of the pool.\<close>

lemma bq_dispatchBatch_kept:
  assumes ok: "bq_ok q" and "bq_dispatchBatch q maxCount = ret (q', n)"
  shows "pool_kept (b_messagePool q) (b_messagePool q')"
proof -
  let ?p = "b_messagePool q" and ?B = "t_batch q"
  have "ring_chan_ok (b_queue q) ?p ?B" using ok by (simp add: bq_ok_def mchan_def)
  from chan.pop_many_ok [OF this, of "min (unat maxCount) BATCH_SIZE"] obtain r ks
    where r: "pop_times try_pop (min (unat maxCount) BATCH_SIZE) (b_queue q) = ret (r, ks)" "ring_chan_ok r ?p (ks @ ?B)" by blast
  then have "rel_all (\<lambda>p n. release p (Some n)) ks ?p = Inr (b_messagePool q')"
    using assms(2) by (auto simp: bq_dispatchBatch_def obind_eq_Inr)
  moreover have "pool_inv ?p (set (contents r @ ks @ ?B))" "distinct ks" using r(2) by (simp_all add: chan_ok_def)
  ultimately show ?thesis by (intro rel_all_nodes) auto
qed

lemma bq_post_nodes:
  assumes ok: "bq_ok q" and "bq_post q topic dat sz = ret (q', c)"
  shows "pool_nodes (b_messagePool q) \<le> pool_nodes (b_messagePool q')" and "pool_nodes (b_messagePool q') \<le> pool_nodes (b_messagePool q) + 1"
    and "m_maxSize (b_messagePool q') = m_maxSize (b_messagePool q)" and "t_batch q' = t_batch q"
proof -
  have inv: "pool_inv (b_messagePool q) (set (contents (b_queue q) @ t_batch q))"
    using ok by (simp add: bq_ok_def mchan_def chan_ok_def)
  have "b_messagePool q' = b_messagePool q \<or>
      (\<exists>p1 n m. acquire zero_message (b_messagePool q) = Inr (p1, n) \<and> b_messagePool q' = obj_write p1 n m)"
    using assms(2) by (auto simp: bq_post_def chan_send_def chan_fill_def rbind_eq_ret obind_eq_Inr split: if_splits)
  then show "pool_nodes (b_messagePool q) \<le> pool_nodes (b_messagePool q')" "pool_nodes (b_messagePool q') \<le> pool_nodes (b_messagePool q) + 1"
    "m_maxSize (b_messagePool q') = m_maxSize (b_messagePool q)"
    using acquire_nodes [OF inv] by auto
  show "t_batch q' = t_batch q" using assms(2) by (auto simp: bq_post_def rbind_eq_ret split: if_splits)
qed

section \<open>Properties\<close>

text \<open>
  Batched posting, end to end: events posted with \<open>postBatched\<close> (which flushes by itself
  each time 32 messages have accumulated), then \<open>flushBatch\<close> and \<open>dispatchAll\<close>, make exactly the
  calls due for every event, in posting order, and leave no payload allocated.
\<close>

lemma bq_batched_end_to_end:
  assumes "bq_ok q" and "bq_pending q = []" and "t_batch q = []" and "\<forall>e \<in> set es. accepts_event BATCH_MAX_TOPICS e"
    and "length es \<le> capacity (b_queue q)" and "length es \<le> push_room (b_queue q)"
  shows "\<exists>q1 q2 q3. post_each bq_hold_event q es = ret q1 \<and> bq_flushBatch q1 = ret q2 \<and>
    bq_dispatchAll q2 = ret (q3, of_nat (length (concat (map (bq_calls q) es)))) \<and>
    log (b_world q3) = log (b_world q) @ concat (concat (map (bq_calls q) es)) \<and> live (rc_heap (b_world q3)) = {}"
proof -
  let ?due = "concat (map (bq_calls q) es)"
  have held: "bq_held q = []" using assms(3) by simp
  obtain q1 where q1: "post_each bq_hold_event q es = ret q1" "bq_ok q1" "log (b_world q1) = log (b_world q)"
    "bq_pending q1 @ bq_held q1 = ?due" "capacity (b_queue q1) = capacity (b_queue q)" "length (t_batch q1) \<le> push_room (b_queue q1)"
    using bq_hold_each_ok [OF assms(1,4)] assms(2,3,5,6) held by auto
  have "length ?due \<le> length es"
    using length_topic_calls by (induction es) (auto intro: add_le_mono [of _ 1, simplified])
  then have "length (bq_pending q1 @ bq_held q1) \<le> capacity (b_queue q1)" unfolding q1(4,5) using assms(5) by simp
  from bq_flushBatch_ok [OF q1(2) this q1(6)] obtain q2 where q2: "bq_flushBatch q1 = ret q2" "bq_ok q2"
    "bq_pending q2 = ?due" "t_batch q2 = []" "b_world q2 = b_world q1" by (auto simp: q1(4))
  from bq_flushed.drain_ok [of q2] q2(2,4) obtain q3 where
    "while_count bq_dispatchOne (q2, 0) = ret (q3, of_nat (length (bq_pending q2)))" "bq_ok q3" "t_batch q3 = []"
    "bq_pending q3 = []" "log (b_world q3) = log (b_world q2) @ concat (bq_pending q2)" by blast
  then have "bq_dispatchAll q2 = ret (q3, of_nat (length ?due))" "log (b_world q3) = log (b_world q) @ concat ?due"
    unfolding bq_dispatchAll_def q2(3) unfolding q2(5) q1(3) by simp_all
  moreover have "live (rc_heap (b_world q3)) = {}"
    using \<open>bq_ok q3\<close> \<open>t_batch q3 = []\<close> \<open>bq_pending q3 = []\<close> by (intro mchan_no_payload [of 16]) (simp_all add: bq_ok_def)
  ultimately show ?thesis using q1(1) q2(1) by blast
qed

lemma bq_new_4: "\<exists>q. bq_new 4 = Inr q \<and> bq_ok q \<and> bq_pending q = [] \<and> t_batch q = [] \<and> log (b_world q) = [] \<and>
    (\<forall>t. b_topics q t = no_observers) \<and> capacity (b_queue q) = 4 \<and> push_room (b_queue q) = 2 ^ 63 - 5"
  using bq_new_ok [of 4 2] by auto

text \<open>A queue with one observer, for the witnesses.\<close>

lemma bq_observed:
  "\<exists>q. bq_new 4 = Inr q \<and> (let q' = fst (bq_addObserver q 3 (Some 7) 9) in bq_ok q' \<and> bq_pending q' = [] \<and> t_batch q' = [] \<and>
     log (b_world q') = [] \<and> capacity (b_queue q') = 4 \<and> push_room (b_queue q') = 2 ^ 63 - 5 \<and>
     bq_calls q' (3, Some [1, 2], 2) = [[Call 7 3 (Some [Some 1, Some 2]) 2 9]])"
proof -
  obtain q where q: "bq_new 4 = Inr q" "bq_ok q" "bq_pending q = []" "t_batch q = []" "log (b_world q) = []"
    "\<forall>t. b_topics q t = no_observers" "capacity (b_queue q) = 4" "push_room (b_queue q) = 2 ^ 63 - 5" using bq_new_4 by blast
  have "topics_ok 16 (fst (add_observer BATCH_MAX_TOPICS BATCH_MAX_OBSERVERS (b_topics q) 3 (Some 7) 9))"
    using add_observer_ok [of BATCH_MAX_OBSERVERS "b_topics q" "Some 7" BATCH_MAX_TOPICS 3 9] q(2)
    by (simp add: bq_ok_def BATCH_MAX_OBSERVERS_def)
  moreover have "fst (bq_addObserver q 3 (Some 7) 9) =
      q\<lparr>b_topics := fst (add_observer BATCH_MAX_TOPICS BATCH_MAX_OBSERVERS (b_topics q) 3 (Some 7) 9)\<rparr>"
    by (simp add: bq_addObserver_def split_def Let_def)
  moreover have "topic_calls (fst (add_observer BATCH_MAX_TOPICS BATCH_MAX_OBSERVERS (b_topics q) 3 (Some 7) 9)) (3, Some [1, 2], 2) =
      [[Call 7 3 (Some [Some 1, Some 2]) 2 9]]"
    by (simp add: add_observer_def BATCH_MAX_TOPICS_def BATCH_MAX_OBSERVERS_def q(6) no_observers_def expected_calls_def
        expected_def buffer_bytes_def)
  ultimately show ?thesis using q by (auto simp: bq_ok_def)
qed

lemma accepts_3: "accepts_event BATCH_MAX_TOPICS (3, Some [1, 2], 2)"
  by (simp add: BATCH_MAX_TOPICS_def buffer_ok_def buffer_bytes_def)

lemma bq_batched_end_to_end_witness:
  "\<exists>q q1 q2 q3. bq_new 4 = Inr q \<and> post_each bq_hold_event (fst (bq_addObserver q 3 (Some 7) 9)) [(3, Some [1, 2], 2)] = ret q1 \<and>
     bq_flushBatch q1 = ret q2 \<and> bq_dispatchAll q2 = ret (q3, 1) \<and> log (b_world q3) = [Call 7 3 (Some [Some 1, Some 2]) 2 9]"
proof -
  obtain q q' where q: "bq_new 4 = Inr q" "q' = fst (bq_addObserver q 3 (Some 7) 9)" "bq_ok q'" "bq_pending q' = []" "t_batch q' = []"
    "log (b_world q') = []" "capacity (b_queue q') = 4" "push_room (b_queue q') = 2 ^ 63 - 5"
    "bq_calls q' (3, Some [1, 2], 2) = [[Call 7 3 (Some [Some 1, Some 2]) 2 9]]"
    using bq_observed by (auto simp: Let_def)
  from bq_batched_end_to_end [OF q(3-5), of "[(3, Some [1, 2], 2)]"] show ?thesis
    using accepts_3 q by (simp del: topic_calls.simps) blast
qed

text \<open>
  A batch that is not full is not delivered: as long as fewer than 32 messages are held,
  events posted with \<open>postBatched\<close> and without \<open>flushBatch\<close> stay in the buffer; \<open>dispatchAll\<close>
  returns zero and calls nobody.
\<close>

theorem bq_unflushed_not_delivered:
  assumes "bq_ok q" and "bq_pending q = []" and "t_batch q = []" and "\<forall>e \<in> set es. accepts_event BATCH_MAX_TOPICS e"
    and "length es \<le> capacity (b_queue q)" and "length es \<le> push_room (b_queue q)"
    and "length (concat (map (bq_calls q) es)) < BATCH_SIZE"
  shows "\<exists>q1. post_each bq_hold_event q es = ret q1 \<and> bq_dispatchAll q1 = ret (q1, 0) \<and>
    log (b_world q1) = log (b_world q) \<and> bq_held q1 = concat (map (bq_calls q) es)"
proof -
  have held: "bq_held q = []" using assms(3) by simp
  obtain q1 where q1: "post_each bq_hold_event q es = ret q1" "bq_ok q1" "log (b_world q1) = log (b_world q)"
    "bq_pending q1 = []" "bq_held q1 = concat (map (bq_calls q) es)"
    using bq_hold_each_ok [OF assms(1,4)] assms(2,3,5-7) held by auto
  have "bq_dispatchAll q1 = ret (q1, 0)"
    using bq_dispatchOne_empty [OF q1(2,4)] by (simp add: bq_dispatchAll_def while_count.simps)
  with q1 show ?thesis by blast
qed

theorem bq_unflushed_not_delivered_witness:
  "\<exists>q q1. bq_new 4 = Inr q \<and> post_each bq_hold_event (fst (bq_addObserver q 3 (Some 7) 9)) [(3, Some [1, 2], 2)] = ret q1 \<and>
     bq_dispatchAll q1 = ret (q1, 0) \<and> bq_held q1 = [[Call 7 3 (Some [Some 1, Some 2]) 2 9]]"
proof -
  obtain q q' where q: "bq_new 4 = Inr q" "q' = fst (bq_addObserver q 3 (Some 7) 9)" "bq_ok q'" "bq_pending q' = []" "t_batch q' = []"
    "log (b_world q') = []" "capacity (b_queue q') = 4" "push_room (b_queue q') = 2 ^ 63 - 5"
    "bq_calls q' (3, Some [1, 2], 2) = [[Call 7 3 (Some [Some 1, Some 2]) 2 9]]"
    using bq_observed by (auto simp: Let_def)
  from bq_unflushed_not_delivered [OF q(3-5), of "[(3, Some [1, 2], 2)]"] show ?thesis
    using accepts_3 q by (simp add: BATCH_SIZE_def del: topic_calls.simps) blast
qed

text \<open>
  C35. \<open>dispatchBatch(maxCount)\<close> delivers at most 32 messages: the oldest
  \<open>min(maxCount, 32, pending)\<close>, in order; it returns that number, gives the messages back to the
  pool, and leaves the other pending messages and the poster's buffer as they were.
\<close>

theorem bq_dispatchBatch_spec:
  assumes "bq_ok q"
  shows "\<exists>q' n. bq_dispatchBatch q maxCount = ret (q', of_nat n) \<and> n = min (min (unat maxCount) 32) (length (bq_pending q)) \<and>
    bq_ok q' \<and> bq_pending q' = drop n (bq_pending q) \<and> bq_held q' = bq_held q \<and>
    log (b_world q') = log (b_world q) @ concat (take n (bq_pending q))"
  using bq_dispatchBatch_ok [OF assms, of maxCount] by blast

theorem bq_dispatchBatch_spec_witness:
  "\<exists>q q'. bq_new 4 = Inr q \<and> bq_dispatchBatch q 100 = ret (q', 0) \<and> log (b_world q') = []"
proof -
  obtain q where "bq_new 4 = Inr q" "bq_ok q" "bq_pending q = []" "log (b_world q) = []" using bq_new_4 by blast
  then show ?thesis using bq_dispatchBatch_spec [of q 100] by auto
qed

end
