(* ===== verification/Queue_Emulator.thy ===== *)
theory Queue_Emulator
  imports Event_Contract
begin

text \<open>
  \<open>src/eventqueue_emulator.h\<close>, class \<open>EventQueueEmulator\<close>: two lanes, a fast one for critical
  events with inline payloads only and a bulk one, and three ways to drain them.

  The bulk lane uses the message of \<open>Broadcast_Message\<close>; the fast lane has its own, smaller
  message. The priority of a topic is \<open>None\<close> until \<open>registerTopic\<close> sets it: the constructor
  leaves that member uninitialised, and \<open>post\<close> reads it. \<open>ratio_order\<close> is the order in which
  \<open>dispatchRatio\<close> promises to deliver.
\<close>

section \<open>The fast lane's message\<close>

definition EMU_MAX_TOPICS :: u16 where "EMU_MAX_TOPICS = 256"

definition EMU_INLINE_MAX :: u64 where "EMU_INLINE_MAX = 48"

definition EMU_MAX_OBSERVERS :: u8 where "EMU_MAX_OBSERVERS = 8"

text \<open>The structs of the bulk lane have the members of those of \<open>eventqueue_fast.h\<close>.\<close>

type_synonym emu_observer = observer

type_synonym emu_bulk_message = message

datatype topic_priority = Critical | Normal

record fast_message =
  f_topicId :: u16
  f_observerCount :: u8
  f_payloadSize :: u8
  f_observers :: "nat \<Rightarrow> observer option"
  f_data :: "nat \<Rightarrow> mbyte"

definition zero_fast_message :: fast_message where
  "zero_fast_message = \<lparr>f_topicId = 0, f_observerCount = 0, f_payloadSize = 0,
     f_observers = (\<lambda>_. Some \<lparr>callback = None, userData = 0\<rparr>), f_data = (\<lambda>_. Some 0)\<rparr>"

definition fill_fast :: "topic_table \<Rightarrow> u16 \<Rightarrow> buffer \<Rightarrow> u64 \<Rightarrow> fast_message \<Rightarrow> world \<Rightarrow> (fast_message \<times> world) outcome" where
  "fill_fast ts topic dat sz msg w =
     (let tp = ts (unat topic); count = t_count tp;
          msg1 = msg\<lparr>f_topicId := topic, f_observerCount := count, f_payloadSize := ucast sz,
            f_observers := (\<lambda>i. if i < unat count then t_observers tp i else f_observers msg i)\<rparr> in
      case dat of
        None \<Rightarrow> Inr (msg1, w)
      | Some bs \<Rightarrow>
          if 0 < sz then obind (memcpy_array (f_data msg) bs (unat sz)) (\<lambda>bytes. Inr (msg1\<lparr>f_data := bytes\<rparr>, w))
          else Inr (msg1, w))"

definition call_fast_observer :: "fast_message \<Rightarrow> observer option \<Rightarrow> world \<Rightarrow> world outcome" where
  "call_fast_observer msg ob w =
     (case ob of
        None \<Rightarrow> Inl UninitRead
      | Some o1 \<Rightarrow>
          (case callback o1 of
             None \<Rightarrow> Inl NullCall
           | Some f \<Rightarrow>
               Inr (w\<lparr>log := log w @ [Call f (f_topicId msg) (Some (map (f_data msg) [0..<unat (f_payloadSize msg)]))
                                (ucast (f_payloadSize msg)) (userData o1)]\<rparr>)))"

fun deliver_fast_loop :: "nat \<Rightarrow> fast_message \<Rightarrow> nat \<Rightarrow> nat \<Rightarrow> world \<Rightarrow> world outcome" where
  "deliver_fast_loop maxObs msg i 0 w = Inr w"
| "deliver_fast_loop maxObs msg i (Suc k) w =
     (if maxObs \<le> i then Inl OutOfBounds
      else obind (call_fast_observer msg (f_observers msg i) w) (\<lambda>w1. deliver_fast_loop maxObs msg (Suc i) k w1))"

definition deliver_fast :: "nat \<Rightarrow> fast_message \<Rightarrow> world \<Rightarrow> world outcome" where
  "deliver_fast maxObs msg w = deliver_fast_loop maxObs msg 0 (unat (f_observerCount msg)) w"

section \<open>The queue\<close>

record emu_queue =
  e_fastQueue :: "nat mpmc"
  e_bulkQueue :: "nat mpmc"
  e_fastPool :: "fast_message pool"
  e_bulkPool :: "message pool"
  e_priority :: "nat \<Rightarrow> topic_priority option"
  e_topics :: topic_table
  e_topicCount :: u16
  e_world :: world

definition emu_new :: "nat \<Rightarrow> nat \<Rightarrow> emu_queue outcome" where
  "emu_new FastCapacity BulkCapacity =
     obind (pool_new zero_fast_message 256 2048) (\<lambda>fp. obind (pool_new zero_message 128 4096) (\<lambda>bp.
       Inr \<lparr>e_fastQueue = mpmc_new FastCapacity, e_bulkQueue = mpmc_new BulkCapacity, e_fastPool = fp, e_bulkPool = bp,
            e_priority = (\<lambda>_. None), e_topics = (\<lambda>_. no_observers), e_topicCount = 0, e_world = new_world\<rparr>))"

definition emu_registerTopic :: "emu_queue \<Rightarrow> topic_priority \<Rightarrow> emu_queue \<times> u16" where
  "emu_registerTopic q prio =
     (let id = e_topicCount q; q1 = q\<lparr>e_topicCount := e_topicCount q + 1\<rparr> in
      if EMU_MAX_TOPICS \<le> id then (q1\<lparr>e_topicCount := e_topicCount q1 - 1\<rparr>, UINT16_MAX)
      else (q1\<lparr>e_priority := (e_priority q1)(unat id := Some prio)\<rparr>, id))"

definition emu_addObserver :: "emu_queue \<Rightarrow> u16 \<Rightarrow> nat option \<Rightarrow> nat \<Rightarrow> emu_queue \<times> bool" where
  "emu_addObserver q topic cb ud =
     (let (ts, b) = add_observer EMU_MAX_TOPICS EMU_MAX_OBSERVERS (e_topics q) topic cb ud in (q\<lparr>e_topics := ts\<rparr>, b))"

definition emu_postFast :: "emu_queue \<Rightarrow> u16 \<Rightarrow> buffer \<Rightarrow> u64 \<Rightarrow> (emu_queue \<times> bool) run" where
  "emu_postFast q topic dat sz =
     (if EMU_MAX_TOPICS \<le> topic \<or> EMU_INLINE_MAX < sz then ret (q, False)
      else if t_count (e_topics q (unat topic)) = 0 then ret (q, True)
      else
        rbind (chan_send (acquire zero_fast_message) obj_read obj_write try_push (fill_fast (e_topics q) topic dat sz)
                 (e_fastQueue q) (e_fastPool q) (e_world q))
          (\<lambda>(r, p, w). ret (q\<lparr>e_fastQueue := r, e_fastPool := p, e_world := w\<rparr>, True)))"

definition emu_postFastValue :: "emu_queue \<Rightarrow> u16 \<Rightarrow> u8 list \<Rightarrow> (emu_queue \<times> bool) run" where
  "emu_postFastValue q topic value = emu_postFast q topic (Some value) (of_nat (length value))"

definition emu_postFastSignal :: "emu_queue \<Rightarrow> u16 \<Rightarrow> (emu_queue \<times> bool) run" where
  "emu_postFastSignal q topic = emu_postFast q topic None 0"

definition emu_postBulk :: "emu_queue \<Rightarrow> u16 \<Rightarrow> buffer \<Rightarrow> u64 \<Rightarrow> (emu_queue \<times> bool) run" where
  "emu_postBulk q topic dat sz =
     (if EMU_MAX_TOPICS \<le> topic then ret (q, False)
      else if t_count (e_topics q (unat topic)) = 0 then ret (q, True)
      else
        rbind (send_message (e_topics q) topic dat sz (e_bulkQueue q) (e_bulkPool q) (e_world q))
          (\<lambda>(r, p, w). ret (q\<lparr>e_bulkQueue := r, e_bulkPool := p, e_world := w\<rparr>, True)))"

definition emu_post :: "emu_queue \<Rightarrow> u16 \<Rightarrow> buffer \<Rightarrow> u64 \<Rightarrow> (emu_queue \<times> bool) run" where
  "emu_post q topic dat sz =
     (if EMU_MAX_TOPICS \<le> topic then ret (q, False)
      else case e_priority q (unat topic) of
        None \<Rightarrow> Some (Inl UninitRead)
      | Some Critical \<Rightarrow> if sz \<le> EMU_INLINE_MAX then emu_postFast q topic dat sz else ret (q, False)
      | Some Normal \<Rightarrow> emu_postBulk q topic dat sz)"

definition emu_dispatchFast :: "emu_queue \<Rightarrow> (emu_queue \<times> bool) run" where
  "emu_dispatchFast q =
     rbind (chan_receive try_pop obj_read (\<lambda>p n. release p (Some n)) (deliver_fast (unat EMU_MAX_OBSERVERS))
              (e_fastQueue q) (e_fastPool q) (e_world q))
       (\<lambda>(r, p, w, b). ret (q\<lparr>e_fastQueue := r, e_fastPool := p, e_world := w\<rparr>, b))"

definition emu_dispatchBulk :: "emu_queue \<Rightarrow> (emu_queue \<times> bool) run" where
  "emu_dispatchBulk q =
     rbind (receive_message (unat EMU_MAX_OBSERVERS) (e_bulkQueue q) (e_bulkPool q) (e_world q))
       (\<lambda>(r, p, w, b). ret (q\<lparr>e_bulkQueue := r, e_bulkPool := p, e_world := w\<rparr>, b))"

definition emu_dispatchPriority :: "emu_queue \<Rightarrow> (emu_queue \<times> u64) run" where
  "emu_dispatchPriority q =
     rbind (while_count emu_dispatchFast (q, 0)) (\<lambda>(q1, count).
       rbind (emu_dispatchBulk q1) (\<lambda>(q2, b). ret (q2, if b then count + 1 else count)))"

definition emu_dispatchAll :: "emu_queue \<Rightarrow> (emu_queue \<times> u64) run" where
  "emu_dispatchAll q =
     rbind (while_count emu_dispatchFast (q, 0)) (\<lambda>(q1, count). while_count emu_dispatchBulk (q1, count))"

partial_function (option) ratio_loop :: "u64 \<Rightarrow> emu_queue \<times> u64 \<times> u64 \<Rightarrow> (emu_queue \<times> u64) run" where
  "ratio_loop fastPerBulk s =
     (let q = fst s; count = fst (snd s); fastCount = snd (snd s) in
      rbind (if fastCount < fastPerBulk then emu_dispatchFast q else ret (q, False)) (\<lambda>r1.
        if snd r1 then ratio_loop fastPerBulk (fst r1, count + 1, fastCount + 1)
        else rbind (emu_dispatchBulk (fst r1)) (\<lambda>r2.
          if snd r2 then ratio_loop fastPerBulk (fst r2, count + 1, 0)
          else rbind (emu_dispatchFast (fst r2)) (\<lambda>r3.
            if snd r3 then ratio_loop fastPerBulk (fst r3, count + 1, fastCount + 1)
            else ret (fst r3, count)))))"

definition emu_dispatchRatio :: "emu_queue \<Rightarrow> u64 \<Rightarrow> (emu_queue \<times> u64) run" where
  "emu_dispatchRatio q fastPerBulk = ratio_loop fastPerBulk (q, 0, 0)"

definition emu_fastEmpty :: "emu_queue \<Rightarrow> bool" where
  "emu_fastEmpty q = mpmc_empty (e_fastQueue q)"

definition emu_bulkEmpty :: "emu_queue \<Rightarrow> bool" where
  "emu_bulkEmpty q = mpmc_empty (e_bulkQueue q)"

definition emu_empty :: "emu_queue \<Rightarrow> bool" where
  "emu_empty q \<longleftrightarrow> emu_fastEmpty q \<and> emu_bulkEmpty q"

definition emu_fastQueueSize :: "emu_queue \<Rightarrow> u64" where
  "emu_fastQueueSize q = size_approx (e_fastQueue q)"

definition emu_bulkQueueSize :: "emu_queue \<Rightarrow> u64" where
  "emu_bulkQueueSize q = size_approx (e_bulkQueue q)"

section \<open>Invariant and abstraction\<close>

definition fast_msg_ok :: "fast_message \<Rightarrow> bool" where
  "fast_msg_ok m \<longleftrightarrow> unat (f_observerCount m) \<le> 8 \<and> (\<forall>i < unat (f_observerCount m). callable (f_observers m i))"

definition fast_call :: "fast_message \<Rightarrow> observer option \<Rightarrow> delivery" where
  "fast_call m ob = Call (the (callback (the ob))) (f_topicId m) (Some (map (f_data m) [0..<unat (f_payloadSize m)]))
     (ucast (f_payloadSize m)) (userData (the ob))"

definition fast_deliveries :: "fast_message \<Rightarrow> delivery list" where
  "fast_deliveries m = map (\<lambda>i. fast_call m (f_observers m i)) [0..<unat (f_observerCount m)]"

definition emu_ok :: "emu_queue \<Rightarrow> bool" where
  "emu_ok q \<longleftrightarrow> ring_chan_ok (e_fastQueue q) (e_fastPool q) [] \<and> (\<forall>m \<in> set (ring_msgs (e_fastQueue q) (e_fastPool q)). fast_msg_ok m) \<and>
     mchan 8 (e_bulkQueue q) (e_bulkPool q) [] (e_world q) \<and> topics_ok 8 (e_topics q)"

definition emu_fast :: "emu_queue \<Rightarrow> delivery list list" where
  "emu_fast q = map fast_deliveries (ring_msgs (e_fastQueue q) (e_fastPool q))"

abbreviation emu_bulk :: "emu_queue \<Rightarrow> delivery list list" where
  "emu_bulk q \<equiv> mpending (e_bulkQueue q) (e_bulkPool q) (e_world q)"

text \<open>What dispatching leaves as it is: the topics, and capacity and push room of the lanes.\<close>

definition emu_frame :: "emu_queue \<Rightarrow> topic_table \<times> nat \<times> nat \<times> nat \<times> nat" where
  "emu_frame q = (e_topics q, capacity (e_fastQueue q), push_room (e_fastQueue q), capacity (e_bulkQueue q), push_room (e_bulkQueue q))"

abbreviation "emu_log q \<equiv> log (e_world q)"

abbreviation "emu_calls q \<equiv> topic_calls (e_topics q)"

lemma EMU_MAX_OBSERVERS_8 [simp]: "unat EMU_MAX_OBSERVERS = 8"
  by (simp add: EMU_MAX_OBSERVERS_def)

lemma length_emu_fast [simp]: "length (emu_fast q) = length (contents (e_fastQueue q))"
  by (simp add: emu_fast_def)

lemma emu_new_ok:
  assumes "C = 2 ^ k" and "1 \<le> k" and "k \<le> 61" and "D = 2 ^ l" and "1 \<le> l" and "l \<le> 61"
  shows "\<exists>q. emu_new C D = Inr q \<and> emu_ok q \<and> emu_fast q = [] \<and> emu_bulk q = [] \<and> emu_log q = [] \<and> e_topicCount q = 0 \<and>
    (\<forall>t. e_topics q t = no_observers \<and> e_priority q t = None) \<and> capacity (e_fastQueue q) = C \<and> capacity (e_bulkQueue q) = D \<and>
    push_room (e_fastQueue q) = 2 ^ 63 - 1 - C \<and> push_room (e_bulkQueue q) = 2 ^ 63 - 1 - D"
  using new_chan_ok [OF assms(1-3), of zero_fast_message 256 2048] new_mchan [OF assms(4-6), of 128 4096 8]
  by (auto simp: emu_new_def emu_ok_def emu_fast_def new_world_def)

section \<open>The operations keep the invariant and do what they promise\<close>

lemma mchan_log [simp]: "mchan k r p B (w\<lparr>log := l\<rparr>) = mchan k r p B w" "mpending r p (w\<lparr>log := l\<rparr>) = mpending r p w"
  by (simp_all add: mchan_def mpending_def)

lemma unat_small_u8:
  assumes "sz \<le> EMU_INLINE_MAX"
  shows "unat (ucast sz :: u8) = unat sz" and "ucast (ucast sz :: u8) = sz"
proof -
  have "unat sz \<le> 48" using assms by (simp add: EMU_INLINE_MAX_def word_le_nat_alt)
  then show *: "unat (ucast sz :: u8) = unat sz" by (simp add: unsigned_ucast_eq take_bit_nat_eq_self_iff)
  have "unat (ucast (ucast sz :: u8) :: u64) = unat (ucast sz :: u8)"
    by (simp add: unsigned_ucast_eq unsigned_take_bit_eq)
  then have "unat (ucast (ucast sz :: u8) :: u64) = unat sz" using * by (rule trans)
  then show "ucast (ucast sz :: u8) = sz" by (rule unsigned_word_eqI)
qed

lemma fill_fast_ok:
  assumes topics: "topics_ok 8 ts" and buf: "buffer_ok dat sz" and sz: "sz \<le> EMU_INLINE_MAX"
  shows "\<exists>m. fill_fast ts topic dat sz old w = Inr (m, w) \<and> fast_msg_ok m \<and> fast_deliveries m = expected_calls ts topic dat sz"
proof -
  let ?tp = "ts (unat topic)"
  let ?m = "old\<lparr>f_topicId := topic, f_observerCount := t_count ?tp, f_payloadSize := ucast sz,
      f_observers := (\<lambda>i. if i < unat (t_count ?tp) then t_observers ?tp i else f_observers old i)\<rparr>"
  let ?bytes = "take (unat sz) (buffer_bytes dat)"
  have "\<exists>d. fill_fast ts topic dat sz old w = Inr (?m\<lparr>f_data := d\<rparr>, w) \<and> map d [0..<unat sz] = map Some ?bytes"
  proof (cases "dat = None \<or> sz = 0")
    case True
    then have "fill_fast ts topic dat sz old w = Inr (?m\<lparr>f_data := f_data old\<rparr>, w)"
      by (cases dat) (simp_all add: fill_fast_def Let_def)
    moreover have "unat sz = 0" using True buf by (auto simp: buffer_ok_def buffer_bytes_def)
    ultimately show ?thesis by (intro exI [of _ "f_data old"]) simp
  next
    case False
    then obtain bs where bs: "dat = Some bs" "unat sz \<le> length bs" "0 < sz"
      using buf by (auto simp: buffer_ok_def buffer_bytes_def word_gt_0)
    let ?d = "\<lambda>i. if i < unat sz then Some (bs ! i) else f_data old i"
    have "fill_fast ts topic dat sz old w = Inr (?m\<lparr>f_data := ?d\<rparr>, w)"
      using bs by (simp add: fill_fast_def Let_def memcpy_array_def)
    moreover have "map ?d [0..<unat sz] = map Some ?bytes"
      using bs by (intro nth_equalityI) (simp_all add: buffer_bytes_def)
    ultimately show ?thesis by blast
  qed
  then obtain d where d: "fill_fast ts topic dat sz old w = Inr (?m\<lparr>f_data := d\<rparr>, w)" "map d [0..<unat sz] = map Some ?bytes" by blast
  have "fast_msg_ok (?m\<lparr>f_data := d\<rparr>)" using topics by (simp add: fast_msg_ok_def topics_ok_def)
  moreover have "fast_deliveries (?m\<lparr>f_data := d\<rparr>) = expected_calls ts topic dat sz"
    using d(2) by (simp add: fast_deliveries_def fast_call_def expected_calls_def expected_def unat_small_u8 [OF sz])
  ultimately show ?thesis using d(1) by blast
qed

lemma deliver_fast_loop_ok:
  assumes "i + k \<le> maxObs" and "\<And>j. i \<le> j \<Longrightarrow> j < i + k \<Longrightarrow> callable (f_observers m j)"
  shows "deliver_fast_loop maxObs m i k w = Inr (w\<lparr>log := log w @ map (\<lambda>j. fast_call m (f_observers m j)) [i..<i + k]\<rparr>)"
  using assms
proof (induction k arbitrary: i w)
  case 0
  then show ?case by simp
next
  case (Suc k)
  have "callable (f_observers m i)" using Suc.prems(2) [of i] by simp
  then have "call_fast_observer m (f_observers m i) w = Inr (w\<lparr>log := log w @ [fast_call m (f_observers m i)]\<rparr>)"
    by (auto simp: call_fast_observer_def callable_def fast_call_def)
  then show ?case using Suc.prems Suc.IH [of "Suc i"] by (simp add: upt_first del: upt_Suc)
qed

lemma deliver_fast_ok: "fast_msg_ok m \<Longrightarrow> deliver_fast 8 m w = Inr (w\<lparr>log := log w @ fast_deliveries m\<rparr>)"
  using deliver_fast_loop_ok [of 0 "unat (f_observerCount m)" 8 m w]
  by (simp add: deliver_fast_def fast_msg_ok_def fast_deliveries_def)

lemma emu_okD:
  assumes "emu_ok q"
  shows "ring_chan_ok (e_fastQueue q) (e_fastPool q) []" and "\<forall>m \<in> set (ring_msgs (e_fastQueue q) (e_fastPool q)). fast_msg_ok m"
    and "mchan 8 (e_bulkQueue q) (e_bulkPool q) [] (e_world q)" and "topics_ok 8 (e_topics q)"
  using assms by (simp_all add: emu_ok_def)

lemma emu_postFast_ok:
  assumes ok: "emu_ok q" and topic: "topic < EMU_MAX_TOPICS" and buf: "buffer_ok dat sz" and sz: "sz \<le> EMU_INLINE_MAX"
    and free: "length (emu_fast q) < capacity (e_fastQueue q)" and room: "0 < push_room (e_fastQueue q)"
  shows "\<exists>q'. emu_postFast q topic dat sz = ret (q', True) \<and> emu_ok q' \<and> emu_log q' = emu_log q \<and>
    emu_fast q' = emu_fast q @ emu_calls q (topic, dat, sz) \<and> emu_bulk q' = emu_bulk q \<and> e_topics q' = e_topics q \<and>
    e_bulkQueue q' = e_bulkQueue q \<and> capacity (e_fastQueue q') = capacity (e_fastQueue q) \<and>
    push_room (e_fastQueue q) \<le> push_room (e_fastQueue q') + 1"
proof (cases "t_count (e_topics q (unat topic)) = 0")
  case True
  then show ?thesis using ok topic sz by (simp add: emu_postFast_def leD not_le [symmetric])
next
  case False
  note D = emu_okD [OF ok]
  note fill = fill_fast_ok [where topic = topic, OF D(4) buf sz]
  let ?mk = "fill_fast (e_topics q) topic dat sz"
  have mk: "\<exists>m w1. ?mk old (e_world q) = Inr (m, w1)" for old using fill [of old "e_world q"] by blast
  have "length (contents (e_fastQueue q)) < capacity (e_fastQueue q)" using free by simp
  from chan.send_ok [where mk = ?mk and w = "e_world q", OF D(1) this room mk, of zero_fast_message]
  obtain r p w old m where s: "chan_send (acquire zero_fast_message) obj_read obj_write try_push ?mk (e_fastQueue q) (e_fastPool q)
      (e_world q) = ret (r, p, w)" "?mk old (e_world q) = Inr (m, w)" "ring_chan_ok r p []"
    "ring_msgs r p = ring_msgs (e_fastQueue q) (e_fastPool q) @ [m]" "capacity r = capacity (e_fastQueue q)"
    "push_room r = push_room (e_fastQueue q) - 1" by blast
  have m: "w = e_world q" "fast_msg_ok m" "fast_deliveries m = expected_calls (e_topics q) topic dat sz"
    using fill [of old "e_world q"] s(2) by auto
  let ?q = "q\<lparr>e_fastQueue := r, e_fastPool := p, e_world := w\<rparr>"
  have "emu_postFast q topic dat sz = ret (?q, True)"
    using topic sz False s(1) by (simp add: emu_postFast_def not_le [symmetric])
  moreover have "emu_ok ?q" using D s(3,4) m(1,2) by (simp add: emu_ok_def)
  moreover have "emu_fast ?q = emu_fast q @ emu_calls q (topic, dat, sz)" using s(4) m(3) False by (simp add: emu_fast_def)
  ultimately show ?thesis using m(1) s(5,6) by (intro exI [of _ ?q]) simp
qed

lemma emu_postBulk_ok:
  assumes ok: "emu_ok q" and topic: "topic < EMU_MAX_TOPICS" and buf: "buffer_ok dat sz"
    and free: "length (emu_bulk q) < capacity (e_bulkQueue q)" and room: "0 < push_room (e_bulkQueue q)"
  shows "\<exists>q'. emu_postBulk q topic dat sz = ret (q', True) \<and> emu_ok q' \<and> emu_log q' = emu_log q \<and>
    emu_bulk q' = emu_bulk q @ emu_calls q (topic, dat, sz) \<and> emu_fast q' = emu_fast q \<and> e_topics q' = e_topics q \<and>
    e_fastQueue q' = e_fastQueue q \<and> capacity (e_bulkQueue q') = capacity (e_bulkQueue q) \<and>
    push_room (e_bulkQueue q) \<le> push_room (e_bulkQueue q') + 1"
proof (cases "t_count (e_topics q (unat topic)) = 0")
  case True
  then show ?thesis using ok topic by (simp add: emu_postBulk_def not_le [symmetric])
next
  case False
  note D = emu_okD [OF ok]
  obtain r p w where s: "send_message (e_topics q) topic dat sz (e_bulkQueue q) (e_bulkPool q) (e_world q) = ret (r, p, w)"
    "mchan 8 r p [] w" "log w = emu_log q" "mpending r p w = emu_bulk q @ [expected_calls (e_topics q) topic dat sz]"
    "capacity r = capacity (e_bulkQueue q)" "push_room r = push_room (e_bulkQueue q) - 1"
    using send_message_ok [OF D(3,4) buf False] free room by auto
  let ?q = "q\<lparr>e_bulkQueue := r, e_bulkPool := p, e_world := w\<rparr>"
  have "emu_postBulk q topic dat sz = ret (?q, True)"
    using topic False s(1) by (simp add: emu_postBulk_def not_le [symmetric])
  then show ?thesis using s D False by (intro exI [of _ ?q]) (simp add: emu_ok_def emu_fast_def)
qed

lemma emu_dispatchFast_empty:
  assumes "emu_ok q" and "emu_fast q = []"
  shows "emu_dispatchFast q = ret (q, False)"
proof -
  have "ring_msgs (e_fastQueue q) (e_fastPool q) = []" using assms(2) by (simp add: emu_fast_def)
  from chan.receive_empty [OF emu_okD(1) [OF assms(1)] this, of "deliver_fast 8" "e_world q"]
  show ?thesis by (simp add: emu_dispatchFast_def)
qed

lemma emu_dispatchFast_ok:
  assumes ok: "emu_ok q" and pending: "emu_fast q = d # ds"
  shows "\<exists>q'. emu_dispatchFast q = ret (q', True) \<and> emu_ok q' \<and> emu_fast q' = ds \<and> emu_bulk q' = emu_bulk q \<and>
    emu_log q' = emu_log q @ d \<and> emu_frame q' = emu_frame q"
proof -
  note D = emu_okD [OF ok]
  obtain m ms where m: "ring_msgs (e_fastQueue q) (e_fastPool q) = m # ms" "d = fast_deliveries m" "ds = map fast_deliveries ms"
    using pending by (auto simp: emu_fast_def)
  let ?w = "(e_world q)\<lparr>log := emu_log q @ d\<rparr>"
  have "deliver_fast 8 m (e_world q) = Inr ?w" using D(2) m(1,2) deliver_fast_ok by simp
  from chan.receive_ok [where use = "deliver_fast 8", OF D(1) m(1) this] obtain r p where
    r: "chan_receive try_pop obj_read (\<lambda>p n. release p (Some n)) (deliver_fast 8) (e_fastQueue q) (e_fastPool q) (e_world q) =
      ret (r, p, ?w, True)" "ring_chan_ok r p []" "ring_msgs r p = ms" "capacity r = capacity (e_fastQueue q)"
    "push_room r = push_room (e_fastQueue q)" by blast
  let ?q = "q\<lparr>e_fastQueue := r, e_fastPool := p, e_world := ?w\<rparr>"
  have "emu_dispatchFast q = ret (?q, True)" using r(1) by (simp add: emu_dispatchFast_def)
  moreover have "emu_ok ?q" using D r(2,3) m(1) by (simp add: emu_ok_def)
  moreover have "emu_fast ?q = ds" using r(3) m(3) by (simp add: emu_fast_def)
  moreover have "emu_frame ?q = emu_frame q" using r(4,5) by (simp add: emu_frame_def)
  ultimately show ?thesis by (intro exI [of _ ?q]) simp
qed

lemma emu_dispatchBulk_empty:
  "emu_ok q \<Longrightarrow> emu_bulk q = [] \<Longrightarrow> emu_dispatchBulk q = ret (q, False)"
  using receive_message_empty [of 8 "e_bulkQueue q" "e_bulkPool q" "[]" "e_world q"]
  by (simp add: emu_dispatchBulk_def emu_ok_def)

lemma emu_dispatchBulk_ok:
  assumes ok: "emu_ok q" and pending: "emu_bulk q = d # ds"
  shows "\<exists>q'. emu_dispatchBulk q = ret (q', True) \<and> emu_ok q' \<and> emu_bulk q' = ds \<and> emu_fast q' = emu_fast q \<and>
    emu_log q' = emu_log q @ d \<and> emu_frame q' = emu_frame q"
  using receive_message_ok [OF emu_okD(3) [OF ok] pending] ok
  by (auto simp: emu_dispatchBulk_def emu_ok_def emu_fast_def emu_frame_def)

text \<open>Each lane is a dispatcher that leaves the other lane alone.\<close>

interpretation fast_lane: dispatcher emu_dispatchFast "\<lambda>q. emu_ok q \<and> emu_bulk q = B \<and> emu_frame q = fr" emu_fast emu_log
proof
  show "\<exists>q'. emu_dispatchFast q = ret (q', True) \<and> (emu_ok q' \<and> emu_bulk q' = B \<and> emu_frame q' = fr) \<and> emu_fast q' = ds \<and> emu_log q' = emu_log q @ d"
    if "emu_ok q \<and> emu_bulk q = B \<and> emu_frame q = fr" "emu_fast q = d # ds" for q d ds
    using emu_dispatchFast_ok [of q d ds] that by auto
qed (simp add: emu_dispatchFast_empty)

interpretation bulk_lane: dispatcher emu_dispatchBulk "\<lambda>q. emu_ok q \<and> emu_fast q = F \<and> emu_frame q = fr" emu_bulk emu_log
proof
  show "\<exists>q'. emu_dispatchBulk q = ret (q', True) \<and> (emu_ok q' \<and> emu_fast q' = F \<and> emu_frame q' = fr) \<and> emu_bulk q' = ds \<and> emu_log q' = emu_log q @ d"
    if "emu_ok q \<and> emu_fast q = F \<and> emu_frame q = fr" "emu_bulk q = d # ds" for q d ds
    using emu_dispatchBulk_ok [of q d ds] that by auto
qed (simp add: emu_dispatchBulk_empty)

section \<open>The ratio\<close>

fun ratio_order :: "nat \<Rightarrow> nat \<Rightarrow> 'a list \<Rightarrow> 'b list \<Rightarrow> ('a + 'b) list" where
  "ratio_order n fc [] [] = []"
| "ratio_order n fc (f # fs) [] = Inl f # ratio_order n (Suc fc) fs []"
| "ratio_order n fc [] (b # bs) = Inr b # ratio_order n 0 [] bs"
| "ratio_order n fc (f # fs) (b # bs) =
     (if fc < n then Inl f # ratio_order n (Suc fc) fs (b # bs) else Inr b # ratio_order n 0 (f # fs) bs)"

definition lefts :: "('a + 'b) list \<Rightarrow> 'a list" where
  "lefts xs = concat (map (case_sum (\<lambda>f. [f]) (\<lambda>_. [])) xs)"

definition rights :: "('a + 'b) list \<Rightarrow> 'b list" where
  "rights xs = concat (map (case_sum (\<lambda>_. []) (\<lambda>b. [b])) xs)"

definition merged :: "('a + 'a) list \<Rightarrow> 'a list" where
  "merged xs = map (case_sum id id) xs"

lemma ratio_order_complete: "lefts (ratio_order n fc F B) = F \<and> rights (ratio_order n fc F B) = B"
  by (induction n fc F B rule: ratio_order.induct) (simp_all add: lefts_def rights_def)

lemma ratio_order_bound:
  fixes F :: "'a list" and B :: "'b list"
  assumes "j < length B"
  shows "\<exists>pre post. ratio_order n fc F B = pre @ Inr (B ! j) # post \<and> length pre \<le> j + (n - fc) + j * n"
  using assms
proof (induction n fc F B arbitrary: j rule: ratio_order.induct)
  case (3 n fc b bs)
  show ?case
  proof (cases j)
    case 0
    then show ?thesis by (intro exI [of _ "[]"] exI [of _ "ratio_order n 0 [] bs"]) simp
  next
    case (Suc i)
    then obtain pre post :: "('a + 'b) list" where "ratio_order n 0 [] bs = pre @ Inr (bs ! i) # post" "length pre \<le> i + (n - 0) + i * n"
      using "3.IH" [of i] "3.prems" by auto
    with Suc show ?thesis by (intro exI [of _ "Inr b # pre"] exI [of _ post]) simp
  qed
next
  case (4 n fc f fs b bs)
  show ?case
  proof (cases "fc < n")
    case True
    then obtain pre post where "ratio_order n (Suc fc) fs (b # bs) = pre @ Inr ((b # bs) ! j) # post"
      "length pre \<le> j + (n - Suc fc) + j * n"
      using 4 by blast
    with True show ?thesis by (intro exI [of _ "Inl f # pre"] exI [of _ post]) simp
  next
    case False
    show ?thesis
    proof (cases j)
      case 0
      with False show ?thesis by (intro exI [of _ "[]"] exI [of _ "ratio_order n 0 (f # fs) bs"]) simp
    next
      case (Suc i)
      then obtain pre post where "ratio_order n 0 (f # fs) bs = pre @ Inr (bs ! i) # post" "length pre \<le> i + (n - 0) + i * n"
        using "4.IH"(2) [OF False, of i] "4.prems" by auto
      with Suc False show ?thesis by (intro exI [of _ "Inr b # pre"] exI [of _ post]) simp
    qed
  qed
qed simp_all

lemma ratio_loop_ok:
  assumes "emu_ok q" and "emu_fast q = F" and "emu_bulk q = B" and "unat fc + length F < 2 ^ 64"
  shows "\<exists>q'. ratio_loop k (q, c, fc) = ret (q', c + of_nat (length F + length B)) \<and> emu_ok q' \<and> emu_fast q' = [] \<and>
    emu_bulk q' = [] \<and> emu_log q' = emu_log q @ concat (merged (ratio_order (unat k) (unat fc) F B))"
  using assms
proof (induction "length F + length B" arbitrary: q c fc F B rule: less_induct)
  case less
  note ok = less.prems(1)
  note IH = less.hyps [rule_format]
  show ?case
  proof (cases "F = [] \<and> B = []")
    case True
    have "ratio_loop k (q, c, fc) = ret (q, c)"
      using True less.prems emu_dispatchFast_empty [OF ok] emu_dispatchBulk_empty [OF ok]
      by (subst ratio_loop.simps) simp
    then show ?thesis using True less.prems by (simp add: merged_def)
  next
    case False
    show ?thesis
    proof (cases "F \<noteq> [] \<and> (B = [] \<or> fc < k)")
      case True
      then obtain d ds where F: "F = d # ds" by (cases F) auto
      obtain q1 where q1: "emu_dispatchFast q = ret (q1, True)" "emu_ok q1" "emu_fast q1 = ds" "emu_bulk q1 = B"
        "emu_log q1 = emu_log q @ d"
        using emu_dispatchFast_ok [OF ok, of d ds] less.prems(2,3) F by auto
      have fc: "unat (fc + 1) = Suc (unat fc)" using less.prems(4) F by (simp add: unat_word_ariths)
      have step: "ratio_loop k (q, c, fc) = ratio_loop k (q1, c + 1, fc + 1)"
      proof (cases "fc < k")
        case True
        then show ?thesis using q1(1) by (subst ratio_loop.simps) simp
      next
        case False
        then have "emu_dispatchBulk q = ret (q, False)" using True emu_dispatchBulk_empty [OF ok] less.prems(3) by simp
        then show ?thesis using False q1(1) by (subst ratio_loop.simps) simp
      qed
      have "ratio_order (unat k) (unat fc) F B = Inl d # ratio_order (unat k) (unat (fc + 1)) ds B"
        using True by (cases B) (simp_all add: F fc word_less_nat_alt)
      then show ?thesis
        using IH [of ds B q1 "fc + 1" "c + 1"] q1 less.prems(4) by (simp add: step F fc merged_def add.assoc)
    next
      case bulk: False
      then obtain b bs where B: "B = b # bs" using False by (cases B) auto
      obtain q1 where q1: "emu_dispatchBulk q = ret (q1, True)" "emu_ok q1" "emu_bulk q1 = bs" "emu_fast q1 = F"
        "emu_log q1 = emu_log q @ b"
        using emu_dispatchBulk_ok [OF ok, of b bs] less.prems(2,3) B by auto
      have fast: "(if fc < k then emu_dispatchFast q else ret (q, False)) = ret (q, False)"
        using bulk B emu_dispatchFast_empty [OF ok] less.prems(2) by auto
      have step: "ratio_loop k (q, c, fc) = ratio_loop k (q1, c + 1, 0)"
        by (subst ratio_loop.simps) (simp only: fst_conv snd_conv Let_def fast rbind_simps if_False q1(1) if_True)
      have "ratio_order (unat k) (unat fc) F B = Inr b # ratio_order (unat k) 0 F bs"
        using bulk B by (cases F) (simp_all add: word_less_nat_alt)
      then show ?thesis
        using IH [of F bs q1 0 "c + 1"] q1 less.prems(4) by (simp add: step B merged_def add.assoc)
    qed
  qed
qed

section \<open>Properties\<close>

text \<open>
  C31. \<open>dispatchRatio(n)\<close> starves nobody: it returns, delivers every message of both lanes and
  counts them, keeps the order within each lane, and delivers the \<open>j\<close>-th bulk message (from
  zero) after at most \<open>j\<close> bulk and \<open>(j + 1) * n\<close> fast messages, however many fast ones wait.
\<close>

theorem emu_dispatchRatio_spec:
  assumes "emu_ok q" and "length (emu_fast q) < 2 ^ 63"
  shows "\<exists>q' order. emu_dispatchRatio q n = ret (q', of_nat (length (emu_fast q) + length (emu_bulk q))) \<and>
    emu_log q' = emu_log q @ concat (merged order) \<and> lefts order = emu_fast q \<and> rights order = emu_bulk q \<and>
    (\<forall>j < length (emu_bulk q). \<exists>pre post. order = pre @ Inr (emu_bulk q ! j) # post \<and> length pre \<le> j + (j + 1) * unat n) \<and>
    emu_fast q' = [] \<and> emu_bulk q' = []"
proof -
  let ?order = "ratio_order (unat n) 0 (emu_fast q) (emu_bulk q)"
  have "unat (0 :: u64) + length (emu_fast q) < 2 ^ 64" using assms(2) by simp
  from ratio_loop_ok [OF assms(1) refl refl this, of n 0] obtain q' where
    "ratio_loop n (q, 0, 0) = ret (q', 0 + of_nat (length (emu_fast q) + length (emu_bulk q)))" "emu_fast q' = []" "emu_bulk q' = []"
    "emu_log q' = emu_log q @ concat (merged ?order)" by auto
  moreover have "\<exists>pre post. ?order = pre @ Inr (emu_bulk q ! j) # post \<and> length pre \<le> j + (j + 1) * unat n"
    if "j < length (emu_bulk q)" for j
    using ratio_order_bound [OF that, of "unat n" 0 "emu_fast q"] by (simp add: add.assoc)
  ultimately show ?thesis
    using ratio_order_complete [of "unat n" 0 "emu_fast q" "emu_bulk q"]
    unfolding emu_dispatchRatio_def add_0 by blast
qed

lemma emu_new_2:
  "\<exists>q. emu_new 2 2 = Inr q \<and> emu_ok q \<and> emu_fast q = [] \<and> emu_bulk q = [] \<and> emu_log q = [] \<and> e_topicCount q = 0 \<and>
     (\<forall>t. e_topics q t = no_observers \<and> e_priority q t = None) \<and> capacity (e_fastQueue q) = 2 \<and> capacity (e_bulkQueue q) = 2 \<and>
     push_room (e_fastQueue q) = 2 ^ 63 - 3 \<and> push_room (e_bulkQueue q) = 2 ^ 63 - 3"
  using emu_new_ok [of 2 1 2 1] by auto

text \<open>A queue with one observer of topic 0 and a message in each lane, for the witnesses.\<close>

lemma emu_two_pending:
  "\<exists>q. emu_ok q \<and> emu_log q = [] \<and> emu_fast q = [[Call 7 0 (Some [Some 1]) 1 9]] \<and> emu_bulk q = [[Call 7 0 (Some [Some 2]) 1 9]]"
proof -
  obtain q where q: "emu_ok q" "emu_fast q = []" "emu_bulk q = []" "emu_log q = []" "\<forall>t. e_topics q t = no_observers"
    "capacity (e_fastQueue q) = 2" "capacity (e_bulkQueue q) = 2" "push_room (e_fastQueue q) = 2 ^ 63 - 3"
    "push_room (e_bulkQueue q) = 2 ^ 63 - 3" using emu_new_2 by blast
  let ?ts = "fst (add_observer EMU_MAX_TOPICS EMU_MAX_OBSERVERS (e_topics q) 0 (Some 7) 9)"
  let ?q = "q\<lparr>e_topics := ?ts\<rparr>"
  have "topics_ok 8 ?ts"
    using add_observer_ok [of EMU_MAX_OBSERVERS "e_topics q" "Some 7" EMU_MAX_TOPICS 0 9] q(1)
    by (simp add: emu_ok_def EMU_MAX_OBSERVERS_def)
  then have ok: "emu_ok ?q" "emu_fast ?q = []" using q(1,2) by (simp_all add: emu_ok_def emu_fast_def)
  have calls: "topic_calls ?ts (0, Some [x], 1) = [[Call 7 0 (Some [Some x]) 1 9]]" for x
    by (simp add: add_observer_def EMU_MAX_TOPICS_def EMU_MAX_OBSERVERS_def q(5) no_observers_def expected_calls_def
        expected_def buffer_bytes_def)
  have buf: "buffer_ok (Some [x]) 1" "(0 :: u16) < EMU_MAX_TOPICS" "1 \<le> EMU_INLINE_MAX" for x
    by (simp_all add: buffer_ok_def buffer_bytes_def EMU_MAX_TOPICS_def EMU_INLINE_MAX_def)
  obtain q1 where q1: "emu_ok q1" "emu_log q1 = []" "emu_fast q1 = [[Call 7 0 (Some [Some 1]) 1 9]]" "emu_bulk q1 = []"
    "e_topics q1 = ?ts" "e_bulkQueue q1 = e_bulkQueue q"
    using emu_postFast_ok [OF ok(1) buf(2) buf(1) [of 1] buf(3)] ok(2) q calls [of 1] by auto
  have free: "length (emu_bulk q1) < capacity (e_bulkQueue q1)"
    unfolding q1(4) by (simp add: q1(6) q(7))
  obtain q2 where "emu_ok q2" "emu_log q2 = []" "emu_fast q2 = [[Call 7 0 (Some [Some 1]) 1 9]]"
    "emu_bulk q2 = [[Call 7 0 (Some [Some 2]) 1 9]]"
    using emu_postBulk_ok [OF q1(1) buf(2) buf(1) [of 2] free] q1 q calls [of 2] by auto
  then show ?thesis by blast
qed

theorem emu_dispatchRatio_spec_witness:
  "\<exists>q q' order. emu_bulk q = [[Call 7 0 (Some [Some 2]) 1 9]] \<and> emu_dispatchRatio q 1 = ret (q', 2) \<and>
     emu_log q' = concat (merged order) \<and> rights order = [[Call 7 0 (Some [Some 2]) 1 9]]"
proof -
  obtain q where q: "emu_ok q" "emu_log q = []" "emu_fast q = [[Call 7 0 (Some [Some 1]) 1 9]]"
    "emu_bulk q = [[Call 7 0 (Some [Some 2]) 1 9]]" using emu_two_pending by blast
  have "length (emu_fast q) < 2 ^ 63" by (simp only: q(3)) simp
  from emu_dispatchRatio_spec [OF q(1) this, of 1] obtain q' order where "emu_dispatchRatio q 1 = ret (q', 2)"
    "emu_log q' = concat (merged order)" "rights order = [[Call 7 0 (Some [Some 2]) 1 9]]" unfolding q by auto
  with q(4) show ?thesis by blast
qed

text \<open>The two dispatchers that drain the fast lane first.\<close>

lemma emu_drain_fast:
  assumes "emu_ok q"
  shows "\<exists>q1. while_count emu_dispatchFast (q, 0) = ret (q1, of_nat (length (emu_fast q))) \<and> emu_ok q1 \<and> emu_fast q1 = [] \<and>
    emu_bulk q1 = emu_bulk q \<and> emu_frame q1 = emu_frame q \<and> emu_log q1 = emu_log q @ concat (emu_fast q)"
  using fast_lane.drain_ok [of q "emu_bulk q" "emu_frame q"] assms by blast

lemma emu_dispatchAll_ok:
  assumes "emu_ok q"
  shows "\<exists>q'. emu_dispatchAll q = ret (q', of_nat (length (emu_fast q)) + of_nat (length (emu_bulk q))) \<and> emu_ok q' \<and>
    emu_fast q' = [] \<and> emu_bulk q' = [] \<and> emu_frame q' = emu_frame q \<and>
    emu_log q' = emu_log q @ concat (emu_fast q) @ concat (emu_bulk q)"
proof -
  obtain q1 where q1: "while_count emu_dispatchFast (q, 0) = ret (q1, of_nat (length (emu_fast q)))" "emu_ok q1" "emu_fast q1 = []"
    "emu_bulk q1 = emu_bulk q" "emu_frame q1 = emu_frame q" "emu_log q1 = emu_log q @ concat (emu_fast q)"
    using emu_drain_fast [OF assms] by blast
  obtain q2 where q2: "while_count emu_dispatchBulk (q1, of_nat (length (emu_fast q))) =
      ret (q2, of_nat (length (emu_fast q)) + of_nat (length (emu_bulk q1)))" "emu_ok q2" "emu_fast q2 = []" "emu_bulk q2 = []"
    "emu_frame q2 = emu_frame q1" "emu_log q2 = emu_log q1 @ concat (emu_bulk q1)"
    using bulk_lane.drain_from_ok [of q1 "[]" "emu_frame q1"] q1(2,3) by blast
  have "emu_dispatchAll q = ret (q2, of_nat (length (emu_fast q)) + of_nat (length (emu_bulk q)))"
    "emu_log q2 = emu_log q @ concat (emu_fast q) @ concat (emu_bulk q)"
    using q1(1) q2(1,6) unfolding q1(4,6) by (simp_all add: emu_dispatchAll_def)
  then show ?thesis using q1(5) q2(2-5) by auto
qed

lemma emu_dispatchPriority_ok:
  assumes "emu_ok q"
  shows "\<exists>q'. emu_dispatchPriority q = ret (q', of_nat (length (emu_fast q)) + (if emu_bulk q = [] then 0 else 1)) \<and> emu_ok q' \<and>
    emu_fast q' = [] \<and> emu_bulk q' = tl (emu_bulk q) \<and> emu_frame q' = emu_frame q \<and>
    emu_log q' = emu_log q @ concat (emu_fast q) @ concat (take 1 (emu_bulk q))"
proof -
  obtain q1 where q1: "while_count emu_dispatchFast (q, 0) = ret (q1, of_nat (length (emu_fast q)))" "emu_ok q1" "emu_fast q1 = []"
    "emu_bulk q1 = emu_bulk q" "emu_frame q1 = emu_frame q" "emu_log q1 = emu_log q @ concat (emu_fast q)"
    using emu_drain_fast [OF assms] by blast
  show ?thesis
  proof (cases "emu_bulk q")
    case Nil
    then have "emu_dispatchBulk q1 = ret (q1, False)" using emu_dispatchBulk_empty [OF q1(2)] q1(4) by simp
    then show ?thesis using q1 Nil by (simp add: emu_dispatchPriority_def)
  next
    case (Cons b bs)
    then obtain q3 where "emu_dispatchBulk q1 = ret (q3, True)" "emu_ok q3" "emu_bulk q3 = bs" "emu_fast q3 = []"
      "emu_frame q3 = emu_frame q1" "emu_log q3 = emu_log q1 @ b"
      using emu_dispatchBulk_ok [OF q1(2), of b bs] q1(3,4) by auto
    then show ?thesis using q1 Cons by (simp add: emu_dispatchPriority_def)
  qed
qed

text \<open>
  C34. Routing: \<open>post\<close> puts an event of a critical topic into the fast lane, and rejects it if it
  has more than 48 bytes; an event of a normal topic goes to the bulk lane, whatever its
  size. The other lane stays as it is. Posting to a topic that was never registered reads
  an uninitialised priority.
\<close>

theorem emu_post_routing:
  assumes ok: "emu_ok q" and topic: "topic < EMU_MAX_TOPICS" and buf: "buffer_ok dat sz"
    and fast: "length (emu_fast q) < capacity (e_fastQueue q)" "0 < push_room (e_fastQueue q)"
    and bulk: "length (emu_bulk q) < capacity (e_bulkQueue q)" "0 < push_room (e_bulkQueue q)"
  shows "case e_priority q (unat topic) of
      None \<Rightarrow> emu_post q topic dat sz = Some (Inl UninitRead)
    | Some Critical \<Rightarrow>
        if EMU_INLINE_MAX < sz then emu_post q topic dat sz = ret (q, False)
        else \<exists>q'. emu_post q topic dat sz = ret (q', True) \<and> emu_ok q' \<and> emu_fast q' = emu_fast q @ emu_calls q (topic, dat, sz) \<and>
          emu_bulk q' = emu_bulk q \<and> emu_log q' = emu_log q
    | Some Normal \<Rightarrow>
        \<exists>q'. emu_post q topic dat sz = ret (q', True) \<and> emu_ok q' \<and> emu_bulk q' = emu_bulk q @ emu_calls q (topic, dat, sz) \<and>
          emu_fast q' = emu_fast q \<and> emu_log q' = emu_log q"
proof -
  have post: "emu_post q topic dat sz = (case e_priority q (unat topic) of None \<Rightarrow> Some (Inl UninitRead)
      | Some Critical \<Rightarrow> if sz \<le> EMU_INLINE_MAX then emu_postFast q topic dat sz else ret (q, False)
      | Some Normal \<Rightarrow> emu_postBulk q topic dat sz)"
    using topic by (simp add: emu_post_def not_le [symmetric])
  show ?thesis
  proof (cases "e_priority q (unat topic)")
    case None
    then show ?thesis by (simp add: post)
  next
    case (Some pr)
    show ?thesis
    proof (cases pr)
      case Critical
      then show ?thesis using Some emu_postFast_ok [OF ok topic buf _ fast] by (auto simp: post not_less)
    next
      case Normal
      then show ?thesis using Some emu_postBulk_ok [OF ok topic buf bulk] by (auto simp: post)
    qed
  qed
qed

theorem emu_post_routing_witness:
  "\<exists>q. emu_new 2 2 = Inr q \<and> emu_post q 5 None 0 = Some (Inl UninitRead)"
proof -
  obtain q where q: "emu_new 2 2 = Inr q" "emu_ok q" "emu_fast q = []" "emu_bulk q = []"
    "\<forall>t. e_topics q t = no_observers \<and> e_priority q t = None" "capacity (e_fastQueue q) = 2" "capacity (e_bulkQueue q) = 2"
    "push_room (e_fastQueue q) = 2 ^ 63 - 3" "push_room (e_bulkQueue q) = 2 ^ 63 - 3" using emu_new_2 by blast
  have "(5 :: u16) < EMU_MAX_TOPICS" "buffer_ok None 0" "length (emu_fast q) < capacity (e_fastQueue q)" "0 < push_room (e_fastQueue q)"
    "length (emu_bulk q) < capacity (e_bulkQueue q)" "0 < push_room (e_bulkQueue q)"
    unfolding q by (simp_all add: EMU_MAX_TOPICS_def buffer_ok_def buffer_bytes_def)
  from emu_post_routing [OF q(2) this] q(1,5) show ?thesis by auto
qed

text \<open>Several registrations in a row.\<close>

fun emu_register_all :: "emu_queue \<Rightarrow> topic_priority list \<Rightarrow> emu_queue \<times> u16 list" where
  "emu_register_all q [] = (q, [])"
| "emu_register_all q (p # ps) =
     (let (q1, id) = emu_registerTopic q p; (q2, ids) = emu_register_all q1 ps in (q2, id # ids))"

lemma emu_register_all_from:
  assumes "e_topicCount q = of_nat c" and "c \<le> 256"
  shows "snd (emu_register_all q ps) = map (\<lambda>i. if i < 256 then of_nat i else UINT16_MAX) [c..<c + length ps] \<and>
    (\<forall>i < 256. e_priority (fst (emu_register_all q ps)) i =
      (if c \<le> i \<and> i < c + length ps then Some (ps ! (i - c)) else e_priority q i))"
  using assms
proof (induction ps arbitrary: q c)
  case Nil
  then show ?case by (auto simp: not_less)
next
  case (Cons p ps)
  have c: "unat (of_nat c :: u16) = c" using Cons.prems(2) by (simp add: unat_of_nat take_bit_nat_eq_self_iff)
  have reg: "snd (emu_register_all q (p # ps)) = snd (emu_registerTopic q p) # snd (emu_register_all (fst (emu_registerTopic q p)) ps)"
    "fst (emu_register_all q (p # ps)) = fst (emu_register_all (fst (emu_registerTopic q p)) ps)"
    by (simp_all add: split_def Let_def)
  show ?case
  proof (cases "c < 256")
    case True
    then have guard: "\<not> EMU_MAX_TOPICS \<le> of_nat c" using c by (simp add: EMU_MAX_TOPICS_def word_le_nat_alt)
    let ?q = "q\<lparr>e_topicCount := of_nat c + 1, e_priority := (e_priority q)(c := Some p)\<rparr>"
    have 1: "emu_registerTopic q p = (?q, of_nat c)" using guard Cons.prems(1) c by (simp add: emu_registerTopic_def Let_def)
    have "e_topicCount ?q = of_nat (Suc c)" "Suc c \<le> 256" using True by (simp_all add: add.commute)
    note IH = Cons.IH [OF this]
    have "[c..<c + length (p # ps)] = c # [Suc c..<Suc c + length ps]" using upt_first [of c "length ps"] by simp
    then have "snd (emu_register_all q (p # ps)) =
        map (\<lambda>i. if i < 256 then of_nat i else UINT16_MAX) [c..<c + length (p # ps)]"
      unfolding reg 1 using IH True by simp
    moreover have "e_priority (fst (emu_register_all q (p # ps))) i =
        (if c \<le> i \<and> i < c + length (p # ps) then Some ((p # ps) ! (i - c)) else e_priority q i)" if "i < 256" for i
      unfolding reg 1 using IH that by (auto simp: nth_Cons' not_less_eq_eq)
    ultimately show ?thesis by blast
  next
    case False
    then have 256: "c = 256" using Cons.prems(2) by simp
    have "emu_registerTopic q p = (q, UINT16_MAX)"
      using Cons.prems(1) by (simp add: emu_registerTopic_def Let_def EMU_MAX_TOPICS_def 256)
    moreover have "[256..<256 + length (p # ps)] = 256 # [Suc 256..<Suc 256 + length ps]"
      using upt_first [of 256 "length ps"] by simp
    moreover have "map (\<lambda>i. if i < 256 then of_nat i else UINT16_MAX) [Suc 256..<Suc 256 + length ps] =
        map (\<lambda>i. if i < 256 then of_nat i else UINT16_MAX) [256..<256 + length ps]"
      by (intro nth_equalityI) simp_all
    ultimately show ?thesis
      unfolding reg using Cons.IH [OF Cons.prems] 256 by simp
  qed
qed

text \<open>
  Topic ids of the emulator queue: since \<open>registerTopic\<close> takes the counter back when it is
  full, the \<open>n\<close>-th call returns \<open>n\<close> for \<open>n < 256\<close> and \<open>UINT16_MAX\<close> ever after, so that no id
  is given out twice, and the priority of the topic is the one registered.
\<close>

theorem emu_topic_ids:
  assumes "e_topicCount q = 0"
  shows "snd (emu_register_all q ps) = map (\<lambda>n. if n < 256 then of_nat n else UINT16_MAX) [0..<length ps] \<and>
    (\<forall>n < min 256 (length ps). e_priority (fst (emu_register_all q ps)) n = Some (ps ! n))"
  using emu_register_all_from [of q 0 ps] assms by simp

theorem emu_topic_ids_witness:
  "\<exists>q. emu_new 2 2 = Inr q \<and> snd (emu_register_all q [Critical, Normal]) = [0, 1]"
proof -
  obtain q where "emu_new 2 2 = Inr q" "e_topicCount q = 0" using emu_new_2 by blast
  with conjunct1 [OF emu_topic_ids [of q "[Critical, Normal]"]] show ?thesis by auto
qed

text \<open>The ids of \<open>EmuTopics\<close> are those that the topics get when they are registered in this order on a new queue.\<close>

definition VBLANK :: u16 where "VBLANK = 0"
definition AUDIO_SYNC :: u16 where "AUDIO_SYNC = 1"
definition INPUT_KEY :: u16 where "INPUT_KEY = 2"
definition INPUT_JOY :: u16 where "INPUT_JOY = 3"
definition FRAME_READY :: u16 where "FRAME_READY = 4"
definition CPU_TRACE :: u16 where "CPU_TRACE = 5"
definition MEM_TRACE :: u16 where "MEM_TRACE = 6"
definition STATE_SAVE :: u16 where "STATE_SAVE = 7"
definition SCREENSHOT :: u16 where "SCREENSHOT = 8"

lemma emu_predefined_topics:
  assumes "e_topicCount q = 0" and "length ps = 9"
  shows "snd (emu_register_all q ps) =
    [VBLANK, AUDIO_SYNC, INPUT_KEY, INPUT_JOY, FRAME_READY, CPU_TRACE, MEM_TRACE, STATE_SAVE, SCREENSHOT]"
  using emu_register_all_from [of q 0 ps] assms
  by (simp add: VBLANK_def AUDIO_SYNC_def INPUT_KEY_def INPUT_JOY_def FRAME_READY_def CPU_TRACE_def MEM_TRACE_def STATE_SAVE_def
      SCREENSHOT_def upt_rec)

end
