(* ===== verification/Queue_Broadcast.thy ===== *)
theory Queue_Broadcast
  imports Event_Contract
begin

text \<open>
  \<open>src/eventqueue_broadcast.h\<close>, class \<open>EventQueueBroadcast\<close>: topics by name, observers that
  are \<open>std::function\<close>s in a copy-on-write list per topic, and messages without a snapshot:
  a dispatch calls the observers registered at that time, while the references of a large
  payload were counted when the message was posted.

  An observer list is \<open>None\<close> while the shared pointer is null; an element is \<open>None\<close> if the function
  object is empty. Calls are logged with user data 0. \<open>bc_embed\<close> attaches the current observers
  to a message, which makes it a message of \<open>Broadcast_Message\<close>; \<open>bc_ok\<close> says that every message in
  the queue has one reference per current observer, which holds as long as no observer is
  added to a topic that has messages in the queue.
\<close>

section \<open>The queue\<close>

definition BROADCAST_MAX_TOPICS :: u16 where "BROADCAST_MAX_TOPICS = 4096"

text \<open>The limit for inline payloads is that of the other queues, so that what a post writes is shared.\<close>

definition INLINE_PAYLOAD_MAX :: u64 where "INLINE_PAYLOAD_MAX = 48"

lemma INLINE_PAYLOAD_MAX_fast: "INLINE_PAYLOAD_MAX = FAST_INLINE_MAX"
  by (simp add: INLINE_PAYLOAD_MAX_def FAST_INLINE_MAX_def)

type_synonym observer_list = "nat option list"

record bc_queue =
  c_queue :: "nat mpmc"
  c_messagePool :: "broadcast_message pool"
  c_topicNames :: "nat \<Rightarrow> string"
  c_topicMap :: "string \<rightharpoonup> u16"
  c_topicCount :: u16
  c_observers :: "nat \<Rightarrow> observer_list option"
  c_world :: world

definition zero_bc_message :: broadcast_message where
  "zero_bc_message = \<lparr>topicId = 0, observerCount = 0, isInline = False, payloadSize = 0, payload = Managed None\<rparr>"

definition bc_new :: "nat \<Rightarrow> bc_queue outcome" where
  "bc_new QueueCapacity =
     obind (pool_new zero_bc_message 256 8192) (\<lambda>p.
       Inr \<lparr>c_queue = mpmc_new QueueCapacity, c_messagePool = p, c_topicNames = (\<lambda>_. []), c_topicMap = (\<lambda>_. None),
            c_topicCount = 0, c_observers = (\<lambda>_. None), c_world = new_world\<rparr>)"

definition bc_registerTopic :: "bc_queue \<Rightarrow> string \<Rightarrow> bc_queue \<times> u16" where
  "bc_registerTopic q name =
     (case c_topicMap q name of
        Some tid \<Rightarrow> (q, tid)
      | None \<Rightarrow>
          let id = c_topicCount q; q1 = q\<lparr>c_topicCount := c_topicCount q + 1\<rparr> in
          if BROADCAST_MAX_TOPICS \<le> id then (q1\<lparr>c_topicCount := c_topicCount q1 - 1\<rparr>, UINT16_MAX)
          else (q1\<lparr>c_topicNames := (c_topicNames q1)(unat id := name), c_topicMap := (c_topicMap q1)(name \<mapsto> id)\<rparr>, id))"

definition bc_resolveTopic :: "bc_queue \<Rightarrow> string \<Rightarrow> u16" where
  "bc_resolveTopic q name = (case c_topicMap q name of Some tid \<Rightarrow> tid | None \<Rightarrow> UINT16_MAX)"

definition bc_addObserver :: "bc_queue \<Rightarrow> u16 \<Rightarrow> nat option \<Rightarrow> bc_queue" where
  "bc_addObserver q topic cb =
     (if BROADCAST_MAX_TOPICS \<le> topic then q
      else
        let current = c_observers q (unat topic);
            next = (case current of Some cbs \<Rightarrow> cbs | None \<Rightarrow> []) in
        q\<lparr>c_observers := (c_observers q)(unat topic := Some (next @ [cb]))\<rparr>)"

definition bc_addObserverNamed :: "bc_queue \<Rightarrow> string \<Rightarrow> nat option \<Rightarrow> bc_queue" where
  "bc_addObserverNamed q name cb =
     (let (q1, id) = bc_registerTopic q name in if id \<noteq> UINT16_MAX then bc_addObserver q1 id cb else q1)"

definition bc_fill :: "u16 \<Rightarrow> u8 \<Rightarrow> buffer \<Rightarrow> u64 \<Rightarrow> broadcast_message \<Rightarrow> world \<Rightarrow> (broadcast_message \<times> world) outcome" where
  "bc_fill topic count dat sz msg w =
     store_payload count dat sz (msg\<lparr>topicId := topic, observerCount := count, payloadSize := sz\<rparr>) w"

definition bc_post :: "bc_queue \<Rightarrow> u16 \<Rightarrow> buffer \<Rightarrow> u64 \<Rightarrow> (bc_queue \<times> bool) run" where
  "bc_post q topic dat sz =
     (if BROADCAST_MAX_TOPICS \<le> topic then ret (q, False)
      else
        let count = (case c_observers q (unat topic) of Some cbs \<Rightarrow> of_nat (min (length cbs) 255) | None \<Rightarrow> 0) in
        if count = 0 then ret (q, True)
        else
          rbind (chan_send (acquire zero_bc_message) obj_read obj_write try_push (bc_fill topic count dat sz)
                   (c_queue q) (c_messagePool q) (c_world q))
            (\<lambda>(r, p, w). ret (q\<lparr>c_queue := r, c_messagePool := p, c_world := w\<rparr>, True)))"

definition bc_postNamed :: "bc_queue \<Rightarrow> string \<Rightarrow> buffer \<Rightarrow> u64 \<Rightarrow> (bc_queue \<times> bool) run" where
  "bc_postNamed q name dat sz =
     (let id = bc_resolveTopic q name in if id \<noteq> UINT16_MAX then bc_post q id dat sz else ret (q, False))"

definition bc_postValue :: "bc_queue \<Rightarrow> u16 \<Rightarrow> u8 list \<Rightarrow> (bc_queue \<times> bool) run" where
  "bc_postValue q topic value = bc_post q topic (Some value) (of_nat (length value))"

definition bc_postSignal :: "bc_queue \<Rightarrow> u16 \<Rightarrow> (bc_queue \<times> bool) run" where
  "bc_postSignal q topic = bc_post q topic None 0"

text \<open>The metadata of \<open>postRef\<close>, at most 48 bytes by its \<open>static_assert\<close>, is posted by value.\<close>

definition bc_postRef :: "bc_queue \<Rightarrow> u16 \<Rightarrow> u8 list \<Rightarrow> (bc_queue \<times> bool) run" where
  "bc_postRef q topic meta = bc_post q topic (Some meta) (of_nat (length meta))"

text \<open>The calls, each with the \<open>data\<close> pointer \<open>dp\<close>; calling an empty \<open>std::function\<close> throws.\<close>

fun bc_call_all :: "broadcast_message \<Rightarrow> data_ptr \<Rightarrow> observer_list \<Rightarrow> world \<Rightarrow> world outcome" where
  "bc_call_all msg dp [] w = Inr w"
| "bc_call_all msg dp (cb # cbs) w =
     obind (call_observer msg dp (Some \<lparr>callback = cb, userData = 0\<rparr>) w) (\<lambda>w1.
       obind (release_managed msg w1) (\<lambda>w2. bc_call_all msg dp cbs w2))"

fun bc_release_all :: "broadcast_message \<Rightarrow> nat \<Rightarrow> world \<Rightarrow> world outcome" where
  "bc_release_all msg 0 w = Inr w"
| "bc_release_all msg (Suc k) w = obind (release_managed msg w) (\<lambda>w1. bc_release_all msg k w1)"

definition bc_deliver :: "(nat \<Rightarrow> observer_list option) \<Rightarrow> broadcast_message \<Rightarrow> world \<Rightarrow> world outcome" where
  "bc_deliver obs msg w =
     obind (payload_data msg w) (\<lambda>dp.
       case obs (unat (topicId msg)) of
         Some cbs \<Rightarrow> bc_call_all msg dp cbs w
       | None \<Rightarrow> bc_release_all msg (unat (observerCount msg)) w)"

definition bc_dispatchOne :: "bc_queue \<Rightarrow> (bc_queue \<times> bool) run" where
  "bc_dispatchOne q =
     rbind (chan_receive try_pop obj_read (\<lambda>p n. release p (Some n)) (bc_deliver (c_observers q))
              (c_queue q) (c_messagePool q) (c_world q))
       (\<lambda>(r, p, w, b). ret (q\<lparr>c_queue := r, c_messagePool := p, c_world := w\<rparr>, b))"

definition bc_dispatchAll :: "bc_queue \<Rightarrow> (bc_queue \<times> u64) run" where
  "bc_dispatchAll q = while_count bc_dispatchOne (q, 0)"

definition bc_topicCount :: "bc_queue \<Rightarrow> u16" where
  "bc_topicCount q = c_topicCount q"

definition bc_empty :: "bc_queue \<Rightarrow> bool" where
  "bc_empty q = mpmc_empty (c_queue q)"

definition bc_queueSize :: "bc_queue \<Rightarrow> u64" where
  "bc_queueSize q = size_approx (c_queue q)"

definition bc_observerCount :: "bc_queue \<Rightarrow> u16 \<Rightarrow> u64" where
  "bc_observerCount q topic =
     (if BROADCAST_MAX_TOPICS \<le> topic then 0
      else case c_observers q (unat topic) of Some cbs \<Rightarrow> of_nat (length cbs) | None \<Rightarrow> 0)"

section \<open>Invariant and abstraction\<close>

definition current :: "(nat \<Rightarrow> observer_list option) \<Rightarrow> nat \<Rightarrow> observer_list" where
  "current obs t = (case obs t of Some cbs \<Rightarrow> cbs | None \<Rightarrow> [])"

definition as_array :: "observer_list \<Rightarrow> nat \<Rightarrow> observer option" where
  "as_array cbs i = (if i < length cbs then Some \<lparr>callback = cbs ! i, userData = 0\<rparr> else None)"

definition bc_extend :: "(nat \<Rightarrow> observer option) \<Rightarrow> broadcast_message \<Rightarrow> message" where
  "bc_extend obs m = \<lparr>topicId = topicId m, observerCount = observerCount m, isInline = isInline m,
     payloadSize = payloadSize m, payload = payload m, observers = obs\<rparr>"

definition bc_embed :: "(nat \<Rightarrow> observer_list option) \<Rightarrow> broadcast_message \<Rightarrow> message" where
  "bc_embed obs m = bc_extend (as_array (current obs (unat (topicId m)))) m"

definition observers_ok :: "(nat \<Rightarrow> observer_list option) \<Rightarrow> bool" where
  "observers_ok obs \<longleftrightarrow> (\<forall>t cbs. obs t = Some cbs \<longrightarrow> cbs \<noteq> [] \<and> length cbs \<le> 255 \<and> None \<notin> set cbs)"

abbreviation "bc_msgs q \<equiv> ring_msgs (c_queue q) (c_messagePool q)"
abbreviation "bc_heap q \<equiv> rc_heap (c_world q)"

definition bc_ok :: "bc_queue \<Rightarrow> bool" where
  "bc_ok q \<longleftrightarrow> ring_chan_ok (c_queue q) (c_messagePool q) [] \<and> observers_ok (c_observers q) \<and>
     (\<forall>m \<in> set (bc_msgs q). observerCount m = of_nat (length (current (c_observers q) (unat (topicId m))))) \<and>
     msgs_ok 255 (bc_heap q) (map (bc_embed (c_observers q)) (bc_msgs q))"

definition bc_pending :: "bc_queue \<Rightarrow> delivery list list" where
  "bc_pending q = map (deliveries (bc_heap q)) (map (bc_embed (c_observers q)) (bc_msgs q))"

fun bc_calls :: "bc_queue \<Rightarrow> event \<Rightarrow> delivery list list" where
  "bc_calls q (topic, dat, sz) =
     (let cbs = current (c_observers q) (unat topic) in
      if cbs = [] then [] else [expected topic (of_nat (length cbs)) (as_array cbs) dat sz])"

section \<open>Embedding\<close>

lemma bc_extend_simps [simp]:
  "topicId (bc_extend obs m) = topicId m" "observerCount (bc_extend obs m) = observerCount m" "isInline (bc_extend obs m) = isInline m"
  "payloadSize (bc_extend obs m) = payloadSize m" "payload (bc_extend obs m) = payload m" "observers (bc_extend obs m) = obs"
  by (simp_all add: bc_extend_def)

lemma store_payload_extend:
  "store_payload count dat sz (bc_extend obs m) w =
     obind (store_payload count dat sz m w) (\<lambda>(m', w'). Inr (bc_extend obs m', w'))"
  by (cases "rc_create_data (rc_heap w) dat sz"; cases dat)
    (auto simp: store_payload_def memcpy_array_def bc_extend_def rc_addRefs_def heap_read_def split: option.splits)

lemma data_extend [simp]:
  "payload_data (bc_extend obs m) w = payload_data m w" "data_bytes (bc_extend obs m) dp w = data_bytes m dp w"
  by (simp_all add: payload_data_def data_bytes_def split: option.split payload_union.split data_ptr.split)

lemma release_managed_extend [simp]: "release_managed (bc_extend obs m) w = release_managed m w"
  by (simp add: release_managed_def)

lemma call_observer_extend [simp]: "call_observer (bc_extend obs m) dp ob w = call_observer m dp ob w"
  by (simp add: call_observer_def cong: option.case_cong)

lemma bc_call_all_deliver:
  assumes "i + length cbs \<le> maxObs" and "\<And>j. j < length cbs \<Longrightarrow> obs (i + j) = Some \<lparr>callback = cbs ! j, userData = 0\<rparr>"
  shows "bc_call_all m dp cbs w = deliver_loop maxObs (bc_extend obs m) dp i (length cbs) w"
  using assms
proof (induction cbs arbitrary: i w)
  case Nil
  then show ?case by simp
next
  case (Cons cb cbs)
  have "obs i = Some \<lparr>callback = cb, userData = 0\<rparr>" using Cons.prems(2) [of 0] by simp
  moreover have "bc_call_all m dp cbs = deliver_loop maxObs (bc_extend obs m) dp (Suc i) (length cbs)"
    using Cons.prems Cons.prems(2) [of "Suc _"] by (intro ext Cons.IH) auto
  ultimately show ?case using Cons.prems(1) by simp
qed

section \<open>The operations keep the invariant and do what they promise\<close>

lemma topics_callable:
  assumes "observers_ok obs" and "i < length (current obs t)"
  shows "callable (as_array (current obs t) i)"
proof -
  obtain cbs where cbs: "obs t = Some cbs" "current obs t = cbs" "i < length cbs"
    using assms(2) by (auto simp: current_def split: option.splits)
  then have "None \<notin> set cbs" using assms(1) by (auto simp: observers_ok_def)
  then obtain y where "cbs ! i = Some y" using nth_mem [OF cbs(3)] by (cases "cbs ! i") auto
  then show ?thesis using cbs by (simp add: as_array_def callable_def)
qed

lemma current_le: "observers_ok obs \<Longrightarrow> length (current obs t) \<le> 255"
  by (auto simp: observers_ok_def current_def split: option.splits)

lemma unat_count: "observers_ok obs \<Longrightarrow> unat (of_nat (length (current obs t)) :: u8) = length (current obs t)"
  using current_le [of obs t] by (simp add: unat_of_nat take_bit_nat_eq_self_iff)

lemma bc_fill_ok:
  assumes msgs: "msgs_ok 255 (rc_heap w) ms" and obs: "observers_ok obs" and buf: "buffer_ok dat sz"
    and ne: "current obs (unat topic) \<noteq> []"
  shows "\<exists>m w1. bc_fill topic (of_nat (length (current obs (unat topic)))) dat sz old w = Inr (m, w1) \<and> log w1 = log w \<and>
    msgs_ok 255 (rc_heap w1) (ms @ [bc_embed obs m]) \<and> map (deliveries (rc_heap w1)) ms = map (deliveries (rc_heap w)) ms \<and>
    observerCount m = of_nat (length (current obs (unat topic))) \<and> topicId m = topic \<and>
    deliveries (rc_heap w1) (bc_embed obs m) = expected topic (of_nat (length (current obs (unat topic)))) (as_array (current obs (unat topic))) dat sz"
proof -
  let ?cbs = "current obs (unat topic)"
  let ?c = "of_nat (length ?cbs) :: u8"
  let ?arr = "as_array ?cbs"
  let ?old = "old\<lparr>topicId := topic, observerCount := ?c, payloadSize := sz\<rparr>"
  have c: "unat ?c = length ?cbs" using unat_count [OF obs] by simp
  then have pos: "0 < ?c" using ne by (simp add: unat_pos_word)
  have "callable (?arr i)" if "i < unat ?c" for i using topics_callable [OF obs] that c by simp
  moreover have own: "owns (rc_heap w) ms" using msgs by (simp add: msgs_ok_def)
  ultimately obtain m1 w1 where f: "fill_message topic ?c ?arr dat sz (bc_extend (\<lambda>_. None) old) w = Inr (m1, w1)" "log w1 = log w"
    "owns (rc_heap w1) (ms @ [m1])" "map (deliveries (rc_heap w1)) ms = map (deliveries (rc_heap w)) ms" "observerCount m1 = ?c"
    "deliveries (rc_heap w1) m1 = expected topic ?c ?arr dat sz"
    using fill_message_ok [OF own pos buf, of ?arr topic "bc_extend (\<lambda>_. None) old"] by blast
  have arr: "(\<lambda>i. if i < unat ?c then ?arr i else observers (bc_extend (\<lambda>_. None) old) i) = ?arr"
    by (rule ext) (simp add: as_array_def c)
  have "fill_message topic ?c ?arr dat sz (bc_extend (\<lambda>_. None) old) w = store_payload ?c dat sz (bc_extend ?arr ?old) w"
    unfolding fill_message_def arr by (simp add: bc_extend_def)
  with f(1) obtain m where m: "bc_fill topic ?c dat sz old w = Inr (m, w1)" "m1 = bc_extend ?arr m"
    by (auto simp: bc_fill_def store_payload_extend obind_def split: sum.splits)
  have "topicId m = topic"
    using m(1) by (auto simp: bc_fill_def store_payload_def obind_def memcpy_array_def split: if_splits option.splits sum.splits)
  moreover then have "m1 = bc_embed obs m" using m(2) by (simp add: bc_embed_def)
  moreover have "msgs_ok 255 (rc_heap w1) (ms @ [m1])" using msgs f(3,5) c current_le [OF obs] by (auto simp: msgs_ok_def)
  moreover have "observerCount m = ?c" using f(5) m(2) by simp
  ultimately show ?thesis using m(1) f by auto
qed

lemma bc_post_ok:
  assumes ok: "bc_ok q" and accept: "accepts_event BROADCAST_MAX_TOPICS e"
    and free: "length (bc_pending q) < capacity (c_queue q)" and room: "0 < push_room (c_queue q)"
  shows "\<exists>q'. (case e of (topic, dat, sz) \<Rightarrow> bc_post q topic dat sz) = ret (q', True) \<and> bc_ok q' \<and> log (c_world q') = log (c_world q) \<and>
    bc_pending q' = bc_pending q @ bc_calls q e \<and> bc_calls q' = bc_calls q \<and>
    capacity (c_queue q') = capacity (c_queue q) \<and> push_room (c_queue q) \<le> push_room (c_queue q') + 1"
proof -
  obtain topic dat sz where e: "e = (topic, dat, sz)" by (cases e)
  have topic: "topic < BROADCAST_MAX_TOPICS" and buf: "buffer_ok dat sz" using accept by (simp_all add: e)
  let ?cbs = "current (c_observers q) (unat topic)"
  have obs: "observers_ok (c_observers q)" and chan: "ring_chan_ok (c_queue q) (c_messagePool q) []"
    and msgs: "msgs_ok 255 (bc_heap q) (map (bc_embed (c_observers q)) (bc_msgs q))"
    and counts: "\<forall>m \<in> set (bc_msgs q). observerCount m = of_nat (length (current (c_observers q) (unat (topicId m))))"
    using ok by (simp_all add: bc_ok_def)
  have c: "unat (of_nat (length ?cbs) :: u8) = length ?cbs" using unat_count [OF obs] by simp
  have count: "(case c_observers q (unat topic) of Some cbs \<Rightarrow> of_nat (min (length cbs) 255) | None \<Rightarrow> 0) = (of_nat (length ?cbs) :: u8)"
    using current_le [OF obs, of "unat topic"] by (auto simp: current_def split: option.splits)
  show ?thesis
  proof (cases "?cbs = []")
    case True
    then show ?thesis using ok topic count by (simp add: bc_post_def e leD not_le [symmetric])
  next
    case False
    then have nz: "(of_nat (length ?cbs) :: u8) \<noteq> 0" using c by (metis length_0_conv unat_0)
    let ?mk = "bc_fill topic (of_nat (length ?cbs)) dat sz"
    note fill = bc_fill_ok [OF msgs obs buf False]
    have mk: "\<exists>m w1. ?mk old (c_world q) = Inr (m, w1)" for old using fill [of old] by blast
    have "length (contents (c_queue q)) < capacity (c_queue q)" using free by (simp add: bc_pending_def)
    from chan.send_ok [where mk = ?mk and w = "c_world q", OF chan this room mk, of zero_bc_message]
    obtain r p w old m where s: "chan_send (acquire zero_bc_message) obj_read obj_write try_push ?mk (c_queue q) (c_messagePool q)
        (c_world q) = ret (r, p, w)" "?mk old (c_world q) = Inr (m, w)" "ring_chan_ok r p []" "ring_msgs r p = bc_msgs q @ [m]"
      "capacity r = capacity (c_queue q)" "push_room r = push_room (c_queue q) - 1" by blast
    have m: "log w = log (c_world q)" "msgs_ok 255 (rc_heap w) (map (bc_embed (c_observers q)) (bc_msgs q) @ [bc_embed (c_observers q) m])"
      "map (deliveries (rc_heap w)) (map (bc_embed (c_observers q)) (bc_msgs q)) = bc_pending q"
      "observerCount m = of_nat (length ?cbs)" "topicId m = topic"
      "deliveries (rc_heap w) (bc_embed (c_observers q) m) = expected topic (of_nat (length ?cbs)) (as_array ?cbs) dat sz"
      using fill [of old] s(2) by (auto simp: bc_pending_def)
    let ?q = "q\<lparr>c_queue := r, c_messagePool := p, c_world := w\<rparr>"
    have "bc_post q topic dat sz = ret (?q, True)"
      using topic s(1) nz unfolding bc_post_def count by (simp add: not_le [symmetric])
    moreover have "bc_ok ?q" using obs s(3,4) m counts by (auto simp: bc_ok_def)
    moreover have "bc_pending ?q = bc_pending q @ bc_calls q e"
      using s(4) m(3,6) False by (simp add: bc_pending_def e Let_def)
    moreover have "bc_calls ?q = bc_calls q" by (intro ext) (auto simp: Let_def)
    ultimately show ?thesis using s(5,6) m(1) by (intro exI [of _ ?q]) (simp add: e)
  qed
qed

lemma bc_dispatchOne_empty:
  assumes "bc_ok q" and "bc_pending q = []"
  shows "bc_dispatchOne q = ret (q, False)"
proof -
  have chan: "ring_chan_ok (c_queue q) (c_messagePool q) []" and "bc_msgs q = []"
    using assms by (simp_all add: bc_ok_def bc_pending_def)
  from chan.receive_empty [OF this, of "bc_deliver (c_observers q)" "c_world q"]
  show ?thesis by (simp add: bc_dispatchOne_def)
qed

lemma bc_deliver_embed:
  assumes obs: "observers_ok obs" and count: "observerCount m = of_nat (length (current obs (unat (topicId m))))"
    and pos: "0 < observerCount m"
  shows "bc_deliver obs m w = deliver 255 (bc_embed obs m) w"
proof -
  let ?cbs = "current obs (unat (topicId m))"
  have c: "unat (observerCount m) = length ?cbs" using unat_count [OF obs] count by simp
  then have "?cbs \<noteq> []" using pos by (auto simp: unat_pos_word)
  then have "obs (unat (topicId m)) = Some ?cbs" by (auto simp: current_def split: option.splits)
  moreover have "bc_call_all m dp ?cbs w = deliver_loop 255 (bc_embed obs m) dp 0 (length ?cbs) w" for dp
    unfolding bc_embed_def using current_le [OF obs] by (intro bc_call_all_deliver) (simp_all add: as_array_def)
  ultimately show ?thesis using c by (simp add: bc_deliver_def deliver_def bc_embed_def)
qed

lemma bc_dispatchOne_ok:
  assumes ok: "bc_ok q" and pending: "bc_pending q = d # ds"
  shows "\<exists>q'. bc_dispatchOne q = ret (q', True) \<and> bc_ok q' \<and> bc_pending q' = ds \<and> log (c_world q') = log (c_world q) @ d"
proof -
  let ?emb = "bc_embed (c_observers q)"
  obtain m ms where m: "bc_msgs q = m # ms" "d = deliveries (bc_heap q) (?emb m)" "ds = map (deliveries (bc_heap q)) (map ?emb ms)"
    using pending by (auto simp: bc_pending_def)
  have obs: "observers_ok (c_observers q)" and chan: "ring_chan_ok (c_queue q) (c_messagePool q) []"
    and msgs: "msgs_ok 255 (bc_heap q) (?emb m # map ?emb ms)"
    and counts: "\<forall>m \<in> set (bc_msgs q). observerCount m = of_nat (length (current (c_observers q) (unat (topicId m))))"
    using ok m(1) by (simp_all add: bc_ok_def)
  obtain w where w: "deliver 255 (?emb m) (c_world q) = Inr w" "log w = log (c_world q) @ d" "msgs_ok 255 (rc_heap w) (map ?emb ms)"
    "map (deliveries (rc_heap w)) (map ?emb ms) = ds"
    using deliver_msgs_ok [OF msgs] m(2,3) by auto
  have "0 < observerCount m" using msgs by (simp add: msgs_ok_def owns_def msg_ok_def bc_embed_def)
  then have "bc_deliver (c_observers q) m (c_world q) = Inr w" using bc_deliver_embed [OF obs] counts m(1) w(1) by simp
  from chan.receive_ok [where use = "bc_deliver (c_observers q)", OF chan m(1) this] obtain r p where
    r: "chan_receive try_pop obj_read (\<lambda>p n. release p (Some n)) (bc_deliver (c_observers q)) (c_queue q) (c_messagePool q) (c_world q) =
      ret (r, p, w, True)" "ring_chan_ok r p []" "ring_msgs r p = ms" by blast
  let ?q = "q\<lparr>c_queue := r, c_messagePool := p, c_world := w\<rparr>"
  have "bc_dispatchOne q = ret (?q, True)" using r(1) by (simp add: bc_dispatchOne_def)
  moreover have "bc_ok ?q" using obs r(2,3) w(3) counts m(1) by (simp add: bc_ok_def)
  moreover have "bc_pending ?q = ds" using r(3) w(4) by (simp add: bc_pending_def)
  ultimately show ?thesis using w(2) by (intro exI [of _ ?q]) simp
qed

fun bc_post_event :: "bc_queue \<Rightarrow> event \<Rightarrow> (bc_queue \<times> bool) run" where
  "bc_post_event q (topic, dat, sz) = bc_post q topic dat sz"

lemma length_bc_calls: "length (bc_calls q e) \<le> 1"
  by (cases e) (simp add: Let_def)

lemma bc_post_event_ok:
  assumes "bc_ok q" and "accepts_event BROADCAST_MAX_TOPICS e"
    and "length (bc_pending q) < capacity (c_queue q)" and "0 < push_room (c_queue q)"
  shows "\<exists>q'. bc_post_event q e = ret (q', True) \<and> bc_ok q' \<and> log (c_world q') = log (c_world q) \<and>
    bc_pending q' = bc_pending q @ bc_calls q e \<and> bc_calls q' = bc_calls q \<and>
    capacity (c_queue q') = capacity (c_queue q) \<and> push_room (c_queue q) \<le> push_room (c_queue q') + 1"
  using bc_post_ok [OF assms] by (cases e) simp

interpretation bc: event_queue bc_dispatchOne bc_ok bc_pending "\<lambda>q. log (c_world q)" bc_post_event
    "accepts_event BROADCAST_MAX_TOPICS" bc_calls "\<lambda>q. capacity (c_queue q)" "\<lambda>q. push_room (c_queue q)"
  by unfold_locales (rule bc_dispatchOne_empty bc_dispatchOne_ok bc_post_event_ok length_bc_calls; assumption)+

lemma bc_new_ok:
  assumes "C = 2 ^ e" and "1 \<le> e" and "e \<le> 61"
  shows "\<exists>q. bc_new C = Inr q \<and> bc_ok q \<and> bc_msgs q = [] \<and> log (c_world q) = [] \<and> c_observers q = (\<lambda>_. None) \<and>
    c_topicMap q = (\<lambda>_. None) \<and> c_topicCount q = 0 \<and> capacity (c_queue q) = C \<and> push_room (c_queue q) = 2 ^ 63 - 1 - C"
  using new_chan_ok [OF assms, of zero_bc_message 256 8192]
  by (auto simp: bc_new_def bc_ok_def observers_ok_def new_world_def)

lemma bc_new_4: "\<exists>q. bc_new 4 = Inr q \<and> bc_ok q \<and> bc_msgs q = [] \<and> log (c_world q) = [] \<and> c_observers q = (\<lambda>_. None) \<and>
    c_topicMap q = (\<lambda>_. None) \<and> c_topicCount q = 0 \<and> capacity (c_queue q) = 4 \<and> push_room (c_queue q) = 2 ^ 63 - 5"
  using bc_new_ok [of 4 2] by simp

text \<open>Observers may be added while no message is queued.\<close>

lemma bc_addObserver_ok:
  assumes "bc_ok q" and "bc_msgs q = []" and "length (current (c_observers q) (unat topic)) < 255" and "cb \<noteq> None"
  shows "bc_ok (bc_addObserver q topic cb) \<and> bc_pending (bc_addObserver q topic cb) = []"
  using assms by (auto simp: bc_addObserver_def bc_ok_def observers_ok_def current_def bc_pending_def Let_def split: option.splits)

section \<open>Properties\<close>

text \<open>
  C32. End to end for the broadcast queue: from an empty queue, posting any sequence of events
  that fits and then calling \<open>dispatchAll\<close> calls every observer of every event's topic, in
  posting order and in order of registration, with the bytes of the caller's buffer; the
  count is that of the events with observers, and every payload has been freed.
\<close>

theorem bc_end_to_end:
  assumes "bc_ok q" and "bc_pending q = []" and "\<forall>e \<in> set es. accepts_event BROADCAST_MAX_TOPICS e"
    and "length es \<le> capacity (c_queue q)" and "length es \<le> push_room (c_queue q)"
  shows "\<exists>q1 q2. post_each bc_post_event q es = ret q1 \<and>
    bc_dispatchAll q1 = ret (q2, of_nat (length (concat (map (bc_calls q) es)))) \<and>
    log (c_world q2) = log (c_world q) @ concat (concat (map (bc_calls q) es)) \<and>
    live (bc_heap q2) = {} \<and> bc_ok q2"
proof -
  obtain q1 q2 where q: "post_each bc_post_event q es = ret q1"
    "while_count bc_dispatchOne (q1, 0) = ret (q2, of_nat (length (concat (map (bc_calls q) es))))"
    "bc_ok q2" "bc_pending q2 = []" "log (c_world q2) = log (c_world q) @ concat (concat (map (bc_calls q) es))"
    using bc.end_to_end [OF assms] by blast
  then have "live (bc_heap q2) = {}" by (intro msgs_ok_no_payload [of 255]) (simp add: bc_ok_def bc_pending_def)
  with q show ?thesis by (auto simp: bc_dispatchAll_def)
qed

theorem bc_end_to_end_witness:
  "\<exists>q q1 q2. bc_new 4 = Inr q \<and> post_each bc_post_event (bc_addObserver q 3 (Some 7)) [(3, Some [1, 2], 2)] = ret q1 \<and>
     bc_dispatchAll q1 = ret (q2, 1) \<and> log (c_world q2) = [Call 7 3 (Some [Some 1, Some 2]) 2 0]"
proof -
  obtain q where q: "bc_new 4 = Inr q" "bc_ok q" "bc_msgs q = []" "log (c_world q) = []" "c_observers q = (\<lambda>_. None)"
    "capacity (c_queue q) = 4" "push_room (c_queue q) = 2 ^ 63 - 5" using bc_new_4 by blast
  let ?q = "bc_addObserver q 3 (Some 7)"
  let ?es = "[(3, Some [1, 2], 2)] :: event list"
  have obs: "c_observers ?q = (\<lambda>_. None)(3 := Some [Some 7])" "log (c_world ?q) = []"
    "capacity (c_queue ?q) = 4" "push_room (c_queue ?q) = 2 ^ 63 - 5"
    using q(4-7) by (simp_all add: bc_addObserver_def BROADCAST_MAX_TOPICS_def)
  have "bc_ok ?q" "bc_pending ?q = []"
    using bc_addObserver_ok [OF q(2,3), of 3 "Some 7"] q(5) by (simp_all add: current_def)
  moreover have "\<forall>e \<in> set ?es. accepts_event BROADCAST_MAX_TOPICS e" "length ?es \<le> capacity (c_queue ?q)"
    "length ?es \<le> push_room (c_queue ?q)"
    by (simp_all add: obs BROADCAST_MAX_TOPICS_def buffer_ok_def buffer_bytes_def)
  moreover have "bc_calls ?q (3, Some [1, 2], 2) = [[Call 7 3 (Some [Some 1, Some 2]) 2 0]]"
    by (simp add: obs current_def as_array_def expected_def buffer_bytes_def)
  ultimately show ?thesis using bc_end_to_end [of ?q ?es] q(1) obs(2) by auto
qed

text \<open>
  The same observers, and one more at the end: the last reference goes with the last of the
  old ones, so that the new one is called with a payload that has been deleted.
\<close>

lemma bc_call_all_append: "bc_call_all m dp (xs @ ys) w = obind (bc_call_all m dp xs w) (bc_call_all m dp ys)"
  by (induction xs arbitrary: w) (auto simp: obind_def split: sum.splits)

lemma bc_deliver_late:
  assumes obs: "observers_ok obs" and msgs: "msgs_ok 255 (rc_heap w) (bc_embed obs m # ms)" and large: "\<not> isInline m"
    and count: "observerCount m = of_nat (length (current obs (unat (topicId m))))"
    and obs': "obs' (unat (topicId m)) = Some (current obs (unat (topicId m)) @ [cb])"
  shows "bc_deliver obs' m w = Inl (if cb = None then NullCall else UseAfterFree)"
proof -
  let ?cbs = "current obs (unat (topicId m))"
  have own: "owns (rc_heap w) (bc_embed obs m # ms)" using msgs by (simp add: msgs_ok_def)
  have mok: "msg_ok (rc_heap w) (bc_embed obs m)" using own by (simp add: owns_def)
  then have pos: "0 < observerCount m" by (simp add: msg_ok_def bc_embed_def)
  from mok large obtain p where p: "payload m = Managed (Some p)" "payload_data m w = Inr (PayloadBytes p)"
    by (auto simp: msg_ok_def bc_embed_def payload_data_def rc_data_def)
  obtain w1 where w1: "bc_deliver obs m w = Inr w1" "msgs_ok 255 (rc_heap w1) ms"
    using deliver_msgs_ok [OF msgs] bc_deliver_embed [OF obs count pos] by auto
  have "unat (observerCount m) = length ?cbs" using unat_count [OF obs] count by simp
  then have "?cbs \<noteq> []" using pos by (auto simp: unat_pos_word)
  then have "obs (unat (topicId m)) = Some ?cbs" by (auto simp: current_def split: option.splits)
  then have call: "bc_call_all m (PayloadBytes p) ?cbs w = Inr w1" using w1(1) p(2) by (simp add: bc_deliver_def)
  have "refs (bc_embed obs m # ms) = p # refs ms" using large p(1) by (simp add: msg_refs_def bc_embed_def)
  then have "p \<notin> set (refs ms)" using own by (simp add: owns_def)
  then have "cells (rc_heap w1) p = None" using w1(2) by (auto simp: msgs_ok_def owns_def)
  then have "bc_call_all m (PayloadBytes p) [cb] w1 = Inl (if cb = None then NullCall else UseAfterFree)"
    by (cases cb) (simp_all add: call_observer_def data_bytes_def rc_data_def heap_read_def)
  then show ?thesis using obs' call p(2) by (simp only: bc_deliver_def option.case bc_call_all_append obind_simps)
qed

text \<open>
  C33. The references are counted at the post but the observers looked up at the dispatch:
  if an observer is added to the topic of a queued message of more than 48 bytes, the last
  reference is gone when the dispatch of that message reaches the new observer. A function is
  called with a pointer to the deleted payload, which is then released once more; calling an
  empty function throws before anything is touched.
\<close>

theorem bc_late_observer_use_after_free:
  assumes "bc_ok q" and "bc_msgs q = m # ms" and "\<not> isInline m" and "topicId m < BROADCAST_MAX_TOPICS"
  shows "bc_dispatchOne (bc_addObserver q (topicId m) (Some f)) = Some (Inl UseAfterFree) \<and>
    bc_dispatchOne (bc_addObserver q (topicId m) None) = Some (Inl NullCall)"
proof -
  let ?t = "unat (topicId m)"
  have chan: "ring_chan_ok (c_queue q) (c_messagePool q) []" using assms(1) by (simp add: bc_ok_def)
  have "bc_dispatchOne (bc_addObserver q (topicId m) cb) = Some (Inl (if cb = None then NullCall else UseAfterFree))" for cb
  proof -
    let ?q = "bc_addObserver q (topicId m) cb"
    have q: "?q = q\<lparr>c_observers := (c_observers q)(?t := Some (current (c_observers q) ?t @ [cb]))\<rparr>"
      using assms(4) by (simp add: bc_addObserver_def not_le [symmetric] Let_def current_def)
    have "bc_deliver (c_observers ?q) m (c_world q) = Inl (if cb = None then NullCall else UseAfterFree)"
      by (rule bc_deliver_late [where obs = "c_observers q" and ms = "map (bc_embed (c_observers q)) ms" and cb = cb])
        (use assms in \<open>simp_all add: bc_ok_def q\<close>)
    from chan.receive_fault [where use = "bc_deliver (c_observers ?q)", OF chan assms(2) this]
    show ?thesis by (simp add: bc_dispatchOne_def q)
  qed
  from this [of "Some f"] this [of None] show ?thesis by simp
qed

text \<open>A queue with one large message.\<close>

lemma bc_fill_large:
  "bc_fill topic count dat sz old w = Inr (m, w1) \<Longrightarrow> FAST_INLINE_MAX < sz \<Longrightarrow> \<not> isInline m \<and> topicId m = topic"
  by (auto simp: bc_fill_def store_payload_def obind_def not_le split: if_splits option.splits sum.splits)

lemma bc_large_queued:
  "\<exists>q q1 m. bc_new 4 = Inr q \<and> bc_post (bc_addObserver q 3 (Some 7)) 3 (Some (replicate 64 0)) 64 = ret (q1, True) \<and>
     bc_ok q1 \<and> bc_msgs q1 = [m] \<and> \<not> isInline m \<and> topicId m = 3"
proof -
  obtain q where q: "bc_new 4 = Inr q" "bc_ok q" "bc_msgs q = []" "log (c_world q) = []" "c_observers q = (\<lambda>_. None)"
    "capacity (c_queue q) = 4" "push_room (c_queue q) = 2 ^ 63 - 5" using bc_new_4 by blast
  let ?q = "bc_addObserver q 3 (Some 7)"
  have obs: "c_observers ?q = (\<lambda>_. None)(3 := Some [Some 7])" "c_queue ?q = c_queue q" "c_messagePool ?q = c_messagePool q"
    by (simp_all add: bc_addObserver_def BROADCAST_MAX_TOPICS_def q(5))
  have ok: "bc_ok ?q" "bc_pending ?q = []"
    using bc_addObserver_ok [OF q(2,3), of 3 "Some 7"] q(5) by (simp_all add: current_def)
  let ?e = "(3, Some (replicate 64 0), 64) :: event"
  have "accepts_event BROADCAST_MAX_TOPICS ?e" by (simp add: BROADCAST_MAX_TOPICS_def buffer_ok_def buffer_bytes_def)
  then obtain q1 where q1: "bc_post ?q 3 (Some (replicate 64 0)) 64 = ret (q1, True)" "bc_ok q1"
    using bc_post_ok [OF ok(1), of ?e] ok(2) q(6,7) obs by auto
  have "(case c_observers ?q (unat (3 :: u16)) of Some cbs \<Rightarrow> of_nat (min (length cbs) 255) | None \<Rightarrow> 0) = (1 :: u8)"
    by (simp add: obs)
  then obtain r p w where s: "chan_send (acquire zero_bc_message) obj_read obj_write try_push
      (bc_fill 3 1 (Some (replicate 64 0)) 64) (c_queue ?q) (c_messagePool ?q) (c_world ?q) = ret (r, p, w)"
      "q1 = ?q\<lparr>c_queue := r, c_messagePool := p, c_world := w\<rparr>"
    using q1(1) by (auto simp: bc_post_def BROADCAST_MAX_TOPICS_def rbind_eq_ret)
  let ?mk = "bc_fill 3 1 (Some (replicate 64 0)) 64"
  have chan: "ring_chan_ok (c_queue ?q) (c_messagePool ?q) []" using ok(1) by (simp add: bc_ok_def)
  have inv: "observers_ok (c_observers ?q)" "msgs_ok 255 (bc_heap ?q) []"
    using ok q(3) by (simp_all add: bc_ok_def obs)
  have mk: "\<exists>m w1. ?mk old (c_world ?q) = Inr (m, w1)" for old
    using bc_fill_ok [OF inv(2,1), of "Some (replicate 64 0)" 64 3 old]
    by (auto simp: obs current_def buffer_ok_def buffer_bytes_def)
  have "length (contents (c_queue ?q)) < capacity (c_queue ?q)" "0 < push_room (c_queue ?q)"
    using q(3,6,7) obs(2) by (simp_all add: chan_msgs_def vals_def)
  then obtain old m where m: "?mk old (c_world ?q) = Inr (m, w)" "ring_msgs r p = bc_msgs ?q @ [m]"
    using chan.send_ok [where mk = ?mk and w = "c_world ?q", OF chan _ _ mk, of zero_bc_message] s(1) obs(2) by auto
  have "bc_msgs q1 = [m]" using m(2) q(3) s(2) obs by simp
  with q(1) q1 bc_fill_large [OF m(1)] show ?thesis by (auto simp: FAST_INLINE_MAX_def)
qed

theorem bc_late_observer_use_after_free_witness:
  "\<exists>q q1. bc_new 4 = Inr q \<and> bc_post (bc_addObserver q 3 (Some 7)) 3 (Some (replicate 64 0)) 64 = ret (q1, True) \<and>
     bc_dispatchOne (bc_addObserver q1 3 (Some 8)) = Some (Inl UseAfterFree) \<and>
     bc_dispatchOne (bc_addObserver q1 3 None) = Some (Inl NullCall)"
proof -
  obtain q q1 m where q: "bc_new 4 = Inr q" "bc_post (bc_addObserver q 3 (Some 7)) 3 (Some (replicate 64 0)) 64 = ret (q1, True)"
    "bc_ok q1" "bc_msgs q1 = [m]" "\<not> isInline m" "topicId m = 3" using bc_large_queued by blast
  have "topicId m < BROADCAST_MAX_TOPICS" by (simp add: q(6) BROADCAST_MAX_TOPICS_def)
  from bc_late_observer_use_after_free [OF q(3-5) this, of 8] show ?thesis using q(1,2,6) by auto
qed

text \<open>Topic names and ids.\<close>

definition bc_topics_ok :: "bc_queue \<Rightarrow> bool" where
  "bc_topics_ok q \<longleftrightarrow> c_topicCount q \<le> BROADCAST_MAX_TOPICS \<and> inj_on (c_topicMap q) (dom (c_topicMap q)) \<and>
     ran (c_topicMap q) = {..<c_topicCount q} \<and> (\<forall>name i. c_topicMap q name = Some i \<longrightarrow> c_topicNames q (unat i) = name)"

text \<open>
  Topics of the broadcast queue: a registered name resolves to its id, and keeps it when
  other names are registered; distinct names have distinct ids, and the ids are those below
  the number of topics. A new name is refused exactly if there are 4096, and then nothing
  changes: the counter is taken back.
\<close>

lemma bc_registerTopic_spec:
  assumes "bc_topics_ok q"
  shows "\<exists>q' i. bc_registerTopic q name = (q', i) \<and> bc_topics_ok q' \<and> bc_resolveTopic q' name = i \<and>
    (\<forall>n. n \<noteq> name \<longrightarrow> bc_resolveTopic q' n = bc_resolveTopic q n) \<and>
    (i = UINT16_MAX \<longleftrightarrow> c_topicMap q name = None \<and> c_topicCount q = BROADCAST_MAX_TOPICS) \<and>
    (i = UINT16_MAX \<longrightarrow> q' = q) \<and> (i \<noteq> UINT16_MAX \<longrightarrow> i < c_topicCount q' \<and> c_topicNames q' (unat i) = name)"
proof (cases "c_topicMap q name")
  case (Some i)
  then have "i < c_topicCount q" "c_topicNames q (unat i) = name" using assms by (auto simp: bc_topics_ok_def ran_def)
  moreover then have "i < 4096" using assms by (simp add: bc_topics_ok_def BROADCAST_MAX_TOPICS_def order_less_le_trans)
  then have "i \<noteq> UINT16_MAX" by auto
  ultimately show ?thesis using assms Some by (simp add: bc_registerTopic_def bc_resolveTopic_def)
next
  case None
  let ?c = "c_topicCount q"
  have le: "?c \<le> BROADCAST_MAX_TOPICS" using assms by (simp add: bc_topics_ok_def)
  show ?thesis
  proof (cases "BROADCAST_MAX_TOPICS \<le> ?c")
    case True
    then have "?c = BROADCAST_MAX_TOPICS" using le by (rule order.antisym [rotated])
    moreover have "bc_registerTopic q name = (q, UINT16_MAX)"
      using None True by (cases q) (simp add: bc_registerTopic_def Let_def)
    ultimately show ?thesis using assms None by (simp add: bc_resolveTopic_def)
  next
    case False
    then have lt: "?c < 4096" by (simp add: BROADCAST_MAX_TOPICS_def)
    then have c: "?c + 1 \<le> 4096" "?c < ?c + 1" "?c \<noteq> UINT16_MAX"
      by (auto simp: word_less_nat_alt word_le_nat_alt unat_word_ariths)
    have "x < ?c + 1 \<longleftrightarrow> x = ?c \<or> x < ?c" for x
      using lt by (simp add: word_less_nat_alt unat_word_ariths less_Suc_eq word_unat_eq_iff) blast
    then have ids: "{..<?c + 1} = insert ?c {..<?c}" by auto
    let ?q = "q\<lparr>c_topicCount := ?c + 1, c_topicNames := (c_topicNames q)(unat ?c := name), c_topicMap := (c_topicMap q)(name \<mapsto> ?c)\<rparr>"
    have "bc_registerTopic q name = (?q, ?c)" using None False by (simp add: bc_registerTopic_def Let_def)
    moreover have "bc_topics_ok ?q"
      unfolding bc_topics_ok_def
    proof (intro conjI)
      have new: "i < ?c" if "c_topicMap q n = Some i" for n i using assms that by (auto simp: bc_topics_ok_def ran_def)
      show "c_topicCount ?q \<le> BROADCAST_MAX_TOPICS" using c by (simp add: BROADCAST_MAX_TOPICS_def)
      show "ran (c_topicMap ?q) = {..<c_topicCount ?q}" using assms None ids by (simp add: bc_topics_ok_def)
      show "inj_on (c_topicMap ?q) (dom (c_topicMap ?q))"
        using assms None new by (fastforce simp: bc_topics_ok_def inj_on_def)
      have "unat i \<noteq> unat ?c" if "c_topicMap q n = Some i" for n i using new [OF that] by (simp add: word_less_nat_alt)
      then show "\<forall>n i. c_topicMap ?q n = Some i \<longrightarrow> c_topicNames ?q (unat i) = n"
        using assms by (auto simp: bc_topics_ok_def)
    qed
    ultimately show ?thesis using c lt False by (auto simp: bc_resolveTopic_def BROADCAST_MAX_TOPICS_def)
  qed
qed

lemma bc_registerTopic_spec_witness:
  "\<exists>q q'. bc_new 4 = Inr q \<and> bc_registerTopic q ''Frame'' = (q', 0) \<and> bc_resolveTopic q' ''Frame'' = 0"
proof -
  obtain q where q: "bc_new 4 = Inr q" "c_topicMap q = (\<lambda>_. None)" "c_topicCount q = 0" using bc_new_4 by blast
  then have "bc_topics_ok q" by (auto simp: bc_topics_ok_def)
  from bc_registerTopic_spec [OF this, of "''Frame''"] q show ?thesis
    by (auto simp: bc_registerTopic_def BROADCAST_MAX_TOPICS_def Let_def)
qed

end
