(* ===== verification/Fast_Threads.thy ===== *)
theory Fast_Threads
  imports Queue_Fast "HOL-Library.Multiset"
begin

text \<open>
  The threads of \<open>EventQueueBroadcastFast\<close>: one thread posts and any number of threads call
  \<open>dispatchOne\<close>, interleaved between the operations on the ring and on the pool. A post is a
  step that acquires and fills a message, then steps that try to push it; a dispatch is a
  pop, the calls of the observers with the release of the payload, and the return of the
  message to the pool. That the operations of the ring are one step each is justified by
  \<open>MPMC_Concurrent\<close>, and that those of the pool are, with one acquiring thread, by
  \<open>Pool_Concurrent\<close>. A message and its payload belong to one thread between the steps.

  An abstract machine, in which messages are the calls they will make, says what this means;
  the threads refine it step by step.
\<close>

section \<open>Threads\<close>

datatype disp_pc = DIdle | DPopped nat | DDelivered nat

record fq_sys =
  z_queue :: fast_queue
  z_poster :: "nat option"
  z_threads :: "nat \<Rightarrow> disp_pc"

datatype fq_action =
    ActAdd u16 nat nat
  | ActFill u16 buffer u64
  | ActPush
  | ActPop nat
  | ActDeliver nat
  | ActRelease nat

text \<open>An action that a thread is not ready for changes nothing.\<close>

fun fq_act :: "fq_action \<Rightarrow> fq_sys \<Rightarrow> fq_sys run" where
  "fq_act (ActAdd topic cb ud) s = ret (s\<lparr>z_queue := fst (fq_addObserver (z_queue s) topic (Some cb) ud)\<rparr>)"
| "fq_act (ActFill topic dat sz) s =
     (let q = z_queue s in
      if z_poster s \<noteq> None \<or> FAST_MAX_TOPICS \<le> topic \<or> t_count (m_topics q (unat topic)) = 0 then ret s
      else
        rbind (Some (chan_fill (acquire zero_message) obj_read obj_write (fill_for (m_topics q) topic dat sz)
                       (m_messagePool q) (fq_world q)))
          (\<lambda>(p, n, w). ret (s\<lparr>z_queue := q\<lparr>m_messagePool := p, fq_world := w\<rparr>, z_poster := Some n\<rparr>)))"
| "fq_act ActPush s =
     (case z_poster s of
        None \<Rightarrow> ret s
      | Some n \<Rightarrow>
          rbind (try_push (m_queue (z_queue s)) n) (\<lambda>(r, b).
            ret (s\<lparr>z_queue := (z_queue s)\<lparr>m_queue := r\<rparr>, z_poster := (if b then None else Some n)\<rparr>)))"
| "fq_act (ActPop t) s =
     (if z_threads s t \<noteq> DIdle then ret s
      else
        rbind (try_pop (m_queue (z_queue s))) (\<lambda>(r, x). case x of
          None \<Rightarrow> ret (s\<lparr>z_queue := (z_queue s)\<lparr>m_queue := r\<rparr>\<rparr>)
        | Some n \<Rightarrow> ret (s\<lparr>z_queue := (z_queue s)\<lparr>m_queue := r\<rparr>, z_threads := (z_threads s)(t := DPopped n)\<rparr>)))"
| "fq_act (ActDeliver t) s =
     (case z_threads s t of
        DPopped n \<Rightarrow>
          Some (obind (deref (obj_read (m_messagePool (z_queue s)) n)) (\<lambda>m.
            obind (deliver (unat FAST_MAX_OBSERVERS) m (fq_world (z_queue s))) (\<lambda>w.
              Inr (s\<lparr>z_queue := (z_queue s)\<lparr>fq_world := w\<rparr>, z_threads := (z_threads s)(t := DDelivered n)\<rparr>))))
      | _ \<Rightarrow> ret s)"
| "fq_act (ActRelease t) s =
     (case z_threads s t of
        DDelivered n \<Rightarrow>
          Some (obind (release (m_messagePool (z_queue s)) (Some n)) (\<lambda>p.
            Inr (s\<lparr>z_queue := (z_queue s)\<lparr>m_messagePool := p\<rparr>, z_threads := (z_threads s)(t := DIdle)\<rparr>)))
      | _ \<Rightarrow> ret s)"

fun fq_acts :: "fq_sys \<Rightarrow> fq_action list \<Rightarrow> fq_sys run" where
  "fq_acts s [] = ret s"
| "fq_acts s (a # as) = rbind (fq_act a s) (\<lambda>s1. fq_acts s1 as)"

definition fq_start :: "fast_queue \<Rightarrow> fq_sys" where
  "fq_start q = \<lparr>z_queue = q, z_poster = None, z_threads = (\<lambda>_. DIdle)\<rparr>"

section \<open>The abstract machine\<close>

datatype abs_pc = AIdle | APopped "delivery list" | ADelivered

record fq_abs =
  a_topics :: topic_table
  a_poster :: "delivery list option"
  a_ring :: "delivery list list"
  a_threads :: "nat \<Rightarrow> abs_pc"
  a_log :: "delivery list"

fun abs_act :: "nat \<Rightarrow> fq_action \<Rightarrow> fq_abs \<Rightarrow> fq_abs" where
  "abs_act C (ActAdd topic cb ud) a =
     a\<lparr>a_topics := fst (add_observer FAST_MAX_TOPICS FAST_MAX_OBSERVERS (a_topics a) topic (Some cb) ud)\<rparr>"
| "abs_act C (ActFill topic dat sz) a =
     (if a_poster a \<noteq> None \<or> FAST_MAX_TOPICS \<le> topic \<or> t_count (a_topics a (unat topic)) = 0 then a
      else a\<lparr>a_poster := Some (expected_calls (a_topics a) topic dat sz)\<rparr>)"
| "abs_act C ActPush a =
     (case a_poster a of
        None \<Rightarrow> a
      | Some d \<Rightarrow> if length (a_ring a) < C then a\<lparr>a_ring := a_ring a @ [d], a_poster := None\<rparr> else a)"
| "abs_act C (ActPop t) a =
     (if a_threads a t \<noteq> AIdle then a
      else case a_ring a of [] \<Rightarrow> a | d # ds \<Rightarrow> a\<lparr>a_ring := ds, a_threads := (a_threads a)(t := APopped d)\<rparr>)"
| "abs_act C (ActDeliver t) a =
     (case a_threads a t of
        APopped d \<Rightarrow> a\<lparr>a_log := a_log a @ d, a_threads := (a_threads a)(t := ADelivered)\<rparr>
      | _ \<Rightarrow> a)"
| "abs_act C (ActRelease t) a =
     (case a_threads a t of ADelivered \<Rightarrow> a\<lparr>a_threads := (a_threads a)(t := AIdle)\<rparr> | _ \<Rightarrow> a)"

text \<open>What the threads stand for.\<close>

definition node_calls :: "fast_queue \<Rightarrow> nat \<Rightarrow> delivery list" where
  "node_calls q n = deliveries (rc_heap (fq_world q)) (the (obj_read (m_messagePool q) n))"

definition pc_abs :: "fast_queue \<Rightarrow> disp_pc \<Rightarrow> abs_pc" where
  "pc_abs q pc = (case pc of DIdle \<Rightarrow> AIdle | DPopped n \<Rightarrow> APopped (node_calls q n) | DDelivered n \<Rightarrow> ADelivered)"

definition sys_abs :: "fq_sys \<Rightarrow> fq_abs" where
  "sys_abs s =
     \<lparr>a_topics = m_topics (z_queue s), a_poster = map_option (node_calls (z_queue s)) (z_poster s),
      a_ring = map (node_calls (z_queue s)) (contents (m_queue (z_queue s))),
      a_threads = (\<lambda>t. pc_abs (z_queue s) (z_threads s t)), a_log = log (fq_world (z_queue s))\<rparr>"

section \<open>Invariant\<close>

text \<open>
  The nodes that the threads hold: that of the poster, those popped (\<open>pops\<close>) and those whose
  calls were made (\<open>dels\<close>), the latter two with their threads. They and the nodes in the ring
  are all different and in use, and all but the delivered ones own their payloads.
\<close>

definition thread_of :: "(nat \<times> nat) list \<Rightarrow> (nat \<times> nat) list \<Rightarrow> nat \<Rightarrow> disp_pc" where
  "thread_of pops dels t =
     (case map_of pops t of
        Some n \<Rightarrow> DPopped n
      | None \<Rightarrow> (case map_of dels t of Some n \<Rightarrow> DDelivered n | None \<Rightarrow> DIdle))"

definition poster_nodes :: "fq_sys \<Rightarrow> nat list" where
  "poster_nodes s = (case z_poster s of None \<Rightarrow> [] | Some n \<Rightarrow> [n])"

definition due_nodes :: "fq_sys \<Rightarrow> (nat \<times> nat) list \<Rightarrow> nat list" where
  "due_nodes s pops = contents (m_queue (z_queue s)) @ poster_nodes s @ map snd pops"

definition due_msgs :: "fq_sys \<Rightarrow> (nat \<times> nat) list \<Rightarrow> message list" where
  "due_msgs s pops = vals obj_read (m_messagePool (z_queue s)) (due_nodes s pops)"

definition fsys_held :: "fq_sys \<Rightarrow> (nat \<times> nat) list \<Rightarrow> (nat \<times> nat) list \<Rightarrow> bool" where
  "fsys_held s pops dels \<longleftrightarrow>
     ring_chan_ok (m_queue (z_queue s)) (m_messagePool (z_queue s)) (poster_nodes s @ map snd pops @ map snd dels) \<and>
     msgs_ok 16 (rc_heap (fq_world (z_queue s))) (due_msgs s pops) \<and>
     topics_ok 16 (m_topics (z_queue s)) \<and> distinct (map fst (pops @ dels)) \<and> z_threads s = thread_of pops dels"

definition fsys_inv :: "fq_sys \<Rightarrow> bool" where
  "fsys_inv s \<longleftrightarrow> (\<exists>pops dels. fsys_held s pops dels)"

lemma chan_ok_perm: "mset B = mset B' \<Longrightarrow> chan_ok rinv items pinv q p B \<Longrightarrow> chan_ok rinv items pinv q p B'"
  unfolding chan_ok_def by (metis mset_append mset_eq_imp_distinct_iff mset_eq_setD)

lemma mset_refs: "mset (refs ms) = (\<Sum>m \<in># mset ms. mset (msg_refs m))"
  by (induction ms) simp_all

lemma msgs_ok_perm:
  assumes "mset ms = mset ms'" and "msgs_ok k h ms"
  shows "msgs_ok k h ms'"
proof -
  have refs: "mset (refs ms) = mset (refs ms')" using assms(1) by (simp add: mset_refs)
  then have "distinct (refs ms) = distinct (refs ms')" "set (refs ms) = set (refs ms')" "set ms = set ms'"
    using mset_eq_imp_distinct_iff [OF refs] mset_eq_setD [OF refs] mset_eq_setD [OF assms(1)] by blast+
  then show ?thesis using assms(2) by (simp add: msgs_ok_def owns_def)
qed

lemma due_calls: "map (deliveries (rc_heap (fq_world (z_queue s)))) (due_msgs s pops) = map (node_calls (z_queue s)) (due_nodes s pops)"
  by (simp add: due_msgs_def vals_def node_calls_def)

lemma fsys_heldD:
  assumes "fsys_held s pops dels"
  shows "ring_chan_ok (m_queue (z_queue s)) (m_messagePool (z_queue s)) (poster_nodes s @ map snd pops @ map snd dels)"
    and "msgs_ok 16 (rc_heap (fq_world (z_queue s))) (due_msgs s pops)" and "topics_ok 16 (m_topics (z_queue s))"
    and "distinct (map fst (pops @ dels))" and "z_threads s = thread_of pops dels"
  using assms by (simp_all add: fsys_held_def)

lemma fsys_heldI:
  assumes "ring_chan_ok (m_queue (z_queue s)) (m_messagePool (z_queue s)) B" "mset B = mset (poster_nodes s @ map snd pops @ map snd dels)"
    and "msgs_ok 16 (rc_heap (fq_world (z_queue s))) ms" "mset ms = mset (due_msgs s pops)"
    and "topics_ok 16 (m_topics (z_queue s))" and "distinct (map fst (pops @ dels))" and "z_threads s = thread_of pops dels"
  shows "fsys_held s pops dels"
  using chan_ok_perm [OF assms(2,1)] msgs_ok_perm [OF assms(4,3)] assms(5-7)
  by (simp add: fsys_held_def)

lemma thread_of_popped: "thread_of pops dels t = DPopped n \<Longrightarrow> n \<in> set (map snd pops)"
  by (auto simp: thread_of_def split: option.splits dest!: map_of_SomeD) force

text \<open>A step that leaves the nodes with calls due as they were.\<close>

lemma pc_abs_frame:
  assumes "z_threads s = thread_of pops dels" and "\<And>n. n \<in> set (due_nodes s pops) \<Longrightarrow> node_calls q' n = node_calls (z_queue s) n"
  shows "pc_abs q' (z_threads s t) = pc_abs (z_queue s) (z_threads s t)"
proof (cases "z_threads s t")
  case (DPopped n)
  then have "n \<in> set (due_nodes s pops)" using thread_of_popped [of pops dels t n] assms(1) by (simp add: due_nodes_def)
  then show ?thesis using DPopped assms(2) by (simp add: pc_abs_def)
qed (simp_all add: pc_abs_def)

lemma map_of_split:
  assumes "map_of ps t = Some n" and "distinct (map fst ps)"
  shows "\<exists>xs ys. ps = xs @ (t, n) # ys \<and> t \<notin> fst ` set (xs @ ys)"
proof -
  obtain xs ys where "ps = xs @ (t, n) # ys" using split_list [OF map_of_SomeD [OF assms(1)]] by blast
  then show ?thesis using assms(2) by (intro exI conjI) auto
qed

lemma map_of_other: "t \<notin> fst ` set xs \<Longrightarrow> map_of (xs @ (t, n) # ys) = (map_of (xs @ ys))(t \<mapsto> n)"
  by (simp add: map_add_upd_left dom_map_of_conv_image_fst)

section \<open>Refinement\<close>

text \<open>What a step of the threads must do.\<close>

definition refines :: "fq_sys \<Rightarrow> fq_action \<Rightarrow> fq_sys \<Rightarrow> bool" where
  "refines s a s' \<longleftrightarrow> fsys_inv s' \<and> sys_abs s' = abs_act (capacity (m_queue (z_queue s))) a (sys_abs s) \<and>
     capacity (m_queue (z_queue s')) = capacity (m_queue (z_queue s)) \<and>
     push_room (m_queue (z_queue s)) \<le> push_room (m_queue (z_queue s')) + (if a = ActPush then 1 else 0)"

lemma refines_stutter: "fsys_inv s \<Longrightarrow> abs_act (capacity (m_queue (z_queue s))) a (sys_abs s) = sys_abs s \<Longrightarrow> refines s a s"
  by (simp add: refines_def)

lemma act_add_ok:
  assumes "fsys_inv s"
  shows "\<exists>s'. fq_act (ActAdd topic cb ud) s = ret s' \<and> refines s (ActAdd topic cb ud) s'"
proof -
  obtain pops dels where held: "fsys_held s pops dels" using assms by (auto simp: fsys_inv_def)
  let ?ts = "fst (add_observer FAST_MAX_TOPICS FAST_MAX_OBSERVERS (m_topics (z_queue s)) topic (Some cb) ud)"
  let ?s = "s\<lparr>z_queue := (z_queue s)\<lparr>m_topics := ?ts\<rparr>\<rparr>"
  have "topics_ok 16 ?ts"
    using add_observer_ok [of FAST_MAX_OBSERVERS "m_topics (z_queue s)" "Some cb" FAST_MAX_TOPICS topic ud] fsys_heldD(3) [OF held]
    by (simp add: FAST_MAX_OBSERVERS_def)
  then have "fsys_held ?s pops dels" using held by (simp add: fsys_held_def due_msgs_def due_nodes_def poster_nodes_def)
  then have "fsys_inv ?s" by (auto simp: fsys_inv_def)
  moreover have calls: "node_calls ((z_queue s)\<lparr>m_topics := ?ts\<rparr>) = node_calls (z_queue s)" by (simp add: node_calls_def fun_eq_iff)
  have "sys_abs ?s = abs_act (capacity (m_queue (z_queue s))) (ActAdd topic cb ud) (sys_abs s)"
    using pc_abs_frame [OF fsys_heldD(5) [OF held], of "(z_queue s)\<lparr>m_topics := ?ts\<rparr>"] by (simp add: sys_abs_def calls)
  ultimately show ?thesis by (simp add: refines_def)
qed

lemma act_fill_ok:
  assumes inv: "fsys_inv s" and buf: "buffer_ok dat sz"
  shows "\<exists>s'. fq_act (ActFill topic dat sz) s = ret s' \<and> refines s (ActFill topic dat sz) s'"
proof (cases "z_poster s \<noteq> None \<or> FAST_MAX_TOPICS \<le> topic \<or> t_count (m_topics (z_queue s) (unat topic)) = 0")
  case True
  then have "fq_act (ActFill topic dat sz) s = ret s" by (auto simp: Let_def)
  moreover have "abs_act (capacity (m_queue (z_queue s))) (ActFill topic dat sz) (sys_abs s) = sys_abs s"
    using True by (auto simp: sys_abs_def)
  ultimately show ?thesis using refines_stutter [OF inv] by blast
next
  case False
  obtain pops dels where held: "fsys_held s pops dels" using inv by (auto simp: fsys_inv_def)
  note D = fsys_heldD [OF held]
  let ?q = "z_queue s" and ?B = "map snd pops @ map snd dels"
  have none: "poster_nodes s = []" using False by (simp add: poster_nodes_def)
  have obs: "t_count (m_topics ?q (unat topic)) \<noteq> 0" using False by simp
  note fill = fill_for_ok [where topic = topic, OF D(2,3) buf obs]
  have chan: "ring_chan_ok (m_queue ?q) (m_messagePool ?q) ?B" using D(1) none by simp
  obtain p n w old m where h: "chan_fill (acquire zero_message) obj_read obj_write (fill_for (m_topics ?q) topic dat sz)
      (m_messagePool ?q) (fq_world ?q) = Inr (p, n, w)" "fill_for (m_topics ?q) topic dat sz old (fq_world ?q) = Inr (m, w)"
    "ring_chan_ok (m_queue ?q) p (?B @ [n])" "ring_msgs (m_queue ?q) p = ring_msgs (m_queue ?q) (m_messagePool ?q)"
    "vals obj_read p (?B @ [n]) = vals obj_read (m_messagePool ?q) ?B @ [m]"
    using chan.hold_ok [where mk = "fill_for (m_topics ?q) topic dat sz" and w = "fq_world ?q", OF chan fill(1), of zero_message] by blast
  note m = fill(2) [OF h(2)]
  let ?q' = "?q\<lparr>m_messagePool := p, fq_world := w\<rparr>"
  let ?s = "s\<lparr>z_queue := ?q', z_poster := Some n\<rparr>"
  have split: "vals obj_read p (map snd pops) = vals obj_read (m_messagePool ?q) (map snd pops)" "the (obj_read p n) = m"
    using h(5) by simp_all
  have ring: "vals obj_read p (contents (m_queue ?q)) = vals obj_read (m_messagePool ?q) (contents (m_queue ?q))"
    using h(4) by (simp add: chan_msgs_def)
  have due: "mset (due_msgs s pops @ [m]) = mset (due_msgs ?s pops)"
    using split ring none by (simp add: due_msgs_def due_nodes_def poster_nodes_def)
  have "fsys_held ?s pops dels"
    by (rule fsys_heldI [where B = "?B @ [n]", OF _ _ _ due]) (use h(3) m D(3-5) in \<open>simp_all add: poster_nodes_def\<close>)
  then have "fsys_inv ?s" by (auto simp: fsys_inv_def)
  moreover have "vals obj_read p (due_nodes s pops) = due_msgs s pops"
    using split(1) ring none by (simp add: due_msgs_def due_nodes_def)
  then have "map (node_calls ?q') (due_nodes s pops) = map (node_calls ?q) (due_nodes s pops)"
    using m by (simp add: node_calls_def due_msgs_def vals_def)
  then have calls: "node_calls ?q' n = node_calls ?q n" if "n \<in> set (due_nodes s pops)" for n using that by simp
  have "node_calls ?q' n = expected_calls (m_topics ?q) topic dat sz" using m split(2) by (simp add: node_calls_def)
  then have "sys_abs ?s = abs_act (capacity (m_queue ?q)) (ActFill topic dat sz) (sys_abs s)"
    using False pc_abs_frame [OF D(5) calls] calls m by (simp add: sys_abs_def due_nodes_def)
  moreover have "fq_act (ActFill topic dat sz) s = ret ?s" using False h(1) by (simp add: Let_def)
  ultimately show ?thesis by (simp add: refines_def)
qed

lemma act_push_ok:
  assumes inv: "fsys_inv s" and room: "0 < push_room (m_queue (z_queue s))"
  shows "\<exists>s'. fq_act ActPush s = ret s' \<and> refines s ActPush s'"
proof (cases "z_poster s")
  case None
  then have "fq_act ActPush s = ret s" "abs_act C ActPush (sys_abs s) = sys_abs s" for C by (simp_all add: sys_abs_def)
  then show ?thesis using refines_stutter [OF inv] by blast
next
  case (Some n)
  obtain pops dels where held: "fsys_held s pops dels" using inv by (auto simp: fsys_inv_def)
  note D = fsys_heldD [OF held]
  let ?q = "z_queue s"
  have ring: "ring_inv (m_queue ?q)" using D(1) by (simp add: chan_ok_def)
  show ?thesis
  proof (cases "length (contents (m_queue ?q)) < capacity (m_queue ?q)")
    case False
    then have "length (contents (m_queue ?q)) = capacity (m_queue ?q)" using length_contents_le [OF ring] by simp
    from try_push_full [OF ring this] have "fq_act ActPush s = ret s" using Some by simp
    moreover have "abs_act (capacity (m_queue ?q)) ActPush (sys_abs s) = sys_abs s" using False by (simp add: sys_abs_def Some)
    ultimately show ?thesis using refines_stutter [OF inv] by blast
  next
    case True
    obtain r where r: "try_push (m_queue ?q) n = ret (r, True)" "ring_inv r" "contents r = contents (m_queue ?q) @ [n]"
      "capacity r = capacity (m_queue ?q)" "push_room r = push_room (m_queue ?q) - 1"
      using try_push_ok [OF ring True room] by blast
    let ?s = "s\<lparr>z_queue := ?q\<lparr>m_queue := r\<rparr>, z_poster := None\<rparr>"
    have poster: "poster_nodes s = [n]" "poster_nodes ?s = []" using Some by (simp_all add: poster_nodes_def)
    have "fsys_held ?s pops dels"
      using D r(2,3) poster by (simp add: fsys_held_def due_msgs_def due_nodes_def chan_ok_def insert_commute)
    then have "fsys_inv ?s" by (auto simp: fsys_inv_def)
    moreover have calls: "node_calls (?q\<lparr>m_queue := r\<rparr>) = node_calls ?q" by (simp add: node_calls_def fun_eq_iff)
    have "sys_abs ?s = abs_act (capacity (m_queue ?q)) ActPush (sys_abs s)"
      using pc_abs_frame [OF D(5), of "?q\<lparr>m_queue := r\<rparr>"] True Some r(3) by (simp add: sys_abs_def calls)
    moreover have "fq_act ActPush s = ret ?s" using Some r(1) by simp
    ultimately show ?thesis using r(4,5) by (simp add: refines_def)
  qed
qed

lemma thread_of_idle: "thread_of pops dels t = DIdle \<Longrightarrow> t \<notin> fst ` set pops \<and> t \<notin> fst ` set dels"
  by (auto simp: thread_of_def map_of_eq_None_iff split: option.splits)

lemma act_pop_ok:
  assumes inv: "fsys_inv s"
  shows "\<exists>s'. fq_act (ActPop t) s = ret s' \<and> refines s (ActPop t) s'"
proof (cases "z_threads s t = DIdle")
  case False
  then have "fq_act (ActPop t) s = ret s" "abs_act C (ActPop t) (sys_abs s) = sys_abs s" for C
    by (simp_all add: sys_abs_def pc_abs_def split: disp_pc.split)
  then show ?thesis using refines_stutter [OF inv] by blast
next
  case idle: True
  obtain pops dels where held: "fsys_held s pops dels" using inv by (auto simp: fsys_inv_def)
  note D = fsys_heldD [OF held]
  let ?q = "z_queue s"
  have ring: "ring_inv (m_queue ?q)" using D(1) by (simp add: chan_ok_def)
  show ?thesis
  proof (cases "contents (m_queue ?q)")
    case Nil
    from try_pop_empty [OF ring Nil] have "fq_act (ActPop t) s = ret s" using idle by simp
    moreover have "abs_act (capacity (m_queue ?q)) (ActPop t) (sys_abs s) = sys_abs s" using Nil by (simp add: sys_abs_def)
    ultimately show ?thesis using refines_stutter [OF inv] by blast
  next
    case (Cons n ns)
    obtain r where r: "try_pop (m_queue ?q) = ret (r, Some n)" "ring_inv r" "contents r = ns"
      "capacity r = capacity (m_queue ?q)" "push_room r = push_room (m_queue ?q)"
      using try_pop_ok [OF ring Cons] by blast
    let ?s = "s\<lparr>z_queue := ?q\<lparr>m_queue := r\<rparr>, z_threads := (z_threads s)(t := DPopped n)\<rparr>"
    have t: "t \<notin> fst ` set pops" "t \<notin> fst ` set dels" using thread_of_idle [of pops dels t] idle D(5) by simp_all
    have poster: "poster_nodes ?s = poster_nodes s" by (simp add: poster_nodes_def)
    let ?B = "n # poster_nodes s @ map snd pops @ map snd dels"
    have chan: "ring_chan_ok r (m_messagePool ?q) ?B"
      using D(1) r(2,3) Cons by (auto simp: chan_ok_def insert_commute)
    have "fsys_held ?s ((t, n) # pops) dels"
    proof (rule fsys_heldI)
      show "ring_chan_ok (m_queue (z_queue ?s)) (m_messagePool (z_queue ?s)) ?B" using chan by simp
      show "msgs_ok 16 (rc_heap (fq_world (z_queue ?s))) (due_msgs s pops)" using D(2) by simp
      show "z_threads ?s = thread_of ((t, n) # pops) dels" using D(5) by (auto simp: thread_of_def fun_eq_iff)
    qed (use D(3,4) t poster Cons r(3) in \<open>simp_all add: due_msgs_def due_nodes_def\<close>)
    then have "fsys_inv ?s" by (auto simp: fsys_inv_def)
    moreover have calls: "node_calls (?q\<lparr>m_queue := r\<rparr>) = node_calls ?q" by (simp add: node_calls_def fun_eq_iff)
    have "pc_abs ?q DIdle = AIdle" "pc_abs (?q\<lparr>m_queue := r\<rparr>) (DPopped n) = APopped (node_calls ?q n)"
      by (simp_all add: pc_abs_def calls)
    then have "sys_abs ?s = abs_act (capacity (m_queue ?q)) (ActPop t) (sys_abs s)"
      using pc_abs_frame [OF D(5), of "?q\<lparr>m_queue := r\<rparr>"] idle Cons r(3)
      by (simp add: sys_abs_def calls fun_upd_def) (simp add: fun_eq_iff)
    moreover have "fq_act (ActPop t) s = ret ?s" using idle r(1) by simp
    ultimately show ?thesis using r(4,5) by (simp add: refines_def)
  qed
qed

lemma thread_of_pop:
  assumes "thread_of pops dels t = DPopped n" and "distinct (map fst (pops @ dels))"
  shows "\<exists>xs ys. pops = xs @ (t, n) # ys \<and> t \<notin> fst ` set (xs @ ys) \<and> t \<notin> fst ` set dels \<and>
    thread_of (xs @ ys) ((t, n) # dels) = (thread_of pops dels)(t := DDelivered n)"
proof -
  have pop: "map_of pops t = Some n" using assms(1) by (auto simp: thread_of_def split: option.splits)
  have "distinct (map fst pops)" using assms(2) by simp
  from map_of_split [OF pop this] obtain xs ys where xs: "pops = xs @ (t, n) # ys" "t \<notin> fst ` set (xs @ ys)" by blast
  have "t \<notin> fst ` set dels" using assms(2) xs(1) by auto
  moreover have "map_of (xs @ ys) t = None" using xs(2) by (simp add: map_of_eq_None_iff image_Un)
  moreover have "map_of pops = (map_of (xs @ ys))(t \<mapsto> n)" using map_of_other [of t xs n ys] xs by (simp add: image_Un)
  moreover have "thread_of L ((t, n) # dels) = (thread_of pops dels)(t := DDelivered n)"
    if "map_of L t = None" "map_of pops = (map_of L)(t \<mapsto> n)" for L
    using that by (auto simp: thread_of_def fun_eq_iff split: option.split)
  ultimately show ?thesis using xs by blast
qed

lemma thread_of_release:
  assumes "thread_of pops dels t = DDelivered n" and "distinct (map fst (pops @ dels))"
  shows "\<exists>xs ys. dels = xs @ (t, n) # ys \<and> thread_of pops (xs @ ys) = (thread_of pops dels)(t := DIdle)"
proof -
  have del: "map_of pops t = None" "map_of dels t = Some n" using assms(1) by (auto simp: thread_of_def split: option.splits)
  have "distinct (map fst dels)" using assms(2) by simp
  from map_of_split [OF del(2) this] obtain xs ys where xs: "dels = xs @ (t, n) # ys" "t \<notin> fst ` set (xs @ ys)" by blast
  moreover have "map_of (xs @ ys) t = None" using xs(2) by (simp add: map_of_eq_None_iff image_Un)
  moreover have "map_of dels = (map_of (xs @ ys))(t \<mapsto> n)" using map_of_other [of t xs n ys] xs by (simp add: image_Un)
  ultimately have "map_of pops t = None" "map_of (xs @ ys) t = None" "map_of dels = (map_of (xs @ ys))(t \<mapsto> n)" using del(1) by blast+
  then have "thread_of pops (xs @ ys) = (thread_of pops dels)(t := DIdle)"
    by (auto simp: thread_of_def fun_eq_iff split: option.split)
  then show ?thesis using xs by blast
qed

lemma act_deliver_ok:
  assumes inv: "fsys_inv s"
  shows "\<exists>s'. fq_act (ActDeliver t) s = ret s' \<and> refines s (ActDeliver t) s'"
proof (cases "\<exists>n. z_threads s t = DPopped n")
  case False
  then have "fq_act (ActDeliver t) s = ret s" "abs_act C (ActDeliver t) (sys_abs s) = sys_abs s" for C
    by (simp_all add: sys_abs_def pc_abs_def split: disp_pc.split)
  then show ?thesis using refines_stutter [OF inv] by blast
next
  case True
  then obtain n where n: "z_threads s t = DPopped n" by blast
  obtain pops dels where held: "fsys_held s pops dels" using inv by (auto simp: fsys_inv_def)
  note D = fsys_heldD [OF held]
  let ?q = "z_queue s"
  obtain xs ys where xs: "pops = xs @ (t, n) # ys" "t \<notin> fst ` set (xs @ ys)" "t \<notin> fst ` set dels"
    "thread_of (xs @ ys) ((t, n) # dels) = (thread_of pops dels)(t := DDelivered n)"
    using thread_of_pop [of pops dels t n] D(4,5) n by auto
  have "pool_inv (m_messagePool ?q) (set (contents (m_queue ?q) @ poster_nodes s @ map snd pops @ map snd dels))"
    using D(1) by (simp add: chan_ok_def)
  then obtain m where m: "obj_read (m_messagePool ?q) n = Some m" using lf_pool.rd_ok [of _ _ n] xs(1) by force
  let ?rest = "vals obj_read (m_messagePool ?q) (contents (m_queue ?q) @ poster_nodes s @ map snd (xs @ ys))"
  have "mset (due_msgs s pops) = mset (m # ?rest)" using xs(1) m by (simp add: due_msgs_def due_nodes_def vals_def)
  then have "msgs_ok 16 (rc_heap (fq_world ?q)) (m # ?rest)" using msgs_ok_perm D(2) by blast
  from deliver_msgs_ok [OF this] obtain w where w: "deliver 16 m (fq_world ?q) = Inr w"
    "log w = log (fq_world ?q) @ deliveries (rc_heap (fq_world ?q)) m" "msgs_ok 16 (rc_heap w) ?rest"
    "map (deliveries (rc_heap w)) ?rest = map (deliveries (rc_heap (fq_world ?q))) ?rest" by blast
  let ?q' = "?q\<lparr>fq_world := w\<rparr>"
  let ?s = "s\<lparr>z_queue := ?q', z_threads := (z_threads s)(t := DDelivered n)\<rparr>"
  have poster: "poster_nodes ?s = poster_nodes s" by (simp add: poster_nodes_def)
  have "fsys_held ?s (xs @ ys) ((t, n) # dels)"
  proof (rule fsys_heldI)
    show "ring_chan_ok (m_queue (z_queue ?s)) (m_messagePool (z_queue ?s)) (poster_nodes s @ map snd pops @ map snd dels)" using D(1) by simp
    show "msgs_ok 16 (rc_heap (fq_world (z_queue ?s))) ?rest" using w(3) by simp
    show "z_threads ?s = thread_of (xs @ ys) ((t, n) # dels)" using D(5) xs(4) by simp
    show "distinct (map fst ((xs @ ys) @ (t, n) # dels))" using D(4) xs(1,2,3) by auto
  qed (use D(3) poster xs(1) in \<open>simp_all add: due_msgs_def due_nodes_def\<close>)
  then have "fsys_inv ?s" by (auto simp: fsys_inv_def)
  moreover have calls: "node_calls ?q' a = node_calls ?q a" if "a \<in> set (contents (m_queue ?q) @ poster_nodes s @ map snd (xs @ ys))" for a
    using w(4) that by (auto simp: node_calls_def vals_def)
  have "pc_abs ?q' (z_threads s u) = pc_abs ?q (z_threads s u)" if "u \<noteq> t" for u
  proof (cases "z_threads s u")
    case (DPopped a)
    then have "((thread_of pops dels)(t := DDelivered n)) u = DPopped a" using D(5) that by simp
    then have "a \<in> set (map snd (xs @ ys))" using thread_of_popped xs(4) by metis
    then show ?thesis using DPopped calls [of a] by (simp add: pc_abs_def)
  qed (simp_all add: pc_abs_def)
  then have threads: "(\<lambda>u. pc_abs ?q' (((z_threads s)(t := DDelivered n)) u)) = (\<lambda>u. pc_abs ?q (z_threads s u))(t := ADelivered)"
    by (auto simp: fun_eq_iff pc_abs_def)
  have "map_option (node_calls ?q') (z_poster s) = map_option (node_calls ?q) (z_poster s)"
    using calls by (cases "z_poster s") (simp_all add: poster_nodes_def)
  then have "sys_abs ?s = abs_act (capacity (m_queue ?q)) (ActDeliver t) (sys_abs s)"
    using threads calls w(2) m n by (simp add: sys_abs_def) (simp add: pc_abs_def node_calls_def)
  moreover have "fq_act (ActDeliver t) s = ret ?s" using n m w(1) by simp
  ultimately show ?thesis by (simp add: refines_def)
qed

lemma act_release_ok:
  assumes inv: "fsys_inv s"
  shows "\<exists>s'. fq_act (ActRelease t) s = ret s' \<and> refines s (ActRelease t) s'"
proof (cases "\<exists>n. z_threads s t = DDelivered n")
  case False
  then have "fq_act (ActRelease t) s = ret s" "abs_act C (ActRelease t) (sys_abs s) = sys_abs s" for C
    by (simp_all add: sys_abs_def pc_abs_def split: disp_pc.split)
  then show ?thesis using refines_stutter [OF inv] by blast
next
  case True
  then obtain n where n: "z_threads s t = DDelivered n" by blast
  obtain pops dels where held: "fsys_held s pops dels" using inv by (auto simp: fsys_inv_def)
  note D = fsys_heldD [OF held]
  let ?q = "z_queue s"
  obtain xs ys where xs: "dels = xs @ (t, n) # ys" "thread_of pops (xs @ ys) = (thread_of pops dels)(t := DIdle)"
    using thread_of_release [of pops dels t n] D(4,5) n by auto
  let ?ns = "due_nodes s pops @ map snd (xs @ ys)"
  have ring: "ring_inv (m_queue ?q)" using D(1) by (simp add: chan_ok_def)
  have "mset (n # ?ns) = mset (contents (m_queue ?q) @ poster_nodes s @ map snd pops @ map snd dels)"
    using xs(1) by (simp add: due_nodes_def)
  from mset_eq_setD [OF this] mset_eq_imp_distinct_iff [OF this]
  have "pool_inv (m_messagePool ?q) (set (n # ?ns))" "distinct (n # ?ns)" using D(1) by (simp_all add: chan_ok_def)
  from lf_pool.drop_ok [OF this] obtain p where p: "release (m_messagePool ?q) (Some n) = Inr p" "pool_inv p (set ?ns)"
    "vals obj_read p ?ns = vals obj_read (m_messagePool ?q) ?ns" by blast
  let ?q' = "?q\<lparr>m_messagePool := p\<rparr>"
  let ?s = "s\<lparr>z_queue := ?q', z_threads := (z_threads s)(t := DIdle)\<rparr>"
  have poster: "poster_nodes ?s = poster_nodes s" by (simp add: poster_nodes_def)
  have due: "due_nodes ?s pops = due_nodes s pops" by (simp add: due_nodes_def poster)
  have msgs: "due_msgs ?s pops = due_msgs s pops"
    unfolding due_msgs_def [of ?s] due using p(3) by (simp add: due_msgs_def vals_def)
  have "ring_chan_ok (m_queue ?q) p (poster_nodes s @ map snd pops @ map snd (xs @ ys))"
    using p(2) \<open>distinct (n # ?ns)\<close> ring by (simp add: chan_ok_def due_nodes_def Un_assoc)
  then have "fsys_held ?s pops (xs @ ys)"
    unfolding fsys_held_def msgs poster using D(2,3,4,5) xs by (simp add: Int_Un_distrib)
  then have "fsys_inv ?s" by (auto simp: fsys_inv_def)
  moreover have calls: "node_calls ?q' a = node_calls ?q a" if "a \<in> set (due_nodes s pops)" for a
    using p(3) that by (auto simp: node_calls_def vals_def)
  have "(\<lambda>u. pc_abs ?q' (((z_threads s)(t := DIdle)) u)) = (\<lambda>u. pc_abs ?q (z_threads s u))(t := AIdle)"
    using pc_abs_frame [OF D(5) calls] by (auto simp: fun_eq_iff) (simp add: pc_abs_def)
  moreover have "map_option (node_calls ?q') (z_poster s) = map_option (node_calls ?q) (z_poster s)"
    using calls by (cases "z_poster s") (simp_all add: due_nodes_def poster_nodes_def)
  ultimately have "sys_abs ?s = abs_act (capacity (m_queue ?q)) (ActRelease t) (sys_abs s)"
    using calls n by (simp add: sys_abs_def due_nodes_def) (simp add: pc_abs_def)
  moreover have "fq_act (ActRelease t) s = ret ?s" using n p(1) by simp
  ultimately show ?thesis using \<open>fsys_inv ?s\<close> by (simp add: refines_def)
qed

section \<open>Schedules\<close>

definition valid_fill :: "fq_action \<Rightarrow> bool" where
  "valid_fill a = (case a of ActFill topic dat sz \<Rightarrow> buffer_ok dat sz | _ \<Rightarrow> True)"

lemma fq_act_ok:
  assumes inv: "fsys_inv s" and valid: "valid_fill a" and room: "0 < push_room (m_queue (z_queue s))"
  shows "\<exists>s'. fq_act a s = ret s' \<and> refines s a s'"
proof (cases a)
  case (ActFill topic dat sz)
  then show ?thesis using act_fill_ok [OF inv] valid by (simp add: valid_fill_def del: fq_act.simps)
qed (use act_add_ok [OF inv] act_push_ok [OF inv room] act_pop_ok [OF inv] act_deliver_ok [OF inv] act_release_ok [OF inv] in
    \<open>simp_all del: fq_act.simps\<close>)

lemma fq_acts_ok:
  assumes "fsys_inv s" and "\<forall>a \<in> set as. valid_fill a" and "length as \<le> push_room (m_queue (z_queue s))"
  shows "\<exists>s'. fq_acts s as = ret s' \<and> fsys_inv s' \<and> sys_abs s' = fold (abs_act (capacity (m_queue (z_queue s)))) as (sys_abs s)"
  using assms
proof (induction as arbitrary: s)
  case Nil
  then show ?case by simp
next
  case (Cons a as)
  have "valid_fill a" "0 < push_room (m_queue (z_queue s))" using Cons.prems(2,3) by auto
  from fq_act_ok [OF Cons.prems(1) this] obtain s1 where s1: "fq_act a s = ret s1" "refines s a s1" by blast
  then have "\<exists>s'. fq_acts s1 as = ret s' \<and> fsys_inv s' \<and> sys_abs s' = fold (abs_act (capacity (m_queue (z_queue s1)))) as (sys_abs s1)"
    using Cons.prems(2,3) by (intro Cons.IH) (auto simp: refines_def split: if_splits)
  with s1 show ?case by (auto simp: refines_def simp del: fq_act.simps)
qed

text \<open>The calls of the posts that took effect, and the calls that are due in a state.\<close>

fun post_of :: "fq_action \<Rightarrow> fq_abs \<Rightarrow> delivery list" where
  "post_of (ActFill topic dat sz) a =
     (if a_poster a \<noteq> None \<or> FAST_MAX_TOPICS \<le> topic \<or> t_count (a_topics a (unat topic)) = 0 then []
      else expected_calls (a_topics a) topic dat sz)"
| "post_of _ a = []"

fun posts :: "nat \<Rightarrow> fq_action list \<Rightarrow> fq_abs \<Rightarrow> delivery list" where
  "posts C [] a = []"
| "posts C (x # xs) a = post_of x a @ posts C xs (abs_act C x a)"

definition popped_calls :: "fq_abs \<Rightarrow> nat \<Rightarrow> delivery list" where
  "popped_calls a t = (case a_threads a t of APopped d \<Rightarrow> d | _ \<Rightarrow> [])"

definition waiting_calls :: "fq_abs \<Rightarrow> delivery list" where
  "waiting_calls a = concat (a_ring a) @ (case a_poster a of None \<Rightarrow> [] | Some d \<Rightarrow> d)"

fun act_threads :: "fq_action \<Rightarrow> nat set" where
  "act_threads (ActPop t) = {t}"
| "act_threads (ActDeliver t) = {t}"
| "act_threads (ActRelease t) = {t}"
| "act_threads _ = {}"

lemma abs_fifo_step:
  assumes "act_threads x \<subseteq> {t}"
  shows "a_log (abs_act C x a) @ popped_calls (abs_act C x a) t @ waiting_calls (abs_act C x a) =
    a_log a @ popped_calls a t @ waiting_calls a @ post_of x a"
  using assms
  by (cases x) (auto simp: popped_calls_def waiting_calls_def split: option.splits abs_pc.splits list.splits)

lemma abs_fifo:
  assumes "\<Union> (act_threads ` set xs) \<subseteq> {t}"
  shows "a_log (fold (abs_act C) xs a) @ popped_calls (fold (abs_act C) xs a) t @ waiting_calls (fold (abs_act C) xs a) =
    a_log a @ popped_calls a t @ waiting_calls a @ posts C xs a"
  using assms
proof (induction xs arbitrary: a)
  case (Cons x xs)
  then show ?case using abs_fifo_step [of x t C a] by simp
qed simp

lemma popped_upd:
  assumes "finite T" and "t \<in> T"
  shows "(\<Sum>u \<in> T. mset (popped_calls (a\<lparr>a_threads := (a_threads a)(t := pc)\<rparr>) u)) + mset (popped_calls a t) =
    (\<Sum>u \<in> T. mset (popped_calls a u)) + mset (case pc of APopped d \<Rightarrow> d | _ \<Rightarrow> [])"
proof -
  have "popped_calls (a\<lparr>a_threads := (a_threads a)(t := pc)\<rparr>) u = (if u = t then case pc of APopped d \<Rightarrow> d | _ \<Rightarrow> [] else popped_calls a u)" for u
    by (simp add: popped_calls_def)
  then show ?thesis using assms by (simp add: sum.remove [of T t] ac_simps)
qed

lemma popped_frame: "a_threads a' = a_threads a \<Longrightarrow> popped_calls a' = popped_calls a"
  by (simp add: popped_calls_def fun_eq_iff)

text \<open>All calls made, due in the ring and at the poster, and due in the threads of \<open>T\<close>.\<close>

definition all_due :: "nat set \<Rightarrow> fq_abs \<Rightarrow> delivery multiset" where
  "all_due T a = mset (a_log a) + mset (waiting_calls a) + (\<Sum>u \<in> T. mset (popped_calls a u))"

lemma abs_once_step:
  assumes fin: "finite T" and sub: "act_threads x \<subseteq> T"
  shows "all_due T (abs_act C x a) = all_due T a + mset (post_of x a)"
proof (cases x)
  case (ActAdd topic cb ud)
  then show ?thesis by (simp add: all_due_def waiting_calls_def popped_calls_def)
next
  case (ActFill topic dat sz)
  then show ?thesis by (simp add: all_due_def waiting_calls_def popped_calls_def)
next
  case ActPush
  then show ?thesis by (simp add: all_due_def waiting_calls_def popped_calls_def split: option.split)
next
  case (ActPop t)
  then show ?thesis
  proof (cases "a_threads a t = AIdle \<and> a_ring a \<noteq> []")
    case True
    then obtain d ds where d: "a_threads a t = AIdle" "a_ring a = d # ds" by (cases "a_ring a") auto
    have "t \<in> T" using ActPop sub by simp
    from popped_upd [OF fin this, of "a\<lparr>a_ring := ds\<rparr>" "APopped d"] d
    have "(\<Sum>u \<in> T. mset (popped_calls (a\<lparr>a_ring := ds, a_threads := (a_threads a)(t := APopped d)\<rparr>) u)) =
        (\<Sum>u \<in> T. mset (popped_calls a u)) + mset d"
      by (simp add: popped_calls_def)
    then show ?thesis using ActPop d by (simp add: all_due_def waiting_calls_def)
  qed (auto split: list.split)
next
  case (ActDeliver t)
  show ?thesis
  proof (cases "a_threads a t")
    case (APopped d)
    have "t \<in> T" using ActDeliver sub by simp
    from popped_upd [OF fin this, of "a\<lparr>a_log := a_log a @ d\<rparr>" ADelivered] APopped
    have "(\<Sum>u \<in> T. mset (popped_calls (a\<lparr>a_log := a_log a @ d, a_threads := (a_threads a)(t := ADelivered)\<rparr>) u)) + mset d =
        (\<Sum>u \<in> T. mset (popped_calls a u))"
      by (simp add: popped_calls_def)
    then show ?thesis using ActDeliver APopped by (simp add: all_due_def waiting_calls_def ac_simps)
  qed (use ActDeliver in simp_all)
next
  case (ActRelease t)
  show ?thesis
  proof (cases "a_threads a t")
    case ADelivered
    have "t \<in> T" using ActRelease sub by simp
    from popped_upd [OF fin this, of a AIdle] ADelivered show ?thesis
      using ActRelease by (simp add: all_due_def waiting_calls_def popped_calls_def)
  qed (use ActRelease in simp_all)
qed

lemma abs_once:
  assumes "finite T" and "\<Union> (act_threads ` set xs) \<subseteq> T"
  shows "all_due T (fold (abs_act C) xs a) = all_due T a + mset (posts C xs a)"
  using assms(2)
proof (induction xs arbitrary: a)
  case (Cons x xs)
  then show ?case using abs_once_step [OF assms(1), of x C a] by simp
qed simp

lemma fsys_start:
  assumes "fq_ok q"
  shows "fsys_inv (fq_start q)"
proof -
  have "fsys_held (fq_start q) [] []"
    using assms by (simp add: fsys_held_def fq_start_def fq_ok_def mchan_def poster_nodes_def due_msgs_def due_nodes_def
        chan_msgs_def thread_of_def fun_eq_iff)
  then show ?thesis by (auto simp: fsys_inv_def)
qed

text \<open>When nothing is due any more, no payload is left.\<close>

lemma fsys_no_payload:
  assumes inv: "fsys_inv s" and "z_poster s = None" and "contents (m_queue (z_queue s)) = []" and idle: "\<And>t n. z_threads s t \<noteq> DPopped n"
  shows "live (fq_heap (z_queue s)) = {}"
proof -
  obtain pops dels where held: "fsys_held s pops dels" using inv by (auto simp: fsys_inv_def)
  note D = fsys_heldD [OF held]
  have "pops = []"
  proof (cases pops)
    case (Cons x xs)
    then have "thread_of pops dels (fst x) = DPopped (snd x)" by (simp add: thread_of_def)
    then show ?thesis using idle D(5) by metis
  qed simp
  then have "due_msgs s pops = []" using assms(2,3) by (simp add: due_msgs_def due_nodes_def poster_nodes_def)
  then show ?thesis using D(2) msgs_ok_no_payload by metis
qed

section \<open>Properties\<close>

text \<open>
  C4. Threads: from a well-formed queue, every interleaving of one posting thread with any number
  of dispatching threads runs without a fault and refines the abstract machine. Every call
  due for a post is made exactly once: the calls made and those still due are, as a multiset,
  those of before and of the posts that took effect; and with one dispatching thread they
  are the same list, in the order of the posts. When nothing is due, all payloads are freed.
\<close>

theorem fq_threads_deliver:
  assumes "fq_ok q" and "\<forall>a \<in> set as. valid_fill a" and "length as \<le> push_room (m_queue q)"
    and "finite T" and "\<Union> (act_threads ` set as) \<subseteq> T"
  shows "\<exists>s. fq_acts (fq_start q) as = ret s \<and> fsys_inv s \<and>
    sys_abs s = fold (abs_act (capacity (m_queue q))) as (sys_abs (fq_start q)) \<and>
    all_due T (sys_abs s) = all_due T (sys_abs (fq_start q)) + mset (posts (capacity (m_queue q)) as (sys_abs (fq_start q))) \<and>
    (T = {t} \<longrightarrow> log (fq_world (z_queue s)) @ popped_calls (sys_abs s) t @ waiting_calls (sys_abs s) =
       log (fq_world q) @ waiting_calls (sys_abs (fq_start q)) @ posts (capacity (m_queue q)) as (sys_abs (fq_start q))) \<and>
    (z_poster s = None \<and> contents (m_queue (z_queue s)) = [] \<and> (\<forall>t n. z_threads s t \<noteq> DPopped n) \<longrightarrow> live (fq_heap (z_queue s)) = {})"
proof -
  have q: "z_queue (fq_start q) = q" "a_log (sys_abs (fq_start q)) = log (fq_world q)" "popped_calls (sys_abs (fq_start q)) t = []"
    by (simp_all add: fq_start_def sys_abs_def popped_calls_def pc_abs_def)
  have "length as \<le> push_room (m_queue (z_queue (fq_start q)))" using assms(3) q(1) by simp
  from fq_acts_ok [OF fsys_start [OF assms(1)] assms(2) this] obtain s where
    s: "fq_acts (fq_start q) as = ret s" "fsys_inv s" "sys_abs s = fold (abs_act (capacity (m_queue q))) as (sys_abs (fq_start q))"
    by (auto simp: q)
  have log: "a_log (sys_abs s) = log (fq_world (z_queue s))" by (simp add: sys_abs_def)
  show ?thesis
    using s abs_once [OF assms(4,5), of "capacity (m_queue q)" "sys_abs (fq_start q)"] assms(5)
      abs_fifo [of as t "capacity (m_queue q)" "sys_abs (fq_start q)"] fsys_no_payload [OF s(2)] log q by auto
qed

theorem fq_threads_deliver_witness:
  "\<exists>q s. fq_new 4 = Inr q \<and>
     fq_acts (fq_start q) [ActAdd 3 7 9, ActFill 3 (Some [1]) 1, ActPop 0, ActPush, ActPop 1, ActDeliver 1] = ret s \<and>
     all_due {0, 1} (sys_abs s) = {#Call 7 3 (Some [Some 1]) 1 9#}"
proof -
  obtain q where q: "fq_new 4 = Inr q" "fq_ok q" "fq_pending q = []" "log (fq_world q) = []" "\<forall>t. m_topics q t = no_observers"
    "push_room (m_queue q) = 2 ^ 63 - 5" using fq_new_4 by blast
  let ?as = "[ActAdd 3 7 9, ActFill 3 (Some [1]) 1, ActPop 0, ActPush, ActPop 1, ActDeliver 1]"
  have prem: "\<forall>a \<in> set ?as. valid_fill a" "length ?as \<le> push_room (m_queue q)" "finite {0, 1 :: nat}"
    "\<Union> (act_threads ` set ?as) \<subseteq> {0, 1}"
    using q(6) by (simp_all add: valid_fill_def buffer_ok_def buffer_bytes_def)
  have "contents (m_queue q) = []" using q(3) length_mpending [of "m_queue q"] by (metis length_0_conv)
  then have "sys_abs (fq_start q) = \<lparr>a_topics = m_topics q, a_poster = None, a_ring = [], a_threads = (\<lambda>_. AIdle), a_log = []\<rparr>"
    using q(4) by (simp add: sys_abs_def fq_start_def pc_abs_def)
  moreover have "posts C ?as \<lparr>a_topics = m_topics q, a_poster = None, a_ring = [], a_threads = (\<lambda>_. AIdle), a_log = []\<rparr> =
      [Call 7 3 (Some [Some 1]) 1 9]" for C
    using q(5) by (simp add: add_observer_def FAST_MAX_TOPICS_def FAST_MAX_OBSERVERS_def no_observers_def expected_calls_def
        expected_def buffer_bytes_def)
  ultimately show ?thesis
    using fq_threads_deliver [OF q(2) prem] q(1) by (auto simp: all_due_def waiting_calls_def popped_calls_def simp del: fq_acts.simps posts.simps)
qed

end
