(* ===== verification/Event_Queue.thy ===== *)
theory Event_Queue
  imports MC_Prelude
begin

text \<open>
  \<open>src/eventqueue.h\<close> and \<open>src/eventqueue.cpp\<close>, class \<open>EventQueue\<close>: topics by name, observers that
  are plain functions, methods or lambdas, and a queue of messages with payload objects.

  Observer descriptors, observer vectors, messages and payloads are objects on four stores, so
  that a use after \<open>delete\<close> is a fault and a leak is visible. A C \<open>int\<close> is an integer,
  converted where the code converts it. The operations run as one thread runs them; a wait for
  other threads yields \<open>None\<close> if nobody can end it. \<open>Event_Queue_Sync\<close> has the threads.

  Handlers are part of the environment: \<open>handlers\<close> gives, for a function that is called, the
  operations it performs on the queue. Every call is logged with the payload it can see.
\<close>

section \<open>Data\<close>

definition MAX_TOPICS :: int where "MAX_TOPICS = 1024"

record descriptor =
  d_observerId :: u64
  d_callback :: "nat option"
  d_callbackMethod :: "nat option"
  d_callbackFunc :: "nat option"
  d_observerInstance :: "nat option"

definition new_descriptor :: descriptor where
  "new_descriptor = \<lparr>d_observerId = 0, d_callback = None, d_callbackMethod = None, d_callbackFunc = None,
     d_observerInstance = None\<rparr>"

record ev_message =
  e_tid :: u32
  e_obj :: "nat option"
  e_cleanup :: bool

text \<open>What a dispatch calls, and the record of one call: whom, topic id and payload text.\<close>

datatype target = Callback nat | Method nat nat | Func nat

datatype ev_call = ECall target int "string option"

record evq =
  v_initialized :: bool
  v_topics :: "nat \<Rightarrow> string"
  v_resolveMap :: "string \<rightharpoonup> int"
  v_topicMax :: int
  v_observers :: "int \<rightharpoonup> nat"
  v_vectors :: "nat list heap"
  v_descs :: "descriptor heap"
  v_queue :: "nat list"
  v_messages :: "ev_message heap"
  v_payloads :: "string heap"
  v_nextObserverId :: u64
  v_active :: int
  v_inDispatch :: bool
  v_log :: "ev_call list"

definition ev_init :: "evq \<Rightarrow> evq \<times> bool" where
  "ev_init s = (s\<lparr>v_initialized := True\<rparr>, False)"

definition ev_new :: evq where
  "ev_new = fst (ev_init \<lparr>v_initialized = False, v_topics = (\<lambda>_. []), v_resolveMap = (\<lambda>_. None), v_topicMax = 0,
     v_observers = (\<lambda>_. None), v_vectors = heap_empty, v_descs = heap_empty, v_queue = [], v_messages = heap_empty,
     v_payloads = heap_empty, v_nextObserverId = 1, v_active = 0, v_inDispatch = False, v_log = []\<rparr>)"

section \<open>Topics\<close>

definition ev_ResolveTopic :: "evq \<Rightarrow> string \<Rightarrow> int" where
  "ev_ResolveTopic s topic =
     (if 0 < length topic then case v_resolveMap s topic of Some i \<Rightarrow> i | None \<Rightarrow> -1 else -1)"

definition ev_RegisterTopic :: "evq \<Rightarrow> string \<Rightarrow> evq \<times> int" where
  "ev_RegisterTopic s topic =
     (if 0 < length topic then
        case v_resolveMap s topic of
          Some i \<Rightarrow> (s, i)
        | None \<Rightarrow>
            if v_topicMax s < MAX_TOPICS then
              (s\<lparr>v_resolveMap := (v_resolveMap s)(topic \<mapsto> v_topicMax s),
                 v_topics := (v_topics s)(nat (v_topicMax s) := topic),
                 v_topicMax := v_topicMax s + 1\<rparr>, v_topicMax s)
            else (s, -2)
      else (s, -1))"

text \<open>
  The overloads for C strings make a \<open>std::string\<close> first: of the characters up to the first NUL. A null
  pointer and characters without a NUL are undefined behaviour.
\<close>

definition c_string :: "string option \<Rightarrow> string outcome" where
  "c_string p =
     (case p of
        None \<Rightarrow> Inl NullRead
      | Some cs \<Rightarrow> if CHR 0x00 \<in> set cs then Inr (takeWhile (\<lambda>c. c \<noteq> CHR 0x00) cs) else Inl OutOfBounds)"

definition ev_ResolveTopicC :: "evq \<Rightarrow> string option \<Rightarrow> int outcome" where
  "ev_ResolveTopicC s topic = obind (c_string topic) (\<lambda>strTopic. Inr (ev_ResolveTopic s strTopic))"

definition ev_RegisterTopicC :: "evq \<Rightarrow> string option \<Rightarrow> (evq \<times> int) outcome" where
  "ev_RegisterTopicC s topic = obind (c_string topic) (\<lambda>strTopic. Inr (ev_RegisterTopic s strTopic))"

lemma c_string_ok: "CHR 0x00 \<notin> set name \<Longrightarrow> c_string (Some (name @ CHR 0x00 # rest)) = Inr name"
proof -
  assume "CHR 0x00 \<notin> set name"
  then have "takeWhile (\<lambda>c. c \<noteq> CHR 0x00) (name @ CHR 0x00 # rest) = name" by (induction name) auto
  then show ?thesis by (simp add: c_string_def)
qed

definition ev_GetTopicByID :: "evq \<Rightarrow> int \<Rightarrow> string" where
  "ev_GetTopicByID s i = (if 0 < i \<and> i < MAX_TOPICS then v_topics s (nat i) else [])"

definition ev_ClearTopics :: "evq \<Rightarrow> evq" where
  "ev_ClearTopics s = s\<lparr>v_resolveMap := (\<lambda>_. None), v_topics := (\<lambda>i. if i < nat MAX_TOPICS then [] else v_topics s i), v_topicMax := 0\<rparr>"

section \<open>Observers\<close>

definition ev_GetObservers :: "evq \<Rightarrow> int \<Rightarrow> nat option" where
  "ev_GetObservers s tid = v_observers s tid"

text \<open>The vector of a topic, made on the first use.\<close>

definition ev_observer_vector :: "evq \<Rightarrow> int \<Rightarrow> evq \<times> nat" where
  "ev_observer_vector s topicId =
     (case ev_GetObservers s topicId of
        Some v \<Rightarrow> (s, v)
      | None \<Rightarrow>
          let (vs, v) = heap_new (v_vectors s) [] in
          (s\<lparr>v_vectors := vs, v_observers := (v_observers s)(topicId \<mapsto> v)\<rparr>, v))"

text \<open>\<open>AddObserver\<close> with a descriptor: the new observer id, or 0 for an invalid topic.\<close>

definition ev_AddDescriptor :: "evq \<Rightarrow> string \<Rightarrow> nat option \<Rightarrow> (evq \<times> u64) outcome" where
  "ev_AddDescriptor s topic obs =
     (let (s1, topicId) = ev_RegisterTopic s topic in
      if topicId < 0 then Inr (s1, 0)
      else
        let observerId = v_nextObserverId s1; s2 = s1\<lparr>v_nextObserverId := v_nextObserverId s1 + 1\<rparr> in
        case obs of
          None \<Rightarrow> Inl NullRead
        | Some d \<Rightarrow>
            obind (heap_read (v_descs s2) d) (\<lambda>desc.
              let s3 = s2\<lparr>v_descs := heap_write (v_descs s2) d (desc\<lparr>d_observerId := observerId\<rparr>)\<rparr>;
                  (s4, v) = ev_observer_vector s3 topicId in
              obind (heap_read (v_vectors s4) v) (\<lambda>ds.
                Inr (s4\<lparr>v_vectors := heap_write (v_vectors s4) v (ds @ [d])\<rparr>, observerId))))"

definition ev_new_descriptor :: "evq \<Rightarrow> descriptor \<Rightarrow> evq \<times> nat" where
  "ev_new_descriptor s desc = (let (h, d) = heap_new (v_descs s) desc in (s\<lparr>v_descs := h\<rparr>, d))"

definition ev_AddCallback :: "evq \<Rightarrow> string \<Rightarrow> nat option \<Rightarrow> (evq \<times> u64) outcome" where
  "ev_AddCallback s topic cb =
     (let (s1, d) = ev_new_descriptor s (new_descriptor\<lparr>d_callback := cb\<rparr>) in ev_AddDescriptor s1 topic (Some d))"

definition ev_AddMethod :: "evq \<Rightarrow> string \<Rightarrow> nat option \<Rightarrow> nat option \<Rightarrow> (evq \<times> u64) outcome" where
  "ev_AddMethod s topic inst cb =
     (let (s1, d) = ev_new_descriptor s (new_descriptor\<lparr>d_callbackMethod := cb, d_observerInstance := inst\<rparr>) in
      ev_AddDescriptor s1 topic (Some d))"

definition ev_AddFunc :: "evq \<Rightarrow> string \<Rightarrow> nat option \<Rightarrow> (evq \<times> u64) outcome" where
  "ev_AddFunc s topic cb =
     (let (s1, d) = ev_new_descriptor s (new_descriptor\<lparr>d_callbackFunc := cb\<rparr>) in ev_AddDescriptor s1 topic (Some d))"

text \<open>The loops that erase and delete: those that satisfy \<open>P\<close>, and the first one that does.\<close>

fun erase_loop :: "(descriptor \<Rightarrow> bool) \<Rightarrow> descriptor heap \<Rightarrow> nat list \<Rightarrow> (descriptor heap \<times> nat list) outcome" where
  "erase_loop P h [] = Inr (h, [])"
| "erase_loop P h (d # ds) =
     obind (heap_read h d) (\<lambda>desc.
       if P desc then obind (delete_obj h d) (\<lambda>h1. erase_loop P h1 ds)
       else obind (erase_loop P h ds) (\<lambda>(h1, kept). Inr (h1, d # kept)))"

fun erase_first :: "(descriptor \<Rightarrow> bool) \<Rightarrow> descriptor heap \<Rightarrow> nat list \<Rightarrow> (descriptor heap \<times> nat list) outcome" where
  "erase_first P h [] = Inr (h, [])"
| "erase_first P h (d # ds) =
     obind (heap_read h d) (\<lambda>desc.
       if P desc then obind (delete_obj h d) (\<lambda>h1. Inr (h1, ds))
       else obind (erase_first P h ds) (\<lambda>(h1, kept). Inr (h1, d # kept)))"

definition ev_WaitForDispatches :: "evq \<Rightarrow> evq run" where
  "ev_WaitForDispatches s = (if v_inDispatch s then ret s else if v_active s = 0 then ret s else None)"

definition ev_erase :: "(descriptor heap \<Rightarrow> nat list \<Rightarrow> (descriptor heap \<times> nat list) outcome) \<Rightarrow> evq \<Rightarrow> int \<Rightarrow> evq outcome" where
  "ev_erase loop s topicId =
     (case ev_GetObservers s topicId of
        None \<Rightarrow> Inr s
      | Some v \<Rightarrow>
          obind (heap_read (v_vectors s) v) (\<lambda>ds. obind (loop (v_descs s) ds) (\<lambda>(h, kept).
            Inr (s\<lparr>v_descs := h, v_vectors := heap_write (v_vectors s) v kept\<rparr>))))"

definition ev_RemoveCallback :: "evq \<Rightarrow> string \<Rightarrow> nat option \<Rightarrow> evq run" where
  "ev_RemoveCallback s topic cb =
     rbind (Some (ev_erase (erase_loop (\<lambda>desc. d_callback desc = cb)) s (ev_ResolveTopic s topic))) ev_WaitForDispatches"

definition ev_RemoveMethod :: "evq \<Rightarrow> string \<Rightarrow> nat option \<Rightarrow> nat option \<Rightarrow> evq run" where
  "ev_RemoveMethod s topic inst cb =
     rbind (Some (ev_erase (erase_loop (\<lambda>desc. d_observerInstance desc = inst \<and> d_callbackMethod desc = cb)) s
       (ev_ResolveTopic s topic))) ev_WaitForDispatches"

definition ev_RemoveById :: "evq \<Rightarrow> string \<Rightarrow> u64 \<Rightarrow> evq run" where
  "ev_RemoveById s topic observerId =
     (if observerId = 0 then ret s
      else rbind (Some (ev_erase (erase_first (\<lambda>desc. d_observerId desc = observerId)) s (ev_ResolveTopic s topic)))
             ev_WaitForDispatches)"

section \<open>Messages\<close>

definition ev_Post :: "evq \<Rightarrow> int \<Rightarrow> nat option \<Rightarrow> bool \<Rightarrow> evq" where
  "ev_Post s tid obj autoCleanupPayload =
     (if 0 \<le> tid then
        let (h, m) = heap_new (v_messages s) \<lparr>e_tid = word_of_int tid, e_obj = obj, e_cleanup = autoCleanupPayload\<rparr> in
        s\<lparr>v_messages := h, v_queue := v_queue s @ [m]\<rparr>
      else s)"

definition ev_PostTopic :: "evq \<Rightarrow> string \<Rightarrow> nat option \<Rightarrow> bool \<Rightarrow> evq" where
  "ev_PostTopic s topic obj autoCleanupPayload = ev_Post s (ev_ResolveTopic s topic) obj autoCleanupPayload"

definition ev_GetQueueMessage :: "evq \<Rightarrow> evq \<times> nat option" where
  "ev_GetQueueMessage s = (case v_queue s of [] \<Rightarrow> (s, None) | m # ms \<Rightarrow> (s\<lparr>v_queue := ms\<rparr>, Some m))"

text \<open>A client makes a payload with \<open>new SimpleTextPayload(text)\<close>.\<close>

definition ev_new_payload :: "evq \<Rightarrow> string \<Rightarrow> evq \<times> nat" where
  "ev_new_payload s text = (let (h, p) = heap_new (v_payloads s) text in (s\<lparr>v_payloads := h\<rparr>, p))"

section \<open>Dispatch\<close>

definition ev_MarkDispatchActive :: "evq \<Rightarrow> evq" where
  "ev_MarkDispatchActive s = s\<lparr>v_active := v_active s + 1, v_inDispatch := True\<rparr>"

definition ev_MarkDispatchComplete :: "evq \<Rightarrow> evq" where
  "ev_MarkDispatchComplete s = s\<lparr>v_inDispatch := False, v_active := v_active s - 1\<rparr>"

text \<open>
  What a handler may do: operations of the queue, with an object of its own where it passes
  one, that is a new payload in a post and a new descriptor, with any fields, as an observer.
\<close>

datatype command =
    CmdPost int "string option" bool
  | CmdPostTopic string "string option" bool
  | CmdRegister string
  | CmdAddCallback string "nat option"
  | CmdAddMethod string "nat option" "nat option"
  | CmdAddFunc string "nat option"
  | CmdAddDescriptor string descriptor
  | CmdRemoveCallback string "nat option"
  | CmdRemoveMethod string "nat option" "nat option"
  | CmdRemoveById string u64
  | CmdClearTopics

type_synonym handlers = "target \<Rightarrow> int \<Rightarrow> string option \<Rightarrow> command list"

definition make_payload :: "evq \<Rightarrow> string option \<Rightarrow> evq \<times> nat option" where
  "make_payload s text =
     (case text of None \<Rightarrow> (s, None) | Some t \<Rightarrow> let (s1, p) = ev_new_payload s t in (s1, Some p))"

fun ev_command :: "evq \<Rightarrow> command \<Rightarrow> evq run" where
  "ev_command s (CmdPost tid text cleanup) = (let (s1, obj) = make_payload s text in ret (ev_Post s1 tid obj cleanup))"
| "ev_command s (CmdPostTopic topic text cleanup) = (let (s1, obj) = make_payload s text in ret (ev_PostTopic s1 topic obj cleanup))"
| "ev_command s (CmdRegister topic) = ret (fst (ev_RegisterTopic s topic))"
| "ev_command s (CmdAddCallback topic cb) = Some (obind (ev_AddCallback s topic cb) (\<lambda>(s1, i). Inr s1))"
| "ev_command s (CmdAddMethod topic inst cb) = Some (obind (ev_AddMethod s topic inst cb) (\<lambda>(s1, i). Inr s1))"
| "ev_command s (CmdAddFunc topic cb) = Some (obind (ev_AddFunc s topic cb) (\<lambda>(s1, i). Inr s1))"
| "ev_command s (CmdAddDescriptor topic desc) =
     (let (s1, d) = ev_new_descriptor s desc in Some (obind (ev_AddDescriptor s1 topic (Some d)) (\<lambda>(s2, i). Inr s2)))"
| "ev_command s (CmdRemoveCallback topic cb) = ev_RemoveCallback s topic cb"
| "ev_command s (CmdRemoveMethod topic inst cb) = ev_RemoveMethod s topic inst cb"
| "ev_command s (CmdRemoveById topic i) = ev_RemoveById s topic i"
| "ev_command s CmdClearTopics = ret (ev_ClearTopics s)"

fun ev_commands :: "evq \<Rightarrow> command list \<Rightarrow> evq run" where
  "ev_commands s [] = ret s"
| "ev_commands s (c # cs) = rbind (ev_command s c) (\<lambda>s1. ev_commands s1 cs)"

text \<open>Which of a descriptor's handlers is called, if any.\<close>

definition descriptor_target :: "descriptor \<Rightarrow> target option" where
  "descriptor_target d =
     (case d_callback d of
        Some f \<Rightarrow> Some (Callback f)
      | None \<Rightarrow>
          (case (d_callbackMethod d, d_observerInstance d) of
             (Some f, Some inst) \<Rightarrow> Some (Method inst f)
           | _ \<Rightarrow> (case d_callbackFunc d of Some f \<Rightarrow> Some (Func f) | None \<Rightarrow> None)))"

text \<open>A handler sees the message and the payload behind it.\<close>

definition ev_view :: "evq \<Rightarrow> nat \<Rightarrow> string option outcome" where
  "ev_view s m =
     obind (heap_read (v_messages s) m) (\<lambda>msg.
       case e_obj msg of None \<Rightarrow> Inr None | Some p \<Rightarrow> obind (heap_read (v_payloads s) p) (\<lambda>text. Inr (Some text)))"

fun ev_invoke_all :: "handlers \<Rightarrow> int \<Rightarrow> nat \<Rightarrow> descriptor list \<Rightarrow> evq \<Rightarrow> evq run" where
  "ev_invoke_all H tid m [] s = ret s"
| "ev_invoke_all H tid m (d # ds) s =
     (case descriptor_target d of
        None \<Rightarrow> ev_invoke_all H tid m ds s
      | Some t \<Rightarrow>
          rbind (Some (ev_view s m)) (\<lambda>text.
            rbind (ev_commands (s\<lparr>v_log := v_log s @ [ECall t tid text]\<rparr>) (H t tid text)) (\<lambda>s1.
              ev_invoke_all H tid m ds s1)))"

definition ev_snapshot :: "evq \<Rightarrow> int \<Rightarrow> descriptor list outcome" where
  "ev_snapshot s tid =
     (case ev_GetObservers s tid of
        None \<Rightarrow> Inr []
      | Some v \<Rightarrow> obind (heap_read (v_vectors s) v) (\<lambda>ds. read_all (v_descs s) ds))"

definition ev_delete_message :: "evq \<Rightarrow> nat \<Rightarrow> evq outcome" where
  "ev_delete_message s m =
     obind (heap_read (v_messages s) m) (\<lambda>msg.
       obind (case e_obj msg of
                Some p \<Rightarrow> if e_cleanup msg then delete_obj (v_payloads s) p else Inr (v_payloads s)
              | None \<Rightarrow> Inr (v_payloads s)) (\<lambda>ps.
         obind (delete_obj (v_messages s) m) (\<lambda>ms. Inr (s\<lparr>v_payloads := ps, v_messages := ms\<rparr>))))"

definition ev_Dispatch :: "handlers \<Rightarrow> int \<Rightarrow> nat option \<Rightarrow> evq \<Rightarrow> evq run" where
  "ev_Dispatch H tid message s =
     (case message of
        None \<Rightarrow> ret s
      | Some m \<Rightarrow>
          rbind (Some (ev_snapshot s tid)) (\<lambda>snapshot.
            rbind (ev_invoke_all H tid m snapshot (ev_MarkDispatchActive s)) (\<lambda>s1.
              Some (ev_delete_message (ev_MarkDispatchComplete s1) m))))"

section \<open>Disposal\<close>

fun dispose_observers :: "nat list heap \<Rightarrow> descriptor heap \<Rightarrow> nat list \<Rightarrow> (nat list heap \<times> descriptor heap) outcome" where
  "dispose_observers vs h [] = Inr (vs, h)"
| "dispose_observers vs h (v # rest) =
     obind (heap_read vs v) (\<lambda>ds. obind (delete_all h ds) (\<lambda>h1. dispose_observers (heap_write vs v []) h1 rest))"

text \<open>The vectors of the observer map, in the order of the topic ids.\<close>

definition observer_vectors :: "evq \<Rightarrow> nat list" where
  "observer_vectors s = map (\<lambda>t. the (v_observers s t)) (sorted_list_of_set (dom (v_observers s)))"

definition ev_dispose :: "evq \<Rightarrow> evq outcome" where
  "ev_dispose s =
     obind (delete_all (v_messages s) (v_queue s)) (\<lambda>ms.
       obind (dispose_observers (v_vectors s) (v_descs s) (observer_vectors s)) (\<lambda>(vs, h).
         Inr (s\<lparr>v_messages := ms, v_queue := [], v_vectors := vs, v_descs := h, v_observers := (\<lambda>_. None)\<rparr>)))"

text \<open>The destructor.\<close>

definition ev_destroy :: "evq \<Rightarrow> evq outcome" where
  "ev_destroy s = ev_dispose s"

section \<open>Invariant and abstraction\<close>

text \<open>
  \<open>desc_ptrs s t\<close> are the descriptors registered for topic \<open>t\<close> and \<open>ev_observers s t\<close> their
  contents. The invariant has three parts. Topics: the names in use have the ids below the
  number of topics. Observers: every registered descriptor is live and registered once.
  Messages: the live messages are those in the queue and those in \<open>B\<close>, which a dispatch holds;
  their payloads are live, and one with \<open>cleanup\<close> is nobody else's.
\<close>

definition desc_ptrs :: "evq \<Rightarrow> int \<Rightarrow> nat list" where
  "desc_ptrs s t = (case v_observers s t of None \<Rightarrow> [] | Some v \<Rightarrow> the (cells (v_vectors s) v))"

definition ev_observers :: "evq \<Rightarrow> int \<Rightarrow> descriptor list" where
  "ev_observers s t = map (\<lambda>d. the (cells (v_descs s) d)) (desc_ptrs s t)"

definition ev_pending :: "evq \<Rightarrow> ev_message list" where
  "ev_pending s = map (\<lambda>m. the (cells (v_messages s) m)) (v_queue s)"

definition topics_inv :: "evq \<Rightarrow> bool" where
  "topics_inv s \<longleftrightarrow> 0 \<le> v_topicMax s \<and> v_topicMax s \<le> MAX_TOPICS \<and> ran (v_resolveMap s) = {0..<v_topicMax s} \<and>
     v_resolveMap s [] = None \<and> (\<forall>n i. v_resolveMap s n = Some i \<longrightarrow> v_topics s (nat i) = n) \<and>
     (\<forall>i. v_topicMax s \<le> i \<and> i < MAX_TOPICS \<longrightarrow> v_topics s (nat i) = [])"

definition observers_inv :: "evq \<Rightarrow> bool" where
  "observers_inv s \<longleftrightarrow> heap_ok (v_vectors s) \<and> heap_ok (v_descs s) \<and> finite (dom (v_observers s)) \<and>
     inj_on (v_observers s) (dom (v_observers s)) \<and>
     ran (v_observers s) \<subseteq> live (v_vectors s) \<and>
     (\<forall>t. distinct (desc_ptrs s t) \<and> set (desc_ptrs s t) \<subseteq> live (v_descs s)) \<and>
     (\<forall>t t'. t \<noteq> t' \<longrightarrow> set (desc_ptrs s t) \<inter> set (desc_ptrs s t') = {})"

definition messages_inv :: "nat list \<Rightarrow> evq \<Rightarrow> bool" where
  "messages_inv B s \<longleftrightarrow> heap_ok (v_messages s) \<and> heap_ok (v_payloads s) \<and> distinct (B @ v_queue s) \<and>
     live (v_messages s) = set (B @ v_queue s) \<and>
     (\<forall>m msg p. cells (v_messages s) m = Some msg \<longrightarrow> e_obj msg = Some p \<longrightarrow> p \<in> live (v_payloads s) \<and>
        (e_cleanup msg \<longrightarrow> (\<forall>m' msg'. cells (v_messages s) m' = Some msg' \<longrightarrow> m' \<noteq> m \<longrightarrow> e_obj msg' \<noteq> Some p)))"

definition ev_inv :: "nat list \<Rightarrow> evq \<Rightarrow> bool" where
  "ev_inv B s \<longleftrightarrow> topics_inv s \<and> observers_inv s \<and> messages_inv B s"

text \<open>What the operations of a handler leave as it was: they add messages behind the others.\<close>

definition extends :: "evq \<Rightarrow> evq \<Rightarrow> bool" where
  "extends s s' \<longleftrightarrow> v_active s' = v_active s \<and> v_inDispatch s' = v_inDispatch s \<and> v_log s' = v_log s \<and>
     (\<exists>new. v_queue s' = v_queue s @ new) \<and> cells (v_messages s) \<subseteq>\<^sub>m cells (v_messages s') \<and>
     cells (v_payloads s) \<subseteq>\<^sub>m cells (v_payloads s')"

lemma extends_refl [simp, intro]: "extends s s"
  by (simp add: extends_def)

lemma extends_trans: "extends s s1 \<Longrightarrow> extends s1 s2 \<Longrightarrow> extends s s2"
  by (auto simp: extends_def intro: map_le_trans)

lemma ev_inv_new [simp]: "ev_inv [] ev_new"
  by (auto simp: ev_inv_def topics_inv_def observers_inv_def messages_inv_def ev_new_def ev_init_def desc_ptrs_def heap_empty_def
      heap_ok_def MAX_TOPICS_def)

section \<open>Each operation keeps the invariant\<close>

lemma ev_RegisterTopic_frame:
  "v_observers (fst (ev_RegisterTopic s n)) = v_observers s" "v_vectors (fst (ev_RegisterTopic s n)) = v_vectors s"
  "v_descs (fst (ev_RegisterTopic s n)) = v_descs s" "v_queue (fst (ev_RegisterTopic s n)) = v_queue s"
  "v_messages (fst (ev_RegisterTopic s n)) = v_messages s" "v_payloads (fst (ev_RegisterTopic s n)) = v_payloads s"
  "v_active (fst (ev_RegisterTopic s n)) = v_active s" "v_inDispatch (fst (ev_RegisterTopic s n)) = v_inDispatch s"
  "v_log (fst (ev_RegisterTopic s n)) = v_log s" "v_nextObserverId (fst (ev_RegisterTopic s n)) = v_nextObserverId s"
  by (simp_all add: ev_RegisterTopic_def split: option.split)

lemma ev_RegisterTopic_inv:
  assumes "topics_inv s"
  shows "topics_inv (fst (ev_RegisterTopic s n))"
proof (cases "n = [] \<or> v_resolveMap s n \<noteq> None \<or> MAX_TOPICS \<le> v_topicMax s")
  case True
  then have "fst (ev_RegisterTopic s n) = s" by (auto simp: ev_RegisterTopic_def split: option.splits)
  then show ?thesis using assms by simp
next
  case False
  let ?c = "v_topicMax s"
  have eq: "fst (ev_RegisterTopic s n) = s\<lparr>v_resolveMap := (v_resolveMap s)(n \<mapsto> ?c), v_topics := (v_topics s)(nat ?c := n),
     v_topicMax := ?c + 1\<rparr>" using False by (simp add: ev_RegisterTopic_def)
  have ids: "0 \<le> i \<and> i < ?c" if "v_resolveMap s m = Some i" for m i
    using assms ranI [of "v_resolveMap s" m i, OF that] by (simp add: topics_inv_def)
  have "{0..<?c + 1} = insert ?c {0..<?c}" using assms by (auto simp: topics_inv_def)
  moreover have "nat i \<noteq> nat ?c" if "v_resolveMap s m = Some i" for m i using ids [OF that] by linarith
  moreover have "nat i \<noteq> nat ?c" if "?c + 1 \<le> i" for i using assms that by (auto simp: topics_inv_def)
  ultimately show ?thesis using assms False unfolding eq by (auto simp: topics_inv_def)
qed

lemma ev_observers_frame:
  "v_observers s' = v_observers s \<Longrightarrow> v_vectors s' = v_vectors s \<Longrightarrow> desc_ptrs s' = desc_ptrs s"
  by (auto simp: desc_ptrs_def fun_eq_iff split: option.split)

lemma ev_observers_eq:
  "v_observers s' = v_observers s \<Longrightarrow> v_vectors s' = v_vectors s \<Longrightarrow> v_descs s' = v_descs s \<Longrightarrow> ev_observers s' = ev_observers s"
  using ev_observers_frame [of s' s] by (auto simp: ev_observers_def fun_eq_iff)

lemma ev_inv_frame:
  assumes "ev_inv B s" and "topics_inv s'" and "v_observers s' = v_observers s" "v_vectors s' = v_vectors s" "v_descs s' = v_descs s"
    and "v_queue s' = v_queue s" "v_messages s' = v_messages s" "v_payloads s' = v_payloads s"
  shows "ev_inv B s'"
  using assms ev_observers_frame [of s' s] by (simp add: ev_inv_def observers_inv_def messages_inv_def)

lemma ev_RegisterTopic_ok:
  assumes "ev_inv B s"
  shows "ev_inv B (fst (ev_RegisterTopic s n)) \<and> extends s (fst (ev_RegisterTopic s n))"
proof -
  have "topics_inv (fst (ev_RegisterTopic s n))" using assms by (simp add: ev_inv_def ev_RegisterTopic_inv)
  then show ?thesis using ev_inv_frame [OF assms] by (simp add: ev_RegisterTopic_frame extends_def)
qed

lemma ev_ClearTopics_ok:
  assumes "ev_inv B s"
  shows "ev_inv B (ev_ClearTopics s) \<and> extends s (ev_ClearTopics s)"
proof -
  have "topics_inv (ev_ClearTopics s)" by (auto simp: topics_inv_def ev_ClearTopics_def MAX_TOPICS_def)
  then show ?thesis using ev_inv_frame [OF assms, of "ev_ClearTopics s"] by (simp add: ev_ClearTopics_def extends_def)
qed

lemma ev_new_descriptor_ok:
  assumes "ev_inv B s" and "ev_new_descriptor s desc = (s1, d)"
  shows "ev_inv B s1" "extends s s1" "cells (v_descs s1) d = Some desc" "d \<notin> set (desc_ptrs s1 t)"
    "ev_observers s1 = ev_observers s" "v_nextObserverId s1 = v_nextObserverId s" "v_resolveMap s1 = v_resolveMap s"
    "v_topicMax s1 = v_topicMax s"
proof -
  have s1: "s1 = s\<lparr>v_descs := fst (heap_new (v_descs s) desc)\<rparr>" "d = next_addr (v_descs s)"
    using assms(2) by (auto simp: ev_new_descriptor_def heap_new_def)
  have ptrs: "desc_ptrs s1 = desc_ptrs s" by (rule ev_observers_frame) (simp_all add: s1)
  have obs: "observers_inv s" and top: "topics_inv s" using assms(1) by (simp_all add: ev_inv_def)
  then have ok: "heap_ok (v_descs s)" by (simp add: observers_inv_def)
  then have fresh: "d \<notin> live (v_descs s)" by (simp add: s1 heap_ok_fresh domIff)
  have old: "set (desc_ptrs s t) \<subseteq> live (v_descs s)" for t using obs by (simp add: observers_inv_def)
  show "d \<notin> set (desc_ptrs s1 t)" using fresh old ptrs by auto
  show "cells (v_descs s1) d = Some desc" by (simp add: s1 heap_new_def)
  have cells: "cells (v_descs s1) x = cells (v_descs s) x" if "x \<noteq> d" for x using that by (simp add: s1 heap_new_def)
  have live: "live (v_descs s) \<subseteq> live (v_descs s1)" by (auto simp: s1 heap_new_def)
  have "set (desc_ptrs s t) \<subseteq> live (v_descs s1)" for t using old live by blast
  moreover have "heap_ok (v_descs s1)" "v_observers s1 = v_observers s" "v_vectors s1 = v_vectors s"
    using heap_ok_new [OF ok, of desc] by (simp_all add: s1)
  ultimately have "observers_inv s1" using obs by (simp add: observers_inv_def ptrs)
  then show "ev_inv B s1" using assms(1) by (simp add: ev_inv_def topics_inv_def messages_inv_def s1)
  show "ev_observers s1 = ev_observers s"
  proof
    fix t
    have "x \<noteq> d" if "x \<in> set (desc_ptrs s t)" for x using that old fresh by blast
    then show "ev_observers s1 t = ev_observers s t" by (simp add: ev_observers_def ptrs cells)
  qed
  show "extends s s1" by (simp add: s1 extends_def)
  show "v_nextObserverId s1 = v_nextObserverId s" "v_resolveMap s1 = v_resolveMap s" "v_topicMax s1 = v_topicMax s" by (simp_all add: s1)
qed

text \<open>Adding a descriptor that is live and not registered yet.\<close>

lemma observers_inv_append:
  assumes inv: "observers_inv s" and v: "v_observers s t = Some v" and d: "d \<in> live (v_descs s)" "\<And>t'. d \<notin> set (desc_ptrs s t')"
    and s': "s' = s\<lparr>v_vectors := heap_write (v_vectors s) v (desc_ptrs s t @ [d])\<rparr>"
  shows "observers_inv s'" "desc_ptrs s' t' = (if t' = t then desc_ptrs s t @ [d] else desc_ptrs s t')"
proof -
  have "v_observers s t' \<noteq> Some v" if "t' \<noteq> t" for t'
    using inv v that by (metis observers_inv_def inj_onD domI)
  then show ptrs: "desc_ptrs s' t' = (if t' = t then desc_ptrs s t @ [d] else desc_ptrs s t')" for t'
    using v by (auto simp: s' desc_ptrs_def split: option.split)
  have "v \<in> live (v_vectors s)" using inv ranI [of "v_observers s" t v, OF v] by (auto simp: observers_inv_def)
  then have "heap_ok (v_vectors s')" "live (v_vectors s) \<subseteq> live (v_vectors s')"
    using inv by (auto simp: s' observers_inv_def)
  moreover have "v_descs s' = v_descs s" "v_observers s' = v_observers s" by (simp_all add: s')
  moreover from calculation have "ran (v_observers s') \<subseteq> live (v_vectors s')" using inv by (metis observers_inv_def order_trans)
  moreover have "\<forall>t'. distinct (desc_ptrs s' t') \<and> set (desc_ptrs s' t') \<subseteq> live (v_descs s)"
    "\<forall>t1 t2. t1 \<noteq> t2 \<longrightarrow> set (desc_ptrs s' t1) \<inter> set (desc_ptrs s' t2) = {}"
    using inv d by (auto simp: observers_inv_def ptrs)
  ultimately show "observers_inv s'" using inv by (simp add: observers_inv_def)
qed

lemma observers_inv_new_vector:
  assumes inv: "observers_inv s" and none: "v_observers s t = None"
    and s': "s' = s\<lparr>v_vectors := fst (heap_new (v_vectors s) []), v_observers := (v_observers s)(t \<mapsto> next_addr (v_vectors s))\<rparr>"
  shows "observers_inv s'" "desc_ptrs s' = desc_ptrs s"
proof -
  let ?v = "next_addr (v_vectors s)"
  have ok: "heap_ok (v_vectors s)" and ran: "ran (v_observers s) \<subseteq> live (v_vectors s)" using inv by (simp_all add: observers_inv_def)
  have "?v \<notin> live (v_vectors s)" using heap_ok_fresh [OF ok] by (simp add: domIff)
  then have fresh: "v_observers s t' \<noteq> Some ?v" for t' using ran by (auto simp: ran_def)
  show ptrs: "desc_ptrs s' = desc_ptrs s"
    using none fresh by (auto simp: s' desc_ptrs_def heap_new_def fun_eq_iff split: option.split)
  have fields: "heap_ok (v_vectors s')" "v_descs s' = v_descs s" "v_observers s' = (v_observers s)(t \<mapsto> ?v)"
    "live (v_vectors s') = insert ?v (live (v_vectors s))"
    using heap_ok_new [OF ok, of "[]"] by (auto simp: s' heap_new_def)
  have "ran (v_observers s') \<subseteq> live (v_vectors s')" using ran none by (auto simp: fields)
  moreover have "inj_on (v_observers s') (dom (v_observers s'))"
    using inv fresh by (auto simp: observers_inv_def fields(3) inj_on_def)
  ultimately show "observers_inv s'" using inv fields(1) by (simp add: observers_inv_def ptrs fields(2,3))
qed

lemma ev_AddDescriptor_ok:
  assumes inv: "ev_inv B s" and d: "cells (v_descs s) d = Some desc" "\<And>t. d \<notin> set (desc_ptrs s t)"
  shows "\<exists>s'. ev_AddDescriptor s topic (Some d) = Inr (s', if snd (ev_RegisterTopic s topic) < 0 then 0 else v_nextObserverId s) \<and>
    ev_inv B s' \<and> extends s s' \<and> v_resolveMap s' = v_resolveMap (fst (ev_RegisterTopic s topic)) \<and>
    v_nextObserverId s' = (if snd (ev_RegisterTopic s topic) < 0 then v_nextObserverId s else v_nextObserverId s + 1) \<and>
    ev_observers s' = (if snd (ev_RegisterTopic s topic) < 0 then ev_observers s
      else (ev_observers s)(snd (ev_RegisterTopic s topic) :=
        ev_observers s (snd (ev_RegisterTopic s topic)) @ [desc\<lparr>d_observerId := v_nextObserverId s\<rparr>]))"
proof -
  obtain s1 t where reg: "ev_RegisterTopic s topic = (s1, t)" by fastforce
  have inv1: "ev_inv B s1" "extends s s1" using ev_RegisterTopic_ok [OF inv, of topic] by (simp_all add: reg)
  note frame = ev_RegisterTopic_frame [of s topic, unfolded reg fst_conv]
  have ptrs1: "desc_ptrs s1 = desc_ptrs s" by (rule ev_observers_frame) (simp_all add: frame)
  then have obs1: "ev_observers s1 = ev_observers s" by (simp add: ev_observers_def frame fun_eq_iff)
  show ?thesis
  proof (cases "t < 0")
    case True
    then show ?thesis using inv1 obs1 frame by (simp add: ev_AddDescriptor_def reg)
  next
    case False
    let ?new = "desc\<lparr>d_observerId := v_nextObserverId s\<rparr>"
    let ?s3 = "s1\<lparr>v_nextObserverId := v_nextObserverId s + 1, v_descs := heap_write (v_descs s) d ?new\<rparr>"
    have ptrs3: "desc_ptrs ?s3 = desc_ptrs s" by (rule ev_observers_frame) (simp_all add: frame)
    have ok: "observers_inv s1" using inv1 by (simp add: ev_inv_def)
    then have "heap_ok (v_descs s)" by (simp add: observers_inv_def frame)
    then have ok3: "observers_inv ?s3" using ok d(1) by (auto simp: observers_inv_def ptrs1 ptrs3 frame)
    obtain s4 v where s4: "ev_observer_vector ?s3 t = (s4, v)" by fastforce
    have s4_ok: "observers_inv s4 \<and> desc_ptrs s4 = desc_ptrs s \<and> v_observers s4 t = Some v \<and>
      s4 = ?s3\<lparr>v_vectors := v_vectors s4, v_observers := v_observers s4\<rparr>"
    proof (cases "v_observers ?s3 t")
      case None
      then have "s4 = ?s3\<lparr>v_vectors := fst (heap_new (v_vectors ?s3) []), v_observers := (v_observers ?s3)(t \<mapsto> next_addr (v_vectors ?s3))\<rparr>"
        "v = next_addr (v_vectors ?s3)" using s4 by (auto simp: ev_observer_vector_def ev_GetObservers_def heap_new_def)
      then show ?thesis using observers_inv_new_vector [OF ok3 None] ptrs3 by simp
    next
      case (Some v')
      then show ?thesis using s4 ok3 ptrs3 by (auto simp: ev_observer_vector_def ev_GetObservers_def)
    qed
    let ?s' = "s4\<lparr>v_vectors := heap_write (v_vectors s4) v (desc_ptrs s4 t @ [d])\<rparr>"
    have f4: "v_descs s4 = heap_write (v_descs s) d ?new" "v_nextObserverId s4 = v_nextObserverId s + 1"
      "topics_inv s4 = topics_inv s1" "messages_inv B s4 = messages_inv B s1" "extends s1 s4 = extends s1 s1"
      "v_resolveMap s4 = v_resolveMap s1"
      by (subst s4_ok [THEN conjunct2, THEN conjunct2, THEN conjunct2],
        simp add: topics_inv_def messages_inv_def extends_def)+
    have v4: "v_observers s4 t = Some v" and ok4: "observers_inv s4" and p4: "desc_ptrs s4 = desc_ptrs s" using s4_ok by simp_all
    have "v \<in> live (v_vectors s4)" using ok4 ranI [of "v_observers s4" t v, OF v4] by (auto simp: observers_inv_def)
    then have "heap_read (v_vectors s4) v = Inr (desc_ptrs s4 t)" using v4 by (auto simp: desc_ptrs_def)
    moreover have "heap_read (v_descs s1) d = Inr desc" using d(1) by (simp add: frame)
    ultimately have "ev_AddDescriptor s topic (Some d) = Inr (?s', v_nextObserverId s)"
      using False s4 by (simp add: ev_AddDescriptor_def reg frame)
    moreover have s': "observers_inv ?s'" "desc_ptrs ?s' t' = (if t' = t then desc_ptrs s t @ [d] else desc_ptrs s t')" for t'
      using observers_inv_append(1) [OF ok4 v4 _ _ refl, of d] observers_inv_append(2) [OF ok4 v4 _ _ refl, of d t'] d(2)
      by (simp_all add: f4 p4)
    moreover have "topics_inv ?s'" "messages_inv B ?s'" "extends s ?s'"
      using f4(3-5) inv1 extends_trans [OF inv1(2), of s4]
      by (simp_all add: ev_inv_def topics_inv_def messages_inv_def extends_def)
    moreover have "ev_observers ?s' = (ev_observers s)(t := ev_observers s t @ [?new])"
    proof
      fix t'
      have "x \<noteq> d" if "x \<in> set (desc_ptrs s t')" for x using that d(2) by blast
      then show "ev_observers ?s' t' = ((ev_observers s)(t := ev_observers s t @ [?new])) t'"
        using s'(2) [of t'] by (auto simp: ev_observers_def f4(1))
    qed
    ultimately show ?thesis using False f4(2,6) by (intro exI [of _ ?s']) (simp add: ev_inv_def reg)
  qed
qed

text \<open>
  The two loops that erase. \<open>erases loop keep\<close>: on a list of live descriptors the loop keeps
  \<open>keep\<close> of their contents, deletes the others, and touches nothing else.
\<close>

fun drop_first :: "('a \<Rightarrow> bool) \<Rightarrow> 'a list \<Rightarrow> 'a list" where
  "drop_first P [] = []"
| "drop_first P (x # xs) = (if P x then xs else x # drop_first P xs)"

definition erases :: "(descriptor heap \<Rightarrow> nat list \<Rightarrow> (descriptor heap \<times> nat list) outcome) \<Rightarrow>
    (descriptor list \<Rightarrow> descriptor list) \<Rightarrow> bool" where
  "erases loop keep \<longleftrightarrow> (\<forall>h ds. distinct ds \<longrightarrow> set ds \<subseteq> live h \<longrightarrow>
     (\<exists>h' kept. loop h ds = Inr (h', kept) \<and> distinct kept \<and> set kept \<subseteq> set ds \<and>
        map (\<lambda>d. the (cells h d)) kept = keep (map (\<lambda>d. the (cells h d)) ds) \<and>
        cells h' = (\<lambda>d. if d \<in> set ds \<and> d \<notin> set kept then None else cells h d) \<and> next_addr h' = next_addr h))"

lemma cells_delete_eq: "cells (heap_delete h d) = (\<lambda>a. if a = d then None else cells h a)"
  by auto

lemma erase_loop_erases: "erases (erase_loop P) (filter (\<lambda>d. \<not> P d))"
  unfolding erases_def
proof (intro allI impI)
  fix h ds
  assume "distinct ds" "set ds \<subseteq> live (h :: descriptor heap)"
  then show "\<exists>h' kept. erase_loop P h ds = Inr (h', kept) \<and> distinct kept \<and> set kept \<subseteq> set ds \<and>
        map (\<lambda>d. the (cells h d)) kept = filter (\<lambda>d. \<not> P d) (map (\<lambda>d. the (cells h d)) ds) \<and>
        cells h' = (\<lambda>d. if d \<in> set ds \<and> d \<notin> set kept then None else cells h d) \<and> next_addr h' = next_addr h"
  proof (induction ds arbitrary: h)
    case Nil
    then show ?case by simp
  next
    case (Cons d ds)
    obtain desc where desc: "cells h d = Some desc" using Cons.prems(2) by auto
    let ?h = "if P desc then heap_delete h d else h"
    have "distinct ds" "set ds \<subseteq> live ?h" using Cons.prems by auto
    from Cons.IH [OF this] obtain h' kept where ih: "erase_loop P ?h ds = Inr (h', kept)" "distinct kept" "set kept \<subseteq> set ds"
      "map (\<lambda>d. the (cells ?h d)) kept = filter (\<lambda>d. \<not> P d) (map (\<lambda>d. the (cells ?h d)) ds)"
      "cells h' = (\<lambda>d. if d \<in> set ds \<and> d \<notin> set kept then None else cells ?h d)" "next_addr h' = next_addr ?h" by blast
    have same: "cells ?h x = cells h x" if "x \<in> set ds" for x using that Cons.prems(1) by auto
    then have "map (\<lambda>d. the (cells ?h d)) ds = map (\<lambda>d. the (cells h d)) ds"
      "map (\<lambda>d. the (cells ?h d)) kept = map (\<lambda>d. the (cells h d)) kept" using subsetD [OF ih(3)] by simp_all
    with ih(4) have keep: "map (\<lambda>d. the (cells h d)) kept = filter (\<lambda>d. \<not> P d) (map (\<lambda>d. the (cells h d)) ds)" by simp
    have "d \<notin> set ds" using Cons.prems(1) by simp
    show ?case
    proof (cases "P desc")
      case True
      then have "erase_loop P h (d # ds) = Inr (h', kept)" using ih(1) desc by (simp add: delete_obj_def)
      then show ?thesis using True ih desc keep \<open>d \<notin> set ds\<close> by (auto simp: fun_eq_iff heap_delete_def)
    next
      case False
      then have "erase_loop P h (d # ds) = Inr (h', d # kept)" using ih(1) desc by simp
      then show ?thesis using False ih desc keep \<open>d \<notin> set ds\<close> by (auto simp: fun_eq_iff)
    qed
  qed
qed

lemma erase_first_erases: "erases (erase_first P) (drop_first P)"
  unfolding erases_def
proof (intro allI impI)
  fix h ds
  assume "distinct ds" "set ds \<subseteq> live (h :: descriptor heap)"
  then show "\<exists>h' kept. erase_first P h ds = Inr (h', kept) \<and> distinct kept \<and> set kept \<subseteq> set ds \<and>
        map (\<lambda>d. the (cells h d)) kept = drop_first P (map (\<lambda>d. the (cells h d)) ds) \<and>
        cells h' = (\<lambda>d. if d \<in> set ds \<and> d \<notin> set kept then None else cells h d) \<and> next_addr h' = next_addr h"
  proof (induction ds)
    case Nil
    then show ?case by simp
  next
    case (Cons d ds)
    obtain desc where desc: "cells h d = Some desc" using Cons.prems(2) by auto
    show ?case
    proof (cases "P desc")
      case True
      then have "erase_first P h (d # ds) = Inr (heap_delete h d, ds)" using desc by (simp add: delete_obj_def)
      then show ?thesis using Cons.prems True desc by (auto simp: heap_delete_def fun_eq_iff)
    next
      case False
      obtain h' kept where "erase_first P h ds = Inr (h', kept)" "distinct kept" "set kept \<subseteq> set ds"
        "map (\<lambda>d. the (cells h d)) kept = drop_first P (map (\<lambda>d. the (cells h d)) ds)"
        "cells h' = (\<lambda>d. if d \<in> set ds \<and> d \<notin> set kept then None else cells h d)" "next_addr h' = next_addr h"
        using Cons.IH Cons.prems by auto
      then show ?thesis using False desc Cons.prems by (auto simp: fun_eq_iff)
    qed
  qed
qed

lemma ev_erase_ok:
  assumes inv: "ev_inv B s" and loop: "erases loop keep" and nil: "keep [] = []"
  shows "\<exists>s'. ev_erase loop s t = Inr s' \<and> ev_inv B s' \<and> extends s s' \<and> v_resolveMap s' = v_resolveMap s \<and>
    ev_observers s' = (ev_observers s)(t := keep (ev_observers s t)) \<and>
    (\<forall>t'. set (desc_ptrs s' t') \<subseteq> set (desc_ptrs s t')) \<and>
    live (v_descs s') = live (v_descs s) - (set (desc_ptrs s t) - set (desc_ptrs s' t))"
proof (cases "v_observers s t")
  case None
  then have "desc_ptrs s t = []" "ev_erase loop s t = Inr s" by (simp_all add: desc_ptrs_def ev_erase_def ev_GetObservers_def)
  then show ?thesis using inv nil by (simp add: ev_observers_def fun_eq_iff)
next
  case (Some v)
  have obs: "observers_inv s" using inv by (simp add: ev_inv_def)
  have v: "v \<in> live (v_vectors s)" using obs ranI [of "v_observers s" t v, OF Some] by (auto simp: observers_inv_def)
  then have read: "heap_read (v_vectors s) v = Inr (desc_ptrs s t)" using Some by (auto simp: desc_ptrs_def)
  have "distinct (desc_ptrs s t)" "set (desc_ptrs s t) \<subseteq> live (v_descs s)" using obs by (simp_all add: observers_inv_def)
  with loop obtain h kept where h: "loop (v_descs s) (desc_ptrs s t) = Inr (h, kept)" "distinct kept" "set kept \<subseteq> set (desc_ptrs s t)"
    "map (\<lambda>d. the (cells (v_descs s) d)) kept = keep (ev_observers s t)"
    "cells h = (\<lambda>d. if d \<in> set (desc_ptrs s t) \<and> d \<notin> set kept then None else cells (v_descs s) d)"
    "next_addr h = next_addr (v_descs s)" unfolding erases_def ev_observers_def by blast
  let ?s = "s\<lparr>v_descs := h, v_vectors := heap_write (v_vectors s) v kept\<rparr>"
  have erase: "ev_erase loop s t = Inr ?s" using Some read h(1) by (simp add: ev_erase_def ev_GetObservers_def)
  have other: "v_observers s t' \<noteq> Some v" if "t' \<noteq> t" for t'
    using obs Some that by (metis observers_inv_def inj_onD domI)
  have ptrs: "desc_ptrs ?s t' = (if t' = t then kept else desc_ptrs s t')" for t'
    using Some other by (auto simp: desc_ptrs_def split: option.split)
  have stay: "cells h d = cells (v_descs s) d" if "d \<in> set (desc_ptrs ?s t')" for d t'
  proof (cases "t' = t")
    case True
    then show ?thesis using that by (simp add: ptrs h(5))
  next
    case False
    then have "set (desc_ptrs s t') \<inter> set (desc_ptrs s t) = {}" using obs by (simp add: observers_inv_def)
    then show ?thesis using that False by (auto simp: ptrs h(5))
  qed
  have live_h: "live h = live (v_descs s) - (set (desc_ptrs s t) - set kept)" by (auto simp: h(5) split: if_splits)
  have sub: "set (desc_ptrs ?s t') \<subseteq> set (desc_ptrs s t')" for t' using h(3) by (simp add: ptrs)
  have "observers_inv ?s"
    unfolding observers_inv_def
  proof (intro conjI allI impI)
    show "heap_ok (v_vectors ?s)" using obs v by (auto simp: observers_inv_def)
    show "heap_ok (v_descs ?s)" using obs live_h h(6) by (auto simp: observers_inv_def heap_ok_def)
    show "ran (v_observers ?s) \<subseteq> live (v_vectors ?s)" using obs by (auto simp: observers_inv_def)
    show "set (desc_ptrs ?s t') \<subseteq> live (v_descs ?s)" for t'
    proof
      fix d
      assume d: "d \<in> set (desc_ptrs ?s t')"
      then have "d \<in> set (desc_ptrs s t')" using sub by blast
      then have "d \<in> live (v_descs s)" using obs unfolding observers_inv_def by blast
      then show "d \<in> live (v_descs ?s)" using stay [OF d] by (simp add: domIff)
    qed
    show "distinct (desc_ptrs ?s t')" for t' using obs h(2) by (simp add: ptrs observers_inv_def)
    show "set (desc_ptrs ?s t1) \<inter> set (desc_ptrs ?s t2) = {}" if "t1 \<noteq> t2" for t1 t2
      using that sub obs by (meson disjoint_iff observers_inv_def subsetD)
  qed (use obs in \<open>simp_all add: observers_inv_def\<close>)
  then have "ev_inv B ?s" using inv by (simp add: ev_inv_def topics_inv_def messages_inv_def)
  moreover have "ev_observers ?s = (ev_observers s)(t := keep (ev_observers s t))"
  proof
    fix t'
    have "map (\<lambda>d. the (cells h d)) (desc_ptrs ?s t') = map (\<lambda>d. the (cells (v_descs s) d)) (desc_ptrs ?s t')"
      using stay by (intro map_cong) simp_all
    then have "ev_observers ?s t' = map (\<lambda>d. the (cells (v_descs s) d)) (desc_ptrs ?s t')" by (simp add: ev_observers_def)
    then show "ev_observers ?s t' = ((ev_observers s)(t := keep (ev_observers s t))) t'"
      using h(4) by (simp add: ptrs) (simp add: ev_observers_def)
  qed
  ultimately show ?thesis using erase sub live_h ptrs by (intro exI [of _ ?s]) (simp add: extends_def)
qed

lemma map_le_fresh: "m x = None \<Longrightarrow> m \<subseteq>\<^sub>m m(x \<mapsto> y)"
  by (auto simp: map_le_def)

lemma messages_inv_obj:
  "messages_inv B s \<Longrightarrow> cells (v_messages s) m = Some msg \<Longrightarrow> e_obj msg = Some p \<Longrightarrow> p \<in> live (v_payloads s)"
  unfolding messages_inv_def by blast

lemma messages_inv_own:
  "messages_inv B s \<Longrightarrow> cells (v_messages s) m = Some msg \<Longrightarrow> e_obj msg = Some p \<Longrightarrow> e_cleanup msg \<Longrightarrow>
   cells (v_messages s) m' = Some msg' \<Longrightarrow> m' \<noteq> m \<Longrightarrow> e_obj msg' \<noteq> Some p"
  unfolding messages_inv_def by blast

text \<open>A client's new payload is not the payload of any message yet.\<close>

definition unused :: "evq \<Rightarrow> nat option \<Rightarrow> bool" where
  "unused s obj \<longleftrightarrow> (\<forall>p. obj = Some p \<longrightarrow> p \<in> live (v_payloads s) \<and>
     (\<forall>m msg. cells (v_messages s) m = Some msg \<longrightarrow> e_obj msg \<noteq> Some p))"

text \<open>
  What can be posted as a payload: a live object, and if it is to be cleaned up after this
  or another pending dispatch, then it is posted only once.
\<close>

definition postable :: "evq \<Rightarrow> nat option \<Rightarrow> bool \<Rightarrow> bool" where
  "postable s obj cleanup \<longleftrightarrow> (\<forall>p. obj = Some p \<longrightarrow> p \<in> live (v_payloads s) \<and>
     (\<forall>m msg. cells (v_messages s) m = Some msg \<longrightarrow> e_obj msg = Some p \<longrightarrow> \<not> cleanup \<and> \<not> e_cleanup msg))"

lemma unused_postable: "unused s obj \<Longrightarrow> postable s obj cleanup"
  by (auto simp: unused_def postable_def)

lemma make_payload_ok:
  assumes inv: "ev_inv B s" and mk: "make_payload s body = (s1, obj)"
  shows "ev_inv B s1" "extends s s1" "unused s1 obj" "ev_observers s1 = ev_observers s" "v_resolveMap s1 = v_resolveMap s"
    "v_messages s1 = v_messages s" "v_queue s1 = v_queue s"
    "(case obj of None \<Rightarrow> None | Some p \<Rightarrow> cells (v_payloads s1) p) = body" "(obj = None) = (body = None)"
proof -
  have ok: "heap_ok (v_payloads s)" using inv by (simp add: ev_inv_def messages_inv_def)
  note fresh = heap_ok_fresh [OF ok]
  have all: "ev_inv B s1 \<and> extends s s1 \<and> unused s1 obj \<and> ev_observers s1 = ev_observers s \<and> v_resolveMap s1 = v_resolveMap s \<and>
    v_messages s1 = v_messages s \<and> v_queue s1 = v_queue s \<and>
    (case obj of None \<Rightarrow> None | Some p \<Rightarrow> cells (v_payloads s1) p) = body \<and> (obj = None) = (body = None)"
  proof (cases body)
    case None
    then show ?thesis using inv mk by (simp add: make_payload_def unused_def)
  next
    case (Some t)
    let ?p = "next_addr (v_payloads s)"
    have s1: "s1 = s\<lparr>v_payloads := fst (heap_new (v_payloads s) t)\<rparr>" and obj: "obj = Some ?p"
      using mk Some by (auto simp: make_payload_def ev_new_payload_def heap_new_def)
    have cells: "cells (v_payloads s1) = (cells (v_payloads s))(?p \<mapsto> t)" by (simp add: s1 heap_new_def)
    have ptrs: "desc_ptrs s1 = desc_ptrs s" by (rule ev_observers_frame) (simp_all add: s1)
    have "e_obj msg \<noteq> Some ?p" if "cells (v_messages s) m = Some msg" for m msg
      using messages_inv_obj [of B s m msg ?p] that inv fresh by (auto simp: ev_inv_def)
    then have "unused s1 obj" using obj cells by (auto simp: unused_def s1)
    moreover have "messages_inv B s1"
      using inv heap_ok_new [OF ok, of t] by (auto simp: ev_inv_def messages_inv_def s1 heap_new_def)
    then have "ev_inv B s1" using inv ptrs by (simp add: ev_inv_def topics_inv_def observers_inv_def s1)
    moreover have "extends s s1" using map_le_fresh [of "cells (v_payloads s)", OF fresh] by (simp add: extends_def s1 heap_new_def)
    moreover have "ev_observers s1 = ev_observers s" by (rule ev_observers_eq) (simp_all add: s1)
    moreover have "v_resolveMap s1 = v_resolveMap s" "v_messages s1 = v_messages s" "v_queue s1 = v_queue s" by (simp_all add: s1)
    ultimately show ?thesis by (simp add: obj cells Some)
  qed
  from all show "ev_inv B s1" "extends s s1" "unused s1 obj" "ev_observers s1 = ev_observers s" "v_resolveMap s1 = v_resolveMap s"
    "v_messages s1 = v_messages s" "v_queue s1 = v_queue s"
    "(case obj of None \<Rightarrow> None | Some p \<Rightarrow> cells (v_payloads s1) p) = body" "(obj = None) = (body = None)" by simp_all
qed

lemma ev_Post_postable:
  assumes inv: "ev_inv B s" and obj: "postable s obj cleanup"
  shows "ev_inv B (ev_Post s tid obj cleanup)" "extends s (ev_Post s tid obj cleanup)"
    "ev_observers (ev_Post s tid obj cleanup) = ev_observers s"
    "v_resolveMap (ev_Post s tid obj cleanup) = v_resolveMap s"
    "ev_pending (ev_Post s tid obj cleanup) =
       ev_pending s @ (if 0 \<le> tid then [\<lparr>e_tid = word_of_int tid, e_obj = obj, e_cleanup = cleanup\<rparr>] else [])"
proof -
  let ?s = "ev_Post s tid obj cleanup"
  let ?msg = "\<lparr>e_tid = word_of_int tid, e_obj = obj, e_cleanup = cleanup\<rparr>"
  let ?m = "next_addr (v_messages s)"
  have msgs: "messages_inv B s" using inv by (simp add: ev_inv_def)
  then have ok: "heap_ok (v_messages s)" and live: "live (v_messages s) = set (B @ v_queue s)" by (simp_all add: messages_inv_def)
  note fresh = heap_ok_fresh [OF ok]
  then have new: "?m \<notin> set (B @ v_queue s)" using live by (metis domIff)
  have all: "ev_inv B ?s \<and> extends s ?s \<and> ev_observers ?s = ev_observers s \<and> v_resolveMap ?s = v_resolveMap s \<and>
    ev_pending ?s = ev_pending s @ (if 0 \<le> tid then [?msg] else [])"
  proof (cases "0 \<le> tid")
    case False
    then show ?thesis using inv by (simp add: ev_Post_def)
  next
    case True
    then have s': "?s = s\<lparr>v_messages := fst (heap_new (v_messages s) ?msg), v_queue := v_queue s @ [?m]\<rparr>"
      by (simp add: ev_Post_def heap_new_def)
    have cells: "cells (v_messages ?s) = (cells (v_messages s))(?m \<mapsto> ?msg)" by (simp add: s' heap_new_def)
    have ptrs: "desc_ptrs ?s = desc_ptrs s" by (rule ev_observers_frame) (simp_all add: s')
    have "messages_inv B ?s"
      unfolding messages_inv_def
    proof (intro conjI allI impI)
      show "heap_ok (v_messages ?s)" using heap_ok_new [OF ok, of ?msg] by (simp add: s')
      show "heap_ok (v_payloads ?s)" using msgs by (simp add: s' messages_inv_def)
      show "distinct (B @ v_queue ?s)" using msgs new by (simp add: s' messages_inv_def)
      have "live (v_messages ?s) = insert ?m (live (v_messages s))" by (simp add: cells)
      then show "live (v_messages ?s) = set (B @ v_queue ?s)" using live s' by simp
      fix m msg p
      assume m: "cells (v_messages ?s) m = Some msg" "e_obj msg = Some p"
      show "p \<in> live (v_payloads ?s)"
        using m obj messages_inv_obj [OF msgs, of m msg p] s' unfolding cells postable_def by (auto split: if_splits)
      show "e_obj msg' \<noteq> Some p" if "e_cleanup msg" "cells (v_messages ?s) m' = Some msg'" "m' \<noteq> m" for m' msg'
        using m obj that messages_inv_own [OF msgs, of m msg p m' msg'] unfolding cells postable_def by (auto split: if_splits)
    qed
    then have "ev_inv B ?s" using inv ptrs by (simp add: ev_inv_def topics_inv_def observers_inv_def s')
    moreover have "ev_pending ?s = ev_pending s @ [?msg]" using new by (auto simp: ev_pending_def cells) (auto simp: s')
    moreover have "extends s ?s" using map_le_fresh [of "cells (v_messages s)", OF fresh] by (simp add: extends_def s' heap_new_def)
    moreover have "ev_observers ?s = ev_observers s" by (rule ev_observers_eq) (simp_all add: s')
    ultimately show ?thesis using True by (simp add: s')
  qed
  then show "ev_inv B ?s" "extends s ?s" "ev_observers ?s = ev_observers s" "v_resolveMap ?s = v_resolveMap s"
    "ev_pending ?s = ev_pending s @ (if 0 \<le> tid then [?msg] else [])" by simp_all
qed

lemmas ev_Post_ok = ev_Post_postable [OF _ unused_postable]

section \<open>Handlers and dispatch\<close>

text \<open>A wait returns at once inside a handler, or if no dispatch is active.\<close>

definition may_wait :: "evq \<Rightarrow> bool" where
  "may_wait s \<longleftrightarrow> v_inDispatch s \<or> v_active s = 0"

lemma ev_WaitForDispatches_ok: "may_wait s \<Longrightarrow> ev_WaitForDispatches s = ret s"
  by (auto simp: ev_WaitForDispatches_def may_wait_def)

lemma extends_may_wait: "extends s s' \<Longrightarrow> may_wait s' \<longleftrightarrow> may_wait s"
  by (simp add: extends_def may_wait_def)

text \<open>The three ways to make a descriptor and add it.\<close>

lemma ev_add_ok:
  assumes inv: "ev_inv B s" and t: "snd (ev_RegisterTopic s topic) = t"
  shows "\<exists>s'. (let (s1, d) = ev_new_descriptor s desc in ev_AddDescriptor s1 topic (Some d)) =
      Inr (s', if t < 0 then 0 else v_nextObserverId s) \<and>
    ev_inv B s' \<and> extends s s' \<and> v_resolveMap s' = v_resolveMap (fst (ev_RegisterTopic s topic)) \<and>
    v_nextObserverId s' = (if t < 0 then v_nextObserverId s else v_nextObserverId s + 1) \<and>
    ev_observers s' = (if t < 0 then ev_observers s
      else (ev_observers s)(t := ev_observers s t @ [desc\<lparr>d_observerId := v_nextObserverId s\<rparr>]))"
proof -
  obtain s1 d where new: "ev_new_descriptor s desc = (s1, d)" by fastforce
  note s1 = ev_new_descriptor_ok [OF inv new]
  have "snd (ev_RegisterTopic s1 topic) = t" "v_resolveMap (fst (ev_RegisterTopic s1 topic)) = v_resolveMap (fst (ev_RegisterTopic s topic))"
    using t by (auto simp: ev_RegisterTopic_def s1(7,8) split: option.splits)
  with ev_AddDescriptor_ok [OF s1(1,3,4), of topic] s1(2,5,6) show ?thesis
    by (auto simp: new intro: extends_trans)
qed

lemma ev_remove_ok:
  assumes inv: "ev_inv B s" and wait: "may_wait s" and loop: "erases loop keep" and nil: "keep [] = []"
  shows "\<exists>s'. rbind (Some (ev_erase loop s t)) ev_WaitForDispatches = ret s' \<and> ev_inv B s' \<and> extends s s' \<and>
    v_resolveMap s' = v_resolveMap s \<and> ev_observers s' = (ev_observers s)(t := keep (ev_observers s t)) \<and>
    live (v_descs s') = live (v_descs s) - (set (desc_ptrs s t) - set (desc_ptrs s' t))"
  using ev_erase_ok [OF inv loop nil, of t] wait extends_may_wait ev_WaitForDispatches_ok by fastforce

lemma ev_command_ok:
  assumes inv: "ev_inv B s" and wait: "may_wait s"
  shows "\<exists>s'. ev_command s c = ret s' \<and> ev_inv B s' \<and> extends s s'"
proof (cases c)
  case (CmdPost tid body cleanup)
  obtain s1 obj where mk: "make_payload s body = (s1, obj)" by fastforce
  note s1 = make_payload_ok [OF inv mk]
  show ?thesis using CmdPost mk ev_Post_ok(1,2) [OF s1(1,3)] extends_trans [OF s1(2)] by auto
next
  case (CmdPostTopic topic body cleanup)
  obtain s1 obj where mk: "make_payload s body = (s1, obj)" by fastforce
  note s1 = make_payload_ok [OF inv mk]
  show ?thesis using CmdPostTopic mk ev_Post_ok(1,2) [OF s1(1,3)] extends_trans [OF s1(2)] by (auto simp: ev_PostTopic_def)
next
  case (CmdAddCallback topic cb)
  then show ?thesis using ev_add_ok [OF inv, where desc = "new_descriptor\<lparr>d_callback := cb\<rparr>" and topic = topic, OF refl] by (auto simp: ev_AddCallback_def)
next
  case (CmdAddMethod topic inst cb)
  then show ?thesis
    using ev_add_ok [OF inv, where desc = "new_descriptor\<lparr>d_callbackMethod := cb, d_observerInstance := inst\<rparr>" and topic = topic, OF refl]
    by (auto simp: ev_AddMethod_def)
next
  case (CmdAddFunc topic cb)
  then show ?thesis using ev_add_ok [OF inv, where desc = "new_descriptor\<lparr>d_callbackFunc := cb\<rparr>" and topic = topic, OF refl] by (auto simp: ev_AddFunc_def)
next
  case (CmdAddDescriptor topic desc)
  then show ?thesis using ev_add_ok [OF inv, where desc = desc and topic = topic, OF refl] by (auto split: prod.splits)
next
  case (CmdRemoveById topic i)
  then show ?thesis
    using inv ev_remove_ok [OF inv wait erase_first_erases [of "\<lambda>desc. d_observerId desc = i"], of "ev_ResolveTopic s topic"]
    by (auto simp: ev_RemoveById_def)
qed (use inv in \<open>auto simp: ev_RegisterTopic_ok ev_ClearTopics_ok ev_RemoveCallback_def ev_RemoveMethod_def
      dest: ev_remove_ok [OF _ wait erase_loop_erases]\<close>)

lemma ev_commands_ok:
  assumes "ev_inv B s" and "may_wait s"
  shows "\<exists>s'. ev_commands s cs = ret s' \<and> ev_inv B s' \<and> extends s s'"
  using assms
proof (induction cs arbitrary: s)
  case Nil
  then show ?case by simp
next
  case (Cons c cs)
  obtain s1 where s1: "ev_command s c = ret s1" "ev_inv B s1" "extends s s1" using ev_command_ok [OF Cons.prems, of c] by blast
  then obtain s2 where "ev_commands s1 cs = ret s2" "ev_inv B s2" "extends s1 s2"
    using Cons.IH [of s1] Cons.prems(2) extends_may_wait by blast
  with s1 show ?case by (auto intro: extends_trans)
qed

text \<open>The handlers that a list of descriptors leads to, and the text a message carries.\<close>

definition targets :: "descriptor list \<Rightarrow> target list" where
  "targets ds = map the (filter (\<lambda>t. t \<noteq> None) (map descriptor_target ds))"

definition msg_text :: "evq \<Rightarrow> nat \<Rightarrow> string option" where
  "msg_text s m = map_option (\<lambda>p. the (cells (v_payloads s) p)) (e_obj (the (cells (v_messages s) m)))"

lemma targets_simps [simp]:
  "targets [] = []"
  "targets (d # ds) = (case descriptor_target d of None \<Rightarrow> targets ds | Some t \<Rightarrow> t # targets ds)"
  by (simp_all add: targets_def split: option.split)

lemma ev_view_ok:
  assumes "messages_inv B s" and "cells (v_messages s) m = Some msg"
  shows "ev_view s m = Inr (msg_text s m)"
  using messages_inv_obj [OF assms] assms(2) by (auto simp: ev_view_def msg_text_def split: option.split)

lemma msg_text_extends:
  assumes "messages_inv B s" and "cells (v_messages s) m = Some msg" and "extends s s'"
  shows "msg_text s' m = msg_text s m" "cells (v_messages s') m = Some msg"
proof -
  have le: "cells (v_messages s) \<subseteq>\<^sub>m cells (v_messages s')" "cells (v_payloads s) \<subseteq>\<^sub>m cells (v_payloads s')"
    using assms(3) by (simp_all add: extends_def)
  then show m: "cells (v_messages s') m = Some msg" using assms(2) by (auto simp: map_le_def dom_def)
  show "msg_text s' m = msg_text s m"
    using le(2) messages_inv_obj [OF assms(1,2)] assms(2) m by (cases "e_obj msg") (auto simp: msg_text_def map_le_def dom_def)
qed

lemma ev_inv_log [simp]: "ev_inv B (s\<lparr>v_log := l\<rparr>) = ev_inv B s"
proof -
  have "desc_ptrs (s\<lparr>v_log := l\<rparr>) = desc_ptrs s" by (rule ev_observers_frame) simp_all
  then show ?thesis by (simp add: ev_inv_def topics_inv_def observers_inv_def messages_inv_def)
qed

lemma messages_inv_log [simp]: "messages_inv B (s\<lparr>v_log := l\<rparr>) = messages_inv B s"
  by (simp add: messages_inv_def)

lemma msg_text_log [simp]: "msg_text (s\<lparr>v_log := l\<rparr>) m = msg_text s m"
  by (simp add: msg_text_def)

lemma extends_log: "extends (s\<lparr>v_log := l\<rparr>) s1 \<Longrightarrow> extends (s1\<lparr>v_log := l'\<rparr>) s2 \<Longrightarrow> extends (s\<lparr>v_log := l'\<rparr>) s2"
  by (auto simp: extends_def intro: map_le_trans)

lemma ev_invoke_all_ok:
  assumes "ev_inv B s" and "may_wait s" and "cells (v_messages s) m = Some msg"
  shows "\<exists>s'. ev_invoke_all H tid m ds s = ret s' \<and> ev_inv B s' \<and>
    extends (s\<lparr>v_log := v_log s @ map (\<lambda>t. ECall t tid (msg_text s m)) (targets ds)\<rparr>) s'"
  using assms
proof (induction ds arbitrary: s)
  case Nil
  then show ?case by simp
next
  case (Cons d ds)
  show ?case
  proof (cases "descriptor_target d")
    case None
    then show ?thesis using Cons by simp
  next
    case (Some t)
    have msgs: "messages_inv B s" using Cons.prems(1) by (simp add: ev_inv_def)
    let ?text = "msg_text s m"
    let ?s = "s\<lparr>v_log := v_log s @ [ECall t tid ?text]\<rparr>"
    have "ev_inv B ?s" "may_wait ?s" using Cons.prems by (simp_all add: may_wait_def)
    from ev_commands_ok [OF this, of "H t tid ?text"] obtain s1 where
      s1: "ev_commands ?s (H t tid ?text) = ret s1" "ev_inv B s1" "extends ?s s1" by blast
    have log: "v_log s1 = v_log s @ [ECall t tid ?text]" using s1(3) by (simp add: extends_def)
    have "extends s (s1\<lparr>v_log := v_log s\<rparr>)" using s1(3) by (simp add: extends_def)
    from msg_text_extends [OF msgs Cons.prems(3) this] have m1: "msg_text s1 m = ?text" "cells (v_messages s1) m = Some msg"
      by (simp_all add: msg_text_def)
    have "may_wait s1" using s1(3) Cons.prems(2) by (simp add: extends_def may_wait_def)
    from Cons.IH [OF s1(2) this m1(2)] obtain s2 where s2: "ev_invoke_all H tid m ds s1 = ret s2" "ev_inv B s2"
      "extends (s1\<lparr>v_log := v_log s1 @ map (\<lambda>t. ECall t tid ?text) (targets ds)\<rparr>) s2" by (auto simp: m1(1))
    have "ev_invoke_all H tid m (d # ds) s = ret s2"
      using Some s1(1) s2(1) ev_view_ok [OF msgs Cons.prems(3)] by simp
    moreover have "extends (s\<lparr>v_log := v_log s @ map (\<lambda>t. ECall t tid ?text) (targets (d # ds))\<rparr>) s2"
      using extends_log [OF s1(3) s2(3)] Some log by simp
    ultimately show ?thesis using s2(2) by blast
  qed
qed

lemma ev_snapshot_ok:
  assumes "observers_inv s"
  shows "ev_snapshot s tid = Inr (ev_observers s tid)"
proof (cases "v_observers s tid")
  case None
  then show ?thesis by (simp add: ev_snapshot_def ev_GetObservers_def ev_observers_def desc_ptrs_def)
next
  case (Some v)
  then have "v \<in> live (v_vectors s)" using assms ranI [of "v_observers s" tid v] by (auto simp: observers_inv_def)
  moreover have "set (desc_ptrs s tid) \<subseteq> live (v_descs s)" using assms by (simp add: observers_inv_def)
  ultimately show ?thesis using Some read_all_live [of "desc_ptrs s tid" "v_descs s"]
    by (auto simp: ev_snapshot_def ev_GetObservers_def ev_observers_def desc_ptrs_def)
qed

text \<open>The end of a dispatch: the message goes, and its payload if it is to be cleaned up.\<close>

lemma ev_delete_message_ok:
  assumes inv: "ev_inv (m # B) s" and msg: "cells (v_messages s) m = Some msg"
  shows "\<exists>s'. ev_delete_message s m = Inr s' \<and> ev_inv B s' \<and> v_active s' = v_active s \<and> v_inDispatch s' = v_inDispatch s \<and>
    v_log s' = v_log s \<and> v_queue s' = v_queue s \<and> ev_observers s' = ev_observers s \<and> v_resolveMap s' = v_resolveMap s \<and>
    live (v_messages s') = live (v_messages s) - {m} \<and>
    live (v_payloads s') = live (v_payloads s) - (if e_cleanup msg then set_option (e_obj msg) else {}) \<and>
    ev_pending s' = ev_pending s \<and> cells (v_messages s') = (cells (v_messages s))(m := None) \<and>
    (\<forall>p \<in> live (v_payloads s'). cells (v_payloads s') p = cells (v_payloads s) p)"
proof -
  have msgs: "messages_inv (m # B) s" using inv by (simp add: ev_inv_def)
  let ?gone = "if e_cleanup msg then set_option (e_obj msg) else {}"
  define ps where "ps = (case e_obj msg of Some p \<Rightarrow> if e_cleanup msg then heap_delete (v_payloads s) p else v_payloads s
      | None \<Rightarrow> v_payloads s)"
  have ps: "(case e_obj msg of Some p \<Rightarrow> if e_cleanup msg then delete_obj (v_payloads s) p else Inr (v_payloads s)
      | None \<Rightarrow> Inr (v_payloads s)) = Inr ps" "cells ps = (\<lambda>p. if p \<in> ?gone then None else cells (v_payloads s) p)"
    "next_addr ps = next_addr (v_payloads s)"
    using messages_inv_obj [OF msgs msg] by (cases "e_obj msg"; auto simp: ps_def delete_obj_def heap_delete_def fun_eq_iff)+
  let ?s = "s\<lparr>v_payloads := ps, v_messages := heap_delete (v_messages s) m\<rparr>"
  have del: "ev_delete_message s m = Inr ?s" using msg ps(1) by (simp add: ev_delete_message_def delete_obj_def)
  have live: "live ps = live (v_payloads s) - ?gone" by (auto simp: ps(2) split: if_splits)
  have "messages_inv B ?s"
    unfolding messages_inv_def
  proof (intro conjI allI impI)
    show "heap_ok (v_messages ?s)" using msgs by (simp add: messages_inv_def heap_ok_delete)
    show "heap_ok (v_payloads ?s)" using msgs live ps(3) by (auto simp: messages_inv_def heap_ok_def)
    show "distinct (B @ v_queue ?s)" using msgs by (simp add: messages_inv_def)
    show "live (v_messages ?s) = set (B @ v_queue ?s)" using msgs by (auto simp: messages_inv_def)
    fix m1 msg1 p
    assume m1: "cells (v_messages ?s) m1 = Some msg1" "e_obj msg1 = Some p"
    then have old: "m1 \<noteq> m" "cells (v_messages s) m1 = Some msg1" by (auto split: if_splits)
    have "p \<notin> ?gone" using messages_inv_own [OF msgs msg _ _ old(2,1), of p] m1(2) by auto
    then show "p \<in> live (v_payloads ?s)" using live messages_inv_obj [OF msgs old(2) m1(2)] by simp
    show "e_obj msg' \<noteq> Some p" if "e_cleanup msg1" "cells (v_messages ?s) m' = Some msg'" "m' \<noteq> m1" for m' msg'
      using messages_inv_own [OF msgs old(2) m1(2) that(1), of m' msg'] that by (auto split: if_splits)
  qed
  moreover have ptrs: "desc_ptrs ?s = desc_ptrs s" by (rule ev_observers_frame) simp_all
  ultimately have "ev_inv B ?s" using inv by (simp add: ev_inv_def topics_inv_def observers_inv_def)
  moreover have "ev_observers ?s = ev_observers s" by (rule ev_observers_eq) simp_all
  moreover have "live (v_messages ?s) = live (v_messages s) - {m}" by auto
  moreover have "m \<notin> set (v_queue s)" using msgs by (simp add: messages_inv_def)
  then have "ev_pending ?s = ev_pending s" by (auto simp: ev_pending_def)
  moreover have "cells ps p = cells (v_payloads s) p" if "p \<in> live ps" for p using that by (auto simp: ps(2) split: if_splits)
  ultimately show ?thesis using del live by (intro exI [of _ ?s]) simp
qed

lemma messages_inv_mark [simp]:
  "messages_inv B (ev_MarkDispatchActive s) = messages_inv B s" "messages_inv B (ev_MarkDispatchComplete s) = messages_inv B s"
  by (simp_all add: ev_MarkDispatchActive_def ev_MarkDispatchComplete_def messages_inv_def)

lemma ev_inv_mark [simp]:
  "ev_inv B (ev_MarkDispatchActive s) = ev_inv B s" "ev_inv B (ev_MarkDispatchComplete s) = ev_inv B s"
proof -
  have "desc_ptrs (ev_MarkDispatchActive s) = desc_ptrs s" "desc_ptrs (ev_MarkDispatchComplete s) = desc_ptrs s"
    by (rule ev_observers_frame; simp add: ev_MarkDispatchActive_def ev_MarkDispatchComplete_def)+
  then show "ev_inv B (ev_MarkDispatchActive s) = ev_inv B s" "ev_inv B (ev_MarkDispatchComplete s) = ev_inv B s"
    by (simp_all add: ev_inv_def topics_inv_def observers_inv_def messages_inv_def ev_MarkDispatchActive_def
        ev_MarkDispatchComplete_def)
qed

lemma ev_pending_extends:
  assumes "messages_inv B s" and "extends s s'"
  shows "\<exists>new. ev_pending s' = ev_pending s @ new"
proof -
  obtain new where q: "v_queue s' = v_queue s @ new" and le: "cells (v_messages s) \<subseteq>\<^sub>m cells (v_messages s')"
    using assms(2) by (auto simp: extends_def)
  have "set (v_queue s) \<subseteq> live (v_messages s)" using assms(1) by (auto simp: messages_inv_def)
  then have "cells (v_messages s') m = cells (v_messages s) m" if "m \<in> set (v_queue s)" for m
    using that le unfolding map_le_def by (metis subsetD)
  then show ?thesis by (simp add: ev_pending_def q)
qed

lemma ev_Dispatch_ok:
  assumes inv: "ev_inv (m # B) s" and msg: "cells (v_messages s) m = Some msg"
  shows "\<exists>s'. ev_Dispatch H tid (Some m) s = ret s' \<and> ev_inv B s' \<and> v_active s' = v_active s \<and> \<not> v_inDispatch s' \<and>
    v_log s' = v_log s @ map (\<lambda>t. ECall t tid (msg_text s m)) (targets (ev_observers s tid)) \<and>
    (\<exists>new. ev_pending s' = ev_pending s @ new) \<and> cells (v_messages s') m = None \<and>
    (\<forall>p. e_obj msg = Some p \<longrightarrow> (p \<in> live (v_payloads s') \<longleftrightarrow> \<not> e_cleanup msg))"
proof -
  let ?s = "ev_MarkDispatchActive s"
  have obs: "observers_inv s" and msgs: "messages_inv (m # B) s" using inv by (simp_all add: ev_inv_def)
  have "ev_inv (m # B) ?s" "may_wait ?s" "cells (v_messages ?s) m = Some msg" "msg_text ?s m = msg_text s m"
    using inv msg by (simp_all only: ev_inv_mark) (simp_all add: ev_MarkDispatchActive_def may_wait_def msg_text_def)
  from ev_invoke_all_ok [OF this(1-3), of H tid "ev_observers s tid", unfolded this(4)] obtain s1 where
    s1: "ev_invoke_all H tid m (ev_observers s tid) ?s = ret s1" "ev_inv (m # B) s1"
      "extends (?s\<lparr>v_log := v_log ?s @ map (\<lambda>t. ECall t tid (msg_text s m)) (targets (ev_observers s tid))\<rparr>) s1" by blast
  let ?s2 = "ev_MarkDispatchComplete s1"
  have ext: "extends s (?s2\<lparr>v_log := v_log s, v_active := v_active s, v_inDispatch := v_inDispatch s\<rparr>)"
    using s1(3) by (simp add: extends_def ev_MarkDispatchActive_def ev_MarkDispatchComplete_def)
  have msg2: "cells (v_messages ?s2) m = Some msg" using msg_text_extends(2) [OF msgs msg ext] by simp
  have pend: "\<exists>new. ev_pending ?s2 = ev_pending s @ new" using ev_pending_extends [OF msgs ext] by (simp add: ev_pending_def)
  have "ev_inv (m # B) ?s2" using s1(2) by simp
  from ev_delete_message_ok [OF this msg2] obtain s' where
    s': "ev_delete_message ?s2 m = Inr s'" "ev_inv B s'" "v_active s' = v_active ?s2" "v_inDispatch s' = v_inDispatch ?s2"
      "v_log s' = v_log ?s2" "live (v_messages s') = live (v_messages ?s2) - {m}"
      "live (v_payloads s') = live (v_payloads ?s2) - (if e_cleanup msg then set_option (e_obj msg) else {})"
      "ev_pending s' = ev_pending ?s2" by blast
  have "ev_Dispatch H tid (Some m) s = ret s'"
    using s1(1) s'(1) by (simp add: ev_Dispatch_def ev_snapshot_ok [OF obs])
  moreover have "p \<in> live (v_payloads ?s2)" if "e_obj msg = Some p" for p
    using messages_inv_obj [of "m # B" ?s2 m msg p] s1(2) msg2 that by (simp add: ev_inv_def ev_MarkDispatchComplete_def messages_inv_def)
  then have "\<forall>p. e_obj msg = Some p \<longrightarrow> (p \<in> live (v_payloads s') \<longleftrightarrow> \<not> e_cleanup msg)" using s'(7) by auto
  moreover have "v_active s' = v_active s" "\<not> v_inDispatch s'"
      "v_log s' = v_log s @ map (\<lambda>t. ECall t tid (msg_text s m)) (targets (ev_observers s tid))"
    using s1(3) s'(3-5) by (simp_all add: extends_def ev_MarkDispatchActive_def ev_MarkDispatchComplete_def)
  moreover have "cells (v_messages s') m = None" using s'(6) by (metis DiffD2 domIff singletonI)
  ultimately show ?thesis using s'(2,8) pend by (intro exI [of _ s']) simp
qed

lemma ev_GetQueueMessage_ok:
  assumes "ev_inv [] s" and "v_queue s = m # ms"
  shows "ev_GetQueueMessage s = (s\<lparr>v_queue := ms\<rparr>, Some m)" "ev_inv [m] (s\<lparr>v_queue := ms\<rparr>)"
    "\<exists>msg. cells (v_messages s) m = Some msg \<and> ev_pending s = msg # ev_pending (s\<lparr>v_queue := ms\<rparr>)"
proof -
  show "ev_GetQueueMessage s = (s\<lparr>v_queue := ms\<rparr>, Some m)" using assms(2) by (simp add: ev_GetQueueMessage_def)
  have "desc_ptrs (s\<lparr>v_queue := ms\<rparr>) = desc_ptrs s" by (rule ev_observers_frame) simp_all
  then show "ev_inv [m] (s\<lparr>v_queue := ms\<rparr>)"
    using assms by (simp add: ev_inv_def topics_inv_def observers_inv_def messages_inv_def)
  have "m \<in> live (v_messages s)" using assms by (simp add: ev_inv_def messages_inv_def)
  then show "\<exists>msg. cells (v_messages s) m = Some msg \<and> ev_pending s = msg # ev_pending (s\<lparr>v_queue := ms\<rparr>)"
    using assms(2) by (auto simp: ev_pending_def)
qed

section \<open>Disposal keeps what it must\<close>

text \<open>Disposal deletes the descriptors of each vector and leaves the vectors, empty.\<close>

lemma dispose_observers_ok:
  assumes "distinct vs" and "set vs \<subseteq> live V" and "\<And>v. v \<in> set vs \<Longrightarrow> distinct (the (cells V v)) \<and> set (the (cells V v)) \<subseteq> live h"
    and "\<And>v w. v \<in> set vs \<Longrightarrow> w \<in> set vs \<Longrightarrow> v \<noteq> w \<Longrightarrow> set (the (cells V v)) \<inter> set (the (cells V w)) = {}"
  shows "\<exists>V' h'. dispose_observers V h vs = Inr (V', h') \<and> live V' = live V \<and>
    live h' = live h - (\<Union>v \<in> set vs. set (the (cells V v)))"
  using assms
proof (induction vs arbitrary: V h)
  case Nil
  then show ?case by simp
next
  case (Cons v vs)
  obtain ds where ds: "cells V v = Some ds" using Cons.prems(2) by auto
  have dv: "distinct ds" "set ds \<subseteq> live h" using Cons.prems(3) [of v] ds by auto
  from delete_all_live [OF this] obtain h1 where h1: "delete_all h ds = Inr h1"
    "cells h1 = (\<lambda>a. if a \<in> set ds then None else cells h a)" by blast
  let ?V = "heap_write V v []"
  have live1: "live h1 = live h - set ds" by (auto simp: h1(2) split: if_splits)
  have same: "cells ?V w = cells V w" if "w \<in> set vs" for w using that Cons.prems(1) by auto
  have disj: "set ds \<inter> set (the (cells V w)) = {}" if "w \<in> set vs" for w
    using Cons.prems(1) Cons.prems(4) [of v w] that ds by auto
  have "\<exists>V' h'. dispose_observers ?V h1 vs = Inr (V', h') \<and> live V' = live ?V \<and>
      live h' = live h1 - (\<Union>w \<in> set vs. set (the (cells ?V w)))"
  proof (rule Cons.IH)
    show "distinct vs" using Cons.prems(1) by simp
    show "set vs \<subseteq> live ?V" using Cons.prems(2) by auto
    show "distinct (the (cells ?V w)) \<and> set (the (cells ?V w)) \<subseteq> live h1" if "w \<in> set vs" for w
      using Cons.prems(3) [of w] disj [OF that] that same [OF that] unfolding live1 by auto
    show "set (the (cells ?V w)) \<inter> set (the (cells ?V w')) = {}" if "w \<in> set vs" "w' \<in> set vs" "w \<noteq> w'" for w w'
      using Cons.prems(4) [of w w'] that same by simp
  qed
  then obtain V' h' where ih: "dispose_observers ?V h1 vs = Inr (V', h')" "live V' = live ?V"
    "live h' = live h1 - (\<Union>w \<in> set vs. set (the (cells ?V w)))" by blast
  have "live ?V = live V" using ds by auto
  moreover have "(\<Union>w \<in> set vs. set (the (cells ?V w))) = (\<Union>w \<in> set vs. set (the (cells V w)))" using same by simp
  ultimately show ?case using ih h1(1) ds live1 by auto
qed

lemma ev_dispose_ok:
  assumes "ev_inv [] s"
  shows "\<exists>s'. ev_dispose s = Inr s' \<and> live (v_messages s') = {} \<and> v_queue s' = [] \<and> (\<forall>t. ev_observers s' t = []) \<and>
    live (v_descs s') = live (v_descs s) - (\<Union>t. set (desc_ptrs s t)) \<and>
    live (v_vectors s') = live (v_vectors s) \<and> v_payloads s' = v_payloads s"
proof -
  have obs: "observers_inv s" and msgs: "messages_inv [] s" using assms by (simp_all add: ev_inv_def)
  from msgs have "distinct (v_queue s)" "set (v_queue s) \<subseteq> live (v_messages s)" by (simp_all add: messages_inv_def)
  from delete_all_live [OF this] obtain ms where ms: "delete_all (v_messages s) (v_queue s) = Inr ms"
    "cells ms = (\<lambda>m. if m \<in> set (v_queue s) then None else cells (v_messages s) m)" by blast
  have "live ms = live (v_messages s) - set (v_queue s)" by (auto simp: ms(2) split: if_splits)
  then have no_msgs: "live ms = {}" using msgs by (simp add: messages_inv_def)
  let ?vs = "observer_vectors s"
  have fin: "finite (dom (v_observers s))" using obs by (simp add: observers_inv_def)
  have vs: "v \<in> set ?vs \<longleftrightarrow> (\<exists>t. v_observers s t = Some v)" for v
    using fin by (force simp: observer_vectors_def)
  have ptrs: "desc_ptrs s t = the (cells (v_vectors s) v)" if "v_observers s t = Some v" for t v
    using that by (simp add: desc_ptrs_def)
  have "inj_on (v_observers s) (dom (v_observers s))" using obs by (simp add: observers_inv_def)
  then have "inj_on (\<lambda>t. the (v_observers s t)) (dom (v_observers s))"
    by (intro inj_onI) (metis domD inj_onD option.sel)
  then have "distinct ?vs" using fin by (simp add: observer_vectors_def distinct_map)
  moreover have "set ?vs \<subseteq> live (v_vectors s)" using obs vs by (auto simp: observers_inv_def ran_def)
  moreover have "distinct (the (cells (v_vectors s) v)) \<and> set (the (cells (v_vectors s) v)) \<subseteq> live (v_descs s)"
    if v: "v \<in> set ?vs" for v
  proof -
    obtain t where "v_observers s t = Some v" using v vs by blast
    then show ?thesis using obs ptrs [of t v] unfolding observers_inv_def by metis
  qed
  moreover have "set (the (cells (v_vectors s) v)) \<inter> set (the (cells (v_vectors s) w)) = {}"
    if vw: "v \<in> set ?vs" "w \<in> set ?vs" "v \<noteq> w" for v w
  proof -
    obtain t u where t: "v_observers s t = Some v" "v_observers s u = Some w" using vw vs by blast
    then have "t \<noteq> u" using vw(3) by auto
    then show ?thesis using obs ptrs [OF t(1)] ptrs [OF t(2)] unfolding observers_inv_def by metis
  qed
  ultimately obtain V h where d: "dispose_observers (v_vectors s) (v_descs s) ?vs = Inr (V, h)" "live V = live (v_vectors s)"
    "live h = live (v_descs s) - (\<Union>v \<in> set ?vs. set (the (cells (v_vectors s) v)))"
    using dispose_observers_ok [of ?vs "v_vectors s" "v_descs s"] by blast
  have mem: "x \<in> set (desc_ptrs s t) \<longleftrightarrow> (\<exists>v. v_observers s t = Some v \<and> x \<in> set (the (cells (v_vectors s) v)))" for x t
    by (cases "v_observers s t") (simp_all add: desc_ptrs_def)
  have "(\<Union>v \<in> set ?vs. set (the (cells (v_vectors s) v))) = (\<Union>t. set (desc_ptrs s t))"
    unfolding set_eq_iff UN_iff mem Bex_def vs by blast
  then show ?thesis
    using ms(1) d no_msgs by (simp add: ev_dispose_def ev_observers_def desc_ptrs_def)
qed

end
