(* ===== verification/Event_Queue_Spec.thy ===== *)
theory Event_Queue_Spec
  imports Event_Queue
begin

text \<open>
  What \<open>EventQueue\<close> promises to its users, over the definitions and the invariant of
  \<open>Event_Queue\<close>: delivery, removal of observers, topics and disposal. \<open>Event_Queue_Session\<close> has sessions and observer ids.
\<close>

text \<open>
  C7. Delivery: the oldest message is taken from the queue, exactly the observers registered at
  that moment are called, in order, each with the payload's text, whatever the handlers do
  to observers, topics and the queue meanwhile. Then the message is freed, and its payload
  exactly if it was posted with \<open>autoCleanupPayload\<close>. The other messages stay, and those that
  handlers post come behind them.
\<close>

theorem ev_dispatch_spec:
  assumes "ev_inv [] s" and "v_queue s = m # ms" and "cells (v_messages s) m = Some msg"
  shows "\<exists>s1 s2 new. ev_GetQueueMessage s = (s1, Some m) \<and> ev_Dispatch H tid (Some m) s1 = ret s2 \<and> ev_inv [] s2 \<and>
    v_log s2 = v_log s @ map (\<lambda>t. ECall t tid (msg_text s m)) (targets (ev_observers s tid)) \<and>
    ev_pending s2 = tl (ev_pending s) @ new \<and> cells (v_messages s2) m = None \<and>
    (\<forall>p. e_obj msg = Some p \<longrightarrow> (p \<in> live (v_payloads s2) \<longleftrightarrow> \<not> e_cleanup msg))"
proof -
  let ?s1 = "s\<lparr>v_queue := ms\<rparr>"
  note get = ev_GetQueueMessage_ok [OF assms(1,2)]
  have "cells (v_messages ?s1) m = Some msg" "msg_text ?s1 m = msg_text s m" using assms(3) by (simp_all add: msg_text_def)
  moreover have "ev_observers ?s1 = ev_observers s" by (rule ev_observers_eq) simp_all
  moreover have "ev_pending ?s1 = tl (ev_pending s)" using get(3) by auto
  ultimately show ?thesis using ev_Dispatch_ok [OF get(2), of msg H tid] get(1) by auto
qed

text \<open>A queue with one lambda on topic ''A'' and one message with a payload.\<close>

definition demo :: evq where
  "demo = (let s1 = (case ev_AddFunc ev_new ''A'' (Some 5) of Inr (s, i) \<Rightarrow> s | Inl _ \<Rightarrow> ev_new);
               (s2, p) = ev_new_payload s1 ''hi'' in ev_PostTopic s2 ''A'' (Some p) True)"

lemmas demo_defs = demo_def ev_new_def ev_init_def ev_AddFunc_def ev_new_descriptor_def heap_new_def heap_empty_def
  ev_AddDescriptor_def ev_RegisterTopic_def ev_observer_vector_def ev_GetObservers_def heap_read_def heap_write_def
  ev_new_payload_def ev_PostTopic_def ev_ResolveTopic_def ev_Post_def new_descriptor_def MAX_TOPICS_def

lemma demo_facts:
  "v_queue demo = [0]" "cells (v_messages demo) 0 = Some \<lparr>e_tid = 0, e_obj = Some 0, e_cleanup = True\<rparr>"
  "cells (v_payloads demo) 0 = Some ''hi''" "v_log demo = []"
  "desc_ptrs demo 0 = [0]" "cells (v_descs demo) 0 = Some (new_descriptor\<lparr>d_observerId := 1, d_callbackFunc := Some 5\<rparr>)"
  "v_nextObserverId demo = 2" "v_resolveMap demo ''A'' = Some 0" "v_active demo = 0"
  by (simp_all add: demo_defs desc_ptrs_def)

lemma demo_inv: "ev_inv [] demo"
proof -
  obtain s where s: "ev_AddFunc ev_new ''A'' (Some 5) = Inr (s, if snd (ev_RegisterTopic ev_new ''A'') < 0 then 0 else v_nextObserverId ev_new)"
    "ev_inv [] s" using ev_add_ok [OF ev_inv_new refl, of "new_descriptor\<lparr>d_callbackFunc := Some 5\<rparr>" "''A''"]
    by (auto simp: ev_AddFunc_def)
  obtain s2 p where mk: "ev_new_payload s ''hi'' = (s2, p)" by fastforce
  then have "make_payload s (Some ''hi'') = (s2, Some p)" by (simp add: make_payload_def)
  note s2 = make_payload_ok [OF s(2) this]
  show ?thesis using ev_Post_ok(1) [OF s2(1,3)] s(1) mk by (simp add: demo_def Let_def ev_PostTopic_def)
qed

lemma demo_observers: "ev_observers demo 0 = [new_descriptor\<lparr>d_observerId := 1, d_callbackFunc := Some 5\<rparr>]"
  by (simp add: ev_observers_def demo_facts)

theorem ev_dispatch_spec_witness:
  "\<exists>s1 s2. ev_GetQueueMessage demo = (s1, Some 0) \<and>
     ev_Dispatch (\<lambda>t i body. [CmdRemoveById ''A'' 1, CmdPostTopic ''A'' None False]) 0 (Some 0) s1 = ret s2 \<and>
     v_log s2 = [ECall (Func 5) 0 (Some ''hi'')] \<and> 0 \<notin> live (v_payloads s2)"
proof -
  have "targets (ev_observers demo 0) = [Func 5]"
    by (simp add: demo_observers descriptor_target_def new_descriptor_def)
  moreover have "msg_text demo 0 = Some ''hi''" by (simp add: msg_text_def demo_facts)
  ultimately show ?thesis
    using ev_dispatch_spec [OF demo_inv demo_facts(1,2), of "\<lambda>t i body. [CmdRemoveById ''A'' 1, CmdPostTopic ''A'' None False]" 0]
    by (auto simp: demo_facts)
qed

text \<open>
  C23. Removal: \<open>RemoveObserver\<close> with a function removes every observer of the topic with that
  function, with an instance and a method every observer with both, and \<open>RemoveObserverById\<close>
  the first one with that id. The others stay in order, other topics are untouched, the
  removed descriptors are deleted, and nothing else is. (With a null function it removes
  every observer of the topic that is a method or a lambda: their function pointer is null.)
\<close>

theorem ev_remove_spec:
  assumes "ev_inv B s" and "may_wait s" and "ev_ResolveTopic s topic = t"
  shows "(\<exists>s'. ev_RemoveCallback s topic cb = ret s' \<and> ev_inv B s' \<and>
      ev_observers s' = (ev_observers s)(t := filter (\<lambda>d. d_callback d \<noteq> cb) (ev_observers s t)) \<and>
      live (v_descs s') = live (v_descs s) - (set (desc_ptrs s t) - set (desc_ptrs s' t))) \<and>
    (\<exists>s'. ev_RemoveMethod s topic inst meth = ret s' \<and> ev_inv B s' \<and>
      ev_observers s' = (ev_observers s)(t :=
        filter (\<lambda>d. \<not> (d_observerInstance d = inst \<and> d_callbackMethod d = meth)) (ev_observers s t)) \<and>
      live (v_descs s') = live (v_descs s) - (set (desc_ptrs s t) - set (desc_ptrs s' t))) \<and>
    (i = 0 \<or> (\<exists>s'. ev_RemoveById s topic i = ret s' \<and> ev_inv B s' \<and>
      ev_observers s' = (ev_observers s)(t := drop_first (\<lambda>d. d_observerId d = i) (ev_observers s t)) \<and>
      live (v_descs s') = live (v_descs s) - (set (desc_ptrs s t) - set (desc_ptrs s' t))))"
  using ev_remove_ok [OF assms(1,2) erase_loop_erases [of "\<lambda>d. d_callback d = cb"], of t]
    ev_remove_ok [OF assms(1,2) erase_loop_erases [of "\<lambda>d. d_observerInstance d = inst \<and> d_callbackMethod d = meth"], of t]
    ev_remove_ok [OF assms(1,2) erase_first_erases [of "\<lambda>d. d_observerId d = i"], of t]
  by (auto simp: assms(3) ev_RemoveCallback_def ev_RemoveMethod_def ev_RemoveById_def)

theorem ev_remove_spec_witness:
  "\<exists>s'. ev_RemoveCallback demo ''A'' None = ret s' \<and> ev_observers s' 0 = []"
proof -
  have "may_wait demo" "ev_ResolveTopic demo ''A'' = 0" by (simp_all add: may_wait_def demo_facts ev_ResolveTopic_def)
  from ev_remove_spec [OF demo_inv this, of None None None 0, THEN conjunct1] show ?thesis
    by (auto simp: demo_observers new_descriptor_def)
qed

text \<open>
  C27. Topics: registering a non-empty name gives an id that \<open>ResolveTopic\<close> finds and that stays
  the same however often it is registered; other names are unaffected; the name is refused,
  with -2 and no change, exactly if it is new and there are 1024. \<open>GetTopicByID\<close> gives the name
  back, except for the id 0, for which it gives the empty string.
\<close>

theorem ev_topics_spec:
  assumes "topics_inv s" and "topic \<noteq> []"
  shows "\<exists>s' i. ev_RegisterTopic s topic = (s', i) \<and> topics_inv s' \<and> ev_RegisterTopic s' topic = (s', i) \<and>
    (\<forall>n. n \<noteq> topic \<longrightarrow> ev_ResolveTopic s' n = ev_ResolveTopic s n) \<and>
    (i = -2 \<longleftrightarrow> ev_ResolveTopic s topic = -1 \<and> v_topicMax s = MAX_TOPICS) \<and> (i = -2 \<longrightarrow> s' = s) \<and>
    (i \<noteq> -2 \<longrightarrow> 0 \<le> i \<and> i < v_topicMax s' \<and> ev_ResolveTopic s' topic = i \<and>
       ev_GetTopicByID s' i = (if i = 0 then [] else topic))"
proof -
  have max: "0 \<le> v_topicMax s" "v_topicMax s \<le> MAX_TOPICS" using assms(1) by (simp_all add: topics_inv_def)
  obtain s' i where reg: "ev_RegisterTopic s topic = (s', i)" by fastforce
  have inv': "topics_inv s'" using ev_RegisterTopic_inv [OF assms(1), of topic] by (simp add: reg)
  have ids: "0 \<le> j \<and> j < v_topicMax s \<and> v_topics s (nat j) = n" if "v_resolveMap s n = Some j" for n j
    using assms(1) ranI [of "v_resolveMap s" n j, OF that] that by (simp add: topics_inv_def)
  show ?thesis
  proof (cases "v_resolveMap s topic")
    case (Some j)
    then have "s' = s" "i = j" using reg assms(2) by (auto simp: ev_RegisterTopic_def)
    then show ?thesis using reg inv' ids [OF Some] max Some assms(2) by (simp add: ev_ResolveTopic_def ev_GetTopicByID_def)
  next
    case None
    show ?thesis
    proof (cases "v_topicMax s < MAX_TOPICS")
      case True
      then have s': "s' = s\<lparr>v_resolveMap := (v_resolveMap s)(topic \<mapsto> v_topicMax s),
          v_topics := (v_topics s)(nat (v_topicMax s) := topic), v_topicMax := v_topicMax s + 1\<rparr>" "i = v_topicMax s"
        using reg None assms(2) by (auto simp: ev_RegisterTopic_def)
      then show ?thesis using reg inv' max True None assms(2)
        by (simp add: ev_ResolveTopic_def ev_GetTopicByID_def ev_RegisterTopic_def)
    next
      case False
      then have "s' = s" "i = -2" using reg None assms(2) by (auto simp: ev_RegisterTopic_def)
      then show ?thesis using reg inv' max False None assms(2) by (simp add: ev_ResolveTopic_def)
    qed
  qed
qed

theorem ev_topics_spec_witness:
  "\<exists>s i. ev_RegisterTopic ev_new ''A'' = (s, i) \<and> ev_ResolveTopic s ''A'' = 0 \<and> ev_GetTopicByID s 0 = []"
proof -
  have "topics_inv ev_new" using ev_inv_new by (simp add: ev_inv_def)
  from ev_topics_spec [OF this, of "''A''"] show ?thesis
    by (auto simp: ev_RegisterTopic_def ev_new_def ev_init_def MAX_TOPICS_def)
qed

text \<open>
  C28. Disposal: \<open>dispose\<close> succeeds and deletes every queued message and every registered
  descriptor. What it leaves behind are the observer vectors and the payloads of the messages
  that were still queued, also those posted with \<open>autoCleanupPayload\<close>.
\<close>

theorem ev_dispose_spec:
  assumes "ev_inv [] s"
  shows "\<exists>s'. ev_dispose s = Inr s' \<and> live (v_messages s') = {} \<and> v_queue s' = [] \<and> (\<forall>t. ev_observers s' t = []) \<and>
    live (v_descs s') = live (v_descs s) - (\<Union>t. set (desc_ptrs s t)) \<and>
    live (v_vectors s') = live (v_vectors s) \<and> v_payloads s' = v_payloads s"
  by (rule ev_dispose_ok [OF assms])

theorem ev_dispose_spec_witness:
  "\<exists>s'. ev_dispose demo = Inr s' \<and> live (v_messages s') = {} \<and> 0 \<in> live (v_payloads s')"
  using ev_dispose_spec [OF demo_inv] by (auto simp: demo_facts)

end
