(* ===== verification/Event_Queue_Session.thy ===== *)
theory Event_Queue_Session
  imports Event_Queue_Spec
begin

text \<open>
  Whole sessions with an \<open>EventQueue\<close>: a client that makes its own objects, hands pointers to
  the queue, lets it deliver and disposes of it, and handlers that call back. Two things hold
  of every session that respects who owns an object: no operation touches deleted memory,
  and an observer id is never given out twice.
\<close>

section \<open>Sessions\<close>

text \<open>
  What a client does: operations with an object of its own (\<open>Api\<close>); \<open>new\<close> of a descriptor or
  a payload; the overloads that take a pointer, with any pointer, so that one payload can be
  posted several times; \<open>delete\<close> of a payload; a delivery, as the worker thread makes it;
  \<open>init\<close> and \<open>dispose\<close>.
\<close>

datatype ev_action =
    Api command
  | NewDescriptor descriptor
  | NewPayload string
  | AddPointer string "nat option"
  | PostPointer int "nat option" bool
  | PostTopicPointer string "nat option" bool
  | DeletePayload nat
  | Deliver
  | Init
  | Dispose

fun ev_action_step :: "handlers \<Rightarrow> evq \<Rightarrow> ev_action \<Rightarrow> evq run" where
  "ev_action_step H s (Api c) = ev_command s c"
| "ev_action_step H s (NewDescriptor desc) = ret (fst (ev_new_descriptor s desc))"
| "ev_action_step H s (NewPayload text) = ret (fst (ev_new_payload s text))"
| "ev_action_step H s (AddPointer topic obs) = Some (obind (ev_AddDescriptor s topic obs) (\<lambda>(s1, i). Inr s1))"
| "ev_action_step H s (PostPointer tid obj cleanup) = ret (ev_Post s tid obj cleanup)"
| "ev_action_step H s (PostTopicPointer topic obj cleanup) = ret (ev_PostTopic s topic obj cleanup)"
| "ev_action_step H s (DeletePayload p) = Some (obind (delete_obj (v_payloads s) p) (\<lambda>h. Inr (s\<lparr>v_payloads := h\<rparr>)))"
| "ev_action_step H s Deliver =
     (case ev_GetQueueMessage s of
        (s1, None) \<Rightarrow> ret s1
      | (s1, Some m) \<Rightarrow>
          rbind (Some (heap_read (v_messages s1) m)) (\<lambda>msg. ev_Dispatch H (sint (e_tid msg)) (Some m) s1))"
| "ev_action_step H s Init = ret (fst (ev_init s))"
| "ev_action_step H s Dispose = Some (ev_dispose s)"

fun ev_session :: "handlers \<Rightarrow> evq \<Rightarrow> ev_action list \<Rightarrow> evq run" where
  "ev_session H s [] = ret s"
| "ev_session H s (a # as) = rbind (ev_action_step H s a) (\<lambda>s1. ev_session H s1 as)"

text \<open>
  Who owns what. The queue owns a registered descriptor: one that is added must be live and
  not registered yet, whatever its topic (an invalid topic is refused before the pointer is
  used). It owns the payload of a message posted with \<open>autoCleanupPayload\<close>: such a payload is
  posted once. Other payloads stay the client's, who may post them again, and deletes them when
  no message carries them any more.
\<close>

definition may_post :: "evq \<Rightarrow> nat option \<Rightarrow> bool \<Rightarrow> bool" where
  "may_post s obj cleanup \<longleftrightarrow>
     (case obj of
        None \<Rightarrow> True
      | Some p \<Rightarrow> cells (v_payloads s) p \<noteq> None \<and>
          (\<forall>msg \<in> set (ev_pending s). e_obj msg = Some p \<longrightarrow> \<not> cleanup \<and> \<not> e_cleanup msg))"

definition may_add :: "evq \<Rightarrow> string \<Rightarrow> nat option \<Rightarrow> bool" where
  "may_add s topic obs \<longleftrightarrow> snd (ev_RegisterTopic s topic) < 0 \<or>
     (\<exists>d. obs = Some d \<and> cells (v_descs s) d \<noteq> None \<and> (\<forall>t. d \<notin> set (desc_ptrs s t)))"

fun permitted :: "evq \<Rightarrow> ev_action \<Rightarrow> bool" where
  "permitted s (AddPointer topic obs) = may_add s topic obs"
| "permitted s (PostPointer tid obj cleanup) = may_post s obj cleanup"
| "permitted s (PostTopicPointer topic obj cleanup) = may_post s obj cleanup"
| "permitted s (DeletePayload p) = (cells (v_payloads s) p \<noteq> None \<and> (\<forall>msg \<in> set (ev_pending s). e_obj msg \<noteq> Some p))"
| "permitted s a = True"

text \<open>Every action of the session is permitted in the state in which it happens.\<close>

fun well_behaved :: "handlers \<Rightarrow> evq \<Rightarrow> ev_action list \<Rightarrow> bool" where
  "well_behaved H s [] = True"
| "well_behaved H s (a # as) \<longleftrightarrow> permitted s a \<and> (case ev_action_step H s a of Some (Inr s1) \<Rightarrow> well_behaved H s1 as | _ \<Rightarrow> True)"

lemma ev_session_append: "ev_session H s (as @ bs) = rbind (ev_session H s as) (\<lambda>s1. ev_session H s1 bs)"
  by (induction as arbitrary: s) (auto simp: rbind_def split: option.splits sum.splits)

section \<open>Every permitted action keeps the invariant\<close>

lemma may_post_postable:
  assumes inv: "ev_inv [] s" and may: "may_post s obj cleanup"
  shows "postable s obj cleanup"
  unfolding postable_def
proof (intro allI impI conjI)
  fix p
  assume obj: "obj = Some p"
  then show "p \<in> live (v_payloads s)" using may by (auto simp: may_post_def)
  fix m msg
  assume m: "cells (v_messages s) m = Some msg" and p: "e_obj msg = Some p"
  have "live (v_messages s) = set (v_queue s)" using inv by (simp add: ev_inv_def messages_inv_def)
  then have "m \<in> set (v_queue s)" using m by (auto simp: dom_def)
  then have "msg \<in> set (ev_pending s)" using m by (force simp: ev_pending_def)
  then show "\<not> cleanup" "\<not> e_cleanup msg" using may obj p by (auto simp: may_post_def)
qed

lemma ev_new_payload_ok:
  assumes "ev_inv B s"
  shows "ev_inv B (fst (ev_new_payload s body))" "extends s (fst (ev_new_payload s body))"
    "ev_observers (fst (ev_new_payload s body)) = ev_observers s"
  using make_payload_ok(1,2,4) [OF assms, of "Some body" "fst (ev_new_payload s body)" "Some (snd (ev_new_payload s body))"]
  by (simp_all add: make_payload_def split_beta)

lemma ev_delete_payload_ok:
  assumes inv: "ev_inv [] s" and may: "permitted s (DeletePayload p)"
  shows "delete_obj (v_payloads s) p = Inr (heap_delete (v_payloads s) p)"
    and "ev_inv [] (s\<lparr>v_payloads := heap_delete (v_payloads s) p\<rparr>)"
proof -
  let ?s = "s\<lparr>v_payloads := heap_delete (v_payloads s) p\<rparr>"
  show "delete_obj (v_payloads s) p = Inr (heap_delete (v_payloads s) p)" using may by (auto simp: delete_obj_def)
  have msgs: "messages_inv [] s" using inv by (simp add: ev_inv_def)
  have other: "q \<noteq> p" if "cells (v_messages s) m = Some msg" "e_obj msg = Some q" for m msg q
  proof -
    have "m \<in> set (v_queue s)" using msgs that(1) by (auto simp: messages_inv_def dom_def)
    then have "msg \<in> set (ev_pending s)" using that(1) by (force simp: ev_pending_def)
    then show ?thesis using may that(2) by auto
  qed
  have "messages_inv [] ?s"
    unfolding messages_inv_def
  proof (intro conjI allI impI)
    show "heap_ok (v_payloads ?s)" using msgs by (simp add: messages_inv_def heap_ok_delete)
    fix m msg q
    assume m: "cells (v_messages ?s) m = Some msg" "e_obj msg = Some q"
    then show "q \<in> live (v_payloads ?s)" using messages_inv_obj [OF msgs, of m msg q] other [of m msg q] by auto
    show "e_obj msg' \<noteq> Some q" if "e_cleanup msg" "cells (v_messages ?s) m' = Some msg'" "m' \<noteq> m" for m' msg'
      using messages_inv_own [OF msgs, of m msg q m' msg'] m that by simp
  qed (use msgs in \<open>simp_all add: messages_inv_def\<close>)
  moreover have "desc_ptrs ?s = desc_ptrs s" by (rule ev_observers_frame) simp_all
  ultimately show "ev_inv [] ?s" using inv by (simp add: ev_inv_def topics_inv_def observers_inv_def)
qed


text \<open>Disposal leaves an empty queue, with its topics, that can be used again.\<close>

lemma dispose_observers_heaps:
  assumes "dispose_observers V h vs = Inr (V', h')"
  shows "next_addr V' = next_addr V \<and> next_addr h' = next_addr h"
proof -
  have delete: "next_addr h' = next_addr h" if "delete_all h ds = Inr h'" for h h' :: "descriptor heap" and ds
    using that by (induction ds arbitrary: h) (auto simp: obind_eq_Inr delete_obj_def heap_delete_def split: option.splits)
  show ?thesis
    using assms
  proof (induction vs arbitrary: V h)
    case Nil
    then show ?case by simp
  next
    case (Cons v vs)
    obtain ds h1 where h1: "delete_all h ds = Inr h1" "dispose_observers (heap_write V v []) h1 vs = Inr (V', h')"
      using Cons.prems by (auto simp: obind_eq_Inr)
    show ?case using Cons.IH [OF h1(2)] delete [OF h1(1)] by (simp add: heap_write_def)
  qed
qed

lemma ev_dispose_inv:
  assumes inv: "ev_inv [] s" and s': "ev_dispose s = Inr s'"
  shows "ev_inv [] s'" "v_active s' = v_active s" "v_log s' = v_log s" "v_nextObserverId s' = v_nextObserverId s"
    "\<And>t. ev_observers s' t = []"
proof -
  obtain ms V h where d: "delete_all (v_messages s) (v_queue s) = Inr ms"
    "dispose_observers (v_vectors s) (v_descs s) (observer_vectors s) = Inr (V, h)"
    "s' = s\<lparr>v_messages := ms, v_queue := [], v_vectors := V, v_descs := h, v_observers := (\<lambda>_. None)\<rparr>"
    using s' by (auto simp: ev_dispose_def obind_eq_Inr)
  have old: "observers_inv s" "messages_inv [] s" "topics_inv s" using inv by (simp_all add: ev_inv_def)
  have facts: "live ms = {}" "live h \<subseteq> live (v_descs s)" "live V = live (v_vectors s)"
    using ev_dispose_ok [OF inv] s' d(3) by auto
  note heaps = dispose_observers_heaps [OF d(2)]
  have ptrs: "desc_ptrs s' t = []" for t by (simp add: d(3) desc_ptrs_def)
  have "heap_ok V" "heap_ok h" using old(1) facts(2,3) heaps by (simp_all add: observers_inv_def heap_ok_def subset_iff)
  moreover have "v_vectors s' = V" "v_descs s' = h" "v_observers s' = (\<lambda>_. None)" by (simp_all add: d(3))
  ultimately have "observers_inv s'" using ptrs by (simp add: observers_inv_def)
  moreover have "messages_inv [] s'" using old(2) facts(1) by (auto simp: messages_inv_def heap_ok_def d(3))
  moreover have "topics_inv s'" using old(3) by (simp add: topics_inv_def d(3))
  ultimately show "ev_inv [] s'" by (simp add: ev_inv_def)
  show "v_active s' = v_active s" "v_log s' = v_log s" "v_nextObserverId s' = v_nextObserverId s" by (simp_all add: d(3))
  show "ev_observers s' t = []" for t by (simp add: ev_observers_def ptrs)
qed

text \<open>Adding through a pointer: refused for an invalid topic, whatever the pointer; otherwise the descriptor is the last one.\<close>

lemma add_pointer_ok:
  assumes inv: "ev_inv B s" and may: "may_add s topic obs" and t: "snd (ev_RegisterTopic s topic) = t"
  shows "\<exists>s' i. ev_AddDescriptor s topic obs = Inr (s', i) \<and> ev_inv B s' \<and> extends s s' \<and>
    (if t < 0 then v_nextObserverId s' = v_nextObserverId s \<and> ev_observers s' = ev_observers s
     else v_nextObserverId s' = v_nextObserverId s + 1 \<and>
       (\<exists>desc. ev_observers s' = (ev_observers s)(t := ev_observers s t @ [desc\<lparr>d_observerId := v_nextObserverId s\<rparr>])))"
proof (cases "t < 0")
  case True
  have "ev_AddDescriptor s topic obs = Inr (fst (ev_RegisterTopic s topic), 0)"
    using True t by (auto simp: ev_AddDescriptor_def split: prod.splits)
  moreover have "ev_observers (fst (ev_RegisterTopic s topic)) = ev_observers s"
    by (rule ev_observers_eq) (simp_all add: ev_RegisterTopic_frame)
  ultimately show ?thesis using True ev_RegisterTopic_ok [OF inv, of topic] by (simp add: ev_RegisterTopic_frame)
next
  case False
  then obtain d desc where d: "obs = Some d" "cells (v_descs s) d = Some desc" "\<And>t. d \<notin> set (desc_ptrs s t)"
    using may t by (auto simp: may_add_def)
  show ?thesis using ev_AddDescriptor_ok [OF inv d(2,3), of topic] False unfolding t d(1) by fastforce
qed

lemma ev_init_ok: "ev_inv B (fst (ev_init s)) = ev_inv B s" "ev_observers (fst (ev_init s)) = ev_observers s"
proof -
  have "desc_ptrs (fst (ev_init s)) = desc_ptrs s" by (rule ev_observers_frame) (simp_all add: ev_init_def)
  then show "ev_inv B (fst (ev_init s)) = ev_inv B s" "ev_observers (fst (ev_init s)) = ev_observers s"
    by (auto simp: ev_inv_def topics_inv_def observers_inv_def messages_inv_def ev_observers_def ev_init_def fun_eq_iff)
qed

lemma ev_action_step_ok:
  assumes inv: "ev_inv [] s" and idle: "v_active s = 0" and may: "permitted s a"
  shows "\<exists>s'. ev_action_step H s a = ret s' \<and> ev_inv [] s' \<and> v_active s' = 0"
proof (cases a)
  case (Api c)
  have "may_wait s" using idle by (simp add: may_wait_def)
  then show ?thesis using Api ev_command_ok [OF inv, of c] idle by (auto simp: extends_def)
next
  case (NewDescriptor desc)
  obtain s1 d where "ev_new_descriptor s desc = (s1, d)" by fastforce
  then show ?thesis using NewDescriptor ev_new_descriptor_ok(1,2) [OF inv, of desc s1 d] idle by (simp add: extends_def)
next
  case (NewPayload body)
  then show ?thesis using ev_new_payload_ok(1,2) [OF inv, of body] idle by (simp add: extends_def)
next
  case (AddPointer topic obs)
  then have "may_add s topic obs" using may by simp
  from add_pointer_ok [OF inv this refl] show ?thesis using AddPointer idle by (auto simp: extends_def)
next
  case (PostPointer tid obj cleanup)
  then have "may_post s obj cleanup" using may by simp
  from ev_Post_postable(1,2) [OF inv may_post_postable [OF inv this]] show ?thesis
    using PostPointer idle by (simp add: extends_def)
next
  case (PostTopicPointer topic obj cleanup)
  then have "may_post s obj cleanup" using may by simp
  from ev_Post_postable(1,2) [OF inv may_post_postable [OF inv this]] show ?thesis
    using PostTopicPointer idle by (simp add: extends_def ev_PostTopic_def)
next
  case (DeletePayload p)
  then show ?thesis using ev_delete_payload_ok [OF inv, of p] may idle by simp
next
  case Deliver
  show ?thesis
  proof (cases "v_queue s")
    case Nil
    then show ?thesis using Deliver inv idle by (simp add: ev_GetQueueMessage_def)
  next
    case (Cons m ms)
    note get = ev_GetQueueMessage_ok [OF inv Cons]
    obtain msg where "cells (v_messages (s\<lparr>v_queue := ms\<rparr>)) m = Some msg" using get(3) by auto
    with ev_Dispatch_ok [OF get(2) this, of H "sint (e_tid msg)"] show ?thesis using Deliver get(1) idle by auto
  qed
next
  case Init
  then show ?thesis using inv idle ev_init_ok(1) [of "[]" s] by (simp add: ev_init_def)
next
  case Dispose
  obtain s' where "ev_dispose s = Inr s'" using ev_dispose_ok [OF inv] by blast
  then show ?thesis using Dispose ev_dispose_inv(1,2) [OF inv, of s'] idle by simp
qed

lemma ev_session_ok:
  assumes "ev_inv [] s" and "v_active s = 0" and "well_behaved H s as"
  shows "\<exists>s'. ev_session H s as = ret s' \<and> ev_inv [] s' \<and> v_active s' = 0"
  using assms
proof (induction as arbitrary: s)
  case Nil
  then show ?case by simp
next
  case (Cons a as)
  have "permitted s a" using Cons.prems(3) by simp
  from ev_action_step_ok [OF Cons.prems(1,2) this] obtain s1 where s1: "ev_action_step H s a = ret s1" "ev_inv [] s1" "v_active s1 = 0"
    by blast
  then show ?case using Cons.IH [of s1] Cons.prems(3) by simp
qed

lemma new_idle [simp]: "v_active ev_new = 0" "v_log ev_new = []" "v_nextObserverId ev_new = 1" "ev_observers ev_new t = []"
  by (simp_all add: ev_new_def ev_init_def ev_observers_def desc_ptrs_def)


section \<open>Observer ids\<close>

text \<open>
  The ids in use are below the counter, and the counter has taken at most \<open>n\<close> steps from 0.
  \<open>id_steps k\<close>: a step that counts up at most \<open>k\<close> times keeps this, as long as the 64-bit
  counter cannot wrap, and never counts down.
\<close>

definition ids_ok :: "nat \<Rightarrow> evq \<Rightarrow> bool" where
  "ids_ok n s \<longleftrightarrow> 0 < v_nextObserverId s \<and> unat (v_nextObserverId s) \<le> n \<and>
     (\<forall>t. \<forall>d \<in> set (ev_observers s t). d_observerId d < v_nextObserverId s)"

definition id_steps :: "nat \<Rightarrow> evq \<Rightarrow> evq \<Rightarrow> bool" where
  "id_steps k s s' \<longleftrightarrow>
     (\<forall>n. ids_ok n s \<longrightarrow> n + k < 2 ^ 64 \<longrightarrow> ids_ok (n + k) s' \<and> v_nextObserverId s \<le> v_nextObserverId s')"

lemma id_stepsD: "id_steps k s s' \<Longrightarrow> ids_ok n s \<Longrightarrow> n + k < 2 ^ 64 \<Longrightarrow> ids_ok (n + k) s' \<and> v_nextObserverId s \<le> v_nextObserverId s'"
  unfolding id_steps_def by blast

lemma id_steps_trans:
  assumes "id_steps j s s1" and "id_steps k s1 s2"
  shows "id_steps (j + k) s s2"
  unfolding id_steps_def
proof (intro allI impI)
  fix n
  assume n: "ids_ok n s" "n + (j + k) < 2 ^ 64"
  have 1: "ids_ok (n + j) s1" "v_nextObserverId s \<le> v_nextObserverId s1" using id_stepsD [OF assms(1) n(1)] n(2) by simp_all
  have "ids_ok (n + j + k) s2" "v_nextObserverId s1 \<le> v_nextObserverId s2" using id_stepsD [OF assms(2) 1(1)] n(2) by simp_all
  then show "ids_ok (n + (j + k)) s2 \<and> v_nextObserverId s \<le> v_nextObserverId s2" using 1(2) by (simp add: add.assoc)
qed

text \<open>The two kinds of step: one that adds no observer, and one that adds an observer with the next id.\<close>

lemma id_steps_same:
  assumes "v_nextObserverId s' = v_nextObserverId s" and "\<And>t. set (ev_observers s' t) \<subseteq> set (ev_observers s t)"
  shows "id_steps k s s'"
  using assms unfolding id_steps_def ids_ok_def by (fastforce dest: subsetD)

lemma id_steps_add:
  assumes next_id: "v_nextObserverId s' = v_nextObserverId s + 1"
    and obs: "ev_observers s' = (ev_observers s)(t := ev_observers s t @ [desc\<lparr>d_observerId := v_nextObserverId s\<rparr>])"
  shows "id_steps (Suc k) s s'"
  unfolding id_steps_def
proof (intro allI impI)
  fix n
  assume n: "ids_ok n s" "n + Suc k < 2 ^ 64"
  let ?i = "v_nextObserverId s"
  have "unat ?i < 2 ^ 64 - 1" using n by (simp add: ids_ok_def)
  then have suc: "unat (?i + 1) = Suc (unat ?i)" by (simp add: unat_word_ariths)
  then have less: "?i < ?i + 1" "0 < ?i + 1" by (simp_all add: word_less_nat_alt)
  have "d_observerId d < ?i + 1" if "d \<in> set (ev_observers s' u)" for u d
  proof -
    have "d_observerId d < ?i \<or> d_observerId d = ?i" using that n(1) by (auto simp: obs ids_ok_def split: if_splits)
    then show ?thesis using less(1) by (auto intro: order.strict_trans)
  qed
  then show "ids_ok (n + Suc k) s' \<and> ?i \<le> v_nextObserverId s'"
    using n(1) suc less by (simp add: ids_ok_def next_id)
qed

lemma id_steps_new:
  assumes inv: "ev_inv B s"
    and add: "ev_AddDescriptor (fst (ev_new_descriptor s desc)) topic (Some (snd (ev_new_descriptor s desc))) = Inr (s', i)"
  shows "id_steps (Suc 0) s s'"
proof -
  from ev_add_ok [OF inv, where desc = desc and topic = topic, OF refl, unfolded split_beta Let_def add] show ?thesis
    by (cases "snd (ev_RegisterTopic s topic) < 0") (auto intro: id_steps_same id_steps_add)
qed

lemma ev_erase_next: "rbind (Some (ev_erase loop s t)) ev_WaitForDispatches = ret s' \<Longrightarrow> v_nextObserverId s' = v_nextObserverId s"
  by (auto simp: ev_erase_def obind_eq_Inr rbind_eq_ret ev_WaitForDispatches_def split: option.splits if_splits)

lemma set_drop_first: "set (drop_first P xs) \<subseteq> set xs"
  by (induction xs) auto

lemma id_steps_remove:
  assumes inv: "ev_inv B s" and wait: "may_wait s" and loop: "erases loop keep" and nil: "keep [] = []" and sub: "\<And>ds. set (keep ds) \<subseteq> set ds"
    and remove: "rbind (Some (ev_erase loop s t)) ev_WaitForDispatches = ret s'"
  shows "id_steps 1 s s'"
proof (rule id_steps_same)
  show "v_nextObserverId s' = v_nextObserverId s" by (rule ev_erase_next [OF remove])
  show "set (ev_observers s' u) \<subseteq> set (ev_observers s u)" for u
    using ev_remove_ok [OF inv wait loop nil, of t] remove sub by auto
qed

lemma id_steps_frame: "v_nextObserverId s' = v_nextObserverId s \<Longrightarrow> ev_observers s' = ev_observers s \<Longrightarrow> id_steps k s s'"
  by (rule id_steps_same) simp_all

lemma ev_Post_next [simp]: "v_nextObserverId (ev_Post s tid obj cleanup) = v_nextObserverId s"
  by (simp add: ev_Post_def split_beta)

lemma make_payload_next: "make_payload s body = (s1, obj) \<Longrightarrow> v_nextObserverId s1 = v_nextObserverId s"
  by (auto simp: make_payload_def ev_new_payload_def heap_new_def split: option.splits)

lemma ev_command_ids:
  assumes inv: "ev_inv B s" and wait: "may_wait s" and run: "ev_command s c = ret s'"
  shows "id_steps 1 s s'"
proof (cases c)
  case (CmdPost tid body cleanup)
  obtain s1 obj where mk: "make_payload s body = (s1, obj)" by fastforce
  note s1 = make_payload_ok [OF inv mk]
  show ?thesis using CmdPost run mk make_payload_next [OF mk] ev_Post_ok(3) [OF s1(1,3)] s1(4) by (auto intro: id_steps_frame)
next
  case (CmdPostTopic topic body cleanup)
  obtain s1 obj where mk: "make_payload s body = (s1, obj)" by fastforce
  note s1 = make_payload_ok [OF inv mk]
  show ?thesis using CmdPostTopic run mk make_payload_next [OF mk] ev_Post_ok(3) [OF s1(1,3)] s1(4)
    by (auto simp: ev_PostTopic_def intro: id_steps_frame)
next
  case (CmdRegister topic)
  have "ev_observers (fst (ev_RegisterTopic s topic)) = ev_observers s" by (rule ev_observers_eq) (simp_all add: ev_RegisterTopic_frame)
  then show ?thesis using CmdRegister run by (auto simp: ev_RegisterTopic_frame intro: id_steps_frame)
next
  case CmdClearTopics
  have "ev_observers (ev_ClearTopics s) = ev_observers s" by (rule ev_observers_eq) (simp_all add: ev_ClearTopics_def)
  moreover have "v_nextObserverId (ev_ClearTopics s) = v_nextObserverId s" by (simp add: ev_ClearTopics_def)
  ultimately show ?thesis using CmdClearTopics run by (auto intro: id_steps_frame)
next
  case (CmdRemoveById topic i)
  show ?thesis
  proof (cases "i = 0")
    case True
    then show ?thesis using CmdRemoveById run by (simp add: ev_RemoveById_def id_steps_frame)
  next
    case False
    then show ?thesis using CmdRemoveById run
        id_steps_remove [OF inv wait erase_first_erases [of "\<lambda>desc. d_observerId desc = i"] _ set_drop_first]
      by (simp add: ev_RemoveById_def)
  qed
next
  case (CmdRemoveCallback topic cb)
  then show ?thesis using run id_steps_remove [OF inv wait erase_loop_erases [of "\<lambda>desc. d_callback desc = cb"]]
    by (simp add: ev_RemoveCallback_def)
next
  case (CmdRemoveMethod topic inst cb)
  then show ?thesis
    using run id_steps_remove [OF inv wait erase_loop_erases [of "\<lambda>desc. d_observerInstance desc = inst \<and> d_callbackMethod desc = cb"]]
    by (simp add: ev_RemoveMethod_def)
qed (use run in \<open>auto simp: ev_AddCallback_def ev_AddMethod_def ev_AddFunc_def obind_eq_Inr split_beta
    dest: id_steps_new [OF inv]\<close>)


text \<open>
  The operations that the handlers of a log of calls performed. A handler is called with what
  the log says, so that the log determines them.
\<close>

definition issued :: "handlers \<Rightarrow> ev_call list \<Rightarrow> nat" where
  "issued H calls = sum_list (map (\<lambda>c. case c of ECall t tid body \<Rightarrow> length (H t tid body)) calls)"

lemma issued_simps [simp]:
  "issued H [] = 0" "issued H (ECall t tid body # cs) = length (H t tid body) + issued H cs"
  "issued H (cs @ cs') = issued H cs + issued H cs'"
  by (simp_all add: issued_def)

lemma ev_commands_ids:
  assumes "ev_inv B s" and "may_wait s" and "ev_commands s cs = ret s'"
  shows "id_steps (length cs) s s'"
  using assms
proof (induction cs arbitrary: s)
  case Nil
  then show ?case by (simp add: id_steps_frame)
next
  case (Cons c cs)
  obtain s1 where s1: "ev_command s c = ret s1" "ev_commands s1 cs = ret s'" using Cons.prems(3) by (auto simp: rbind_eq_ret)
  then have "ev_inv B s1" "may_wait s1" using ev_command_ok [OF Cons.prems(1,2), of c] Cons.prems(2) extends_may_wait by auto
  from id_steps_trans [OF ev_command_ids [OF Cons.prems(1,2) s1(1)] Cons.IH [OF this s1(2)]] show ?case by simp
qed

lemma ids_ok_log [simp]: "ids_ok n (s\<lparr>v_log := l\<rparr>) = ids_ok n s"
proof -
  have "ev_observers (s\<lparr>v_log := l\<rparr>) = ev_observers s" by (rule ev_observers_eq) simp_all
  then show ?thesis by (simp add: ids_ok_def)
qed

lemma id_steps_log [simp]: "id_steps k (s\<lparr>v_log := l\<rparr>) s' = id_steps k s s'"
  by (simp add: id_steps_def)

lemma ev_invoke_all_ids:
  assumes "ev_inv B s" and "may_wait s" and "ev_invoke_all H tid m ds s = ret s'"
  shows "\<exists>calls. v_log s' = v_log s @ calls \<and> id_steps (issued H calls) s s'"
  using assms
proof (induction ds arbitrary: s)
  case Nil
  then show ?case by (intro exI [of _ "[]"]) (simp add: id_steps_frame)
next
  case (Cons d ds)
  show ?case
  proof (cases "descriptor_target d")
    case None
    then show ?thesis using Cons by simp
  next
    case (Some t)
    then obtain body s1 where s1: "ev_commands (s\<lparr>v_log := v_log s @ [ECall t tid body]\<rparr>) (H t tid body) = ret s1"
      "ev_invoke_all H tid m ds s1 = ret s'" using Cons.prems(3) by (auto simp: rbind_eq_ret)
    let ?s = "s\<lparr>v_log := v_log s @ [ECall t tid body]\<rparr>"
    have s: "ev_inv B ?s" "may_wait ?s" using Cons.prems(1,2) by (simp_all add: may_wait_def)
    have s1_ok: "ev_inv B s1" "extends ?s s1" using ev_commands_ok [OF s, of "H t tid body"] s1(1) by auto
    then have log: "v_log s1 = v_log s @ [ECall t tid body]" by (simp add: extends_def)
    have "may_wait s1" using extends_may_wait [OF s1_ok(2)] s(2) by simp
    from Cons.IH [OF s1_ok(1) this s1(2)] obtain calls where "v_log s' = v_log s1 @ calls" "id_steps (issued H calls) s1 s'" by blast
    moreover have "id_steps (length (H t tid body)) s s1" using ev_commands_ids [OF s s1(1)] by simp
    ultimately show ?thesis using log id_steps_trans by (intro exI [of _ "ECall t tid body # calls"]) auto
  qed
qed

lemma id_steps_eqI:
  assumes "id_steps k s s'" and "v_nextObserverId s1 = v_nextObserverId s" "ev_observers s1 = ev_observers s"
    and "v_nextObserverId s1' = v_nextObserverId s'" "ev_observers s1' = ev_observers s'"
  shows "id_steps k s1 s1'"
proof -
  have "ids_ok n s1 = ids_ok n s" "ids_ok n s1' = ids_ok n s'" for n using assms(2-5) by (simp_all only: ids_ok_def)
  then show ?thesis using assms(1,2,4) by (simp only: id_steps_def)
qed

lemma ev_delete_message_next: "ev_delete_message s m = Inr s' \<Longrightarrow> v_nextObserverId s' = v_nextObserverId s"
  by (auto simp: ev_delete_message_def obind_eq_Inr)

lemma ev_observers_mark [simp]:
  "ev_observers (ev_MarkDispatchActive s) = ev_observers s" "ev_observers (ev_MarkDispatchComplete s) = ev_observers s"
  by (rule ev_observers_eq; simp add: ev_MarkDispatchActive_def ev_MarkDispatchComplete_def)+

lemma mark_active_simps [simp]:
  "v_nextObserverId (ev_MarkDispatchActive s) = v_nextObserverId s" "v_log (ev_MarkDispatchActive s) = v_log s"
  by (simp_all add: ev_MarkDispatchActive_def)

lemma ev_Dispatch_ids:
  assumes inv: "ev_inv (m # B) s" and msg: "cells (v_messages s) m = Some msg" and run: "ev_Dispatch H tid (Some m) s = ret s'"
  shows "\<exists>calls. v_log s' = v_log s @ calls \<and> id_steps (issued H calls) s s'"
proof -
  let ?s = "ev_MarkDispatchActive s"
  obtain snap s1 where s1: "ev_invoke_all H tid m snap ?s = ret s1" "ev_delete_message (ev_MarkDispatchComplete s1) m = Inr s'"
    using run by (auto simp: ev_Dispatch_def rbind_eq_ret)
  have s: "ev_inv (m # B) ?s" "may_wait ?s" "cells (v_messages ?s) m = Some msg"
    using inv msg by (simp_all only: ev_inv_mark) (simp_all add: ev_MarkDispatchActive_def may_wait_def)
  obtain calls where calls: "v_log s1 = v_log ?s @ calls" "id_steps (issued H calls) ?s s1" using ev_invoke_all_ids [OF s(1,2) s1(1)] by blast
  obtain s2 where s2: "ev_inv (m # B) s1" "extends (?s\<lparr>v_log := v_log s1\<rparr>) s1"
    using ev_invoke_all_ok [OF s, of H tid snap] s1(1) by (auto simp: extends_def)
  have "cells (v_messages (ev_MarkDispatchComplete s1)) m = Some msg"
    using s2(2) s(3) by (auto simp: extends_def map_le_def ev_MarkDispatchComplete_def dom_def)
  moreover have "ev_inv (m # B) (ev_MarkDispatchComplete s1)" using s2(1) by simp
  ultimately have "v_log s' = v_log (ev_MarkDispatchComplete s1)" "ev_observers s' = ev_observers (ev_MarkDispatchComplete s1)"
    using ev_delete_message_ok [of m B "ev_MarkDispatchComplete s1" msg] s1(2) by fastforce+
  then have "ev_observers s' = ev_observers s1" "v_log s' = v_log s1"
    by (simp_all only: ev_observers_mark) (simp add: ev_MarkDispatchComplete_def)
  moreover have "v_nextObserverId s' = v_nextObserverId s1" using ev_delete_message_next [OF s1(2)] by (simp add: ev_MarkDispatchComplete_def)
  ultimately show ?thesis
    using calls id_steps_eqI [OF calls(2), of s s'] by (intro exI [of _ calls]) simp_all
qed


lemma ev_action_step_ids:
  assumes inv: "ev_inv [] s" and idle: "v_active s = 0" and may: "permitted s a" and run: "ev_action_step H s a = ret s'"
  shows "\<exists>calls. v_log s' = v_log s @ calls \<and> id_steps (Suc (issued H calls)) s s'"
proof -
  have wait: "may_wait s" using idle by (simp add: may_wait_def)
  have quiet: ?thesis if "v_log s' = v_log s" "id_steps 1 s s'"
    using that by (intro exI [of _ "[]"]) simp
  have frame: ?thesis if "v_log s' = v_log s" "v_nextObserverId s' = v_nextObserverId s" "ev_observers s' = ev_observers s"
    using that by (intro quiet id_steps_frame)
  show ?thesis
  proof (cases a)
    case (Api c)
    then show ?thesis using ev_command_ids [OF inv wait, of c s'] ev_command_ok [OF inv wait, of c] run
      by (intro quiet) (auto simp: extends_def)
  next
    case (NewDescriptor desc)
    obtain s1 d where "ev_new_descriptor s desc = (s1, d)" by fastforce
    then show ?thesis using NewDescriptor run ev_new_descriptor_ok(2,5,6) [OF inv, of desc s1 d] by (intro frame) (auto simp: extends_def)
  next
    case (NewPayload body)
    then show ?thesis using run ev_new_payload_ok(2,3) [OF inv, of body] make_payload_next [of s "Some body" s']
      by (intro frame) (auto simp: extends_def make_payload_def split_beta)
  next
    case (AddPointer topic obs)
    then have "may_add s topic obs" using may by simp
    from add_pointer_ok [OF inv this refl] show ?thesis
      using AddPointer run by (intro quiet) (auto simp: extends_def intro: id_steps_frame id_steps_add split: if_splits)
  next
    case (PostPointer tid obj cleanup)
    then have "may_post s obj cleanup" using may by simp
    from ev_Post_postable(2,3) [OF inv may_post_postable [OF inv this]] show ?thesis
      using PostPointer run by (intro frame) (auto simp: extends_def)
  next
    case (PostTopicPointer topic obj cleanup)
    then have "may_post s obj cleanup" using may by simp
    from ev_Post_postable(2,3) [OF inv may_post_postable [OF inv this]] show ?thesis
      using PostTopicPointer run by (intro frame) (auto simp: extends_def ev_PostTopic_def)
  next
    case (DeletePayload p)
    have "ev_observers (s\<lparr>v_payloads := heap_delete (v_payloads s) p\<rparr>) = ev_observers s" by (rule ev_observers_eq) simp_all
    then show ?thesis using DeletePayload run ev_delete_payload_ok(1) [OF inv, of p] may by (intro frame) auto
  next
    case Deliver
    show ?thesis
    proof (cases "v_queue s")
      case Nil
      then show ?thesis using Deliver run by (intro frame) (auto simp: ev_GetQueueMessage_def)
    next
      case (Cons m ms)
      let ?s = "s\<lparr>v_queue := ms\<rparr>"
      note get = ev_GetQueueMessage_ok [OF inv Cons]
      obtain msg where msg: "cells (v_messages ?s) m = Some msg" using get(3) by auto
      have "ev_Dispatch H (sint (e_tid msg)) (Some m) ?s = ret s'" using Deliver run get(1) msg by simp
      from ev_Dispatch_ids [OF get(2) msg this] obtain calls where calls: "v_log s' = v_log s @ calls" "id_steps (issued H calls) ?s s'"
        by auto
      have "ev_observers s = ev_observers ?s" by (rule ev_observers_eq) simp_all
      then have "id_steps (issued H calls) s s'" using id_steps_eqI [OF calls(2), of s s'] by simp
      from id_steps_trans [OF id_steps_frame [of s s 1] this] show ?thesis using calls(1) by (intro exI [of _ calls]) simp
    qed
  next
    case Init
    then show ?thesis using run ev_init_ok(2) [of s] by (intro frame) (auto simp: ev_init_def)
  next
    case Dispose
    then have "ev_dispose s = Inr s'" using run by simp
    then show ?thesis using ev_dispose_inv(3-5) [OF inv] by (intro quiet id_steps_same) auto
  qed
qed

lemma ev_session_ids:
  assumes "ev_inv [] s" and "v_active s = 0" and "well_behaved H s as" and "ev_session H s as = ret s'"
  shows "\<exists>calls. v_log s' = v_log s @ calls \<and> id_steps (length as + issued H calls) s s'"
  using assms
proof (induction as arbitrary: s)
  case Nil
  then show ?case by (intro exI [of _ "[]"]) (simp add: id_steps_frame)
next
  case (Cons a as)
  have may: "permitted s a" using Cons.prems(3) by simp
  from ev_action_step_ok [OF Cons.prems(1,2) may] obtain s1 where s1: "ev_action_step H s a = ret s1" "ev_inv [] s1" "v_active s1 = 0"
    by blast
  then have "well_behaved H s1 as" "ev_session H s1 as = ret s'" using Cons.prems(3,4) by simp_all
  from Cons.IH [OF s1(2,3) this] obtain calls where calls: "v_log s' = v_log s1 @ calls" "id_steps (length as + issued H calls) s1 s'"
    by blast
  from ev_action_step_ids [OF Cons.prems(1,2) may s1(1)] obtain calls1 where
    calls1: "v_log s1 = v_log s @ calls1" "id_steps (Suc (issued H calls1)) s s1" by blast
  show ?case using id_steps_trans [OF calls1(2) calls(2)] calls(1) calls1(1)
    by (intro exI [of _ "calls1 @ calls"]) (simp add: add.left_commute add.commute add.assoc)
qed

lemma ids_ok_new: "ids_ok 1 ev_new"
  by (simp add: ids_ok_def)

section \<open>Properties\<close>

lemmas session_defs = ev_new_def ev_init_def heap_empty_def heap_new_def heap_read_def heap_write_def heap_delete_def delete_obj_def
  ev_new_descriptor_def ev_new_payload_def ev_AddDescriptor_def ev_RegisterTopic_def ev_ResolveTopic_def ev_observer_vector_def
  ev_GetObservers_def ev_PostTopic_def ev_Post_def MAX_TOPICS_def

lemma ev_misuse:
  "0 \<le> snd (ev_RegisterTopic s topic) \<Longrightarrow> ev_AddDescriptor s topic None = Inl NullRead"
  "ev_session H ev_new [NewDescriptor new_descriptor, AddPointer ''A'' (Some 0), AddPointer ''A'' (Some 0),
     Api (CmdRemoveMethod ''A'' None None)] = Some (Inl UseAfterFree)"
  "ev_session H ev_new [Api (CmdRegister ''A''), NewPayload ''hi'', PostTopicPointer ''A'' (Some 0) True,
     PostTopicPointer ''A'' (Some 0) True, Deliver, Deliver] = Some (Inl UseAfterFree)"
proof -
  show "ev_AddDescriptor s topic None = Inl NullRead" if "0 \<le> snd (ev_RegisterTopic s topic)"
    using that by (simp add: ev_AddDescriptor_def split_beta Let_def)
  show "ev_session H ev_new [NewDescriptor new_descriptor, AddPointer ''A'' (Some 0), AddPointer ''A'' (Some 0),
     Api (CmdRemoveMethod ''A'' None None)] = Some (Inl UseAfterFree)"
    by (simp add: session_defs new_descriptor_def ev_RemoveMethod_def ev_erase_def)
  show "ev_session H ev_new [Api (CmdRegister ''A''), NewPayload ''hi'', PostTopicPointer ''A'' (Some 0) True,
     PostTopicPointer ''A'' (Some 0) True, Deliver, Deliver] = Some (Inl UseAfterFree)"
    by (simp add: session_defs ev_GetQueueMessage_def ev_Dispatch_def ev_snapshot_def ev_delete_message_def
        ev_MarkDispatchActive_def ev_MarkDispatchComplete_def)
qed

text \<open>
  C8. Memory safety: in every session with a new queue that respects who owns an object (a
  descriptor added through a pointer is live and not registered yet; a payload with
  \<open>autoCleanupPayload\<close> is posted once, and others stay live while a message carries them), and
  whatever operations the handlers perform, with objects of their own, every operation returns
  without touching deleted memory and leaves a well-formed queue, also after a \<open>dispose\<close>; it can
  always be disposed of. That the conditions are needed is \<open>ev_misuse\<close>: a null descriptor for a
  valid topic is read, and a descriptor added twice, or a payload posted twice for clean-up,
  is used after it was deleted.
\<close>

theorem ev_session_safe:
  assumes "well_behaved H ev_new as"
  shows "\<exists>s s'. ev_session H ev_new as = ret s \<and> ev_inv [] s \<and> ev_dispose s = Inr s' \<and> ev_inv [] s' \<and> live (v_messages s') = {}"
proof -
  from ev_session_ok [OF ev_inv_new _ assms] obtain s where s: "ev_session H ev_new as = ret s" "ev_inv [] s" by auto
  obtain s' where s': "ev_dispose s = Inr s'" "live (v_messages s') = {}" using ev_dispose_ok [OF s(2)] by blast
  show ?thesis using s s' ev_dispose_inv(1) [OF s(2) s'(1)] by blast
qed


text \<open>A session that shares one payload between two messages, deletes it, disposes of the queue and goes on.\<close>

definition demo_session :: "ev_action list" where
  "demo_session =
     [NewDescriptor (new_descriptor\<lparr>d_callbackFunc := Some 5\<rparr>), AddPointer ''A'' (Some 0), NewPayload ''hi'',
      PostTopicPointer ''A'' (Some 0) False, PostTopicPointer ''A'' (Some 0) False, Deliver, Deliver, DeletePayload 0, Dispose, Api (CmdAddFunc ''A'' (Some 6))]"

lemma demo_session_well_behaved: "well_behaved (\<lambda>_ _ _. []) ev_new demo_session"
  by (simp add: demo_session_def session_defs may_add_def may_post_def ev_pending_def desc_ptrs_def new_descriptor_def
      ev_GetQueueMessage_def ev_Dispatch_def ev_snapshot_def ev_delete_message_def descriptor_target_def ev_view_def
      ev_MarkDispatchActive_def ev_MarkDispatchComplete_def ev_dispose_def observer_vectors_def ev_AddFunc_def)

theorem ev_session_safe_witness:
  "\<exists>s. ev_session (\<lambda>_ _ _. []) ev_new demo_session = ret s \<and> ev_inv [] s"
  using ev_session_safe [OF demo_session_well_behaved] by blast


text \<open>Adding a function to a queue whose ids are below the counter, and taking it away again.\<close>

lemma drop_first_append: "(\<forall>x \<in> set xs. \<not> P x) \<Longrightarrow> drop_first P (xs @ [x]) = (if P x then xs else xs @ [x])"
  by (induction xs) auto

lemma add_func_roundtrip:
  assumes inv: "ev_inv B s" and wait: "may_wait s" and ids: "ids_ok n s" and reg: "ev_RegisterTopic s topic = (s0, t)" and t: "0 \<le> t"
  shows "\<exists>s1. ev_AddFunc s topic (Some f) = Inr (s1, v_nextObserverId s) \<and> ev_inv B s1 \<and> extends s s1 \<and>
    v_nextObserverId s1 = v_nextObserverId s + 1 \<and>
    ev_observers s1 = (ev_observers s)(t := ev_observers s t @ [new_descriptor\<lparr>d_observerId := v_nextObserverId s, d_callbackFunc := Some f\<rparr>]) \<and>
    (\<exists>s2. ev_RemoveById s1 topic (v_nextObserverId s) = ret s2 \<and> ev_inv B s2 \<and> ev_observers s2 = ev_observers s)"
proof -
  let ?i = "v_nextObserverId s"
  let ?desc = "new_descriptor\<lparr>d_callbackFunc := Some f\<rparr>"
  have "snd (ev_RegisterTopic s topic) = t" using reg by simp
  from ev_add_ok [OF inv this, of ?desc] reg t obtain s1 where s1: "ev_AddFunc s topic (Some f) = Inr (s1, ?i)" "ev_inv B s1"
    "extends s s1" "v_resolveMap s1 = v_resolveMap s0" "v_nextObserverId s1 = ?i + 1"
    "ev_observers s1 = (ev_observers s)(t := ev_observers s t @ [?desc\<lparr>d_observerId := ?i\<rparr>])"
    by (auto simp: ev_AddFunc_def)
  have new: "?i \<noteq> 0" "\<forall>d \<in> set (ev_observers s t). d_observerId d \<noteq> ?i"
    using ids less_imp_neq by (auto simp: ids_ok_def simp del: word_neq_0_conv)
  have resolve: "ev_ResolveTopic s1 topic = t"
    using reg t by (auto simp: ev_ResolveTopic_def s1(4) ev_RegisterTopic_def split: if_splits option.splits)
  have "may_wait s1" using wait s1(3) extends_may_wait by blast
  from ev_remove_ok [OF s1(2) this erase_first_erases [of "\<lambda>d. d_observerId d = ?i"], of t] new(1)
  obtain s2 where s2: "ev_RemoveById s1 topic ?i = ret s2" "ev_inv B s2"
    "ev_observers s2 = (ev_observers s1)(t := drop_first (\<lambda>d. d_observerId d = ?i) (ev_observers s1 t))"
    by (auto simp: ev_RemoveById_def resolve)
  have "drop_first (\<lambda>d. d_observerId d = ?i) (ev_observers s1 t) = ev_observers s t"
    using new(2) by (simp add: s1(6) drop_first_append)
  then have "ev_observers s2 = ev_observers s" using s2(3) by (simp add: s1(6))
  then show ?thesis using s1 s2(1,2) by (auto simp: new_descriptor_def)
qed

lemma add_func_refused:
  assumes inv: "ev_inv B s" and "ev_RegisterTopic s topic = (s0, t)" and "t < 0"
  shows "\<exists>s1. ev_AddFunc s topic cb = Inr (s1, 0) \<and> ev_inv B s1 \<and> ev_observers s1 = ev_observers s"
  using ev_add_ok [OF inv, of topic t "new_descriptor\<lparr>d_callbackFunc := cb\<rparr>"] assms(2,3) by (auto simp: ev_AddFunc_def)

text \<open>The id that an added function gets: the counter, or 0 for an invalid topic.\<close>

lemma add_func_id:
  assumes "ev_inv B s" and "ev_AddFunc s topic cb = Inr (s1, i)"
  shows "i = 0 \<or> i = v_nextObserverId s"
  using ev_add_ok [OF assms(1) refl, where topic = topic and desc = "new_descriptor\<lparr>d_callbackFunc := cb\<rparr>"] assms(2)
  by (auto simp: ev_AddFunc_def split: if_splits)

text \<open>
  C24. Observer ids, after any session on a new queue that respects who owns an object and in
  which clients and handlers perform fewer than \<open>2^64 - 2\<close> operations: adding a lambda to a valid topic
  returns an id that is not zero and that no observer of any topic has; the observer is the
  last of its topic, and \<open>RemoveObserverById\<close> with this id takes exactly it away again. The id
  is never given out again: however the session goes on, a function added later gets a
  greater id (or 0, for an invalid topic). An invalid topic gives id 0 and adds no observer.
\<close>

theorem ev_observer_id_roundtrip:
  assumes "well_behaved H ev_new as" and "ev_session H ev_new as = ret s" and "length as + issued H (v_log s) + 2 < 2 ^ 64"
    and "ev_RegisterTopic s topic = (s0, t)"
  shows "\<exists>s1 i. ev_AddFunc s topic (Some f) = Inr (s1, i) \<and> ev_inv [] s1 \<and>
    (t < 0 \<longrightarrow> i = 0 \<and> ev_observers s1 = ev_observers s) \<and>
    (0 \<le> t \<longrightarrow> i \<noteq> 0 \<and> (\<forall>t. \<forall>d \<in> set (ev_observers s t). d_observerId d \<noteq> i) \<and>
       ev_observers s1 = (ev_observers s)(t := ev_observers s t @ [new_descriptor\<lparr>d_observerId := i, d_callbackFunc := Some f\<rparr>]) \<and>
       (\<exists>s2. ev_RemoveById s1 topic i = ret s2 \<and> ev_inv [] s2 \<and> ev_observers s2 = ev_observers s) \<and>
       (\<forall>bs s3 topic' g s4 j. well_behaved H s1 bs \<longrightarrow> ev_session H s1 bs = ret s3 \<longrightarrow>
          length as + length bs + issued H (v_log s3) + 2 < 2 ^ 64 \<longrightarrow> ev_AddFunc s3 topic' g = Inr (s4, j) \<longrightarrow> j = 0 \<or> i < j))"
proof -
  have inv: "ev_inv [] s" and idle: "v_active s = 0" using ev_session_ok [OF ev_inv_new _ assms(1)] assms(2) by auto
  then have wait: "may_wait s" by (simp add: may_wait_def)
  let ?n = "1 + (length as + issued H (v_log s))"
  from ev_session_ids [OF ev_inv_new _ assms(1,2)] have "id_steps (length as + issued H (v_log s)) ev_new s" by auto
  from id_stepsD [OF this ids_ok_new] assms(3) have ids: "ids_ok ?n s" by simp
  show ?thesis
  proof (cases "t < 0")
    case True
    then show ?thesis using add_func_refused [OF inv assms(4) True, of "Some f"] by auto
  next
    case False
    let ?i = "v_nextObserverId s"
    from add_func_roundtrip [OF inv wait ids assms(4), of f] False obtain s1 where
      s1: "ev_AddFunc s topic (Some f) = Inr (s1, ?i)" "ev_inv [] s1" "extends s s1" "v_nextObserverId s1 = ?i + 1"
      "ev_observers s1 = (ev_observers s)(t := ev_observers s t @ [new_descriptor\<lparr>d_observerId := ?i, d_callbackFunc := Some f\<rparr>])"
      "\<exists>s2. ev_RemoveById s1 topic ?i = ret s2 \<and> ev_inv [] s2 \<and> ev_observers s2 = ev_observers s" by auto
    have new: "?i \<noteq> 0" "\<forall>t. \<forall>d \<in> set (ev_observers s t). d_observerId d \<noteq> ?i"
      using ids less_imp_neq by (auto simp: ids_ok_def simp del: word_neq_0_conv)
    have add: "id_steps 1 s s1"
      using s1(4,5) id_steps_add [of s1 s t "new_descriptor\<lparr>d_callbackFunc := Some f\<rparr>" 0] by (simp add: new_descriptor_def)
    have "?n < 2 ^ 64 - 1" using assms(3) by simp
    then have "?i < ?i + 1" using ids by (simp add: ids_ok_def word_less_nat_alt unat_word_ariths)
    have later: "j = 0 \<or> ?i < j"
      if bs: "well_behaved H s1 bs" "ev_session H s1 bs = ret s3" "length as + length bs + issued H (v_log s3) + 2 < 2 ^ 64"
        "ev_AddFunc s3 topic' g = Inr (s4, j)" for bs s3 topic' g s4 j
    proof -
      have idle1: "v_active s1 = 0" using s1(3) idle by (simp add: extends_def)
      have "ev_inv [] s3" using ev_session_ok [OF s1(2) idle1 bs(1)] bs(2) by auto
      from add_func_id [OF this bs(4)] have "j = 0 \<or> j = v_nextObserverId s3" .
      moreover obtain calls where calls: "v_log s3 = v_log s1 @ calls" "id_steps (length bs + issued H calls) s1 s3"
        using ev_session_ids [OF s1(2) idle1 bs(1,2)] by blast
      have log: "issued H (v_log s3) = issued H (v_log s) + issued H calls" using calls(1) s1(3) by (simp add: extends_def)
      have ids1: "ids_ok (?n + 1) s1" using id_stepsD [OF add ids] assms(3) by simp
      have "v_nextObserverId s1 \<le> v_nextObserverId s3" using id_stepsD [OF calls(2) ids1] bs(3) log by simp
      ultimately show ?thesis using \<open>?i < ?i + 1\<close> s1(4) by auto
    qed
    show ?thesis using s1(1,2,5,6) new later False by (intro exI [of _ s1] exI [of _ ?i]) blast
  qed
qed


theorem ev_observer_id_roundtrip_witness:
  "\<exists>H s s1 s2 s3 s4 j. ev_session H ev_new [Api (CmdAddFunc ''A'' (Some 5))] = ret s \<and>
     ev_AddFunc s ''A'' (Some 6) = Inr (s1, 2) \<and> length (ev_observers s1 0) = 2 \<and>
     ev_RemoveById s1 ''A'' 2 = ret s2 \<and> ev_observers s2 = ev_observers s \<and>
     ev_session H s1 [Api (CmdRemoveById ''A'' 2)] = ret s3 \<and> ev_AddFunc s3 ''A'' (Some 7) = Inr (s4, j) \<and> 2 < j"
proof -
  let ?H = "\<lambda>_ _ _. [] :: command list" and ?as = "[Api (CmdAddFunc ''A'' (Some 5))]"
  have "\<exists>s. ev_session ?H ev_new ?as = ret s \<and> v_nextObserverId s = 2 \<and> v_resolveMap s ''A'' = Some 0 \<and> v_log s = [] \<and>
    length (ev_observers s 0) = 1"
    by (simp add: session_defs ev_AddFunc_def new_descriptor_def ev_observers_def desc_ptrs_def)
  then obtain s where s: "ev_session ?H ev_new ?as = ret s" "v_nextObserverId s = 2" "v_resolveMap s ''A'' = Some 0" "v_log s = []"
    "length (ev_observers s 0) = 1" by blast
  have wb: "well_behaved ?H ev_new ?as" by (simp split: option.split sum.split)
  have reg: "ev_RegisterTopic s ''A'' = (s, 0)" using s(3) by (simp add: ev_RegisterTopic_def)
  have few: "length ?as + issued ?H (v_log s) + 2 < 2 ^ 64" by (simp add: s(4))
  obtain s1 i where s1: "ev_AddFunc s ''A'' (Some 6) = Inr (s1, i)" "ev_inv [] s1" "i \<noteq> 0"
    "ev_observers s1 = (ev_observers s)(0 := ev_observers s 0 @ [new_descriptor\<lparr>d_observerId := i, d_callbackFunc := Some 6\<rparr>])"
    "\<exists>s2. ev_RemoveById s1 ''A'' i = ret s2 \<and> ev_inv [] s2 \<and> ev_observers s2 = ev_observers s"
    "\<forall>bs s3 topic' g s4 j. well_behaved ?H s1 bs \<longrightarrow> ev_session ?H s1 bs = ret s3 \<longrightarrow>
       length ?as + length bs + issued ?H (v_log s3) + 2 < 2 ^ 64 \<longrightarrow> ev_AddFunc s3 topic' g = Inr (s4, j) \<longrightarrow> j = 0 \<or> i < j"
    using ev_observer_id_roundtrip [OF wb s(1) few reg, of 6] by auto
  have inv: "ev_inv [] s" "v_active s = 0" using ev_session_ok [OF ev_inv_new _ wb] s(1) by auto
  have i: "i = 2" using add_func_id [OF inv(1) s1(1)] s(2) s1(3) by simp
  have add: "extends s s1" "v_resolveMap s1 = v_resolveMap s"
    using ev_add_ok [OF inv(1), of "''A''" 0 "new_descriptor\<lparr>d_callbackFunc := Some 6\<rparr>"] s1(1) reg by (auto simp: ev_AddFunc_def)
  have "well_behaved ?H s1 [Api (CmdRemoveById ''A'' 2)]" by (simp split: option.split sum.split)
  moreover obtain s3 where s3: "ev_RemoveById s1 ''A'' 2 = ret s3" "ev_inv [] s3" using s1(5) i by auto
  moreover have wait: "may_wait s1" using add(1) inv(2) by (simp add: extends_def may_wait_def)
  have res3: "v_resolveMap s3 ''A'' = Some 0" "extends s1 s3"
    using ev_remove_ok [OF s1(2) wait erase_first_erases [of "\<lambda>d. d_observerId d = 2"], of "ev_ResolveTopic s1 ''A''"] s3(1) add(2) s(3)
    by (auto simp: ev_RemoveById_def)
  moreover have "v_log s3 = []" using res3(2) add(1) s(4) by (simp add: extends_def)
  moreover have "ev_RegisterTopic s3 ''A'' = (s3, 0)" using res3(1) by (simp add: ev_RegisterTopic_def)
  then obtain s4 where s4: "ev_AddFunc s3 ''A'' (Some 7) = Inr (s4, v_nextObserverId s3)"
    using ev_add_ok [OF s3(2), of "''A''" 0 "new_descriptor\<lparr>d_callbackFunc := Some 7\<rparr>"] by (auto simp: ev_AddFunc_def)
  moreover have "v_nextObserverId s3 = 3"
  proof -
    have "v_nextObserverId s3 = v_nextObserverId s1" using ev_erase_next s3(1) by (auto simp: ev_RemoveById_def)
    moreover have "v_nextObserverId s1 = 3"
      using ev_add_ok [OF inv(1), of "''A''" 0 "new_descriptor\<lparr>d_callbackFunc := Some 6\<rparr>"] s1(1) reg s(2) by (auto simp: ev_AddFunc_def)
    ultimately show ?thesis by simp
  qed
  ultimately have "2 < v_nextObserverId s3" using s1(6) i by fastforce
  moreover have "ev_AddFunc s ''A'' (Some 6) = Inr (s1, 2)" using s1(1) i by simp
  moreover have "length (ev_observers s1 0) = 2" using s1(4) s(5) by simp
  moreover have "ev_observers s3 = ev_observers s" using s1(5) s3(1) i by auto
  moreover have "ev_session ?H s1 [Api (CmdRemoveById ''A'' 2)] = ret s3" using s3(1) by simp
  ultimately show ?thesis using s(1) s3(1) s4 by blast
qed

end
