(* ===== verification/Event_Queue_Sync.thy ===== *)
theory Event_Queue_Sync
  imports Main
begin

text \<open>
  The threads of \<open>src/eventqueue.cpp\<close>: any number of threads run \<open>Dispatch\<close> and
  \<open>RemoveObserver\<close> on one topic, and every critical section is one step. A snapshot and
  \<open>MarkDispatchActive\<close> happen under \<open>m_mutexObservers\<close>, as does the erasing in \<open>RemoveObserver\<close>;
  \<open>MarkDispatchComplete\<close> and the test of \<open>WaitForDispatchesToComplete\<close> happen under
  \<open>m_mutexDispatches\<close>. A thread that waits on the condition variable sleeps until it is
  notified, or wakes up spuriously. An observer is the id that \<open>AddObserver\<close> gave it; ids are never used twice.
\<close>

section \<open>Threads and steps\<close>

text \<open>
  Where a thread is: outside; in the loop of \<open>Dispatch\<close> with the rest of its snapshot; inside
  a handler; in \<open>RemoveObserver\<close> after the erasing, before the test of the wait; asleep in the
  wait; behind \<open>RemoveObserver\<close>.
\<close>

datatype sync_pc =
    Outside
  | Invoking "nat list"
  | Running nat "nat list"
  | Erased nat
  | Sleeping nat
  | Removed nat

record sync =
  y_observers :: "nat list"
  y_nextId :: nat
  y_active :: int
  y_pc :: "nat \<Rightarrow> sync_pc"

definition sync_init :: sync where
  "sync_init = \<lparr>y_observers = [], y_nextId = 1, y_active = 0, y_pc = (\<lambda>_. Outside)\<rparr>"

definition wake_all :: "(nat \<Rightarrow> sync_pc) \<Rightarrow> nat \<Rightarrow> sync_pc" where
  "wake_all pc t = (case pc t of Sleeping d \<Rightarrow> Erased d | p \<Rightarrow> p)"

inductive sync_step :: "nat \<Rightarrow> sync \<Rightarrow> sync \<Rightarrow> bool" where
  add: "(case y_pc s t of Outside \<Rightarrow> True | Running d ds \<Rightarrow> True | _ \<Rightarrow> False) \<Longrightarrow>
    sync_step t s (s\<lparr>y_observers := y_observers s @ [y_nextId s], y_nextId := y_nextId s + 1\<rparr>)"
| snapshot: "y_pc s t = Outside \<Longrightarrow>
    sync_step t s (s\<lparr>y_active := y_active s + 1, y_pc := (y_pc s)(t := Invoking (y_observers s))\<rparr>)"
| call: "y_pc s t = Invoking (d # ds) \<Longrightarrow> sync_step t s (s\<lparr>y_pc := (y_pc s)(t := Running d ds)\<rparr>)"
| return: "y_pc s t = Running d ds \<Longrightarrow> sync_step t s (s\<lparr>y_pc := (y_pc s)(t := Invoking ds)\<rparr>)"
| complete: "y_pc s t = Invoking [] \<Longrightarrow>
    sync_step t s (s\<lparr>y_active := y_active s - 1,
      y_pc := (if y_active s - 1 = 0 then wake_all ((y_pc s)(t := Outside)) else (y_pc s)(t := Outside))\<rparr>)"
| erase: "y_pc s t = Outside \<Longrightarrow> d < y_nextId s \<Longrightarrow>
    sync_step t s (s\<lparr>y_observers := removeAll d (y_observers s), y_pc := (y_pc s)(t := Erased d)\<rparr>)"
| erase_in_handler: "y_pc s t = Running e ds \<Longrightarrow> d < y_nextId s \<Longrightarrow>
    sync_step t s (s\<lparr>y_observers := removeAll d (y_observers s)\<rparr>)"
| wait_over: "y_pc s t = Erased d \<Longrightarrow> y_active s = 0 \<Longrightarrow> sync_step t s (s\<lparr>y_pc := (y_pc s)(t := Removed d)\<rparr>)"
| wait_sleep: "y_pc s t = Erased d \<Longrightarrow> y_active s \<noteq> 0 \<Longrightarrow> sync_step t s (s\<lparr>y_pc := (y_pc s)(t := Sleeping d)\<rparr>)"
| spurious: "y_pc s t = Sleeping d \<Longrightarrow> sync_step t s (s\<lparr>y_pc := (y_pc s)(t := Erased d)\<rparr>)"
| leave: "y_pc s t = Removed d \<Longrightarrow> sync_step t s (s\<lparr>y_pc := (y_pc s)(t := Outside)\<rparr>)"

inductive_cases sync_stepE: "sync_step t s s'"

inductive sync_reachable :: "sync \<Rightarrow> bool" where
  init: "sync_reachable sync_init"
| step: "sync_reachable s \<Longrightarrow> sync_step t s s' \<Longrightarrow> sync_reachable s'"

section \<open>Invariant\<close>

definition dispatching :: "sync_pc \<Rightarrow> bool" where
  "dispatching p = (case p of Invoking ds \<Rightarrow> True | Running d ds \<Rightarrow> True | _ \<Rightarrow> False)"

text \<open>The observers a thread is calling or will still call from its snapshot.\<close>

definition due :: "sync_pc \<Rightarrow> nat set" where
  "due p = (case p of Invoking ds \<Rightarrow> set ds | Running d ds \<Rightarrow> insert d (set ds) | _ \<Rightarrow> {})"

text \<open>The observer whose removal a thread is at, and whether the removal has returned.\<close>

definition removing :: "sync_pc \<Rightarrow> nat option" where
  "removing p = (case p of Erased d \<Rightarrow> Some d | Sleeping d \<Rightarrow> Some d | Removed d \<Rightarrow> Some d | _ \<Rightarrow> None)"

definition sync_inv :: "sync \<Rightarrow> bool" where
  "sync_inv s \<longleftrightarrow> finite {t. dispatching (y_pc s t)} \<and> y_active s = int (card {t. dispatching (y_pc s t)}) \<and>
     (\<forall>d \<in> set (y_observers s). d < y_nextId s) \<and>
     (\<forall>t d. removing (y_pc s t) = Some d \<longrightarrow> d \<notin> set (y_observers s) \<and> d < y_nextId s) \<and>
     (\<forall>t u d. y_pc s t = Removed d \<longrightarrow> d \<notin> due (y_pc s u)) \<and>
     (\<forall>t d. y_pc s t = Sleeping d \<longrightarrow> y_active s \<noteq> 0)"

lemmas pc_simps = dispatching_def due_def removing_def wake_all_def

lemma wake_all_simps [simp]:
  "dispatching (wake_all pc t) = dispatching (pc t)" "due (wake_all pc t) = due (pc t)"
  "removing (wake_all pc t) = removing (pc t)" "wake_all pc t = Removed d \<longleftrightarrow> pc t = Removed d" "wake_all pc t \<noteq> Sleeping d"
  by (cases "pc t"; simp add: pc_simps)+

lemma due_idle: "\<not> dispatching p \<Longrightarrow> due p = {}"
  by (cases p) (simp_all add: pc_simps)

lemma sync_inv_removing:
  "sync_inv s \<Longrightarrow> removing (y_pc s t) = Some d \<Longrightarrow> d \<notin> set (y_observers s) \<and> d < y_nextId s"
  unfolding sync_inv_def by blast

lemma sync_inv_init: "sync_inv sync_init"
  by (simp add: sync_inv_def sync_init_def pc_simps)

text \<open>A thread that moves without starting or ending a dispatch and without gaining calls.\<close>

lemma sync_inv_move:
  assumes inv: "sync_inv s" and disp: "dispatching p = dispatching (y_pc s t)" and due: "due p \<subseteq> due (y_pc s t)"
    and rem: "\<And>d. removing p = Some d \<Longrightarrow> d \<notin> set (y_observers s) \<and> d < y_nextId s"
    and removed: "\<And>d u. p = Removed d \<Longrightarrow> d \<notin> due (y_pc s u)" and sleeping: "\<And>d. p = Sleeping d \<Longrightarrow> y_active s \<noteq> 0"
  shows "sync_inv (s\<lparr>y_pc := (y_pc s)(t := p)\<rparr>)"
proof -
  have "{u. dispatching (((y_pc s)(t := p)) u)} = {u. dispatching (y_pc s u)}" using disp by auto
  then have 1: "finite {u. dispatching (((y_pc s)(t := p)) u)}" "y_active s = int (card {u. dispatching (((y_pc s)(t := p)) u)})"
    using inv by (simp_all only: sync_inv_def)
  have "d \<notin> due (((y_pc s)(t := p)) u)" if "((y_pc s)(t := p)) v = Removed d" for v u d
  proof -
    have "d \<notin> due (y_pc s u)" for u using that inv removed by (cases "v = t") (auto simp: sync_inv_def)
    then show ?thesis using due by (cases "u = t") auto
  qed
  moreover have "removing (((y_pc s)(t := p)) v) = Some d \<Longrightarrow> d \<notin> set (y_observers s) \<and> d < y_nextId s" for v d
    using inv rem by (cases "v = t") (auto simp: sync_inv_def)
  moreover have "((y_pc s)(t := p)) v = Sleeping d \<Longrightarrow> y_active s \<noteq> 0" for v d
    using inv sleeping by (cases "v = t") (auto simp: sync_inv_def)
  ultimately show ?thesis using inv 1 unfolding sync_inv_def by simp
qed

text \<open>The list of observers changes: the new one was never removed, and removals only shrink it.\<close>

lemma sync_inv_observers:
  assumes inv: "sync_inv s" and new: "set ds \<subseteq> insert (y_nextId s) (set (y_observers s))" and n: "y_nextId s \<le> n"
    and "y_nextId s \<in> set ds \<Longrightarrow> y_nextId s < n"
  shows "sync_inv (s\<lparr>y_observers := ds, y_nextId := n\<rparr>)"
proof -
  have "d \<notin> set ds \<and> d < n" if "removing (y_pc s t) = Some d" for t d
  proof -
    have "d \<notin> set (y_observers s)" "d < y_nextId s" using inv that by (auto simp: sync_inv_def)
    then show ?thesis using new n by auto
  qed
  moreover have "d < n" if "d \<in> set ds" for d
    using that new n assms(4) inv by (cases "d = y_nextId s") (auto simp: sync_inv_def dest!: subsetD)
  ultimately show ?thesis using inv unfolding sync_inv_def by (auto simp del: of_nat_eq_0_iff)
qed

text \<open>A snapshot is of registered observers, so none that has been removed is in it.\<close>

lemma sync_inv_snapshot:
  assumes inv: "sync_inv s" and pc: "y_pc s t = Outside"
  shows "sync_inv (s\<lparr>y_active := y_active s + 1, y_pc := (y_pc s)(t := Invoking (y_observers s))\<rparr>)" (is "sync_inv ?s'")
proof -
  let ?S = "{u. dispatching (y_pc s u)}"
  have S: "t \<notin> ?S" "finite ?S" "y_active s = int (card ?S)" using pc inv by (simp_all add: pc_simps sync_inv_def)
  have disp: "{u. dispatching (y_pc ?s' u)} = insert t ?S" using pc by (auto simp: pc_simps)
  have rem: "removing (y_pc s v) = Some d" if "removing (y_pc ?s' v) = Some d" for v d
    using that pc by (auto simp: removing_def split: if_splits)
  have fields: "y_observers ?s' = y_observers s" "y_nextId ?s' = y_nextId s" "y_active ?s' = y_active s + 1" using pc by simp_all
  have old: "d \<notin> set (y_observers s) \<and> d < y_nextId s" if "removing (y_pc s v) = Some d" for v d
    by (rule sync_inv_removing [OF inv that])
  show ?thesis
    unfolding sync_inv_def fields disp
  proof (intro conjI allI impI)
    show "d \<notin> set (y_observers s)" "d < y_nextId s" if "removing (y_pc ?s' v) = Some d" for v d
      using old [OF rem [OF that]] by simp_all
    show "d \<notin> due (y_pc ?s' u)" if r: "y_pc ?s' v = Removed d" for v u d
    proof -
      have "y_pc s v = Removed d" using r pc by (auto split: if_splits)
      moreover have "d \<notin> set (y_observers s)" using old [OF rem, of v d] r by (simp add: removing_def)
      ultimately show ?thesis using pc inv by (auto simp: sync_inv_def due_def)
    qed
    show "y_active s + 1 \<noteq> 0" using S by simp
    show "y_active s + 1 = int (card (insert t ?S))" using S by simp
  qed (use S inv in \<open>simp_all add: sync_inv_def\<close>)
qed

text \<open>The end of a dispatch; the last one wakes the sleeping removals.\<close>

lemma sync_inv_complete:
  assumes inv: "sync_inv s" and busy: "y_pc s t = Invoking []"
  shows "sync_inv (s\<lparr>y_active := y_active s - 1,
    y_pc := (if y_active s - 1 = 0 then wake_all ((y_pc s)(t := Outside)) else (y_pc s)(t := Outside))\<rparr>)" (is "sync_inv ?s'")
proof -
  let ?S = "{u. dispatching (y_pc s u)}"
  have S: "finite ?S" "t \<in> ?S" "y_active s = int (card ?S)" using inv busy by (simp_all add: sync_inv_def pc_simps)
  let ?pc = "(y_pc s)(t := Outside)"
  have pc: "y_pc ?s' u = (if y_active s - 1 = 0 then wake_all ?pc u else ?pc u)" for u using busy by simp
  have dispatching: "dispatching (y_pc ?s' u) = dispatching (?pc u)" for u by (simp add: pc)
  have due: "due (y_pc ?s' u) = due (?pc u)" for u by (simp add: pc)
  have rem: "removing (y_pc ?s' u) = removing (?pc u)" for u by (simp add: pc)
  have removed: "y_pc ?s' u = Removed d \<longleftrightarrow> ?pc u = Removed d" for u d by (simp add: pc)
  have "dispatching (?pc u) \<longleftrightarrow> u \<noteq> t \<and> dispatching (y_pc s u)" for u by (simp add: dispatching_def)
  then have "{u. dispatching (y_pc ?s' u)} = ?S - {t}" unfolding dispatching by auto
  moreover have "int (card (?S - {t})) = y_active s - 1" using S card_gt_0_iff [of ?S] by (subst card_Diff_singleton) auto
  moreover have "d \<notin> due (?pc u)" if "?pc v = Removed d" for v u d
    using that inv by (auto simp: sync_inv_def due_def split: if_splits)
  moreover have "y_active s - 1 \<noteq> 0" if "y_pc ?s' v = Sleeping d" for v d using that by (auto simp: pc split: if_splits)
  ultimately show ?thesis
    using inv S(1) busy unfolding sync_inv_def rem due removed by (simp add: removing_def)
qed

lemma sync_step_inv:
  assumes "sync_step t s s'" and inv: "sync_inv s"
  shows "sync_inv s'"
  using assms(1)
proof (cases rule: sync_step.cases)
  case add
  have "sync_inv (s\<lparr>y_observers := y_observers s @ [y_nextId s], y_nextId := y_nextId s + 1\<rparr>)"
    by (rule sync_inv_observers [OF inv]) auto
  with add show ?thesis by simp
next
  case snapshot
  then show ?thesis using sync_inv_snapshot [OF inv] by simp
next
  case (call d ds)
  then show ?thesis using sync_inv_move [OF inv, of "Running d ds" t] by (simp add: pc_simps)
next
  case (return d ds)
  then show ?thesis using sync_inv_move [OF inv, of "Invoking ds" t] by (auto simp: pc_simps)
next
  case complete
  then show ?thesis using sync_inv_complete [OF inv] by simp
next
  case (erase d)
  let ?s = "s\<lparr>y_observers := removeAll d (y_observers s), y_nextId := y_nextId s\<rparr>"
  have "sync_inv ?s" by (rule sync_inv_observers [OF inv]) (use inv in \<open>auto simp: sync_inv_def\<close>)
  from sync_inv_move [OF this, of "Erased d" t] erase show ?thesis by (simp add: pc_simps)
next
  case (erase_in_handler e ds d)
  have "sync_inv (s\<lparr>y_observers := removeAll d (y_observers s), y_nextId := y_nextId s\<rparr>)"
    by (rule sync_inv_observers [OF inv]) (use inv in \<open>auto simp: sync_inv_def\<close>)
  then show ?thesis using erase_in_handler by simp
next
  case (wait_over d)
  have "finite {u. dispatching (y_pc s u)}" "y_active s = int (card {u. dispatching (y_pc s u)})"
    using inv by (simp_all only: sync_inv_def)
  then have "{u. dispatching (y_pc s u)} = {}" using wait_over by simp
  then have "\<not> dispatching (y_pc s u)" for u by blast
  then have "due (y_pc s u) = {}" for u by (rule due_idle)
  moreover have "d \<notin> set (y_observers s) \<and> d < y_nextId s"
    using sync_inv_removing [OF inv, of t d] wait_over by (simp add: removing_def)
  ultimately show ?thesis using sync_inv_move [OF inv, of "Removed d" t] wait_over by (simp add: pc_simps)
next
  case (wait_sleep d)
  have "d \<notin> set (y_observers s) \<and> d < y_nextId s"
    using sync_inv_removing [OF inv, of t d] wait_sleep by (simp add: removing_def)
  then show ?thesis using sync_inv_move [OF inv, of "Sleeping d" t] wait_sleep by (simp add: pc_simps)
next
  case (spurious d)
  then show ?thesis
    using sync_inv_move [OF inv, of "Erased d" t] sync_inv_removing [OF inv, of t d] by (simp add: pc_simps)
next
  case (leave d)
  then show ?thesis using sync_inv_move [OF inv, of Outside t] by (simp add: pc_simps)
qed

lemma sync_reachable_inv: "sync_reachable s \<Longrightarrow> sync_inv s"
  by (induction rule: sync_reachable.induct) (auto intro: sync_inv_init sync_step_inv)

section \<open>Properties\<close>

text \<open>
  C9. The contract of \<open>RemoveObserver\<close> called outside a handler: when it has returned, no
  thread is inside the handler of the removed observer, none has it left in a snapshot,
  and it is not registered any more, whatever other threads dispatch, add or remove.
\<close>

theorem sync_removed_is_quiet:
  assumes "sync_reachable s" and "y_pc s t = Removed d"
  shows "d \<notin> due (y_pc s u) \<and> d \<notin> set (y_observers s)"
proof -
  have "removing (y_pc s t) = Some d" by (simp add: removing_def assms(2))
  then show ?thesis using sync_reachable_inv [OF assms(1)] assms(2) unfolding sync_inv_def by blast
qed

text \<open>
  C25. No wake-up is lost and nobody waits for nothing: while a thread sleeps in
  \<open>WaitForDispatchesToComplete\<close> some thread is in a dispatch and can go on, and when the last
  dispatch completes every sleeping thread is woken.
\<close>

theorem sync_no_lost_wakeup:
  assumes "sync_reachable s" and "y_pc s t = Sleeping d"
  shows "(\<exists>u s'. dispatching (y_pc s u) \<and> sync_step u s s') \<and>
    (\<forall>u s'. y_pc s u = Invoking [] \<and> y_active s = 1 \<and> sync_step u s s' \<longrightarrow> y_pc s' t = Erased d)"
proof
  have inv: "sync_inv s" by (rule sync_reachable_inv [OF assms(1)])
  then have "y_active s \<noteq> 0" "y_active s = int (card {u. dispatching (y_pc s u)})" using assms(2) unfolding sync_inv_def by blast+
  then have "{u. dispatching (y_pc s u)} \<noteq> {}" by (metis card.empty of_nat_0)
  then obtain u where u: "dispatching (y_pc s u)" by blast
  have "\<exists>s'. sync_step u s s'"
  proof (cases "y_pc s u")
    case (Invoking ds)
    then show ?thesis using sync_step.call [of s u] sync_step.complete [of s u] by (cases ds) blast+
  next
    case (Running e ds)
    then show ?thesis using sync_step.return [of s u] by blast
  qed (use u in \<open>simp_all add: dispatching_def\<close>)
  with u show "\<exists>u s'. dispatching (y_pc s u) \<and> sync_step u s s'" by blast
  show "\<forall>u s'. y_pc s u = Invoking [] \<and> y_active s = 1 \<and> sync_step u s s' \<longrightarrow> y_pc s' t = Erased d"
  proof (intro allI impI, elim conjE)
    fix u s'
    assume u: "y_pc s u = Invoking []" "y_active s = 1" and step: "sync_step u s s'"
    have "t \<noteq> u" using u assms(2) by auto
    with step u assms(2) show "y_pc s' t = Erased d" by (cases rule: sync_step.cases) (auto simp: wake_all_def)
  qed
qed

text \<open>A run of two threads: thread 0 dispatches observer 1 while thread 1 removes it.\<close>

definition run_sleep :: sync where
  "run_sleep = \<lparr>y_observers = [], y_nextId = 2, y_active = 1, y_pc = (\<lambda>_. Outside)(0 := Invoking [], 1 := Sleeping 1)\<rparr>"

lemma run_sleep_reachable: "sync_reachable run_sleep"
proof -
  let ?s1 = "sync_init\<lparr>y_observers := [1], y_nextId := 2\<rparr>"
  let ?s2 = "?s1\<lparr>y_active := 1, y_pc := (\<lambda>_. Outside)(0 := Invoking [1])\<rparr>"
  let ?s3 = "?s2\<lparr>y_pc := (\<lambda>_. Outside)(0 := Running 1 [])\<rparr>"
  let ?s4 = "?s3\<lparr>y_observers := [], y_pc := (\<lambda>_. Outside)(0 := Running 1 [], 1 := Erased 1)\<rparr>"
  let ?s5 = "?s4\<lparr>y_pc := (\<lambda>_. Outside)(0 := Running 1 [], 1 := Sleeping 1)\<rparr>"
  have "sync_step 0 sync_init ?s1" using sync_step.add [of sync_init 0] by (simp add: sync_init_def numeral_2_eq_2)
  moreover have "sync_step 0 ?s1 ?s2" using sync_step.snapshot [of ?s1 0] by (simp add: sync_init_def)
  moreover have "sync_step 0 ?s2 ?s3" using sync_step.call [of ?s2 0 1 "[]"] by (simp add: sync_init_def)
  moreover have "sync_step 1 ?s3 ?s4" using sync_step.erase [of ?s3 1 1] by (simp add: sync_init_def)
  moreover have "sync_step 1 ?s4 ?s5" using sync_step.wait_sleep [of ?s4 1 1] by (simp add: sync_init_def fun_upd_twist)
  moreover have "sync_step 0 ?s5 run_sleep"
    using sync_step.return [of ?s5 0 1 "[]"] by (simp add: sync_init_def run_sleep_def fun_upd_twist)
  ultimately show ?thesis by (meson sync_reachable.intros)
qed

lemma run_removed_reachable:
  "sync_reachable (run_sleep\<lparr>y_active := 0, y_pc := (\<lambda>_. Outside)(1 := Removed 1)\<rparr>)"
proof -
  let ?s1 = "run_sleep\<lparr>y_active := 0, y_pc := (\<lambda>_. Outside)(1 := Erased 1)\<rparr>"
  have "wake_all ((y_pc run_sleep)(0 := Outside)) = (\<lambda>_. Outside)(1 := Erased 1)"
    by (auto simp: run_sleep_def wake_all_def)
  then have "sync_step 0 run_sleep ?s1" using sync_step.complete [of run_sleep 0] by (simp add: run_sleep_def)
  moreover have "sync_step 1 ?s1 (?s1\<lparr>y_pc := (\<lambda>_. Outside)(1 := Removed 1)\<rparr>)"
    using sync_step.wait_over [of ?s1 1 1] by simp
  ultimately have "sync_reachable (?s1\<lparr>y_pc := (\<lambda>_. Outside)(1 := Removed 1)\<rparr>)"
    using run_sleep_reachable by (meson sync_reachable.step)
  then show ?thesis by simp
qed

theorem sync_removed_is_quiet_witness:
  "1 \<notin> due (y_pc (run_sleep\<lparr>y_active := 0, y_pc := (\<lambda>_. Outside)(1 := Removed 1)\<rparr>) 0)"
  using sync_removed_is_quiet [OF run_removed_reachable, of 1 1 0] by simp

theorem sync_no_lost_wakeup_witness:
  "\<exists>u s'. dispatching (y_pc run_sleep u) \<and> sync_step u run_sleep s'"
  using sync_no_lost_wakeup [OF run_sleep_reachable, of 1 1] by (auto simp: run_sleep_def)

end
