(* ===== verification/Event_Queue_Dump.thy ===== *)
theory Event_Queue_Dump
  imports Event_Queue "HOL-Library.List_Lexorder" "HOL-Library.Char_ord"
begin

text \<open>
  The debug dumps of \<open>src/eventqueue.cpp\<close>: the topics, the observers and the queued messages as
  text. How the stream prints the address of a function, a lambda, a method or an object
  (\<open>src/include/streamhelper.h\<close>) depends on the machine and is a parameter. A \<open>std::map\<close> is walked in
  the order of its keys; strings are ordered byte by byte.
\<close>

section \<open>Text\<close>

definition newline :: string where "newline = [CHR 0x0A]"

definition digit :: "nat \<Rightarrow> char" where "digit d = char_of (48 + d)"

fun show_nat :: "nat \<Rightarrow> string" where
  "show_nat n = (if n < 10 then [digit n] else show_nat (n div 10) @ [digit (n mod 10)])"

declare show_nat.simps [simp del]

definition show_int :: "int \<Rightarrow> string" where
  "show_int i = (if i < 0 then ''-'' @ show_nat (nat (- i)) else show_nat (nat i))"

definition line_if :: "nat \<Rightarrow> string" where
  "line_if n = (if 0 < n then newline else [])"

section \<open>The dumps\<close>

definition ev_DumpTopics :: "evq \<Rightarrow> string" where
  "ev_DumpTopics s =
     (let n = card (dom (v_resolveMap s)) in
      ''Topics map contains: '' @ show_nat n @ line_if n @
      concat (map (\<lambda>topic. ''  tid: '' @ show_int (the (v_resolveMap s topic)) @ ''; topic:'' @ [CHR 0x27] @ topic @ [CHR 0x27] @ newline)
        (sorted_list_of_set (dom (v_resolveMap s)))) @
      line_if n)"

text \<open>The printing of a function pointer, a function object, a method pointer and an object address.\<close>

record printers =
  p_function :: "nat \<Rightarrow> string"
  p_lambda :: "nat \<Rightarrow> string"
  p_method :: "nat \<Rightarrow> string"
  p_object :: "nat option \<Rightarrow> string"

definition dump_callback :: "printers \<Rightarrow> descriptor \<Rightarrow> string" where
  "dump_callback P d =
     (case d_callback d of
        Some f \<Rightarrow> ''callback: '' @ p_function P f @ newline
      | None \<Rightarrow>
          (case d_callbackFunc d of
             Some f \<Rightarrow> ''callbackFunc: '' @ p_lambda P f @ newline
           | None \<Rightarrow>
               (case d_callbackMethod d of
                  Some f \<Rightarrow> ''callbackMethod: '' @ p_method P f @ newline
                | None \<Rightarrow> ''No callbacks registered'' @ newline)))"

fun dump_callbacks :: "printers \<Rightarrow> nat \<Rightarrow> descriptor list \<Rightarrow> string" where
  "dump_callbacks P callbackCounter [] = []"
| "dump_callbacks P callbackCounter (d # ds) =
     ''  ['' @ show_nat callbackCounter @ ''] '' @ dump_callback P d @ dump_callbacks P (callbackCounter + 1) ds"

text \<open>A vector in the map is never null: the branch for one that is null has no counterpart.\<close>

fun dump_vectors :: "printers \<Rightarrow> evq \<Rightarrow> int list \<Rightarrow> string outcome" where
  "dump_vectors P s [] = Inr []"
| "dump_vectors P s (t # ts) =
     obind (heap_read (v_vectors s) (the (v_observers s t))) (\<lambda>ds.
       obind (read_all (v_descs s) ds) (\<lambda>descs.
         obind (dump_vectors P s ts) (\<lambda>rest.
           Inr (''tid:'' @ show_int t @ '' has '' @ show_nat (length ds) @ '' observers'' @ newline @
             dump_callbacks P 0 descs @ rest))))"

definition ev_DumpObservers :: "printers \<Rightarrow> evq \<Rightarrow> string outcome" where
  "ev_DumpObservers P s =
     obind (dump_vectors P s (sorted_list_of_set (dom (v_observers s)))) (\<lambda>body.
       let topics = card (dom (v_resolveMap s)) in
       Inr (''Observers registered for: '' @ show_nat (card (dom (v_observers s))) @ '' topics'' @ line_if topics @
         body @ line_if topics))"

definition dump_message :: "printers \<Rightarrow> ev_message \<Rightarrow> string" where
  "dump_message P msg = ''  tid: '' @ show_nat (unat (e_tid msg)) @ ''; obj*: '' @ p_object P (e_obj msg) @ newline"

definition ev_DumpMessageQueueNoLock :: "printers \<Rightarrow> evq \<Rightarrow> string outcome" where
  "ev_DumpMessageQueueNoLock P s =
     obind (read_all (v_messages s) (v_queue s)) (\<lambda>msgs.
       let n = length (v_queue s) in
       Inr (''Message queue contains: '' @ show_nat n @ '' messages'' @ line_if n @ concat (map (dump_message P) msgs) @ line_if n))"

definition ev_DumpMessageQueue :: "printers \<Rightarrow> evq \<Rightarrow> string outcome" where
  "ev_DumpMessageQueue P s = ev_DumpMessageQueueNoLock P s"

section \<open>Reading a dump back\<close>

fun lines :: "string \<Rightarrow> string list" where
  "lines [] = [[]]"
| "lines (c # cs) = (if [c] = newline then [] # lines cs else (c # hd (lines cs)) # tl (lines cs))"

definition is_digit :: "char \<Rightarrow> bool" where
  "is_digit c \<longleftrightarrow> 48 \<le> (of_char c :: nat) \<and> (of_char c :: nat) < 58"

definition read_nat :: "string \<Rightarrow> nat" where
  "read_nat ds = foldl (\<lambda>n c. 10 * n + (of_char c - 48)) 0 ds"

definition read_tid :: "string \<Rightarrow> nat" where
  "read_tid l = read_nat (takeWhile is_digit (drop 7 l))"

definition tids_of_dump :: "string \<Rightarrow> nat list" where
  "tids_of_dump txt = map read_tid (filter (\<lambda>l. l \<noteq> []) (tl (lines txt)))"

lemma of_char_digit: "d < 10 \<Longrightarrow> (of_char (digit d) :: nat) = 48 + d"
  by (simp add: digit_def)

lemma show_nat_digits: "c \<in> set (show_nat n) \<Longrightarrow> is_digit c"
proof (induction n rule: show_nat.induct)
  case (1 n)
  then show ?case by (cases "n < 10") (auto simp: show_nat.simps [of n] is_digit_def of_char_digit)
qed

lemma read_show_nat: "read_nat (show_nat n) = n"
proof (induction n rule: show_nat.induct)
  case (1 n)
  then show ?case by (cases "n < 10") (auto simp: show_nat.simps [of n] read_nat_def of_char_digit)
qed

lemma lines_ne [simp]: "lines cs \<noteq> []"
  by (cases cs) simp_all

lemma lines_append: "CHR 0x0A \<notin> set l \<Longrightarrow> lines (l @ newline @ cs) = l # lines cs"
  by (induction l) (auto simp: newline_def)

lemma lines_last: "CHR 0x0A \<notin> set l \<Longrightarrow> lines l = [l]"
  by (induction l) (auto simp: newline_def)

lemma show_nat_no_newline: "CHR 0x0A \<notin> set (show_nat n)"
  using show_nat_digits [of "CHR 0x0A" n] by (auto simp: is_digit_def)

lemma read_tid_line: "read_tid (''  tid: '' @ show_nat n @ '';'' @ rest) = n"
proof -
  have "takeWhile is_digit (show_nat n @ '';'' @ rest) = show_nat n"
    using show_nat_digits by (subst takeWhile_append2) (auto simp: is_digit_def)
  then show ?thesis by (simp add: read_tid_def read_show_nat)
qed

lemma lines_messages:
  assumes "\<And>x. CHR 0x0A \<notin> set (p_object P x)"
  shows "lines (concat (map (dump_message P) msgs) @ cs) =
    map (\<lambda>msg. ''  tid: '' @ show_nat (unat (e_tid msg)) @ ''; obj*: '' @ p_object P (e_obj msg)) msgs @ lines cs"
proof (induction msgs)
  case Nil
  then show ?case by simp
next
  case (Cons msg msgs)
  let ?l = "''  tid: '' @ show_nat (unat (e_tid msg)) @ ''; obj*: '' @ p_object P (e_obj msg)"
  have "CHR 0x0A \<notin> set ?l" using assms show_nat_no_newline by simp
  from lines_append [OF this] Cons show ?case by (simp add: dump_message_def)
qed

text \<open>
  The dump of the message queue is safe, and the topic ids read back from its lines are those
  of the queued messages, in the order of the queue, provided that the printing of an address
  holds no line break.
\<close>

lemma ev_dump_messages_roundtrip:
  assumes inv: "ev_inv B s" and P: "\<And>x. CHR 0x0A \<notin> set (p_object P x)"
  shows "\<exists>txt. ev_DumpMessageQueue P s = Inr txt \<and> tids_of_dump txt = map (\<lambda>msg. unat (e_tid msg)) (ev_pending s)"
proof -
  let ?n = "length (v_queue s)"
  let ?head = "''Message queue contains: '' @ show_nat ?n @ '' messages''"
  have "set (v_queue s) \<subseteq> live (v_messages s)" using inv by (auto simp: ev_inv_def messages_inv_def)
  from read_all_live [OF this] have r: "read_all (v_messages s) (v_queue s) = Inr (ev_pending s)" by (simp add: ev_pending_def)
  let ?txt = "?head @ line_if ?n @ concat (map (dump_message P) (ev_pending s)) @ line_if ?n"
  have out: "ev_DumpMessageQueue P s = Inr ?txt" by (simp add: ev_DumpMessageQueue_def ev_DumpMessageQueueNoLock_def r Let_def)
  have head: "CHR 0x0A \<notin> set ?head" using show_nat_no_newline by simp
  have tid: "read_tid (''  tid: '' @ show_nat n @ ''; obj*: '' @ x) = n" for n x
    using read_tid_line [of n "'' obj*: '' @ x"] by simp
  have "tids_of_dump ?txt = map (\<lambda>msg. unat (e_tid msg)) (ev_pending s)"
  proof (cases "v_queue s = []")
    case True
    then have "ev_pending s = []" "?txt = ?head" by (simp_all add: ev_pending_def line_if_def)
    then show ?thesis using lines_last [OF head] by (simp only: tids_of_dump_def) simp
  next
    case False
    then have "?txt = ?head @ newline @ concat (map (dump_message P) (ev_pending s)) @ newline" by (simp add: line_if_def)
    then have "lines ?txt = ?head # lines (concat (map (dump_message P) (ev_pending s)) @ newline)"
      using lines_append [OF head] by (simp only:)
    moreover have "lines newline = [[], []]" by (simp add: newline_def)
    ultimately have "tl (lines ?txt) = map (\<lambda>msg. ''  tid: '' @ show_nat (unat (e_tid msg)) @ ''; obj*: '' @ p_object P (e_obj msg))
        (ev_pending s) @ [[], []]" using lines_messages [OF P] by simp
    then show ?thesis by (simp only: tids_of_dump_def) (simp add: filter_map comp_def tid [simplified])
  qed
  with out show ?thesis by blast
qed

text \<open>The dump of the observers is safe, and lists for each topic, in the order of the ids, its observers.\<close>

definition topic_dump :: "printers \<Rightarrow> evq \<Rightarrow> int \<Rightarrow> string" where
  "topic_dump P s t = ''tid:'' @ show_int t @ '' has '' @ show_nat (length (ev_observers s t)) @ '' observers'' @ newline @
     dump_callbacks P 0 (ev_observers s t)"

lemma dump_vectors_ok:
  assumes inv: "observers_inv s" and "set ts \<subseteq> dom (v_observers s)"
  shows "dump_vectors P s ts = Inr (concat (map (topic_dump P s) ts))"
  using assms(2)
proof (induction ts)
  case Nil
  then show ?case by simp
next
  case (Cons t ts)
  then obtain v where v: "v_observers s t = Some v" by auto
  then have "v \<in> live (v_vectors s)" using inv by (auto simp: observers_inv_def intro: ranI)
  then obtain ds where ds: "cells (v_vectors s) v = Some ds" by auto
  then have p: "desc_ptrs s t = ds" using v by (simp add: desc_ptrs_def)
  then have "set ds \<subseteq> live (v_descs s)" using inv by (auto simp: observers_inv_def)
  from read_all_live [OF this] have "read_all (v_descs s) ds = Inr (ev_observers s t)" by (simp add: ev_observers_def p)
  moreover have "length ds = length (ev_observers s t)" by (simp add: ev_observers_def p)
  ultimately show ?case using Cons v ds by (simp add: topic_dump_def)
qed

lemma ev_DumpObservers_ok:
  assumes "ev_inv B s"
  shows "ev_DumpObservers P s = Inr (''Observers registered for: '' @ show_nat (card (dom (v_observers s))) @ '' topics'' @
    line_if (card (dom (v_resolveMap s))) @ concat (map (topic_dump P s) (sorted_list_of_set (dom (v_observers s)))) @
    line_if (card (dom (v_resolveMap s))))"
proof -
  have inv: "observers_inv s" using assms by (simp add: ev_inv_def)
  then have "set (sorted_list_of_set (dom (v_observers s))) \<subseteq> dom (v_observers s)" by (auto simp: observers_inv_def)
  from dump_vectors_ok [OF inv this] show ?thesis by (simp add: ev_DumpObservers_def Let_def)
qed

text \<open>With observers but no names, as after \<open>ClearTopics\<close>, the head line of the dump runs into the first topic.\<close>

lemma ev_DumpObservers_cleared:
  assumes "ev_inv B s"
  shows "ev_DumpObservers P (ev_ClearTopics s) = Inr (''Observers registered for: '' @ show_nat (card (dom (v_observers s))) @
    '' topics'' @ concat (map (topic_dump P s) (sorted_list_of_set (dom (v_observers s)))))"
proof -
  have same: "v_observers (ev_ClearTopics s) = v_observers s" "v_vectors (ev_ClearTopics s) = v_vectors s"
    "v_descs (ev_ClearTopics s) = v_descs s" "v_resolveMap (ev_ClearTopics s) = (\<lambda>_. None)" by (simp_all add: ev_ClearTopics_def)
  then have "observers_inv (ev_ClearTopics s)" using assms ev_observers_frame [OF same(1,2)]
    by (simp add: ev_inv_def observers_inv_def)
  moreover have "set (sorted_list_of_set (dom (v_observers s))) \<subseteq> dom (v_observers (ev_ClearTopics s))"
    using assms by (auto simp: ev_inv_def observers_inv_def same)
  moreover have "topic_dump P (ev_ClearTopics s) = topic_dump P s"
    using ev_observers_eq [OF same(1-3)] by (simp add: fun_eq_iff topic_dump_def)
  ultimately show ?thesis
    using dump_vectors_ok [of "ev_ClearTopics s"] by (simp add: ev_DumpObservers_def Let_def line_if_def same)
qed

section \<open>The stream helpers\<close>

text \<open>
  The operators of \<open>src/include/streamhelper.h\<close> that the dumps print with. How the stream prints a
  \<open>void*\<close>, where functions and objects are, what the first word of a function object is and
  where the operator's copy of a method pointer lies are up to the machine.
\<close>

record machine =
  print_pointer :: "u64 \<Rightarrow> string"
  function_at :: "nat \<Rightarrow> u64"
  object_at :: "nat \<Rightarrow> u64"
  function_object :: "nat \<Rightarrow> u64 list"
  method_copy_at :: u64

definition print_funptr :: "machine \<Rightarrow> nat \<Rightarrow> string" where
  "print_funptr M p = ''funptr '' @ print_pointer M (function_at M p)"

definition getTargetAddress :: "machine \<Rightarrow> nat \<Rightarrow> u64" where
  "getTargetAddress M func = hd (function_object M func)"

definition print_lambdaptr :: "machine \<Rightarrow> nat \<Rightarrow> string" where
  "print_lambdaptr M p = ''lambdaptr '' @ show_nat (unat (getTargetAddress M p))"

definition print_clsmtdptr :: "machine \<Rightarrow> nat \<Rightarrow> string" where
  "print_clsmtdptr M p = ''clsmtdptr '' @ print_pointer M (method_copy_at M)"

definition stream_printers :: "machine \<Rightarrow> printers" where
  "stream_printers M = \<lparr>p_function = print_funptr M, p_lambda = print_lambdaptr M, p_method = print_clsmtdptr M,
     p_object = (\<lambda>obj. print_pointer M (case obj of None \<Rightarrow> 0 | Some p \<Rightarrow> object_at M p))\<rparr>"

text \<open>
  The line of an observer tells which kind of handler it has and, for functions printed at different
  addresses, which; but never which method: observers with different methods have the same line.
\<close>

lemma dump_lines_of_machine:
  assumes "d_callback d = None" and "d_callbackFunc d = None" and "d_callbackMethod d = Some f"
  shows "dump_callback (stream_printers M) (d\<lparr>d_callbackMethod := Some g\<rparr>) = dump_callback (stream_printers M) d"
    and "print_pointer M (function_at M a) \<noteq> print_pointer M (function_at M b) \<Longrightarrow>
      dump_callback (stream_printers M) (d\<lparr>d_callback := Some a\<rparr>) \<noteq> dump_callback (stream_printers M) (d\<lparr>d_callback := Some b\<rparr>)"
  using assms by (simp_all add: dump_callback_def stream_printers_def print_clsmtdptr_def print_funptr_def)

end
