(* ===== verification/Message_Center.thy ===== *)
theory Message_Center
  imports Event_Queue
begin

text \<open>
  \<open>src/messagecenter.h\<close> and \<open>src/messagecenter.cpp\<close>, class \<open>MessageCenter\<close>: an \<open>EventQueue\<close> with a
  worker thread that takes messages and dispatches them until it is asked to stop. One step of
  the worker is one round of its loop; between its steps other threads post. \<open>join\<close> lets the
  worker run until it has finished, which may be never.
\<close>

section \<open>The center\<close>

datatype worker = WorkerRunning | WorkerFinished

record center =
  mc_events :: evq
  mc_thread :: "worker option"
  mc_started :: bool
  mc_requestStop :: bool
  mc_stopped :: bool

definition mc_new :: center where
  "mc_new = \<lparr>mc_events = ev_new, mc_thread = None, mc_started = False, mc_requestStop = False, mc_stopped = True\<rparr>"

definition mc_Start :: "center \<Rightarrow> center" where
  "mc_Start c =
     (if mc_started c then c
      else c\<lparr>mc_requestStop := False, mc_stopped := False, mc_thread := Some WorkerRunning, mc_started := True\<rparr>)"

text \<open>One round of \<open>ThreadWorker\<close>; on an empty queue it waits and comes round again.\<close>

definition mc_worker_round :: "handlers \<Rightarrow> center \<Rightarrow> center run" where
  "mc_worker_round H c =
     (if mc_requestStop c then ret (c\<lparr>mc_stopped := True, mc_thread := Some WorkerFinished\<rparr>)
      else
        case ev_GetQueueMessage (mc_events c) of
          (s, None) \<Rightarrow> ret (c\<lparr>mc_events := s\<rparr>)
        | (s, Some m) \<Rightarrow>
            rbind (Some (heap_read (v_messages s) m)) (\<lambda>msg.
              rbind (ev_Dispatch H (sint (e_tid msg)) (Some m) s) (\<lambda>s1. ret (c\<lparr>mc_events := s1\<rparr>))))"

partial_function (option) mc_join :: "handlers \<Rightarrow> center \<Rightarrow> center run" where
  "mc_join H c =
     (if mc_thread c = Some WorkerRunning then rbind (mc_worker_round H c) (\<lambda>c1. mc_join H c1) else ret c)"

definition mc_Stop :: "handlers \<Rightarrow> center \<Rightarrow> center run" where
  "mc_Stop H c =
     (if mc_stopped c then ret c
      else
        let c1 = c\<lparr>mc_requestStop := True\<rparr> in
        rbind (if mc_thread c1 \<noteq> None
               then rbind (mc_join H c1) (\<lambda>c2. ret (c2\<lparr>mc_thread := None\<rparr>))
               else ret c1)
          (\<lambda>c3. ret (c3\<lparr>mc_started := False\<rparr>)))"

text \<open>The destructor joins a thread that is still there, and the queue is disposed of.\<close>

definition mc_destroy :: "handlers \<Rightarrow> center \<Rightarrow> evq run" where
  "mc_destroy H c =
     rbind (if mc_thread c \<noteq> None then mc_join H c else ret c) (\<lambda>c1. Some (ev_dispose (mc_events c1)))"

text \<open>The singleton: \<open>None\<close> while \<open>m_instance\<close> is null.\<close>

definition mc_Default :: "center option \<Rightarrow> bool \<Rightarrow> center option" where
  "mc_Default inst autostart =
     (case inst of
        Some c \<Rightarrow> Some c
      | None \<Rightarrow> Some (if autostart then mc_Start mc_new else mc_new))"

definition mc_DisposeDefault :: "handlers \<Rightarrow> center option \<Rightarrow> center option run" where
  "mc_DisposeDefault H inst =
     (case inst of
        None \<Rightarrow> ret None
      | Some c \<Rightarrow> rbind (mc_Stop H c) (\<lambda>c1. rbind (mc_destroy H c1) (\<lambda>s. ret None)))"

text \<open>A schedule: posts of other threads and rounds of the worker.\<close>

datatype mc_action = Posting int "string option" bool | Round

fun mc_action_step :: "handlers \<Rightarrow> center \<Rightarrow> mc_action \<Rightarrow> center run" where
  "mc_action_step H c (Posting tid body cleanup) =
     (let (s, obj) = make_payload (mc_events c) body in ret (c\<lparr>mc_events := ev_Post s tid obj cleanup\<rparr>))"
| "mc_action_step H c Round = (if mc_thread c = Some WorkerRunning then mc_worker_round H c else ret c)"

fun mc_schedule :: "handlers \<Rightarrow> center \<Rightarrow> mc_action list \<Rightarrow> center run" where
  "mc_schedule H c [] = ret c"
| "mc_schedule H c (a # as) = rbind (mc_action_step H c a) (\<lambda>c1. mc_schedule H c1 as)"

section \<open>Delivery\<close>

text \<open>
  Handlers that only look at their messages. The calls that the queued messages will lead to,
  and those that a post leads to.
\<close>

definition quiet :: handlers where
  "quiet = (\<lambda>t tid body. [])"

definition ev_calls :: "evq \<Rightarrow> int \<Rightarrow> string option \<Rightarrow> ev_call list" where
  "ev_calls s tid body = map (\<lambda>t. ECall t tid body) (targets (ev_observers s tid))"

definition ev_due :: "evq \<Rightarrow> ev_call list list" where
  "ev_due s = map (\<lambda>m. ev_calls s (sint (e_tid (the (cells (v_messages s) m)))) (msg_text s m)) (v_queue s)"

fun posted_calls :: "evq \<Rightarrow> mc_action list \<Rightarrow> ev_call list list" where
  "posted_calls s [] = []"
| "posted_calls s (Posting tid body cleanup # as) = (if 0 \<le> tid then [ev_calls s tid body] else []) @ posted_calls s as"
| "posted_calls s (Round # as) = posted_calls s as"

text \<open>Topic ids are values of a C \<open>int\<close>.\<close>

definition valid_action :: "mc_action \<Rightarrow> bool" where
  "valid_action a = (case a of Posting tid body cleanup \<Rightarrow> tid < 2 ^ 31 | Round \<Rightarrow> True)"

definition mc_ok :: "center \<Rightarrow> bool" where
  "mc_ok c \<longleftrightarrow> ev_inv [] (mc_events c) \<and> mc_thread c = Some WorkerRunning \<and> \<not> mc_requestStop c \<and> \<not> mc_stopped c \<and> mc_started c"

lemma ev_invoke_all_quiet:
  assumes "messages_inv B s" and "cells (v_messages s) m = Some msg"
  shows "ev_invoke_all quiet tid m ds s = ret (s\<lparr>v_log := v_log s @ map (\<lambda>t. ECall t tid (msg_text s m)) (targets ds)\<rparr>)"
  using assms
proof (induction ds arbitrary: s)
  case Nil
  then show ?case by simp
next
  case (Cons d ds)
  show ?case
  proof (cases "descriptor_target d")
    case None
    then show ?thesis using Cons by simp
  next
    case (Some t)
    let ?s = "s\<lparr>v_log := v_log s @ [ECall t tid (msg_text s m)]\<rparr>"
    have "messages_inv B ?s" "cells (v_messages ?s) m = Some msg" using Cons.prems by simp_all
    from Cons.IH [OF this] show ?thesis using Some ev_view_ok [OF Cons.prems] by (simp add: quiet_def)
  qed
qed

text \<open>The other messages and their texts are as they were.\<close>

definition same_pending :: "evq \<Rightarrow> evq \<Rightarrow> bool" where
  "same_pending s s' \<longleftrightarrow> v_queue s' = v_queue s \<and> ev_observers s' = ev_observers s \<and>
     (\<forall>m \<in> set (v_queue s). cells (v_messages s') m = cells (v_messages s) m \<and> msg_text s' m = msg_text s m)"

lemma same_pending_due: "same_pending s s' \<Longrightarrow> ev_due s' = ev_due s"
  by (simp add: same_pending_def ev_due_def ev_calls_def)

lemma ev_Dispatch_quiet:
  assumes inv: "ev_inv (m # B) s" and msg: "cells (v_messages s) m = Some msg"
  shows "\<exists>s'. ev_Dispatch quiet tid (Some m) s = ret s' \<and> ev_inv B s' \<and> v_log s' = v_log s @ ev_calls s tid (msg_text s m) \<and>
    same_pending s s'"
proof -
  have obs: "observers_inv s" and msgs: "messages_inv (m # B) s" using inv by (simp_all add: ev_inv_def)
  let ?s1 = "ev_MarkDispatchActive s"
  have "messages_inv (m # B) ?s1" "cells (v_messages ?s1) m = Some msg" "msg_text ?s1 m = msg_text s m"
    using msgs msg by simp_all (simp_all add: ev_MarkDispatchActive_def msg_text_def)
  from ev_invoke_all_quiet [OF this(1,2), of tid "ev_observers s tid", unfolded this(3)]
  have inv_all: "ev_invoke_all quiet tid m (ev_observers s tid) ?s1 =
      ret (?s1\<lparr>v_log := v_log s @ ev_calls s tid (msg_text s m)\<rparr>)" by (simp add: ev_calls_def ev_MarkDispatchActive_def)
  let ?s2 = "ev_MarkDispatchComplete (?s1\<lparr>v_log := v_log s @ ev_calls s tid (msg_text s m)\<rparr>)"
  have s2: "v_log ?s2 = v_log s @ ev_calls s tid (msg_text s m)" "v_queue ?s2 = v_queue s" "v_messages ?s2 = v_messages s"
    "v_payloads ?s2 = v_payloads s" "ev_observers ?s2 = ev_observers s"
    by (simp_all add: ev_MarkDispatchActive_def ev_MarkDispatchComplete_def) (rule ev_observers_eq; simp)
  have "ev_inv (m # B) ?s2" "cells (v_messages ?s2) m = Some msg" using inv msg s2(3) by simp_all
  from ev_delete_message_ok [OF this] obtain s' where
    s': "ev_delete_message ?s2 m = Inr s'" "ev_inv B s'" "v_log s' = v_log ?s2" "v_queue s' = v_queue s"
      "ev_observers s' = ev_observers s" "cells (v_messages s') = (cells (v_messages s))(m := None)"
      "\<forall>p \<in> live (v_payloads s'). cells (v_payloads s') p = cells (v_payloads s) p" by (auto simp: s2)
  have "same_pending s s'"
    unfolding same_pending_def
  proof (intro conjI ballI)
    fix m'
    assume m': "m' \<in> set (v_queue s)"
    then have "m' \<noteq> m" "m' \<in> live (v_messages s)" using msgs by (auto simp: messages_inv_def)
    then show cells: "cells (v_messages s') m' = cells (v_messages s) m'" by (simp add: s'(6))
    obtain msg' where msg': "cells (v_messages s') m' = Some msg'" using cells \<open>m' \<in> live (v_messages s)\<close> by auto
    have "messages_inv B s'" using s'(2) by (simp add: ev_inv_def)
    note live = messages_inv_obj [OF this msg']
    have "cells (v_messages s) m' = Some msg'" using cells msg' by simp
    then show "msg_text s' m' = msg_text s m'"
      using s'(7) live msg' by (cases "e_obj msg'") (simp_all add: msg_text_def)
  qed (simp_all add: s')
  moreover have "ev_Dispatch quiet tid (Some m) s = ret s'"
    using inv_all s'(1) by (simp add: ev_Dispatch_def ev_snapshot_ok [OF obs])
  ultimately show ?thesis using s'(2,3) s2(1) by auto
qed

lemma mc_round_ok:
  assumes ok: "mc_ok c"
  shows "\<exists>c'. mc_worker_round quiet c = ret c' \<and> mc_ok c' \<and> ev_due (mc_events c') = tl (ev_due (mc_events c)) \<and>
    ev_observers (mc_events c') = ev_observers (mc_events c) \<and>
    v_log (mc_events c') = v_log (mc_events c) @ concat (take 1 (ev_due (mc_events c)))"
proof (cases "v_queue (mc_events c)")
  case Nil
  then have "mc_worker_round quiet c = ret c" using ok by (simp add: mc_worker_round_def mc_ok_def ev_GetQueueMessage_def)
  then show ?thesis using ok Nil by (simp add: ev_due_def)
next
  case (Cons m ms)
  let ?s = "mc_events c"
  let ?s1 = "?s\<lparr>v_queue := ms\<rparr>"
  have inv: "ev_inv [] ?s" using ok by (simp add: mc_ok_def)
  note get = ev_GetQueueMessage_ok [OF inv Cons]
  obtain msg where msg: "cells (v_messages ?s) m = Some msg" using get(3) by blast
  have obs: "ev_observers ?s1 = ev_observers ?s" by (rule ev_observers_eq) simp_all
  obtain s2 where s2: "ev_Dispatch quiet (sint (e_tid msg)) (Some m) ?s1 = ret s2" "ev_inv [] s2"
    "v_log s2 = v_log ?s @ ev_calls ?s1 (sint (e_tid msg)) (msg_text ?s1 m)" "same_pending ?s1 s2"
    using ev_Dispatch_quiet [OF get(2), of msg "sint (e_tid msg)"] msg by auto
  have due: "ev_due ?s = ev_calls ?s (sint (e_tid msg)) (msg_text ?s m) # ev_due ?s1"
    using Cons msg by (simp add: ev_due_def ev_calls_def obs msg_text_def)
  have "mc_worker_round quiet c = ret (c\<lparr>mc_events := s2\<rparr>)"
    using ok get(1) msg s2(1) by (simp add: mc_worker_round_def mc_ok_def)
  moreover have "mc_ok (c\<lparr>mc_events := s2\<rparr>)" using ok s2(2) by (simp add: mc_ok_def)
  moreover have "ev_calls ?s1 (sint (e_tid msg)) (msg_text ?s1 m) = ev_calls ?s (sint (e_tid msg)) (msg_text ?s m)"
    by (simp add: ev_calls_def obs msg_text_def)
  ultimately show ?thesis
    using s2(3) same_pending_due [OF s2(4)] s2(4) obs due by (simp add: same_pending_def)
qed

lemma ev_due_extends:
  assumes inv: "ev_inv [] s" and ext: "extends s s'" and obs: "ev_observers s' = ev_observers s"
    and q: "v_queue s' = v_queue s @ ms"
  shows "ev_due s' = ev_due s @ map (\<lambda>m. ev_calls s (sint (e_tid (the (cells (v_messages s') m)))) (msg_text s' m)) ms"
proof -
  have msgs: "messages_inv [] s" using inv by (simp add: ev_inv_def)
  have "cells (v_messages s') m = cells (v_messages s) m \<and> msg_text s' m = msg_text s m" if m: "m \<in> set (v_queue s)" for m
  proof -
    have "m \<in> live (v_messages s)" using m msgs by (simp add: messages_inv_def)
    then obtain msg where "cells (v_messages s) m = Some msg" by blast
    then show ?thesis using msg_text_extends [OF msgs _ ext, of m msg] by simp
  qed
  then show ?thesis by (simp add: ev_due_def ev_calls_def obs q)
qed

lemma sint_int: "0 \<le> i \<Longrightarrow> i < 2 ^ 31 \<Longrightarrow> sint (word_of_int i :: u32) = i"
  by (simp add: signed_of_int signed_take_bit_int_eq_self_iff)

lemma mc_post_ok:
  assumes ok: "mc_ok c" and valid: "valid_action (Posting tid body cleanup)"
  shows "\<exists>c'. mc_action_step H c (Posting tid body cleanup) = ret c' \<and> mc_ok c' \<and>
    ev_due (mc_events c') = ev_due (mc_events c) @ (if 0 \<le> tid then [ev_calls (mc_events c) tid body] else []) \<and>
    ev_observers (mc_events c') = ev_observers (mc_events c) \<and> v_log (mc_events c') = v_log (mc_events c)"
proof -
  let ?s = "mc_events c"
  have inv: "ev_inv [] ?s" using ok by (simp add: mc_ok_def)
  obtain s1 obj where mk: "make_payload ?s body = (s1, obj)" by fastforce
  note s1 = make_payload_ok [OF inv mk]
  let ?s2 = "ev_Post s1 tid obj cleanup"
  note s2 = ev_Post_ok [OF s1(1,3), of tid cleanup]
  have ext: "extends ?s ?s2" by (rule extends_trans [OF s1(2) s2(2)])
  have obs: "ev_observers ?s2 = ev_observers ?s" using s2(3) s1(4) by simp
  have due: "ev_due ?s2 = ev_due ?s @ (if 0 \<le> tid then [ev_calls ?s tid body] else [])"
  proof (cases "0 \<le> tid")
    case False
    then have "v_queue ?s2 = v_queue ?s @ []" by (simp add: ev_Post_def s1(7))
    from ev_due_extends [OF inv ext obs this] False show ?thesis by simp
  next
    case True
    let ?m = "next_addr (v_messages s1)"
    have q: "v_queue ?s2 = v_queue ?s @ [?m]" and m: "cells (v_messages ?s2) ?m = Some \<lparr>e_tid = word_of_int tid, e_obj = obj, e_cleanup = cleanup\<rparr>"
      and p: "v_payloads ?s2 = v_payloads s1"
      using True by (simp_all add: ev_Post_def heap_new_def s1(7))
    have "msg_text ?s2 ?m = map_option (\<lambda>p. the (cells (v_payloads s1) p)) obj" by (simp add: msg_text_def m p)
    then have "msg_text ?s2 ?m = body" using s1(8,9) by (cases obj) auto
    moreover have "sint (word_of_int tid :: u32) = tid" using True valid by (intro sint_int) (simp_all add: valid_action_def)
    ultimately show ?thesis using ev_due_extends [OF inv ext obs q] True by (simp add: m)
  qed
  show ?thesis
    using ok s2(1) mk due obs ext by (simp add: mc_ok_def extends_def)
qed

lemma posted_calls_cong:
  assumes "ev_observers s' = ev_observers s"
  shows "posted_calls s' as = posted_calls s as"
proof (induction as)
  case (Cons a as)
  then show ?case by (cases a) (simp_all add: ev_calls_def assms)
qed simp

lemma mc_schedule_ok:
  assumes "mc_ok c" and "\<forall>a \<in> set as. valid_action a"
  shows "\<exists>c'. mc_schedule quiet c as = ret c' \<and> mc_ok c' \<and> ev_observers (mc_events c') = ev_observers (mc_events c) \<and>
    length (ev_due (mc_events c')) \<le> length (ev_due (mc_events c)) + length as \<and>
    v_log (mc_events c') @ concat (ev_due (mc_events c')) =
      v_log (mc_events c) @ concat (ev_due (mc_events c)) @ concat (posted_calls (mc_events c) as)"
  using assms
proof (induction as arbitrary: c)
  case Nil
  then show ?case by simp
next
  case (Cons a as)
  let ?s = "mc_events c"
  let ?new = "concat (posted_calls ?s [a])"
  have "\<exists>c1. mc_action_step quiet c a = ret c1 \<and> mc_ok c1 \<and> ev_observers (mc_events c1) = ev_observers ?s \<and>
    length (ev_due (mc_events c1)) \<le> Suc (length (ev_due ?s)) \<and>
    v_log (mc_events c1) @ concat (ev_due (mc_events c1)) = v_log ?s @ concat (ev_due ?s) @ ?new"
  proof (cases a)
    case (Posting tid body cleanup)
    then show ?thesis using mc_post_ok [OF Cons.prems(1), of tid body cleanup quiet] Cons.prems(2) by fastforce
  next
    case Round
    obtain c1 where c1: "mc_worker_round quiet c = ret c1" "mc_ok c1" "ev_due (mc_events c1) = tl (ev_due ?s)"
      "ev_observers (mc_events c1) = ev_observers ?s" "v_log (mc_events c1) = v_log ?s @ concat (take 1 (ev_due ?s))"
      using mc_round_ok [OF Cons.prems(1)] by blast
    have "concat (take 1 (ev_due ?s)) @ concat (tl (ev_due ?s)) = concat (ev_due ?s)" by (cases "ev_due ?s") simp_all
    then show ?thesis using Round c1 Cons.prems(1) by (simp add: mc_ok_def)
  qed
  then obtain c1 where c1: "mc_action_step quiet c a = ret c1" "mc_ok c1" "ev_observers (mc_events c1) = ev_observers ?s"
    "length (ev_due (mc_events c1)) \<le> Suc (length (ev_due ?s))" "v_log (mc_events c1) @ concat (ev_due (mc_events c1)) = v_log ?s @ concat (ev_due ?s) @ ?new" by blast
  have posted: "posted_calls (mc_events c1) as = posted_calls ?s as"
    by (rule posted_calls_cong [OF c1(3)])
  have "posted_calls ?s (a # as) = posted_calls ?s [a] @ posted_calls ?s as" by (cases a) simp_all
  then show ?case using Cons.IH [OF c1(2)] Cons.prems(2) c1 posted by auto
qed

lemma mc_rounds_ok:
  assumes "mc_ok c" and "length (ev_due (mc_events c)) \<le> k"
  shows "\<exists>c'. mc_schedule quiet c (replicate k Round) = ret c' \<and> mc_ok c' \<and> ev_due (mc_events c') = [] \<and>
    v_log (mc_events c') = v_log (mc_events c) @ concat (ev_due (mc_events c))"
  using assms
proof (induction k arbitrary: c)
  case 0
  then show ?case by simp
next
  case (Suc k)
  let ?s = "mc_events c"
  obtain c1 where c1: "mc_worker_round quiet c = ret c1" "mc_ok c1" "ev_due (mc_events c1) = tl (ev_due ?s)"
    "v_log (mc_events c1) = v_log ?s @ concat (take 1 (ev_due ?s))" using mc_round_ok [OF Suc.prems(1)] by blast
  have split: "concat (take 1 (ev_due ?s)) @ concat (tl (ev_due ?s)) = concat (ev_due ?s)" by (cases "ev_due ?s") simp_all
  have "length (ev_due (mc_events c1)) \<le> k" using Suc.prems(2) by (simp add: c1(3))
  from Suc.IH [OF c1(2) this] c1 split Suc.prems(1) show ?case by (auto simp: mc_ok_def)
qed

section \<open>Starting and stopping\<close>

lemma mc_round_inv:
  assumes ok: "mc_ok c"
  shows "\<exists>c'. mc_worker_round H c = ret c' \<and> mc_ok c'"
proof (cases "v_queue (mc_events c)")
  case Nil
  then have "mc_worker_round H c = ret c" using ok by (simp add: mc_worker_round_def mc_ok_def ev_GetQueueMessage_def)
  then show ?thesis using ok by blast
next
  case (Cons m ms)
  let ?s1 = "mc_events c\<lparr>v_queue := ms\<rparr>"
  have inv: "ev_inv [] (mc_events c)" using ok by (simp add: mc_ok_def)
  note get = ev_GetQueueMessage_ok [OF inv Cons]
  obtain msg where msg: "cells (v_messages (mc_events c)) m = Some msg" using get(3) by blast
  obtain s2 where s2: "ev_Dispatch H (sint (e_tid msg)) (Some m) ?s1 = ret s2" "ev_inv [] s2"
    using ev_Dispatch_ok [OF get(2), of msg H "sint (e_tid msg)"] msg by auto
  have "mc_worker_round H c = ret (c\<lparr>mc_events := s2\<rparr>)"
    using ok get(1) msg s2(1) by (simp add: mc_worker_round_def mc_ok_def)
  then show ?thesis using ok s2(2) by (simp add: mc_ok_def)
qed

text \<open>Nobody asked the worker to stop: joining it never returns.\<close>

lemma mc_join_forever:
  assumes "mc_ok c"
  shows "mc_join H c = None"
proof -
  have "\<not> mc_ok c" if "mc_join H c = Some r" for r
    using that
  proof (induction rule: mc_join.raw_induct [rotated, consumes 1])
    case (1 join H c r)
    show ?case
    proof
      assume ok: "mc_ok c"
      obtain c' where c': "mc_worker_round H c = ret c'" "mc_ok c'" using mc_round_inv [OF ok] by blast
      with 1(2) ok have "join H c' = Some r" by (simp add: mc_ok_def)
      from 1(1) [OF this] c'(2) show False by simp
    qed
  qed
  then show ?thesis using assms by fastforce
qed

lemma mc_join_requested:
  assumes "mc_requestStop c"
  shows "mc_join H c = ret (if mc_thread c = Some WorkerRunning then c\<lparr>mc_stopped := True, mc_thread := Some WorkerFinished\<rparr> else c)"
proof -
  let ?c1 = "c\<lparr>mc_stopped := True, mc_thread := Some WorkerFinished\<rparr>"
  have finished: "mc_join H ?c1 = ret ?c1" by (simp add: mc_join.simps [of H ?c1])
  show ?thesis using assms finished by (simp add: mc_join.simps [of H c] mc_worker_round_def)
qed

lemma mc_stop_destroy:
  assumes "mc_ok c"
  shows "\<exists>c1 s. mc_Stop H c = ret c1 \<and> mc_destroy H c1 = ret s \<and> v_payloads s = v_payloads (mc_events c)"
  using assms ev_dispose_ok [of "mc_events c"] by (auto simp: mc_Stop_def mc_destroy_def mc_join_requested mc_ok_def)

section \<open>The wrapper for tests\<close>

text \<open>
  \<open>MessageCenterCUT\<close> keeps a second pointer to the singleton. The centers are objects on a store
  here, since the two pointers have to agree.
\<close>

record singletons =
  g_centers :: "center heap"
  g_instance :: "nat option"
  g_instanceCUT :: "nat option"

definition cut_Default :: "singletons \<Rightarrow> bool \<Rightarrow> singletons \<times> nat" where
  "cut_Default g autostart =
     (case g_instanceCUT g of
        Some c \<Rightarrow> (g, c)
      | None \<Rightarrow>
          let (h, c) = heap_new (g_centers g) (if autostart then mc_Start mc_new else mc_new) in
          (g\<lparr>g_centers := h, g_instanceCUT := Some c, g_instance := Some c\<rparr>, c))"

text \<open>The inherited \<open>DisposeDefaultMessageCenter\<close> on this state, and the one of the wrapper.\<close>

definition base_Dispose :: "handlers \<Rightarrow> singletons \<Rightarrow> singletons run" where
  "base_Dispose H g =
     (case g_instance g of
        None \<Rightarrow> ret g
      | Some c \<Rightarrow>
          rbind (Some (heap_read (g_centers g) c)) (\<lambda>ctr.
            rbind (mc_Stop H ctr) (\<lambda>c1.
              rbind (mc_destroy H c1) (\<lambda>s. ret (g\<lparr>g_centers := heap_delete (g_centers g) c, g_instance := None\<rparr>)))))"

definition cut_Dispose :: "handlers \<Rightarrow> singletons \<Rightarrow> singletons run" where
  "cut_Dispose H g = rbind (base_Dispose H g) (\<lambda>g1. ret (g1\<lparr>g_instanceCUT := None\<rparr>))"

lemma mc_new_stop_destroy: "\<exists>c1 s. mc_Stop H mc_new = ret c1 \<and> mc_destroy H c1 = ret s"
proof -
  obtain s where "ev_dispose ev_new = Inr s" using ev_dispose_ok [OF ev_inv_new] by blast
  then show ?thesis by (simp add: mc_Stop_def mc_destroy_def mc_new_def)
qed

lemma mc_Start_new_ok: "mc_ok (mc_Start mc_new)"
  by (simp add: mc_ok_def mc_Start_def mc_new_def)

text \<open>
  The wrapper's own pair of calls makes one center and deletes it. After the inherited dispose
  instead, the wrapper hands out the deleted center.
\<close>

lemma cut_lifecycle:
  assumes "g_instanceCUT g = None" and "heap_ok (g_centers g)"
  shows "\<exists>g1 c g2. cut_Default g autostart = (g1, c) \<and> c \<notin> live (g_centers g) \<and> cut_Default g1 b = (g1, c) \<and>
    cut_Dispose H g1 = ret g2 \<and> live (g_centers g2) = live (g_centers g) \<and> g_instance g2 = None \<and> g_instanceCUT g2 = None \<and>
    base_Dispose H g1 = ret (g2\<lparr>g_instanceCUT := Some c\<rparr>) \<and> snd (cut_Default (g2\<lparr>g_instanceCUT := Some c\<rparr>) b) \<notin> live (g_centers g2)"
proof -
  let ?c = "next_addr (g_centers g)" and ?ctr = "if autostart then mc_Start mc_new else mc_new"
  have fresh: "?c \<notin> live (g_centers g)" using heap_ok_fresh [OF assms(2)] by (simp add: domIff)
  let ?g1 = "g\<lparr>g_centers := fst (heap_new (g_centers g) ?ctr), g_instanceCUT := Some ?c, g_instance := Some ?c\<rparr>"
  let ?g2 = "?g1\<lparr>g_centers := heap_delete (g_centers ?g1) ?c, g_instance := None, g_instanceCUT := None\<rparr>"
  have default: "cut_Default g autostart = (?g1, ?c)" "cut_Default ?g1 b = (?g1, ?c)"
    using assms(1) by (simp_all add: cut_Default_def heap_new_def)
  obtain c1 s where stop: "mc_Stop H ?ctr = ret c1" "mc_destroy H c1 = ret s"
    using mc_stop_destroy [OF mc_Start_new_ok, of H] mc_new_stop_destroy [of H] by (cases autostart) auto
  have "heap_read (g_centers ?g1) ?c = Inr ?ctr" by (simp add: heap_new_def heap_read_def)
  with stop have dispose: "base_Dispose H ?g1 = ret (?g2\<lparr>g_instanceCUT := Some ?c\<rparr>)" by (simp add: base_Dispose_def)
  then have "cut_Dispose H ?g1 = ret ?g2" by (simp add: cut_Dispose_def)
  moreover have "live (g_centers ?g2) = live (g_centers g)" using fresh by (auto simp: heap_new_def heap_delete_def)
  ultimately show ?thesis using default dispose fresh
    by (intro exI [of _ ?g1] exI [of _ ?c] exI [of _ ?g2]) (simp add: cut_Default_def)
qed

end
