(* ===== verification/Message_Center_Spec.thy ===== *)
theory Message_Center_Spec
  imports Message_Center Event_Queue_Spec
begin

text \<open>
  What \<open>MessageCenter\<close> promises: every posted message is delivered, in order, by a worker that
  keeps running, and stopping it ends the worker.
\<close>

lemma ev_due_empty: "ev_due s = [] \<longleftrightarrow> v_queue s = []"
  by (simp add: ev_due_def)

text \<open>
  C12. Delivery: from a running center with an empty queue, take any interleaving of posts and
  of rounds of the worker, and then as many rounds as there were actions. Every message posted
  to a valid topic id has been delivered, in the order of the posts, to all the observers of
  its topic; a negative topic id delivers nothing; nothing else was called and the queue is
  empty again.
\<close>

theorem mc_schedule_delivers:
  assumes "mc_ok c" and "v_queue (mc_events c) = []" and "\<forall>a \<in> set as. valid_action a"
  shows "\<exists>c1 c2. mc_schedule quiet c as = ret c1 \<and> mc_schedule quiet c1 (replicate (length as) Round) = ret c2 \<and>
    mc_ok c2 \<and> v_queue (mc_events c2) = [] \<and> ev_observers (mc_events c1) = ev_observers (mc_events c) \<and>
    v_log (mc_events c2) = v_log (mc_events c) @ concat (posted_calls (mc_events c) as)"
proof -
  have none: "ev_due (mc_events c) = []" using assms(2) by (simp add: ev_due_empty)
  obtain c1 where c1: "mc_schedule quiet c as = ret c1" "mc_ok c1" "ev_observers (mc_events c1) = ev_observers (mc_events c)"
    "length (ev_due (mc_events c1)) \<le> length as"
    "v_log (mc_events c1) @ concat (ev_due (mc_events c1)) = v_log (mc_events c) @ concat (posted_calls (mc_events c) as)"
    using mc_schedule_ok [OF assms(1,3)] by (auto simp: none)
  obtain c2 where "mc_schedule quiet c1 (replicate (length as) Round) = ret c2" "mc_ok c2" "ev_due (mc_events c2) = []"
    "v_log (mc_events c2) = v_log (mc_events c1) @ concat (ev_due (mc_events c1))"
    using mc_rounds_ok [OF c1(2,4)] by blast
  then show ?thesis using c1 by (simp add: ev_due_empty)
qed

text \<open>A running center with one lambda on topic ''A''.\<close>

definition demo_center :: center where
  "demo_center = mc_Start (mc_new\<lparr>mc_events := demo\<lparr>v_queue := [], v_messages := heap_empty\<rparr>\<rparr>)"

lemma desc_ptrs_messages [simp]: "desc_ptrs (s\<lparr>v_queue := q, v_messages := h\<rparr>) t = desc_ptrs s t"
  by (simp add: desc_ptrs_def split: option.split)

lemma demo_center_ok: "mc_ok demo_center"
proof -
  have "topics_inv (mc_events demo_center)" "observers_inv (mc_events demo_center)"
    using demo_inv by (simp_all add: ev_inv_def demo_center_def mc_Start_def mc_new_def topics_inv_def observers_inv_def)
  moreover have "messages_inv [] (mc_events demo_center)"
    using demo_inv by (simp add: demo_center_def mc_Start_def mc_new_def messages_inv_def ev_inv_def fun_eq_iff)
  ultimately show ?thesis by (simp add: mc_ok_def ev_inv_def demo_center_def mc_Start_def mc_new_def)
qed

theorem mc_schedule_delivers_witness:
  "\<exists>c1 c2. mc_schedule quiet demo_center [Posting 0 (Some ''a'') True, Round, Posting (-1) None False, Posting 0 (Some ''b'') True] = ret c1 \<and>
     mc_schedule quiet c1 (replicate 4 Round) = ret c2 \<and>
     v_log (mc_events c2) = [ECall (Func 5) 0 (Some ''a''), ECall (Func 5) 0 (Some ''b'')]"
proof -
  let ?as = "[Posting 0 (Some ''a'') True, Round, Posting (-1) None False, Posting 0 (Some ''b'') True]"
  have "ev_observers (mc_events demo_center) = ev_observers demo"
    by (rule ev_observers_eq) (simp_all add: demo_center_def mc_Start_def mc_new_def)
  then have "ev_observers (mc_events demo_center) 0 = [new_descriptor\<lparr>d_observerId := 1, d_callbackFunc := Some 5\<rparr>]"
    by (simp add: demo_observers)
  then have "concat (posted_calls (mc_events demo_center) ?as) = [ECall (Func 5) 0 (Some ''a''), ECall (Func 5) 0 (Some ''b'')]"
    by (simp add: ev_calls_def descriptor_target_def new_descriptor_def)
  moreover have "v_queue (mc_events demo_center) = []" "v_log (mc_events demo_center) = []" "\<forall>a \<in> set ?as. valid_action a"
    by (simp_all add: demo_center_def mc_Start_def mc_new_def demo_facts valid_action_def)
  ultimately show ?thesis
    using mc_schedule_delivers [OF demo_center_ok, of ?as] by (auto simp: numeral_eq_Suc)
qed

text \<open>
  C13. Life cycle: \<open>Start\<close> on a running center does nothing. \<open>Stop\<close> returns, the worker has
  ended and its thread is gone, and a second \<open>Stop\<close> does nothing; messages still in the queue
  stay there undelivered, until another \<open>Start\<close>. Disposing of the default instance stops it
  first and succeeds. But destroying a running center without \<open>Stop\<close> never returns: its
  destructor joins a worker that nobody told to stop.
\<close>

theorem mc_stop_spec:
  assumes "mc_ok c"
  shows "mc_Start c = c \<and>
    (\<exists>c'. mc_Stop H c = ret c' \<and> mc_thread c' = None \<and> mc_stopped c' \<and> \<not> mc_started c' \<and>
       mc_events c' = mc_events c \<and> mc_Stop H c' = ret c' \<and>
       mc_ok (mc_Start c') \<and> mc_events (mc_Start c') = mc_events c) \<and>
    mc_DisposeDefault H (mc_Default (Some c) autostart) = ret None \<and> mc_destroy H c = None"
proof -
  have c: "mc_started c" "\<not> mc_stopped c" "mc_thread c = Some WorkerRunning" and inv: "ev_inv [] (mc_events c)"
    using assms by (simp_all add: mc_ok_def)
  let ?c' = "c\<lparr>mc_requestStop := True, mc_stopped := True, mc_thread := None, mc_started := False\<rparr>"
  have stop: "mc_Stop H c = ret ?c'" using c by (simp add: mc_Stop_def mc_join_requested)
  have "\<exists>s. mc_destroy H ?c' = ret s" using ev_dispose_ok [OF inv] by (auto simp: mc_destroy_def)
  then show ?thesis
    using c inv stop mc_join_forever [OF assms, of H]
    by (auto simp: mc_Start_def mc_Stop_def [of H ?c'] mc_ok_def mc_DisposeDefault_def mc_Default_def mc_destroy_def [of H c])
qed

theorem mc_stop_spec_witness:
  "(\<exists>c'. mc_Stop quiet (mc_Start mc_new) = ret c' \<and> mc_stopped c') \<and>
    mc_DisposeDefault quiet (mc_Default None True) = ret None \<and> mc_destroy quiet (mc_Start mc_new) = None"
  using mc_stop_spec [OF mc_Start_new_ok, of quiet True] by (auto simp: mc_Default_def)

end
