(* ===== verification/Center_Sync.thy ===== *)
theory Center_Sync
  imports Main
begin

text \<open>
  The threads of \<open>src/messagecenter.cpp\<close>: any number of threads call \<open>Start\<close> and \<open>Stop\<close> on one
  \<open>MessageCenter\<close>, while the workers that were started run \<open>ThreadWorker\<close>. Every access to an
  atomic flag is one step, and so are taking \<open>m_mutexThreads\<close>, \<open>new std::thread\<close> and the return of
  \<open>join\<close>; giving up the mutex comes with the last store made under it. What a worker does with
  the messages is the subject of \<open>Message_Center\<close>: here a round of its loop changes nothing.
\<close>

section \<open>Threads and steps\<close>

text \<open>Where a caller is in \<open>Start\<close> or \<open>Stop\<close>: each constructor names what it has just done.\<close>

datatype caller_pc =
    Outside
  | StartTested | StartLocked | StartCleared | StartReset | StartSpawned
  | StopTested | StopLocked | StopRequested | Joining nat | StopJoined

datatype worker_pc = Looping | Leaving | Finished

text \<open>
  The center: its flags, the owner of \<open>m_mutexThreads\<close>, the worker that \<open>m_thread\<close> stands for,
  all workers ever started, and the callers.
\<close>

record center_sync =
  k_started :: bool
  k_request :: bool
  k_stopped :: bool
  k_mutex :: "nat option"
  k_thread :: "nat option"
  k_workers :: "worker_pc list"
  k_pc :: "nat \<Rightarrow> caller_pc"

definition center_init :: center_sync where
  "center_init = \<lparr>k_started = False, k_request = False, k_stopped = True, k_mutex = None, k_thread = None,
     k_workers = [], k_pc = (\<lambda>_. Outside)\<rparr>"

fun starting :: "caller_pc \<Rightarrow> bool" where
  "starting StartTested = True"
| "starting StartLocked = True"
| "starting StartCleared = True"
| "starting StartReset = True"
| "starting StartSpawned = True"
| "starting _ = False"

datatype actor = Caller nat | Worker nat

text \<open>With \<open>serial\<close> no call of \<open>Start\<close> passes its test while another is under way.\<close>

inductive center_step :: "bool \<Rightarrow> actor \<Rightarrow> center_sync \<Rightarrow> center_sync \<Rightarrow> bool" for serial :: bool where
  start_started: "k_pc s t = Outside \<Longrightarrow> k_started s \<Longrightarrow> center_step serial (Caller t) s s"
| start_test: "k_pc s t = Outside \<Longrightarrow> \<not> k_started s \<Longrightarrow> (serial \<Longrightarrow> \<forall>u. \<not> starting (k_pc s u)) \<Longrightarrow>
    center_step serial (Caller t) s (s\<lparr>k_pc := (k_pc s)(t := StartTested)\<rparr>)"
| start_lock: "k_pc s t = StartTested \<Longrightarrow> k_mutex s = None \<Longrightarrow>
    center_step serial (Caller t) s (s\<lparr>k_mutex := Some t, k_pc := (k_pc s)(t := StartLocked)\<rparr>)"
| start_clear: "k_pc s t = StartLocked \<Longrightarrow>
    center_step serial (Caller t) s (s\<lparr>k_request := False, k_pc := (k_pc s)(t := StartCleared)\<rparr>)"
| start_reset: "k_pc s t = StartCleared \<Longrightarrow>
    center_step serial (Caller t) s (s\<lparr>k_stopped := False, k_pc := (k_pc s)(t := StartReset)\<rparr>)"
| start_spawn: "k_pc s t = StartReset \<Longrightarrow>
    center_step serial (Caller t) s (s\<lparr>k_thread := Some (length (k_workers s)), k_workers := k_workers s @ [Looping],
      k_pc := (k_pc s)(t := StartSpawned)\<rparr>)"
| start_mark: "k_pc s t = StartSpawned \<Longrightarrow>
    center_step serial (Caller t) s (s\<lparr>k_started := True, k_mutex := None, k_pc := (k_pc s)(t := Outside)\<rparr>)"
| stop_stopped: "k_pc s t = Outside \<Longrightarrow> k_stopped s \<Longrightarrow> center_step serial (Caller t) s s"
| stop_test: "k_pc s t = Outside \<Longrightarrow> \<not> k_stopped s \<Longrightarrow>
    center_step serial (Caller t) s (s\<lparr>k_pc := (k_pc s)(t := StopTested)\<rparr>)"
| stop_lock: "k_pc s t = StopTested \<Longrightarrow> k_mutex s = None \<Longrightarrow>
    center_step serial (Caller t) s (s\<lparr>k_mutex := Some t, k_pc := (k_pc s)(t := StopLocked)\<rparr>)"
| stop_request: "k_pc s t = StopLocked \<Longrightarrow>
    center_step serial (Caller t) s (s\<lparr>k_request := True, k_pc := (k_pc s)(t := StopRequested)\<rparr>)"
| stop_join: "k_pc s t = StopRequested \<Longrightarrow> k_thread s = Some w \<Longrightarrow>
    center_step serial (Caller t) s (s\<lparr>k_pc := (k_pc s)(t := Joining w)\<rparr>)"
| stop_no_thread: "k_pc s t = StopRequested \<Longrightarrow> k_thread s = None \<Longrightarrow>
    center_step serial (Caller t) s (s\<lparr>k_pc := (k_pc s)(t := StopJoined)\<rparr>)"
| joined: "k_pc s t = Joining w \<Longrightarrow> k_workers s ! w = Finished \<Longrightarrow>
    center_step serial (Caller t) s (s\<lparr>k_thread := None, k_pc := (k_pc s)(t := StopJoined)\<rparr>)"
| stop_mark: "k_pc s t = StopJoined \<Longrightarrow>
    center_step serial (Caller t) s (s\<lparr>k_started := False, k_mutex := None, k_pc := (k_pc s)(t := Outside)\<rparr>)"
| worker_round: "w < length (k_workers s) \<Longrightarrow> k_workers s ! w = Looping \<Longrightarrow> \<not> k_request s \<Longrightarrow>
    center_step serial (Worker w) s s"
| worker_leave: "w < length (k_workers s) \<Longrightarrow> k_workers s ! w = Looping \<Longrightarrow> k_request s \<Longrightarrow>
    center_step serial (Worker w) s (s\<lparr>k_workers := (k_workers s)[w := Leaving]\<rparr>)"
| worker_finish: "w < length (k_workers s) \<Longrightarrow> k_workers s ! w = Leaving \<Longrightarrow>
    center_step serial (Worker w) s (s\<lparr>k_stopped := True, k_workers := (k_workers s)[w := Finished]\<rparr>)"

inductive center_reachable :: "bool \<Rightarrow> center_sync \<Rightarrow> bool" for serial :: bool where
  init: "center_reachable serial center_init"
| step: "center_reachable serial s \<Longrightarrow> center_step serial a s s' \<Longrightarrow> center_reachable serial s'"

text \<open>The return of a call of \<open>Stop\<close>: at its first test, or at its last store.\<close>

definition stop_returns :: "nat \<Rightarrow> center_sync \<Rightarrow> center_sync \<Rightarrow> bool" where
  "stop_returns t s s' \<longleftrightarrow>
     k_pc s t = Outside \<and> k_stopped s \<and> s' = s \<or>
     k_pc s t = StopJoined \<and> s' = s\<lparr>k_started := False, k_mutex := None, k_pc := (k_pc s)(t := Outside)\<rparr>"

section \<open>Invariants\<close>

text \<open>What holds whatever is called: the mutex has one owner, and whoever joins has asked to stop.\<close>

fun locked :: "caller_pc \<Rightarrow> bool" where
  "locked Outside = False"
| "locked StartTested = False"
| "locked StopTested = False"
| "locked _ = True"

fun owner_ok :: "center_sync \<Rightarrow> caller_pc \<Rightarrow> bool" where
  "owner_ok s StopRequested = k_request s"
| "owner_ok s (Joining w) = (k_request s \<and> k_thread s = Some w)"
| "owner_ok s StopJoined = (k_request s \<and> k_thread s = None)"
| "owner_ok s _ = True"

definition lock_inv :: "center_sync \<Rightarrow> bool" where
  "lock_inv s \<longleftrightarrow> (\<forall>t. locked (k_pc s t) \<longleftrightarrow> k_mutex s = Some t) \<and>
     (\<forall>w. k_thread s = Some w \<longrightarrow> w < length (k_workers s)) \<and>
     (\<forall>t. k_mutex s = Some t \<longrightarrow> owner_ok s (k_pc s t))"

text \<open>What serial calls of \<open>Start\<close> keep: every worker that has not finished is the one of \<open>m_thread\<close>.\<close>

fun starter_ok :: "center_sync \<Rightarrow> caller_pc \<Rightarrow> bool" where
  "starter_ok s StartTested = (\<not> k_started s \<and> k_thread s = None)"
| "starter_ok s StartLocked = (\<not> k_started s \<and> k_thread s = None)"
| "starter_ok s StartCleared = (\<not> k_started s \<and> k_thread s = None)"
| "starter_ok s StartReset = (\<not> k_started s \<and> k_thread s = None \<and> \<not> k_stopped s)"
| "starter_ok s _ = True"

definition all_finished :: "center_sync \<Rightarrow> bool" where
  "all_finished s \<longleftrightarrow> (\<forall>w < length (k_workers s). k_workers s ! w = Finished)"

definition one_worker_inv :: "center_sync \<Rightarrow> bool" where
  "one_worker_inv s \<longleftrightarrow> (\<forall>w < length (k_workers s). k_workers s ! w \<noteq> Finished \<longrightarrow> k_thread s = Some w) \<and>
     (k_stopped s \<longrightarrow> all_finished s) \<and>
     (\<forall>t. starter_ok s (k_pc s t)) \<and>
     (\<forall>t u. starting (k_pc s t) \<longrightarrow> starting (k_pc s u) \<longrightarrow> t = u) \<and>
     ((\<forall>t. \<not> starting (k_pc s t)) \<longrightarrow> \<not> k_started s \<longrightarrow> k_thread s = None)"

lemma lock_inv_init: "lock_inv center_init"
  by (simp add: lock_inv_def center_init_def)

lemma one_worker_inv_init: "one_worker_inv center_init"
  by (simp add: one_worker_inv_def all_finished_def center_init_def)

lemma lock_inv_owner:
  "lock_inv s \<Longrightarrow> k_pc s t = p \<Longrightarrow> locked p \<Longrightarrow> k_mutex s = Some t \<and> owner_ok s p"
  "lock_inv s \<Longrightarrow> k_pc s t = p \<Longrightarrow> \<not> locked p \<Longrightarrow> k_mutex s \<noteq> Some t"
  by (auto simp: lock_inv_def)

lemma owner_ok_pc [simp]: "owner_ok (s\<lparr>k_pc := x\<rparr>) p = owner_ok s p"
  by (cases p) simp_all

text \<open>A step of the owner, a step that takes the mutex, and one that touches neither mutex nor \<open>m_thread\<close>.\<close>

lemma lock_inv_own:
  assumes "lock_inv s" and "k_pc s t = q" and "locked q"
    and "k_mutex s' = (if locked p then k_mutex s else None)" and "k_pc s' = (k_pc s)(t := p)"
    and "\<lbrakk>owner_ok s q; \<forall>w. k_thread s = Some w \<longrightarrow> w < length (k_workers s)\<rbrakk> \<Longrightarrow>
      (\<forall>w. k_thread s' = Some w \<longrightarrow> w < length (k_workers s')) \<and> (locked p \<longrightarrow> owner_ok s' p)"
  shows "lock_inv s'"
proof -
  from lock_inv_owner(1) [OF assms(1-3)] have "k_mutex s = Some t" "owner_ok s q" by simp_all
  then show ?thesis using assms by (auto simp: lock_inv_def split: if_splits)
qed

lemma lock_inv_frame:
  assumes "lock_inv s" and "k_mutex s' = k_mutex s" "k_thread s' = k_thread s" "k_request s' = k_request s"
    and "length (k_workers s') = length (k_workers s)" and "\<forall>t. k_pc s' t \<noteq> k_pc s t \<longrightarrow> \<not> locked (k_pc s t) \<and> \<not> locked (k_pc s' t)"
  shows "lock_inv s'"
proof -
  have ok: "owner_ok s' p = owner_ok s p" for p using assms by (cases p) simp_all
  have "locked (k_pc s' t) = locked (k_pc s t)" for t using assms(6) by metis
  moreover have "k_pc s' t = k_pc s t" if "k_mutex s = Some t" for t using assms(1,6) that by (auto simp: lock_inv_def)
  ultimately show ?thesis using assms by (simp add: lock_inv_def ok)
qed

lemma lock_inv_step:
  assumes "center_step serial a s s'" and inv: "lock_inv s"
  shows "lock_inv s'"
proof -
  from assms(1) show ?thesis
  proof cases
    case (start_test t)
    then show ?thesis by (intro lock_inv_frame [OF inv]) auto
  next
    case (stop_test t)
    then show ?thesis by (intro lock_inv_frame [OF inv]) auto
  next
    case (start_lock t)
    then show ?thesis using inv by (auto simp: lock_inv_def)
  next
    case (stop_lock t)
    then show ?thesis using inv by (auto simp: lock_inv_def)
  next
    case (start_clear t)
    then show ?thesis by (intro lock_inv_own [OF inv start_clear(3), of _ StartCleared]) auto
  next
    case (start_reset t)
    then show ?thesis by (intro lock_inv_own [OF inv start_reset(3), of _ StartReset]) auto
  next
    case (start_spawn t)
    then show ?thesis by (intro lock_inv_own [OF inv start_spawn(3), of _ StartSpawned]) auto
  next
    case (start_mark t)
    then show ?thesis by (intro lock_inv_own [OF inv start_mark(3), of _ Outside]) auto
  next
    case (stop_request t)
    then show ?thesis by (intro lock_inv_own [OF inv stop_request(3), of _ StopRequested]) auto
  next
    case (stop_join t w)
    then show ?thesis by (intro lock_inv_own [OF inv stop_join(3), of _ "Joining w"]) auto
  next
    case (stop_no_thread t)
    then show ?thesis by (intro lock_inv_own [OF inv stop_no_thread(3), of _ StopJoined]) auto
  next
    case (joined t w)
    then show ?thesis by (intro lock_inv_own [OF inv joined(3), of _ StopJoined]) auto
  next
    case (stop_mark t)
    then show ?thesis by (intro lock_inv_own [OF inv stop_mark(3), of _ Outside]) auto
  next
    case (worker_leave w)
    then show ?thesis by (intro lock_inv_frame [OF inv]) auto
  next
    case (worker_finish w)
    then show ?thesis by (intro lock_inv_frame [OF inv]) auto
  qed (use inv in simp_all)
qed

lemma starter_ok_idle: "\<not> starting p \<Longrightarrow> starter_ok s p"
  by (cases p) simp_all

lemma all_finished_no_thread: "one_worker_inv s \<Longrightarrow> k_thread s = None \<Longrightarrow> all_finished s"
  by (auto simp: one_worker_inv_def all_finished_def)

lemma one_worker_frame:
  assumes inv: "one_worker_inv s" and "k_workers s' = k_workers s" "k_stopped s' = k_stopped s" "k_started s' = k_started s"
    "k_thread s' = k_thread s" "k_pc s' = (k_pc s)(t := p)" and "starting p = starting (k_pc s t)" and "starter_ok s p"
  shows "one_worker_inv s'"
proof -
  have "starter_ok s' q = starter_ok s q" for q using assms by (cases q) simp_all
  moreover have "starting (k_pc s' u) = starting (k_pc s u)" for u using assms by simp
  ultimately show ?thesis using assms unfolding one_worker_inv_def all_finished_def by simp
qed

text \<open>A step of the starting thread: no other is starting.\<close>

lemma one_worker_starter:
  assumes "\<And>u. u \<noteq> t \<Longrightarrow> \<not> starting (k_pc s u)" and "k_pc s' = (k_pc s)(t := p)" and "starter_ok s' p"
    and "\<forall>w < length (k_workers s'). k_workers s' ! w \<noteq> Finished \<longrightarrow> k_thread s' = Some w" and "k_stopped s' \<longrightarrow> all_finished s'"
    and "\<not> starting p \<longrightarrow> \<not> k_started s' \<longrightarrow> k_thread s' = None"
  shows "one_worker_inv s'"
proof -
  have others: "\<not> starting (k_pc s' u)" if "u \<noteq> t" for u using assms(1,2) that by simp
  then have "starter_ok s' (k_pc s' u)" for u using assms(2,3) starter_ok_idle by (cases "u = t") auto
  moreover have "u = v" if "starting (k_pc s' u)" "starting (k_pc s' v)" for u v using others that by metis
  moreover have "k_pc s' t = p" using assms(2) by simp
  ultimately show ?thesis using assms(4-6) unfolding one_worker_inv_def by metis
qed

text \<open>In a state with one worker every worker but the running one has finished.\<close>

lemma one_worker_others:
  assumes "one_worker_inv s" and "w < length (k_workers s)" "k_workers s ! w \<noteq> Finished" "v < length (k_workers s)" "v \<noteq> w"
  shows "k_workers s ! v = Finished"
proof -
  have "\<forall>w < length (k_workers s). k_workers s ! w \<noteq> Finished \<longrightarrow> k_thread s = Some w" using assms(1) by (simp add: one_worker_inv_def)
  from this [rule_format, of w] this [rule_format, of v] show ?thesis using assms(2-) by auto
qed

lemma one_worker_inv_step:
  assumes "center_step True a s s'" and lock: "lock_inv s" and inv: "one_worker_inv s"
  shows "one_worker_inv s'"
proof -
  have starter: "\<And>t p. k_pc s t = p \<Longrightarrow> starter_ok s p" using inv by (auto simp: one_worker_inv_def)
  have only: "\<not> starting (k_pc s u)" if "k_pc s t = p" "starting p" "u \<noteq> t" for t u p using inv that by (auto simp: one_worker_inv_def)
  have alive: "\<forall>w < length (k_workers s). k_workers s ! w \<noteq> Finished \<longrightarrow> k_thread s = Some w"
    and stopped: "k_stopped s \<Longrightarrow> all_finished s" using inv by (auto simp: one_worker_inv_def)
  note others = one_worker_others [OF inv]
  from assms(1) show ?thesis
  proof cases
    case (start_test t)
    then have "k_thread s = None" using inv by (auto simp: one_worker_inv_def)
    then show ?thesis using start_test alive stopped
      by (intro one_worker_starter [of t s s' StartTested]) (auto simp: all_finished_def)
  next
    case (start_lock t)
    then show ?thesis using starter [of t] by (intro one_worker_frame [OF inv, of _ t StartLocked]) auto
  next
    case (start_clear t)
    then show ?thesis using starter [of t] by (intro one_worker_frame [OF inv, of _ t StartCleared]) auto
  next
    case (start_reset t)
    then show ?thesis using starter [of t] only [OF start_reset(3)] alive
      by (intro one_worker_starter [of t s s' StartReset]) auto
  next
    case (start_spawn t)
    then show ?thesis using starter [of t] only [OF start_spawn(3)] alive
      by (intro one_worker_starter [of t s s' StartSpawned]) (auto simp: nth_append)
  next
    case (start_mark t)
    then show ?thesis using starter [of t] only [OF start_mark(3)] alive stopped
      by (intro one_worker_starter [of t s s' Outside]) (auto simp: all_finished_def)
  next
    case (stop_test t)
    then show ?thesis by (intro one_worker_frame [OF inv, of _ t StopTested]) auto
  next
    case (stop_lock t)
    then show ?thesis by (intro one_worker_frame [OF inv, of _ t StopLocked]) auto
  next
    case (stop_request t)
    then show ?thesis by (intro one_worker_frame [OF inv, of _ t StopRequested]) auto
  next
    case (stop_join t w)
    then show ?thesis by (intro one_worker_frame [OF inv, of _ t "Joining w"]) auto
  next
    case (stop_no_thread t)
    then show ?thesis by (intro one_worker_frame [OF inv, of _ t StopJoined]) auto
  next
    case (joined t w)
    then have "k_thread s = Some w" using lock_inv_owner(1) [OF lock joined(3)] by simp
    then have "all_finished s'" using joined alive by (auto simp: all_finished_def)
    moreover have "starter_ok s' (k_pc s' u)" for u
      using starter [of u "k_pc s u"] joined by (cases "u = t"; cases "k_pc s u") auto
    moreover have "starting (k_pc s' u) = starting (k_pc s u)" for u using joined by auto
    ultimately show ?thesis using inv joined unfolding one_worker_inv_def by (auto simp: all_finished_def)
  next
    case (stop_mark t)
    then have "k_thread s = None" using lock_inv_owner(1) [OF lock stop_mark(3)] by simp
    moreover have "starter_ok s' (k_pc s' u)" for u
      using starter [of u "k_pc s u"] stop_mark by (cases "u = t"; cases "k_pc s u") auto
    moreover have "starting (k_pc s' u) = starting (k_pc s u)" for u using stop_mark by auto
    ultimately show ?thesis using inv stop_mark unfolding one_worker_inv_def by (auto simp: all_finished_def)
  next
    case (worker_leave w)
    have "starter_ok s' p = starter_ok s p" for p using worker_leave by (cases p) auto
    moreover have "\<not> all_finished s" using worker_leave by (auto simp: all_finished_def)
    moreover have w: "k_thread s = Some w" using worker_leave alive by auto
    from others [of w] have "\<forall>v < length (k_workers s'). k_workers s' ! v \<noteq> Finished \<longrightarrow> k_thread s' = Some v"
      using worker_leave w by (auto simp: nth_list_update)
    ultimately show ?thesis using worker_leave inv unfolding one_worker_inv_def by auto
  next
    case (worker_finish w)
    then have w: "k_thread s = Some w" using alive by auto
    from others [of w] have "all_finished s'" using worker_finish by (auto simp: all_finished_def nth_list_update)
    moreover have "starter_ok s' (k_pc s u)" for u using starter [of u "k_pc s u"] worker_finish w by (cases "k_pc s u") auto
    ultimately show ?thesis using worker_finish inv unfolding one_worker_inv_def by (auto simp: all_finished_def)
  qed (use inv in simp_all)
qed

lemma lock_inv_reachable: "center_reachable b s \<Longrightarrow> lock_inv s"
  by (induction rule: center_reachable.induct) (auto intro: lock_inv_init lock_inv_step)

lemma one_worker_inv_reachable: "center_reachable True s \<Longrightarrow> one_worker_inv s"
  by (induction rule: center_reachable.induct) (auto intro: one_worker_inv_init one_worker_inv_step lock_inv_reachable)

section \<open>Serial starts\<close>

text \<open>C14. As long as no two calls of \<open>Start\<close> overlap, whatever threads call \<open>Stop\<close> meanwhile, at most
one worker is at work, it is the one that \<open>m_thread\<close> stands for, and when a call of \<open>Stop\<close> returns, at
its first test or after its join, every worker that was ever started has finished.\<close>

theorem center_serial_starts:
  assumes "center_reachable True s"
  shows "(\<forall>w < length (k_workers s). k_workers s ! w \<noteq> Finished \<longrightarrow> k_thread s = Some w) \<and>
    (\<forall>t s'. stop_returns t s s' \<longrightarrow> all_finished s')"
proof (intro conjI allI impI)
  have inv: "one_worker_inv s" and lock: "lock_inv s"
    using assms by (auto intro: one_worker_inv_reachable lock_inv_reachable)
  show "k_thread s = Some w" if "w < length (k_workers s)" "k_workers s ! w \<noteq> Finished" for w
    using inv that by (simp add: one_worker_inv_def)
  fix t s'
  assume "stop_returns t s s'"
  then consider (test) "k_stopped s" "s' = s" | (joined) "k_pc s t = StopJoined" "k_workers s' = k_workers s"
    unfolding stop_returns_def by auto
  then show "all_finished s'"
  proof cases
    case test
    then show ?thesis using inv by (simp add: one_worker_inv_def)
  next
    case joined
    then have "k_thread s = None" using lock_inv_owner(1) [OF lock joined(1)] by simp
    then show ?thesis using all_finished_no_thread [OF inv] joined by (simp add: all_finished_def)
  qed
qed

section \<open>Joining\<close>

text \<open>How many steps a worker has left once it has been asked to stop.\<close>

definition todo :: "center_sync \<Rightarrow> nat \<Rightarrow> nat" where
  "todo s w = (case k_workers s ! w of Looping \<Rightarrow> 2 | Leaving \<Rightarrow> 1 | Finished \<Rightarrow> 0)"

lemma joining_facts:
  assumes "lock_inv s" and "k_pc s t = Joining w"
  shows "k_mutex s = Some t" "k_request s" "k_thread s = Some w" "w < length (k_workers s)"
    "\<And>u. locked (k_pc s u) \<Longrightarrow> u = t"
proof -
  from lock_inv_owner(1) [OF assms] have "k_mutex s = Some t \<and> owner_ok s (Joining w)" by simp
  then show "k_mutex s = Some t" "k_request s" "k_thread s = Some w" "w < length (k_workers s)"
    "\<And>u. locked (k_pc s u) \<Longrightarrow> u = t" using assms(1) by (auto simp: lock_inv_def)
qed

lemma worker_can_step:
  assumes "k_request s" and "w < length (k_workers s)" and "k_workers s ! w \<noteq> Finished"
  shows "\<exists>s'. center_step b (Worker w) s s'"
  using assms by (cases "k_workers s ! w") (auto intro: center_step.worker_leave center_step.worker_finish)

lemma joining_step:
  assumes step: "center_step b a s s'" and lock: "lock_inv s" and join: "k_pc s t = Joining w" and "a \<noteq> Caller t"
  shows "k_pc s' t = Joining w \<and> todo s' w \<le> todo s w \<and> (a = Worker w \<longrightarrow> todo s' w < todo s w)"
proof -
  note facts = joining_facts [OF lock join]
  have free: "\<not> locked (k_pc s u)" if "a = Caller u" for u using facts(5) that assms(4) by blast
  from step show ?thesis
  proof cases
    case (worker_leave v)
    then show ?thesis using join facts by (auto simp: todo_def nth_list_update)
  next
    case (worker_finish v)
    then show ?thesis using join facts by (auto simp: todo_def nth_list_update split: worker_pc.split)
  qed (use join facts free assms(4) in \<open>auto simp: todo_def\<close>)
qed

text \<open>C15. A call of \<open>Stop\<close> that waits for its worker returns, whatever calls of \<open>Start\<close> and \<open>Stop\<close>
overlap: while it waits the request to stop stands, the worker can always take a step and each of
its steps brings it nearer to its end, at most two steps away, no other thread sets it back, and
once it has finished the call goes on.\<close>

theorem center_join_returns:
  assumes "center_reachable b s" and "k_pc s t = Joining w"
  shows "todo s w \<le> 2 \<and>
    (0 < todo s w \<longrightarrow> (\<exists>s'. center_step b (Worker w) s s')) \<and>
    (\<forall>a s'. center_step b a s s' \<longrightarrow> a \<noteq> Caller t \<longrightarrow>
       k_pc s' t = Joining w \<and> todo s' w \<le> todo s w \<and> (a = Worker w \<longrightarrow> todo s' w < todo s w)) \<and>
    (todo s w = 0 \<longrightarrow> (\<exists>s'. center_step b (Caller t) s s' \<and> k_pc s' t = StopJoined \<and> k_thread s' = None))"
proof -
  have lock: "lock_inv s" using assms(1) by (rule lock_inv_reachable)
  note facts = joining_facts [OF lock assms(2)]
  have "0 < todo s w \<Longrightarrow> \<exists>s'. center_step b (Worker w) s s'"
    using worker_can_step [OF facts(2,4)] by (auto simp: todo_def split: worker_pc.splits)
  moreover have "\<exists>s'. center_step b (Caller t) s s' \<and> k_pc s' t = StopJoined \<and> k_thread s' = None" if "todo s w = 0"
    using center_step.joined [OF assms(2), of b] that by (fastforce simp: todo_def split: worker_pc.splits)
  ultimately show ?thesis using joining_step [OF _ lock assms(2)] by (auto simp: todo_def split: worker_pc.split)
qed

section \<open>Overlapping starts\<close>

text \<open>Whole runs of \<open>Start\<close> from its lock on and of \<open>Stop\<close> up to its join, with nobody in between.\<close>

lemma run_start:
  assumes r: "center_reachable b s" and "k_pc s t = StartTested" and "k_mutex s = None"
  shows "center_reachable b (s\<lparr>k_started := True, k_request := False, k_stopped := False, k_mutex := None,
    k_thread := Some (length (k_workers s)), k_workers := k_workers s @ [Looping], k_pc := (k_pc s)(t := Outside)\<rparr>)"
proof -
  note r = center_reachable.step [OF r start_lock [of s t b, OF assms(2,3)]]
  note r = center_reachable.step [OF r start_clear [of _ t b]]
  note r = center_reachable.step [OF r start_reset [of _ t b]]
  note r = center_reachable.step [OF r start_spawn [of _ t b]]
  note r = center_reachable.step [OF r start_mark [of _ t b]]
  from r show ?thesis by (cases s) simp
qed

lemma run_stop_to_join:
  assumes r: "center_reachable b s" and "k_pc s t = Outside" and "\<not> k_stopped s" and "k_mutex s = None" and "k_thread s = Some w"
  shows "center_reachable b (s\<lparr>k_request := True, k_mutex := Some t, k_pc := (k_pc s)(t := Joining w)\<rparr>)"
proof -
  note r = center_reachable.step [OF r stop_test [of s t b, OF assms(2,3)]]
  note r = center_reachable.step [OF r stop_lock [of _ t b]]
  note r = center_reachable.step [OF r stop_request [of _ t b]]
  note r = center_reachable.step [OF r stop_join [of _ t w b]]
  from r assms(4,5) show ?thesis by (cases s) simp
qed

lemma run_worker:
  assumes r: "center_reachable b s" and "w < length (k_workers s)" and "k_workers s ! w = Looping" and "k_request s"
  shows "center_reachable b (s\<lparr>k_workers := (k_workers s)[w := Leaving]\<rparr>)"
    and "center_reachable b (s\<lparr>k_stopped := True, k_workers := (k_workers s)[w := Finished]\<rparr>)"
proof -
  note l = center_reachable.step [OF r worker_leave [of w s b, OF assms(2-4)]]
  then show "center_reachable b (s\<lparr>k_workers := (k_workers s)[w := Leaving]\<rparr>)" .
  from center_reachable.step [OF l worker_finish [of w _ b]]
  show "center_reachable b (s\<lparr>k_stopped := True, k_workers := (k_workers s)[w := Finished]\<rparr>)"
    using assms(2) by (cases s) simp
qed

lemma run_stop_end:
  assumes r: "center_reachable b s" and "k_pc s t = Joining w" and "k_workers s ! w = Finished"
  shows "center_reachable b (s\<lparr>k_started := False, k_thread := None, k_mutex := None, k_pc := (k_pc s)(t := Outside)\<rparr>)"
proof -
  note r = center_reachable.step [OF r joined [of s t w b, OF assms(2,3)]]
  note r = center_reachable.step [OF r stop_mark [of _ t b]]
  from r show ?thesis by (cases s) simp
qed

definition two_workers :: center_sync where
  "two_workers = center_init\<lparr>k_started := True, k_stopped := False, k_workers := [Looping, Looping], k_thread := Some 1\<rparr>"

lemma two_workers_reachable: "center_reachable False two_workers"
proof -
  note r = center_reachable.step [OF center_reachable.init start_test [of center_init 0 False]]
  note r = center_reachable.step [OF r start_test [of _ 1 False]]
  note r = run_start [OF r, of 0]
  note r = run_start [OF r, of 1]
  from r show ?thesis by (simp add: two_workers_def center_init_def fun_upd_def cong: if_cong)
qed

definition stopped_at_work :: center_sync where
  "stopped_at_work = center_init\<lparr>k_started := True, k_workers := [Finished, Finished, Looping], k_thread := Some 2\<rparr>"

lemma stopped_at_work_reachable: "center_reachable False stopped_at_work"
proof -
  note r = run_stop_to_join [OF two_workers_reachable, of 0 1]
  note r = run_worker(1) [OF r, of 0]
  note r = run_worker(2) [OF r, of 1]
  note r = run_stop_end [OF r, of 0 1]
  note r = center_reachable.step [OF r start_test [of _ 0 False]]
  note r = run_start [OF r, of 0]
  note r = center_reachable.step [OF r worker_finish [of 0 _ False]]
  from r show ?thesis
    by (simp add: two_workers_def stopped_at_work_def center_init_def fun_upd_def numeral_2_eq_2 cong: if_cong)
qed

text \<open>C16. Two calls of \<open>Start\<close> that overlap both pass the test of \<open>m_started\<close> before either sets
it. Then two workers are at work at once, of which \<open>m_thread\<close> knows one, so that no \<open>Stop\<close> waits for the
other; and after a \<open>Stop\<close> and one more \<open>Start\<close> the late end of the lost worker sets \<open>m_stopped\<close> while the
new worker runs: from then on \<open>Stop\<close> returns at its first test and the worker is never asked to end.\<close>

theorem center_overlapping_starts:
  "(\<exists>s. center_reachable False s \<and> (\<forall>t. k_pc s t = Outside) \<and> \<not> k_request s \<and>
      k_workers s = [Looping, Looping] \<and> k_thread s = Some 1) \<and>
   (\<exists>s. center_reachable False s \<and> (\<forall>t. k_pc s t = Outside) \<and> \<not> k_request s \<and>
      k_started s \<and> k_thread s = Some 2 \<and> k_workers s ! 2 = Looping \<and> stop_returns 0 s s)"
proof (intro conjI)
  show "\<exists>s. center_reachable False s \<and> (\<forall>t. k_pc s t = Outside) \<and> \<not> k_request s \<and>
      k_workers s = [Looping, Looping] \<and> k_thread s = Some 1"
    using two_workers_reachable by (intro exI [of _ two_workers]) (simp add: two_workers_def center_init_def)
  show "\<exists>s. center_reachable False s \<and> (\<forall>t. k_pc s t = Outside) \<and> \<not> k_request s \<and>
      k_started s \<and> k_thread s = Some 2 \<and> k_workers s ! 2 = Looping \<and> stop_returns 0 s s"
    using stopped_at_work_reachable
    by (intro exI [of _ stopped_at_work]) (simp add: stopped_at_work_def center_init_def stop_returns_def)
qed

text \<open>One caller starts and asks to stop: the state in which it waits.\<close>

lemma one_start_reachable: "center_reachable b (center_init\<lparr>k_started := True, k_stopped := False, k_workers := [Looping],
    k_thread := Some 0\<rparr>)"
proof -
  note r = center_reachable.step [OF center_reachable.init start_test [of center_init 0 b]]
  note r = run_start [OF r, of 0]
  from r show ?thesis by (simp add: center_init_def fun_upd_def cong: if_cong)
qed

theorem center_serial_starts_witness:
  "\<exists>s. center_reachable True s \<and> k_workers s = [Looping] \<and> k_thread s = Some 0"
proof -
  let ?s = "center_init\<lparr>k_started := True, k_stopped := False, k_workers := [Looping], k_thread := Some 0\<rparr>"
  have "k_thread ?s = Some 0" using center_serial_starts [OF one_start_reachable] by simp
  then show ?thesis using one_start_reachable by (intro exI [of _ ?s]) simp
qed

theorem center_join_returns_witness:
  "\<exists>s. center_reachable True s \<and> k_pc s 0 = Joining 0 \<and> todo s 0 = 2 \<and> (\<exists>s'. center_step True (Worker 0) s s')"
proof -
  note r = run_stop_to_join [OF one_start_reachable [of True], of 0 0]
  then obtain s where s: "center_reachable True s" "k_pc s 0 = Joining 0" "k_workers s = [Looping]"
    using that by (simp add: center_init_def)
  show ?thesis using center_join_returns [OF s(1,2)] s by (auto simp: todo_def)
qed

end
