(* ===== verification/Message_Center_Fast.thy ===== *)
theory Message_Center_Fast
  imports MPMC_Queue Pool_LockFree
begin

text \<open>
  \<open>src/messagecenter_fast.h\<close>, class \<open>MessageCenterFast\<close>: posters put messages with inline or
  \<open>malloc\<close>ed data into a lock-free ring, one dispatch thread delivers them to the observers of
  their topic and recycles them.

  The ring and the pool are those of \<open>MPMC_Queue\<close> and \<open>Pool_LockFree\<close>. The dispatch thread is
  a state machine, one step per turn of its loops; \<open>post\<close> is cut into its parts (taking and
  filling in a message, the push, giving back a refused message, the count), so that a
  schedule interleaves them with the thread.
  The answer of \<open>malloc\<close> is an argument, and so are the turns of the thread during a \<open>flush\<close>.
\<close>

section \<open>Messages\<close>

definition MC_FAST_QUEUE_SIZE :: nat where "MC_FAST_QUEUE_SIZE = 65536"

definition MC_FAST_MAX_TOPICS :: u16 where "MC_FAST_MAX_TOPICS = 1024"

definition MC_FAST_INLINE_SIZE :: u64 where "MC_FAST_INLINE_SIZE = 64"

record message_fast =
  f_topicId :: u16
  f_flags :: u16
  f_size :: u32
  f_inlineData :: "mbyte list"
  f_managedData :: "nat option"
  f_refCount :: u32

definition message_fast_new :: message_fast where
  "message_fast_new =
     \<lparr>f_topicId = 0, f_flags = 0, f_size = 0, f_inlineData = replicate (unat MC_FAST_INLINE_SIZE) (Some 0),
      f_managedData = None, f_refCount = 0\<rparr>"

text \<open>The buffers that \<open>malloc\<close> gave out, and the calls of callbacks, with what their \<open>data\<close> leads to.\<close>

datatype fast_call = FCall nat u16 "mbyte list option" u64

record fast_world =
  f_buffers :: "mbyte list heap"
  f_log :: "fast_call list"

definition message_fast_reset :: "message_fast \<Rightarrow> fast_world \<Rightarrow> (message_fast \<times> fast_world) outcome" where
  "message_fast_reset msg w =
     obind (case f_managedData msg of
              None \<Rightarrow> Inr w
            | Some a \<Rightarrow> obind (delete_obj (f_buffers w) a) (\<lambda>h. Inr (w\<lparr>f_buffers := h\<rparr>)))
       (\<lambda>w1. Inr (msg\<lparr>f_managedData := None, f_topicId := 0, f_flags := 0, f_size := 0, f_refCount := 0\<rparr>, w1))"

text \<open>\<open>data()\<close>: \<open>Inl\<close> the inline bytes, \<open>Inr\<close> the managed pointer; and what is read through it.\<close>

definition message_fast_data :: "message_fast \<Rightarrow> mbyte list + nat option" where
  "message_fast_data msg = (if f_flags msg AND 1 \<noteq> 0 then Inr (f_managedData msg) else Inl (f_inlineData msg))"

definition message_fast_view :: "message_fast \<Rightarrow> fast_world \<Rightarrow> mbyte list option outcome" where
  "message_fast_view msg w =
     (case message_fast_data msg of
        Inl bs \<Rightarrow> Inr (Some (take (unat (f_size msg)) bs))
      | Inr None \<Rightarrow> Inr None
      | Inr (Some a) \<Rightarrow> obind (heap_read (f_buffers w) a) (\<lambda>bs. Inr (Some (take (unat (f_size msg)) bs))))"

section \<open>The center\<close>

record observer_entry =
  oe_callback :: "nat option"
  oe_userData :: nat

text \<open>Where the dispatch thread is: in its main loop with \<open>emptyCount\<close>, draining, or done.\<close>

datatype loop_state = Looping int | Draining | Returned

record center_fast =
  mf_queue :: "nat mpmc"
  mf_pool :: "message_fast pool"
  mf_topicNames :: "nat \<Rightarrow> string"
  mf_topicMap :: "string \<Rightarrow> u16 option"
  mf_nextTopicId :: u16
  mf_observers :: "nat \<Rightarrow> observer_entry list"
  mf_thread :: "loop_state option"
  mf_running :: bool
  mf_stopping :: bool
  mf_posted :: u64
  mf_dispatched :: u64
  mf_world :: fast_world

definition mf_new :: "center_fast outcome" where
  "mf_new =
     obind (pool_new message_fast_new 256 (of_nat (MC_FAST_QUEUE_SIZE * 2))) (\<lambda>p.
       Inr \<lparr>mf_queue = mpmc_new MC_FAST_QUEUE_SIZE, mf_pool = p, mf_topicNames = (\<lambda>_. []), mf_topicMap = (\<lambda>_. None),
            mf_nextTopicId = 0, mf_observers = (\<lambda>_. []), mf_thread = None, mf_running = False, mf_stopping = False,
            mf_posted = 0, mf_dispatched = 0, mf_world = \<lparr>f_buffers = heap_empty, f_log = []\<rparr>\<rparr>)"

definition mf_start :: "center_fast \<Rightarrow> center_fast" where
  "mf_start c =
     (if mf_running c then c
      else c\<lparr>mf_stopping := False, mf_running := True, mf_thread := Some (Looping 0)\<rparr>)"

definition mf_registerTopic :: "center_fast \<Rightarrow> string \<Rightarrow> center_fast \<times> u16" where
  "mf_registerTopic c name =
     (case mf_topicMap c name of
        Some i \<Rightarrow> (c, i)
      | None \<Rightarrow>
          let i = mf_nextTopicId c; c1 = c\<lparr>mf_nextTopicId := mf_nextTopicId c + 1\<rparr> in
          if MC_FAST_MAX_TOPICS \<le> i then (c1, UINT16_MAX)
          else (c1\<lparr>mf_topicNames := (mf_topicNames c1)(unat i := name), mf_topicMap := (mf_topicMap c1)(name \<mapsto> i)\<rparr>, i))"

definition mf_resolveTopic :: "center_fast \<Rightarrow> string \<Rightarrow> u16" where
  "mf_resolveTopic c name = (case mf_topicMap c name of Some i \<Rightarrow> i | None \<Rightarrow> UINT16_MAX)"

definition mf_addObserver :: "center_fast \<Rightarrow> u16 \<Rightarrow> nat option \<Rightarrow> nat \<Rightarrow> center_fast" where
  "mf_addObserver c topic cb ud =
     (if MC_FAST_MAX_TOPICS \<le> topic then c
      else c\<lparr>mf_observers := (mf_observers c)(unat topic :=
               mf_observers c (unat topic) @ [\<lparr>oe_callback = cb, oe_userData = ud\<rparr>])\<rparr>)"

definition mf_addObserverName :: "center_fast \<Rightarrow> string \<Rightarrow> nat option \<Rightarrow> nat \<Rightarrow> center_fast" where
  "mf_addObserverName c name cb ud =
     (let (c1, i) = mf_registerTopic c name in
      if i \<noteq> UINT16_MAX then mf_addObserver c1 i cb ud else c1)"

section \<open>Posting\<close>

definition mf_fill :: "bool \<Rightarrow> u16 \<Rightarrow> buffer \<Rightarrow> u64 \<Rightarrow> message_fast \<Rightarrow> fast_world \<Rightarrow> (message_fast \<times> fast_world) outcome" where
  "mf_fill mem topic dat sz old w =
     (let msg = old\<lparr>f_topicId := topic, f_size := ucast sz\<rparr> in
      if sz \<le> MC_FAST_INLINE_SIZE then
        (if dat \<noteq> None \<and> 0 < sz
         then obind (memcpy (f_inlineData msg) dat (unat sz)) (\<lambda>bs. Inr (msg\<lparr>f_flags := 0, f_inlineData := bs\<rparr>, w))
         else Inr (msg\<lparr>f_flags := 0\<rparr>, w))
      else if \<not> mem then Inr (msg\<lparr>f_flags := 1, f_managedData := None\<rparr>, w)
      else
        let (h, a) = heap_new (f_buffers w) (replicate (unat sz) None) in
        obind (if dat \<noteq> None
               then obind (heap_read h a) (\<lambda>old. obind (memcpy old dat (unat sz)) (\<lambda>bs. Inr (heap_write h a bs)))
               else Inr h)
          (\<lambda>h1. Inr (msg\<lparr>f_flags := 1, f_managedData := Some a\<rparr>, w\<lparr>f_buffers := h1\<rparr>)))"

text \<open>\<open>msg->reset(); m_pool.release(msg);\<close> of a poster whose push failed and of the dispatcher.\<close>

definition mf_recycle :: "message_fast pool \<Rightarrow> nat \<Rightarrow> fast_world \<Rightarrow> (message_fast pool \<times> fast_world) outcome" where
  "mf_recycle p n w =
     (case obj_read p n of
        None \<Rightarrow> Inl UseAfterFree
      | Some msg \<Rightarrow>
          obind (message_fast_reset msg w) (\<lambda>(msg1, w1).
            obind (release (obj_write p n msg1) (Some n)) (\<lambda>p1. Inr (p1, w1))))"

text \<open>
  The parts of \<open>post\<close>: taking a message from the pool and filling it in (\<open>acquire\<close> never returns
  null), the push, giving a refused message back; \<open>mf_push\<close> is \<open>post\<close> up to the count.
\<close>

definition mf_fetch :: "bool \<Rightarrow> center_fast \<Rightarrow> u16 \<Rightarrow> buffer \<Rightarrow> u64 \<Rightarrow> (center_fast \<times> nat) outcome" where
  "mf_fetch mem c topic dat sz =
     obind (acquire message_fast_new (mf_pool c)) (\<lambda>(p, n).
       case obj_read p n of
         None \<Rightarrow> Inl UseAfterFree
       | Some old \<Rightarrow>
           obind (mf_fill mem topic dat sz old (mf_world c)) (\<lambda>(msg, w).
             Inr (c\<lparr>mf_pool := obj_write p n msg, mf_world := w\<rparr>, n)))"

definition mf_offer :: "center_fast \<Rightarrow> nat \<Rightarrow> (center_fast \<times> bool) run" where
  "mf_offer c n = rbind (try_push (mf_queue c) n) (\<lambda>(q, b). ret (c\<lparr>mf_queue := q\<rparr>, b))"

definition mf_refuse :: "center_fast \<Rightarrow> nat \<Rightarrow> center_fast outcome" where
  "mf_refuse c n = obind (mf_recycle (mf_pool c) n (mf_world c)) (\<lambda>(p, w). Inr (c\<lparr>mf_pool := p, mf_world := w\<rparr>))"

definition mf_push :: "bool \<Rightarrow> center_fast \<Rightarrow> u16 \<Rightarrow> buffer \<Rightarrow> u64 \<Rightarrow> (center_fast \<times> bool) run" where
  "mf_push mem c topic dat sz =
     (if MC_FAST_MAX_TOPICS \<le> topic then ret (c, False)
      else
        rbind (Some (mf_fetch mem c topic dat sz)) (\<lambda>(c1, n).
        rbind (mf_offer c1 n) (\<lambda>(c2, b).
          if b then ret (c2, True)
          else rbind (Some (mf_refuse c2 n)) (\<lambda>c3. ret (c3, False)))))"

definition mf_count :: "center_fast \<Rightarrow> center_fast" where
  "mf_count c = c\<lparr>mf_posted := mf_posted c + 1\<rparr>"

definition mf_post :: "bool \<Rightarrow> center_fast \<Rightarrow> u16 \<Rightarrow> buffer \<Rightarrow> u64 \<Rightarrow> (center_fast \<times> bool) run" where
  "mf_post mem c topic dat sz =
     rbind (mf_push mem c topic dat sz) (\<lambda>(c1, b). ret (if b then mf_count c1 else c1, b))"

definition mf_postName :: "bool \<Rightarrow> center_fast \<Rightarrow> string \<Rightarrow> buffer \<Rightarrow> u64 \<Rightarrow> (center_fast \<times> bool) run" where
  "mf_postName mem c name dat sz =
     (let i = mf_resolveTopic c name;
          (c1, i1) = (if i = UINT16_MAX then mf_registerTopic c name else (c, i)) in
      mf_post mem c1 i1 dat sz)"

definition mf_pending :: "center_fast \<Rightarrow> u64" where
  "mf_pending c = mf_posted c - mf_dispatched c"

section \<open>Dispatching\<close>

fun mf_call_all :: "message_fast \<Rightarrow> observer_entry list \<Rightarrow> fast_world \<Rightarrow> fast_world outcome" where
  "mf_call_all msg [] w = Inr w"
| "mf_call_all msg (e # es) w =
     (case oe_callback e of
        None \<Rightarrow> mf_call_all msg es w
      | Some cb \<Rightarrow>
          obind (message_fast_view msg w) (\<lambda>v.
            mf_call_all msg es (w\<lparr>f_log := f_log w @ [FCall cb (f_topicId msg) v (ucast (f_size msg))]\<rparr>)))"

definition mf_dispatch :: "(nat \<Rightarrow> observer_entry list) \<Rightarrow> message_fast option \<Rightarrow> fast_world \<Rightarrow> fast_world outcome" where
  "mf_dispatch obs r w =
     (case r of
        None \<Rightarrow> Inr w
      | Some msg \<Rightarrow>
          if MC_FAST_MAX_TOPICS \<le> f_topicId msg then Inr w
          else mf_call_all msg (obs (unat (f_topicId msg))) w)"

text \<open>The body of both loops: pop a message, dispatch it, reset and release it, count it.\<close>

definition mf_consume :: "center_fast \<Rightarrow> (center_fast \<times> bool) run" where
  "mf_consume c =
     rbind (try_pop (mf_queue c)) (\<lambda>(q, r). case r of
       None \<Rightarrow> ret (c\<lparr>mf_queue := q\<rparr>, False)
     | Some n \<Rightarrow>
         (case obj_read (mf_pool c) n of
            None \<Rightarrow> Some (Inl UseAfterFree)
          | Some msg \<Rightarrow>
              rbind (Some (mf_dispatch (mf_observers c) (Some msg) (mf_world c))) (\<lambda>w.
              rbind (Some (mf_recycle (mf_pool c) n w)) (\<lambda>(p, w1).
                ret (c\<lparr>mf_queue := q, mf_pool := p, mf_world := w1, mf_dispatched := mf_dispatched c + 1\<rparr>, True)))))"

text \<open>
  One turn of \<open>dispatchLoop\<close>. On an empty queue the thread yields, or from 100 empty turns on
  sleeps until it is notified or 10 ms have passed: for the state both are a turn without
  effect, except that \<open>emptyCount\<close>, an \<open>int\<close>, is one higher.
\<close>

definition mf_round :: "center_fast \<Rightarrow> center_fast run" where
  "mf_round c =
     (case mf_thread c of
        None \<Rightarrow> ret c
      | Some Returned \<Rightarrow> ret c
      | Some (Looping emptyCount) \<Rightarrow>
          if mf_stopping c then ret (c\<lparr>mf_thread := Some Draining\<rparr>)
          else
            rbind (mf_consume c) (\<lambda>(c1, b).
              if b then ret (c1\<lparr>mf_thread := Some (Looping 0)\<rparr>)
              else if emptyCount + 1 < 2 ^ 31 then ret (c1\<lparr>mf_thread := Some (Looping (emptyCount + 1))\<rparr>)
              else Some (Inl SignedOverflow))
      | Some Draining \<Rightarrow>
          rbind (mf_consume c) (\<lambda>(c1, b). ret (if b then c1 else c1\<lparr>mf_thread := Some Returned\<rparr>)))"

partial_function (option) mf_join :: "center_fast \<Rightarrow> center_fast run" where
  "mf_join c = (if mf_thread c = Some Returned then ret c else rbind (mf_round c) (\<lambda>c1. mf_join c1))"

definition mf_stop :: "center_fast \<Rightarrow> center_fast run" where
  "mf_stop c =
     (if \<not> mf_running c then ret c
      else
        let c1 = c\<lparr>mf_stopping := True\<rparr> in
        rbind (if mf_thread c1 \<noteq> None then rbind (mf_join c1) (\<lambda>c2. ret (c2\<lparr>mf_thread := None\<rparr>)) else ret c1)
          (\<lambda>c3. ret (c3\<lparr>mf_running := False\<rparr>)))"

text \<open>
  \<open>flush\<close>: each number is one turn of its loop before the deadline, and says how many turns
  the dispatch thread makes while \<open>flush\<close> sleeps.
\<close>

fun mf_rounds :: "nat \<Rightarrow> center_fast \<Rightarrow> center_fast run" where
  "mf_rounds 0 c = ret c"
| "mf_rounds (Suc k) c = rbind (mf_round c) (\<lambda>c1. mf_rounds k c1)"

fun mf_flush :: "nat list \<Rightarrow> center_fast \<Rightarrow> center_fast run" where
  "mf_flush [] c = ret c"
| "mf_flush (k # ks) c = (if 0 < mf_pending c then rbind (mf_rounds k c) (\<lambda>c1. mf_flush ks c1) else ret c)"

text \<open>The destructor, which leaves the nodes of the pool and the buffers, and the singleton.\<close>

definition mf_destroy :: "center_fast \<Rightarrow> (message_fast pnode heap \<times> mbyte list heap) run" where
  "mf_destroy c =
     rbind (mf_stop c) (\<lambda>c1. rbind (pool_destroy (mf_pool c1)) (\<lambda>nds. ret (nds, f_buffers (mf_world c1))))"

definition mf_Default :: "center_fast option \<Rightarrow> bool \<Rightarrow> center_fast outcome" where
  "mf_Default inst autostart =
     (case inst of
        Some c \<Rightarrow> Inr c
      | None \<Rightarrow> obind mf_new (\<lambda>c. Inr (if autostart then mf_start c else c)))"

definition mf_DisposeDefault :: "center_fast option \<Rightarrow> center_fast option run" where
  "mf_DisposeDefault inst =
     (case inst of
        None \<Rightarrow> ret None
      | Some c \<Rightarrow> rbind (mf_stop c) (\<lambda>c1. rbind (mf_destroy c1) (\<lambda>_. ret None)))"

section \<open>Invariant and abstraction\<close>

text \<open>
  \<open>pool_clean\<close>: every node on the free list holds a message without a buffer. \<open>bufs_ok\<close>: each
  \<open>malloc\<close>ed buffer belongs to exactly one message in the ring. \<open>mf_events\<close> is what the ring
  stands for: for every message its topic, what its data leads to and its size.
\<close>

type_synonym fast_event = "u16 \<times> mbyte list option \<times> u64"

definition clean :: "message_fast \<Rightarrow> bool" where
  "clean m \<longleftrightarrow> f_managedData m = None \<and> length (f_inlineData m) = 64"

definition pool_clean :: "message_fast pool \<Rightarrow> nat set \<Rightarrow> bool" where
  "pool_clean p U \<longleftrightarrow> (\<exists>fl. lf_inv p fl U \<and> (\<forall>n \<in> set fl. \<exists>m. obj_read p n = Some m \<and> clean m))"

definition fmsg_ok :: "message_fast \<Rightarrow> bool" where
  "fmsg_ok m \<longleftrightarrow> f_topicId m < MC_FAST_MAX_TOPICS \<and>
     (f_flags m AND 1 = 0 \<longrightarrow> f_managedData m = None) \<and> length (f_inlineData m) = 64"

definition owned :: "message_fast list \<Rightarrow> nat list" where
  "owned ms = List.map_filter f_managedData ms"

definition bufs_ok :: "mbyte list heap \<Rightarrow> message_fast list \<Rightarrow> bool" where
  "bufs_ok h ms \<longleftrightarrow> heap_ok h \<and> distinct (owned ms) \<and> set (owned ms) = live h \<and> (\<forall>m \<in> set ms. fmsg_ok m)"

definition f_view :: "mbyte list heap \<Rightarrow> message_fast \<Rightarrow> mbyte list option" where
  "f_view h m =
     (if f_flags m AND 1 \<noteq> 0 then map_option (\<lambda>a. take (unat (f_size m)) (the (cells h a))) (f_managedData m)
      else Some (take (unat (f_size m)) (f_inlineData m)))"

definition f_event :: "mbyte list heap \<Rightarrow> message_fast \<Rightarrow> fast_event" where
  "f_event h m = (f_topicId m, f_view h m, ucast (f_size m))"

definition mf_msgs :: "center_fast \<Rightarrow> message_fast list" where
  "mf_msgs c = map (\<lambda>n. the (obj_read (mf_pool c) n)) (contents (mf_queue c))"

definition mf_events :: "center_fast \<Rightarrow> fast_event list" where
  "mf_events c = map (f_event (f_buffers (mf_world c))) (mf_msgs c)"

definition mf_ok :: "center_fast \<Rightarrow> bool" where
  "mf_ok c \<longleftrightarrow> ring_inv (mf_queue c) \<and> distinct (contents (mf_queue c)) \<and> pool_clean (mf_pool c) (set (contents (mf_queue c))) \<and>
     bufs_ok (f_buffers (mf_world c)) (mf_msgs c)"

text \<open>
  The same with nodes \<open>B\<close> that a poster has taken from the pool and not pushed yet, and what a
  node stands for.
\<close>

definition mf_held :: "nat list \<Rightarrow> center_fast \<Rightarrow> bool" where
  "mf_held B c \<longleftrightarrow> ring_inv (mf_queue c) \<and> distinct (contents (mf_queue c) @ B) \<and>
     pool_clean (mf_pool c) (set (contents (mf_queue c) @ B)) \<and>
     bufs_ok (f_buffers (mf_world c)) (map (\<lambda>n. the (obj_read (mf_pool c) n)) (contents (mf_queue c) @ B))"

definition node_event :: "center_fast \<Rightarrow> nat \<Rightarrow> fast_event" where
  "node_event c n = f_event (f_buffers (mf_world c)) (the (obj_read (mf_pool c) n))"

fun fast_calls :: "(nat \<Rightarrow> observer_entry list) \<Rightarrow> fast_event \<Rightarrow> fast_call list" where
  "fast_calls obs (t, v, sz) = map (\<lambda>cb. FCall cb t v sz) (List.map_filter oe_callback (obs (unat t)))"

text \<open>
  What a post stands for. An inline post from null would deliver what the recycled message
  held before, so that it is excluded. The size goes through 32 bits.
\<close>

definition fill_ok :: "buffer \<Rightarrow> u64 \<Rightarrow> bool" where
  "fill_ok dat sz = (case dat of None \<Rightarrow> sz = 0 \<or> MC_FAST_INLINE_SIZE < sz | Some bs \<Rightarrow> unat sz \<le> length bs)"

definition f_bytes :: "bool \<Rightarrow> buffer \<Rightarrow> u64 \<Rightarrow> mbyte list option" where
  "f_bytes mem dat sz =
     (if MC_FAST_INLINE_SIZE < sz \<and> \<not> mem then None
      else Some (take (unat (ucast sz :: u32)) (case dat of None \<Rightarrow> replicate (unat sz) None | Some bs \<Rightarrow> map Some (take (unat sz) bs))))"

definition f_posted :: "bool \<Rightarrow> u16 \<Rightarrow> buffer \<Rightarrow> u64 \<Rightarrow> fast_event" where
  "f_posted mem topic dat sz = (topic, f_bytes mem dat sz, ucast (ucast sz :: u32))"

section \<open>The pool of clean messages\<close>

lemma acquire_read:
  assumes "acquire init p = Inr (p', n)"
  shows "m_freeList p = Some n \<and> obj_read p' = obj_read p \<or> obj_read p' = (obj_read p)(n := Some init)"
proof (cases "m_freeList p")
  case None
  with assms have "obj_read p' = (obj_read p)(n := Some init)"
    by (auto simp: acquire_def popFree_def new_node_def heap_new_def obj_read_def)
  then show ?thesis by blast
next
  case (Some a)
  with assms have "n = a \<and> obj_read p' = obj_read p"
    by (cases "cells (nodes p) a") (auto simp: acquire_def popFree_def obj_read_def)
  with Some show ?thesis by blast
qed

lemma release_read:
  assumes "release p (Some n) = Inr p'"
  shows "a \<noteq> n \<Longrightarrow> obj_read p' a = obj_read p a" and "obj_read p' n = None \<or> obj_read p' n = obj_read p n"
  using assms
  by (auto simp: release_def pushFree_def delete_obj_def obj_read_def obind_eq_Inr split: if_splits option.splits)

lemma acquire_clean:
  assumes "pool_clean p U"
  shows "\<exists>p' n m. acquire message_fast_new p = Inr (p', n) \<and> n \<notin> U \<and> pool_clean p' (insert n U) \<and>
    obj_read p' n = Some m \<and> clean m \<and> (\<forall>a \<in> U. obj_read p' a = obj_read p a)"
proof -
  obtain fl where inv: "lf_inv p fl U" and fl: "\<forall>n \<in> set fl. \<exists>m. obj_read p n = Some m \<and> clean m"
    using assms by (auto simp: pool_clean_def)
  obtain p' n where p': "acquire message_fast_new p = Inr (p', n)" "n \<notin> U" "lf_inv p' (tl fl) (insert n U)"
      "\<forall>a \<in> U. obj_read p' a = obj_read p a"
    using acquire_ok [OF inv, of message_fast_new] by blast
  have init: "clean message_fast_new" by (simp add: clean_def message_fast_new_def MC_FAST_INLINE_SIZE_def)
  have first: "m_freeList p = Some n \<Longrightarrow> n \<in> set fl" using lf_invD(6) [OF inv] by (cases fl) auto
  have new: "n \<notin> set (tl fl)" using lf_invD(3) [OF p'(3)] by auto
  have all: "\<exists>m. obj_read p' a = Some m \<and> clean m" if a: "a \<in> set (n # tl fl)" for a
    using acquire_read [OF p'(1)]
  proof
    assume free: "m_freeList p = Some n \<and> obj_read p' = obj_read p"
    then have "a \<in> set fl" using a first by (cases fl) auto
    then show ?thesis using free fl by simp
  next
    assume read: "obj_read p' = (obj_read p)(n := Some message_fast_new)"
    show ?thesis
    proof (cases "a = n")
      case True
      then show ?thesis using read init by simp
    next
      case False
      then have "a \<in> set fl" using a by (cases fl) auto
      then show ?thesis using read fl False by simp
    qed
  qed
  then have "pool_clean p' (insert n U)" using p'(3) by (auto simp: pool_clean_def)
  moreover obtain m where "obj_read p' n = Some m" "clean m" using all [of n] by auto
  ultimately show ?thesis using p' by blast
qed

lemma write_clean:
  assumes "pool_clean p U" and "n \<in> U"
  shows "pool_clean (obj_write p n m) U" and "obj_read (obj_write p n m) a = (if a = n then Some m else obj_read p a)"
proof -
  obtain fl where inv: "lf_inv p fl U" and fl: "\<forall>n \<in> set fl. \<exists>m. obj_read p n = Some m \<and> clean m"
    using assms(1) by (auto simp: pool_clean_def)
  note w = obj_write_ok [OF inv assms(2)]
  show "obj_read (obj_write p n m) a = (if a = n then Some m else obj_read p a)" by (rule w)
  have "n \<notin> set fl" using lf_invD(3) [OF inv] assms(2) by auto
  then show "pool_clean (obj_write p n m) U" using w fl unfolding pool_clean_def by (metis (no_types, lifting))
qed

lemma release_clean:
  assumes "pool_clean p U" and "n \<in> U" and "obj_read p n = Some m" and "clean m"
  shows "\<exists>p'. release p (Some n) = Inr p' \<and> pool_clean p' (U - {n}) \<and> (\<forall>a. a \<noteq> n \<longrightarrow> obj_read p' a = obj_read p a)"
proof -
  obtain fl where inv: "lf_inv p fl U" and fl: "\<forall>n \<in> set fl. \<exists>m. obj_read p n = Some m \<and> clean m"
    using assms(1) by (auto simp: pool_clean_def)
  let ?fl = "if 0 < m_maxSize p \<and> m_maxSize p < m_allocated p then fl else n # fl"
  obtain p' where p': "release p (Some n) = Inr p'" "lf_inv p' ?fl (U - {n})"
    using release_ok [OF inv assms(2)] by blast
  have sub: "set ?fl \<subseteq> insert n (set fl)" by (simp add: subset_insertI)
  have "\<exists>m. obj_read p' a = Some m \<and> clean m" if a: "a \<in> set ?fl" for a
  proof (cases "a = n")
    case True
    have "a \<in> live (nodes p')" using lf_invD(4) [OF p'(2)] a by blast
    then have "obj_read p' n \<noteq> None" using True by (auto simp: obj_read_def)
    then show ?thesis using release_read(2) [OF p'(1)] assms(3,4) True by auto
  next
    case False
    then show ?thesis using release_read(1) [OF p'(1) False] fl subsetD [OF sub a] by simp
  qed
  then have "pool_clean p' (U - {n})" using p'(2) unfolding pool_clean_def by blast
  then show ?thesis using p'(1) release_read(1) [OF p'(1)] by simp
qed

section \<open>Messages and their buffers\<close>

lemma owned_simps [simp]:
  "owned [] = []"
  "owned (m # ms) = (case f_managedData m of None \<Rightarrow> owned ms | Some a \<Rightarrow> a # owned ms)"
  "owned (ms @ ms') = owned ms @ owned ms'"
  by (simp_all add: owned_def map_filter_def split: option.split)

lemma owned_iff: "a \<in> set (owned ms) \<longleftrightarrow> (\<exists>m \<in> set ms. f_managedData m = Some a)"
  by (induction ms) (auto split: option.splits)

lemma f_event_cong:
  assumes "\<And>a. a \<in> set (owned ms) \<Longrightarrow> cells h' a = cells h a"
  shows "map (f_event h') ms = map (f_event h) ms"
proof (rule map_cong [OF refl])
  fix m
  assume "m \<in> set ms"
  then have "cells h' a = cells h a" if "f_managedData m = Some a" for a
    using assms that by (auto simp: owned_iff)
  then show "f_event h' m = f_event h m" by (cases "f_managedData m") (simp_all add: f_event_def f_view_def)
qed

text \<open>A message is added with its new buffer, or taken away with it.\<close>

definition gives :: "mbyte list heap \<Rightarrow> message_fast \<Rightarrow> mbyte list heap \<Rightarrow> bool" where
  "gives h m h' \<longleftrightarrow>
     (case f_managedData m of
        None \<Rightarrow> h' = h
      | Some a \<Rightarrow> a \<notin> live h \<and> (\<exists>bs. cells h' = (cells h)(a \<mapsto> bs)) \<and> heap_ok h')"

definition takes :: "mbyte list heap \<Rightarrow> message_fast \<Rightarrow> mbyte list heap \<Rightarrow> bool" where
  "takes h m h' \<longleftrightarrow> (case f_managedData m of None \<Rightarrow> h' = h | Some a \<Rightarrow> h' = heap_delete h a)"

lemma bufs_add:
  assumes "bufs_ok h ms" and "gives h m h'" and "fmsg_ok m"
  shows "bufs_ok h' (ms @ [m])" and "map (f_event h') ms = map (f_event h) ms"
proof -
  show "map (f_event h') ms = map (f_event h) ms"
  proof (rule f_event_cong)
    fix a
    assume "a \<in> set (owned ms)"
    then have "a \<in> live h" using assms(1) by (simp add: bufs_ok_def)
    then show "cells h' a = cells h a"
      using assms(2) by (cases "f_managedData m") (simp_all add: gives_def, metis fun_upd_other)
  qed
  show "bufs_ok h' (ms @ [m])"
    using assms by (cases "f_managedData m") (auto simp: bufs_ok_def gives_def)
qed

lemma bufs_drop:
  assumes "bufs_ok h (m # ms)" and "takes h m h'"
  shows "bufs_ok h' ms" and "map (f_event h') ms = map (f_event h) ms"
proof -
  show "map (f_event h') ms = map (f_event h) ms"
    using assms by (intro f_event_cong) (cases "f_managedData m", auto simp: takes_def bufs_ok_def)
  show "bufs_ok h' ms"
    using assms by (cases "f_managedData m") (auto simp: bufs_ok_def takes_def)
qed

lemma gives_takes: "gives h m h' \<Longrightarrow> takes h' m h'' \<Longrightarrow> cells h'' = cells h \<and> (heap_ok h \<longrightarrow> heap_ok h'')"
  by (cases "f_managedData m") (auto simp: gives_def takes_def fun_eq_iff domIff)

lemma bufs_ok_cells:
  assumes "bufs_ok h ms" and "cells h' = cells h" and "heap_ok h'"
  shows "bufs_ok h' ms" and "map (f_event h') ms = map (f_event h) ms"
  using assms by (simp_all add: bufs_ok_def f_event_def f_view_def)

lemma small_size: "sz \<le> MC_FAST_INLINE_SIZE \<Longrightarrow> unat (ucast sz :: u32) = unat sz \<and> unat sz \<le> 64"
  by (simp add: MC_FAST_INLINE_SIZE_def word_le_nat_alt unsigned_ucast_eq take_bit_nat_eq_self_iff)

text \<open>What a poster writes into a recycled message.\<close>

lemmas filled_defs = fmsg_ok_def gives_def f_event_def f_view_def f_posted_def f_bytes_def

lemma mf_fill_inline:
  assumes old: "clean old" and fill: "fill_ok dat sz" and topic: "topic < MC_FAST_MAX_TOPICS" and small: "sz \<le> MC_FAST_INLINE_SIZE"
  shows "\<exists>m. mf_fill mem topic dat sz old w = Inr (m, w) \<and> fmsg_ok m \<and>
    gives (f_buffers w) m (f_buffers w) \<and> f_event (f_buffers w) m = f_posted mem topic dat sz"
proof -
  have old': "f_managedData old = None" "length (f_inlineData old) = 64" using old by (simp_all add: clean_def)
  let ?m = "old\<lparr>f_topicId := topic, f_size := ucast sz, f_flags := 0\<rparr>"
  have n: "unat (ucast sz :: u32) = unat sz" "unat sz \<le> 64" using small_size [OF small] by simp_all
  show ?thesis
  proof (cases "dat \<noteq> None \<and> 0 < sz")
    case True
    then obtain bs where bs: "dat = Some bs" "unat sz \<le> length bs" using fill by (auto simp: fill_ok_def)
    let ?m' = "?m\<lparr>f_inlineData := map Some (take (unat sz) bs) @ drop (unat sz) (f_inlineData old)\<rparr>"
    have "mf_fill mem topic dat sz old w = Inr (?m', w)" using True bs small n old' by (simp add: mf_fill_def)
    then show ?thesis using old' topic small n bs by (simp add: filled_defs not_less)
  next
    case False
    then have zero: "sz = 0" using fill small by (cases dat) (auto simp: fill_ok_def word_gt_0)
    have "mf_fill mem topic dat sz old w = Inr (?m, w)" using zero small by (simp add: mf_fill_def)
    then show ?thesis using old' topic zero small by (simp add: filled_defs not_less)
  qed
qed

lemma mf_fill_managed:
  assumes old: "clean old" and fill: "fill_ok dat sz" and topic: "topic < MC_FAST_MAX_TOPICS" and heap: "heap_ok (f_buffers w)"
    and large: "\<not> sz \<le> MC_FAST_INLINE_SIZE" and mem: mem
  shows "\<exists>m w1. mf_fill mem topic dat sz old w = Inr (m, w1) \<and> f_log w1 = f_log w \<and> fmsg_ok m \<and>
    gives (f_buffers w) m (f_buffers w1) \<and> f_event (f_buffers w1) m = f_posted mem topic dat sz"
proof -
  have old': "f_managedData old = None" "length (f_inlineData old) = 64" using old by (simp_all add: clean_def)
  obtain h a where new: "heap_new (f_buffers w) (replicate (unat sz) None :: mbyte list) = (h, a)" by fastforce
  then have h: "cells h = (cells (f_buffers w))(a \<mapsto> replicate (unat sz) None)" "heap_ok h" "a \<notin> live (f_buffers w)"
    using heap_ok_new [OF heap, of "replicate (unat sz) None"] heap_ok_fresh [OF heap] by (auto simp: heap_new_def)
  let ?m = "old\<lparr>f_topicId := topic, f_size := ucast sz, f_flags := 1, f_managedData := Some a\<rparr>"
  let ?bytes = "case dat of None \<Rightarrow> replicate (unat sz) None | Some bs \<Rightarrow> map Some (take (unat sz) bs)"
  obtain h1 where h1: "mf_fill mem topic dat sz old w = Inr (?m, w\<lparr>f_buffers := h1\<rparr>)"
      "cells h1 = (cells (f_buffers w))(a \<mapsto> ?bytes)" "heap_ok h1"
  proof (cases dat)
    case None
    then have "mf_fill mem topic dat sz old w = Inr (?m, w\<lparr>f_buffers := h\<rparr>)" using large mem new by (simp add: mf_fill_def)
    with that [of h] show thesis using h None by simp
  next
    case (Some bs)
    let ?h = "heap_write h a (map Some (take (unat sz) bs))"
    have len: "unat sz \<le> length bs" using fill Some by (simp add: fill_ok_def)
    then have "mf_fill mem topic dat sz old w = Inr (?m, w\<lparr>f_buffers := ?h\<rparr>)" using Some large mem new h
      by (simp add: mf_fill_def)
    moreover have "heap_ok ?h" using h by (intro heap_ok_write) auto
    ultimately show thesis using that [of ?h] h Some by simp
  qed
  show ?thesis
    by (intro exI conjI, rule h1(1))
      (use h h1(2,3) old' topic mem in \<open>auto simp: filled_defs\<close>)
qed

lemma mf_fill_ok:
  assumes old: "clean old" and fill: "fill_ok dat sz" and topic: "topic < MC_FAST_MAX_TOPICS" and heap: "heap_ok (f_buffers w)"
  shows "\<exists>m w1. mf_fill mem topic dat sz old w = Inr (m, w1) \<and> f_log w1 = f_log w \<and> fmsg_ok m \<and>
    gives (f_buffers w) m (f_buffers w1) \<and> f_event (f_buffers w1) m = f_posted mem topic dat sz"
proof (cases "sz \<le> MC_FAST_INLINE_SIZE")
  case True
  then show ?thesis using mf_fill_inline [OF old fill topic] by blast
next
  case large: False
  show ?thesis
  proof (cases mem)
    case True
    then show ?thesis using mf_fill_managed [OF old fill topic heap large] by blast
  next
    case False
    let ?m = "old\<lparr>f_topicId := topic, f_size := ucast sz, f_flags := 1, f_managedData := None\<rparr>"
    have "mf_fill mem topic dat sz old w = Inr (?m, w)" using large False by (simp add: mf_fill_def)
    then show ?thesis using old topic large False by (simp add: filled_defs clean_def not_le)
  qed
qed

lemma mf_recycle_ok:
  assumes p: "pool_clean p U" "n \<in> U" "obj_read p n = Some m" "length (f_inlineData m) = 64"
    and buf: "\<And>a. f_managedData m = Some a \<Longrightarrow> a \<in> live (f_buffers w)"
  shows "\<exists>p1 w1. mf_recycle p n w = Inr (p1, w1) \<and> pool_clean p1 (U - {n}) \<and> (\<forall>a. a \<noteq> n \<longrightarrow> obj_read p1 a = obj_read p a) \<and>
    f_log w1 = f_log w \<and> takes (f_buffers w) m (f_buffers w1)"
proof -
  let ?m1 = "m\<lparr>f_managedData := None, f_topicId := 0, f_flags := 0, f_size := 0, f_refCount := 0\<rparr>"
  have m1: "clean ?m1" using p(4) by (simp add: clean_def)
  obtain w1 where reset: "message_fast_reset m w = Inr (?m1, w1)" "f_log w1 = f_log w" "takes (f_buffers w) m (f_buffers w1)"
  proof (cases "f_managedData m")
    case None
    then show thesis using that [of w] by (simp add: message_fast_reset_def takes_def)
  next
    case (Some a)
    then show thesis using that [of "w\<lparr>f_buffers := heap_delete (f_buffers w) a\<rparr>"] buf
      by (simp add: message_fast_reset_def takes_def del: domIff)
  qed
  note wr = write_clean [OF p(1,2), of ?m1]
  obtain p1 where "release (obj_write p n ?m1) (Some n) = Inr p1" "pool_clean p1 (U - {n})"
      "\<forall>a. a \<noteq> n \<longrightarrow> obj_read p1 a = obj_read (obj_write p n ?m1) a"
    using release_clean [OF wr(1) p(2), of ?m1] wr(2) m1 by auto
  then show ?thesis using p(3) reset wr(2) by (simp add: mf_recycle_def)
qed

lemma message_fast_view_ok:
  assumes "fmsg_ok m" and "\<And>a. f_managedData m = Some a \<Longrightarrow> a \<in> live (f_buffers w)"
  shows "message_fast_view m w = Inr (f_view (f_buffers w) m)"
  using assms by (cases "f_managedData m") (auto simp: message_fast_view_def message_fast_data_def f_view_def)

lemma mf_call_all_ok:
  assumes "fmsg_ok m" and "\<And>a. f_managedData m = Some a \<Longrightarrow> a \<in> live (f_buffers w)"
  shows "mf_call_all m es w = Inr (w\<lparr>f_log := f_log w @
    map (\<lambda>cb. FCall cb (f_topicId m) (f_view (f_buffers w) m) (ucast (f_size m))) (List.map_filter oe_callback es)\<rparr>)"
  using assms
proof (induction es arbitrary: w)
  case Nil
  then show ?case by (simp add: map_filter_simps)
next
  case (Cons e es)
  show ?case
  proof (cases "oe_callback e")
    case None
    then show ?thesis using Cons by (simp add: map_filter_simps)
  next
    case (Some cb)
    let ?w = "w\<lparr>f_log := f_log w @ [FCall cb (f_topicId m) (f_view (f_buffers w) m) (ucast (f_size m))]\<rparr>"
    have "f_managedData m = Some a \<Longrightarrow> a \<in> live (f_buffers ?w)" for a using Cons.prems(2) by simp
    from Cons.IH [OF Cons.prems(1) this] show ?thesis
      using Some message_fast_view_ok [OF Cons.prems(1), of w] Cons.prems(2) by (simp add: map_filter_simps)
  qed
qed

section \<open>The operations\<close>

lemma mf_okD:
  assumes "mf_ok c"
  shows "ring_inv (mf_queue c)" and "distinct (contents (mf_queue c))" and "pool_clean (mf_pool c) (set (contents (mf_queue c)))"
    and "bufs_ok (f_buffers (mf_world c)) (mf_msgs c)"
  using assms by (simp_all add: mf_ok_def)

lemma length_mf_events [simp]: "length (mf_events c) = length (contents (mf_queue c))"
  by (simp add: mf_events_def mf_msgs_def)

lemma mf_count_ok [simp]:
  "mf_ok (mf_count c) = mf_ok c" "mf_events (mf_count c) = mf_events c" "mf_world (mf_count c) = mf_world c"
  "mf_queue (mf_count c) = mf_queue c" "mf_thread (mf_count c) = mf_thread c" "mf_stopping (mf_count c) = mf_stopping c"
  "mf_observers (mf_count c) = mf_observers c" "mf_dispatched (mf_count c) = mf_dispatched c"
  "mf_posted (mf_count c) = mf_posted c + 1" "mf_running (mf_count c) = mf_running c"
  by (simp_all add: mf_count_def mf_ok_def mf_events_def mf_msgs_def)

text \<open>What a step leaves alone.\<close>

definition same_control :: "center_fast \<Rightarrow> center_fast \<Rightarrow> bool" where
  "same_control c c' \<longleftrightarrow> mf_thread c' = mf_thread c \<and> mf_stopping c' = mf_stopping c \<and> mf_running c' = mf_running c \<and>
     mf_observers c' = mf_observers c \<and> capacity (mf_queue c') = capacity (mf_queue c)"

lemma mf_held_Nil: "mf_held [] c = mf_ok c"
  by (simp add: mf_held_def mf_ok_def mf_msgs_def)

lemma mf_heldD:
  assumes "mf_held B c"
  shows "ring_inv (mf_queue c)" and "distinct (contents (mf_queue c) @ B)" and "pool_clean (mf_pool c) (set (contents (mf_queue c) @ B))"
    and "bufs_ok (f_buffers (mf_world c)) (map (\<lambda>n. the (obj_read (mf_pool c) n)) (contents (mf_queue c) @ B))"
  using assms by (simp_all only: mf_held_def)

lemma mf_events_nodes: "mf_events c = map (node_event c) (contents (mf_queue c))"
  by (simp add: mf_events_def mf_msgs_def node_event_def)

lemma bufs_ok_snoc: "bufs_ok h (ms @ [m]) = bufs_ok h (m # ms)"
  by (auto simp: bufs_ok_def split: option.splits)

lemma mf_fetch_ok:
  assumes ok: "mf_ok c" and fill: "fill_ok dat sz" and topic: "topic < MC_FAST_MAX_TOPICS"
  shows "\<exists>c' n. mf_fetch mem c topic dat sz = Inr (c', n) \<and> mf_held [n] c' \<and> same_control c c' \<and> mf_events c' = mf_events c \<and>
    node_event c' n = f_posted mem topic dat sz \<and> gives (f_buffers (mf_world c)) (the (obj_read (mf_pool c') n)) (f_buffers (mf_world c')) \<and>
    f_log (mf_world c') = f_log (mf_world c) \<and> mf_queue c' = mf_queue c \<and> mf_posted c' = mf_posted c \<and> mf_dispatched c' = mf_dispatched c"
proof -
  note D = mf_okD [OF ok]
  let ?ns = "contents (mf_queue c)"
  let ?w = "mf_world c"
  obtain p n old where acq: "acquire message_fast_new (mf_pool c) = Inr (p, n)" "n \<notin> set ?ns" "pool_clean p (insert n (set ?ns))"
      "obj_read p n = Some old" "clean old" "\<forall>a \<in> set ?ns. obj_read p a = obj_read (mf_pool c) a"
    using acquire_clean [OF D(3)] by blast
  have heap: "heap_ok (f_buffers ?w)" using D(4) by (simp add: bufs_ok_def)
  obtain m w where fm: "mf_fill mem topic dat sz old ?w = Inr (m, w)" "f_log w = f_log ?w" "fmsg_ok m"
      "gives (f_buffers ?w) m (f_buffers w)" "f_event (f_buffers w) m = f_posted mem topic dat sz"
    using mf_fill_ok [OF acq(5) fill topic heap] by blast
  let ?p = "obj_write p n m"
  let ?c = "c\<lparr>mf_pool := ?p, mf_world := w\<rparr>"
  have wr: "pool_clean ?p (insert n (set ?ns))" "obj_read ?p a = (if a = n then Some m else obj_read p a)" for a
    by (rule write_clean [OF acq(3)]; simp)+
  have msgs: "map (\<lambda>a. the (obj_read ?p a)) ?ns = mf_msgs c"
    using acq(2,6) wr(2) by (simp add: mf_msgs_def cong: map_cong)
  note add = bufs_add [OF D(4) fm(4,3)]
  have "the (obj_read ?p n) = m" using wr(2) by simp
  then have "mf_held [n] ?c" using D(1,2) acq(2) wr(1) add(1) by (simp add: mf_held_def msgs)
  moreover have "mf_events ?c = mf_events c" using add(2) msgs by (simp add: mf_events_def mf_msgs_def [of ?c])
  moreover have "node_event ?c n = f_posted mem topic dat sz" using wr(2) fm(5) by (simp add: node_event_def)
  moreover have "mf_fetch mem c topic dat sz = Inr (?c, n)" using acq(1,4) fm(1) by (simp add: mf_fetch_def)
  ultimately show ?thesis using fm(2,4) wr(2) by (intro exI [of _ ?c] exI [of _ n]) (simp add: same_control_def)
qed

lemma mf_offer_ok:
  assumes held: "mf_held [n] c" and room: "0 < push_room (mf_queue c)"
  shows "\<exists>c' b. mf_offer c n = ret (c', b) \<and> b = (length (mf_events c) < capacity (mf_queue c)) \<and>
    (if b then mf_ok c' \<and> mf_events c' = mf_events c @ [node_event c n] else c' = c) \<and> same_control c c' \<and>
    mf_world c' = mf_world c \<and> mf_posted c' = mf_posted c \<and> mf_dispatched c' = mf_dispatched c \<and>
    push_room (mf_queue c) \<le> Suc (push_room (mf_queue c'))"
proof -
  note D = mf_heldD [OF held]
  let ?ns = "contents (mf_queue c)"
  show ?thesis
  proof (cases "length ?ns < capacity (mf_queue c)")
    case True
    obtain q where q: "try_push (mf_queue c) n = ret (q, True)" "ring_inv q" "contents q = ?ns @ [n]"
        "capacity q = capacity (mf_queue c)" "push_room q = push_room (mf_queue c) - 1"
      using try_push_ok [OF D(1) True room] by blast
    let ?c = "c\<lparr>mf_queue := q\<rparr>"
    have "mf_ok ?c" using D q(2) by (simp add: mf_ok_def mf_msgs_def q(3))
    moreover have "mf_events ?c = mf_events c @ [node_event c n]" by (simp add: mf_events_nodes q(3) node_event_def)
    ultimately show ?thesis using True q(1,4,5) by (intro exI [of _ ?c] exI [of _ True]) (simp add: mf_offer_def same_control_def)
  next
    case False
    then have "length ?ns = capacity (mf_queue c)" using length_contents_le [OF D(1)] by simp
    then have "try_push (mf_queue c) n = ret (mf_queue c, False)" by (rule try_push_full [OF D(1)])
    then show ?thesis using False by (intro exI [of _ c] exI [of _ False]) (simp add: mf_offer_def same_control_def)
  qed
qed

lemma mf_refuse_ok:
  assumes held: "mf_held [n] c"
  shows "\<exists>c'. mf_refuse c n = Inr c' \<and> mf_ok c' \<and> same_control c c' \<and> mf_events c' = mf_events c \<and>
    takes (f_buffers (mf_world c)) (the (obj_read (mf_pool c) n)) (f_buffers (mf_world c')) \<and> f_log (mf_world c') = f_log (mf_world c) \<and>
    mf_queue c' = mf_queue c \<and> mf_posted c' = mf_posted c \<and> mf_dispatched c' = mf_dispatched c"
proof -
  note D = mf_heldD [OF held]
  let ?ns = "contents (mf_queue c)" and ?w = "mf_world c"
  obtain fl where "lf_inv (mf_pool c) fl (set (?ns @ [n]))" using D(3) by (auto simp: pool_clean_def)
  then obtain m where m: "obj_read (mf_pool c) n = Some m" using obj_read_ok [of "mf_pool c" fl _ n] by auto
  have bufs: "bufs_ok (f_buffers ?w) (m # mf_msgs c)" using D(4) m by (simp add: mf_msgs_def bufs_ok_snoc)
  then have msg: "length (f_inlineData m) = 64" and buf: "f_managedData m = Some a \<Longrightarrow> a \<in> live (f_buffers ?w)" for a
    by (auto simp: bufs_ok_def fmsg_ok_def)
  obtain p w where rec: "mf_recycle (mf_pool c) n ?w = Inr (p, w)" "pool_clean p (set (?ns @ [n]) - {n})"
      "\<forall>a. a \<noteq> n \<longrightarrow> obj_read p a = obj_read (mf_pool c) a" "f_log w = f_log ?w" "takes (f_buffers ?w) m (f_buffers w)"
    using mf_recycle_ok [OF D(3) _ m msg buf] by auto
  let ?c = "c\<lparr>mf_pool := p, mf_world := w\<rparr>"
  have n: "n \<notin> set ?ns" "distinct ?ns" using D(2) by simp_all
  have m': "mf_msgs ?c = mf_msgs c" using rec(3) n(1) by (auto simp: mf_msgs_def)
  note drop = bufs_drop [OF bufs rec(5)]
  have "mf_ok ?c" unfolding mf_ok_def m' using D(1) n rec(2) drop(1) by simp
  moreover have "mf_events ?c = mf_events c" unfolding mf_events_def m' using drop(2) by simp
  moreover have "mf_refuse c n = Inr ?c" using rec(1) by (simp add: mf_refuse_def)
  ultimately show ?thesis using rec(4,5) m by (simp add: same_control_def)
qed

lemma same_control_trans: "same_control c c1 \<Longrightarrow> same_control c1 c2 \<Longrightarrow> same_control c c2"
  by (simp add: same_control_def)

lemma mf_push_ok:
  assumes ok: "mf_ok c" and fill: "fill_ok dat sz" and room: "0 < push_room (mf_queue c)"
  shows "\<exists>c' b. mf_push mem c topic dat sz = ret (c', b) \<and> mf_ok c' \<and> same_control c c' \<and>
    b = (topic < MC_FAST_MAX_TOPICS \<and> length (mf_events c) < capacity (mf_queue c)) \<and>
    mf_events c' = mf_events c @ (if b then [f_posted mem topic dat sz] else []) \<and>
    f_log (mf_world c') = f_log (mf_world c) \<and> (\<not> b \<longrightarrow> cells (f_buffers (mf_world c')) = cells (f_buffers (mf_world c))) \<and>
    mf_posted c' = mf_posted c \<and> mf_dispatched c' = mf_dispatched c \<and> push_room (mf_queue c) \<le> Suc (push_room (mf_queue c'))"
proof (cases "topic < MC_FAST_MAX_TOPICS")
  case False
  then show ?thesis using ok by (simp add: mf_push_def same_control_def not_less)
next
  case topic: True
  from mf_fetch_ok [OF ok fill topic, of mem] obtain c1 n where
    c1: "mf_fetch mem c topic dat sz = Inr (c1, n)" "mf_held [n] c1" "same_control c c1" "mf_events c1 = mf_events c"
      "node_event c1 n = f_posted mem topic dat sz" "gives (f_buffers (mf_world c)) (the (obj_read (mf_pool c1) n)) (f_buffers (mf_world c1))"
      "f_log (mf_world c1) = f_log (mf_world c)" "mf_queue c1 = mf_queue c" "mf_posted c1 = mf_posted c" "mf_dispatched c1 = mf_dispatched c"
    by blast
  have room1: "0 < push_room (mf_queue c1)" using room c1(8) by simp
  from mf_offer_ok [OF c1(2) room1] obtain c2 b where
    c2: "mf_offer c1 n = ret (c2, b)" "b = (length (mf_events c1) < capacity (mf_queue c1))"
      "if b then mf_ok c2 \<and> mf_events c2 = mf_events c1 @ [node_event c1 n] else c2 = c1" "same_control c1 c2"
      "mf_world c2 = mf_world c1" "mf_posted c2 = mf_posted c1" "mf_dispatched c2 = mf_dispatched c1"
      "push_room (mf_queue c1) \<le> Suc (push_room (mf_queue c2))" by blast
  have push: "mf_push mem c topic dat sz = (if b then ret (c2, True) else rbind (Some (mf_refuse c2 n)) (\<lambda>c3. ret (c3, False)))"
    using topic c1(1) c2(1) by (simp add: mf_push_def not_less [symmetric])
  show ?thesis
  proof (cases b)
    case True
    then show ?thesis using push topic c1 c2 same_control_trans [OF c1(3) c2(4)]
      by (intro exI [of _ c2] exI [of _ True]) simp
  next
    case False
    from mf_refuse_ok [OF c1(2)] obtain c3 where
      c3: "mf_refuse c1 n = Inr c3" "mf_ok c3" "same_control c1 c3" "mf_events c3 = mf_events c1"
        "takes (f_buffers (mf_world c1)) (the (obj_read (mf_pool c1) n)) (f_buffers (mf_world c3))"
        "f_log (mf_world c3) = f_log (mf_world c1)" "mf_queue c3 = mf_queue c1" "mf_posted c3 = mf_posted c1"
        "mf_dispatched c3 = mf_dispatched c1" by blast
    have "cells (f_buffers (mf_world c3)) = cells (f_buffers (mf_world c))" using gives_takes [OF c1(6) c3(5)] by simp
    then show ?thesis using False push topic c1 c2(2,3) c3 same_control_trans [OF c1(3) c3(3)]
      by (intro exI [of _ c3] exI [of _ False]) simp
  qed
qed

lemma mf_consume_empty:
  assumes "mf_held B c" and "mf_events c = []"
  shows "mf_consume c = ret (c, False)"
proof -
  have "contents (mf_queue c) = []" using assms(2) by (simp add: mf_events_def mf_msgs_def)
  then show ?thesis using try_pop_empty [OF mf_heldD(1) [OF assms(1)]] by (simp add: mf_consume_def)
qed

lemma mf_consume_held:
  assumes held: "mf_held B c" and ev: "mf_events c = e # es"
  shows "\<exists>c'. mf_consume c = ret (c', True) \<and> mf_held B c' \<and> same_control c c' \<and> mf_events c' = es \<and>
    (\<forall>n \<in> set B. node_event c' n = node_event c n) \<and> f_log (mf_world c') = f_log (mf_world c) @ fast_calls (mf_observers c) e \<and>
    mf_posted c' = mf_posted c \<and> mf_dispatched c' = mf_dispatched c + 1 \<and> push_room (mf_queue c') = push_room (mf_queue c)"
proof -
  note D = mf_heldD [OF held]
  let ?w = "mf_world c"
  obtain n ns where ns: "contents (mf_queue c) = n # ns" using ev by (cases "contents (mf_queue c)") (simp_all add: mf_events_def mf_msgs_def)
  obtain q where q: "try_pop (mf_queue c) = ret (q, Some n)" "ring_inv q" "contents q = ns"
      "capacity q = capacity (mf_queue c)" "push_room q = push_room (mf_queue c)"
    using try_pop_ok [OF D(1) ns] by blast
  obtain fl where "lf_inv (mf_pool c) fl (set (contents (mf_queue c) @ B))" using D(3) by (auto simp: pool_clean_def)
  then obtain m where m: "obj_read (mf_pool c) n = Some m" using obj_read_ok [of "mf_pool c" fl _ n] ns by auto
  let ?ms = "map (\<lambda>n. the (obj_read (mf_pool c) n)) (ns @ B)"
  have bufs: "bufs_ok (f_buffers ?w) (m # ?ms)" using D(4) m by (simp add: ns)
  have e: "e = f_event (f_buffers ?w) m" and es: "es = map (node_event c) ns" using ev m by (simp_all add: mf_events_nodes ns node_event_def)
  have msg: "fmsg_ok m" and buf: "f_managedData m = Some a \<Longrightarrow> a \<in> live (f_buffers ?w)" for a
    using bufs by (auto simp: bufs_ok_def)
  let ?w1 = "?w\<lparr>f_log := f_log ?w @ fast_calls (mf_observers c) e\<rparr>"
  have valid: "\<not> MC_FAST_MAX_TOPICS \<le> f_topicId m" using msg by (simp add: fmsg_ok_def not_le)
  have disp: "mf_dispatch (mf_observers c) (Some m) ?w = Inr ?w1"
    using mf_call_all_ok [OF msg buf] valid by (simp add: mf_dispatch_def e f_event_def)
  have len: "length (f_inlineData m) = 64" using msg by (simp add: fmsg_ok_def)
  have buf1: "f_managedData m = Some a \<Longrightarrow> a \<in> live (f_buffers ?w1)" for a using buf by simp
  obtain p w where rec: "mf_recycle (mf_pool c) n ?w1 = Inr (p, w)" "pool_clean p (set (contents (mf_queue c) @ B) - {n})"
      "\<forall>a. a \<noteq> n \<longrightarrow> obj_read p a = obj_read (mf_pool c) a" "f_log w = f_log ?w1" "takes (f_buffers ?w1) m (f_buffers w)"
    using mf_recycle_ok [OF D(3) _ m len buf1] ns by auto
  have n: "n \<notin> set (ns @ B)" "distinct (ns @ B)" using D(2) ns by simp_all
  have drop: "bufs_ok (f_buffers w) ?ms" "map (f_event (f_buffers w)) ?ms = map (f_event (f_buffers ?w)) ?ms"
    using bufs_drop [OF bufs, of "f_buffers w"] rec(5) by simp_all
  let ?c = "c\<lparr>mf_queue := q, mf_pool := p, mf_world := w, mf_dispatched := mf_dispatched c + 1\<rparr>"
  have m': "map (\<lambda>n. the (obj_read p n)) (ns @ B) = ?ms" using rec(3) n(1) by (intro map_cong) auto
  have nodes: "node_event ?c a = node_event c a" if "a \<in> set (ns @ B)" for a
  proof -
    have "the (obj_read p a) = the (obj_read (mf_pool c) a)" using rec(3) n(1) that by metis
    moreover have "f_event (f_buffers w) (the (obj_read (mf_pool c) a)) = f_event (f_buffers ?w) (the (obj_read (mf_pool c) a))"
      using drop(2) that by (auto simp del: map_append)
    ultimately show ?thesis by (simp add: node_event_def)
  qed
  have "set (contents (mf_queue c) @ B) - {n} = set (ns @ B)" using n ns by auto
  moreover have "bufs_ok (f_buffers w) (map (\<lambda>n. the (obj_read p n)) (ns @ B))" unfolding m' by (rule drop(1))
  ultimately have "mf_held B ?c"
    unfolding mf_held_def using q(2,3) n(2) rec(2) by (simp del: map_append set_append distinct_append)
  moreover have "mf_events ?c = es" unfolding es mf_events_nodes using nodes by (simp add: q(3))
  moreover have "mf_consume c = ret (?c, True)" using q(1) m disp rec(1) by (simp add: mf_consume_def)
  ultimately show ?thesis using rec(4) q(4,5) nodes by (simp add: same_control_def)
qed

lemmas mf_consume_ok = mf_consume_held [where B = "[]", unfolded mf_held_Nil]

end
