(* ===== verification/Center_Fast_Spec.thy ===== *)
theory Center_Fast_Spec
  imports Message_Center_Fast
begin

text \<open>
  What \<open>MessageCenterFast\<close> promises: what a post accepts, delivery under every interleaving of
  one posting thread with the dispatch thread, what \<open>pending()\<close> counts, and that \<open>stop\<close> drains
  the queue.

  The posting thread works through a list of posts. Its \<open>post\<close> is cut where the dispatch
  thread can come between: after the message has been taken and filled in, after the push,
  after the count and after a refused message has been given back. There is one posting
  thread, because \<open>acquire\<close> pops the free list without protection, which is safe only for one
  acquiring thread (\<open>Pool_Concurrent\<close>); two posters race there as in \<open>Example_Batch_Race\<close>. The
  operations of the ring and of the pool are single steps, as are the turns of the dispatch
  thread, whose observers do not call the center.
\<close>

text \<open>A post: whether \<open>malloc\<close> answers it, the topic id, the data and the size.\<close>

type_synonym fast_post = "bool \<times> u16 \<times> buffer \<times> u64"

text \<open>
  Where the posting thread is: before its next post, with the message at a node filled in,
  with the push of that message refused, or with its push accepted and not counted.
\<close>

datatype poster_part = PostNext | PostFilled nat | PostRefused nat | PostCount

text \<open>The center, the posts to come, where the poster is, and the answers of its pushes so far.\<close>

record fast_run =
  r_center :: center_fast
  r_todo :: "fast_post list"
  r_part :: poster_part
  r_answers :: "bool list"

definition poster_step :: "fast_run \<Rightarrow> fast_run run" where
  "poster_step s =
     (case r_part s of
        PostNext \<Rightarrow>
          (case r_todo s of
             [] \<Rightarrow> ret s
           | (mem, topic, dat, sz) # ps \<Rightarrow>
               if MC_FAST_MAX_TOPICS \<le> topic then ret (s\<lparr>r_todo := ps, r_answers := r_answers s @ [False]\<rparr>)
               else
                 rbind (Some (mf_fetch mem (r_center s) topic dat sz)) (\<lambda>(c, n).
                   ret (s\<lparr>r_center := c, r_todo := ps, r_part := PostFilled n\<rparr>)))
      | PostFilled n \<Rightarrow>
          rbind (mf_offer (r_center s) n) (\<lambda>(c, b).
            ret (s\<lparr>r_center := c, r_part := (if b then PostCount else PostRefused n), r_answers := r_answers s @ [b]\<rparr>))
      | PostRefused n \<Rightarrow>
          rbind (Some (mf_refuse (r_center s) n)) (\<lambda>c. ret (s\<lparr>r_center := c, r_part := PostNext\<rparr>))
      | PostCount \<Rightarrow> ret (s\<lparr>r_center := mf_count (r_center s), r_part := PostNext\<rparr>))"

datatype fast_actor = FastPoster | FastDispatcher

fun fast_center_step :: "fast_actor \<Rightarrow> fast_run \<Rightarrow> fast_run run" where
  "fast_center_step FastPoster s = poster_step s"
| "fast_center_step FastDispatcher s = rbind (mf_round (r_center s)) (\<lambda>c. ret (s\<lparr>r_center := c\<rparr>))"

text \<open>A schedule says which thread makes each step.\<close>

fun mf_schedule :: "fast_actor list \<Rightarrow> fast_run \<Rightarrow> fast_run run" where
  "mf_schedule [] s = ret s"
| "mf_schedule (a # as) s = rbind (fast_center_step a s) (\<lambda>s1. mf_schedule as s1)"

definition fast_run_new :: "center_fast \<Rightarrow> fast_post list \<Rightarrow> fast_run" where
  "fast_run_new c ps = \<lparr>r_center = c, r_todo = ps, r_part = PostNext, r_answers = []\<rparr>"

text \<open>The message the poster holds, what a post stands for, and the events of the accepted posts.\<close>

definition poster_holds :: "poster_part \<Rightarrow> nat list" where
  "poster_holds t = (case t of PostFilled n \<Rightarrow> [n] | PostRefused n \<Rightarrow> [n] | _ \<Rightarrow> [])"

fun post_event :: "fast_post \<Rightarrow> fast_event" where
  "post_event (mem, topic, dat, sz) = f_posted mem topic dat sz"

fun valid_post :: "fast_post \<Rightarrow> bool" where
  "valid_post (mem, topic, dat, sz) = fill_ok dat sz"

definition accepted_events :: "fast_post list \<Rightarrow> bool list \<Rightarrow> fast_event list" where
  "accepted_events ps bs = map (\<lambda>(p, b). post_event p) (filter snd (zip ps bs))"

lemma accepted_events_Nil [simp]: "accepted_events ps [] = []"
  by (simp add: accepted_events_def)

lemma accepted_events_snoc:
  assumes "drop (length bs) ps = p # rest"
  shows "accepted_events ps (bs @ [b]) = accepted_events ps bs @ (if b then [post_event p] else [])"
proof -
  have "zip (take (length bs) ps) bs = zip ps bs" using take_zip [of "length bs" ps bs] by simp
  then show ?thesis using assms by (simp add: accepted_events_def zip_append2)
qed

definition all_calls :: "(nat \<Rightarrow> observer_entry list) \<Rightarrow> fast_event list \<Rightarrow> fast_call list" where
  "all_calls obs es = concat (map (fast_calls obs) es)"

lemma all_calls_simps [simp]:
  "all_calls obs [] = []"
  "all_calls obs (e # es) = fast_calls obs e @ all_calls obs es"
  "all_calls obs (es @ es') = all_calls obs es @ all_calls obs es'"
  by (simp_all add: all_calls_def)

text \<open>
  The dispatch thread is in its main loop, its counter of empty turns is \<open>k\<close>, and the poster
  holds the nodes \<open>B\<close>.
\<close>

definition turning :: "nat list \<Rightarrow> center_fast \<Rightarrow> int \<Rightarrow> bool" where
  "turning B c k \<longleftrightarrow> mf_held B c \<and> mf_thread c = Some (Looping k) \<and> \<not> mf_stopping c \<and> mf_running c \<and> 0 \<le> k"

definition looping :: "center_fast \<Rightarrow> int \<Rightarrow> bool" where
  "looping c k \<longleftrightarrow> mf_ok c \<and> mf_thread c = Some (Looping k) \<and> \<not> mf_stopping c \<and> mf_running c \<and> 0 \<le> k"

lemma turning_Nil: "turning [] c k = looping c k"
  by (simp add: turning_def looping_def mf_held_Nil)

lemma turningD:
  assumes "turning B c k"
  shows "mf_held B c" and "mf_thread c = Some (Looping k)" and "\<not> mf_stopping c" and "mf_running c" and "0 \<le> k"
  using assms by (simp_all add: turning_def)

lemma turning_control: "turning B c k \<Longrightarrow> mf_held B' c' \<Longrightarrow> same_control c c' \<Longrightarrow> turning B' c' k"
  by (simp add: turning_def same_control_def)

section \<open>Turns of the dispatch thread\<close>

lemma books_trans:
  fixes p :: "'a::ab_group_add"
  assumes "q + k + e = p + l + n" and "r + l + e' = q + m + n'"
  shows "r + k + (e + e') = p + m + (n + n')"
proof -
  have "(q + k + e) + (r + l + e') = (p + l + n) + (q + m + n')" using assms by simp
  then have "(q + l) + (r + k + (e + e')) = (q + l) + (p + m + (n + n'))" by (simp add: ac_simps)
  then show ?thesis by simp
qed

lemma mf_ok_thread [simp]:
  "mf_ok (c\<lparr>mf_thread := t\<rparr>) = mf_ok c" "mf_ok (c\<lparr>mf_stopping := b\<rparr>) = mf_ok c" "mf_ok (c\<lparr>mf_running := b\<rparr>) = mf_ok c"
  "mf_events (c\<lparr>mf_thread := t\<rparr>) = mf_events c" "mf_events (c\<lparr>mf_stopping := b\<rparr>) = mf_events c"
  "mf_events (c\<lparr>mf_running := b\<rparr>) = mf_events c"
  by (simp_all add: mf_ok_def mf_events_def mf_msgs_def)

lemma mf_held_thread [simp]:
  "mf_held B (c\<lparr>mf_thread := t\<rparr>) = mf_held B c" "node_event (c\<lparr>mf_thread := t\<rparr>) n = node_event c n"
  by (simp_all add: mf_held_def node_event_def)

lemma turning_ok:
  assumes run: "turning B c k" and k: "k + 1 < 2 ^ 31"
  shows "\<exists>c' k'. mf_round c = ret c' \<and> turning B c' k' \<and> k' \<le> k + 1 \<and> mf_events c' = tl (mf_events c) \<and>
    mf_observers c' = mf_observers c \<and> f_log (mf_world c') = f_log (mf_world c) @ all_calls (mf_observers c) (take 1 (mf_events c)) \<and>
    mf_pending c' + of_nat (length (mf_events c)) = mf_pending c + of_nat (length (mf_events c')) \<and>
    push_room (mf_queue c') = push_room (mf_queue c) \<and> (\<forall>n \<in> set B. node_event c' n = node_event c n)"
proof -
  note c = turningD [OF run]
  show ?thesis
  proof (cases "mf_events c")
    case Nil
    let ?c = "c\<lparr>mf_thread := Some (Looping (k + 1))\<rparr>"
    have "mf_round c = ret ?c" using c k mf_consume_empty [OF c(1) Nil] by (simp add: mf_round_def)
    moreover have "turning B ?c (k + 1)" using c by (simp add: turning_def)
    ultimately show ?thesis using Nil by (intro exI [of _ ?c] exI [of _ "k + 1"]) (simp add: mf_pending_def)
  next
    case (Cons e es)
    obtain c1 where c1: "mf_consume c = ret (c1, True)" "mf_held B c1" "same_control c c1" "mf_events c1 = es"
      "f_log (mf_world c1) = f_log (mf_world c) @ fast_calls (mf_observers c) e" "mf_posted c1 = mf_posted c"
      "mf_dispatched c1 = mf_dispatched c + 1" "push_room (mf_queue c1) = push_room (mf_queue c)"
      "\<forall>n \<in> set B. node_event c1 n = node_event c n"
      using mf_consume_held [OF c(1) Cons] by blast
    let ?c = "c1\<lparr>mf_thread := Some (Looping 0)\<rparr>"
    have "mf_round c = ret ?c" using c c1(1) by (simp add: mf_round_def)
    moreover have "turning B ?c 0" using c c1(2,3) by (simp add: turning_def same_control_def)
    moreover have "length (contents (mf_queue c)) = Suc (length es)" "length (contents (mf_queue c1)) = length es"
      using arg_cong [OF Cons, of length] arg_cong [OF c1(4), of length] by simp_all
    ultimately show ?thesis using Cons c1(3-9) c(5)
      by (intro exI [of _ ?c] exI [of _ 0]) (simp add: mf_pending_def same_control_def)
  qed
qed

lemmas mf_turn_ok = turning_ok [where B = "[]", unfolded turning_Nil]

lemmas mf_consume_none = mf_consume_empty [where B = "[]", unfolded mf_held_Nil]

lemma mf_rounds_ok:
  assumes "looping c k" and "k + int j < 2 ^ 31"
  shows "\<exists>c' k'. mf_rounds j c = ret c' \<and> looping c' k' \<and> k' \<le> k + int j \<and> mf_events c' = drop j (mf_events c) \<and>
    mf_observers c' = mf_observers c \<and> f_log (mf_world c') = f_log (mf_world c) @ all_calls (mf_observers c) (take j (mf_events c)) \<and>
    mf_pending c' + of_nat (length (mf_events c)) = mf_pending c + of_nat (length (mf_events c'))"
  using assms
proof (induction j arbitrary: c k)
  case 0
  then show ?case by auto
next
  case (Suc j)
  have k: "k + 1 < 2 ^ 31" using Suc.prems(2) by simp
  obtain c1 k1 where c1: "mf_round c = ret c1" "looping c1 k1" "k1 \<le> k + 1" "mf_events c1 = tl (mf_events c)"
    "mf_observers c1 = mf_observers c" "f_log (mf_world c1) = f_log (mf_world c) @ all_calls (mf_observers c) (take 1 (mf_events c))"
    "mf_pending c1 + of_nat (length (mf_events c)) = mf_pending c + of_nat (length (mf_events c1))"
    using mf_turn_ok [OF Suc.prems(1) k] by blast
  have "k1 + int j < 2 ^ 31" using c1(3) Suc.prems(2) by simp
  from Suc.IH [OF c1(2) this] obtain c2 k2 where c2: "mf_rounds j c1 = ret c2" "looping c2 k2" "k2 \<le> k1 + int j"
    "mf_events c2 = drop j (mf_events c1)" "mf_observers c2 = mf_observers c1"
    "f_log (mf_world c2) = f_log (mf_world c1) @ all_calls (mf_observers c1) (take j (mf_events c1))"
    "mf_pending c2 + of_nat (length (mf_events c1)) = mf_pending c1 + of_nat (length (mf_events c2))" by blast
  have "take (Suc j) (mf_events c) = take 1 (mf_events c) @ take j (tl (mf_events c))" by (cases "mf_events c") simp_all
  moreover have "mf_pending c2 + of_nat (length (mf_events c)) = mf_pending c + of_nat (length (mf_events c2))"
    using books_trans [where e = 0 and n = 0 and e' = 0 and n' = 0, simplified, OF c1(7) c2(7)] .
  ultimately show ?case using c1 c2 by (intro exI [of _ c2] exI [of _ k2]) (simp add: drop_Suc)
qed

section \<open>Schedules\<close>

text \<open>
  The books of a schedule: what was called, what is still in the ring and what was accepted,
  and the two counters behind \<open>pending()\<close>, where \<open>n\<close> accepted posts are not counted yet.
\<close>

definition balanced :: "center_fast \<Rightarrow> fast_event list \<Rightarrow> nat \<Rightarrow> center_fast \<Rightarrow> bool" where
  "balanced c es n c' \<longleftrightarrow> mf_observers c' = mf_observers c \<and>
     f_log (mf_world c') @ all_calls (mf_observers c) (mf_events c') =
       f_log (mf_world c) @ all_calls (mf_observers c) (mf_events c @ es) \<and>
     mf_pending c' + of_nat n + of_nat (length (mf_events c)) = mf_pending c + of_nat (length (mf_events c'))"

lemma balanced_same:
  assumes "balanced c es n c1" and "same_control c1 c2" and "mf_events c2 = mf_events c1" and "f_log (mf_world c2) = f_log (mf_world c1)"
    and "mf_posted c2 = mf_posted c1" and "mf_dispatched c2 = mf_dispatched c1"
  shows "balanced c es n c2"
  using assms arg_cong [OF assms(3), of length] by (simp add: balanced_def same_control_def mf_pending_def)

lemma balanced_push:
  assumes bal: "balanced c es 0 c1" and ctl: "same_control c1 c2" and ev: "mf_events c2 = mf_events c1 @ [e]" and w: "mf_world c2 = mf_world c1"
    and cnt: "mf_posted c2 = mf_posted c1" "mf_dispatched c2 = mf_dispatched c1"
  shows "balanced c (es @ [e]) 1 c2"
proof -
  have "f_log (mf_world c1) @ all_calls (mf_observers c) (mf_events c1) = f_log (mf_world c) @ all_calls (mf_observers c) (mf_events c @ es)"
    using bal by (simp only: balanced_def)
  from arg_cong [OF this, of "\<lambda>l. l @ fast_calls (mf_observers c) e"]
  have "f_log (mf_world c2) @ all_calls (mf_observers c) (mf_events c2) = f_log (mf_world c) @ all_calls (mf_observers c) (mf_events c @ es @ [e])"
    by (simp add: ev w)
  moreover have "length (mf_events c2) = Suc (length (mf_events c1))" using arg_cong [OF ev, of length] by simp
  then have "mf_pending c2 + 1 + of_nat (length (mf_events c)) = mf_pending c + of_nat (length (mf_events c2))"
    using bal by (simp add: balanced_def mf_pending_def cnt algebra_simps)
  ultimately show ?thesis using bal ctl by (simp add: balanced_def same_control_def)
qed

lemma balanced_count: "balanced c es 1 c1 \<Longrightarrow> balanced c es 0 (mf_count c1)"
  by (simp add: balanced_def mf_pending_def algebra_simps)

lemma balanced_turn:
  assumes bal: "balanced c es n c1" and ev: "mf_events c2 = tl (mf_events c1)" and obs: "mf_observers c2 = mf_observers c1"
    and log: "f_log (mf_world c2) = f_log (mf_world c1) @ all_calls (mf_observers c1) (take 1 (mf_events c1))"
    and pend: "mf_pending c2 + of_nat (length (mf_events c1)) = mf_pending c1 + of_nat (length (mf_events c2))"
  shows "balanced c es n c2"
proof -
  have "take 1 (mf_events c1) @ tl (mf_events c1) = mf_events c1" by (cases "mf_events c1") simp_all
  then have "all_calls (mf_observers c1) (take 1 (mf_events c1)) @ all_calls (mf_observers c1) (tl (mf_events c1)) = all_calls (mf_observers c1) (mf_events c1)"
    by (metis all_calls_simps(3))
  moreover have "mf_pending c2 + of_nat n + of_nat (length (mf_events c)) = mf_pending c + of_nat (length (mf_events c2))"
  proof -
    have "mf_pending c1 + of_nat (length (mf_events c)) + of_nat n = mf_pending c + of_nat (length (mf_events c1)) + 0"
      using bal by (simp add: balanced_def ac_simps)
    from books_trans [OF this, of _ 0 _ 0, simplified, OF pend [simplified]] show ?thesis by (simp add: ac_simps)
  qed
  ultimately show ?thesis using bal ev obs log by (simp add: balanced_def)
qed

text \<open>
  The invariant of a schedule, \<open>ps\<close> being the posts it began with: what is neither answered
  nor to come is the post whose message the poster holds.
\<close>

definition unanswered :: "fast_post list \<Rightarrow> fast_run \<Rightarrow> fast_post list" where
  "unanswered ps s = drop (length (r_answers s)) ps"

definition poster_inv :: "fast_post list \<Rightarrow> fast_run \<Rightarrow> bool" where
  "poster_inv rest s \<longleftrightarrow>
     (case r_part s of
        PostFilled n \<Rightarrow> (\<exists>p. rest = p # r_todo s \<and> node_event (r_center s) n = post_event p)
      | _ \<Rightarrow> rest = r_todo s)"

definition run_inv :: "center_fast \<Rightarrow> fast_post list \<Rightarrow> int \<Rightarrow> fast_run \<Rightarrow> bool" where
  "run_inv c ps k s \<longleftrightarrow> turning (poster_holds (r_part s)) (r_center s) k \<and> poster_inv (unanswered ps s) s \<and>
     length (unanswered ps s) \<le> push_room (mf_queue (r_center s)) \<and>
     balanced c (accepted_events ps (r_answers s)) (of_bool (r_part s = PostCount)) (r_center s)"

lemma run_invD:
  assumes "run_inv c ps k s"
  shows "turning (poster_holds (r_part s)) (r_center s) k" and "poster_inv (unanswered ps s) s"
    and "length (unanswered ps s) \<le> push_room (mf_queue (r_center s))"
    and "balanced c (accepted_events ps (r_answers s)) (of_bool (r_part s = PostCount)) (r_center s)"
  using assms by (simp_all add: run_inv_def)

lemma unanswered_answer: "unanswered ps s = p # rest \<Longrightarrow> drop (Suc (length (r_answers s))) ps = rest"
  by (metis drop_Suc drop_tl list.sel(3) unanswered_def)

lemma poster_next_ok:
  assumes inv: "run_inv c ps k s" and part: "r_part s = PostNext" and valid: "\<forall>p \<in> set ps. valid_post p"
  shows "\<exists>s'. poster_step s = ret s' \<and> run_inv c ps k s'"
proof (cases "r_todo s")
  case Nil
  then show ?thesis using inv part by (simp add: poster_step_def)
next
  case (Cons p rest)
  note I = run_invD [OF inv, unfolded part poster_holds_def poster_part.case turning_Nil]
  obtain mem topic dat sz where p: "p = (mem, topic, dat, sz)" by (cases p)
  have un: "unanswered ps s = p # rest" using I(2) part Cons by (simp add: poster_inv_def)
  have ok: "mf_ok (r_center s)" using I(1) by (simp add: looping_def)
  show ?thesis
  proof (cases "MC_FAST_MAX_TOPICS \<le> topic")
    case True
    let ?s = "s\<lparr>r_todo := rest, r_answers := r_answers s @ [False]\<rparr>"
    have step: "poster_step s = ret ?s" using part Cons p True by (simp add: poster_step_def)
    have rest': "unanswered ps ?s = rest" using unanswered_answer [OF un] by (simp add: unanswered_def)
    have acc: "accepted_events ps (r_answers ?s) = accepted_events ps (r_answers s)"
      using accepted_events_snoc [OF un [unfolded unanswered_def], of False] by simp
    have len: "length rest \<le> push_room (mf_queue (r_center s))" using I(3) un by simp
    have "run_inv c ps k ?s" unfolding run_inv_def rest' acc
      using I(1,4) part len by (simp add: poster_inv_def poster_holds_def turning_Nil)
    then show ?thesis using step by blast
  next
    case False
    have "p \<in> set ps" using un by (auto simp: unanswered_def intro: in_set_dropD [of p "length (r_answers s)"])
    then have fill: "fill_ok dat sz" "topic < MC_FAST_MAX_TOPICS" using valid p False by auto
    obtain c1 n where c1: "mf_fetch mem (r_center s) topic dat sz = Inr (c1, n)" "mf_held [n] c1" "same_control (r_center s) c1"
      "mf_events c1 = mf_events (r_center s)" "node_event c1 n = f_posted mem topic dat sz"
      "f_log (mf_world c1) = f_log (mf_world (r_center s))" "mf_queue c1 = mf_queue (r_center s)"
      "mf_posted c1 = mf_posted (r_center s)" "mf_dispatched c1 = mf_dispatched (r_center s)"
      using mf_fetch_ok [OF ok fill, of mem] by blast
    let ?s = "s\<lparr>r_center := c1, r_todo := rest, r_part := PostFilled n\<rparr>"
    have "poster_step s = ret ?s" using part Cons p False c1(1) by (simp add: poster_step_def)
    moreover have "turning [n] c1 k" using turning_control [of "[]" _ k] I(1) c1(2,3) by (simp add: turning_Nil)
    moreover have "balanced c (accepted_events ps (r_answers s)) 0 c1"
      using balanced_same [of c _ 0 "r_center s" c1] I(4) c1(3,4,6,8,9) by simp
    ultimately show ?thesis using I(3) un c1(5,7) p
      by (intro exI [of _ ?s]) (simp add: run_inv_def unanswered_def poster_inv_def poster_holds_def del: length_drop)
  qed
qed

lemma poster_filled_ok:
  assumes inv: "run_inv c ps k s" and part: "r_part s = PostFilled n"
  shows "\<exists>s'. poster_step s = ret s' \<and> run_inv c ps k s'"
proof -
  note I = run_invD [OF inv, unfolded part poster_holds_def poster_part.case]
  obtain p where p: "unanswered ps s = p # r_todo s" "node_event (r_center s) n = post_event p"
    using I(2) part by (auto simp: poster_inv_def)
  note held = turningD(1) [OF I(1)]
  have room: "0 < push_room (mf_queue (r_center s))" using I(3) p(1) by simp
  obtain c1 b where c1: "mf_offer (r_center s) n = ret (c1, b)"
    "if b then mf_ok c1 \<and> mf_events c1 = mf_events (r_center s) @ [node_event (r_center s) n] else c1 = r_center s"
    "same_control (r_center s) c1" "mf_world c1 = mf_world (r_center s)" "mf_posted c1 = mf_posted (r_center s)"
    "mf_dispatched c1 = mf_dispatched (r_center s)" "push_room (mf_queue (r_center s)) \<le> Suc (push_room (mf_queue c1))"
    using mf_offer_ok [OF held room] by blast
  let ?s = "s\<lparr>r_center := c1, r_part := (if b then PostCount else PostRefused n), r_answers := r_answers s @ [b]\<rparr>"
  have step: "poster_step s = ret ?s" using part c1(1) by (simp add: poster_step_def)
  have rest: "length (r_todo s) \<le> push_room (mf_queue c1)" using I(3) p(1) c1(7) by simp
  have acc: "accepted_events ps (r_answers s @ [b]) = accepted_events ps (r_answers s) @ (if b then [post_event p] else [])"
    using p(1) accepted_events_snoc unfolding unanswered_def by blast
  have "run_inv c ps k ?s"
  proof (cases b)
    case True
    have "turning [] c1 k" using turning_control [OF I(1), of "[]"] True c1(2,3) by (simp add: mf_held_Nil)
    moreover have "balanced c (accepted_events ps (r_answers s) @ [post_event p]) 1 c1"
      using balanced_push [of c _ "r_center s" c1] I(4) True c1(2-6) p(2) by simp
    ultimately show ?thesis using True rest acc unanswered_answer [OF p(1)]
      by (simp add: run_inv_def unanswered_def poster_inv_def poster_holds_def)
  next
    case False
    then show ?thesis using I c1(2) rest acc unanswered_answer [OF p(1)]
      by (simp add: run_inv_def unanswered_def poster_inv_def poster_holds_def)
  qed
  then show ?thesis using step by blast
qed

lemma poster_refused_ok:
  assumes inv: "run_inv c ps k s" and part: "r_part s = PostRefused n"
  shows "\<exists>s'. poster_step s = ret s' \<and> run_inv c ps k s'"
proof -
  note I = run_invD [OF inv, unfolded part poster_holds_def poster_part.case]
  obtain c1 where c1: "mf_refuse (r_center s) n = Inr c1" "mf_ok c1" "same_control (r_center s) c1"
    "mf_events c1 = mf_events (r_center s)" "f_log (mf_world c1) = f_log (mf_world (r_center s))"
    "mf_queue c1 = mf_queue (r_center s)" "mf_posted c1 = mf_posted (r_center s)" "mf_dispatched c1 = mf_dispatched (r_center s)"
    using mf_refuse_ok [OF turningD(1) [OF I(1)]] by blast
  let ?s = "s\<lparr>r_center := c1, r_part := PostNext\<rparr>"
  have "poster_step s = ret ?s" using part c1(1) by (simp add: poster_step_def)
  moreover have "turning [] c1 k" using turning_control [OF I(1), of "[]"] c1(2,3) by (simp add: mf_held_Nil)
  moreover have "balanced c (accepted_events ps (r_answers s)) 0 c1"
    using balanced_same [of c _ 0 "r_center s" c1] I(4) c1(3-5,7,8) by simp
  ultimately show ?thesis using I(2,3) part c1(6)
    by (intro exI [of _ ?s]) (simp add: run_inv_def unanswered_def poster_inv_def poster_holds_def)
qed

lemma poster_count_ok:
  assumes inv: "run_inv c ps k s" and part: "r_part s = PostCount"
  shows "\<exists>s'. poster_step s = ret s' \<and> run_inv c ps k s'"
proof -
  note I = run_invD [OF inv, unfolded part poster_holds_def poster_part.case]
  have "turning [] (mf_count (r_center s)) k" using I(1) by (simp add: turning_Nil looping_def)
  moreover have "balanced c (accepted_events ps (r_answers s)) 0 (mf_count (r_center s))"
    using I(4) by (simp add: balanced_count)
  ultimately show ?thesis using I(2,3) part
    by (simp add: poster_step_def run_inv_def unanswered_def poster_inv_def poster_holds_def del: length_drop)
qed

lemma fast_dispatcher_ok:
  assumes inv: "run_inv c ps k s" and k: "k + 1 < 2 ^ 31"
  shows "\<exists>s' k'. fast_center_step FastDispatcher s = ret s' \<and> k' \<le> k + 1 \<and> run_inv c ps k' s'"
proof -
  note I = run_invD [OF inv]
  obtain c1 k1 where c1: "mf_round (r_center s) = ret c1" "turning (poster_holds (r_part s)) c1 k1" "k1 \<le> k + 1"
    "mf_events c1 = tl (mf_events (r_center s))" "mf_observers c1 = mf_observers (r_center s)"
    "f_log (mf_world c1) = f_log (mf_world (r_center s)) @ all_calls (mf_observers (r_center s)) (take 1 (mf_events (r_center s)))"
    "mf_pending c1 + of_nat (length (mf_events (r_center s))) = mf_pending (r_center s) + of_nat (length (mf_events c1))"
    "push_room (mf_queue c1) = push_room (mf_queue (r_center s))"
    "\<forall>n \<in> set (poster_holds (r_part s)). node_event c1 n = node_event (r_center s) n"
    using turning_ok [OF I(1) k] by blast
  let ?s = "s\<lparr>r_center := c1\<rparr>"
  have "fast_center_step FastDispatcher s = ret ?s" using c1(1) by simp
  moreover have "poster_inv (unanswered ps s) ?s"
    using I(2) c1(9) by (auto simp: poster_inv_def poster_holds_def split: poster_part.splits)
  ultimately show ?thesis using I(3) c1(2,3,8) balanced_turn [OF I(4) c1(4-7)]
    by (intro exI [of _ ?s] exI [of _ k1]) (simp add: run_inv_def unanswered_def)
qed

lemma fast_center_step_ok:
  assumes inv: "run_inv c ps k s" and k: "k + 1 < 2 ^ 31" and valid: "\<forall>p \<in> set ps. valid_post p"
  shows "\<exists>s' k'. fast_center_step a s = ret s' \<and> k' \<le> k + 1 \<and> run_inv c ps k' s'"
proof (cases a)
  case FastPoster
  have "\<exists>s'. poster_step s = ret s' \<and> run_inv c ps k s'"
    by (cases "r_part s")
      (blast intro: poster_next_ok [OF inv _ valid] poster_filled_ok [OF inv] poster_refused_ok [OF inv] poster_count_ok [OF inv])+
  then obtain s1 where "poster_step s = ret s1" "run_inv c ps k s1" by blast
  then show ?thesis using FastPoster by (intro exI [of _ s1] exI [of _ k]) simp
next
  case FastDispatcher
  then show ?thesis using fast_dispatcher_ok [OF inv k] by simp
qed

lemma mf_schedule_ok:
  assumes "run_inv c ps k s" and "k + int (length as) < 2 ^ 31" and "\<forall>p \<in> set ps. valid_post p"
  shows "\<exists>s' k'. mf_schedule as s = ret s' \<and> run_inv c ps k' s'"
  using assms
proof (induction as arbitrary: k s)
  case Nil
  then show ?case by auto
next
  case (Cons a as)
  have k: "k + 1 < 2 ^ 31" using Cons.prems(2) by simp
  obtain s1 k1 where s1: "fast_center_step a s = ret s1" "k1 \<le> k + 1" "run_inv c ps k1 s1"
    using fast_center_step_ok [OF Cons.prems(1) k Cons.prems(3)] by blast
  have "k1 + int (length as) < 2 ^ 31" using s1(2) Cons.prems(2) by simp
  from Cons.IH [OF s1(3) this Cons.prems(3)] show ?case using s1(1) by simp
qed

lemma run_inv_new:
  assumes "looping c k" and "length ps \<le> push_room (mf_queue c)"
  shows "run_inv c ps k (fast_run_new c ps)"
  using assms by (simp add: run_inv_def fast_run_new_def unanswered_def poster_inv_def poster_holds_def turning_Nil balanced_def)

section \<open>Stopping\<close>

lemma mf_drain_ok:
  assumes "mf_ok c" and "mf_thread c = Some Draining"
  shows "\<exists>c'. mf_join c = ret c' \<and> mf_ok c' \<and> mf_events c' = [] \<and> mf_observers c' = mf_observers c \<and> mf_stopping c' = mf_stopping c \<and>
    f_log (mf_world c') = f_log (mf_world c) @ all_calls (mf_observers c) (mf_events c) \<and> mf_posted c' = mf_posted c \<and>
    mf_dispatched c' = mf_dispatched c + of_nat (length (mf_events c))"
  using assms
proof (induction "mf_events c" arbitrary: c)
  case Nil
  note empty = mf_consume_none [OF Nil.prems(1) Nil.hyps [symmetric]]
  let ?c = "c\<lparr>mf_thread := Some Returned\<rparr>"
  have "mf_join ?c = ret ?c" by (simp add: mf_join.simps [of ?c])
  then have "mf_join c = ret ?c" using Nil.prems(2) empty by (simp add: mf_join.simps [of c] mf_round_def)
  then show ?case using Nil.hyps [symmetric] Nil.prems(1) arg_cong [OF Nil.hyps, of length] by simp
next
  case (Cons e es)
  obtain c1 where c1: "mf_consume c = ret (c1, True)" "mf_ok c1" "same_control c c1" "mf_events c1 = es"
    "f_log (mf_world c1) = f_log (mf_world c) @ fast_calls (mf_observers c) e" "mf_posted c1 = mf_posted c"
    "mf_dispatched c1 = mf_dispatched c + 1"
    using mf_consume_ok [OF Cons.prems(1) Cons.hyps(2) [symmetric]] by blast
  have "mf_thread c1 = Some Draining" using c1(3) Cons.prems(2) by (simp add: same_control_def)
  from Cons.hyps(1) [OF c1(4) [symmetric] c1(2) this] obtain c' where c': "mf_join c1 = ret c'" "mf_ok c'" "mf_events c' = []"
    "mf_observers c' = mf_observers c1" "mf_stopping c' = mf_stopping c1"
    "f_log (mf_world c') = f_log (mf_world c1) @ all_calls (mf_observers c1) (mf_events c1)" "mf_posted c' = mf_posted c1"
    "mf_dispatched c' = mf_dispatched c1 + of_nat (length (mf_events c1))" by blast
  have "mf_join c = ret c'" using Cons.prems(2) c1(1) c'(1) by (simp add: mf_join.simps [of c] mf_round_def)
  moreover have "length (mf_events c) = Suc (length (mf_events c1))" using c1(4) Cons.hyps(2) by (simp only: list.size) (metis length_Cons)
  ultimately show ?case using c' c1(3-7) Cons.hyps(2) [symmetric] by (simp add: same_control_def)
qed

section \<open>A new center\<close>

lemma pool_fill_read:
  assumes "pool_fill init k p = Inr p'" and "\<And>a v. obj_read p a = Some v \<Longrightarrow> v = init"
  shows "obj_read p' a = Some v \<Longrightarrow> v = init"
  using assms
proof (induction k arbitrary: p)
  case 0
  then show ?case by simp
next
  case (Suc k)
  obtain p1 n where new: "new_node init p = (p1, n)" by fastforce
  then have "obj_read p1 = (obj_read p)(n := Some init)"
    by (auto simp: new_node_def heap_new_def obj_read_def fun_eq_iff)
  then have p1: "obj_read p1 a = Some v \<Longrightarrow> v = init" for a v
    using Suc.prems(3) by (cases "a = n") auto
  obtain p2 where p2: "pushFree p1 n = Inr p2" "pool_fill init k (p2\<lparr>m_allocated := m_allocated p2 + 1\<rparr>) = Inr p'"
    using Suc.prems(2) new by (auto simp: obind_eq_Inr)
  have "obj_read p2 a = obj_read p1 a" for a
    using p2(1) by (auto simp: pushFree_def obj_read_def obind_eq_Inr)
  then show ?case using Suc.IH [OF Suc.prems(1) p2(2)] p1 by simp
qed

lemma mf_new_ok:
  "\<exists>c. mf_new = Inr c \<and> mf_ok c \<and> mf_events c = [] \<and> f_log (mf_world c) = [] \<and> mf_pending c = 0 \<and> \<not> mf_running c \<and> mf_thread c = None \<and>
     (\<forall>t. mf_observers c t = []) \<and> (\<forall>n. mf_topicMap c n = None) \<and> mf_nextTopicId c = 0 \<and>
     capacity (mf_queue c) = 65536 \<and> push_room (mf_queue c) = 2 ^ 63 - 65537"
proof -
  obtain p fl where p: "pool_new message_fast_new 256 131072 = Inr p" "lf_inv p fl {}"
    using pool_new_ok [of message_fast_new 256 131072] by blast
  have init: "obj_read p a = Some v \<Longrightarrow> v = message_fast_new" for a v
    by (rule pool_fill_read [OF p(1) [unfolded pool_new_def]]) (simp_all add: obj_read_def)
  have "\<exists>m. obj_read p n = Some m \<and> clean m" if "n \<in> set fl" for n
  proof -
    have "n \<in> live (nodes p)" using lf_invD(4) [OF p(2)] that by blast
    then obtain m where m: "obj_read p n = Some m" by (auto simp: obj_read_def)
    show ?thesis using m unfolding init [OF m] by (simp add: clean_def message_fast_new_def MC_FAST_INLINE_SIZE_def)
  qed
  then have "pool_clean p {}" using p(2) by (auto simp: pool_clean_def)
  moreover have "ring_inv (mpmc_new 65536 :: nat mpmc)" "contents (mpmc_new 65536 :: nat mpmc) = []"
    "capacity (mpmc_new 65536 :: nat mpmc) = 65536" "push_room (mpmc_new 65536 :: nat mpmc) = 2 ^ 63 - 1 - 65536"
    using mpmc_new_inv [of 65536 16] by simp_all
  ultimately show ?thesis
    by (simp add: mf_new_def p(1) mf_ok_def mf_events_def mf_msgs_def bufs_ok_def MC_FAST_QUEUE_SIZE_def mf_pending_def heap_empty_def heap_ok_def)
qed

text \<open>A running center whose topic 3 has the callbacks 7 and, after an empty one, 8.\<close>

lemma mf_demo:
  "\<exists>c0 c. mf_Default None True = Inr c0 \<and>
     c = mf_addObserver (mf_addObserver (mf_addObserver c0 3 (Some 7) 0) 3 None 0) 3 (Some 8) 1 \<and>
     looping c 0 \<and> mf_events c = [] \<and> f_log (mf_world c) = [] \<and> mf_pending c = 0 \<and>
     List.map_filter oe_callback (mf_observers c 3) = [7, 8] \<and> capacity (mf_queue c) = 65536 \<and> push_room (mf_queue c) = 2 ^ 63 - 65537"
proof -
  obtain c where c: "mf_new = Inr c" "mf_ok c" "mf_events c = []" "f_log (mf_world c) = []" "mf_pending c = 0" "\<not> mf_running c"
    "mf_thread c = None" "\<forall>t. mf_observers c t = []" "capacity (mf_queue c) = 65536" "push_room (mf_queue c) = 2 ^ 63 - 65537"
    using mf_new_ok by blast
  let ?c = "mf_addObserver (mf_addObserver (mf_addObserver (mf_start c) 3 (Some 7) 0) 3 None 0) 3 (Some 8) 1"
  have start: "mf_start c = c\<lparr>mf_stopping := False, mf_running := True, mf_thread := Some (Looping 0)\<rparr>"
    using c(6) by (simp add: mf_start_def)
  have "mf_Default None True = Inr (mf_start c)" unfolding mf_Default_def option.case c(1) obind_simps by simp
  moreover have "?c = c\<lparr>mf_stopping := False, mf_running := True, mf_thread := Some (Looping 0), mf_observers := (mf_observers c)(3 :=
      [\<lparr>oe_callback = Some 7, oe_userData = 0\<rparr>, \<lparr>oe_callback = None, oe_userData = 0\<rparr>, \<lparr>oe_callback = Some 8, oe_userData = 1\<rparr>])\<rparr>"
    using c(8) by (simp add: start mf_addObserver_def MC_FAST_MAX_TOPICS_def)
  ultimately show ?thesis using c
    by (intro exI [of _ "mf_start c"] exI [of _ ?c])
      (simp add: looping_def mf_ok_def mf_events_def mf_msgs_def mf_pending_def map_filter_simps)
qed

section \<open>Properties\<close>

text \<open>
  C26. A post is accepted exactly if its topic id is below 1024 and the ring is not full, and then
  stands last for the caller's bytes: inline up to 64 bytes, else in a buffer of its own, and
  as a null pointer if \<open>malloc\<close> failed; its size is taken modulo 2^32. A post that is
  refused changes neither what is queued nor the counter, and frees its buffer.
\<close>

theorem mf_post_spec:
  assumes "mf_ok c" and "fill_ok dat sz" and "0 < push_room (mf_queue c)"
  shows "\<exists>c' b. mf_post mem c topic dat sz = ret (c', b) \<and> mf_ok c' \<and>
    b = (topic < MC_FAST_MAX_TOPICS \<and> length (mf_events c) < capacity (mf_queue c)) \<and>
    mf_events c' = mf_events c @ (if b then [f_posted mem topic dat sz] else []) \<and>
    mf_posted c' = mf_posted c + (if b then 1 else 0) \<and> f_log (mf_world c') = f_log (mf_world c) \<and>
    (\<not> b \<longrightarrow> live (f_buffers (mf_world c')) = live (f_buffers (mf_world c)))"
proof -
  obtain c' b where c': "mf_push mem c topic dat sz = ret (c', b)" "mf_ok c'"
    "b = (topic < MC_FAST_MAX_TOPICS \<and> length (mf_events c) < capacity (mf_queue c))"
    "mf_events c' = mf_events c @ (if b then [f_posted mem topic dat sz] else [])"
    "f_log (mf_world c') = f_log (mf_world c)" "\<not> b \<longrightarrow> cells (f_buffers (mf_world c')) = cells (f_buffers (mf_world c))"
    "mf_posted c' = mf_posted c"
    using mf_push_ok [OF assms, of mem topic] by blast
  show ?thesis
  proof (cases b)
    case True
    then show ?thesis using c' by (intro exI [of _ "mf_count c'"] exI [of _ True]) (auto simp: mf_post_def)
  next
    case False
    then show ?thesis using c' by (intro exI [of _ c'] exI [of _ False]) (auto simp: mf_post_def)
  qed
qed

theorem mf_post_spec_witness:
  "\<exists>c c'. mf_new = Inr c \<and> mf_post True c 3 (Some [1, 2]) 2 = ret (c', True) \<and>
     mf_events c' = [(3, Some [Some 1, Some 2], 2)] \<and> mf_post True c 1024 (Some [1, 2]) 2 = ret (c, False)"
proof -
  obtain c where c: "mf_new = Inr c" "mf_ok c" "mf_events c = []" "capacity (mf_queue c) = 65536" "push_room (mf_queue c) = 2 ^ 63 - 65537"
    using mf_new_ok by blast
  have "fill_ok (Some [1, 2]) 2" "0 < push_room (mf_queue c)" using c(5) by (simp_all add: fill_ok_def)
  from mf_post_spec [OF c(2) this, of True 3] obtain c' where "mf_post True c 3 (Some [1, 2]) 2 = ret (c', True)"
    "mf_events c' = [f_posted True 3 (Some [1, 2]) 2]" using c(3,4) by (auto simp: MC_FAST_MAX_TOPICS_def)
  then show ?thesis using c(1) by (auto simp: f_posted_def f_bytes_def mf_post_def mf_push_def MC_FAST_MAX_TOPICS_def)
qed

text \<open>
  C10. One thread that works through a list of posts and the dispatch thread, interleaved in any
  way while the counter of empty turns stays an \<open>int\<close>, run without a fault. What was called
  and what is still queued are, in order, the calls of the posts that were accepted, each with
  the bytes its poster gave. And \<open>pending()\<close> is what is queued, less one if the poster has
  pushed a message that it has not counted yet: a message dispatched before it is counted
  makes it wrap round to \<open>2^64 - 1\<close>. There is one posting thread, since two can break the pool;
  the ring's and the pool's operations and the turns of the dispatch thread are single steps,
  and the observers do not call the center.
\<close>

theorem mf_schedule_spec:
  assumes "looping c 0" and "length as < 2 ^ 31" and "\<forall>p \<in> set ps. valid_post p" and "length ps \<le> push_room (mf_queue c)"
  shows "\<exists>s c'. mf_schedule as (fast_run_new c ps) = ret s \<and> c' = r_center s \<and> mf_held (poster_holds (r_part s)) c' \<and>
    mf_observers c' = mf_observers c \<and>
    f_log (mf_world c') @ all_calls (mf_observers c) (mf_events c') =
      f_log (mf_world c) @ all_calls (mf_observers c) (mf_events c @ accepted_events ps (r_answers s)) \<and>
    mf_pending c' + of_bool (r_part s = PostCount) + of_nat (length (mf_events c)) =
      mf_pending c + of_nat (length (mf_events c'))"
proof -
  have "0 + int (length as) < 2 ^ 31" using assms(2) by simp
  from mf_schedule_ok [OF run_inv_new [OF assms(1,4)] this assms(3)]
  obtain s k where s: "mf_schedule as (fast_run_new c ps) = ret s" "run_inv c ps k s" by blast
  then show ?thesis using run_invD(1,4) [OF s(2)] turningD(1)
    by (intro exI [of _ s] exI [of _ "r_center s"]) (auto simp: balanced_def)
qed

theorem mf_schedule_spec_witness:
  "\<exists>c s. looping c 0 \<and>
     mf_schedule [FastPoster, FastPoster, FastDispatcher] (fast_run_new c [(True, 3, Some [5], 1)]) = ret s \<and>
     r_part s = PostCount \<and> r_answers s = [True] \<and>
     f_log (mf_world (r_center s)) = [FCall 7 3 (Some [Some 5]) 1, FCall 8 3 (Some [Some 5]) 1] \<and>
     mf_pending (r_center s) = 2 ^ 64 - 1"
proof -
  obtain c where c: "looping c 0" "mf_events c = []" "f_log (mf_world c) = []" "mf_pending c = 0"
     "List.map_filter oe_callback (mf_observers c 3) = [7, 8]" "capacity (mf_queue c) = 65536" "push_room (mf_queue c) = 2 ^ 63 - 65537"
    using mf_demo by blast
  let ?ps = "[(True, 3, Some [5], 1)] :: fast_post list" and ?as = "[FastPoster, FastPoster, FastDispatcher]"
  have fill: "fill_ok (Some [5]) 1" "3 < MC_FAST_MAX_TOPICS" by (simp_all add: fill_ok_def MC_FAST_MAX_TOPICS_def)
  have ok: "mf_ok c" using c(1) by (simp add: looping_def)
  obtain c1 n where c1: "mf_fetch True c 3 (Some [5]) 1 = Inr (c1, n)" "mf_held [n] c1" "same_control c c1" "mf_events c1 = []"
      "mf_queue c1 = mf_queue c"
    using mf_fetch_ok [OF ok fill, of True] c(2) by auto
  have room: "0 < push_room (mf_queue c1)" using c(7) c1(5) by simp
  obtain c2 where c2: "mf_offer c1 n = ret (c2, True)" "mf_ok c2" "mf_events c2 = [node_event c1 n]" "same_control c1 c2"
    using mf_offer_ok [OF c1(2) room] c1(4,5) c(6) by auto
  have "looping c2 0" using c2(2,4) c1(3) c(1) by (simp add: looping_def same_control_def)
  from mf_turn_ok [OF this] obtain c3 where c3: "mf_round c2 = ret c3" "mf_events c3 = tl (mf_events c2)" by auto
  have none: "mf_events c3 = []" using c3(2) c2(3) by simp
  let ?s = "\<lparr>r_center = c3, r_todo = [], r_part = PostCount, r_answers = [True]\<rparr>"
  have run: "mf_schedule ?as (fast_run_new c ?ps) = ret ?s"
    using c1(1) c2(1) c3(1) fill(2) [unfolded not_le [symmetric]] by (simp add: fast_run_new_def poster_step_def)
  have prem: "length ?as < 2 ^ 31" "\<forall>p \<in> set ?ps. valid_post p" "length ?ps \<le> push_room (mf_queue c)"
    using c(7) fill by simp_all
  have wrap: "x + 1 = 0 \<Longrightarrow> x = 18446744073709551615" for x :: u64
    using eq_neg_iff_add_eq_0 [of x 1] by simp
  show ?thesis
    using mf_schedule_spec [OF c(1) prem] run none c
    by (intro exI [of _ c] exI [of _ ?s])
      (auto simp: accepted_events_def f_posted_def f_bytes_def intro!: wrap simp del: mf_schedule.simps length_mf_events)
qed

text \<open>
  C11. Stopping: \<open>stop\<close> on a running center returns, after delivering everything that was queued, in
  order; the thread is gone, no buffer is left and nothing is pending if every push had been
  counted. A second \<open>stop\<close> does nothing and \<open>start\<close> runs the center again. Destroying the
  center, as \<open>DisposeDefaultMessageCenter\<close> does, succeeds and frees every node and buffer.
\<close>

theorem mf_stop_spec:
  assumes "looping c k"
  shows "\<exists>c'. mf_stop c = ret c' \<and> mf_ok c' \<and> mf_events c' = [] \<and> mf_thread c' = None \<and> \<not> mf_running c' \<and>
    f_log (mf_world c') = f_log (mf_world c) @ all_calls (mf_observers c) (mf_events c) \<and> live (f_buffers (mf_world c')) = {} \<and>
    (mf_pending c = of_nat (length (mf_events c)) \<longrightarrow> mf_pending c' = 0) \<and>
    mf_stop c' = ret c' \<and> looping (mf_start c') 0 \<and>
    (\<exists>nds bufs. mf_destroy c = ret (nds, bufs) \<and> live nds = {} \<and> live bufs = {}) \<and>
    mf_Default (Some c) autostart = Inr c \<and> mf_DisposeDefault (Some c) = ret None"
proof -
  have ok: "mf_ok c" and c: "mf_thread c = Some (Looping k)" "mf_running c" using assms by (simp_all add: looping_def)
  let ?d = "c\<lparr>mf_stopping := True, mf_thread := Some Draining\<rparr>"
  obtain c1 where c1: "mf_join ?d = ret c1" "mf_ok c1" "mf_events c1 = []" "mf_observers c1 = mf_observers c"
    "f_log (mf_world c1) = f_log (mf_world c) @ all_calls (mf_observers c) (mf_events c)" "mf_posted c1 = mf_posted c"
    "mf_dispatched c1 = mf_dispatched c + of_nat (length (mf_events c))"
    using mf_drain_ok [of ?d] ok by auto
  let ?c = "c1\<lparr>mf_thread := None, mf_running := False\<rparr>"
  have "mf_join (c\<lparr>mf_stopping := True\<rparr>) = ret c1"
    using c c1(1) by (simp add: mf_join.simps [of "c\<lparr>mf_stopping := True\<rparr>"] mf_round_def)
  then have stop: "mf_stop c = ret ?c" using c by (simp add: mf_stop_def)
  have ok': "mf_ok ?c" and ev: "mf_events ?c = []" using c1(2,3) by simp_all
  note D = mf_okD [OF ok']
  have none: "contents (mf_queue ?c) = []" "mf_msgs ?c = []" using ev by (simp_all add: mf_events_def mf_msgs_def)
  have bufs: "live (f_buffers (mf_world ?c)) = {}" using D(4) none(2) by (auto simp: bufs_ok_def)
  obtain fl where fl: "lf_inv (mf_pool ?c) fl {}" using D(3) none(1) by (auto simp: pool_clean_def)
  obtain nds where nds: "pool_destroy (mf_pool ?c) = ret nds" "cells nds = (\<lambda>a. if a \<in> set fl then None else cells (nodes (mf_pool ?c)) a)"
    using pool_destroy_loop_ok [OF lf_invD(6) [OF fl] lf_invD(2) [OF fl]] by (auto simp: pool_destroy_def)
  have empty: "live nds = {}" using lf_invD(4) [OF fl] by (auto simp: nds(2) dom_def)
  have again: "mf_stop ?c = ret ?c" by (simp add: mf_stop_def)
  have "mf_destroy c = ret (nds, f_buffers (mf_world ?c))" "mf_destroy ?c = ret (nds, f_buffers (mf_world ?c))"
    using stop again nds(1) by (simp_all add: mf_destroy_def)
  moreover have "looping (mf_start ?c) 0" using ok' by (simp add: looping_def mf_start_def)
  moreover have "mf_pending c = of_nat (length (mf_events c)) \<longrightarrow> mf_pending ?c = 0"
    using c1(6,7) by (auto simp: mf_pending_def diff_eq_eq add.commute)
  ultimately show ?thesis
    using stop ok' ev c1(5) bufs again empty by (intro exI [of _ ?c]) (simp add: mf_DisposeDefault_def mf_Default_def)
qed

theorem mf_stop_spec_witness:
  "\<exists>c c1 c2. looping c 0 \<and> mf_post True c 3 (Some [5]) 1 = ret (c1, True) \<and> mf_stop c1 = ret c2 \<and>
     f_log (mf_world c2) = [FCall 7 3 (Some [Some 5]) 1, FCall 8 3 (Some [Some 5]) 1]"
proof -
  obtain c where c: "looping c 0" "mf_events c = []" "f_log (mf_world c) = []"
     "List.map_filter oe_callback (mf_observers c 3) = [7, 8]" "capacity (mf_queue c) = 65536" "push_room (mf_queue c) = 2 ^ 63 - 65537"
    using mf_demo by blast
  have ok: "mf_ok c" and fill: "fill_ok (Some [5]) 1" and room: "0 < push_room (mf_queue c)"
    using c(1,6) by (simp_all add: looping_def fill_ok_def)
  obtain c1 where c1: "mf_push True c 3 (Some [5]) 1 = ret (c1, True)" "mf_ok c1" "same_control c c1"
    "mf_events c1 = [f_posted True 3 (Some [5]) 1]" "f_log (mf_world c1) = f_log (mf_world c)"
    using mf_push_ok [OF ok fill room, of True 3] c(2,5) by (auto simp: MC_FAST_MAX_TOPICS_def)
  have "looping (mf_count c1) 0" using c1(2,3) c(1) by (simp add: looping_def same_control_def)
  from mf_stop_spec [OF this] obtain c2 where "mf_stop (mf_count c1) = ret c2"
    "f_log (mf_world c2) = f_log (mf_world (mf_count c1)) @ all_calls (mf_observers (mf_count c1)) (mf_events (mf_count c1))" by blast
  moreover have "mf_post True c 3 (Some [5]) 1 = ret (mf_count c1, True)" using c1(1) by (simp add: mf_post_def)
  ultimately show ?thesis using c(1,3,4) c1(3-5)
    by (intro exI [of _ c] exI [of _ "mf_count c1"] exI [of _ c2]) (simp add: same_control_def f_posted_def f_bytes_def)
qed

text \<open>
  Topics: \<open>registerTopic\<close> gives a known name its id again, and a new name the next id, which
  \<open>resolveTopic\<close> then finds, without changing other names. From 1024 names on it answers
  \<open>UINT16_MAX\<close>; but each refusal counts up the 16-bit counter, so that after 64512 refusals
  it wraps round and hands out id 0, which another name has, a second time.
\<close>

definition fast_topics_inv :: "center_fast \<Rightarrow> bool" where
  "fast_topics_inv c \<longleftrightarrow> mf_nextTopicId c \<le> MC_FAST_MAX_TOPICS \<and>
     (\<forall>n i. mf_topicMap c n = Some i \<longrightarrow> i < mf_nextTopicId c \<and> mf_topicNames c (unat i) = n)"

theorem mf_registerTopic_spec:
  assumes "fast_topics_inv c"
  shows "(\<forall>i. mf_topicMap c name = Some i \<longrightarrow> mf_registerTopic c name = (c, i)) \<and>
    (mf_topicMap c name = None \<and> mf_nextTopicId c < MC_FAST_MAX_TOPICS \<longrightarrow>
       (\<exists>c'. mf_registerTopic c name = (c', mf_nextTopicId c) \<and> fast_topics_inv c' \<and> mf_resolveTopic c' name = mf_nextTopicId c \<and>
          (\<forall>n. n \<noteq> name \<longrightarrow> mf_resolveTopic c' n = mf_resolveTopic c n))) \<and>
    (mf_topicMap c name = None \<and> mf_nextTopicId c = MC_FAST_MAX_TOPICS \<longrightarrow>
       snd (mf_registerTopic c name) = UINT16_MAX \<and>
       snd (mf_registerTopic (((\<lambda>c. fst (mf_registerTopic c name)) ^^ 64512) c) name) = 0)"
proof (intro conjI impI allI)
  show "mf_registerTopic c name = (c, i)" if "mf_topicMap c name = Some i" for i
    using that by (simp add: mf_registerTopic_def)
next
  assume new: "mf_topicMap c name = None \<and> mf_nextTopicId c < MC_FAST_MAX_TOPICS"
  let ?i = "mf_nextTopicId c"
  let ?c = "c\<lparr>mf_nextTopicId := ?i + 1, mf_topicNames := (mf_topicNames c)(unat ?i := name), mf_topicMap := (mf_topicMap c)(name \<mapsto> ?i)\<rparr>"
  have i: "unat ?i < 1024" using new by (simp add: MC_FAST_MAX_TOPICS_def word_less_nat_alt)
  then have suc: "unat (?i + 1) = Suc (unat ?i)" by (simp add: unat_word_ariths)
  have "i < ?i + 1 \<and> unat i \<noteq> unat ?i \<and> mf_topicNames c (unat i) = n" if "mf_topicMap c n = Some i" for n i
  proof -
    have "i < ?i" "mf_topicNames c (unat i) = n" using that assms by (auto simp: fast_topics_inv_def)
    then show ?thesis using suc by (simp add: word_less_nat_alt)
  qed
  moreover have "?i + 1 \<le> MC_FAST_MAX_TOPICS" "?i < ?i + 1"
    using suc i by (simp_all add: MC_FAST_MAX_TOPICS_def word_le_nat_alt word_less_nat_alt)
  ultimately have "fast_topics_inv ?c" by (auto simp: fast_topics_inv_def)
  moreover have "mf_registerTopic c name = (?c, ?i)" 
  proof -
    have "mf_topicMap c name = None" "\<not> MC_FAST_MAX_TOPICS \<le> ?i" using new by auto
    then show ?thesis by (simp add: mf_registerTopic_def Let_def)
  qed
  ultimately show "\<exists>c'. mf_registerTopic c name = (c', ?i) \<and> fast_topics_inv c' \<and> mf_resolveTopic c' name = ?i \<and>
      (\<forall>n. n \<noteq> name \<longrightarrow> mf_resolveTopic c' n = mf_resolveTopic c n)"
    by (intro exI [of _ ?c]) (simp add: mf_resolveTopic_def)
next
  assume full: "mf_topicMap c name = None \<and> mf_nextTopicId c = MC_FAST_MAX_TOPICS"
  then show "snd (mf_registerTopic c name) = UINT16_MAX" by (simp add: mf_registerTopic_def Let_def)
  have "((\<lambda>c. fst (mf_registerTopic c name)) ^^ n) c = c\<lparr>mf_nextTopicId := 1024 + of_nat n\<rparr>" if "n \<le> 64512" for n
    using that
  proof (induction n)
    case 0
    then show ?case using full by (simp add: MC_FAST_MAX_TOPICS_def)
  next
    case (Suc n)
    have "unat (1024 + of_nat n :: u16) = 1024 + n" using Suc.prems by (simp add: unat_word_ariths unat_of_nat take_bit_eq_mod)
    then have "(1024 :: u16) \<le> 1024 + of_nat n" by (simp add: word_le_nat_alt)
    then show ?case using Suc full by (simp add: mf_registerTopic_def MC_FAST_MAX_TOPICS_def add.commute add.left_commute)
  qed
  from this [of 64512] have "((\<lambda>c. fst (mf_registerTopic c name)) ^^ 64512) c = c\<lparr>mf_nextTopicId := 0\<rparr>" by simp
  then show "snd (mf_registerTopic (((\<lambda>c. fst (mf_registerTopic c name)) ^^ 64512) c) name) = 0"
    using full by (simp add: mf_registerTopic_def MC_FAST_MAX_TOPICS_def)
qed

theorem mf_registerTopic_spec_witness:
  "\<exists>c c'. mf_new = Inr c \<and> mf_registerTopic c ''A'' = (c', 0) \<and> mf_resolveTopic c' ''A'' = 0 \<and> mf_resolveTopic c' ''B'' = UINT16_MAX"
proof -
  obtain c where c: "mf_new = Inr c" "\<forall>n. mf_topicMap c n = None" "mf_nextTopicId c = 0" using mf_new_ok by blast
  then have "fast_topics_inv c" by (simp add: fast_topics_inv_def MC_FAST_MAX_TOPICS_def)
  from mf_registerTopic_spec [OF this, of "''A''"] c obtain c' where "mf_registerTopic c ''A'' = (c', 0)" "mf_resolveTopic c' ''A'' = 0"
    "mf_resolveTopic c' ''B'' = mf_resolveTopic c ''B''" by (auto simp: MC_FAST_MAX_TOPICS_def)
  then show ?thesis using c by (auto simp: mf_resolveTopic_def)
qed

text \<open>
  \<open>flush\<close> on a running center returns, and if the thread makes enough turns while it sleeps,
  everything that was queued has been delivered.
\<close>

lemma mf_flush_ok:
  assumes "looping c k" and "k + int (sum_list ks) < 2 ^ 31" and "mf_pending c = of_nat (length (mf_events c))"
    and "length (mf_events c) \<le> sum_list ks" and "length (mf_events c) < 2 ^ 64"
  shows "\<exists>c' k'. mf_flush ks c = ret c' \<and> looping c' k' \<and> mf_events c' = [] \<and>
    f_log (mf_world c') = f_log (mf_world c) @ all_calls (mf_observers c) (mf_events c)"
  using assms
proof (induction ks arbitrary: c k)
  case Nil
  then have "mf_events c = []" by (simp add: mf_events_def mf_msgs_def)
  then show ?case using Nil.prems(1) by auto
next
  case (Cons j ks)
  show ?case
  proof (cases "mf_events c = []")
    case True
    then have "mf_pending c = 0" using Cons.prems(3) by simp
    then show ?thesis using Cons.prems(1) True by auto
  next
    case False
    have "unat (of_nat (length (mf_events c)) :: u64) = length (mf_events c)"
      using Cons.prems(5) by (simp add: unat_of_nat take_bit_nat_eq_self_iff)
    moreover have "0 < length (mf_events c)" using False by (simp del: length_mf_events)
    ultimately have pos: "0 < mf_pending c" using Cons.prems(3) by (simp add: word_less_nat_alt)
    have "k + int j < 2 ^ 31" using Cons.prems(2) by simp
    from mf_rounds_ok [OF Cons.prems(1) this] obtain c1 k1 where c1: "mf_rounds j c = ret c1" "looping c1 k1" "k1 \<le> k + int j"
      "mf_events c1 = drop j (mf_events c)" "mf_observers c1 = mf_observers c"
      "f_log (mf_world c1) = f_log (mf_world c) @ all_calls (mf_observers c) (take j (mf_events c))"
      "mf_pending c1 + of_nat (length (mf_events c)) = mf_pending c + of_nat (length (mf_events c1))" by blast
    have "mf_pending c1 = of_nat (length (mf_events c1))" using c1(7) Cons.prems(3) by (simp add: add.commute)
    moreover have "k1 + int (sum_list ks) < 2 ^ 31" using c1(3) Cons.prems(2) by simp
    moreover have "length (mf_events c1) \<le> sum_list ks" "length (mf_events c1) < 2 ^ 64"
      using Cons.prems(4,5) unfolding c1(4) by (simp_all del: length_mf_events)
    ultimately obtain c' k' where c': "mf_flush ks c1 = ret c'" "looping c' k'" "mf_events c' = []"
      "f_log (mf_world c') = f_log (mf_world c1) @ all_calls (mf_observers c1) (mf_events c1)"
      using Cons.IH [OF c1(2)] by blast
    have "all_calls (mf_observers c) (take j (mf_events c)) @ all_calls (mf_observers c) (drop j (mf_events c)) =
        all_calls (mf_observers c) (mf_events c)" by (metis all_calls_simps(3) append_take_drop_id)
    then show ?thesis using pos c1(1,4,5,6) c' by auto
  qed
qed

end
