(* ===== verification/Collection_Helper.thy ===== *)
theory Collection_Helper
  imports MC_Prelude
begin

text \<open>
  \<open>src/include/collectionhelper.h\<close>: helpers for containers. A range of object pointers is a list
  of addresses with \<open>None\<close> for null, a \<open>std::map\<close> is a map, and a function object that a helper
  is given changes a state of the caller.
\<close>

section \<open>The helpers\<close>

fun deleter :: "'a heap \<Rightarrow> nat option list \<Rightarrow> 'a heap outcome" where
  "deleter h [] = Inr h"
| "deleter h (None # ps) = deleter h ps"
| "deleter h (Some p # ps) = obind (delete_obj h p) (\<lambda>h1. deleter h1 ps)"

definition key_exists :: "('k \<rightharpoonup> 'v) \<Rightarrow> 'k \<Rightarrow> bool" where
  "key_exists container key \<longleftrightarrow> container key \<noteq> None"

text \<open>The value is passed by reference: the function may change the entry.\<close>

definition find_and_execute ::
  "('k \<rightharpoonup> 'v) \<Rightarrow> 'k \<Rightarrow> ('k \<Rightarrow> 'v \<Rightarrow> 's \<Rightarrow> 'v \<times> 's) \<Rightarrow> ('k \<Rightarrow> 's \<Rightarrow> 's) \<Rightarrow> 's \<Rightarrow> ('k \<rightharpoonup> 'v) \<times> 's" where
  "find_and_execute container key found_function not_found_function s =
     (case container key of
        Some v \<Rightarrow> let (v1, s1) = found_function key v s in (container(key \<mapsto> v1), s1)
      | None \<Rightarrow> (container, not_found_function key s))"

definition erase_entry_if_empty :: "('k \<rightharpoonup> 'v list) \<Rightarrow> 'k \<Rightarrow> ('k \<rightharpoonup> 'v list)" where
  "erase_entry_if_empty container key =
     (case container key of
        None \<Rightarrow> container
      | Some v \<Rightarrow> if length v = 0 then container(key := None) else container)"

text \<open>\<open>for_each\<close> calls the elements of the container and not the function it is given.\<close>

definition for_each :: "('s \<Rightarrow> 's) list \<Rightarrow> 'f \<Rightarrow> 's \<Rightarrow> 's" where
  "for_each container function s = fold (\<lambda>f. f) container s"

section \<open>What they do\<close>

definition non_null :: "nat option list \<Rightarrow> nat list" where
  "non_null ps = map the (filter (\<lambda>p. p \<noteq> None) ps)"

lemma deleter_delete_all: "deleter h ps = delete_all h (non_null ps)"
  by (induction h ps rule: deleter.induct) (auto simp: non_null_def obind_def split: sum.split)

text \<open>Distinct live objects are deleted and nothing else, whatever nulls stand between them.\<close>

lemma deleter_live:
  assumes "distinct (non_null ps)" and "set (non_null ps) \<subseteq> live h"
  shows "\<exists>h'. deleter h ps = Inr h' \<and> cells h' = (\<lambda>a. if Some a \<in> set ps then None else cells h a)"
proof -
  have "a \<in> set (non_null ps) \<longleftrightarrow> Some a \<in> set ps" for a by (force simp: non_null_def)
  then show ?thesis using delete_all_live [OF assms] by (auto simp: deleter_delete_all)
qed

text \<open>The container keeps its pointers: a second call deletes the same objects again.\<close>

lemma deleter_twice:
  assumes "deleter h ps = Inr h'" and "distinct (non_null ps)" "set (non_null ps) \<subseteq> live h" and "Some p \<in> set ps"
  shows "deleter h' ps = Inl UseAfterFree"
proof -
  have dead: "cells h' a = None" if "a \<in> set (non_null ps)" for a
    using deleter_live [OF assms(2,3)] assms(1) that by (fastforce simp: non_null_def)
  have "p \<in> set (non_null ps)" using assms(4) by (force simp: non_null_def)
  then obtain a as where "non_null ps = a # as" by (cases "non_null ps") auto
  then show ?thesis using dead [of a] by (simp add: deleter_delete_all delete_obj_def)
qed

lemma erase_entry_if_empty_spec:
  "erase_entry_if_empty m k k' = (if k' = k \<and> m k = Some [] then None else m k')"
  by (auto simp: erase_entry_if_empty_def split: option.split)

lemma find_and_execute_spec:
  "key_exists m k \<Longrightarrow> find_and_execute m k f g s = (m(k \<mapsto> fst (f k (the (m k)) s)), snd (f k (the (m k)) s))"
  "\<not> key_exists m k \<Longrightarrow> find_and_execute m k f g s = (m, g k s)"
  by (auto simp: find_and_execute_def key_exists_def split: prod.split)

end
