(* ===== verification/Batch_Threads.thy ===== *)
theory Batch_Threads
  imports Queue_Batch Fast_Threads
begin

text \<open>
  The threads of \<open>EventQueueBroadcastFastBatch\<close>: one posting thread, with the batch buffer that is
  its own, and any number of dispatching threads, interleaved between the operations on the ring and on the
  pool, as in \<open>Fast_Threads\<close>. A flush pushes the buffered messages one by one. A
  dispatch first fetches a batch, then makes the calls of each message, then returns each to the
  pool; \<open>dispatchOne\<close> takes the steps of \<open>dispatchBatch(1)\<close>.

  In the abstract machine messages are the calls they will make; a buffer that is being flushed is
  what is left to push of it, without the index into the array.
\<close>

section \<open>Threads\<close>

datatype batch_poster = BIdle | BPosting nat | BFlushing nat
datatype batch_phase = Waiting | Fetching nat | Calling | Returning

record batch_disp =
  g_phase :: batch_phase
  g_batch :: "nat list"
  g_sent :: "nat list"

record batch_sys =
  n_queue :: batch_queue
  n_poster :: batch_poster
  n_disps :: "batch_disp list"

datatype batch_action =
    BAdd u16 nat nat
  | BPost u16 buffer u64
  | BPostBatched u16 buffer u64
  | BFlush
  | BPush
  | BStart nat u64
  | BFetch nat
  | BCall nat
  | BReturn nat

definition with_disp :: "batch_sys \<Rightarrow> nat \<Rightarrow> batch_disp \<Rightarrow> batch_sys" where
  "with_disp s t d = s\<lparr>n_disps := (n_disps s)[t := d]\<rparr>"

definition batch_message_for :: "u16 \<Rightarrow> buffer \<Rightarrow> u64 \<Rightarrow> batch_queue \<Rightarrow> (batch_queue \<times> nat) outcome" where
  "batch_message_for topic dat sz q =
     obind (chan_fill (acquire zero_message) obj_read obj_write (fill_for (b_topics q) topic dat sz) (b_messagePool q) (b_world q))
       (\<lambda>(p, n, w). Inr (q\<lparr>b_messagePool := p, b_world := w\<rparr>, n))"

text \<open>An action that a thread is not ready for changes nothing.\<close>

fun batch_act :: "batch_action \<Rightarrow> batch_sys \<Rightarrow> batch_sys run" where
  "batch_act (BAdd topic cb ud) s = ret (s\<lparr>n_queue := fst (bq_addObserver (n_queue s) topic (Some cb) ud)\<rparr>)"
| "batch_act (BPost topic dat sz) s =
     (if n_poster s \<noteq> BIdle \<or> BATCH_MAX_TOPICS \<le> topic \<or> t_count (b_topics (n_queue s) (unat topic)) = 0 then ret s
      else Some (obind (batch_message_for topic dat sz (n_queue s)) (\<lambda>(q, n). Inr (s\<lparr>n_queue := q, n_poster := BPosting n\<rparr>))))"
| "batch_act (BPostBatched topic dat sz) s =
     (if n_poster s \<noteq> BIdle \<or> BATCH_MAX_TOPICS \<le> topic \<or> t_count (b_topics (n_queue s) (unat topic)) = 0 then ret s
      else Some (obind (batch_message_for topic dat sz (n_queue s)) (\<lambda>(q, n).
        if BATCH_SIZE \<le> length (t_batch q) then Inl OutOfBounds
        else
          let q1 = q\<lparr>t_batch := t_batch q @ [n]\<rparr> in
          Inr (s\<lparr>n_queue := q1, n_poster := (if BATCH_SIZE \<le> length (t_batch q1) then BFlushing 0 else BIdle)\<rparr>))))"
| "batch_act BFlush s = ret (if n_poster s = BIdle then s\<lparr>n_poster := BFlushing 0\<rparr> else s)"
| "batch_act BPush s =
     (case n_poster s of
        BIdle \<Rightarrow> ret s
      | BPosting n \<Rightarrow>
          rbind (try_push (b_queue (n_queue s)) n) (\<lambda>(r, b).
            ret (s\<lparr>n_queue := (n_queue s)\<lparr>b_queue := r\<rparr>, n_poster := (if b then BIdle else BPosting n)\<rparr>))
      | BFlushing i \<Rightarrow>
          if i < length (t_batch (n_queue s)) then
            rbind (try_push (b_queue (n_queue s)) (t_batch (n_queue s) ! i)) (\<lambda>(r, b).
              ret (s\<lparr>n_queue := (n_queue s)\<lparr>b_queue := r\<rparr>, n_poster := BFlushing (if b then i + 1 else i)\<rparr>))
          else ret (s\<lparr>n_queue := (n_queue s)\<lparr>t_batch := []\<rparr>, n_poster := BIdle\<rparr>))"
| "batch_act (BStart t maxCount) s =
     (if length (n_disps s) \<le> t \<or> g_phase (n_disps s ! t) \<noteq> Waiting then ret s
      else ret (with_disp s t ((n_disps s ! t)\<lparr>g_phase := Fetching (min (unat maxCount) BATCH_SIZE)\<rparr>)))"
| "batch_act (BFetch t) s =
     (if length (n_disps s) \<le> t then ret s
      else let d = n_disps s ! t in
        case g_phase d of
          Fetching 0 \<Rightarrow> ret (with_disp s t (d\<lparr>g_phase := Calling\<rparr>))
        | Fetching (Suc k) \<Rightarrow>
            rbind (try_pop (b_queue (n_queue s))) (\<lambda>(r, x). case x of
              None \<Rightarrow> ret (with_disp (s\<lparr>n_queue := (n_queue s)\<lparr>b_queue := r\<rparr>\<rparr>) t (d\<lparr>g_phase := Calling\<rparr>))
            | Some n \<Rightarrow>
                if BATCH_SIZE \<le> length (g_batch d) then Some (Inl OutOfBounds)
                else ret (with_disp (s\<lparr>n_queue := (n_queue s)\<lparr>b_queue := r\<rparr>\<rparr>) t (d\<lparr>g_phase := Fetching k, g_batch := g_batch d @ [n]\<rparr>)))
        | _ \<Rightarrow> ret s)"
| "batch_act (BCall t) s =
     (if length (n_disps s) \<le> t \<or> g_phase (n_disps s ! t) \<noteq> Calling then ret s
      else let d = n_disps s ! t in
        case g_batch d of
          [] \<Rightarrow> ret (with_disp s t (d\<lparr>g_phase := Returning\<rparr>))
        | n # ns \<Rightarrow>
            Some (obind (deref (obj_read (b_messagePool (n_queue s)) n)) (\<lambda>m.
              obind (deliver (unat BATCH_MAX_OBSERVERS) m (b_world (n_queue s))) (\<lambda>w.
                Inr (with_disp (s\<lparr>n_queue := (n_queue s)\<lparr>b_world := w\<rparr>\<rparr>) t (d\<lparr>g_batch := ns, g_sent := g_sent d @ [n]\<rparr>))))))"
| "batch_act (BReturn t) s =
     (if length (n_disps s) \<le> t \<or> g_phase (n_disps s ! t) \<noteq> Returning then ret s
      else let d = n_disps s ! t in
        case g_sent d of
          [] \<Rightarrow> ret (with_disp s t (d\<lparr>g_phase := Waiting\<rparr>))
        | n # ns \<Rightarrow>
            Some (obind (release (b_messagePool (n_queue s)) (Some n)) (\<lambda>p.
              Inr (with_disp (s\<lparr>n_queue := (n_queue s)\<lparr>b_messagePool := p\<rparr>\<rparr>) t (d\<lparr>g_sent := ns\<rparr>)))))"

fun batch_acts :: "batch_sys \<Rightarrow> batch_action list \<Rightarrow> batch_sys run" where
  "batch_acts s [] = ret s"
| "batch_acts s (a # as) = rbind (batch_act a s) (\<lambda>s1. batch_acts s1 as)"

definition batch_threads :: "batch_queue \<Rightarrow> nat \<Rightarrow> batch_sys" where
  "batch_threads q N = \<lparr>n_queue = q, n_poster = BIdle, n_disps = replicate N \<lparr>g_phase = Waiting, g_batch = [], g_sent = []\<rparr>\<rparr>"

section \<open>The abstract machine\<close>

datatype hposter = HIdle | HPosting "delivery list" | HFlushing

record hdisp =
  i_phase :: batch_phase
  i_due :: "delivery list list"
  i_sent :: nat

record batch_abs =
  h_topics :: topic_table
  h_ring :: "delivery list list"
  h_batch :: "delivery list list"
  h_poster :: hposter
  h_disps :: "hdisp list"
  h_log :: "delivery list"

definition with_hdisp :: "batch_abs \<Rightarrow> nat \<Rightarrow> hdisp \<Rightarrow> batch_abs" where
  "with_hdisp a t d = a\<lparr>h_disps := (h_disps a)[t := d]\<rparr>"

fun habs_act :: "nat \<Rightarrow> batch_action \<Rightarrow> batch_abs \<Rightarrow> batch_abs" where
  "habs_act C (BAdd topic cb ud) a =
     a\<lparr>h_topics := fst (add_observer BATCH_MAX_TOPICS BATCH_MAX_OBSERVERS (h_topics a) topic (Some cb) ud)\<rparr>"
| "habs_act C (BPost topic dat sz) a =
     (if h_poster a \<noteq> HIdle \<or> BATCH_MAX_TOPICS \<le> topic \<or> t_count (h_topics a (unat topic)) = 0 then a
      else a\<lparr>h_poster := HPosting (expected_calls (h_topics a) topic dat sz)\<rparr>)"
| "habs_act C (BPostBatched topic dat sz) a =
     (if h_poster a \<noteq> HIdle \<or> BATCH_MAX_TOPICS \<le> topic \<or> t_count (h_topics a (unat topic)) = 0 then a
      else a\<lparr>h_batch := h_batch a @ [expected_calls (h_topics a) topic dat sz],
             h_poster := (if BATCH_SIZE \<le> Suc (length (h_batch a)) then HFlushing else HIdle)\<rparr>)"
| "habs_act C BFlush a = (if h_poster a = HIdle then a\<lparr>h_poster := HFlushing\<rparr> else a)"
| "habs_act C BPush a =
     (case h_poster a of
        HIdle \<Rightarrow> a
      | HPosting d \<Rightarrow> if length (h_ring a) < C then a\<lparr>h_ring := h_ring a @ [d], h_poster := HIdle\<rparr> else a
      | HFlushing \<Rightarrow>
          (case h_batch a of
             [] \<Rightarrow> a\<lparr>h_poster := HIdle\<rparr>
           | d # ds \<Rightarrow> if length (h_ring a) < C then a\<lparr>h_ring := h_ring a @ [d], h_batch := ds\<rparr> else a))"
| "habs_act C (BStart t maxCount) a =
     (if length (h_disps a) \<le> t \<or> i_phase (h_disps a ! t) \<noteq> Waiting then a
      else with_hdisp a t ((h_disps a ! t)\<lparr>i_phase := Fetching (min (unat maxCount) BATCH_SIZE)\<rparr>))"
| "habs_act C (BFetch t) a =
     (if length (h_disps a) \<le> t then a
      else let d = h_disps a ! t in
        case i_phase d of
          Fetching 0 \<Rightarrow> with_hdisp a t (d\<lparr>i_phase := Calling\<rparr>)
        | Fetching (Suc k) \<Rightarrow>
            (case h_ring a of
               [] \<Rightarrow> with_hdisp a t (d\<lparr>i_phase := Calling\<rparr>)
             | c # cs \<Rightarrow> with_hdisp (a\<lparr>h_ring := cs\<rparr>) t (d\<lparr>i_phase := Fetching k, i_due := i_due d @ [c]\<rparr>))
        | _ \<Rightarrow> a)"
| "habs_act C (BCall t) a =
     (if length (h_disps a) \<le> t \<or> i_phase (h_disps a ! t) \<noteq> Calling then a
      else let d = h_disps a ! t in
        case i_due d of
          [] \<Rightarrow> with_hdisp a t (d\<lparr>i_phase := Returning\<rparr>)
        | c # cs \<Rightarrow> with_hdisp (a\<lparr>h_log := h_log a @ c\<rparr>) t (d\<lparr>i_due := cs, i_sent := i_sent d + 1\<rparr>))"
| "habs_act C (BReturn t) a =
     (if length (h_disps a) \<le> t \<or> i_phase (h_disps a ! t) \<noteq> Returning then a
      else let d = h_disps a ! t in
        if i_sent d = 0 then with_hdisp a t (d\<lparr>i_phase := Waiting\<rparr>) else with_hdisp a t (d\<lparr>i_sent := i_sent d - 1\<rparr>))"

text \<open>What the threads stand for, if \<open>c n\<close> are the calls that the message \<open>n\<close> will make.\<close>

definition batch_calls :: "batch_queue \<Rightarrow> nat \<Rightarrow> delivery list" where
  "batch_calls q n = deliveries (rc_heap (b_world q)) (the (obj_read (b_messagePool q) n))"

fun not_pushed :: "batch_poster \<Rightarrow> 'n list \<Rightarrow> 'n list" where
  "not_pushed (BFlushing i) ns = drop i ns"
| "not_pushed (BPosting n) ns = ns"
| "not_pushed BIdle ns = ns"

definition left_to_push :: "batch_sys \<Rightarrow> nat list" where
  "left_to_push s = not_pushed (n_poster s) (t_batch (n_queue s))"

definition hdisp_of :: "(nat \<Rightarrow> delivery list) \<Rightarrow> batch_disp \<Rightarrow> hdisp" where
  "hdisp_of c d = \<lparr>i_phase = g_phase d, i_due = map c (g_batch d), i_sent = length (g_sent d)\<rparr>"

fun hposter_of :: "(nat \<Rightarrow> delivery list) \<Rightarrow> batch_poster \<Rightarrow> hposter" where
  "hposter_of c BIdle = HIdle"
| "hposter_of c (BPosting n) = HPosting (c n)"
| "hposter_of c (BFlushing i) = HFlushing"

definition batch_abs_with :: "(nat \<Rightarrow> delivery list) \<Rightarrow> batch_sys \<Rightarrow> batch_abs" where
  "batch_abs_with c s =
     \<lparr>h_topics = b_topics (n_queue s), h_ring = map c (contents (b_queue (n_queue s))), h_batch = map c (left_to_push s),
      h_poster = hposter_of c (n_poster s), h_disps = map (hdisp_of c) (n_disps s), h_log = log (b_world (n_queue s))\<rparr>"

definition batch_abs_of :: "batch_sys \<Rightarrow> batch_abs" where
  "batch_abs_of s = batch_abs_with (batch_calls (n_queue s)) s"


section \<open>Invariant\<close>

text \<open>
  The nodes with calls due: in the ring, at the poster, in the buffer as far as it is still to be
  pushed, and fetched by a dispatcher but not delivered. The threads hold all of these but those in the
  ring, and the ones to be returned to the pool.
\<close>

definition posting_nodes :: "batch_sys \<Rightarrow> nat list" where
  "posting_nodes s = (case n_poster s of BPosting n \<Rightarrow> [n] | _ \<Rightarrow> [])"

definition fetched_nodes :: "batch_sys \<Rightarrow> nat list" where
  "fetched_nodes s = concat (map g_batch (n_disps s))"

definition sent_nodes :: "batch_sys \<Rightarrow> nat list" where
  "sent_nodes s = concat (map g_sent (n_disps s))"

definition batch_due :: "batch_sys \<Rightarrow> nat list" where
  "batch_due s = contents (b_queue (n_queue s)) @ posting_nodes s @ left_to_push s @ fetched_nodes s"

definition batch_held :: "batch_sys \<Rightarrow> nat list" where
  "batch_held s = posting_nodes s @ left_to_push s @ fetched_nodes s @ sent_nodes s"

fun batch_poster_ok :: "batch_poster \<Rightarrow> nat \<Rightarrow> bool" where
  "batch_poster_ok (BFlushing i) k \<longleftrightarrow> i \<le> k"
| "batch_poster_ok _ k \<longleftrightarrow> k < BATCH_SIZE"

definition batch_disp_ok :: "batch_disp \<Rightarrow> bool" where
  "batch_disp_ok d \<longleftrightarrow>
     (case g_phase d of
        Waiting \<Rightarrow> g_batch d = [] \<and> g_sent d = []
      | Fetching k \<Rightarrow> k + length (g_batch d) \<le> BATCH_SIZE
      | Calling \<Rightarrow> True
      | Returning \<Rightarrow> g_batch d = [])"

definition bsys_inv :: "batch_sys \<Rightarrow> bool" where
  "bsys_inv s \<longleftrightarrow>
     (let q = n_queue s in
      ring_chan_ok (b_queue q) (b_messagePool q) (batch_held s) \<and>
      msgs_ok 16 (rc_heap (b_world q)) (vals obj_read (b_messagePool q) (batch_due s)) \<and> topics_ok 16 (b_topics q) \<and>
      (\<forall>d \<in> set (n_disps s). batch_disp_ok d) \<and>
      batch_poster_ok (n_poster s) (length (t_batch q)))"

lemma bsys_invD:
  assumes "bsys_inv s"
  shows "ring_chan_ok (b_queue (n_queue s)) (b_messagePool (n_queue s)) (batch_held s)"
    and "msgs_ok 16 (rc_heap (b_world (n_queue s))) (vals obj_read (b_messagePool (n_queue s)) (batch_due s))"
    and "topics_ok 16 (b_topics (n_queue s))" and "d \<in> set (n_disps s) \<Longrightarrow> batch_disp_ok d"
    and "batch_poster_ok (n_poster s) (length (t_batch (n_queue s)))"
    and "ring_inv (b_queue (n_queue s))"
  using assms by (simp_all add: bsys_inv_def Let_def chan_ok_def)

lemma bsys_invI:
  assumes "ring_chan_ok (b_queue (n_queue s)) (b_messagePool (n_queue s)) B" "mset B = mset (batch_held s)"
    and "msgs_ok 16 (rc_heap (b_world (n_queue s))) ms" "mset ms = mset (vals obj_read (b_messagePool (n_queue s)) (batch_due s))"
    and "topics_ok 16 (b_topics (n_queue s))" and "\<And>d. d \<in> set (n_disps s) \<Longrightarrow> batch_disp_ok d"
    and "batch_poster_ok (n_poster s) (length (t_batch (n_queue s)))"
  shows "bsys_inv s"
  using chan_ok_perm [OF assms(2,1)] msgs_ok_perm [OF assms(4,3)] assms(5-7) by (simp add: bsys_inv_def Let_def)

lemma mset_concat_update:
  assumes "t < length xs"
  shows "mset (concat (map f (xs[t := y]))) + mset (f (xs ! t)) = mset (concat (map f xs)) + mset (f y)"
proof -
  have "concat (map f xs) = concat (map f (take t xs @ xs ! t # drop (Suc t) xs))" using id_take_nth_drop [OF assms] by simp
  moreover have "concat (map f (xs[t := y])) = concat (map f (take t xs @ y # drop (Suc t) xs))" using upd_conv_take_nth_drop [OF assms] by simp
  ultimately show ?thesis by simp
qed

text \<open>What a step must do.\<close>

definition batch_refines :: "batch_sys \<Rightarrow> batch_action \<Rightarrow> batch_sys \<Rightarrow> bool" where
  "batch_refines s a s' \<longleftrightarrow> bsys_inv s' \<and> batch_abs_of s' = habs_act (capacity (b_queue (n_queue s))) a (batch_abs_of s) \<and>
     capacity (b_queue (n_queue s')) = capacity (b_queue (n_queue s)) \<and>
     push_room (b_queue (n_queue s)) \<le> push_room (b_queue (n_queue s')) + (if a = BPush then 1 else 0)"

lemma batch_refines_stutter:
  "bsys_inv s \<Longrightarrow> habs_act (capacity (b_queue (n_queue s))) a (batch_abs_of s) = batch_abs_of s \<Longrightarrow> batch_refines s a s"
  by (simp add: batch_refines_def)

lemma batch_abs_cong:
  assumes "\<And>n. n \<in> set (batch_due s) \<Longrightarrow> c n = c' n"
  shows "batch_abs_with c s = batch_abs_with c' s"
proof -
  have "map (hdisp_of c) (n_disps s) = map (hdisp_of c') (n_disps s)"
    using assms by (auto simp: hdisp_of_def batch_due_def fetched_nodes_def)
  moreover have "hposter_of c (n_poster s) = hposter_of c' (n_poster s)"
    using assms by (cases "n_poster s") (simp_all add: batch_due_def posting_nodes_def)
  ultimately show ?thesis using assms by (auto simp: batch_abs_with_def batch_due_def)
qed

lemmas batch_nodes_defs = batch_due_def batch_held_def posting_nodes_def left_to_push_def fetched_nodes_def sent_nodes_def

lemma with_disp_simps [simp]:
  "n_queue (with_disp s t d) = n_queue s" "n_poster (with_disp s t d) = n_poster s" "n_disps (with_disp s t d) = (n_disps s)[t := d]"
  "posting_nodes (with_disp s t d) = posting_nodes s" "left_to_push (with_disp s t d) = left_to_push s"
  by (simp_all add: with_disp_def posting_nodes_def left_to_push_def)

lemma batch_abs_disps:
  "h_disps (batch_abs_of s) = map (hdisp_of (batch_calls (n_queue s))) (n_disps s)" "h_ring (batch_abs_of s) = map (batch_calls (n_queue s)) (contents (b_queue (n_queue s)))"
  "h_topics (batch_abs_of s) = b_topics (n_queue s)" "h_batch (batch_abs_of s) = map (batch_calls (n_queue s)) (left_to_push s)"
  "h_poster (batch_abs_of s) = hposter_of (batch_calls (n_queue s)) (n_poster s)" "h_log (batch_abs_of s) = log (b_world (n_queue s))"
  by (simp_all add: batch_abs_of_def batch_abs_with_def)

lemma hdisp_of_simps [simp]:
  "i_phase (hdisp_of c d) = g_phase d" "i_due (hdisp_of c d) = map c (g_batch d)" "i_sent (hdisp_of c d) = length (g_sent d)"
  by (simp_all add: hdisp_of_def)

lemma hposter_of_idle [simp]: "hposter_of c pc = HIdle \<longleftrightarrow> pc = BIdle"
  by (cases pc) simp_all

text \<open>A change of the phase alone.\<close>

lemma phase_step:
  assumes inv: "bsys_inv s" and t: "t < length (n_disps s)" and ok: "batch_disp_ok ((n_disps s ! t)\<lparr>g_phase := ph\<rparr>)"
  shows "bsys_inv (with_disp s t ((n_disps s ! t)\<lparr>g_phase := ph\<rparr>))"
    and "batch_abs_of (with_disp s t ((n_disps s ! t)\<lparr>g_phase := ph\<rparr>)) =
      with_hdisp (batch_abs_of s) t ((h_disps (batch_abs_of s) ! t)\<lparr>i_phase := ph\<rparr>)"
proof -
  let ?d = "(n_disps s ! t)\<lparr>g_phase := ph\<rparr>"
  have "mset (fetched_nodes (with_disp s t ?d)) = mset (fetched_nodes s)" "mset (sent_nodes (with_disp s t ?d)) = mset (sent_nodes s)"
    using mset_concat_update [OF t, of g_batch ?d] mset_concat_update [OF t, of g_sent ?d] by (simp_all add: fetched_nodes_def sent_nodes_def)
  then have nodes: "mset (batch_held s) = mset (batch_held (with_disp s t ?d))" "mset (batch_due s) = mset (batch_due (with_disp s t ?d))"
    by (simp_all add: batch_held_def batch_due_def)
  have "batch_disp_ok d" if "d \<in> set ((n_disps s)[t := ?d])" for d
    using set_update_subset_insert [of "n_disps s" t ?d] that ok bsys_invD(4) [OF inv] by blast
  then show "bsys_inv (with_disp s t ?d)"
    using bsys_invD [OF inv] nodes by (intro bsys_invI [where B = "batch_held s" and ms = "vals obj_read (b_messagePool (n_queue s)) (batch_due s)"])
      (simp_all add: vals_def)
  show "batch_abs_of (with_disp s t ?d) = with_hdisp (batch_abs_of s) t ((h_disps (batch_abs_of s) ! t)\<lparr>i_phase := ph\<rparr>)"
    using t by (simp add: batch_abs_of_def batch_abs_with_def with_hdisp_def map_update hdisp_of_def)
qed

lemma phase_refines:
  assumes inv: "bsys_inv s" and t: "t < length (n_disps s)" and ok: "batch_disp_ok ((n_disps s ! t)\<lparr>g_phase := ph\<rparr>)"
    and act: "habs_act (capacity (b_queue (n_queue s))) a (batch_abs_of s) =
      with_hdisp (batch_abs_of s) t ((h_disps (batch_abs_of s) ! t)\<lparr>i_phase := ph\<rparr>)"
  shows "batch_refines s a (with_disp s t ((n_disps s ! t)\<lparr>g_phase := ph\<rparr>))"
  using phase_step [OF assms(1-3)] act by (simp add: batch_refines_def)


section \<open>Refinement: the posting thread\<close>

lemma chan_ok_push: "ring_chan_ok q p (n # B) \<Longrightarrow> ring_inv r \<Longrightarrow> contents r = contents q @ [n] \<Longrightarrow> ring_chan_ok r p B"
  by (auto simp: chan_ok_def insert_commute)

lemma chan_ok_pop: "ring_chan_ok q p B \<Longrightarrow> ring_inv r \<Longrightarrow> contents q = n # contents r \<Longrightarrow> ring_chan_ok r p (n # B)"
  by (auto simp: chan_ok_def insert_commute)

lemma batch_add_ok:
  assumes inv: "bsys_inv s"
  shows "\<exists>s'. batch_act (BAdd topic cb ud) s = ret s' \<and> batch_refines s (BAdd topic cb ud) s'"
proof -
  let ?q = "fst (bq_addObserver (n_queue s) topic (Some cb) ud)" and ?s = "s\<lparr>n_queue := fst (bq_addObserver (n_queue s) topic (Some cb) ud)\<rparr>"
  note D = bsys_invD [OF inv]
  let ?ts = "fst (add_observer BATCH_MAX_TOPICS BATCH_MAX_OBSERVERS (b_topics (n_queue s)) topic (Some cb) ud)"
  have q: "?q = (n_queue s)\<lparr>b_topics := ?ts\<rparr>" by (simp add: bq_addObserver_def Let_def split_def)
  have "topics_ok 16 ?ts"
    using add_observer_ok [of BATCH_MAX_OBSERVERS "b_topics (n_queue s)" "Some cb" BATCH_MAX_TOPICS topic ud] D(3)
    by (simp add: BATCH_MAX_OBSERVERS_def)
  moreover have "batch_held ?s = batch_held s" "batch_due ?s = batch_due s" by (simp_all add: batch_nodes_defs q)
  ultimately have "bsys_inv ?s" using D(1,2,4,5) by (simp add: bsys_inv_def Let_def q)
  moreover have "batch_calls ?q = batch_calls (n_queue s)" by (simp add: batch_calls_def q fun_eq_iff)
  then have "batch_abs_of ?s = habs_act C (BAdd topic cb ud) (batch_abs_of s)" for C
    by (simp add: batch_abs_of_def batch_abs_with_def left_to_push_def q)
  ultimately show ?thesis by (simp add: batch_refines_def q)
qed

text \<open>A message is filled in and held.\<close>

lemma batch_message_ok:
  assumes inv: "bsys_inv s" and buf: "buffer_ok dat sz" and obs: "t_count (b_topics (n_queue s) (unat topic)) \<noteq> 0"
  shows "\<exists>p n w. batch_message_for topic dat sz (n_queue s) = Inr ((n_queue s)\<lparr>b_messagePool := p, b_world := w\<rparr>, n) \<and>
    ring_chan_ok (b_queue (n_queue s)) p (batch_held s @ [n]) \<and> msgs_ok 16 (rc_heap w) (vals obj_read p (batch_due s @ [n])) \<and>
    log w = log (b_world (n_queue s)) \<and>
    (\<forall>a \<in> set (batch_due s). batch_calls ((n_queue s)\<lparr>b_messagePool := p, b_world := w\<rparr>) a = batch_calls (n_queue s) a) \<and>
    batch_calls ((n_queue s)\<lparr>b_messagePool := p, b_world := w\<rparr>) n = expected_calls (b_topics (n_queue s)) topic dat sz"
proof -
  let ?q = "n_queue s" and ?B = "batch_held s"
  note D = bsys_invD [OF inv]
  let ?mk = "fill_for (b_topics ?q) topic dat sz"
  note fill = fill_for_ok [where topic = topic, OF D(2,3) buf obs]
  from chan.hold_ok [where mk = ?mk and w = "b_world ?q", OF D(1) fill(1), of zero_message]
  obtain p n w old m where h: "chan_fill (acquire zero_message) obj_read obj_write ?mk (b_messagePool ?q) (b_world ?q) = Inr (p, n, w)"
    "?mk old (b_world ?q) = Inr (m, w)" "ring_chan_ok (b_queue ?q) p (?B @ [n])"
    "ring_msgs (b_queue ?q) p = ring_msgs (b_queue ?q) (b_messagePool ?q)" "vals obj_read p (?B @ [n]) = vals obj_read (b_messagePool ?q) ?B @ [m]" by blast
  note m = fill(2) [OF h(2)]
  let ?q' = "?q\<lparr>b_messagePool := p, b_world := w\<rparr>"
  have new: "the (obj_read p n) = m" using h(5) by simp
  have same: "the (obj_read p a) = the (obj_read (b_messagePool ?q) a)" if "a \<in> set (batch_due s)" for a
    using that h(4,5) by (auto simp: batch_due_def batch_held_def chan_msgs_def vals_def)
  then have "vals obj_read p (batch_due s) = vals obj_read (b_messagePool ?q) (batch_due s)" by (simp add: vals_def)
  then have "msgs_ok 16 (rc_heap w) (vals obj_read p (batch_due s @ [n]))" using m new by simp
  moreover have "batch_calls ?q' a = batch_calls ?q a" if "a \<in> set (batch_due s)" for a
    using that same m by (auto simp: batch_calls_def vals_def)
  moreover have "batch_calls ?q' n = expected_calls (b_topics ?q) topic dat sz" using m new by (simp add: batch_calls_def)
  ultimately show ?thesis using h(1,3) m by (intro exI [of _ p] exI [of _ n] exI [of _ w]) (simp add: batch_message_for_def)
qed

lemma batch_post_ok:
  assumes inv: "bsys_inv s" and buf: "buffer_ok dat sz" and x: "x = BPost topic dat sz \<or> x = BPostBatched topic dat sz"
  shows "\<exists>s'. batch_act x s = ret s' \<and> batch_refines s x s'"
proof (cases "n_poster s \<noteq> BIdle \<or> BATCH_MAX_TOPICS \<le> topic \<or> t_count (b_topics (n_queue s) (unat topic)) = 0")
  case True
  then have "batch_act x s = ret s" "habs_act C x (batch_abs_of s) = batch_abs_of s" for C using x by (auto simp: batch_abs_disps)
  then show ?thesis using batch_refines_stutter [OF inv] by blast
next
  case False
  let ?q = "n_queue s"
  note D = bsys_invD [OF inv]
  have idle: "n_poster s = BIdle" and obs: "t_count (b_topics ?q (unat topic)) \<noteq> 0" using False by simp_all
  obtain p n w where m: "batch_message_for topic dat sz ?q = Inr (?q\<lparr>b_messagePool := p, b_world := w\<rparr>, n)"
    "ring_chan_ok (b_queue ?q) p (batch_held s @ [n])" "msgs_ok 16 (rc_heap w) (vals obj_read p (batch_due s @ [n]))"
    "log w = log (b_world ?q)" "\<forall>a \<in> set (batch_due s). batch_calls (?q\<lparr>b_messagePool := p, b_world := w\<rparr>) a = batch_calls ?q a"
    "batch_calls (?q\<lparr>b_messagePool := p, b_world := w\<rparr>) n = expected_calls (b_topics ?q) topic dat sz"
    using batch_message_ok [OF inv buf obs] by blast
  let ?c = "batch_calls (?q\<lparr>b_messagePool := p, b_world := w\<rparr>)"
  have abs: "batch_abs_of s = batch_abs_with ?c s" unfolding batch_abs_of_def using m(5) by (intro batch_abs_cong) simp
  have len: "length (t_batch ?q) < BATCH_SIZE" using D(5) idle by simp
  define batched where "batched = (x = BPostBatched topic dat sz)"
  let ?pc = "if batched then if BATCH_SIZE \<le> Suc (length (t_batch ?q)) then BFlushing 0 else BIdle else BPosting n"
  let ?s = "s\<lparr>n_queue := ?q\<lparr>b_messagePool := p, b_world := w, t_batch := t_batch ?q @ (if batched then [n] else [])\<rparr>, n_poster := ?pc\<rparr>"
  have "batch_act x s = ret ?s" using x False m(1) len by (auto simp: batched_def Let_def)
  moreover have "bsys_inv ?s"
  proof (rule bsys_invI)
    show "ring_chan_ok (b_queue (n_queue ?s)) (b_messagePool (n_queue ?s)) (batch_held s @ [n])" using m(2) by simp
    show "mset (batch_held s @ [n]) = mset (batch_held ?s)" using idle by (simp add: batch_nodes_defs)
    show "msgs_ok 16 (rc_heap (b_world (n_queue ?s))) (vals obj_read p (batch_due s @ [n]))" using m(3) by simp
    show "mset (vals obj_read p (batch_due s @ [n])) = mset (vals obj_read (b_messagePool (n_queue ?s)) (batch_due ?s))"
      using idle by (simp add: batch_nodes_defs vals_def)
  qed (use D(3,4) len in simp_all)
  moreover have "batch_calls (n_queue ?s) = ?c" by (simp add: batch_calls_def fun_eq_iff)
  then have "batch_abs_of ?s = batch_abs_with ?c ?s" by (simp add: batch_abs_of_def)
  then have "batch_abs_of ?s = habs_act (capacity (b_queue ?q)) x (batch_abs_of s)"
    unfolding abs using False x idle m(4,6) len
    by (auto simp: batched_def batch_abs_with_def left_to_push_def)
  ultimately show ?thesis by (auto simp: batch_refines_def)
qed

lemma batch_flush_ok:
  assumes inv: "bsys_inv s"
  shows "\<exists>s'. batch_act BFlush s = ret s' \<and> batch_refines s BFlush s'"
proof (cases "n_poster s = BIdle")
  case False
  then have "batch_act BFlush s = ret s" "habs_act C BFlush (batch_abs_of s) = batch_abs_of s" for C by (auto simp: batch_abs_disps)
  then show ?thesis using batch_refines_stutter [OF inv] by blast
next
  case True
  let ?s = "s\<lparr>n_poster := BFlushing 0\<rparr>"
  have "batch_held ?s = batch_held s" "batch_due ?s = batch_due s" using True by (simp_all add: batch_nodes_defs)
  then have "bsys_inv ?s" using bsys_invD [OF inv] by (simp add: bsys_inv_def Let_def)
  moreover have "batch_abs_of ?s = habs_act C BFlush (batch_abs_of s)" for C
    using True by (simp add: batch_abs_of_def batch_abs_with_def left_to_push_def)
  ultimately show ?thesis using True by (simp add: batch_refines_def)
qed


text \<open>A push of the node \<open>n\<close>, after which the poster is at \<open>pc\<close> and holds it no more.\<close>

lemma batch_pushed:
  assumes inv: "bsys_inv s" and r: "ring_inv r" "contents r = contents (b_queue (n_queue s)) @ [n]" "capacity r = capacity (b_queue (n_queue s))"
    and room: "push_room (b_queue (n_queue s)) \<le> push_room r + 1" and pc: "batch_poster_ok pc (length (t_batch (n_queue s)))"
    and nodes: "mset (posting_nodes s @ left_to_push s) = add_mset n (mset (posting_nodes s' @ left_to_push s'))"
    and s': "s' = s\<lparr>n_queue := (n_queue s)\<lparr>b_queue := r\<rparr>, n_poster := pc\<rparr>"
    and act: "habs_act (capacity (b_queue (n_queue s))) BPush (batch_abs_of s) =
      (batch_abs_of s)\<lparr>h_ring := h_ring (batch_abs_of s) @ [batch_calls (n_queue s) n],
        h_batch := map (batch_calls (n_queue s)) (left_to_push s'), h_poster := hposter_of (batch_calls (n_queue s)) pc\<rparr>"
  shows "batch_refines s BPush s'"
proof -
  let ?q = "n_queue s"
  note D = bsys_invD [OF inv]
  have nodes': "mset (posting_nodes s) + mset (left_to_push s) = add_mset n (mset (posting_nodes s') + mset (left_to_push s'))"
    using nodes by simp
  have "mset (batch_held s) = mset (n # batch_held s')"
    using nodes' by (simp add: batch_held_def fetched_nodes_def sent_nodes_def s' add.assoc [symmetric])
  from chan_ok_perm [OF this D(1)] have chan: "ring_chan_ok r (b_messagePool ?q) (batch_held s')" using chan_ok_push r(1,2) by blast
  have "mset (batch_due s) = mset (batch_due s')" using nodes' r(2) by (simp add: batch_due_def fetched_nodes_def s' ac_simps)
  then have "bsys_inv s'" using chan D(2-4) pc
    by (intro bsys_invI [where B = "batch_held s'" and ms = "vals obj_read (b_messagePool ?q) (batch_due s)"]) (simp_all add: s' vals_def)
  moreover have "batch_calls (n_queue s') = batch_calls ?q" by (simp add: batch_calls_def fun_eq_iff s')
  then have "batch_abs_of s' = habs_act (capacity (b_queue ?q)) BPush (batch_abs_of s)"
    unfolding act using r(2) by (simp add: batch_abs_of_def batch_abs_with_def s')
  ultimately show ?thesis using r(3) room by (simp add: batch_refines_def s')
qed

lemma batch_push_ok:
  assumes inv: "bsys_inv s" and room: "0 < push_room (b_queue (n_queue s))"
  shows "\<exists>s'. batch_act BPush s = ret s' \<and> batch_refines s BPush s'"
proof -
  let ?q = "n_queue s" and ?r = "b_queue (n_queue s)"
  note D = bsys_invD [OF inv]
  have stutter: ?thesis if "batch_act BPush s = ret s" "\<And>C. C = capacity ?r \<Longrightarrow> habs_act C BPush (batch_abs_of s) = batch_abs_of s"
    using batch_refines_stutter [OF inv] that by blast
  have full: "try_push ?r n = ret (?r, False) \<and> \<not> length (h_ring (batch_abs_of s)) < capacity ?r"
    if "\<not> length (contents ?r) < capacity ?r" for n
    using try_push_full [OF D(6)] length_contents_le [OF D(6)] that by (simp add: batch_abs_disps)
  show ?thesis
  proof (cases "n_poster s")
    case BIdle
    then show ?thesis by (intro stutter) (simp_all add: batch_abs_disps)
  next
    case (BPosting n)
    show ?thesis
    proof (cases "length (contents ?r) < capacity ?r")
      case False
      then show ?thesis using full [OF False, of n] BPosting by (intro stutter) (simp_all add: batch_abs_disps)
    next
      case True
      obtain r where r: "try_push ?r n = ret (r, True)" "ring_inv r" "contents r = contents ?r @ [n]"
        "capacity r = capacity ?r" "push_room r = push_room ?r - 1" using try_push_ok [OF D(6) True room] by blast
      have "batch_refines s BPush (s\<lparr>n_queue := ?q\<lparr>b_queue := r\<rparr>, n_poster := BIdle\<rparr>)"
        by (rule batch_pushed [where pc = BIdle, OF inv r(2-4)])
          (use r(5) BPosting True D(5) in \<open>simp_all add: posting_nodes_def left_to_push_def batch_abs_of_def batch_abs_with_def\<close>)
      then show ?thesis using BPosting r(1) by simp
    qed
  next
    case (BFlushing i)
    show ?thesis
    proof (cases "i < length (t_batch ?q)")
      case False
      let ?s = "s\<lparr>n_queue := ?q\<lparr>t_batch := []\<rparr>, n_poster := BIdle\<rparr>"
      have "batch_held ?s = batch_held s" "batch_due ?s = batch_due s" using BFlushing False by (simp_all add: batch_nodes_defs)
      then have "bsys_inv ?s" using D by (simp add: bsys_inv_def Let_def BATCH_SIZE_def)
      moreover have "batch_calls (n_queue ?s) = batch_calls ?q" by (simp add: batch_calls_def fun_eq_iff)
      then have "batch_abs_of ?s = habs_act (capacity ?r) BPush (batch_abs_of s)"
        using BFlushing False by (simp add: batch_abs_of_def batch_abs_with_def left_to_push_def)
      ultimately show ?thesis using BFlushing False by (simp add: batch_refines_def)
    next
      case i: True
      let ?n = "t_batch ?q ! i"
      have drop: "drop i (t_batch ?q) = ?n # drop (Suc i) (t_batch ?q)" using Cons_nth_drop_Suc [OF i] by simp
      show ?thesis
      proof (cases "length (contents ?r) < capacity ?r")
        case False
        then show ?thesis using full [OF False, of ?n] BFlushing i drop
          by (intro stutter) (simp_all add: batch_abs_disps left_to_push_def)
      next
        case True
        obtain r where r: "try_push ?r ?n = ret (r, True)" "ring_inv r" "contents r = contents ?r @ [?n]"
          "capacity r = capacity ?r" "push_room r = push_room ?r - 1" using try_push_ok [OF D(6) True room] by blast
        have "batch_refines s BPush (s\<lparr>n_queue := ?q\<lparr>b_queue := r\<rparr>, n_poster := BFlushing (i + 1)\<rparr>)"
          by (rule batch_pushed [where pc = "BFlushing (i + 1)", OF inv r(2-4)])
            (use r(5) BFlushing True i drop in
              \<open>simp_all add: posting_nodes_def left_to_push_def batch_abs_of_def batch_abs_with_def\<close>)
        then show ?thesis using BFlushing i r(1) by simp
      qed
    qed
  qed
qed

section \<open>Refinement: the dispatching threads\<close>

lemma batch_start_ok:
  assumes inv: "bsys_inv s"
  shows "\<exists>s'. batch_act (BStart t k) s = ret s' \<and> batch_refines s (BStart t k) s'"
proof (cases "length (n_disps s) \<le> t \<or> g_phase (n_disps s ! t) \<noteq> Waiting")
  case True
  then have "batch_act (BStart t k) s = ret s" "habs_act C (BStart t k) (batch_abs_of s) = batch_abs_of s" for C
    by (auto simp: batch_abs_disps)
  then show ?thesis using batch_refines_stutter [OF inv] by blast
next
  case False
  then have t: "t < length (n_disps s)" and ph: "g_phase (n_disps s ! t) = Waiting" by simp_all
  have "batch_disp_ok (n_disps s ! t)" using bsys_invD(4) [OF inv] t by simp
  then have "batch_disp_ok ((n_disps s ! t)\<lparr>g_phase := Fetching (min (unat k) BATCH_SIZE)\<rparr>)" using ph by (simp add: batch_disp_ok_def)
  from phase_refines [OF inv t this, of "BStart t k"] show ?thesis using t ph by (simp add: batch_abs_disps)
qed


text \<open>The thread \<open>t\<close> has moved on to \<open>d\<close>.\<close>

lemma moved_nodes:
  assumes "t < length (n_disps s)"
  shows "mset (concat (map g_batch ((n_disps s)[t := d]))) + mset (g_batch (n_disps s ! t)) = mset (fetched_nodes s) + mset (g_batch d)"
    and "mset (concat (map g_sent ((n_disps s)[t := d]))) + mset (g_sent (n_disps s ! t)) = mset (sent_nodes s) + mset (g_sent d)"
  using mset_concat_update [OF assms, of g_batch d] mset_concat_update [OF assms, of g_sent d] by (simp_all add: fetched_nodes_def sent_nodes_def)

lemma moved_ok: "bsys_inv s \<Longrightarrow> batch_disp_ok d \<Longrightarrow> e \<in> set ((n_disps s)[t := d]) \<Longrightarrow> batch_disp_ok e"
  using set_update_subset_insert [of "n_disps s" t d] bsys_invD(4) by blast

lemma batch_fetch_ok:
  assumes inv: "bsys_inv s"
  shows "\<exists>s'. batch_act (BFetch t) s = ret s' \<and> batch_refines s (BFetch t) s'"
proof (cases "t < length (n_disps s) \<and> (\<exists>k. g_phase (n_disps s ! t) = Fetching k)")
  case False
  then have "batch_act (BFetch t) s = ret s" "habs_act C (BFetch t) (batch_abs_of s) = batch_abs_of s" for C
    by (auto simp: batch_abs_disps Let_def split: batch_phase.split)
  then show ?thesis using batch_refines_stutter [OF inv] by blast
next
  case True
  let ?q = "n_queue s" and ?d = "n_disps s ! t"
  note D = bsys_invD [OF inv]
  obtain k where t: "t < length (n_disps s)" and ph: "g_phase ?d = Fetching k" using True by blast
  have d: "batch_disp_ok ?d" using D(4) t by simp
  have calling: "batch_disp_ok (?d\<lparr>g_phase := Calling\<rparr>)" by (simp add: batch_disp_ok_def)
  show ?thesis
  proof (cases k)
    case 0
    from phase_refines [OF inv t calling, of "BFetch t"] show ?thesis using t ph 0 by (simp add: batch_abs_disps Let_def)
  next
    case (Suc j)
    show ?thesis
    proof (cases "contents (b_queue ?q)")
      case Nil
      from phase_refines [OF inv t calling, of "BFetch t"] show ?thesis
        using t ph Suc Nil try_pop_empty [OF D(6) Nil] by (simp add: batch_abs_disps Let_def)
    next
      case (Cons n ns)
      obtain r where r: "try_pop (b_queue ?q) = ret (r, Some n)" "ring_inv r" "contents r = ns" "capacity r = capacity (b_queue ?q)"
        "push_room r = push_room (b_queue ?q)" using try_pop_ok [OF D(6) Cons] by blast
      let ?e = "?d\<lparr>g_phase := Fetching j, g_batch := g_batch ?d @ [n]\<rparr>"
      let ?s = "with_disp (s\<lparr>n_queue := ?q\<lparr>b_queue := r\<rparr>\<rparr>) t ?e"
      have size: "\<not> BATCH_SIZE \<le> length (g_batch ?d)" "batch_disp_ok ?e" using d ph Suc by (simp_all add: batch_disp_ok_def)
      have "mset (fetched_nodes ?s) = add_mset n (mset (fetched_nodes s))" "mset (sent_nodes ?s) = mset (sent_nodes s)"
        using moved_nodes [OF t, of ?e] by (simp_all add: fetched_nodes_def [of ?s] sent_nodes_def [of ?s])
      then have nodes: "mset (n # batch_held s) = mset (batch_held ?s)" "mset (batch_due s) = mset (batch_due ?s)"
        using Cons r(3) by (simp_all add: batch_held_def batch_due_def posting_nodes_def left_to_push_def)
      have "bsys_inv ?s"
      proof (rule bsys_invI)
        show "ring_chan_ok (b_queue (n_queue ?s)) (b_messagePool (n_queue ?s)) (n # batch_held s)"
          using chan_ok_pop [OF D(1) r(2)] Cons r(3) by simp
        show "msgs_ok 16 (rc_heap (b_world (n_queue ?s))) (vals obj_read (b_messagePool ?q) (batch_due s))" using D(2) by simp
        show "mset (vals obj_read (b_messagePool ?q) (batch_due s)) = mset (vals obj_read (b_messagePool (n_queue ?s)) (batch_due ?s))"
          using nodes(2) by (simp add: vals_def)
        show "batch_disp_ok e" if "e \<in> set (n_disps ?s)" for e using moved_ok [OF inv size(2)] that by simp
      qed (use nodes(1) D(3,5) in simp_all)
      moreover have "batch_calls (n_queue ?s) = batch_calls ?q" by (simp add: batch_calls_def fun_eq_iff)
      then have "batch_abs_of ?s = habs_act (capacity (b_queue ?q)) (BFetch t) (batch_abs_of s)"
        using t ph Suc Cons r(3)
        by (simp add: batch_abs_of_def batch_abs_with_def left_to_push_def Let_def with_hdisp_def map_update hdisp_of_def)
      moreover have "batch_act (BFetch t) s = ret ?s" using t ph Suc r(1) size(1) by (simp add: Let_def)
      ultimately show ?thesis using r(4,5) by (simp add: batch_refines_def)
    qed
  qed
qed

lemma batch_call_ok:
  assumes inv: "bsys_inv s"
  shows "\<exists>s'. batch_act (BCall t) s = ret s' \<and> batch_refines s (BCall t) s'"
proof (cases "length (n_disps s) \<le> t \<or> g_phase (n_disps s ! t) \<noteq> Calling")
  case True
  then have "batch_act (BCall t) s = ret s" "habs_act C (BCall t) (batch_abs_of s) = batch_abs_of s" for C by (auto simp: batch_abs_disps)
  then show ?thesis using batch_refines_stutter [OF inv] by blast
next
  case False
  let ?q = "n_queue s" and ?d = "n_disps s ! t"
  note D = bsys_invD [OF inv]
  have t: "t < length (n_disps s)" and ph: "g_phase ?d = Calling" using False by simp_all
  show ?thesis
  proof (cases "g_batch ?d")
    case Nil
    then have "batch_disp_ok (?d\<lparr>g_phase := Returning\<rparr>)" by (simp add: batch_disp_ok_def)
    from phase_refines [OF inv t this, of "BCall t"] show ?thesis using t ph Nil by (simp add: batch_abs_disps Let_def)
  next
    case (Cons n ns)
    let ?e = "?d\<lparr>g_batch := ns, g_sent := g_sent ?d @ [n]\<rparr>"
    let ?after = "\<lambda>w. with_disp (s\<lparr>n_queue := ?q\<lparr>b_world := w\<rparr>\<rparr>) t ?e"
    have "add_mset n (mset (fetched_nodes (?after w))) = mset (fetched_nodes s)" "mset (sent_nodes (?after w)) = add_mset n (mset (sent_nodes s))" for w
      using moved_nodes [OF t, of ?e] Cons by (simp_all add: fetched_nodes_def [of "?after w"] sent_nodes_def [of "?after w"])
    then have nodes: "mset (batch_held s) = mset (batch_held (?after w))" "mset (batch_due s) = mset (n # batch_due (?after w))" for w
      by (auto simp: batch_held_def batch_due_def posting_nodes_def left_to_push_def dest: sym)
    have due: "batch_due (?after w) = batch_due (?after (b_world ?q))" for w
      by (simp add: batch_due_def posting_nodes_def left_to_push_def fetched_nodes_def)
    let ?rest = "batch_due (?after (b_world ?q))"
    have "n \<in> set (contents (b_queue ?q) @ batch_held s)" using mset_eq_setD [OF nodes(2) [of "b_world ?q"]]
      by (auto simp: batch_due_def batch_held_def)
    moreover have "pool_inv (b_messagePool ?q) (set (contents (b_queue ?q) @ batch_held s))" using D(1) by (simp add: chan_ok_def)
    ultimately obtain m where m: "obj_read (b_messagePool ?q) n = Some m" using lf_pool.rd_ok [of _ _ n] by blast
    let ?ms = "vals obj_read (b_messagePool ?q) ?rest"
    have "mset (vals obj_read (b_messagePool ?q) (batch_due s)) = mset (m # ?ms)"
      using nodes(2) [of "b_world ?q"] m by (simp add: vals_def)
    then have "msgs_ok 16 (rc_heap (b_world ?q)) (m # ?ms)" using msgs_ok_perm D(2) by blast
    from deliver_msgs_ok [OF this] obtain w where w: "deliver 16 m (b_world ?q) = Inr w"
      "log w = log (b_world ?q) @ deliveries (rc_heap (b_world ?q)) m" "msgs_ok 16 (rc_heap w) ?ms"
      "map (deliveries (rc_heap w)) ?ms = map (deliveries (rc_heap (b_world ?q))) ?ms" by blast
    let ?s = "?after w"
    have "bsys_inv ?s"
    proof (rule bsys_invI)
      show "ring_chan_ok (b_queue (n_queue ?s)) (b_messagePool (n_queue ?s)) (batch_held s)" using D(1) by simp
      show "msgs_ok 16 (rc_heap (b_world (n_queue ?s))) ?ms" using w(3) by simp
      show "mset ?ms = mset (vals obj_read (b_messagePool (n_queue ?s)) (batch_due ?s))" using due [of w] by simp
      have "batch_disp_ok ?e" using ph by (simp add: batch_disp_ok_def)
      then show "batch_disp_ok e" if "e \<in> set (n_disps ?s)" for e using moved_ok [OF inv] that by simp
    qed (use nodes(1) D(3,5) in simp_all)
    moreover have "batch_calls (n_queue ?s) a = batch_calls ?q a" if "a \<in> set (batch_due ?s)" for a
      using that w(4) unfolding due [of w] by (auto simp: batch_calls_def vals_def)
    then have "batch_abs_of ?s = batch_abs_with (batch_calls ?q) ?s" unfolding batch_abs_of_def by (rule batch_abs_cong)
    moreover have "batch_calls ?q n = deliveries (rc_heap (b_world ?q)) m" using m by (simp add: batch_calls_def)
    ultimately have "batch_abs_of ?s = habs_act (capacity (b_queue ?q)) (BCall t) (batch_abs_of s)" "bsys_inv ?s"
      using t ph Cons w(2) by (simp_all add: batch_abs_of_def batch_abs_with_def left_to_push_def Let_def with_hdisp_def map_update hdisp_of_def)
    moreover have "batch_act (BCall t) s = ret ?s" using t ph Cons m w(1) by (simp add: Let_def)
    ultimately show ?thesis by (simp add: batch_refines_def)
  qed
qed


lemma batch_return_ok:
  assumes inv: "bsys_inv s"
  shows "\<exists>s'. batch_act (BReturn t) s = ret s' \<and> batch_refines s (BReturn t) s'"
proof (cases "length (n_disps s) \<le> t \<or> g_phase (n_disps s ! t) \<noteq> Returning")
  case True
  then have "batch_act (BReturn t) s = ret s" "habs_act C (BReturn t) (batch_abs_of s) = batch_abs_of s" for C by (auto simp: batch_abs_disps)
  then show ?thesis using batch_refines_stutter [OF inv] by blast
next
  case False
  let ?q = "n_queue s" and ?d = "n_disps s ! t"
  note D = bsys_invD [OF inv]
  have t: "t < length (n_disps s)" and ph: "g_phase ?d = Returning" using False by simp_all
  have d: "g_batch ?d = []" using D(4) [of ?d] t ph by (simp add: batch_disp_ok_def)
  show ?thesis
  proof (cases "g_sent ?d")
    case Nil
    then have "batch_disp_ok (?d\<lparr>g_phase := Waiting\<rparr>)" using d by (simp add: batch_disp_ok_def)
    from phase_refines [OF inv t this, of "BReturn t"] show ?thesis using t ph Nil by (simp add: batch_abs_disps Let_def)
  next
    case (Cons n ns)
    let ?e = "?d\<lparr>g_sent := ns\<rparr>"
    let ?after = "\<lambda>p. with_disp (s\<lparr>n_queue := ?q\<lparr>b_messagePool := p\<rparr>\<rparr>) t ?e"
    let ?held = "batch_held (?after (b_messagePool ?q))"
    have nodes: "mset (fetched_nodes (?after p)) = mset (fetched_nodes s)" "add_mset n (mset (sent_nodes (?after p))) = mset (sent_nodes s)" for p
      using moved_nodes [OF t, of ?e] Cons by (simp_all add: fetched_nodes_def [of "?after p"] sent_nodes_def [of "?after p"])
    then have due: "mset (batch_due (?after p)) = mset (batch_due s)" for p
      by (simp add: batch_due_def posting_nodes_def left_to_push_def)
    have held: "batch_held (?after p) = ?held" for p
      by (simp add: batch_held_def posting_nodes_def left_to_push_def fetched_nodes_def sent_nodes_def)
    have "mset (batch_held s) = mset (n # ?held)" using nodes [of "b_messagePool ?q"]
      by (simp add: batch_held_def posting_nodes_def left_to_push_def)
    from chan_ok_perm [OF this D(1)] have chan: "pool_inv (b_messagePool ?q) (set (n # contents (b_queue ?q) @ ?held))"
      "distinct (n # contents (b_queue ?q) @ ?held)" by (auto simp: chan_ok_def insert_commute)
    from lf_pool.drop_ok [OF chan] obtain p where p: "release (b_messagePool ?q) (Some n) = Inr p" "pool_inv p (set (contents (b_queue ?q) @ ?held))"
      "vals obj_read p (contents (b_queue ?q) @ ?held) = vals obj_read (b_messagePool ?q) (contents (b_queue ?q) @ ?held)" by blast
    let ?s = "?after p"
    have "set (batch_due ?s) \<subseteq> set (contents (b_queue ?q) @ ?held)" unfolding held [of p, symmetric]
      by (auto simp: batch_due_def batch_held_def)
    then have same: "the (obj_read p a) = the (obj_read (b_messagePool ?q) a)" if "a \<in> set (batch_due ?s)" for a
      using p(3) that by (auto simp: vals_def)
    have "bsys_inv ?s"
    proof (rule bsys_invI)
      show "ring_chan_ok (b_queue (n_queue ?s)) (b_messagePool (n_queue ?s)) ?held" using p(2) chan(2) D(6) by (simp add: chan_ok_def)
      show "msgs_ok 16 (rc_heap (b_world (n_queue ?s))) (vals obj_read (b_messagePool ?q) (batch_due s))" using D(2) by simp
      have "vals obj_read p (batch_due ?s) = vals obj_read (b_messagePool ?q) (batch_due ?s)" using same by (simp add: vals_def)
      moreover have "mset (vals obj_read (b_messagePool ?q) (batch_due s)) = mset (vals obj_read (b_messagePool ?q) (batch_due ?s))"
        using due [of p] by (simp add: vals_def)
      ultimately show "mset (vals obj_read (b_messagePool ?q) (batch_due s)) = mset (vals obj_read (b_messagePool (n_queue ?s)) (batch_due ?s))" by simp
      have "batch_disp_ok ?e" using ph d by (simp add: batch_disp_ok_def)
      then show "batch_disp_ok e" if "e \<in> set (n_disps ?s)" for e using moved_ok [OF inv] that by simp
    qed (use held [of p] D(3,5) in simp_all)
    moreover have "batch_abs_of ?s = batch_abs_with (batch_calls ?q) ?s" unfolding batch_abs_of_def
      by (rule batch_abs_cong) (simp add: batch_calls_def same)
    then have "batch_abs_of ?s = habs_act (capacity (b_queue ?q)) (BReturn t) (batch_abs_of s)"
      using t ph Cons by (simp add: batch_abs_of_def batch_abs_with_def left_to_push_def Let_def with_hdisp_def map_update hdisp_of_def)
    moreover have "batch_act (BReturn t) s = ret ?s" using t ph Cons p(1) by (simp add: Let_def)
    ultimately show ?thesis by (simp add: batch_refines_def)
  qed
qed

section \<open>Schedules\<close>

definition valid_batch :: "batch_action \<Rightarrow> bool" where
  "valid_batch a = (case a of BPost topic dat sz \<Rightarrow> buffer_ok dat sz | BPostBatched topic dat sz \<Rightarrow> buffer_ok dat sz | _ \<Rightarrow> True)"

lemma batch_act_ok:
  assumes inv: "bsys_inv s" and valid: "valid_batch a" and room: "0 < push_room (b_queue (n_queue s))"
  shows "\<exists>s'. batch_act a s = ret s' \<and> batch_refines s a s'"
proof (cases a)
  case (BPost topic dat sz)
  then show ?thesis using batch_post_ok [OF inv, of dat sz a topic] valid by (simp add: valid_batch_def del: batch_act.simps)
next
  case (BPostBatched topic dat sz)
  then show ?thesis using batch_post_ok [OF inv, of dat sz a topic] valid by (simp add: valid_batch_def del: batch_act.simps)
qed (use batch_add_ok [OF inv] batch_flush_ok [OF inv] batch_push_ok [OF inv room] batch_start_ok [OF inv] batch_fetch_ok [OF inv]
  batch_call_ok [OF inv] batch_return_ok [OF inv] in \<open>simp_all del: batch_act.simps\<close>)

lemma batch_acts_ok:
  assumes "bsys_inv s" and "\<forall>a \<in> set as. valid_batch a" and "length as \<le> push_room (b_queue (n_queue s))"
  shows "\<exists>s'. batch_acts s as = ret s' \<and> bsys_inv s' \<and>
    batch_abs_of s' = fold (habs_act (capacity (b_queue (n_queue s)))) as (batch_abs_of s)"
  using assms
proof (induction as arbitrary: s)
  case (Cons a as)
  have "valid_batch a" "0 < push_room (b_queue (n_queue s))" using Cons.prems(2,3) by auto
  from batch_act_ok [OF Cons.prems(1) this] obtain s1 where s1: "batch_act a s = ret s1" "batch_refines s a s1" by blast
  then have "\<exists>s'. batch_acts s1 as = ret s' \<and> bsys_inv s' \<and>
      batch_abs_of s' = fold (habs_act (capacity (b_queue (n_queue s1)))) as (batch_abs_of s1)"
    using Cons.prems(2,3) by (intro Cons.IH) (auto simp: batch_refines_def split: if_splits)
  with s1 show ?case by (auto simp: batch_refines_def simp del: batch_act.simps)
qed simp

text \<open>
  The calls that are made or due, as a multiset; with one dispatching thread and batched posts only,
  in their order.
\<close>

fun batch_post_of :: "batch_action \<Rightarrow> batch_abs \<Rightarrow> delivery list" where
  "batch_post_of (BPost topic dat sz) a =
     (if h_poster a \<noteq> HIdle \<or> BATCH_MAX_TOPICS \<le> topic \<or> t_count (h_topics a (unat topic)) = 0 then []
      else expected_calls (h_topics a) topic dat sz)"
| "batch_post_of (BPostBatched topic dat sz) a =
     (if h_poster a \<noteq> HIdle \<or> BATCH_MAX_TOPICS \<le> topic \<or> t_count (h_topics a (unat topic)) = 0 then []
      else expected_calls (h_topics a) topic dat sz)"
| "batch_post_of _ a = []"

fun batch_posts :: "nat \<Rightarrow> batch_action list \<Rightarrow> batch_abs \<Rightarrow> delivery list" where
  "batch_posts C [] a = []"
| "batch_posts C (x # xs) a = batch_post_of x a @ batch_posts C xs (habs_act C x a)"

definition disps_due :: "hdisp list \<Rightarrow> delivery list" where
  "disps_due ds = concat (map (\<lambda>d. concat (i_due d)) ds)"

fun hposting :: "hposter \<Rightarrow> delivery list" where
  "hposting (HPosting d) = d"
| "hposting _ = []"

definition batch_all_due :: "batch_abs \<Rightarrow> delivery multiset" where
  "batch_all_due a = mset (h_log a) + mset (disps_due (h_disps a)) + mset (concat (h_ring a)) + mset (hposting (h_poster a)) +
     mset (concat (h_batch a))"

definition batch_order :: "batch_abs \<Rightarrow> delivery list" where
  "batch_order a = h_log a @ disps_due (h_disps a) @ concat (h_ring a) @ concat (h_batch a)"

lemma with_hdisp_simps [simp]:
  "h_disps (with_hdisp a t d) = (h_disps a)[t := d]" "h_ring (with_hdisp a t d) = h_ring a" "h_log (with_hdisp a t d) = h_log a"
  "h_batch (with_hdisp a t d) = h_batch a" "h_poster (with_hdisp a t d) = h_poster a" "h_topics (with_hdisp a t d) = h_topics a"
  by (simp_all add: with_hdisp_def)

lemma disps_due_update:
  assumes "t < length ds"
  shows "mset (disps_due (ds[t := d])) + mset (concat (i_due (ds ! t))) = mset (disps_due ds) + mset (concat (i_due d))"
  unfolding disps_due_def by (rule mset_concat_update [OF assms])

lemma disps_due_same:
  assumes "t < length ds" and "i_due d = i_due (ds ! t)"
  shows "disps_due (ds[t := d]) = disps_due ds"
proof -
  have "map (\<lambda>d. concat (i_due d)) (ds[t := d]) = map (\<lambda>d. concat (i_due d)) ds"
    using assms by (simp add: map_update list_update_same_conv)
  then show ?thesis by (simp add: disps_due_def)
qed


lemma batch_once_step: "batch_all_due (habs_act C x a) = batch_all_due a + mset (batch_post_of x a)"
proof (cases x)
  case (BFetch t)
  show ?thesis
  proof (cases "t < length (h_disps a) \<and> (\<exists>k c cs. i_phase (h_disps a ! t) = Fetching (Suc k) \<and> h_ring a = c # cs)")
    case True
    then obtain k c cs where t: "t < length (h_disps a)" "i_phase (h_disps a ! t) = Fetching (Suc k)" "h_ring a = c # cs" by blast
    let ?d = "h_disps a ! t"
    let ?e = "?d\<lparr>i_phase := Fetching k, i_due := i_due ?d @ [c]\<rparr>"
    have "mset (disps_due ((h_disps a)[t := ?e])) = mset (disps_due (h_disps a)) + mset c"
      using disps_due_update [OF t(1), of ?e] by (simp add: ac_simps)
    then show ?thesis using BFetch t by (simp add: batch_all_due_def Let_def)
  next
    case False
    then show ?thesis using BFetch
      by (auto simp: batch_all_due_def Let_def disps_due_same split: batch_phase.split nat.split list.split)
  qed
next
  case (BCall t)
  show ?thesis
  proof (cases "t < length (h_disps a) \<and> i_phase (h_disps a ! t) = Calling \<and> i_due (h_disps a ! t) \<noteq> []")
    case True
    then obtain c cs where t: "t < length (h_disps a)" "i_phase (h_disps a ! t) = Calling" "i_due (h_disps a ! t) = c # cs"
      by (cases "i_due (h_disps a ! t)") auto
    let ?d = "h_disps a ! t"
    let ?e = "?d\<lparr>i_due := cs, i_sent := i_sent ?d + 1\<rparr>"
    have "mset (disps_due ((h_disps a)[t := ?e])) + mset c = mset (disps_due (h_disps a))"
      using disps_due_update [OF t(1), of ?e] t(3) by (simp add: ac_simps)
    then show ?thesis using BCall t by (simp add: batch_all_due_def Let_def ac_simps)
  next
    case False
    then show ?thesis using BCall by (auto simp: batch_all_due_def Let_def disps_due_same split: list.split)
  qed
qed (auto simp: batch_all_due_def Let_def disps_due_same split: hposter.split list.split)

lemma batch_once: "batch_all_due (fold (habs_act C) xs a) = batch_all_due a + mset (batch_posts C xs a)"
  by (induction xs arbitrary: a) (simp_all add: batch_once_step ac_simps)

definition batched_only :: "batch_action \<Rightarrow> bool" where
  "batched_only x = (case x of BPost topic dat sz \<Rightarrow> False | _ \<Rightarrow> True)"

lemma batch_order_step:
  assumes one: "length (h_disps a) = 1" and none: "hposting (h_poster a) = [] \<and> (\<forall>d. h_poster a \<noteq> HPosting d)" and x: "batched_only x"
  shows "batch_order (habs_act C x a) = batch_order a @ batch_post_of x a \<and> length (h_disps (habs_act C x a)) = 1 \<and>
    hposting (h_poster (habs_act C x a)) = [] \<and> (\<forall>d. h_poster (habs_act C x a) \<noteq> HPosting d)"
proof -
  obtain e where e: "h_disps a = [e]" using one by (cases "h_disps a") auto
  show ?thesis using none x e
    by (cases x) (auto simp: batch_order_def disps_due_def batched_only_def Let_def nth_Cons split: hposter.split list.split batch_phase.split nat.split)
qed

lemma batch_fifo:
  assumes "length (h_disps a) = 1" and "hposting (h_poster a) = [] \<and> (\<forall>d. h_poster a \<noteq> HPosting d)" and "\<forall>x \<in> set xs. batched_only x"
  shows "batch_order (fold (habs_act C) xs a) = batch_order a @ batch_posts C xs a"
  using assms
proof (induction xs arbitrary: a)
  case (Cons x xs)
  have "batched_only x" using Cons.prems(3) by simp
  from batch_order_step [OF Cons.prems(1,2) this, of C] Cons.IH [of "habs_act C x a"] Cons.prems(3) show ?case by simp
qed simp

lemma batch_no_payload:
  assumes "bsys_inv s" and "batch_due s = []"
  shows "live (rc_heap (b_world (n_queue s))) = {}"
  using bsys_invD(2) [OF assms(1)] msgs_ok_no_payload unfolding assms(2) by auto

lemma batch_threads_start:
  assumes "bq_ok q"
  shows "bsys_inv (batch_threads q N)" "h_poster (batch_abs_of (batch_threads q N)) = HIdle" "length (h_disps (batch_abs_of (batch_threads q N))) = N"
    "batch_order (batch_abs_of (batch_threads q N)) = log (b_world q) @ concat (bq_pending q) @ concat (bq_held q)"
proof -
  have "concat (map g_batch (replicate N \<lparr>g_phase = Waiting, g_batch = [], g_sent = []\<rparr>)) = []"
    "concat (map g_sent (replicate N \<lparr>g_phase = Waiting, g_batch = [], g_sent = []\<rparr>)) = []" by simp_all
  then show "bsys_inv (batch_threads q N)"
    using assms by (auto simp: bsys_inv_def Let_def batch_threads_def bq_ok_def mchan_def batch_nodes_defs chan_msgs_def vals_def batch_disp_ok_def)
  show "h_poster (batch_abs_of (batch_threads q N)) = HIdle" "length (h_disps (batch_abs_of (batch_threads q N))) = N"
    by (simp_all add: batch_abs_disps batch_threads_def)
  have "disps_due (map (hdisp_of c) (replicate N \<lparr>g_phase = Waiting, g_batch = [], g_sent = []\<rparr>)) = []" for c
    by (simp add: disps_due_def hdisp_of_def)
  moreover have "batch_calls q = (\<lambda>n. deliveries (rc_heap (b_world q)) (the (obj_read (b_messagePool q) n)))"
    by (simp add: batch_calls_def fun_eq_iff)
  ultimately show "batch_order (batch_abs_of (batch_threads q N)) = log (b_world q) @ concat (bq_pending q) @ concat (bq_held q)"
    by (simp add: batch_order_def batch_abs_of_def batch_abs_with_def batch_threads_def left_to_push_def mpending_def mheld_def chan_msgs_def
        vals_def comp_def)
qed


lemma batch_start_due:
  assumes "bq_ok q"
  shows "batch_all_due (batch_abs_of (batch_threads q N)) = mset (log (b_world q) @ concat (bq_pending q) @ concat (bq_held q))"
proof -
  have "batch_all_due a = mset (batch_order a)" if "h_poster a = HIdle" for a using that by (simp add: batch_all_due_def batch_order_def)
  then show ?thesis using batch_threads_start(2,4) [OF assms] by simp
qed

text \<open>
  C6. Threads of the batch queue: from a well-formed queue, with messages in the ring and in the batch buffer
  or not, every interleaving of one posting thread (with plain and batched posts and flushes) with any number
  \<open>N\<close> of dispatching threads (each with batches of its own) runs without a fault and refines the
  abstract machine. Every call is made exactly once: the calls made and those still due are, as a multiset, those of before
  and of the posts that took effect. With one dispatching thread and batched posts only they are the same list, in the order of the
  posts; a plain post overtakes the messages in the buffer. When nothing is due, all payloads are freed.
\<close>

theorem bq_threads_deliver:
  assumes "bq_ok q" and "\<forall>a \<in> set as. valid_batch a" and "length as \<le> push_room (b_queue q)"
  shows "\<exists>s. batch_acts (batch_threads q N) as = ret s \<and> bsys_inv s \<and>
    batch_abs_of s = fold (habs_act (capacity (b_queue q))) as (batch_abs_of (batch_threads q N)) \<and>
    batch_all_due (batch_abs_of s) = mset (log (b_world q) @ concat (bq_pending q) @ concat (bq_held q) @
      batch_posts (capacity (b_queue q)) as (batch_abs_of (batch_threads q N))) \<and>
    (N = 1 \<and> (\<forall>a \<in> set as. batched_only a) \<longrightarrow>
       batch_order (batch_abs_of s) = log (b_world q) @ concat (bq_pending q) @ concat (bq_held q) @
         batch_posts (capacity (b_queue q)) as (batch_abs_of (batch_threads q N))) \<and>
    (batch_due s = [] \<longrightarrow> live (rc_heap (b_world (n_queue s))) = {})"
proof -
  let ?s0 = "batch_threads q N" and ?C = "capacity (b_queue q)"
  have q: "n_queue ?s0 = q" by (simp add: batch_threads_def)
  note start = batch_threads_start [OF assms(1), of N]
  obtain s where s: "batch_acts ?s0 as = ret s" "bsys_inv s" "batch_abs_of s = fold (habs_act ?C) as (batch_abs_of ?s0)"
    using batch_acts_ok [OF start(1) assms(2)] assms(3) q by auto
  have "batch_all_due (batch_abs_of s) = mset (log (b_world q) @ concat (bq_pending q) @ concat (bq_held q) @ batch_posts ?C as (batch_abs_of ?s0))"
    unfolding s(3) batch_once batch_start_due [OF assms(1)] by simp
  moreover have "batch_order (batch_abs_of s) = log (b_world q) @ concat (bq_pending q) @ concat (bq_held q) @ batch_posts ?C as (batch_abs_of ?s0)"
    if "N = 1" "\<forall>a \<in> set as. batched_only a"
    using batch_fifo [of "batch_abs_of ?s0" as ?C] start(2-4) that unfolding s(3) by simp
  ultimately show ?thesis using s batch_no_payload [OF s(2)] by blast
qed

theorem bq_threads_deliver_witness:
  "\<exists>q s. bq_ok q \<and>
     batch_acts (batch_threads q 1)
       [BAdd 3 7 9, BPostBatched 3 (Some [1]) 1, BPostBatched 3 (Some [2]) 1, BFlush, BPush, BStart 0 4, BFetch 0, BPush, BFetch 0, BFetch 0, BCall 0, BPush] = ret s \<and>
     batch_order (batch_abs_of s) = [Call 7 3 (Some [Some 1]) 1 9, Call 7 3 (Some [Some 2]) 1 9]"
proof -
  obtain q where q: "bq_ok q" "bq_pending q = []" "t_batch q = []" "log (b_world q) = []" "\<forall>t. b_topics q t = no_observers"
    "capacity (b_queue q) = 4" "push_room (b_queue q) = 2 ^ 63 - 5" using bq_new_ok [of 4 2] by auto
  let ?as = "[BAdd 3 7 9, BPostBatched 3 (Some [1]) 1, BPostBatched 3 (Some [2]) 1, BFlush, BPush, BStart 0 4, BFetch 0, BPush, BFetch 0, BFetch 0, BCall 0, BPush]"
  have prem: "\<forall>a \<in> set ?as. valid_batch a" "length ?as \<le> push_room (b_queue q)" "\<forall>a \<in> set ?as. batched_only a"
    using q(7) by (simp_all add: valid_batch_def buffer_ok_def buffer_bytes_def batched_only_def)
  have "batch_posts 4 ?as (batch_abs_of (batch_threads q 1)) = [Call 7 3 (Some [Some 1]) 1 9, Call 7 3 (Some [Some 2]) 1 9]"
  proof -
    have "contents (b_queue q) = []" using q(2) length_mpending [of "b_queue q"] by (metis length_0_conv)
    then have "batch_abs_of (batch_threads q 1) = \<lparr>h_topics = b_topics q, h_ring = [], h_batch = [], h_poster = HIdle,
        h_disps = [\<lparr>i_phase = Waiting, i_due = [], i_sent = 0\<rparr>], h_log = []\<rparr>"
      using q(3,4) by (simp add: batch_abs_of_def batch_abs_with_def batch_threads_def left_to_push_def hdisp_of_def)
    then show ?thesis
      using q(5) by (simp add: add_observer_def BATCH_MAX_TOPICS_def BATCH_MAX_OBSERVERS_def no_observers_def expected_calls_def
          expected_def buffer_bytes_def BATCH_SIZE_def Let_def with_hdisp_def)
  qed
  moreover obtain s where "batch_acts (batch_threads q 1) ?as = ret s" "batch_order (batch_abs_of s) =
      log (b_world q) @ concat (bq_pending q) @ concat (bq_held q) @ batch_posts (capacity (b_queue q)) ?as (batch_abs_of (batch_threads q 1))"
    using bq_threads_deliver [OF q(1) prem(1,2), of 1] prem(3) by blast
  moreover have "bq_held q = []" using q(3) by (simp add: mheld_def)
  ultimately show ?thesis unfolding q(2,4,6) using q(1) by (intro exI [of _ q] exI [of _ s]) (simp only: concat.simps append.simps simp_thms)
qed

end
