(* ===== verification/Example_Fast.thy ===== *)
theory Example_Fast
  imports Fast_Threads
begin

text \<open>
  The program \<open>src/examples/fast_queue/main.cpp\<close> on \<open>EventQueueBroadcastFast\<close>, whole: the events
  that one thread posts and dispatches, and then a producer, a consumer and the main thread,
  interleaved at the steps of \<open>Fast_Threads\<close> and at their accesses to \<open>running\<close> and \<open>count\<close>.
  The output of the callbacks is not modelled, the log of the calls stands for it; sleeping and
  yielding do nothing. How a position or an integer lies in memory is a parameter, of which only the size is
  used; all coordinates in the program are whole numbers.
\<close>

section \<open>The program\<close>

definition onMove :: nat where "onMove = 1"
definition onHealth :: nat where "onHealth = 2"
definition onChat :: nat where "onChat = 3"

definition fast_setup :: "fast_queue \<Rightarrow> fast_queue \<times> u16 \<times> u16 \<times> u16" where
  "fast_setup q =
     (let (q, moveTopic) = fq_registerTopic q; (q, healthTopic) = fq_registerTopic q; (q, chatTopic) = fq_registerTopic q;
          (q, _) = fq_addObserver q moveTopic (Some onMove) 0; (q, _) = fq_addObserver q healthTopic (Some onHealth) 0;
          (q, _) = fq_addObserver q chatTopic (Some onChat) 0 in
      (q, moveTopic, healthTopic, chatTopic))"

definition hello :: "u8 list" where "hello = map of_char ''Hello!''"

definition fast_first :: "(int \<Rightarrow> int \<Rightarrow> int \<Rightarrow> u8 list) \<Rightarrow> (int \<Rightarrow> u8 list) \<Rightarrow> (fast_queue \<times> u16) run" where
  "fast_first bytesPosition bytesInt =
     rbind (Some (fq_new 4096)) (\<lambda>q.
       let (q, moveTopic, healthTopic, chatTopic) = fast_setup q in
       rbind (ignore (fq_post q moveTopic (Some (bytesPosition 10 20 5)) 12)) (\<lambda>q.
         rbind (ignore (fq_post q healthTopic (Some (bytesInt 85)) 4)) (\<lambda>q.
           rbind (ignore (fq_post q chatTopic (Some hello) (of_nat (length hello)))) (\<lambda>q.
             rbind (ignore (fq_dispatchAll q)) (\<lambda>q. ret (q, moveTopic))))))"

text \<open>
  The producer is before the loop test, has a message to push, is about to count, or is done.
  The consumer is before reading \<open>running\<close>, before \<open>empty()\<close>, or at a step of \<open>dispatchOne\<close>. The
  main thread waits for the producer, is about to clear \<open>running\<close>, waits for the consumer, or is done.
\<close>

datatype producer_pc = PTest | PPush | PCount | PDone
datatype consumer_pc = CRunning | CEmpty | CPop | CDeliver | CRelease | CDone
datatype main_pc = MJoinProducer | MClear | MJoinConsumer | MDone

record fast_program =
  x_sys :: fq_sys
  x_topic :: u16
  x_i :: nat
  x_count :: int
  x_running :: bool
  x_producer :: producer_pc
  x_consumer :: consumer_pc
  x_main :: main_pc

definition fast_threads :: "fast_queue \<Rightarrow> u16 \<Rightarrow> fast_program" where
  "fast_threads q moveTopic = \<lparr>x_sys = fq_start q, x_topic = moveTopic, x_i = 0, x_count = 0, x_running = True,
     x_producer = PTest, x_consumer = CRunning, x_main = MJoinProducer\<rparr>"

datatype actor = Producer | Consumer | Main

definition producer_step :: "(int \<Rightarrow> int \<Rightarrow> int \<Rightarrow> u8 list) \<Rightarrow> fast_program \<Rightarrow> fast_program run" where
  "producer_step bytesPosition s =
     (case x_producer s of
        PTest \<Rightarrow>
          if x_i s < 100 then
            rbind (fq_act (ActFill (x_topic s) (Some (bytesPosition (int (x_i s)) 0 0)) 12) (x_sys s)) (\<lambda>z.
              ret (s\<lparr>x_sys := z, x_producer := (if z_poster z = None then PCount else PPush)\<rparr>))
          else ret (s\<lparr>x_producer := PDone\<rparr>)
      | PPush \<Rightarrow>
          rbind (fq_act ActPush (x_sys s)) (\<lambda>z.
            ret (s\<lparr>x_sys := z, x_producer := (if z_poster z = None then PCount else PPush)\<rparr>))
      | PCount \<Rightarrow> ret (s\<lparr>x_count := x_count s + 1, x_i := x_i s + 1, x_producer := PTest\<rparr>)
      | PDone \<Rightarrow> ret s)"

definition consumer_step :: "fast_program \<Rightarrow> fast_program run" where
  "consumer_step s =
     (case x_consumer s of
        CRunning \<Rightarrow> ret (s\<lparr>x_consumer := (if x_running s then CPop else CEmpty)\<rparr>)
      | CEmpty \<Rightarrow> ret (s\<lparr>x_consumer := (if fq_empty (z_queue (x_sys s)) then CDone else CPop)\<rparr>)
      | CPop \<Rightarrow>
          rbind (fq_act (ActPop 0) (x_sys s)) (\<lambda>z.
            ret (s\<lparr>x_sys := z, x_consumer := (if z_threads z 0 = DIdle then CRunning else CDeliver)\<rparr>))
      | CDeliver \<Rightarrow> rbind (fq_act (ActDeliver 0) (x_sys s)) (\<lambda>z. ret (s\<lparr>x_sys := z, x_consumer := CRelease\<rparr>))
      | CRelease \<Rightarrow> rbind (fq_act (ActRelease 0) (x_sys s)) (\<lambda>z. ret (s\<lparr>x_sys := z, x_consumer := CRunning\<rparr>))
      | CDone \<Rightarrow> ret s)"

definition main_step :: "fast_program \<Rightarrow> fast_program run" where
  "main_step s =
     (case x_main s of
        MJoinProducer \<Rightarrow> ret (if x_producer s = PDone then s\<lparr>x_main := MClear\<rparr> else s)
      | MClear \<Rightarrow> ret (s\<lparr>x_running := False, x_main := MJoinConsumer\<rparr>)
      | MJoinConsumer \<Rightarrow> ret (if x_consumer s = CDone then s\<lparr>x_main := MDone\<rparr> else s)
      | MDone \<Rightarrow> ret s)"

fun fast_step :: "(int \<Rightarrow> int \<Rightarrow> int \<Rightarrow> u8 list) \<Rightarrow> actor \<Rightarrow> fast_program \<Rightarrow> fast_program run" where
  "fast_step bytesPosition Producer s = producer_step bytesPosition s"
| "fast_step bytesPosition Consumer s = consumer_step s"
| "fast_step bytesPosition Main s = main_step s"

fun fast_steps :: "(int \<Rightarrow> int \<Rightarrow> int \<Rightarrow> u8 list) \<Rightarrow> fast_program \<Rightarrow> actor list \<Rightarrow> fast_program run" where
  "fast_steps bytesPosition s [] = ret s"
| "fast_steps bytesPosition s (a # as) = rbind (fast_step bytesPosition a s) (\<lambda>s1. fast_steps bytesPosition s1 as)"

section \<open>Invariant\<close>

declare topic_calls.simps [simp del] upt_rec_numeral [simp del] fq_act.simps [simp del]

text \<open>
  The abstract state \<open>a\<close> of the queue, in its positions: the consumer's thread holds a message
  exactly between its pop and its release, the producer's exactly before its push.
\<close>

definition move_call :: "(int \<Rightarrow> int \<Rightarrow> int \<Rightarrow> u8 list) \<Rightarrow> nat \<Rightarrow> delivery" where
  "move_call bytesPosition i = Call onMove 0 (Some (map Some (bytesPosition (int i) 0 0))) 12 0"

definition filled :: "fast_program \<Rightarrow> nat" where
  "filled s = (if x_producer s = PPush \<or> x_producer s = PCount then x_i s + 1 else x_i s)"

definition fast_queue_inv :: "(int \<Rightarrow> int \<Rightarrow> int \<Rightarrow> u8 list) \<Rightarrow> delivery list \<Rightarrow> fast_program \<Rightarrow> bool" where
  "fast_queue_inv bytesPosition l0 s \<longleftrightarrow>
     (let a = sys_abs (x_sys s) in
      fsys_inv (x_sys s) \<and> capacity (m_queue (z_queue (x_sys s))) = 4096 \<and>
      101 \<le> push_room (m_queue (z_queue (x_sys s))) + x_i s + (if x_producer s = PCount then 1 else 0) \<and>
      (\<forall>i. topic_calls (a_topics a) (0, Some (bytesPosition i 0 0), 12) = [[Call onMove 0 (Some (map Some (bytesPosition i 0 0))) 12 0]]) \<and>
      a_log a @ popped_calls a 0 @ waiting_calls a = l0 @ map (move_call bytesPosition) [0..<filled s] \<and>
      length (a_ring a) \<le> x_i s + (if x_producer s = PCount then 1 else 0) \<and>
      (a_poster a \<noteq> None \<longleftrightarrow> x_producer s = PPush) \<and>
      (a_threads a 0 = AIdle \<longleftrightarrow> x_consumer s \<notin> {CDeliver, CRelease}) \<and>
      (a_threads a 0 = ADelivered \<longleftrightarrow> x_consumer s = CRelease) \<and> (\<forall>t. t \<noteq> 0 \<longrightarrow> a_threads a t = AIdle))"

definition fast_control_inv :: "fast_program \<Rightarrow> bool" where
  "fast_control_inv s \<longleftrightarrow>
     x_topic s = 0 \<and> x_i s \<le> 100 \<and> (x_producer s \<in> {PPush, PCount} \<longrightarrow> x_i s < 100) \<and> (x_producer s = PDone \<longrightarrow> x_i s = 100) \<and>
     x_count s = int (x_i s) \<and> (x_running s \<longleftrightarrow> x_main s \<in> {MJoinProducer, MClear}) \<and>
     (x_main s \<noteq> MJoinProducer \<longrightarrow> x_producer s = PDone) \<and> (x_consumer s \<in> {CEmpty, CDone} \<longrightarrow> \<not> x_running s) \<and>
     (x_consumer s = CDone \<longrightarrow> a_ring (sys_abs (x_sys s)) = []) \<and> (x_main s = MDone \<longrightarrow> x_consumer s = CDone)"

lemma abs_poster: "z_poster s = None \<longleftrightarrow> a_poster (sys_abs s) = None"
  by (simp add: sys_abs_def)

lemma abs_idle: "z_threads s t = DIdle \<longleftrightarrow> a_threads (sys_abs s) t = AIdle"
  by (simp add: sys_abs_def pc_abs_def split: disp_pc.split)

lemma abs_empty: "fsys_inv s \<Longrightarrow> fq_empty (z_queue s) \<longleftrightarrow> a_ring (sys_abs s) = []"
  using mpmc_empty_contents [of "m_queue (z_queue s)"]
  by (auto simp: fsys_inv_def fsys_held_def chan_ok_def fq_empty_def sys_abs_def)

section \<open>The first part\<close>

definition first_calls :: "(int \<Rightarrow> int \<Rightarrow> int \<Rightarrow> u8 list) \<Rightarrow> (int \<Rightarrow> u8 list) \<Rightarrow> delivery list" where
  "first_calls bytesPosition bytesInt =
     [Call onMove 0 (Some (map Some (bytesPosition 10 20 5))) 12 0, Call onHealth 1 (Some (map Some (bytesInt 85))) 4 0,
      Call onChat 2 (Some (map Some hello)) 6 0]"

lemma fast_setup_ok:
  "\<exists>q q0. fq_new 4096 = Inr q \<and> fast_setup q = (q0, 0, 1, 2) \<and> fq_ok q0 \<and> fq_pending q0 = [] \<and> log (fq_world q0) = [] \<and>
     capacity (m_queue q0) = 4096 \<and> 200 \<le> push_room (m_queue q0) \<and>
     (\<forall>bytes sz. fq_calls q0 (0, Some bytes, sz) = [[Call onMove 0 (Some (map Some (take (unat sz) bytes))) sz 0]] \<and>
        fq_calls q0 (1, Some bytes, sz) = [[Call onHealth 1 (Some (map Some (take (unat sz) bytes))) sz 0]] \<and>
        fq_calls q0 (2, Some bytes, sz) = [[Call onChat 2 (Some (map Some (take (unat sz) bytes))) sz 0]])"
proof -
  obtain q where q: "fq_new 4096 = Inr q" "fq_ok q" "fq_pending q = []" "log (fq_world q) = []" "m_topicCount q = 0"
    "\<forall>t. m_topics q t = no_observers" "capacity (m_queue q) = 4096" "push_room (m_queue q) = 2 ^ 63 - 4097"
    using fq_new_ok [of 4096 12] by auto
  let ?q = "fst (fq_addObserver (fst (fq_addObserver (fst (fq_addObserver (q\<lparr>m_topicCount := 3\<rparr>) 0 (Some onMove) 0)) 1 (Some onHealth) 0))
    2 (Some onChat) 0)"
  have "fq_ok (q\<lparr>m_topicCount := 3\<rparr>)" using q(2) by (simp add: fq_ok_def)
  then have "fq_ok ?q" by (intro fq_addObserver_ok) simp_all
  moreover have "fast_setup q = (?q, 0, 1, 2)"
    using q(5) by (simp add: fast_setup_def fq_registerTopic_def Let_def split_def FAST_MAX_TOPICS_def)
  moreover have "fq_calls ?q (0, Some bytes, sz) = [[Call onMove 0 (Some (map Some (take (unat sz) bytes))) sz 0]] \<and>
        fq_calls ?q (1, Some bytes, sz) = [[Call onHealth 1 (Some (map Some (take (unat sz) bytes))) sz 0]] \<and>
        fq_calls ?q (2, Some bytes, sz) = [[Call onChat 2 (Some (map Some (take (unat sz) bytes))) sz 0]]" for bytes sz
    using q(6) by (simp add: add_observer_def FAST_MAX_TOPICS_def FAST_MAX_OBSERVERS_def no_observers_def topic_calls.simps
        expected_calls_def expected_def buffer_bytes_def word_le_nat_alt)
  ultimately show ?thesis using q by (intro exI [of _ q] exI [of _ ?q]) simp
qed

lemma fast_post_ok:
  assumes "fq_ok q" and "length (fq_pending q) < 4096" and "capacity (m_queue q) = 4096" and "0 < push_room (m_queue q)"
    and "topic < FAST_MAX_TOPICS" and "length bytes = unat sz"
  shows "\<exists>q'. ignore (fq_post q topic (Some bytes) sz) = ret q' \<and> fq_ok q' \<and> log (fq_world q') = log (fq_world q) \<and>
    fq_pending q' = fq_pending q @ fq_calls q (topic, Some bytes, sz) \<and> fq_calls q' = fq_calls q \<and>
    capacity (m_queue q') = 4096 \<and> push_room (m_queue q) \<le> push_room (m_queue q') + 1"
proof -
  have "accepts_event FAST_MAX_TOPICS (topic, Some bytes, sz)"
    using assms(5,6) by (simp add: buffer_ok_def buffer_bytes_def)
  from fq_post_ok [OF assms(1) this _ assms(4)] assms(2,3) show ?thesis by auto
qed

lemma hello_length: "length hello = 6"
  by (simp add: hello_def)

lemma fast_first_ok:
  assumes size: "\<And>x y z. length (bytesPosition x y z) = 12" "\<And>i. length (bytesInt i) = 4"
  shows "\<exists>q. fast_first bytesPosition bytesInt = ret (q, 0) \<and> fq_ok q \<and> fq_pending q = [] \<and>
    log (fq_world q) = first_calls bytesPosition bytesInt \<and> capacity (m_queue q) = 4096 \<and> 101 \<le> push_room (m_queue q) \<and>
    (\<forall>i. fq_calls q (0, Some (bytesPosition i 0 0), 12) = [[Call onMove 0 (Some (map Some (bytesPosition i 0 0))) 12 0]])"
proof -
  obtain q q0 where q0: "fq_new 4096 = Inr q" "fast_setup q = (q0, 0, 1, 2)" "fq_ok q0" "fq_pending q0 = []" "log (fq_world q0) = []"
    "capacity (m_queue q0) = 4096" "200 \<le> push_room (m_queue q0)"
    and calls: "\<And>bytes sz. fq_calls q0 (0, Some bytes, sz) = [[Call onMove 0 (Some (map Some (take (unat sz) bytes))) sz 0]]"
      "\<And>bytes sz. fq_calls q0 (1, Some bytes, sz) = [[Call onHealth 1 (Some (map Some (take (unat sz) bytes))) sz 0]]"
      "\<And>bytes sz. fq_calls q0 (2, Some bytes, sz) = [[Call onChat 2 (Some (map Some (take (unat sz) bytes))) sz 0]]"
    using fast_setup_ok by metis
  have topics: "(0 :: u16) < FAST_MAX_TOPICS" "(1 :: u16) < FAST_MAX_TOPICS" "(2 :: u16) < FAST_MAX_TOPICS"
    by (simp_all add: FAST_MAX_TOPICS_def)
  have p0: "length (fq_pending q0) < 4096" "0 < push_room (m_queue q0)" using q0(7) unfolding q0(4) by simp_all
  obtain q1 where q1: "ignore (fq_post q0 0 (Some (bytesPosition 10 20 5)) 12) = ret q1" "fq_ok q1" "log (fq_world q1) = []"
    "fq_pending q1 = [[Call onMove 0 (Some (map Some (bytesPosition 10 20 5))) 12 0]]" "fq_calls q1 = fq_calls q0"
    "capacity (m_queue q1) = 4096" "199 \<le> push_room (m_queue q1)"
    using fast_post_ok [OF q0(3) p0(1) q0(6) p0(2) topics(1), of "bytesPosition 10 20 5" 12] size q0(4,5,7) calls by auto
  have p1: "length (fq_pending q1) < 4096" "0 < push_room (m_queue q1)" using q1(7) unfolding q1(4) by simp_all
  obtain q2 where q2: "ignore (fq_post q1 1 (Some (bytesInt 85)) 4) = ret q2" "fq_ok q2" "log (fq_world q2) = []"
    "fq_pending q2 = fq_pending q1 @ [[Call onHealth 1 (Some (map Some (bytesInt 85))) 4 0]]" "fq_calls q2 = fq_calls q0"
    "capacity (m_queue q2) = 4096" "198 \<le> push_room (m_queue q2)"
    using fast_post_ok [OF q1(2) p1(1) q1(6) p1(2) topics(2), of "bytesInt 85" 4] size q1(3,5,7) calls by auto
  have p2: "length (fq_pending q2) < 4096" "0 < push_room (m_queue q2)" using q2(7) unfolding q2(4) q1(4) by simp_all
  obtain q3 where q3: "ignore (fq_post q2 2 (Some hello) 6) = ret q3" "fq_ok q3" "log (fq_world q3) = []"
    "fq_pending q3 = fq_pending q2 @ [[Call onChat 2 (Some (map Some hello)) 6 0]]" "fq_calls q3 = fq_calls q0"
    "capacity (m_queue q3) = 4096" "197 \<le> push_room (m_queue q3)"
    using fast_post_ok [OF q2(2) p2(1) q2(6) p2(2) topics(3), of hello 6] hello_length q2(3,5,7) calls by auto
  obtain q4 where q4: "while_count fq_dispatchOne (q3, 0) = ret (q4, of_nat (length (fq_pending q3)))" "fq_ok q4" "fq_pending q4 = []"
    "fq_frame q4 = fq_frame q3" "log (fq_world q4) = log (fq_world q3) @ concat (fq_pending q3)"
    using fq_framed.drain_ok [of q3 "fq_frame q3"] q3(2) by blast
  have "log (fq_world q4) = first_calls bytesPosition bytesInt"
    unfolding q4(5) q3(3,4) q2(4) q1(4) by (simp add: first_calls_def)
  moreover have "fq_calls q4 = fq_calls q0" "capacity (m_queue q4) = 4096" "101 \<le> push_room (m_queue q4)"
    using q4(4) q3(5-7) by (simp_all add: fq_frame_def)
  moreover have "fast_first bytesPosition bytesInt = ret (q4, 0)"
    using q0(1,2) q1(1) q2(1) q3(1) q4(1) by (simp add: fast_first_def fq_dispatchAll_def hello_length)
  ultimately show ?thesis using q4(2,3) calls size by auto
qed

section \<open>The steps keep the invariant and make progress\<close>

text \<open>An upper bound on the steps still to come, and a thread that brings the program nearer to its end.\<close>

definition producer_work :: "fast_program \<Rightarrow> nat" where
  "producer_work s = 20 * (100 - x_i s) + (case x_producer s of PTest \<Rightarrow> 10 | PPush \<Rightarrow> 9 | PCount \<Rightarrow> 3 | PDone \<Rightarrow> 0)"

definition consumer_work :: "fast_program \<Rightarrow> nat" where
  "consumer_work s = 5 * length (a_ring (sys_abs (x_sys s))) +
     (case x_consumer s of CDone \<Rightarrow> 0 | CEmpty \<Rightarrow> 1 | CRunning \<Rightarrow> 2 | CPop \<Rightarrow> if a_ring (sys_abs (x_sys s)) = [] then 3 else 0
      | CRelease \<Rightarrow> 3 | CDeliver \<Rightarrow> 4)"

definition work :: "fast_program \<Rightarrow> nat" where
  "work s = producer_work s + consumer_work s +
     (case x_main s of MJoinProducer \<Rightarrow> 3 | MClear \<Rightarrow> 2 | MJoinConsumer \<Rightarrow> 1 | MDone \<Rightarrow> 0)"

definition next_actor :: "fast_program \<Rightarrow> actor" where
  "next_actor s = (if x_producer s \<noteq> PDone then Producer else if x_main s = MJoinConsumer \<and> x_consumer s \<noteq> CDone then Consumer else Main)"

lemmas fast_inv_defs = fast_queue_inv_def fast_control_inv_def Let_def filled_def
lemmas fast_work_defs = work_def producer_work_def consumer_work_def
lemmas due_defs = popped_calls_def waiting_calls_def

lemma refinesD:
  assumes "refines s a s'" and "capacity (m_queue (z_queue s)) = 4096"
  shows "fsys_inv s'" "sys_abs s' = abs_act 4096 a (sys_abs s)" "capacity (m_queue (z_queue s')) = 4096"
    "a \<noteq> ActPush \<Longrightarrow> push_room (m_queue (z_queue s)) \<le> push_room (m_queue (z_queue s'))"
    "push_room (m_queue (z_queue s)) \<le> push_room (m_queue (z_queue s')) + 1"
  using assms by (auto simp: refines_def split: if_splits)

text \<open>What the steps of the two threads mean for the queue.\<close>

lemma move_calls:
  assumes "fast_queue_inv bytesPosition l0 s"
  shows "t_count (a_topics (sys_abs (x_sys s)) 0) \<noteq> 0 \<and>
    expected_calls (a_topics (sys_abs (x_sys s))) 0 (Some (bytesPosition (int i) 0 0)) 12 = [move_call bytesPosition i]"
proof -
  have "topic_calls (a_topics (sys_abs (x_sys s))) (0, Some (bytesPosition (int i) 0 0), 12) = [[move_call bytesPosition i]]"
    using assms by (simp add: fast_queue_inv_def Let_def move_call_def)
  from topic_calls_one [OF this] show ?thesis by simp
qed

lemma move_buffer: "length bytes = 12 \<Longrightarrow> buffer_ok (Some bytes) 12"
  by (simp add: buffer_ok_def buffer_bytes_def)

lemma upt_snoc: "map f [0..<Suc n] = map f [0..<n] @ [f n]"
  by simp

lemma fill_step:
  assumes Q: "fast_queue_inv bytesPosition l0 s" and C: "fast_control_inv s" and size: "\<And>x y z. length (bytesPosition x y z) = 12"
    and pc: "x_producer s = PTest" "x_i s < 100"
  shows "\<exists>z. producer_step bytesPosition s = ret (s\<lparr>x_sys := z, x_producer := PPush\<rparr>) \<and>
    fast_queue_inv bytesPosition l0 (s\<lparr>x_sys := z, x_producer := PPush\<rparr>) \<and> a_ring (sys_abs z) = a_ring (sys_abs (x_sys s))"
proof -
  let ?z = "x_sys s" and ?fill = "ActFill 0 (Some (bytesPosition (int (x_i s)) 0 0)) 12"
  have inv: "fsys_inv ?z" "capacity (m_queue (z_queue ?z)) = 4096" "a_poster (sys_abs ?z) = None"
    using Q pc by (auto simp: fast_queue_inv_def Let_def)
  obtain z where z: "fq_act ?fill ?z = ret z" "refines ?z ?fill z" using act_fill_ok [OF inv(1) move_buffer [OF size]] by blast
  note R = refinesD [OF z(2) inv(2)]
  have abs: "sys_abs z = (sys_abs ?z)\<lparr>a_poster := Some [move_call bytesPosition (x_i s)]\<rparr>"
    using R(2) inv(3) move_calls [OF Q, of "x_i s"] by (simp add: FAST_MAX_TOPICS_def)
  have "z_poster z \<noteq> None" by (simp add: abs_poster abs)
  moreover have "x_topic s = 0" using C by (simp add: fast_control_inv_def)
  ultimately have "producer_step bytesPosition s = ret (s\<lparr>x_sys := z, x_producer := PPush\<rparr>)"
    using pc z(1) by (simp add: producer_step_def)
  moreover have "fast_queue_inv bytesPosition l0 (s\<lparr>x_sys := z, x_producer := PPush\<rparr>)"
    using Q R(1,3,4) pc inv(3) by (auto simp: fast_inv_defs abs due_defs upt_snoc simp del: upt_Suc)
  ultimately show ?thesis by (auto simp: abs)
qed

lemma push_step:
  assumes Q: "fast_queue_inv bytesPosition l0 s" and C: "fast_control_inv s" and pc: "x_producer s = PPush"
  shows "\<exists>z d. producer_step bytesPosition s = ret (s\<lparr>x_sys := z, x_producer := PCount\<rparr>) \<and>
    fast_queue_inv bytesPosition l0 (s\<lparr>x_sys := z, x_producer := PCount\<rparr>) \<and> a_ring (sys_abs z) = a_ring (sys_abs (x_sys s)) @ [d]"
proof -
  let ?z = "x_sys s"
  have i: "x_i s < 100" using C pc by (simp add: fast_control_inv_def)
  have inv: "fsys_inv ?z" "capacity (m_queue (z_queue ?z)) = 4096" "a_poster (sys_abs ?z) \<noteq> None" "0 < push_room (m_queue (z_queue ?z))"
    "length (a_ring (sys_abs ?z)) < 4096"
    using Q pc i by (auto simp: fast_queue_inv_def Let_def)
  obtain z where z: "fq_act ActPush ?z = ret z" "refines ?z ActPush z" using act_push_ok [OF inv(1,4)] by blast
  note R = refinesD [OF z(2) inv(2)]
  obtain d where d: "a_poster (sys_abs ?z) = Some d" using inv(3) by blast
  have abs: "sys_abs z = (sys_abs ?z)\<lparr>a_ring := a_ring (sys_abs ?z) @ [d], a_poster := None\<rparr>"
    using R(2) inv(5) d by simp
  have "producer_step bytesPosition s = ret (s\<lparr>x_sys := z, x_producer := PCount\<rparr>)"
    using pc z(1) by (simp add: producer_step_def abs_poster abs)
  moreover have "fast_queue_inv bytesPosition l0 (s\<lparr>x_sys := z, x_producer := PCount\<rparr>)"
    using Q R(1,3,5) pc d by (auto simp: fast_inv_defs abs due_defs simp del: upt_Suc)
  ultimately show ?thesis by (auto simp: abs)
qed

lemma producer_ok:
  assumes Q: "fast_queue_inv bytesPosition l0 s" and C: "fast_control_inv s" and size: "\<And>x y z. length (bytesPosition x y z) = 12"
  shows "\<exists>s'. producer_step bytesPosition s = ret s' \<and> fast_queue_inv bytesPosition l0 s' \<and> fast_control_inv s' \<and>
    (x_producer s \<noteq> PDone \<longrightarrow> work s' < work s)"
proof (cases "x_producer s")
  case PTest
  show ?thesis
  proof (cases "x_i s < 100")
    case True
    from fill_step [OF Q C size PTest True] obtain z where
      z: "producer_step bytesPosition s = ret (s\<lparr>x_sys := z, x_producer := PPush\<rparr>)"
      "fast_queue_inv bytesPosition l0 (s\<lparr>x_sys := z, x_producer := PPush\<rparr>)" "a_ring (sys_abs z) = a_ring (sys_abs (x_sys s))" by blast
    moreover have "fast_control_inv (s\<lparr>x_sys := z, x_producer := PPush\<rparr>)"
      using C PTest True z(3) by (auto simp: fast_control_inv_def)
    moreover have "work (s\<lparr>x_sys := z, x_producer := PPush\<rparr>) < work s" using PTest z(3) by (simp add: fast_work_defs)
    ultimately show ?thesis by blast
  next
    case False
    have "fast_queue_inv bytesPosition l0 (s\<lparr>x_producer := PDone\<rparr>)" using Q PTest by (simp add: fast_inv_defs)
    moreover have "fast_control_inv (s\<lparr>x_producer := PDone\<rparr>)" using C False by (auto simp: fast_control_inv_def)
    moreover have "work (s\<lparr>x_producer := PDone\<rparr>) < work s" using PTest by (simp add: fast_work_defs)
    ultimately show ?thesis using PTest False by (simp add: producer_step_def)
  qed
next
  case PPush
  from push_step [OF Q C PPush] obtain z d where
    z: "producer_step bytesPosition s = ret (s\<lparr>x_sys := z, x_producer := PCount\<rparr>)"
    "fast_queue_inv bytesPosition l0 (s\<lparr>x_sys := z, x_producer := PCount\<rparr>)" "a_ring (sys_abs z) = a_ring (sys_abs (x_sys s)) @ [d]" by blast
  moreover have "fast_control_inv (s\<lparr>x_sys := z, x_producer := PCount\<rparr>)"
    using C PPush by (auto simp: fast_control_inv_def)
  moreover have "work (s\<lparr>x_sys := z, x_producer := PCount\<rparr>) < work s"
    using PPush z(3) by (simp add: fast_work_defs split: consumer_pc.split)
  ultimately show ?thesis by blast
next
  case PCount
  let ?s = "s\<lparr>x_count := x_count s + 1, x_i := x_i s + 1, x_producer := PTest\<rparr>"
  have "fast_queue_inv bytesPosition l0 ?s" using Q PCount by (simp add: fast_inv_defs)
  moreover have "fast_control_inv ?s" using C PCount by (auto simp: fast_control_inv_def)
  moreover have "x_i s < 100" using C PCount by (simp add: fast_control_inv_def)
  then have "100 - x_i s = Suc (99 - x_i s)" by simp
  then have "work ?s < work s" using PCount by (simp add: fast_work_defs)
  ultimately show ?thesis using PCount by (simp add: producer_step_def)
next
  case PDone
  then show ?thesis using Q C by (simp add: producer_step_def)
qed

lemma pop_step:
  assumes Q: "fast_queue_inv bytesPosition l0 s" and pc: "x_consumer s = CPop"
  shows "\<exists>s'. consumer_step s = ret s' \<and> fast_queue_inv bytesPosition l0 s' \<and>
    ((a_ring (sys_abs (x_sys s)) = [] \<and> (\<exists>z. sys_abs z = sys_abs (x_sys s) \<and> s' = s\<lparr>x_sys := z, x_consumer := CRunning\<rparr>)) \<or>
     (\<exists>z d. a_ring (sys_abs (x_sys s)) = d # a_ring (sys_abs z) \<and> s' = s\<lparr>x_sys := z, x_consumer := CDeliver\<rparr>))"
proof -
  let ?z = "x_sys s" and ?a = "sys_abs (x_sys s)"
  have inv: "fsys_inv ?z" "capacity (m_queue (z_queue ?z)) = 4096" "a_threads ?a 0 = AIdle"
    using Q pc by (auto simp: fast_queue_inv_def Let_def)
  obtain z where z: "fq_act (ActPop 0) ?z = ret z" "refines ?z (ActPop 0) z" using act_pop_ok [OF inv(1)] by blast
  note R = refinesD [OF z(2) inv(2)]
  show ?thesis
  proof (cases "a_ring ?a")
    case Nil
    then have abs: "sys_abs z = ?a" using R(2) inv(3) by simp
    let ?s = "s\<lparr>x_sys := z, x_consumer := CRunning\<rparr>"
    have "consumer_step s = ret ?s" using pc z(1) inv(3) by (simp add: consumer_step_def abs_idle abs)
    moreover have "fast_queue_inv bytesPosition l0 ?s" using Q R(1,3,4) pc by (auto simp: fast_inv_defs abs simp del: upt_Suc)
    ultimately show ?thesis using Nil abs by blast
  next
    case (Cons d ds)
    then have abs: "sys_abs z = ?a\<lparr>a_ring := ds, a_threads := (a_threads ?a)(0 := APopped d)\<rparr>" using R(2) inv(3) by simp
    let ?s = "s\<lparr>x_sys := z, x_consumer := CDeliver\<rparr>"
    have "consumer_step s = ret ?s" using pc z(1) by (simp add: consumer_step_def abs_idle abs)
    moreover have "fast_queue_inv bytesPosition l0 ?s"
      using Q R(1,3,4) pc Cons inv(3) by (auto simp: fast_inv_defs abs due_defs simp del: upt_Suc)
    moreover have "a_ring ?a = d # a_ring (sys_abs z)" by (simp add: abs Cons)
    ultimately show ?thesis by blast
  qed
qed

lemma deliver_step:
  assumes Q: "fast_queue_inv bytesPosition l0 s" and pc: "x_consumer s = CDeliver"
  shows "\<exists>z. consumer_step s = ret (s\<lparr>x_sys := z, x_consumer := CRelease\<rparr>) \<and>
    fast_queue_inv bytesPosition l0 (s\<lparr>x_sys := z, x_consumer := CRelease\<rparr>) \<and> a_ring (sys_abs z) = a_ring (sys_abs (x_sys s))"
proof -
  let ?z = "x_sys s" and ?a = "sys_abs (x_sys s)"
  have inv: "fsys_inv ?z" "capacity (m_queue (z_queue ?z)) = 4096" "a_threads ?a 0 \<noteq> AIdle" "a_threads ?a 0 \<noteq> ADelivered"
    using Q pc by (auto simp: fast_queue_inv_def Let_def)
  obtain d where d: "a_threads ?a 0 = APopped d" using inv(3,4) by (cases "a_threads ?a 0") auto
  obtain z where z: "fq_act (ActDeliver 0) ?z = ret z" "refines ?z (ActDeliver 0) z" using act_deliver_ok [OF inv(1)] by blast
  note R = refinesD [OF z(2) inv(2)]
  have abs: "sys_abs z = ?a\<lparr>a_log := a_log ?a @ d, a_threads := (a_threads ?a)(0 := ADelivered)\<rparr>" using R(2) d by simp
  have "fast_queue_inv bytesPosition l0 (s\<lparr>x_sys := z, x_consumer := CRelease\<rparr>)"
    using Q R(1,3,4) pc d by (auto simp: fast_inv_defs abs due_defs simp del: upt_Suc)
  then show ?thesis using pc z(1) by (intro exI [of _ z]) (simp add: consumer_step_def abs)
qed

lemma release_step:
  assumes Q: "fast_queue_inv bytesPosition l0 s" and pc: "x_consumer s = CRelease"
  shows "\<exists>z. consumer_step s = ret (s\<lparr>x_sys := z, x_consumer := CRunning\<rparr>) \<and>
    fast_queue_inv bytesPosition l0 (s\<lparr>x_sys := z, x_consumer := CRunning\<rparr>) \<and> a_ring (sys_abs z) = a_ring (sys_abs (x_sys s))"
proof -
  let ?z = "x_sys s" and ?a = "sys_abs (x_sys s)"
  have inv: "fsys_inv ?z" "capacity (m_queue (z_queue ?z)) = 4096" "a_threads ?a 0 = ADelivered"
    using Q pc by (auto simp: fast_queue_inv_def Let_def)
  obtain z where z: "fq_act (ActRelease 0) ?z = ret z" "refines ?z (ActRelease 0) z" using act_release_ok [OF inv(1)] by blast
  note R = refinesD [OF z(2) inv(2)]
  have abs: "sys_abs z = ?a\<lparr>a_threads := (a_threads ?a)(0 := AIdle)\<rparr>" using R(2) inv(3) by simp
  have "fast_queue_inv bytesPosition l0 (s\<lparr>x_sys := z, x_consumer := CRunning\<rparr>)"
    using Q R(1,3,4) pc inv(3) by (auto simp: fast_inv_defs abs due_defs simp del: upt_Suc)
  then show ?thesis using pc z(1) by (intro exI [of _ z]) (simp add: consumer_step_def abs)
qed

lemma consumer_moves:
  assumes "fast_queue_inv bytesPosition l0 s" and "x_consumer s \<notin> {CDeliver, CRelease}" and "c \<notin> {CDeliver, CRelease}"
  shows "fast_queue_inv bytesPosition l0 (s\<lparr>x_consumer := c\<rparr>)"
  using assms by (simp add: fast_inv_defs)

lemma consumer_control:
  assumes "fast_control_inv s" and "x_consumer s \<noteq> CDone" and "c \<in> {CEmpty, CDone} \<Longrightarrow> \<not> x_running s"
    and "c = CDone \<Longrightarrow> a_ring (sys_abs z) = []"
  shows "fast_control_inv (s\<lparr>x_sys := z, x_consumer := c\<rparr>)"
  using assms by (auto simp: fast_control_inv_def)

lemma consumer_ok:
  assumes Q: "fast_queue_inv bytesPosition l0 s" and C: "fast_control_inv s"
  shows "\<exists>s'. consumer_step s = ret s' \<and> fast_queue_inv bytesPosition l0 s' \<and> fast_control_inv s' \<and>
    (x_main s = MJoinConsumer \<and> x_consumer s \<noteq> CDone \<longrightarrow> work s' < work s)"
proof (cases "x_consumer s")
  case CRunning
  let ?s = "s\<lparr>x_consumer := if x_running s then CPop else CEmpty\<rparr>"
  have "fast_queue_inv bytesPosition l0 ?s" using CRunning by (intro consumer_moves [OF Q]) simp_all
  moreover have "fast_control_inv ?s"
    using consumer_control [OF C, of "if x_running s then CPop else CEmpty" "x_sys s"] CRunning by (cases "x_running s") simp_all
  moreover have "work ?s < work s" if "x_main s = MJoinConsumer"
    using that C CRunning by (simp add: fast_work_defs fast_control_inv_def)
  ultimately show ?thesis using CRunning by (simp add: consumer_step_def)
next
  case CEmpty
  have "fsys_inv (x_sys s)" using Q by (simp add: fast_queue_inv_def Let_def)
  note empty = abs_empty [OF this]
  let ?c = "if fq_empty (z_queue (x_sys s)) then CDone else CPop"
  let ?s = "s\<lparr>x_consumer := ?c\<rparr>"
  have "fast_queue_inv bytesPosition l0 ?s" using CEmpty by (intro consumer_moves [OF Q]) simp_all
  moreover have "\<not> x_running s" using C CEmpty by (auto simp: fast_control_inv_def)
  then have "fast_control_inv ?s" using consumer_control [OF C, of ?c "x_sys s"] CEmpty empty by (cases "a_ring (sys_abs (x_sys s)) = []") auto
  moreover have "work ?s < work s" using CEmpty empty by (simp add: fast_work_defs)
  ultimately show ?thesis using CEmpty by (simp add: consumer_step_def)
next
  case CPop
  from pop_step [OF Q CPop] obtain s' where s': "consumer_step s = ret s'" "fast_queue_inv bytesPosition l0 s'"
    and new: "(a_ring (sys_abs (x_sys s)) = [] \<and> (\<exists>z. sys_abs z = sys_abs (x_sys s) \<and> s' = s\<lparr>x_sys := z, x_consumer := CRunning\<rparr>)) \<or>
     (\<exists>z d. a_ring (sys_abs (x_sys s)) = d # a_ring (sys_abs z) \<and> s' = s\<lparr>x_sys := z, x_consumer := CDeliver\<rparr>)" by blast
  have "fast_control_inv s'" using new CPop by (auto intro!: consumer_control [OF C])
  moreover have "work s' < work s" using new CPop by (auto simp: fast_work_defs)
  ultimately show ?thesis using s' by blast
next
  case CDeliver
  from deliver_step [OF Q CDeliver] obtain z where z: "consumer_step s = ret (s\<lparr>x_sys := z, x_consumer := CRelease\<rparr>)"
    "fast_queue_inv bytesPosition l0 (s\<lparr>x_sys := z, x_consumer := CRelease\<rparr>)" "a_ring (sys_abs z) = a_ring (sys_abs (x_sys s))" by blast
  moreover have "fast_control_inv (s\<lparr>x_sys := z, x_consumer := CRelease\<rparr>)" using CDeliver by (intro consumer_control [OF C]) simp_all
  moreover have "work (s\<lparr>x_sys := z, x_consumer := CRelease\<rparr>) < work s" using CDeliver z(3) by (simp add: fast_work_defs)
  ultimately show ?thesis by blast
next
  case CRelease
  from release_step [OF Q CRelease] obtain z where z: "consumer_step s = ret (s\<lparr>x_sys := z, x_consumer := CRunning\<rparr>)"
    "fast_queue_inv bytesPosition l0 (s\<lparr>x_sys := z, x_consumer := CRunning\<rparr>)" "a_ring (sys_abs z) = a_ring (sys_abs (x_sys s))" by blast
  moreover have "fast_control_inv (s\<lparr>x_sys := z, x_consumer := CRunning\<rparr>)" using CRelease by (intro consumer_control [OF C]) simp_all
  moreover have "work (s\<lparr>x_sys := z, x_consumer := CRunning\<rparr>) < work s" using CRelease z(3) by (simp add: fast_work_defs)
  ultimately show ?thesis by blast
next
  case CDone
  then show ?thesis using Q C by (simp add: consumer_step_def)
qed

lemma main_ok:
  assumes Q: "fast_queue_inv bytesPosition l0 s" and C: "fast_control_inv s"
  shows "\<exists>s'. main_step s = ret s' \<and> fast_queue_inv bytesPosition l0 s' \<and> fast_control_inv s' \<and>
    (x_main s \<noteq> MDone \<and> next_actor s = Main \<longrightarrow> work s' < work s)"
proof -
  have "fast_queue_inv bytesPosition l0 (s\<lparr>x_main := m\<rparr>)" "fast_queue_inv bytesPosition l0 (s\<lparr>x_running := False, x_main := m\<rparr>)" for m
    using Q by (simp_all add: fast_inv_defs)
  then show ?thesis
    using Q C by (cases "x_main s") (auto simp: main_step_def fast_control_inv_def fast_work_defs next_actor_def split: if_splits)
qed

lemma fast_step_ok:
  assumes Q: "fast_queue_inv bytesPosition l0 s" and C: "fast_control_inv s" and size: "\<And>x y z. length (bytesPosition x y z) = 12"
  shows "\<exists>s'. fast_step bytesPosition a s = ret s' \<and> fast_queue_inv bytesPosition l0 s' \<and> fast_control_inv s' \<and>
    (x_main s \<noteq> MDone \<and> a = next_actor s \<longrightarrow> work s' < work s)"
proof (cases a)
  case Producer
  then show ?thesis using producer_ok [OF Q C size] by (auto simp: next_actor_def split: if_splits)
next
  case Consumer
  then show ?thesis using consumer_ok [OF Q C] by (auto simp: next_actor_def split: if_splits)
next
  case Main
  then show ?thesis using main_ok [OF Q C] by auto
qed

lemma fast_steps_ok:
  assumes "fast_queue_inv bytesPosition l0 s" and "fast_control_inv s" and size: "\<And>x y z. length (bytesPosition x y z) = 12"
  shows "\<exists>s'. fast_steps bytesPosition s as = ret s' \<and> fast_queue_inv bytesPosition l0 s' \<and> fast_control_inv s'"
  using assms(1,2)
proof (induction as arbitrary: s)
  case (Cons a as)
  from fast_step_ok [OF Cons.prems size, of a] obtain s1 where
    "fast_step bytesPosition a s = ret s1" "fast_queue_inv bytesPosition l0 s1" "fast_control_inv s1" by blast
  with Cons.IH show ?case by simp
qed simp

lemma fast_progress:
  assumes "fast_queue_inv bytesPosition l0 s" and "fast_control_inv s" and size: "\<And>x y z. length (bytesPosition x y z) = 12"
  shows "\<exists>as s'. fast_steps bytesPosition s as = ret s' \<and> x_main s' = MDone \<and> length as \<le> work s"
  using assms(1,2)
proof (induction "work s" arbitrary: s rule: less_induct)
  case less
  show ?case
  proof (cases "x_main s = MDone")
    case True
    then show ?thesis by (intro exI [of _ "[]"] exI [of _ s]) simp
  next
    case False
    from fast_step_ok [OF less.prems size, of "next_actor s"] False obtain s1 where
      s1: "fast_step bytesPosition (next_actor s) s = ret s1" "fast_queue_inv bytesPosition l0 s1" "fast_control_inv s1" "work s1 < work s" by blast
    from less.hyps [OF s1(4,2,3)] obtain as s' where
      "fast_steps bytesPosition s1 as = ret s'" "x_main s' = MDone" "length as \<le> work s1" by blast
    with s1 show ?thesis by (intro exI [of _ "next_actor s # as"] exI [of _ s']) simp
  qed
qed

section \<open>The program as a whole\<close>

lemma fast_threads_start:
  assumes "fq_ok q" and "fq_pending q = []" and "log (fq_world q) = l0" and "capacity (m_queue q) = 4096" and "101 \<le> push_room (m_queue q)"
    and "\<And>i. fq_calls q (0, Some (bytesPosition i 0 0), 12) = [[Call onMove 0 (Some (map Some (bytesPosition i 0 0))) 12 0]]"
  shows "fast_queue_inv bytesPosition l0 (fast_threads q 0) \<and> fast_control_inv (fast_threads q 0)"
proof -
  have "contents (m_queue q) = []" using assms(2) length_mpending [of "m_queue q"] by (metis length_0_conv)
  then have "sys_abs (fq_start q) = \<lparr>a_topics = m_topics q, a_poster = None, a_ring = [], a_threads = (\<lambda>_. AIdle), a_log = l0\<rparr>"
    using assms(3) by (simp add: sys_abs_def fq_start_def pc_abs_def)
  moreover have "z_queue (fq_start q) = q" by (simp add: fq_start_def)
  ultimately show ?thesis
    using assms(4-6) fsys_start [OF assms(1)] by (simp add: fast_inv_defs fast_threads_def due_defs)
qed

lemma fast_end:
  assumes Q: "fast_queue_inv bytesPosition l0 s" and C: "fast_control_inv s" and "x_main s = MDone"
  shows "log (fq_world (z_queue (x_sys s))) = l0 @ map (move_call bytesPosition) [0..<100] \<and> x_count s = 100 \<and>
    live (fq_heap (z_queue (x_sys s))) = {}"
proof -
  let ?a = "sys_abs (x_sys s)"
  have pcs: "x_consumer s = CDone" "x_producer s = PDone" "x_i s = 100" "x_count s = 100" "a_ring ?a = []"
    using C assms(3) by (auto simp: fast_control_inv_def)
  have a: "a_poster ?a = None" "a_threads ?a t = AIdle" for t
    using Q pcs(1,2) by (cases "t = 0"; simp add: fast_queue_inv_def Let_def)+
  have "a_log ?a = l0 @ map (move_call bytesPosition) [0..<100]"
    using Q pcs a by (simp add: fast_inv_defs due_defs)
  moreover have "fsys_inv (x_sys s)" using Q by (simp add: fast_queue_inv_def Let_def)
  then have "live (fq_heap (z_queue (x_sys s))) = {}"
  proof (rule fsys_no_payload)
    show "z_poster (x_sys s) = None" using a(1) abs_poster by blast
    show "contents (m_queue (z_queue (x_sys s))) = []" using pcs(5) by (simp add: sys_abs_def)
    show "z_threads (x_sys s) t \<noteq> DPopped n" for t n using a(2) abs_idle by (metis disp_pc.distinct(1))
  qed
  ultimately show ?thesis using pcs(4) by (simp add: sys_abs_def)
qed

lemma work_bound:
  assumes "fast_queue_inv bytesPosition l0 s" and "fast_control_inv s"
  shows "work s \<le> 2520"
proof -
  have "length (a_ring (sys_abs (x_sys s))) \<le> 100" using assms by (auto simp: fast_inv_defs split: if_splits)
  then show ?thesis by (auto simp: fast_work_defs split: producer_pc.split consumer_pc.split main_pc.split)
qed

text \<open>C17. The whole fast-queue example. The first part returns and calls the three observers once each, in
the order of the posts. From there every schedule of the producer, the consumer and the main thread runs
without a fault, and from wherever it stops some continuation of at most 2520 steps ends the program. When
the main thread is done, all hundred moves were delivered once, in order, although the consumer tests
\<open>running\<close> and \<open>empty()\<close> apart; the count is 100 and no payload is left.\<close>

theorem fast_example_spec:
  assumes size: "\<And>x y z. length (bytesPosition x y z) = 12" "\<And>i. length (bytesInt i) = 4"
  shows "\<exists>q. fast_first bytesPosition bytesInt = ret (q, 0) \<and> log (fq_world q) = first_calls bytesPosition bytesInt \<and>
    (\<forall>as. \<exists>s. fast_steps bytesPosition (fast_threads q 0) as = ret s \<and>
       (x_main s = MDone \<longrightarrow>
          log (fq_world (z_queue (x_sys s))) = first_calls bytesPosition bytesInt @ map (move_call bytesPosition) [0..<100] \<and>
          x_count s = 100 \<and> live (fq_heap (z_queue (x_sys s))) = {}) \<and>
       (\<exists>more s'. fast_steps bytesPosition s more = ret s' \<and> x_main s' = MDone \<and> length more \<le> 2520))"
proof -
  obtain q where q: "fast_first bytesPosition bytesInt = ret (q, 0)" "fq_ok q" "fq_pending q = []"
    "log (fq_world q) = first_calls bytesPosition bytesInt" "capacity (m_queue q) = 4096" "101 \<le> push_room (m_queue q)"
    "\<And>i. fq_calls q (0, Some (bytesPosition i 0 0), 12) = [[Call onMove 0 (Some (map Some (bytesPosition i 0 0))) 12 0]]"
    using fast_first_ok [of bytesPosition bytesInt] size by blast
  let ?l0 = "first_calls bytesPosition bytesInt"
  have start: "fast_queue_inv bytesPosition ?l0 (fast_threads q 0)" "fast_control_inv (fast_threads q 0)"
    using fast_threads_start [of q ?l0 bytesPosition] q by blast+
  have "\<exists>s. fast_steps bytesPosition (fast_threads q 0) as = ret s \<and>
       (x_main s = MDone \<longrightarrow> log (fq_world (z_queue (x_sys s))) = ?l0 @ map (move_call bytesPosition) [0..<100] \<and>
          x_count s = 100 \<and> live (fq_heap (z_queue (x_sys s))) = {}) \<and>
       (\<exists>more s'. fast_steps bytesPosition s more = ret s' \<and> x_main s' = MDone \<and> length more \<le> 2520)" for as
  proof -
    obtain s where s: "fast_steps bytesPosition (fast_threads q 0) as = ret s" "fast_queue_inv bytesPosition ?l0 s" "fast_control_inv s"
      using fast_steps_ok [OF start size(1)] by blast
    with fast_progress [OF s(2,3) size(1)] work_bound [OF s(2,3)] fast_end [OF s(2,3)] show ?thesis by (meson le_trans)
  qed
  with q(1,4) show ?thesis by blast
qed

theorem fast_example_spec_witness:
  "\<exists>q as s. fast_first (\<lambda>x y z. replicate 12 (word_of_int x)) (\<lambda>i. replicate 4 (word_of_int i)) = ret (q, 0) \<and>
     fast_steps (\<lambda>x y z. replicate 12 (word_of_int x)) (fast_threads q 0) as = ret s \<and> x_main s = MDone \<and> length as \<le> 2520"
proof -
  let ?p = "\<lambda>x y z :: int. replicate 12 (word_of_int x) :: u8 list" and ?i = "\<lambda>i. replicate 4 (word_of_int i) :: u8 list"
  obtain q where q: "fast_first ?p ?i = ret (q, 0)" and runs: "\<forall>as. \<exists>s. fast_steps ?p (fast_threads q 0) as = ret s \<and>
      (x_main s = MDone \<longrightarrow> log (fq_world (z_queue (x_sys s))) = first_calls ?p ?i @ map (move_call ?p) [0..<100] \<and>
         x_count s = 100 \<and> live (fq_heap (z_queue (x_sys s))) = {}) \<and>
      (\<exists>more s'. fast_steps ?p s more = ret s' \<and> x_main s' = MDone \<and> length more \<le> 2520)"
    using fast_example_spec [of ?p ?i] unfolding length_replicate by blast
  from runs [rule_format, of "[]"] q show ?thesis by auto
qed

end
