(* ===== verification/Example_Batch.thy ===== *)
theory Example_Batch
  imports Queue_Batch
begin

text \<open>
  The program \<open>src/examples/batch_queue/main.cpp\<close> on \<open>EventQueueBroadcastFastBatch\<close>, the part that
  one thread runs: it posts 10000 events and then dispatches in batches until the queue is
  empty. That loop is shown to be equivalent to \<open>dispatchAll\<close>. The callback counts; here the
  counter is computed from the log of the calls. How an event lies in memory is a parameter, of
  which only the size is used. The second half of the program, in which four threads post at
  once, is in \<open>Example_Batch_Threads\<close>.
\<close>

section \<open>The loop over batches\<close>

partial_function (option) batch_loop :: "u64 \<Rightarrow> batch_queue \<Rightarrow> batch_queue run" where
  "batch_loop maxCount q =
     (if bq_empty q then ret q else rbind (bq_dispatchBatch q maxCount) (\<lambda>r. batch_loop maxCount (fst r)))"

text \<open>Two queues that nobody can tell apart: what is due, what was called, and what else counts.\<close>

definition bq_same :: "batch_queue \<Rightarrow> batch_queue \<Rightarrow> bool" where
  "bq_same q1 q2 \<longleftrightarrow> bq_ok q1 \<and> bq_ok q2 \<and> bq_pending q1 = bq_pending q2 \<and> bq_held q1 = bq_held q2 \<and>
     log (b_world q1) = log (b_world q2) \<and> bq_frame q1 = bq_frame q2"

lemma bq_empty_pending: "bq_ok q \<Longrightarrow> bq_empty q \<longleftrightarrow> bq_pending q = []"
  using mpmc_empty_contents [of "b_queue q"]
  by (simp add: bq_empty_def bq_ok_def mchan_def chan_ok_def flip: length_0_conv)

lemma batch_loop_ok:
  assumes "bq_ok q" and "0 < maxCount"
  shows "\<exists>q'. batch_loop maxCount q = ret q' \<and> bq_ok q' \<and> bq_pending q' = [] \<and> bq_held q' = bq_held q \<and>
    bq_frame q' = bq_frame q \<and> log (b_world q') = log (b_world q) @ concat (bq_pending q) \<and>
    pool_kept (b_messagePool q) (b_messagePool q')"
  using assms(1)
proof (induction "length (bq_pending q)" arbitrary: q rule: less_induct)
  case less
  show ?case
  proof (cases "bq_pending q = []")
    case True
    then have "batch_loop maxCount q = ret q" using bq_empty_pending [OF less.prems] by (simp add: batch_loop.simps)
    then show ?thesis using less.prems True by (intro exI [of _ q]) simp
  next
    case False
    obtain q1 n where q1: "bq_dispatchBatch q maxCount = ret (q1, of_nat n)" "n = min (min (unat maxCount) 32) (length (bq_pending q))"
      "bq_ok q1" "bq_pending q1 = drop n (bq_pending q)" "bq_held q1 = bq_held q" "bq_frame q1 = bq_frame q"
      "log (b_world q1) = log (b_world q) @ concat (take n (bq_pending q))"
      using bq_dispatchBatch_ok [OF less.prems, of maxCount] by blast
    have "0 < length (bq_pending q)" using False by blast
    then have n: "0 < n" "n \<le> length (bq_pending q)" using q1(2) assms(2) by (auto simp: word_less_nat_alt)
    then have "length (bq_pending q1) < length (bq_pending q)" unfolding q1(4) by (simp only: length_drop)
    from less.hyps [OF this q1(3)] obtain q2 where q2: "batch_loop maxCount q1 = ret q2" "bq_ok q2" "bq_pending q2 = []"
      "bq_held q2 = bq_held q1" "bq_frame q2 = bq_frame q1" "log (b_world q2) = log (b_world q1) @ concat (bq_pending q1)"
      "pool_kept (b_messagePool q1) (b_messagePool q2)" by blast
    have "pool_kept (b_messagePool q) (b_messagePool q2)"
      using bq_dispatchBatch_kept [OF less.prems q1(1)] q2(7) by (rule pool_kept_trans)
    have "batch_loop maxCount q = ret q2"
      using False bq_empty_pending [OF less.prems] q1(1) q2(1) by (subst batch_loop.simps) simp
    moreover have "log (b_world q2) = log (b_world q) @ concat (bq_pending q)"
      unfolding q2(6) q1(7) q1(4) by (metis append.assoc append_take_drop_id concat_append)
    moreover note \<open>pool_kept (b_messagePool q) (b_messagePool q2)\<close>
    ultimately show ?thesis using q2 q1(5,6) by auto
  qed
qed

text \<open>C22. Dispatching in batches of any positive size until the queue is empty is equivalent to
\<open>dispatchAll\<close>: both return, make the same calls in the same order, and leave queues that agree in
everything that later operations can see, with nothing pending.\<close>

theorem batch_loop_equals_dispatchAll:
  assumes "bq_ok q" and "0 < maxCount"
  shows "\<exists>q1 q2. batch_loop maxCount q = ret q1 \<and> bq_dispatchAll q = ret (q2, of_nat (length (bq_pending q))) \<and>
    bq_same q1 q2 \<and> bq_pending q1 = [] \<and> log (b_world q1) = log (b_world q) @ concat (bq_pending q)"
proof -
  obtain q1 where q1: "batch_loop maxCount q = ret q1" "bq_ok q1" "bq_pending q1 = []" "bq_held q1 = bq_held q"
    "bq_frame q1 = bq_frame q" "log (b_world q1) = log (b_world q) @ concat (bq_pending q)"
    using batch_loop_ok [OF assms] by blast
  obtain q2 where "while_count bq_dispatchOne (q, 0) = ret (q2, of_nat (length (bq_pending q)))"
    "bq_ok q2" "bq_held q2 = bq_held q" "bq_frame q2 = bq_frame q" "bq_pending q2 = []"
    "log (b_world q2) = log (b_world q) @ concat (bq_pending q)"
    using bq_framed.drain_ok [of q "bq_held q" "bq_frame q"] assms(1) by blast
  with q1 show ?thesis by (auto simp: bq_same_def bq_dispatchAll_def)
qed

section \<open>The program\<close>

definition onEvent :: nat where "onEvent = 1"

fun batch_callback :: "delivery \<Rightarrow> int \<Rightarrow> int" where
  "batch_callback (Call f topic dat sz ud) eventCount = (if f = onEvent then eventCount + 1 else eventCount)"

definition batch_example :: "(u32 \<Rightarrow> u64 \<Rightarrow> u8 list) \<Rightarrow> (batch_queue \<times> u16 \<times> int) run" where
  "batch_example bytesEvent =
     rbind (Some (bq_new 65536)) (\<lambda>q.
       let (q, topic) = bq_registerTopic q; (q, _) = bq_addObserver q topic (Some onEvent) 0 in
       rbind (for_loop (\<lambda>i q. ignore (bq_post q topic (Some (bytesEvent (of_nat i) 0)) 16)) 0 10000 q) (\<lambda>q.
         rbind (batch_loop 32 q) (\<lambda>q. ret (q, topic, fold batch_callback (log (b_world q)) 0))))"

definition event_call :: "(u32 \<Rightarrow> u64 \<Rightarrow> u8 list) \<Rightarrow> nat \<Rightarrow> delivery" where
  "event_call bytesEvent i = Call onEvent 0 (Some (map Some (bytesEvent (of_nat i) 0))) 16 0"

declare topic_calls.simps [simp del] upt_rec_numeral [simp del]

lemma batch_setup:
  "\<exists>q q0. bq_new 65536 = Inr q \<and> bq_addObserver (fst (bq_registerTopic q)) 0 (Some onEvent) 0 = (q0, True) \<and>
     snd (bq_registerTopic q) = 0 \<and> bq_ok q0 \<and> bq_pending q0 = [] \<and> t_batch q0 = [] \<and> log (b_world q0) = [] \<and>
     capacity (b_queue q0) = 65536 \<and> 20000 \<le> push_room (b_queue q0) \<and>
     pool_nodes (b_messagePool q0) = 512 \<and> m_maxSize (b_messagePool q0) = 16384 \<and>
     (\<forall>bytes sz. bq_calls q0 (0, Some bytes, sz) = [[Call onEvent 0 (Some (map Some (take (unat sz) bytes))) sz 0]])"
proof -
  obtain q where q: "bq_new 65536 = Inr q" "bq_ok q" "bq_pending q = []" "t_batch q = []" "log (b_world q) = []"
    "b_topicCount q = 0" "\<forall>t. b_topics q t = no_observers" "capacity (b_queue q) = 65536" "push_room (b_queue q) = 2 ^ 63 - 65537"
    using bq_new_ok [of 65536 16] by auto
  obtain p where "pool_new zero_message 512 16384 = Inr p" "b_messagePool q = p" using q(1) by (auto simp: bq_new_def obind_eq_Inr)
  then have pool: "pool_nodes (b_messagePool q) = 512" "m_maxSize (b_messagePool q) = 16384" by (simp_all add: pool_new_nodes)
  have "topics_ok 16 (fst (add_observer BATCH_MAX_TOPICS BATCH_MAX_OBSERVERS (b_topics q) 0 (Some onEvent) 0))"
    using add_observer_ok [of BATCH_MAX_OBSERVERS "b_topics q" "Some onEvent" BATCH_MAX_TOPICS 0 0] q(2)
    by (simp add: bq_ok_def BATCH_MAX_OBSERVERS_def)
  then show ?thesis using q pool
    by (intro exI [of _ q] exI [of _ "fst (bq_addObserver (fst (bq_registerTopic q)) 0 (Some onEvent) 0)"])
      (simp add: bq_addObserver_def bq_registerTopic_def Let_def split_def bq_ok_def add_observer_def BATCH_MAX_TOPICS_def
        BATCH_MAX_OBSERVERS_def no_observers_def topic_calls.simps expected_calls_def expected_def buffer_bytes_def)
qed

text \<open>
  The single-threaded half of the program counts every event once, and what it leaves to the
  threads: an empty queue with one observer, room for 10000 more events, and a pool of at least 512 free nodes
  and at most 10512, below the limit from which nodes are deleted.
\<close>

definition batch_ready :: "(u32 \<Rightarrow> u64 \<Rightarrow> u8 list) \<Rightarrow> batch_queue \<Rightarrow> bool" where
  "batch_ready bytesEvent q \<longleftrightarrow> bq_ok q \<and> bq_pending q = [] \<and> t_batch q = [] \<and> capacity (b_queue q) = 65536 \<and>
     10000 \<le> push_room (b_queue q) \<and> 512 \<le> pool_nodes (b_messagePool q) \<and> pool_nodes (b_messagePool q) \<le> 10512 \<and>
     m_maxSize (b_messagePool q) = 16384 \<and> (\<forall>i. bq_calls q (0, Some (bytesEvent (of_nat i) 0), 16) = [[event_call bytesEvent i]])"

lemma batch_example_ok:
  assumes size: "\<And>i t. length (bytesEvent i t) = 16"
  shows "\<exists>q. batch_example bytesEvent = ret (q, 0, 10000) \<and> log (b_world q) = map (event_call bytesEvent) [0..<10000] \<and>
    live (rc_heap (b_world q)) = {} \<and> batch_ready bytesEvent q"
proof -
  obtain q q0 where q0: "bq_new 65536 = Inr q" "bq_addObserver (fst (bq_registerTopic q)) 0 (Some onEvent) 0 = (q0, True)"
    "snd (bq_registerTopic q) = 0" "bq_ok q0" "bq_pending q0 = []" "t_batch q0 = []" "log (b_world q0) = []"
    "capacity (b_queue q0) = 65536" "20000 \<le> push_room (b_queue q0)" "pool_nodes (b_messagePool q0) = 512"
    "m_maxSize (b_messagePool q0) = 16384"
    and calls: "\<And>bytes sz. bq_calls q0 (0, Some bytes, sz) = [[Call onEvent 0 (Some (map Some (take (unat sz) bytes))) sz 0]]"
    using batch_setup by metis
  let ?c = "event_call bytesEvent"
  let ?post = "\<lambda>i q. ignore (bq_post q 0 (Some (bytesEvent (of_nat i) 0)) 16)"
  let ?pool = "\<lambda>j q. 512 \<le> pool_nodes (b_messagePool q) \<and> pool_nodes (b_messagePool q) \<le> 512 + j \<and> m_maxSize (b_messagePool q) = 16384"
  let ?I = "\<lambda>j q. bq_ok q \<and> bq_pending q = map (\<lambda>i. [?c i]) [0..<j] \<and> log (b_world q) = [] \<and> bq_calls q = bq_calls q0 \<and>
    capacity (b_queue q) = 65536 \<and> 20000 \<le> push_room (b_queue q) + j \<and> t_batch q = [] \<and> ?pool j q"
  have event: "bq_calls q0 (0, Some (bytesEvent (of_nat j) 0), 16) = [[?c j]]" for j
    using calls [of "bytesEvent (of_nat j) 0" 16] size by (simp add: event_call_def)
  have "\<exists>q1. for_loop ?post 0 10000 q0 = ret q1 \<and> ?I (0 + 10000) q1"
  proof (rule for_loop_ok)
    fix j s
    assume j: "j < 0 + 10000" and I: "?I j s"
    let ?e = "(0, Some (bytesEvent (of_nat j) 0), 16) :: event"
    have accept: "accepts_event BATCH_MAX_TOPICS ?e"
      by (simp add: BATCH_MAX_TOPICS_def buffer_ok_def buffer_bytes_def size)
    have free: "length (bq_pending s) < capacity (b_queue s)"
      unfolding I [THEN conjunct2, THEN conjunct1] using I j by simp
    have room: "0 < push_room (b_queue s)" using I j by simp
    have "bq_calls s ?e = [[?c j]]" using I event by simp
    with bq_post_ok [OF _ accept free room] I obtain s1 where s1: "bq_post_event s ?e = ret (s1, True)" "bq_ok s1" "log (b_world s1) = []"
      "bq_pending s1 = bq_pending s @ [[?c j]]" "bq_calls s1 = bq_calls s" "capacity (b_queue s1) = 65536"
      "push_room (b_queue s) \<le> push_room (b_queue s1) + 1" by metis
    have "bq_post s 0 (Some (bytesEvent (of_nat j) 0)) 16 = ret (s1, True)" using s1(1) by simp
    from bq_post_nodes [OF conjunct1 [OF I] this] I have "?pool (Suc j) s1" "t_batch s1 = []" by auto
    with s1 I show "\<exists>s'. ?post j s = ret s' \<and> ?I (Suc j) s'" by (intro exI [of _ s1]) auto
  qed (use q0 in simp)
  then obtain q1 where q1: "for_loop ?post 0 10000 q0 = ret q1" "bq_ok q1" "bq_pending q1 = map (\<lambda>i. [?c i]) [0..<10000]"
    "log (b_world q1) = []" "t_batch q1 = []" "bq_calls q1 = bq_calls q0" "capacity (b_queue q1) = 65536"
    "10000 \<le> push_room (b_queue q1)" "?pool 10000 q1" unfolding add_0 by auto
  from batch_loop_ok [OF q1(2), of 32] obtain q2 where q2: "batch_loop 32 q1 = ret q2" "bq_ok q2" "bq_pending q2 = []"
    "bq_frame q2 = bq_frame q1" "log (b_world q2) = concat (bq_pending q1)" "pool_kept (b_messagePool q1) (b_messagePool q2)"
    using q1(4) by auto
  have log: "log (b_world q2) = map ?c [0..<10000]" unfolding q2(5) q1(3) by (simp add: concat_map_singleton)
  have "fold batch_callback (map ?c [0..<k]) c = c + int k" for k c
    by (induction k arbitrary: c) (simp_all add: event_call_def)
  then have count: "fold batch_callback (log (b_world q2)) 0 = 10000" by (simp add: log)
  have frame: "t_batch q2 = []" "bq_calls q2 = bq_calls q0" "capacity (b_queue q2) = 65536" "10000 \<le> push_room (b_queue q2)"
    using q2(4) q1(5-8) by (simp_all add: bq_frame_def)
  have "live (rc_heap (b_world q2)) = {}" using q2(2,3) frame(1) by (intro mchan_no_payload [of 16]) (simp_all add: bq_ok_def)
  moreover have "?pool 10000 q2" using q1(9) q2(6) by (simp add: pool_kept_def)
  then have "batch_ready bytesEvent q2" using q2(2,3) frame event by (simp add: batch_ready_def)
  moreover have "batch_example bytesEvent = ret (q2, 0, 10000)"
    using q0(1-3) q1(1) q2(1) count by (simp add: batch_example_def split_def Let_def)
  ultimately show ?thesis using log by blast
qed

theorem batch_loop_equals_dispatchAll_witness:
  "\<exists>q q1 q2. bq_ok q \<and> bq_pending q = [[Call 7 3 (Some [Some 1, Some 2]) 2 9]] \<and> batch_loop 32 q = ret q1 \<and>
     bq_dispatchAll q = ret (q2, 1) \<and> bq_same q1 q2 \<and> log (b_world q1) = [Call 7 3 (Some [Some 1, Some 2]) 2 9]"
proof -
  obtain q0 q where q0: "bq_ok q" "bq_pending q = []" "log (b_world q) = []" "capacity (b_queue q) = 4" "push_room (b_queue q) = 2 ^ 63 - 5"
    "bq_calls q (3, Some [1, 2], 2) = [[Call 7 3 (Some [Some 1, Some 2]) 2 9]]"
    using bq_observed by (auto simp: Let_def)
  have "length (bq_pending q) < capacity (b_queue q)" unfolding q0(2,4) by simp
  from bq_post_ok [OF q0(1) accepts_3 this] q0 obtain q' where q': "bq_ok q'" "log (b_world q') = []"
    "bq_pending q' = [[Call 7 3 (Some [Some 1, Some 2]) 2 9]]" by auto
  from batch_loop_equals_dispatchAll [OF q'(1), of 32] show ?thesis using q' by auto
qed

end
