(* ===== verification/Example_Batch_Threads.thy ===== *)
theory Example_Batch_Threads
  imports Example_Batch Pool_Concurrent Batch_Threads
begin

text \<open>
  The second half of \<open>src/examples/batch_queue/main.cpp\<close>: four threads that post 2500 events each,
  two that dispatch in batches, and the main thread, after the part that one thread runs
  (\<open>Example_Batch\<close>). The operations on the pool are cut at their atomic accesses (\<open>Pool_Concurrent\<close>),
  those on the ring are single steps, and a dispatch takes the steps of \<open>Batch_Threads\<close>, except that
  the return of a message is cut in the same way. Sleeping and yielding do nothing, and the
  return value of \<open>dispatchBatch\<close> only decides about yielding.
\<close>

section \<open>The program\<close>

text \<open>
  A producer tests its loop, acquires a message, fills it in, pushes it, counts it, or is done. A
  consumer reads \<open>running\<close>, calls \<open>empty()\<close>, or is in one of the three loops of \<open>dispatchBatch\<close>.
\<close>

datatype batch_producer_pc = PrTest | PrAcquire lpc | PrFill nat | PrPush nat | PrCount | PrEnd
datatype batch_consumer_pc = CsRunning | CsEmpty | CsStart | CsFetch | CsCall | CsReturn | CsRelease lpc | CsEnd
datatype batch_main_pc = JoinProducers nat | ClearRunning | JoinConsumers nat | Printed

record batch_producer =
  pr_i :: nat
  pr_pc :: batch_producer_pc

record batch_program =
  v_sys :: batch_sys
  v_topic :: u16
  v_producers :: "batch_producer list"
  v_consumers :: "batch_consumer_pc list"
  v_main :: batch_main_pc
  v_running :: bool
  v_produced :: int

definition batch_program_start :: "batch_queue \<Rightarrow> u16 \<Rightarrow> batch_program" where
  "batch_program_start q topic =
     \<lparr>v_sys = batch_threads q 2, v_topic = topic, v_producers = replicate 4 \<lparr>pr_i = 0, pr_pc = PrTest\<rparr>,
      v_consumers = replicate 2 CsRunning, v_main = JoinProducers 0, v_running = True, v_produced = 0\<rparr>"

text \<open>The event \<open>i\<close> of a producer, and the part of \<open>post\<close> that fills in the message \<open>n\<close>.\<close>

definition batch_event :: "(u32 \<Rightarrow> u64 \<Rightarrow> u8 list) \<Rightarrow> nat \<Rightarrow> buffer" where
  "batch_event bytesEvent i = Some (bytesEvent (of_nat i) 0)"

definition fill_node :: "u16 \<Rightarrow> buffer \<Rightarrow> u64 \<Rightarrow> nat \<Rightarrow> batch_queue \<Rightarrow> batch_queue outcome" where
  "fill_node topic dat sz n q =
     obind (deref (obj_read (b_messagePool q) n)) (\<lambda>old.
       obind (fill_for (b_topics q) topic dat sz old (b_world q)) (\<lambda>(m, w).
         Inr (q\<lparr>b_messagePool := obj_write (b_messagePool q) n m, b_world := w\<rparr>)))"

text \<open>
  \<open>weak\<close> makes a compare-and-swap fail without cause. A post to a topic that is invalid or has no observer
  does nothing; the program counts it all the same.
\<close>

fun producer_act :: "(u32 \<Rightarrow> u64 \<Rightarrow> u8 list) \<Rightarrow> u16 \<Rightarrow> bool \<Rightarrow> batch_queue \<Rightarrow> nat \<Rightarrow> batch_producer_pc \<Rightarrow> (batch_queue \<times> batch_producer_pc) run" where
  "producer_act bytesEvent topic weak q i PrTest =
     ret (q, if 2500 \<le> i then PrEnd
             else if BATCH_MAX_TOPICS \<le> topic \<or> t_count (b_topics q (unat topic)) = 0 then PrCount else PrAcquire PopLoad)"
| "producer_act bytesEvent topic weak q i (PrAcquire pc) =
     Some (obind (pool_step zero_message weak (b_messagePool q) pc) (\<lambda>(p, pc', r).
       Inr (q\<lparr>b_messagePool := p\<rparr>, case r of None \<Rightarrow> PrAcquire pc' | Some n \<Rightarrow> PrFill n)))"
| "producer_act bytesEvent topic weak q i (PrFill n) =
     Some (obind (fill_node topic (batch_event bytesEvent i) 16 n q) (\<lambda>q1. Inr (q1, PrPush n)))"
| "producer_act bytesEvent topic weak q i (PrPush n) =
     rbind (try_push (b_queue q) n) (\<lambda>(r, b). ret (q\<lparr>b_queue := r\<rparr>, if b then PrCount else PrPush n))"
| "producer_act bytesEvent topic weak q i PrCount = ret (q, PrTest)"
| "producer_act bytesEvent topic weak q i PrEnd = ret (q, PrEnd)"

definition batch_producer_step :: "(u32 \<Rightarrow> u64 \<Rightarrow> u8 list) \<Rightarrow> bool \<Rightarrow> nat \<Rightarrow> batch_program \<Rightarrow> batch_program run" where
  "batch_producer_step bytesEvent weak j s =
     (if length (v_producers s) \<le> j then ret s
      else
        let d = v_producers s ! j; count = (pr_pc d = PrCount) in
        rbind (producer_act bytesEvent (v_topic s) weak (n_queue (v_sys s)) (pr_i d) (pr_pc d)) (\<lambda>(q, pc).
          ret (s\<lparr>v_sys := (v_sys s)\<lparr>n_queue := q\<rparr>,
                 v_producers := (v_producers s)[j := \<lparr>pr_i = (if count then pr_i d + 1 else pr_i d), pr_pc = pc\<rparr>],
                 v_produced := (if count then v_produced s + 1 else v_produced s)\<rparr>)))"

text \<open>The consumer \<open>t\<close> is the dispatcher \<open>t\<close> of \<open>Batch_Threads\<close>.\<close>

fun consumer_act :: "bool \<Rightarrow> bool \<Rightarrow> nat \<Rightarrow> batch_sys \<Rightarrow> batch_consumer_pc \<Rightarrow> (batch_sys \<times> batch_consumer_pc) run" where
  "consumer_act running weak t z CsRunning = ret (z, if running then CsStart else CsEmpty)"
| "consumer_act running weak t z CsEmpty = ret (z, if bq_empty (n_queue z) then CsEnd else CsStart)"
| "consumer_act running weak t z CsStart = rbind (batch_act (BStart t 32) z) (\<lambda>z1. ret (z1, CsFetch))"
| "consumer_act running weak t z CsFetch =
     rbind (batch_act (BFetch t) z) (\<lambda>z1. ret (z1, if g_phase (n_disps z1 ! t) = Calling then CsCall else CsFetch))"
| "consumer_act running weak t z CsCall =
     rbind (batch_act (BCall t) z) (\<lambda>z1. ret (z1, if g_phase (n_disps z1 ! t) = Returning then CsReturn else CsCall))"
| "consumer_act running weak t z CsReturn =
     (case g_sent (n_disps z ! t) of
        [] \<Rightarrow> rbind (batch_act (BReturn t) z) (\<lambda>z1. ret (z1, CsRunning))
      | n # ns \<Rightarrow> ret (with_disp z t ((n_disps z ! t)\<lparr>g_sent := ns\<rparr>), CsRelease (RelLoad n)))"
| "consumer_act running weak t z (CsRelease pc) =
     Some (obind (pool_step zero_message weak (b_messagePool (n_queue z)) pc) (\<lambda>(p, pc', r).
       Inr (z\<lparr>n_queue := (n_queue z)\<lparr>b_messagePool := p\<rparr>\<rparr>, if pc' = LIdle then CsReturn else CsRelease pc')))"
| "consumer_act running weak t z CsEnd = ret (z, CsEnd)"

definition batch_consumer_step :: "bool \<Rightarrow> nat \<Rightarrow> batch_program \<Rightarrow> batch_program run" where
  "batch_consumer_step weak t s =
     (if length (v_consumers s) \<le> t then ret s
      else rbind (consumer_act (v_running s) weak t (v_sys s) (v_consumers s ! t)) (\<lambda>(z, pc).
        ret (s\<lparr>v_sys := z, v_consumers := (v_consumers s)[t := pc]\<rparr>)))"

fun batch_main_step :: "batch_main_pc \<Rightarrow> batch_program \<Rightarrow> batch_program" where
  "batch_main_step (JoinProducers j) s =
     (if length (v_producers s) \<le> j then s\<lparr>v_main := ClearRunning\<rparr>
      else if pr_pc (v_producers s ! j) = PrEnd then s\<lparr>v_main := JoinProducers (j + 1)\<rparr> else s)"
| "batch_main_step ClearRunning s = s\<lparr>v_running := False, v_main := JoinConsumers 0\<rparr>"
| "batch_main_step (JoinConsumers t) s =
     (if length (v_consumers s) \<le> t then s\<lparr>v_main := Printed\<rparr>
      else if v_consumers s ! t = CsEnd then s\<lparr>v_main := JoinConsumers (t + 1)\<rparr> else s)"
| "batch_main_step Printed s = s"

datatype batch_actor = BatchProducer nat bool | BatchConsumer nat bool | BatchMain

fun batch_program_step :: "(u32 \<Rightarrow> u64 \<Rightarrow> u8 list) \<Rightarrow> batch_actor \<Rightarrow> batch_program \<Rightarrow> batch_program run" where
  "batch_program_step bytesEvent (BatchProducer j weak) s = batch_producer_step bytesEvent weak j s"
| "batch_program_step bytesEvent (BatchConsumer t weak) s = batch_consumer_step weak t s"
| "batch_program_step bytesEvent BatchMain s = ret (batch_main_step (v_main s) s)"

fun batch_program_steps :: "(u32 \<Rightarrow> u64 \<Rightarrow> u8 list) \<Rightarrow> batch_program \<Rightarrow> batch_actor list \<Rightarrow> batch_program run" where
  "batch_program_steps bytesEvent s [] = ret s"
| "batch_program_steps bytesEvent s (a # as) =
     rbind (batch_program_step bytesEvent a s) (\<lambda>s1. batch_program_steps bytesEvent s1 as)"

text \<open>\<open>eventCount\<close>, which the main thread sets to zero when the log is \<open>l\<close>.\<close>

definition batch_counted_since :: "delivery list \<Rightarrow> batch_queue \<Rightarrow> int" where
  "batch_counted_since l q = fold batch_callback (drop (length l) (log (b_world q))) 0"

lemma batch_program_steps_append:
  "batch_program_steps bytesEvent s (as @ bs) =
     rbind (batch_program_steps bytesEvent s as) (\<lambda>s1. batch_program_steps bytesEvent s1 bs)"
  by (induction as arbitrary: s) (simp_all add: rbind_def split: option.splits sum.splits)

section \<open>Messages and nodes\<close>

lemma fill_inline:
  assumes "0 < sz" and "sz \<le> FAST_INLINE_MAX" and buf: "unat sz \<le> length bytes" and topics: "topics_ok k ts"
  shows "\<exists>m. fill_for ts topic (Some bytes) sz old w = Inr (m, w) \<and>
    (\<forall>w. deliver k m w = Inr (w\<lparr>log := log w @ expected_calls ts topic (Some bytes) sz\<rparr>))"
proof -
  let ?tp = "ts (unat topic)"
  let ?obs = "\<lambda>i. if i < unat (t_count ?tp) then t_observers ?tp i else observers old i"
  let ?bytes = "\<lambda>i. if i < unat sz then Some (bytes ! i) else union_bytes (payload old) i"
  let ?m = "old\<lparr>topicId := topic, observerCount := t_count ?tp, payloadSize := sz, observers := ?obs, isInline := True,
    payload := InlineData ?bytes\<rparr>"
  have "fill_for ts topic (Some bytes) sz old w = Inr (?m, w)"
    using assms(1-3) by (simp add: fill_for_def fill_message_def store_payload_def memcpy_array_def)
  moreover have "deliver k ?m w = Inr (w\<lparr>log := log w @ expected_calls ts topic (Some bytes) sz\<rparr>)" for w
  proof -
    have "callable (observers ?m j)" if "j < unat (t_count ?tp)" for j using topics that by (simp add: topics_ok_def)
    then have "deliver k ?m w = Inr (w\<lparr>log := log w @
        map (\<lambda>j. call_of ?m (view_of h ?m) (observers ?m j)) [0..<unat (t_count ?tp)]\<rparr>)" for h
      using deliver_loop_inline [of ?m 0 "unat (t_count ?tp)" k w h] topics
      by (simp add: deliver_def payload_data_def topics_ok_def)
    moreover have "map ?bytes [0..<unat sz] = map Some (take (unat sz) bytes)"
      using buf by (intro nth_equalityI) simp_all
    ultimately show ?thesis by (simp add: expected_calls_def expected_def call_of_def view_of_def buffer_bytes_def)
  qed
  ultimately show ?thesis by blast
qed

text \<open>A step on the pool leaves the objects in the nodes alone, whoever else is at work.\<close>

lemma pool_step_objects:
  assumes "pool_step init weak p pc = Inr (p', pc', r)" and "heap_ok (nodes p)"
  shows "heap_ok (nodes p')" and "next_addr (nodes p) \<le> next_addr (nodes p')"
    and "a < next_addr (nodes p) \<Longrightarrow> obj_read p' a = Some m \<Longrightarrow> obj_read p a = Some m"
proof -
  have "heap_ok (nodes p') \<and> next_addr (nodes p) \<le> next_addr (nodes p') \<and>
      (\<forall>a m. a < next_addr (nodes p) \<longrightarrow> obj_read p' a = Some m \<longrightarrow> obj_read p a = Some m)"
    using assms
  proof (cases pc)
    case NewNode
    with assms show ?thesis using heap_ok_new [OF assms(2)]
      by (auto simp: new_node_def heap_new_def obj_read_def)
  qed (auto simp: obind_eq_Inr obj_read_def delete_obj_def heap_write_def heap_delete_def heap_ok_def
        split: if_splits option.splits)
  then show "heap_ok (nodes p')" "next_addr (nodes p) \<le> next_addr (nodes p')"
    "a < next_addr (nodes p) \<Longrightarrow> obj_read p' a = Some m \<Longrightarrow> obj_read p a = Some m" by blast+
qed

section \<open>What every schedule does\<close>

text \<open>
  A message that makes the call of one event. Nodes in flight have been pushed or are about to be,
  and have not been used for a call yet; a node can occur more than once.
\<close>

definition event_message :: "(u32 \<Rightarrow> u64 \<Rightarrow> u8 list) \<Rightarrow> message \<Rightarrow> bool" where
  "event_message bytesEvent m \<longleftrightarrow> (\<exists>i < 2500. \<forall>w. deliver 16 m w = Inr (w\<lparr>log := log w @ [event_call bytesEvent i]\<rparr>))"

definition node_ok :: "(u32 \<Rightarrow> u64 \<Rightarrow> u8 list) \<Rightarrow> message pool \<Rightarrow> nat \<Rightarrow> bool" where
  "node_ok bytesEvent p n \<longleftrightarrow> n < next_addr (nodes p) \<and> (\<forall>m. obj_read p n = Some m \<longrightarrow> event_message bytesEvent m)"

fun pushing :: "batch_producer_pc \<Rightarrow> nat list" where
  "pushing (PrPush n) = [n]"
| "pushing pc = []"

definition in_flight :: "batch_program \<Rightarrow> nat list" where
  "in_flight s = contents (b_queue (n_queue (v_sys s))) @ fetched_nodes (v_sys s) @
     concat (map (\<lambda>d. pushing (pr_pc d)) (v_producers s))"

definition pushed_by :: "batch_producer \<Rightarrow> nat" where
  "pushed_by d = (if pr_pc d = PrCount then pr_i d + 1 else pr_i d)"

definition pushed_events :: "batch_program \<Rightarrow> nat" where
  "pushed_events s = sum_list (map pushed_by (v_producers s))"

definition one_observer :: "(u32 \<Rightarrow> u64 \<Rightarrow> u8 list) \<Rightarrow> topic_table \<Rightarrow> bool" where
  "one_observer bytesEvent ts \<longleftrightarrow> topics_ok 16 ts \<and> (\<forall>i. topic_calls ts (0, batch_event bytesEvent i, 16) = [[event_call bytesEvent i]])"

definition batch_queue_inv :: "(u32 \<Rightarrow> u64 \<Rightarrow> u8 list) \<Rightarrow> delivery list \<Rightarrow> batch_program \<Rightarrow> bool" where
  "batch_queue_inv bytesEvent l s \<longleftrightarrow>
     (let q = n_queue (v_sys s) in
      v_topic s = 0 \<and> one_observer bytesEvent (b_topics q) \<and> ring_inv (b_queue q) \<and> 10000 \<le> push_room (b_queue q) + pushed_events s \<and>
      heap_ok (nodes (b_messagePool q)) \<and> (\<forall>n \<in> set (in_flight s). node_ok bytesEvent (b_messagePool q) n) \<and>
      (\<exists>new. log (b_world q) = l @ new \<and> set new \<subseteq> event_call bytesEvent ` {..<2500} \<and>
         length new + length (contents (b_queue q)) + length (fetched_nodes (v_sys s)) = pushed_events s))"

fun producer_ok :: "batch_producer \<Rightarrow> bool" where
  "producer_ok \<lparr>pr_i = i, pr_pc = PrTest\<rparr> \<longleftrightarrow> i \<le> 2500"
| "producer_ok \<lparr>pr_i = i, pr_pc = PrEnd\<rparr> \<longleftrightarrow> i = 2500"
| "producer_ok \<lparr>pr_i = i, pr_pc = pc\<rparr> \<longleftrightarrow> i < 2500"

fun consumer_at :: "batch_consumer_pc \<Rightarrow> batch_disp \<Rightarrow> bool" where
  "consumer_at CsFetch d \<longleftrightarrow> (\<exists>k. g_phase d = Fetching k)"
| "consumer_at CsCall d \<longleftrightarrow> g_phase d = Calling"
| "consumer_at CsReturn d \<longleftrightarrow> g_phase d = Returning \<and> g_batch d = []"
| "consumer_at (CsRelease pc) d \<longleftrightarrow> g_phase d = Returning \<and> g_batch d = []"
| "consumer_at pc d \<longleftrightarrow> g_phase d = Waiting \<and> g_batch d = []"

fun main_at :: "batch_main_pc \<Rightarrow> batch_program \<Rightarrow> bool" where
  "main_at (JoinProducers n) s \<longleftrightarrow> v_running s \<and> (\<forall>j < n. j < 4 \<longrightarrow> pr_pc (v_producers s ! j) = PrEnd)"
| "main_at ClearRunning s \<longleftrightarrow> v_running s \<and> (\<forall>j < 4. pr_pc (v_producers s ! j) = PrEnd)"
| "main_at (JoinConsumers n) s \<longleftrightarrow> \<not> v_running s \<and> (\<forall>j < 4. pr_pc (v_producers s ! j) = PrEnd) \<and>
     (\<forall>t < n. t < 2 \<longrightarrow> v_consumers s ! t = CsEnd)"
| "main_at Printed s \<longleftrightarrow> \<not> v_running s \<and> (\<forall>j < 4. pr_pc (v_producers s ! j) = PrEnd) \<and> (\<forall>t < 2. v_consumers s ! t = CsEnd)"

definition batch_control_inv :: "batch_program \<Rightarrow> bool" where
  "batch_control_inv s \<longleftrightarrow>
     length (v_producers s) = 4 \<and> length (v_consumers s) = 2 \<and> length (n_disps (v_sys s)) = 2 \<and>
     (\<forall>j < 4. producer_ok (v_producers s ! j)) \<and> v_produced s = int (sum_list (map pr_i (v_producers s))) \<and>
     (\<forall>t < 2. consumer_at (v_consumers s ! t) (n_disps (v_sys s) ! t)) \<and> main_at (v_main s) s \<and>
     (\<forall>t < 2. v_consumers s ! t \<in> {CsEmpty, CsEnd} \<longrightarrow> \<not> v_running s) \<and>
     (\<forall>t < 2. v_consumers s ! t = CsEnd \<longrightarrow> contents (b_queue (n_queue (v_sys s))) = [])"

lemma batch_queue_invD:
  assumes "batch_queue_inv b l s"
  shows "one_observer b (b_topics (n_queue (v_sys s)))" "ring_inv (b_queue (n_queue (v_sys s)))"
    and "10000 \<le> push_room (b_queue (n_queue (v_sys s))) + pushed_events s" "heap_ok (nodes (b_messagePool (n_queue (v_sys s))))"
    and "n \<in> set (in_flight s) \<Longrightarrow> node_ok b (b_messagePool (n_queue (v_sys s))) n"
    and "\<exists>new. log (b_world (n_queue (v_sys s))) = l @ new \<and> set new \<subseteq> event_call b ` {..<2500} \<and>
      length new + length (contents (b_queue (n_queue (v_sys s)))) + length (fetched_nodes (v_sys s)) = pushed_events s"
    and "v_topic s = 0"
  using assms unfolding batch_queue_inv_def Let_def by blast+

text \<open>What a step must do.\<close>

lemma batch_queue_invI:
  assumes Q: "batch_queue_inv b l s" and q: "q = n_queue (v_sys s)" and q': "q' = n_queue (v_sys s')"
    and same: "v_topic s' = v_topic s" "b_topics q' = b_topics q" and ring: "ring_inv (b_queue q')"
    and room: "push_room (b_queue q) + pushed_events s \<le> push_room (b_queue q') + pushed_events s'"
    and heap: "heap_ok (nodes (b_messagePool q'))"
    and mono: "\<And>n. node_ok b (b_messagePool q) n \<Longrightarrow> node_ok b (b_messagePool q') n"
    and flight: "\<And>n. n \<in> set (in_flight s') \<Longrightarrow> n \<in> set (in_flight s) \<or> node_ok b (b_messagePool q') n"
    and log: "log (b_world q') = log (b_world q) @ c" "set c \<subseteq> event_call b ` {..<2500}"
      "length c + length (contents (b_queue q')) + length (fetched_nodes (v_sys s')) + pushed_events s =
         length (contents (b_queue q)) + length (fetched_nodes (v_sys s)) + pushed_events s'"
  shows "batch_queue_inv b l s'"
proof -
  note D = batch_queue_invD [OF Q, folded q]
  obtain new where new: "log (b_world q) = l @ new" "set new \<subseteq> event_call b ` {..<2500}"
    "length new + length (contents (b_queue q)) + length (fetched_nodes (v_sys s)) = pushed_events s" using D(6) by blast
  have "node_ok b (b_messagePool q') n" if "n \<in> set (in_flight s')" for n using flight [OF that] D(5) mono by blast
  moreover have "log (b_world q') = l @ (new @ c) \<and> set (new @ c) \<subseteq> event_call b ` {..<2500} \<and>
    length (new @ c) + length (contents (b_queue q')) + length (fetched_nodes (v_sys s')) = pushed_events s'"
    using new log by simp
  ultimately show ?thesis unfolding batch_queue_inv_def Let_def q' [symmetric] using D(1,3,7) same ring room heap by auto
qed

lemma node_ok_step:
  assumes "pool_step init weak p pc = Inr (p', pc', r)" and "heap_ok (nodes p)" and "node_ok b p n"
  shows "node_ok b p' n"
  using pool_step_objects [OF assms(1,2)] assms(3) unfolding node_ok_def by (meson order_less_le_trans)

definition with_producer :: "batch_program \<Rightarrow> nat \<Rightarrow> batch_queue \<Rightarrow> batch_producer \<Rightarrow> int \<Rightarrow> batch_program" where
  "with_producer s j q d k =
     s\<lparr>v_sys := (v_sys s)\<lparr>n_queue := q\<rparr>, v_producers := (v_producers s)[j := d], v_produced := k\<rparr>"

lemma with_producer_simps [simp]:
  "n_queue (v_sys (with_producer s j q d k)) = q" "n_disps (v_sys (with_producer s j q d k)) = n_disps (v_sys s)"
  "v_producers (with_producer s j q d k) = (v_producers s)[j := d]" "v_consumers (with_producer s j q d k) = v_consumers s"
  "v_main (with_producer s j q d k) = v_main s" "v_running (with_producer s j q d k) = v_running s"
  "v_produced (with_producer s j q d k) = k" "v_topic (with_producer s j q d k) = v_topic s"
  by (simp_all add: with_producer_def)

lemma sum_list_map_update:
  assumes "j < length xs"
  shows "sum_list (map f (xs[j := y])) + f (xs ! j) = sum_list (map f xs) + (f y :: nat)"
  using assms
proof (induction xs arbitrary: j)
  case Nil
  then show ?case by simp
next
  case (Cons x xs)
  then show ?case by (cases j) (simp_all add: ac_simps)
qed

lemma producer_queue_inv:
  assumes Q: "batch_queue_inv b l s" and j: "j < length (v_producers s)" and q: "q = n_queue (v_sys s)"
    and same: "b_topics q' = b_topics q" "b_world q' = b_world q" and ring: "ring_inv (b_queue q')"
    and room: "push_room (b_queue q) + pushed_by (v_producers s ! j) \<le> push_room (b_queue q') + pushed_by d"
    and heap: "heap_ok (nodes (b_messagePool q'))"
    and mono: "\<And>n. node_ok b (b_messagePool q) n \<Longrightarrow> node_ok b (b_messagePool q') n"
    and flight: "\<And>n. n \<in> set (contents (b_queue q')) \<union> set (pushing (pr_pc d)) \<Longrightarrow> n \<in> set (in_flight s) \<or> node_ok b (b_messagePool q') n"
    and count: "length (contents (b_queue q')) + pushed_by (v_producers s ! j) = length (contents (b_queue q)) + pushed_by d"
  shows "batch_queue_inv b l (with_producer s j q' d k)"
proof (rule batch_queue_invI [OF Q q])
  let ?s = "with_producer s j q' d k"
  have sum: "pushed_events ?s + pushed_by (v_producers s ! j) = pushed_events s + pushed_by d"
    using sum_list_map_update [OF j, of pushed_by d] by (simp add: pushed_events_def)
  then show "push_room (b_queue q) + pushed_events s \<le> push_room (b_queue q') + pushed_events ?s" using room by simp
  show "length [] + length (contents (b_queue q')) + length (fetched_nodes (v_sys ?s)) + pushed_events s =
     length (contents (b_queue q)) + length (fetched_nodes (v_sys s)) + pushed_events ?s"
    using sum count by (simp add: fetched_nodes_def)
  show "n \<in> set (in_flight s) \<or> node_ok b (b_messagePool q') n" if "n \<in> set (in_flight ?s)" for n
  proof -
    have "set ((v_producers s)[j := d]) \<subseteq> insert d (set (v_producers s))" by (rule set_update_subset_insert)
    then have "n \<in> set (contents (b_queue q')) \<union> set (pushing (pr_pc d)) \<or> n \<in> set (in_flight s)"
      using that by (auto simp: in_flight_def fetched_nodes_def)
    then show ?thesis using flight by blast
  qed
qed (use assms in simp_all)

lemma one_observerD:
  assumes "one_observer b ts"
  shows "topics_ok 16 ts" "t_count (ts 0) \<noteq> 0" "expected_calls ts 0 (batch_event b i) 16 = [event_call b i]"
  using assms topic_calls_one [of ts 0 "batch_event b i" 16] by (auto simp: one_observer_def)

lemma fill_event:
  assumes size: "\<And>i t. length (b i t) = 16" and ts: "one_observer b ts"
  shows "\<exists>m. fill_for ts 0 (batch_event b i) 16 old w = Inr (m, w) \<and>
    (\<forall>w. deliver 16 m w = Inr (w\<lparr>log := log w @ [event_call b i]\<rparr>))"
  using fill_inline [of 16 "b (of_nat i) 0" 16 ts 0 old w] one_observerD(1) [OF ts] one_observerD(3) [OF ts, of i] size
  by (simp add: batch_event_def FAST_INLINE_MAX_def)

lemma fill_node_ok:
  assumes size: "\<And>i t. length (b i t) = 16" and ts: "one_observer b (b_topics q)" and i: "i < 2500"
    and fill: "fill_node 0 (batch_event b i) 16 n q = Inr q'" and heap: "heap_ok (nodes (b_messagePool q))"
  shows "b_topics q' = b_topics q" "b_world q' = b_world q" "b_queue q' = b_queue q" "heap_ok (nodes (b_messagePool q'))"
    and "node_ok b (b_messagePool q) a \<Longrightarrow> node_ok b (b_messagePool q') a" and "node_ok b (b_messagePool q') n"
proof -
  obtain nd where nd: "cells (nodes (b_messagePool q)) n = Some nd"
    using fill by (cases "cells (nodes (b_messagePool q)) n") (simp_all add: fill_node_def obj_read_def)
  obtain m where m: "fill_for (b_topics q) 0 (batch_event b i) 16 (nd_data nd) (b_world q) = Inr (m, b_world q)"
      "\<forall>w. deliver 16 m w = Inr (w\<lparr>log := log w @ [event_call b i]\<rparr>)"
    using fill_event [OF size ts] by blast
  have q': "q' = q\<lparr>b_messagePool := obj_write (b_messagePool q) n m\<rparr>"
    using fill nd m(1) by (simp add: fill_node_def obj_read_def)
  have "event_message b m" using m(2) i by (auto simp: event_message_def)
  moreover have "n < next_addr (nodes (b_messagePool q))" using heap nd by (auto simp: heap_ok_def)
  ultimately show "node_ok b (b_messagePool q') n" "node_ok b (b_messagePool q) a \<Longrightarrow> node_ok b (b_messagePool q') a"
    using nd unfolding q' by (auto simp: node_ok_def obj_write_def obj_read_def heap_write_def)
  show "heap_ok (nodes (b_messagePool q'))" using heap nd unfolding q' by (auto simp: obj_write_def)
  show "b_topics q' = b_topics q" "b_world q' = b_world q" "b_queue q' = b_queue q" by (simp_all add: q')
qed

lemma producer_okD:
  assumes "producer_ok d"
  shows "pushed_by d \<le> 2500" and "pr_pc d = PrPush n \<Longrightarrow> pushed_by d < 2500"
    and "pr_pc d \<notin> {PrTest, PrEnd} \<Longrightarrow> pr_i d < 2500"
  using assms by (cases d; cases "pr_pc d"; simp add: pushed_by_def)+

lemma batch_control_invD:
  assumes "batch_control_inv s"
  shows "length (v_producers s) = 4" "length (v_consumers s) = 2" "length (n_disps (v_sys s)) = 2"
    and "j < 4 \<Longrightarrow> producer_ok (v_producers s ! j)" and "v_produced s = int (sum_list (map pr_i (v_producers s)))"
    and "t < 2 \<Longrightarrow> consumer_at (v_consumers s ! t) (n_disps (v_sys s) ! t)" and "main_at (v_main s) s"
    and "t < 2 \<Longrightarrow> v_consumers s ! t \<in> {CsEmpty, CsEnd} \<Longrightarrow> \<not> v_running s"
    and "t < 2 \<Longrightarrow> v_consumers s ! t = CsEnd \<Longrightarrow> contents (b_queue (n_queue (v_sys s))) = []"
  using assms unfolding batch_control_inv_def by blast+

lemma pushed_events_less:
  assumes "batch_control_inv s" and j: "j < 4" and "pr_pc (v_producers s ! j) = PrPush n"
  shows "pushed_events s < 10000"
proof -
  note D = batch_control_invD [OF assms(1)]
  from D(1) obtain d0 d1 d2 d3 where d: "v_producers s = [d0, d1, d2, d3]"
    by (auto simp: eval_nat_numeral length_Suc_conv)
  have "pushed_by (v_producers s ! i) \<le> 2500" if "i < 4" for i using producer_okD(1) [OF D(4) [OF that]] .
  from this [of 0] this [of 1] this [of 2] this [of 3] have "pushed_by d0 \<le> 2500" "pushed_by d1 \<le> 2500" "pushed_by d2 \<le> 2500" "pushed_by d3 \<le> 2500"
    by (simp_all add: d)
  moreover have "j = 0 \<or> j = 1 \<or> j = 2 \<or> j = 3" using j by auto
  ultimately show ?thesis using producer_okD(2) [OF D(4) [OF j] assms(3)] by (auto simp: d pushed_events_def)
qed

lemma try_push_cases:
  assumes "ring_inv q" and "0 < push_room q" and "try_push q x = ret (q', b)"
  shows "ring_inv q'" "push_room q' + (if b then 1 else 0) = push_room q" "contents q' = contents q @ (if b then [x] else [])"
proof -
  have "ring_inv q' \<and> push_room q' + (if b then 1 else 0) = push_room q \<and> contents q' = contents q @ (if b then [x] else [])"
  proof (cases "length (contents q) < capacity q")
    case True
    with try_push_ok [OF assms(1) True assms(2), of x] assms(2,3) show ?thesis by auto
  next
    case False
    then have "length (contents q) = capacity q" using length_contents_le [OF assms(1)] by simp
    with try_push_full [OF assms(1), of x] assms(1,3) show ?thesis by auto
  qed
  then show "ring_inv q'" "push_room q' + (if b then 1 else 0) = push_room q" "contents q' = contents q @ (if b then [x] else [])" by auto
qed

lemma stopped_producers:
  assumes "batch_control_inv s" and "\<not> v_running s" and "j < 4"
  shows "pr_pc (v_producers s ! j) = PrEnd"
  using batch_control_invD(7) [OF assms(1)] assms(2,3) by (cases "v_main s") simp_all

lemma producer_control_inv:
  assumes C: "batch_control_inv s" and j: "j < 4" and ok: "producer_ok d"
    and ended: "pr_pc (v_producers s ! j) = PrEnd \<Longrightarrow> d = v_producers s ! j \<and> q' = n_queue (v_sys s)"
    and k: "k + int (pr_i (v_producers s ! j)) = v_produced s + int (pr_i d)"
  shows "batch_control_inv (with_producer s j q' d k)"
proof -
  let ?s = "with_producer s j q' d k"
  note D = batch_control_invD [OF C]
  have pcs: "pr_pc (v_producers s ! i) = PrEnd \<Longrightarrow> pr_pc ((v_producers s)[j := d] ! i) = PrEnd" for i
    using ended j D(1) by (cases "i = j") auto
  have main: "main_at (v_main s) ?s" using D(7) pcs by (cases "v_main s") auto
  have "contents (b_queue q') = []" if "t < 2" "v_consumers s ! t = CsEnd" for t
  proof -
    have "\<not> v_running s" using D(8) that by simp
    then have "q' = n_queue (v_sys s)" using ended stopped_producers [OF C _ j] by blast
    then show ?thesis using D(9) [OF that] by simp
  qed
  moreover have "producer_ok ((v_producers s)[j := d] ! i)" if "i < 4" for i
    using ok D(4) [OF that] D(1) j by (cases "i = j") simp_all
  moreover have "k = int (sum_list (map pr_i ((v_producers s)[j := d])))"
    using sum_list_map_update [of j "v_producers s" pr_i d] D(1,5) j k by simp
  ultimately show ?thesis using D main unfolding batch_control_inv_def by simp
qed

lemma batch_producer_step_with:
  assumes "j < length (v_producers s)"
  shows "batch_producer_step b weak j s =
    rbind (producer_act b (v_topic s) weak (n_queue (v_sys s)) (pr_i (v_producers s ! j)) (pr_pc (v_producers s ! j))) (\<lambda>(q, pc).
      ret (let count = (pr_pc (v_producers s ! j) = PrCount) in
        with_producer s j q \<lparr>pr_i = (if count then pr_i (v_producers s ! j) + 1 else pr_i (v_producers s ! j)), pr_pc = pc\<rparr>
          (if count then v_produced s + 1 else v_produced s)))"
  using assms by (simp add: batch_producer_step_def Let_def with_producer_def)

lemma producer_step_inv:
  assumes size: "\<And>i t. length (b i t) = 16" and Q: "batch_queue_inv b l s" and C: "batch_control_inv s" and j: "j < 4"
    and step: "batch_producer_step b weak j s = ret s'"
  shows "batch_queue_inv b l s' \<and> batch_control_inv s'"
proof -
  let ?q = "n_queue (v_sys s)"
  note D = batch_control_invD [OF C] and E = batch_queue_invD [OF Q]
  have len: "j < length (v_producers s)" using D(1) j by simp
  obtain i pc where d: "v_producers s ! j = \<lparr>pr_i = i, pr_pc = pc\<rparr>" by (cases "v_producers s ! j") auto
  have ok: "producer_ok \<lparr>pr_i = i, pr_pc = pc\<rparr>" using D(4) [OF j] d by simp
  note run = batch_producer_step_with [OF len, unfolded d batch_producer.simps E(7), of b weak]
  note queue = producer_queue_inv [OF Q len refl, unfolded d] and control = producer_control_inv [OF C j, unfolded d]
  show ?thesis
  proof (cases pc)
    case PrTest
    then have s': "s' = with_producer s j ?q \<lparr>pr_i = i, pr_pc = if 2500 \<le> i then PrEnd else PrAcquire PopLoad\<rparr> (v_produced s)"
      using step run one_observerD(2) [OF E(1)] by (auto simp: BATCH_MAX_TOPICS_def)
    show ?thesis unfolding s'
      by (intro conjI queue control) (use PrTest E(2,4) ok in \<open>auto simp: in_flight_def pushed_by_def split: if_splits\<close>)
  next
    case (PrAcquire lp)
    then obtain p lp' r where p: "pool_step zero_message weak (b_messagePool ?q) lp = Inr (p, lp', r)"
      and s': "s' = with_producer s j (?q\<lparr>b_messagePool := p\<rparr>)
        \<lparr>pr_i = i, pr_pc = case r of None \<Rightarrow> PrAcquire lp' | Some n \<Rightarrow> PrFill n\<rparr> (v_produced s)"
      using step run by (auto simp: rbind_eq_ret obind_eq_Inr)
    show ?thesis unfolding s'
      by (intro conjI queue control)
        (use PrAcquire E(2,4) ok pool_step_objects(1) [OF p E(4)] node_ok_step [OF p E(4)] in
          \<open>auto simp: in_flight_def pushed_by_def split: option.splits\<close>)
  next
    case (PrFill n)
    then obtain q' where f: "fill_node 0 (batch_event b i) 16 n ?q = Inr q'"
      and s': "s' = with_producer s j q' \<lparr>pr_i = i, pr_pc = PrPush n\<rparr> (v_produced s)"
      using step run by (auto simp: rbind_eq_ret obind_eq_Inr)
    have "i < 2500" using ok PrFill by simp
    note F = fill_node_ok [OF size E(1) this f E(4)]
    show ?thesis unfolding s'
      by (intro conjI queue control) (use PrFill E(2,4) ok F in \<open>auto simp: in_flight_def pushed_by_def\<close>)
  next
    case (PrPush n)
    then obtain r c where p: "try_push (b_queue ?q) n = ret (r, c)"
      and s': "s' = with_producer s j (?q\<lparr>b_queue := r\<rparr>) \<lparr>pr_i = i, pr_pc = if c then PrCount else PrPush n\<rparr> (v_produced s)"
      using step run by (auto simp: rbind_eq_ret)
    have "pushed_events s < 10000" using pushed_events_less [OF C j, of n] d PrPush by simp
    then have "0 < push_room (b_queue ?q)" using E(3) by simp
    note P = try_push_cases [OF E(2) this p]
    have "n \<in> set (in_flight s)" using d PrPush len by (force simp: in_flight_def in_set_conv_nth)
    show ?thesis unfolding s'
      by (intro conjI queue control)
        (use PrPush E(2,4) ok P \<open>n \<in> set (in_flight s)\<close> in \<open>auto simp: in_flight_def pushed_by_def split: if_splits\<close>)
  next
    case PrCount
    then have s': "s' = with_producer s j ?q \<lparr>pr_i = i + 1, pr_pc = PrTest\<rparr> (v_produced s + 1)"
      using step run by auto
    show ?thesis unfolding s'
      by (intro conjI queue control) (use PrCount E(2,4) ok in \<open>auto simp: in_flight_def pushed_by_def\<close>)
  next
    case PrEnd
    then have s': "s' = with_producer s j ?q \<lparr>pr_i = i, pr_pc = PrEnd\<rparr> (v_produced s)"
      using step run by auto
    show ?thesis unfolding s'
      by (intro conjI queue control) (use PrEnd E(2,4) ok in \<open>auto simp: in_flight_def pushed_by_def\<close>)
  qed
qed

definition with_consumer :: "batch_program \<Rightarrow> nat \<Rightarrow> batch_sys \<Rightarrow> batch_consumer_pc \<Rightarrow> batch_program" where
  "with_consumer s t z pc = s\<lparr>v_sys := z, v_consumers := (v_consumers s)[t := pc]\<rparr>"

lemma with_consumer_simps [simp]:
  "v_sys (with_consumer s t z pc) = z" "v_producers (with_consumer s t z pc) = v_producers s"
  "v_consumers (with_consumer s t z pc) = (v_consumers s)[t := pc]" "v_main (with_consumer s t z pc) = v_main s"
  "v_running (with_consumer s t z pc) = v_running s" "v_produced (with_consumer s t z pc) = v_produced s"
  "v_topic (with_consumer s t z pc) = v_topic s"
  by (simp_all add: with_consumer_def)

lemma consumer_step_keeps:
  assumes Q: "batch_queue_inv b l s" and C: "batch_control_inv s" and t: "t < 2" and q: "q = n_queue (v_sys s)"
    and d: "d0 = n_disps (v_sys s) ! t" and z: "n_queue z = q'" "n_disps z = (n_disps (v_sys s))[t := d']"
    and same: "b_topics q' = b_topics q" and ring: "ring_inv (b_queue q')" and room: "push_room (b_queue q) \<le> push_room (b_queue q')"
    and heap: "heap_ok (nodes (b_messagePool q'))"
    and mono: "\<And>n. node_ok b (b_messagePool q) n \<Longrightarrow> node_ok b (b_messagePool q') n"
    and flight: "set (contents (b_queue q')) \<union> set (g_batch d') \<subseteq> set (contents (b_queue q)) \<union> set (g_batch d0)"
    and log: "log (b_world q') = log (b_world q) @ c" "set c \<subseteq> event_call b ` {..<2500}"
    and count: "length c + length (contents (b_queue q')) + length (g_batch d') = length (contents (b_queue q)) + length (g_batch d0)"
    and at: "consumer_at pc d'" "pc \<in> {CsEmpty, CsEnd} \<Longrightarrow> \<not> v_running s" "pc = CsEnd \<Longrightarrow> contents (b_queue q') = []"
    and ended: "v_consumers s ! t = CsEnd \<Longrightarrow> pc = CsEnd" and empty: "contents (b_queue q) = [] \<Longrightarrow> contents (b_queue q') = []"
  shows "batch_queue_inv b l (with_consumer s t z pc) \<and> batch_control_inv (with_consumer s t z pc)"
proof
  let ?s = "with_consumer s t z pc"
  note D = batch_control_invD [OF C]
  have len: "t < length (n_disps (v_sys s))" "t < length (v_consumers s)" using D(2,3) t by simp_all
  have fetched: "mset (fetched_nodes z) + mset (g_batch d0) = mset (fetched_nodes (v_sys s)) + mset (g_batch d')"
    using mset_concat_update [OF len(1), of g_batch d'] by (simp add: fetched_nodes_def z d)
  have pushed: "pushed_events ?s = pushed_events s" by (simp add: pushed_events_def)
  show "batch_queue_inv b l ?s"
  proof (rule batch_queue_invI [OF Q q, of q'])
    show "length c + length (contents (b_queue q')) + length (fetched_nodes (v_sys ?s)) + pushed_events s =
       length (contents (b_queue q)) + length (fetched_nodes (v_sys s)) + pushed_events ?s"
      using arg_cong [OF fetched, of size] count pushed by simp
    have "d0 \<in> set (n_disps (v_sys s))" using len d by simp
    then have "set (g_batch d0) \<subseteq> set (fetched_nodes (v_sys s))" by (auto simp: fetched_nodes_def)
    moreover have "set (fetched_nodes z) \<subseteq> set (fetched_nodes (v_sys s)) \<union> set (g_batch d')"
      using arg_cong [OF fetched, of set_mset] by auto
    ultimately have "set (in_flight ?s) \<subseteq> set (in_flight s)" using flight by (auto simp: in_flight_def z q)
    then show "n \<in> set (in_flight s) \<or> node_ok b (b_messagePool q') n" if "n \<in> set (in_flight ?s)" for n
      using that by blast
  qed (use assms pushed in simp_all)
  have "main_at (v_main s) ?s" using D(7) ended len(2) by (cases "v_main s") (auto simp: nth_list_update)
  moreover have "consumer_at ((v_consumers s)[t := pc] ! u) ((n_disps (v_sys s))[t := d'] ! u)" if "u < 2" for u
    using D(6) [OF that] at(1) len by (cases "u = t") simp_all
  moreover have "\<not> v_running s" if "u < 2" "(v_consumers s)[t := pc] ! u \<in> {CsEmpty, CsEnd}" for u
    using D(8) [OF that(1)] at(2) that(2) len by (cases "u = t") auto
  moreover have "contents (b_queue q') = []" if "u < 2" "(v_consumers s)[t := pc] ! u = CsEnd" for u
    using D(9) [OF that(1)] at(3) that(2) len empty q by (cases "u = t") auto
  ultimately show "batch_control_inv ?s" using D(1-5) unfolding batch_control_inv_def by (simp add: z)
qed

lemma try_pop_cases:
  assumes "ring_inv q" and "try_pop q = ret (q', r)"
  shows "ring_inv q'" "push_room q' = push_room q" "contents q = (case r of None \<Rightarrow> [] | Some n \<Rightarrow> [n]) @ contents q'"
proof -
  have "ring_inv q' \<and> push_room q' = push_room q \<and> contents q = (case r of None \<Rightarrow> [] | Some n \<Rightarrow> [n]) @ contents q'"
  proof (cases "contents q")
    case Nil
    with try_pop_empty [OF assms(1)] assms show ?thesis by auto
  next
    case (Cons x xs)
    with try_pop_ok [OF assms(1) Cons] assms show ?thesis by auto
  qed
  then show "ring_inv q'" "push_room q' = push_room q" "contents q = (case r of None \<Rightarrow> [] | Some n \<Rightarrow> [n]) @ contents q'" by auto
qed

text \<open>The consumer at each of its steps; the thread has the number \<open>t\<close>.\<close>

lemma consumer_quiet:
  assumes Q: "batch_queue_inv b l s" and C: "batch_control_inv s" and t: "t < 2"
    and z: "n_queue z = n_queue (v_sys s)" "n_disps z = (n_disps (v_sys s))[t := d']" "g_batch d' = g_batch (n_disps (v_sys s) ! t)"
    and at: "consumer_at pc d'" "pc \<in> {CsEmpty, CsEnd} \<Longrightarrow> \<not> v_running s"
      "pc = CsEnd \<Longrightarrow> contents (b_queue (n_queue (v_sys s))) = []" and ended: "v_consumers s ! t = CsEnd \<Longrightarrow> pc = CsEnd"
  shows "batch_queue_inv b l (with_consumer s t z pc) \<and> batch_control_inv (with_consumer s t z pc)"
  using consumer_step_keeps [OF Q C t refl refl z(1,2), where c = "[]" and pc = pc] batch_queue_invD(2,4) [OF Q] z(3) at ended by simp

lemma consumer_fetches:
  assumes Q: "batch_queue_inv b l s" and C: "batch_control_inv s" and t: "t < 2" and pc: "v_consumers s ! t = CsFetch"
    and step: "batch_act (BFetch t) (v_sys s) = ret z"
  shows "let pc = if g_phase (n_disps z ! t) = Calling then CsCall else CsFetch in
    batch_queue_inv b l (with_consumer s t z pc) \<and> batch_control_inv (with_consumer s t z pc)"
proof -
  let ?q = "n_queue (v_sys s)" and ?d = "n_disps (v_sys s) ! t"
  note D = batch_control_invD [OF C] and E = batch_queue_invD [OF Q]
  have len: "t < length (n_disps (v_sys s))" using D(3) t by simp
  obtain k where k: "g_phase ?d = Fetching k" using D(6) [OF t] pc by auto
  show ?thesis
  proof (cases k)
    case 0
    then have "z = with_disp (v_sys s) t (?d\<lparr>g_phase := Calling\<rparr>)" using step k len by simp
    with consumer_quiet [OF Q C t, of z "?d\<lparr>g_phase := Calling\<rparr>" CsCall] pc len show ?thesis by simp
  next
    case (Suc k')
    obtain r x where p: "try_pop (b_queue ?q) = ret (r, x)"
      using step k Suc len by (auto simp: rbind_eq_ret Let_def)
    note P = try_pop_cases [OF E(2) p]
    let ?sys = "(v_sys s)\<lparr>n_queue := ?q\<lparr>b_queue := r\<rparr>\<rparr>"
    note keeps = consumer_step_keeps [OF Q C t refl refl, where q' = "?q\<lparr>b_queue := r\<rparr>" and c = "[]"]
    show ?thesis
    proof (cases x)
      case None
      then have "z = with_disp ?sys t (?d\<lparr>g_phase := Calling\<rparr>)" using step k Suc len p by (simp add: Let_def)
      with keeps [of z "?d\<lparr>g_phase := Calling\<rparr>" CsCall] P E(4) pc len None show ?thesis by simp
    next
      case (Some n)
      let ?d1 = "?d\<lparr>g_phase := Fetching k', g_batch := g_batch ?d @ [n]\<rparr>"
      have "z = with_disp ?sys t ?d1" using step k Suc len p Some by (auto simp: Let_def split: if_splits)
      with keeps [of z ?d1 CsFetch] P E(4) pc len Some show ?thesis by (auto simp: Let_def)
    qed
  qed
qed

lemma consumer_calls:
  assumes Q: "batch_queue_inv b l s" and C: "batch_control_inv s" and t: "t < 2" and pc: "v_consumers s ! t = CsCall"
    and step: "batch_act (BCall t) (v_sys s) = ret z"
  shows "let pc = if g_phase (n_disps z ! t) = Returning then CsReturn else CsCall in
    batch_queue_inv b l (with_consumer s t z pc) \<and> batch_control_inv (with_consumer s t z pc)"
proof -
  let ?q = "n_queue (v_sys s)" and ?d = "n_disps (v_sys s) ! t"
  note D = batch_control_invD [OF C] and E = batch_queue_invD [OF Q]
  have len: "t < length (n_disps (v_sys s))" using D(3) t by simp
  have ph: "g_phase ?d = Calling" using D(6) [OF t] pc by simp
  show ?thesis
  proof (cases "g_batch ?d")
    case Nil
    then have "z = with_disp (v_sys s) t (?d\<lparr>g_phase := Returning\<rparr>)" using step ph len by simp
    with consumer_quiet [OF Q C t, of z "?d\<lparr>g_phase := Returning\<rparr>" CsReturn] pc len Nil show ?thesis by simp
  next
    case (Cons n ns)
    obtain m where m: "obj_read (b_messagePool ?q) n = Some m"
      using step ph len Cons by (cases "obj_read (b_messagePool ?q) n") (simp_all add: Let_def)
    have "?d \<in> set (n_disps (v_sys s))" using len by simp
    then have "n \<in> set (in_flight s)" using Cons by (force simp: in_flight_def fetched_nodes_def)
    then have "event_message b m" using E(5) m by (simp add: node_ok_def)
    then obtain i where i: "i < 2500"
      "deliver 16 m (b_world ?q) = Inr ((b_world ?q)\<lparr>log := log (b_world ?q) @ [event_call b i]\<rparr>)"
      by (auto simp: event_message_def)
    let ?w = "(b_world ?q)\<lparr>log := log (b_world ?q) @ [event_call b i]\<rparr>" and ?d1 = "?d\<lparr>g_batch := ns, g_sent := g_sent ?d @ [n]\<rparr>"
    have z: "z = with_disp ((v_sys s)\<lparr>n_queue := ?q\<lparr>b_world := ?w\<rparr>\<rparr>) t ?d1"
      using step ph len Cons m i(2) by (simp add: Let_def)
    have "set [event_call b i] \<subseteq> event_call b ` {..<2500}" using i(1) by auto
    with consumer_step_keeps [OF Q C t refl refl, of z "?q\<lparr>b_world := ?w\<rparr>" ?d1 "[event_call b i]" CsCall] E(2,4) Cons ph pc len
    show ?thesis by (auto simp: z)
  qed
qed

lemma batch_consumer_step_with:
  assumes "t < length (v_consumers s)"
  shows "batch_consumer_step weak t s =
    rbind (consumer_act (v_running s) weak t (v_sys s) (v_consumers s ! t)) (\<lambda>(z, pc). ret (with_consumer s t z pc))"
  using assms by (simp add: batch_consumer_step_def with_consumer_def)

lemma consumer_step_inv:
  assumes Q: "batch_queue_inv b l s" and C: "batch_control_inv s" and t: "t < 2"
    and step: "batch_consumer_step weak t s = ret s'"
  shows "batch_queue_inv b l s' \<and> batch_control_inv s'"
proof -
  let ?q = "n_queue (v_sys s)" and ?d = "n_disps (v_sys s) ! t"
  note D = batch_control_invD [OF C] and E = batch_queue_invD [OF Q]
  have len: "t < length (n_disps (v_sys s))" "t < length (v_consumers s)" using D(2,3) t by simp_all
  have same: "n_disps (v_sys s) = (n_disps (v_sys s))[t := ?d]" by simp
  note run = batch_consumer_step_with [OF len(2), of weak]
  note quiet = consumer_quiet [OF Q C t]
  show ?thesis
  proof (cases "v_consumers s ! t")
    case CsRunning
    then have s': "s' = with_consumer s t (v_sys s) (if v_running s then CsStart else CsEmpty)" using step run by simp
    from quiet [OF refl same refl, of "if v_running s then CsStart else CsEmpty"] CsRunning D(6) [OF t] show ?thesis unfolding s'
      by (cases "v_running s") simp_all
  next
    case CsEmpty
    then have s': "s' = with_consumer s t (v_sys s) (if bq_empty ?q then CsEnd else CsStart)" using step run by simp
    have "bq_empty ?q \<longleftrightarrow> contents (b_queue ?q) = []" using mpmc_empty_contents [OF E(2)] by (simp add: bq_empty_def)
    moreover have "consumer_at CsEmpty ?d" "\<not> v_running s" using CsEmpty D(6,8) [OF t] by simp_all
    ultimately show ?thesis unfolding s' by (intro quiet [OF refl same refl]) (simp_all add: CsEmpty split: if_splits)
  next
    case CsStart
    then have "g_phase ?d = Waiting" using D(6) [OF t] by simp
    then have "s' = with_consumer s t (with_disp (v_sys s) t (?d\<lparr>g_phase := Fetching (min (unat (32 :: u64)) BATCH_SIZE)\<rparr>)) CsFetch"
      using step run CsStart len by simp
    with quiet [of _ "?d\<lparr>g_phase := Fetching (min (unat (32 :: u64)) BATCH_SIZE)\<rparr>" CsFetch] CsStart show ?thesis by simp
  next
    case CsFetch
    then obtain z where "batch_act (BFetch t) (v_sys s) = ret z"
      "s' = with_consumer s t z (if g_phase (n_disps z ! t) = Calling then CsCall else CsFetch)"
      using step run by (auto simp: rbind_eq_ret simp del: batch_act.simps)
    with consumer_fetches [OF Q C t CsFetch] show ?thesis unfolding Let_def by blast
  next
    case CsCall
    then obtain z where "batch_act (BCall t) (v_sys s) = ret z"
      "s' = with_consumer s t z (if g_phase (n_disps z ! t) = Returning then CsReturn else CsCall)"
      using step run by (auto simp: rbind_eq_ret simp del: batch_act.simps)
    with consumer_calls [OF Q C t CsCall] show ?thesis unfolding Let_def by blast
  next
    case CsReturn
    then have d: "g_phase ?d = Returning" "g_batch ?d = []" using D(6) [OF t] by simp_all
    show ?thesis
    proof (cases "g_sent ?d")
      case Nil
      then have "s' = with_consumer s t (with_disp (v_sys s) t (?d\<lparr>g_phase := Waiting\<rparr>)) CsRunning"
        using step run CsReturn len d by simp
      with quiet [of _ "?d\<lparr>g_phase := Waiting\<rparr>" CsRunning] CsReturn d show ?thesis by simp
    next
      case (Cons n ns)
      then have "s' = with_consumer s t (with_disp (v_sys s) t (?d\<lparr>g_sent := ns\<rparr>)) (CsRelease (RelLoad n))"
        using step run CsReturn len d by simp
      with quiet [of _ "?d\<lparr>g_sent := ns\<rparr>" "CsRelease (RelLoad n)"] CsReturn d show ?thesis by simp
    qed
  next
    case (CsRelease lp)
    then have d: "g_phase ?d = Returning" "g_batch ?d = []" using D(6) [OF t] by simp_all
    from CsRelease obtain p lp' r where p: "pool_step zero_message weak (b_messagePool ?q) lp = Inr (p, lp', r)"
      and s': "s' = with_consumer s t ((v_sys s)\<lparr>n_queue := ?q\<lparr>b_messagePool := p\<rparr>\<rparr>) (if lp' = LIdle then CsReturn else CsRelease lp')"
      using step run by (auto simp: rbind_eq_ret obind_eq_Inr)
    show ?thesis unfolding s'
      by (rule consumer_step_keeps [OF Q C t refl refl, where q' = "?q\<lparr>b_messagePool := p\<rparr>" and d' = ?d and c = "[]"])
        (use E(2,4) d CsRelease pool_step_objects(1) [OF p E(4)] node_ok_step [OF p E(4)] in \<open>simp_all split: if_splits\<close>)
  next
    case CsEnd
    then have "s' = with_consumer s t (v_sys s) CsEnd" using step run by simp
    with quiet [OF refl same refl, of CsEnd] CsEnd D(6,8,9) [OF t] show ?thesis by simp
  qed
qed

lemma batch_main_step_inv:
  assumes Q: "batch_queue_inv b l s" and C: "batch_control_inv s"
  shows "batch_queue_inv b l (batch_main_step (v_main s) s) \<and> batch_control_inv (batch_main_step (v_main s) s)"
proof -
  note D = batch_control_invD [OF C]
  have queue: "batch_queue_inv b l (s\<lparr>v_main := m\<rparr>)" "batch_queue_inv b l (s\<lparr>v_running := r, v_main := m\<rparr>)" for r m
    using Q by (simp_all add: batch_queue_inv_def in_flight_def pushed_events_def)
  have control: "batch_control_inv (s\<lparr>v_main := m\<rparr>)" if "main_at m s" for m
  proof -
    have "main_at m (s\<lparr>v_main := m\<rparr>)" using that by (cases m) simp_all
    then show ?thesis using D unfolding batch_control_inv_def by simp
  qed
  show ?thesis
  proof (cases "v_main s")
    case (JoinProducers n)
    then show ?thesis using control queue Q C D(1,7) by (auto simp: less_Suc_eq)
  next
    case ClearRunning
    then have "main_at (JoinConsumers 0) (s\<lparr>v_running := False, v_main := JoinConsumers 0\<rparr>)" using D(7) by simp
    then have "batch_control_inv (s\<lparr>v_running := False, v_main := JoinConsumers 0\<rparr>)"
      using D unfolding batch_control_inv_def by simp
    then show ?thesis using queue ClearRunning by simp
  next
    case (JoinConsumers n)
    then show ?thesis using control queue Q C D(2,7) by (auto simp: less_Suc_eq)
  qed (use Q C in simp)
qed

lemma batch_program_step_inv:
  assumes size: "\<And>i t. length (b i t) = 16" and Q: "batch_queue_inv b l s" and C: "batch_control_inv s"
    and step: "batch_program_step b a s = ret s'"
  shows "batch_queue_inv b l s' \<and> batch_control_inv s'"
proof (cases a)
  case (BatchProducer j weak)
  show ?thesis
  proof (cases "j < 4")
    case True
    with producer_step_inv [OF size Q C True] step BatchProducer show ?thesis by simp
  next
    case False
    then have "s' = s" using step BatchProducer batch_control_invD(1) [OF C] by (simp add: batch_producer_step_def)
    then show ?thesis using Q C by simp
  qed
next
  case (BatchConsumer t weak)
  show ?thesis
  proof (cases "t < 2")
    case True
    with consumer_step_inv [OF Q C True] step BatchConsumer show ?thesis by simp
  next
    case False
    then have "s' = s" using step BatchConsumer batch_control_invD(2) [OF C] by (simp add: batch_consumer_step_def)
    then show ?thesis using Q C by simp
  qed
next
  case BatchMain
  then show ?thesis using batch_main_step_inv [OF Q C] step by auto
qed

lemma batch_program_steps_inv:
  assumes size: "\<And>i t. length (b i t) = 16" and "batch_queue_inv b l s" and "batch_control_inv s"
    and "batch_program_steps b s as = ret s'"
  shows "batch_queue_inv b l s' \<and> batch_control_inv s'"
  using assms(2-4)
proof (induction as arbitrary: s)
  case Nil
  then show ?case by simp
next
  case (Cons a as)
  then obtain s1 where s1: "batch_program_step b a s = ret s1" "batch_program_steps b s1 as = ret s'" by (auto simp: rbind_eq_ret)
  from batch_program_step_inv [OF size Cons.prems(1,2) s1(1)] Cons.IH s1(2) show ?case by blast
qed

lemma batch_program_start_inv:
  assumes "bq_ok q" and "bq_pending q = []" and "one_observer b (b_topics q)" and "10000 \<le> push_room (b_queue q)"
  shows "batch_queue_inv b (log (b_world q)) (batch_program_start q 0)" and "batch_control_inv (batch_program_start q 0)"
proof -
  have chan: "ring_inv (b_queue q)" "pool_inv (b_messagePool q) (set (contents (b_queue q) @ t_batch q))"
    using assms(1) by (simp_all add: bq_ok_def mchan_def chan_ok_def)
  then have "heap_ok (nodes (b_messagePool q))" by (auto simp: pool_inv_def lf_inv_def)
  moreover have "contents (b_queue q) = []" using assms(2) by (metis length_0_conv length_mpending)
  ultimately show "batch_queue_inv b (log (b_world q)) (batch_program_start q 0)"
    using assms(3,4) chan(1)
    by (simp add: batch_queue_inv_def Let_def batch_program_start_def batch_threads_def in_flight_def fetched_nodes_def pushed_events_def pushed_by_def
        eval_nat_numeral)
  show "batch_control_inv (batch_program_start q 0)"
    by (simp add: batch_control_inv_def batch_program_start_def batch_threads_def sum_list_replicate)
qed

lemma batch_counted:
  assumes "set new \<subseteq> event_call b ` X" and "log (b_world q) = l @ new"
  shows "batch_counted_since l q = int (length new)"
proof -
  have "fold batch_callback new c = c + int (length new)" for c
    using assms(1) by (induction new arbitrary: c) (auto simp: event_call_def)
  then show ?thesis using assms(2) by (simp add: batch_counted_since_def)
qed

lemma batch_program_end:
  assumes Q: "batch_queue_inv b l s" and C: "batch_control_inv s" and m: "v_main s = Printed"
  shows "v_produced s = 10000 \<and> batch_counted_since l (n_queue (v_sys s)) = 10000 \<and>
    (\<exists>new. log (b_world (n_queue (v_sys s))) = l @ new \<and> length new = 10000 \<and> set new \<subseteq> event_call b ` {..<2500})"
proof -
  note D = batch_control_invD [OF C] and E = batch_queue_invD [OF Q]
  have all: "\<forall>j < 4. pr_pc (v_producers s ! j) = PrEnd" "\<forall>t < 2. v_consumers s ! t = CsEnd" using D(7) m by simp_all
  have "v_producers s ! j = \<lparr>pr_i = 2500, pr_pc = PrEnd\<rparr>" if "j < 4" for j
    using all(1) D(4) [OF that] that by (cases "v_producers s ! j") auto
  then have producers: "v_producers s = replicate 4 \<lparr>pr_i = 2500, pr_pc = PrEnd\<rparr>" using D(1) by (intro nth_equalityI) simp_all
  have "g_batch (n_disps (v_sys s) ! t) = []" if "t < 2" for t using D(6) [OF that] all(2) that by simp
  then have "g_batch d = []" if "d \<in> set (n_disps (v_sys s))" for d using that D(3) by (metis in_set_conv_nth)
  then have "fetched_nodes (v_sys s) = []" by (simp add: fetched_nodes_def)
  moreover have "contents (b_queue (n_queue (v_sys s))) = []" using D(9) [of 0] all(2) by simp
  moreover have "pushed_events s = 10000" by (simp add: pushed_events_def producers pushed_by_def sum_list_replicate)
  ultimately obtain new where new: "log (b_world (n_queue (v_sys s))) = l @ new" "length new = 10000" "set new \<subseteq> event_call b ` {..<2500}"
    using E(6) by auto
  then have "batch_counted_since l (n_queue (v_sys s)) = 10000" using batch_counted [OF new(3,1)] by simp
  moreover have "v_produced s = 10000" by (simp add: D(5) producers sum_list_replicate)
  ultimately show ?thesis using new by blast
qed

end
