(* ===== verification/Example_Batch_Race.thy ===== *)
theory Example_Batch_Race
  imports Example_Batch_Threads
begin

text \<open>
  What the second half of \<open>src/examples/batch_queue/main.cpp\<close> comes to. Every schedule that ends prints
  10000 produced and 10000 consumed events. But the four producers acquire from a pool that is made for one: there
  is a schedule, without a fault, that ends with an event lost, another delivered twice, and a free list that is a
  cycle, so that the destructor of the queue deletes a node twice. The program's own counts cannot show it.

  The schedule is found on a shadow of the program: the ring is the list of its nodes, a message is the
  number of the event it holds, and the pool is restricted to the two nodes that matter. \<open>shadows\<close> says
  what a shadow keeps of a program, and every step of the shadow is one of the program.
\<close>

declare upt_rec_numeral [simp del]

section \<open>The shadow\<close>

record shadow =
  sh_ring :: "nat list"
  sh_pool :: "nat option pool"
  sh_producers :: "batch_producer list"
  sh_consumers :: "batch_consumer_pc list"
  sh_disps :: "batch_disp list"
  sh_main :: batch_main_pc
  sh_running :: bool
  sh_log :: "nat list"

text \<open>The steps of the pool that neither make nor delete a node.\<close>

fun keeps_nodes :: "lpc \<Rightarrow> bool" where
  "keeps_nodes NewNode = False"
| "keeps_nodes (CountUp a) = False"
| "keeps_nodes (DeleteNode a) = False"
| "keeps_nodes CountDown = False"
| "keeps_nodes pc = True"

definition shadow_pool_step :: "nat option pool \<Rightarrow> lpc \<Rightarrow> (nat option pool \<times> lpc \<times> nat option) option" where
  "shadow_pool_step p pc = (if keeps_nodes pc then (case pool_step None False p pc of Inl e \<Rightarrow> None | Inr r \<Rightarrow> Some r) else None)"

fun shadow_producer :: "shadow \<Rightarrow> nat \<Rightarrow> batch_producer_pc \<Rightarrow> (shadow \<times> batch_producer_pc) option" where
  "shadow_producer s i PrTest = Some (s, if 2500 \<le> i then PrEnd else PrAcquire PopLoad)"
| "shadow_producer s i (PrAcquire pc) =
     map_option (\<lambda>(p, pc', r). (s\<lparr>sh_pool := p\<rparr>, case r of None \<Rightarrow> PrAcquire pc' | Some n \<Rightarrow> PrFill n)) (shadow_pool_step (sh_pool s) pc)"
| "shadow_producer s i (PrFill n) =
     (if cells (nodes (sh_pool s)) n = None then None else Some (s\<lparr>sh_pool := obj_write (sh_pool s) n (Some i)\<rparr>, PrPush n))"
| "shadow_producer s i (PrPush n) = (if length (sh_ring s) < 65536 then Some (s\<lparr>sh_ring := sh_ring s @ [n]\<rparr>, PrCount) else None)"
| "shadow_producer s i PrCount = Some (s, PrTest)"
| "shadow_producer s i PrEnd = Some (s, PrEnd)"

text \<open>A consumer, in the phase and with the dispatcher given.\<close>

fun shadow_fetch :: "nat list \<Rightarrow> batch_phase \<Rightarrow> batch_disp \<Rightarrow> (nat list \<times> batch_disp \<times> batch_consumer_pc) option" where
  "shadow_fetch ns (Fetching 0) d = Some (ns, d\<lparr>g_phase := Calling\<rparr>, CsCall)"
| "shadow_fetch [] (Fetching (Suc k)) d = Some ([], d\<lparr>g_phase := Calling\<rparr>, CsCall)"
| "shadow_fetch (n # ns) (Fetching (Suc k)) d =
     (if length (g_batch d) < 32 then Some (ns, d\<lparr>g_phase := Fetching k, g_batch := g_batch d @ [n]\<rparr>, CsFetch) else None)"
| "shadow_fetch ns ph d = None"

fun shadow_call :: "nat option pool \<Rightarrow> nat list \<Rightarrow> batch_disp \<Rightarrow> (batch_disp \<times> nat list \<times> batch_consumer_pc) option" where
  "shadow_call p [] d = Some (d\<lparr>g_phase := Returning\<rparr>, [], CsReturn)"
| "shadow_call p (n # ns) d =
     (case cells (nodes p) n of
        None \<Rightarrow> None
      | Some nd \<Rightarrow> map_option (\<lambda>i. (d\<lparr>g_batch := ns, g_sent := g_sent d @ [n]\<rparr>, [i], CsCall)) (nd_data nd))"

fun shadow_return :: "nat list \<Rightarrow> batch_disp \<Rightarrow> batch_disp \<times> batch_consumer_pc" where
  "shadow_return [] d = (d\<lparr>g_phase := Waiting\<rparr>, CsRunning)"
| "shadow_return (n # ns) d = (d\<lparr>g_sent := ns\<rparr>, CsRelease (RelLoad n))"

definition shadow_disp :: "shadow \<Rightarrow> nat \<Rightarrow> batch_disp \<Rightarrow> shadow" where
  "shadow_disp s t d = s\<lparr>sh_disps := (sh_disps s)[t := d]\<rparr>"

lemma shadow_disp_simps [simp]:
  "sh_ring (shadow_disp s t d) = sh_ring s" "sh_pool (shadow_disp s t d) = sh_pool s" "sh_log (shadow_disp s t d) = sh_log s"
  "sh_producers (shadow_disp s t d) = sh_producers s" "sh_consumers (shadow_disp s t d) = sh_consumers s"
  "sh_main (shadow_disp s t d) = sh_main s" "sh_running (shadow_disp s t d) = sh_running s"
  "sh_disps (shadow_disp s t d) = (sh_disps s)[t := d]"
  by (simp_all add: shadow_disp_def)

fun shadow_consumer :: "nat \<Rightarrow> shadow \<Rightarrow> batch_disp \<Rightarrow> batch_consumer_pc \<Rightarrow> (shadow \<times> batch_consumer_pc) option" where
  "shadow_consumer t s d CsRunning = Some (s, if sh_running s then CsStart else CsEmpty)"
| "shadow_consumer t s d CsEmpty = Some (s, if sh_ring s = [] then CsEnd else CsStart)"
| "shadow_consumer t s d CsStart = Some (shadow_disp s t (d\<lparr>g_phase := Fetching 32\<rparr>), CsFetch)"
| "shadow_consumer t s d CsFetch =
     map_option (\<lambda>(ns, d', pc). (shadow_disp (s\<lparr>sh_ring := ns\<rparr>) t d', pc)) (shadow_fetch (sh_ring s) (g_phase d) d)"
| "shadow_consumer t s d CsCall =
     map_option (\<lambda>(d', is, pc). (shadow_disp (s\<lparr>sh_log := sh_log s @ is\<rparr>) t d', pc)) (shadow_call (sh_pool s) (g_batch d) d)"
| "shadow_consumer t s d CsReturn = (let (d', pc) = shadow_return (g_sent d) d in Some (shadow_disp s t d', pc))"
| "shadow_consumer t s d (CsRelease pc) =
     map_option (\<lambda>(p, pc', r). (s\<lparr>sh_pool := p\<rparr>, if pc' = LIdle then CsReturn else CsRelease pc')) (shadow_pool_step (sh_pool s) pc)"
| "shadow_consumer t s d CsEnd = Some (s, CsEnd)"

fun shadow_main :: "batch_main_pc \<Rightarrow> shadow \<Rightarrow> shadow" where
  "shadow_main (JoinProducers j) s =
     (if length (sh_producers s) \<le> j then s\<lparr>sh_main := ClearRunning\<rparr>
      else if pr_pc (sh_producers s ! j) = PrEnd then s\<lparr>sh_main := JoinProducers (j + 1)\<rparr> else s)"
| "shadow_main ClearRunning s = s\<lparr>sh_running := False, sh_main := JoinConsumers 0\<rparr>"
| "shadow_main (JoinConsumers t) s =
     (if length (sh_consumers s) \<le> t then s\<lparr>sh_main := Printed\<rparr>
      else if sh_consumers s ! t = CsEnd then s\<lparr>sh_main := JoinConsumers (t + 1)\<rparr> else s)"
| "shadow_main Printed s = s"

text \<open>Compare-and-swaps that fail without cause are not needed.\<close>

fun shadow_step :: "batch_actor \<Rightarrow> shadow \<Rightarrow> shadow option" where
  "shadow_step (BatchProducer j weak) s =
     (if weak \<or> length (sh_producers s) \<le> j then None
      else let d = sh_producers s ! j in
        map_option (\<lambda>(s1, pc). s1\<lparr>sh_producers := (sh_producers s)[j := \<lparr>pr_i = if pr_pc d = PrCount then pr_i d + 1 else pr_i d, pr_pc = pc\<rparr>]\<rparr>)
          (shadow_producer s (pr_i d) (pr_pc d)))"
| "shadow_step (BatchConsumer t weak) s =
     (if weak \<or> length (sh_consumers s) \<le> t then None
      else map_option (\<lambda>(s1, pc). s1\<lparr>sh_consumers := (sh_consumers s)[t := pc]\<rparr>)
        (shadow_consumer t s (sh_disps s ! t) (sh_consumers s ! t)))"
| "shadow_step BatchMain s = Some (shadow_main (sh_main s) s)"

fun shadow_steps :: "shadow \<Rightarrow> batch_actor list \<Rightarrow> shadow option" where
  "shadow_steps s [] = Some s"
| "shadow_steps s (a # as) = (case shadow_step a s of None \<Rightarrow> None | Some s1 \<Rightarrow> shadow_steps s1 as)"

lemma shadow_steps_append:
  "shadow_steps s as = Some s1 \<Longrightarrow> shadow_steps s (as @ bs) = shadow_steps s1 bs"
  by (induction as arbitrary: s) (auto split: option.splits)

section \<open>Every step of a shadow is a step of the program\<close>

definition makes_call :: "(u32 \<Rightarrow> u64 \<Rightarrow> u8 list) \<Rightarrow> message \<Rightarrow> nat \<Rightarrow> bool" where
  "makes_call b m i \<longleftrightarrow> (\<forall>w. deliver 16 m w = Inr (w\<lparr>log := log w @ [event_call b i]\<rparr>))"

definition shadows_pool :: "(u32 \<Rightarrow> u64 \<Rightarrow> u8 list) \<Rightarrow> message pool \<Rightarrow> nat option pool \<Rightarrow> bool" where
  "shadows_pool b p p0 \<longleftrightarrow> m_freeList p0 = m_freeList p \<and> m_allocated p0 = m_allocated p \<and> m_maxSize p0 = m_maxSize p \<and>
     (\<forall>n nd0. cells (nodes p0) n = Some nd0 \<longrightarrow>
        (\<exists>nd. cells (nodes p) n = Some nd \<and> nd_next nd = nd_next nd0 \<and> (\<forall>i. nd_data nd0 = Some i \<longrightarrow> makes_call b (nd_data nd) i)))"

definition shadows_queue :: "(u32 \<Rightarrow> u64 \<Rightarrow> u8 list) \<Rightarrow> delivery list \<Rightarrow> batch_queue \<Rightarrow> shadow \<Rightarrow> bool" where
  "shadows_queue b l q sh \<longleftrightarrow> capacity (b_queue q) = 65536 \<and> contents (b_queue q) = sh_ring sh \<and>
     shadows_pool b (b_messagePool q) (sh_pool sh) \<and> log (b_world q) = l @ map (event_call b) (sh_log sh)"

definition shadows :: "(u32 \<Rightarrow> u64 \<Rightarrow> u8 list) \<Rightarrow> delivery list \<Rightarrow> batch_program \<Rightarrow> shadow \<Rightarrow> bool" where
  "shadows b l s sh \<longleftrightarrow>
     batch_queue_inv b l s \<and> batch_control_inv s \<and> shadows_queue b l (n_queue (v_sys s)) sh \<and>
     v_producers s = sh_producers sh \<and> v_consumers s = sh_consumers sh \<and> n_disps (v_sys s) = sh_disps sh \<and>
     v_main s = sh_main sh \<and> v_running s = sh_running sh"

lemma shadowsD:
  assumes "shadows b l s sh"
  shows "batch_queue_inv b l s" "batch_control_inv s" "shadows_queue b l (n_queue (v_sys s)) sh"
    and "v_producers s = sh_producers sh" "v_consumers s = sh_consumers sh" "n_disps (v_sys s) = sh_disps sh"
    and "v_main s = sh_main sh" "v_running s = sh_running sh"
  using assms unfolding shadows_def by blast+

lemma shadows_pool_next:
  assumes "shadows_pool b p p0" and "cells (nodes p0) n = Some nd0"
  shows "\<exists>nd. cells (nodes p) n = Some nd \<and> nd_next nd = nd_next nd0"
  using assms unfolding shadows_pool_def by blast

lemma shadows_pool_head: "shadows_pool b p p0 \<Longrightarrow> shadows_pool b (p\<lparr>m_freeList := x\<rparr>) (p0\<lparr>m_freeList := x\<rparr>)"
  by (simp add: shadows_pool_def)

lemma shadows_pool_step:
  assumes sh: "shadows_pool b p p0" and step: "shadow_pool_step p0 pc = Some (p0', pc', r)"
  shows "\<exists>p'. pool_step zero_message False p pc = Inr (p', pc', r) \<and> shadows_pool b p' p0'"
proof -
  have keep: "keeps_nodes pc" and run: "pool_step None False p0 pc = Inr (p0', pc', r)"
    using step by (auto simp: shadow_pool_step_def split: if_splits sum.splits)
  note S = sh [unfolded shadows_pool_def]
  have same: "m_freeList p0 = m_freeList p" "m_allocated p0 = m_allocated p" "m_maxSize p0 = m_maxSize p" using S by simp_all
  show ?thesis
  proof (cases pc)
    case (PopRead a)
    with run obtain nd0 where "cells (nodes p0) a = Some nd0" "p0' = p0" "pc' = PopCas a (nd_next nd0)" "r = None"
      by (auto simp: obind_eq_Inr)
    moreover then obtain nd where "cells (nodes p) a = Some nd" "nd_next nd = nd_next nd0" using S by blast
    ultimately show ?thesis using PopRead sh by auto
  next
    case (PushStore a h)
    with run obtain nd0 where nd0: "cells (nodes p0) a = Some nd0" "pc' = PushCas a h" "r = None"
      "p0' = p0\<lparr>nodes := heap_write (nodes p0) a (nd0\<lparr>nd_next := h\<rparr>)\<rparr>" by (auto simp: obind_eq_Inr)
    then obtain nd where "cells (nodes p) a = Some nd" "\<forall>i. nd_data nd0 = Some i \<longrightarrow> makes_call b (nd_data nd) i" using S by blast
    then show ?thesis using PushStore nd0 S by (auto simp: shadows_pool_def)
  next
    case PopLoad
    then show ?thesis using run sh same by (cases "m_freeList p") auto
  next
    case (PopCas a h)
    show ?thesis
    proof (cases "m_freeList p = Some a")
      case True
      with run PopCas same have "p0' = p0\<lparr>m_freeList := h\<rparr>" "pc' = LIdle" "r = Some a" by simp_all
      with True PopCas shadows_pool_head [OF sh] show ?thesis by simp
    next
      case False
      with run PopCas sh same show ?thesis by (cases "m_freeList p") auto
    qed
  next
    case (RelLoad a)
    then show ?thesis using run sh same by (cases "0 < m_maxSize p \<and> m_maxSize p < m_allocated p") auto
  next
    case (PushCas a h)
    show ?thesis
    proof (cases "m_freeList p = h")
      case True
      with run PushCas same have "p0' = p0\<lparr>m_freeList := Some a\<rparr>" "pc' = LIdle" "r = None" by simp_all
      with True PushCas shadows_pool_head [OF sh] show ?thesis by simp
    next
      case False
      with run PushCas sh same show ?thesis by simp
    qed
  qed (use run keep sh in simp_all)
qed

text \<open>What a thread does to the queue and its shadow; the rest of the shadow stays.\<close>

lemma shadows_producer:
  assumes size: "\<And>i t. length (b i t) = 16" and sh: "shadows_queue b l q sh" and ring: "ring_inv (b_queue q)"
    and ts: "one_observer b (b_topics q)" and room: "\<And>n. pc = PrPush n \<Longrightarrow> 0 < push_room (b_queue q)"
    and step: "shadow_producer sh i pc = Some (sh1, pc')"
  shows "\<exists>q'. producer_act b 0 False q i pc = ret (q', pc') \<and> shadows_queue b l q' sh1 \<and>
    sh1 = sh\<lparr>sh_ring := sh_ring sh1, sh_pool := sh_pool sh1\<rparr>"
proof -
  note S = sh [unfolded shadows_queue_def]
  show ?thesis
  proof (cases pc)
    case PrTest
    then show ?thesis using step sh one_observerD(2) [OF ts] by (auto simp: BATCH_MAX_TOPICS_def)
  next
    case (PrAcquire lp)
    with step obtain p0 lp' r where p0: "shadow_pool_step (sh_pool sh) lp = Some (p0, lp', r)" "sh1 = sh\<lparr>sh_pool := p0\<rparr>"
      "pc' = (case r of None \<Rightarrow> PrAcquire lp' | Some n \<Rightarrow> PrFill n)" by auto
    from shadows_pool_step [OF _ this(1)] S obtain p where p: "pool_step zero_message False (b_messagePool q) lp = Inr (p, lp', r)"
      "shadows_pool b p p0" by blast
    then have "producer_act b 0 False q i pc = ret (q\<lparr>b_messagePool := p\<rparr>, pc')" using PrAcquire p0(3) by simp
    then show ?thesis using S p(2) p0(2) by (intro exI [of _ "q\<lparr>b_messagePool := p\<rparr>"]) (simp add: shadows_queue_def)
  next
    case (PrFill n)
    then obtain nd0 where nd0: "cells (nodes (sh_pool sh)) n = Some nd0" and sh1: "sh1 = sh\<lparr>sh_pool := obj_write (sh_pool sh) n (Some i)\<rparr>"
      and pc': "pc' = PrPush n" using step by (auto split: if_splits)
    obtain nd where nd: "cells (nodes (b_messagePool q)) n = Some nd" "nd_next nd = nd_next nd0"
      using S nd0 unfolding shadows_pool_def by blast
    obtain m where m: "fill_for (b_topics q) 0 (batch_event b i) 16 (nd_data nd) (b_world q) = Inr (m, b_world q)" "makes_call b m i"
      using fill_event [OF size ts] unfolding makes_call_def by blast
    let ?q = "q\<lparr>b_messagePool := obj_write (b_messagePool q) n m\<rparr>"
    have "producer_act b 0 False q i pc = ret (?q, pc')" using PrFill pc' nd m(1) by (simp add: fill_node_def obj_read_def)
    moreover have "shadows_pool b (obj_write (b_messagePool q) n m) (obj_write (sh_pool sh) n (Some i))"
      using S nd nd0 m(2) unfolding shadows_pool_def by (simp add: obj_write_def)
    ultimately show ?thesis using S sh1 by (intro exI [of _ ?q]) (simp add: shadows_queue_def)
  next
    case (PrPush n)
    then have sh1: "length (sh_ring sh) < 65536" "sh1 = sh\<lparr>sh_ring := sh_ring sh @ [n]\<rparr>" "pc' = PrCount"
      using step by (auto split: if_splits)
    with try_push_ok [OF ring _ room [OF PrPush], of n] S obtain r where r: "try_push (b_queue q) n = ret (r, True)"
      "contents r = contents (b_queue q) @ [n]" "capacity r = capacity (b_queue q)" by auto
    then show ?thesis using S PrPush sh1 by (intro exI [of _ "q\<lparr>b_queue := r\<rparr>"]) (simp add: shadows_queue_def)
  qed (use step sh in auto)
qed

definition shadow_kept :: "shadow \<Rightarrow> shadow \<Rightarrow> bool" where
  "shadow_kept sh sh1 \<longleftrightarrow> sh_producers sh1 = sh_producers sh \<and> sh_consumers sh1 = sh_consumers sh \<and> sh_main sh1 = sh_main sh \<and>
     sh_running sh1 = sh_running sh"

lemma shadows_fetch:
  assumes sh: "shadows b l s sh" and t: "t < 2" and ph: "g_phase (sh_disps sh ! t) = Fetching k"
    and step: "shadow_fetch (sh_ring sh) (Fetching k) (sh_disps sh ! t) = Some (ns, d', pc')"
  shows "\<exists>z. batch_act (BFetch t) (v_sys s) = ret z \<and> shadows_queue b l (n_queue z) (shadow_disp (sh\<lparr>sh_ring := ns\<rparr>) t d') \<and>
    n_disps z = (sh_disps sh)[t := d'] \<and> pc' = (if g_phase (n_disps z ! t) = Calling then CsCall else CsFetch)"
proof -
  note S = shadowsD [OF sh] and Q = shadowsD(3) [OF sh, unfolded shadows_queue_def]
  have len: "t < length (sh_disps sh)" using batch_control_invD(3) [OF S(2)] S(6) t by simp
  have ring: "ring_inv (b_queue (n_queue (v_sys s)))" using batch_queue_invD(2) [OF S(1)] .
  show ?thesis
  proof (cases k)
    case 0
    then show ?thesis using step ph len S(3,6) by (auto simp: Let_def shadow_disp_def shadows_queue_def)
  next
    case (Suc j)
    show ?thesis
    proof (cases "sh_ring sh")
      case Nil
      with try_pop_empty [OF ring] Q have "try_pop (b_queue (n_queue (v_sys s))) = ret (b_queue (n_queue (v_sys s)), None)" by simp
      then show ?thesis using step ph len S(3,6) Suc Nil by (auto simp: Let_def shadow_disp_def shadows_queue_def)
    next
      case (Cons n ms)
      with try_pop_ok [OF ring, of n ms] Q obtain r where "try_pop (b_queue (n_queue (v_sys s))) = ret (r, Some n)"
        "contents r = ms" "capacity r = capacity (b_queue (n_queue (v_sys s)))" by auto
      then show ?thesis using step ph len Q S(6) Suc Cons
        by (auto simp: Let_def shadow_disp_def shadows_queue_def BATCH_SIZE_def split: if_splits)
    qed
  qed
qed

lemma shadows_call:
  assumes sh: "shadows b l s sh" and t: "t < 2" and ph: "g_phase (sh_disps sh ! t) = Calling"
    and step: "shadow_call (sh_pool sh) (g_batch (sh_disps sh ! t)) (sh_disps sh ! t) = Some (d', is, pc')"
  shows "\<exists>z. batch_act (BCall t) (v_sys s) = ret z \<and> shadows_queue b l (n_queue z) (shadow_disp (sh\<lparr>sh_log := sh_log sh @ is\<rparr>) t d') \<and>
    n_disps z = (sh_disps sh)[t := d'] \<and> pc' = (if g_phase (n_disps z ! t) = Returning then CsReturn else CsCall)"
proof -
  let ?q = "n_queue (v_sys s)" and ?d = "sh_disps sh ! t"
  note S = shadowsD [OF sh] and Q = shadowsD(3) [OF sh, unfolded shadows_queue_def]
  have len: "t < length (sh_disps sh)" using batch_control_invD(3) [OF S(2)] S(6) t by simp
  show ?thesis
  proof (cases "g_batch ?d")
    case Nil
    then show ?thesis using step ph len S(3,6) by (auto simp: Let_def shadow_disp_def shadows_queue_def)
  next
    case (Cons n ns)
    then obtain nd0 i where nd0: "cells (nodes (sh_pool sh)) n = Some nd0" "nd_data nd0 = Some i"
      and eq: "d' = ?d\<lparr>g_batch := ns, g_sent := g_sent ?d @ [n]\<rparr>" "is = [i]" "pc' = CsCall"
      using step by (auto split: option.splits)
    obtain nd where nd: "cells (nodes (b_messagePool ?q)) n = Some nd" "makes_call b (nd_data nd) i"
      using Q nd0 unfolding shadows_pool_def by blast
    let ?w = "(b_world ?q)\<lparr>log := log (b_world ?q) @ [event_call b i]\<rparr>"
    let ?z = "with_disp ((v_sys s)\<lparr>n_queue := ?q\<lparr>b_world := ?w\<rparr>\<rparr>) t d'"
    have "deliver 16 (nd_data nd) (b_world ?q) = Inr ?w" using nd(2) by (simp add: makes_call_def)
    then have "batch_act (BCall t) (v_sys s) = ret ?z" using ph len S(6) Cons nd(1) eq by (simp add: Let_def obj_read_def)
    then show ?thesis using Q eq ph len S(6) by (intro exI [of _ ?z]) (simp add: shadow_disp_def shadows_queue_def)
  qed
qed

lemma shadows_consumer:
  assumes sh: "shadows b l s sh" and t: "t < 2"
    and step: "shadow_consumer t sh (sh_disps sh ! t) (sh_consumers sh ! t) = Some (sh1, pc')"
  shows "\<exists>z. consumer_act (v_running s) False t (v_sys s) (v_consumers s ! t) = ret (z, pc') \<and> shadows_queue b l (n_queue z) sh1 \<and>
    n_disps z = sh_disps sh1 \<and> shadow_kept sh sh1"
proof -
  let ?q = "n_queue (v_sys s)" and ?d = "sh_disps sh ! t"
  note S = shadowsD [OF sh] and Q = shadowsD(3) [OF sh, unfolded shadows_queue_def]
  have len: "t < length (sh_disps sh)" using batch_control_invD(3) [OF S(2)] S(6) t by simp
  have at: "consumer_at (sh_consumers sh ! t) ?d" using batch_control_invD(6) [OF S(2) t] S(5,6) by simp
  have ring: "ring_inv (b_queue ?q)" using batch_queue_invD(2) [OF S(1)] .
  have upd: "shadows_queue b l q (shadow_disp x t d) = shadows_queue b l q x" for q x d
    by (simp add: shadows_queue_def)
  show ?thesis
  proof (cases "sh_consumers sh ! t")
    case CsRunning
    then show ?thesis using step S by (auto simp: shadow_kept_def)
  next
    case CsEmpty
    have "bq_empty ?q \<longleftrightarrow> sh_ring sh = []" using mpmc_empty_contents [OF ring] Q by (simp add: bq_empty_def)
    then show ?thesis using CsEmpty step S by (auto simp: shadow_kept_def)
  next
    case CsStart
    then have "g_phase ?d = Waiting" using at by simp
    then show ?thesis using CsStart step S len by (auto simp: shadow_kept_def upd BATCH_SIZE_def)
  next
    case CsFetch
    then obtain k where k: "g_phase ?d = Fetching k" using at by auto
    from CsFetch step k obtain ns d' where f: "shadow_fetch (sh_ring sh) (Fetching k) ?d = Some (ns, d', pc')"
      "sh1 = shadow_disp (sh\<lparr>sh_ring := ns\<rparr>) t d'" by auto
    from shadows_fetch [OF sh t k f(1)] f(2) show ?thesis using CsFetch S(5)
      by (auto simp: upd shadow_kept_def simp del: batch_act.simps)
  next
    case CsCall
    then have ph: "g_phase ?d = Calling" using at by simp
    from CsCall step obtain js d' where f: "shadow_call (sh_pool sh) (g_batch ?d) ?d = Some (d', js, pc')"
      "sh1 = shadow_disp (sh\<lparr>sh_log := sh_log sh @ js\<rparr>) t d'" by auto
    from shadows_call [OF sh t ph f(1)] f(2) show ?thesis using CsCall S(5)
      by (auto simp: upd shadow_kept_def simp del: batch_act.simps)
  next
    case CsReturn
    then have ph: "g_phase ?d = Returning" using at by simp
    show ?thesis
    proof (cases "g_sent ?d")
      case Nil
      then show ?thesis using CsReturn ph step S len by (auto simp: upd shadow_kept_def)
    next
      case (Cons n ns)
      then show ?thesis using CsReturn ph step S len by (auto simp: upd shadow_kept_def)
    qed
  next
    case (CsRelease lp)
    with step obtain p0 lp' r where p0: "shadow_pool_step (sh_pool sh) lp = Some (p0, lp', r)" "sh1 = sh\<lparr>sh_pool := p0\<rparr>"
      "pc' = (if lp' = LIdle then CsReturn else CsRelease lp')" by auto
    from shadows_pool_step [OF _ this(1)] Q obtain p where p: "pool_step zero_message False (b_messagePool ?q) lp = Inr (p, lp', r)"
      "shadows_pool b p p0" by blast
    let ?z = "(v_sys s)\<lparr>n_queue := ?q\<lparr>b_messagePool := p\<rparr>\<rparr>"
    have "consumer_act (v_running s) False t (v_sys s) (v_consumers s ! t) = ret (?z, pc')" using CsRelease S(5) p(1) p0(3) by simp
    then show ?thesis using Q S(6) p(2) p0(2) by (intro exI [of _ ?z]) (simp add: shadows_queue_def shadow_kept_def)
  next
    case CsEnd
    then show ?thesis using step S by (auto simp: shadow_kept_def)
  qed
qed

lemma shadows_producer_step:
  assumes size: "\<And>i t. length (b i t) = 16" and sh: "shadows b l s sh" and step: "shadow_step (BatchProducer j weak) sh = Some sh'"
  shows "\<exists>s'. batch_program_step b (BatchProducer j weak) s = ret s' \<and> shadows b l s' sh'"
proof -
  note S = shadowsD [OF sh] and D = batch_control_invD [OF shadowsD(2) [OF sh]]
  obtain i pc where d: "sh_producers sh ! j = \<lparr>pr_i = i, pr_pc = pc\<rparr>" by (cases "sh_producers sh ! j") auto
  obtain sh1 pc' where sh1: "shadow_producer sh i pc = Some (sh1, pc')"
    and weak: "\<not> weak" and j: "j < length (sh_producers sh)"
    and sh': "sh' = sh1\<lparr>sh_producers := (sh_producers sh)[j := \<lparr>pr_i = if pc = PrCount then i + 1 else i, pr_pc = pc'\<rparr>]\<rparr>"
    using step d by (auto simp: Let_def split: if_splits)
  have j4: "j < 4" using j D(1) S(4) by simp
  have room: "0 < push_room (b_queue (n_queue (v_sys s)))" if "pc = PrPush n" for n
    using pushed_events_less [OF S(2) j4, of n] batch_queue_invD(3) [OF S(1)] d S(4) that by simp
  have "\<exists>q'. producer_act b 0 False (n_queue (v_sys s)) i pc = ret (q', pc') \<and> shadows_queue b l q' sh1 \<and>
      sh1 = sh\<lparr>sh_ring := sh_ring sh1, sh_pool := sh_pool sh1\<rparr>"
    by (rule shadows_producer [OF size S(3) batch_queue_invD(2,1) [OF S(1)] _ sh1]) (rule room)
  then obtain q' where q': "producer_act b 0 False (n_queue (v_sys s)) i pc = ret (q', pc')" "shadows_queue b l q' sh1"
    "sh1 = sh\<lparr>sh_ring := sh_ring sh1, sh_pool := sh_pool sh1\<rparr>" by blast
  let ?s = "with_producer s j q' \<lparr>pr_i = if pc = PrCount then i + 1 else i, pr_pc = pc'\<rparr>
    (if pc = PrCount then v_produced s + 1 else v_produced s)"
  have run: "batch_program_step b (BatchProducer j weak) s = ret ?s"
    using q'(1) weak j S(4) d batch_queue_invD(7) [OF S(1)] by (simp add: batch_producer_step_with Let_def)
  have rest: "sh_consumers sh1 = sh_consumers sh" "sh_disps sh1 = sh_disps sh" "sh_main sh1 = sh_main sh" "sh_running sh1 = sh_running sh"
    by (subst q'(3), simp)+
  have "shadows_queue b l q' sh'" using q'(2) by (simp add: sh' shadows_queue_def)
  then have "shadows b l ?s sh'"
    using batch_program_step_inv [OF size S(1,2) run] S rest by (simp add: shadows_def sh')
  with run show ?thesis by blast
qed

lemma shadows_consumer_step:
  assumes size: "\<And>i t. length (b i t) = 16" and sh: "shadows b l s sh" and step: "shadow_step (BatchConsumer t weak) sh = Some sh'"
  shows "\<exists>s'. batch_program_step b (BatchConsumer t weak) s = ret s' \<and> shadows b l s' sh'"
proof -
  note S = shadowsD [OF sh] and D = batch_control_invD [OF shadowsD(2) [OF sh]]
  obtain sh1 pc where sh1: "shadow_consumer t sh (sh_disps sh ! t) (sh_consumers sh ! t) = Some (sh1, pc)"
    and weak: "\<not> weak" and t: "t < length (sh_consumers sh)" and sh': "sh' = sh1\<lparr>sh_consumers := (sh_consumers sh)[t := pc]\<rparr>"
    using step by (auto simp: Let_def split: if_splits)
  have "t < 2" using t D(2) S(5) by simp
  from shadows_consumer [OF sh this sh1] obtain z
    where z: "consumer_act (v_running s) False t (v_sys s) (v_consumers s ! t) = ret (z, pc)"
      "shadows_queue b l (n_queue z) sh1" "n_disps z = sh_disps sh1" "shadow_kept sh sh1" by blast
  have run: "batch_program_step b (BatchConsumer t weak) s = ret (with_consumer s t z pc)" (is "_ = ret ?s")
    using z(1) weak t S(5) by (simp add: batch_consumer_step_with)
  have "shadows_queue b l (n_queue z) sh'" using z(2) by (simp add: sh' shadows_queue_def)
  then have "shadows b l ?s sh'"
    using batch_program_step_inv [OF size S(1,2) run] S z(3,4) by (simp add: shadows_def sh' shadow_kept_def)
  with run show ?thesis by blast
qed

lemma shadows_main_step:
  assumes size: "\<And>i t. length (b i t) = 16" and sh: "shadows b l s sh" and step: "shadow_step BatchMain sh = Some sh'"
  shows "\<exists>s'. batch_program_step b BatchMain s = ret s' \<and> shadows b l s' sh'"
proof -
  note S = shadowsD [OF sh]
  have run: "batch_program_step b BatchMain s = ret (batch_main_step (v_main s) s)" (is "_ = ret ?s") by simp
  have "shadows_queue b l (n_queue (v_sys ?s)) sh' \<and> v_producers ?s = sh_producers sh' \<and> v_consumers ?s = sh_consumers sh' \<and>
      n_disps (v_sys ?s) = sh_disps sh' \<and> v_main ?s = sh_main sh' \<and> v_running ?s = sh_running sh'"
    using step S by (cases "sh_main sh") (auto simp: shadows_queue_def)
  then have "shadows b l ?s sh'" using batch_program_step_inv [OF size S(1,2) run] by (simp add: shadows_def)
  with run show ?thesis by blast
qed

lemma shadows_steps:
  assumes size: "\<And>i t. length (b i t) = 16" and "shadows b l s sh" and "shadow_steps sh as = Some sh'"
  shows "\<exists>s'. batch_program_steps b s as = ret s' \<and> shadows b l s' sh'"
  using assms(2,3)
proof (induction as arbitrary: s sh)
  case Nil
  then show ?case by simp
next
  case (Cons a as)
  then obtain sh1 where sh1: "shadow_step a sh = Some sh1" "shadow_steps sh1 as = Some sh'" by (auto split: option.splits)
  have "\<exists>s1. batch_program_step b a s = ret s1 \<and> shadows b l s1 sh1"
    using shadows_producer_step [OF size Cons.prems(1)] shadows_consumer_step [OF size Cons.prems(1)]
      shadows_main_step [OF size Cons.prems(1)] sh1(1) by (cases a) (simp_all del: shadow_step.simps batch_program_step.simps)
  then obtain s1 where s1: "batch_program_step b a s = ret s1" "shadows b l s1 sh1" by blast
  from Cons.IH [OF s1(2) sh1(2)] s1(1) show ?case by auto
qed

section \<open>The schedule that loses an event\<close>

text \<open>The pool of the shadow: two nodes, at the addresses \<open>a\<close> and \<open>x\<close>.\<close>

definition race_pool :: "nat \<Rightarrow> nat \<Rightarrow> u64 \<Rightarrow> nat option pnode \<Rightarrow> nat option pnode \<Rightarrow> nat option \<Rightarrow> nat option pool" where
  "race_pool a x A u v head =
     \<lparr>nodes = \<lparr>cells = [a \<mapsto> u, x \<mapsto> v], next_addr = 0\<rparr>, m_freeList = head, m_allocated = A, m_maxSize = 16384\<rparr>"

lemma race_pool_steps:
  assumes "a \<noteq> x"
  shows "shadow_pool_step (race_pool a x A u v (Some n)) PopLoad = Some (race_pool a x A u v (Some n), PopRead n, None)"
    and "shadow_pool_step (race_pool a x A u v head) (PopRead a) = Some (race_pool a x A u v head, PopCas a (nd_next u), None)"
    and "shadow_pool_step (race_pool a x A u v head) (PopRead x) = Some (race_pool a x A u v head, PopCas x (nd_next v), None)"
    and "shadow_pool_step (race_pool a x A u v (Some n)) (PopCas n h) = Some (race_pool a x A u v h, LIdle, Some n)"
    and "A \<le> 16384 \<Longrightarrow> shadow_pool_step (race_pool a x A u v head) (RelLoad n) = Some (race_pool a x A u v head, PushStore n head, None)"
    and "shadow_pool_step (race_pool a x A u v head) (PushStore a h) = Some (race_pool a x A (u\<lparr>nd_next := h\<rparr>) v head, PushCas a h, None)"
    and "shadow_pool_step (race_pool a x A u v head) (PushStore x h) = Some (race_pool a x A u (v\<lparr>nd_next := h\<rparr>) head, PushCas x h, None)"
    and "shadow_pool_step (race_pool a x A u v head) (PushCas n head) = Some (race_pool a x A u v (Some n), LIdle, None)"
    and "obj_write (race_pool a x A u v head) a i = race_pool a x A (u\<lparr>nd_data := i\<rparr>) v head"
    and "obj_write (race_pool a x A u v head) x i = race_pool a x A u (v\<lparr>nd_data := i\<rparr>) head"
    and "cells (nodes (race_pool a x A u v head)) a = Some u" and "cells (nodes (race_pool a x A u v head)) x = Some v"
  using assms by (simp_all add: shadow_pool_step_def race_pool_def heap_write_def obj_write_def fun_upd_twist heap_read_def not_less)

lemma shadow_fetch_numeral:
  "shadow_fetch [] (Fetching (numeral k)) d = Some ([], d\<lparr>g_phase := Calling\<rparr>, CsCall)"
  "shadow_fetch (n # ns) (Fetching (numeral k)) d =
     (if length (g_batch d) < 32 then Some (ns, d\<lparr>g_phase := Fetching (pred_numeral k), g_batch := g_batch d @ [n]\<rparr>, CsFetch) else None)"
  by (simp_all add: numeral_eq_Suc)

lemma replicate_step: "replicate (numeral k) y = y # replicate (pred_numeral k) y"
  by (simp add: numeral_eq_Suc)

abbreviation "P j \<equiv> BatchProducer j False"
abbreviation "C t \<equiv> BatchConsumer t False"

text \<open>
  Producer 0 reads the head \<open>a\<close> and its successor \<open>x\<close> and is delayed. Producer 1 posts its first event in \<open>a\<close>,
  which consumer 0 fetches, and acquires \<open>x\<close> for its second; then \<open>a\<close> is returned, and the exchange of
  producer 0 succeeds and makes \<open>x\<close> the head although producer 1 has it.
\<close>

definition race_first :: "batch_actor list" where
  "race_first = replicate 3 (P 0) @ replicate 7 (P 1) @ replicate 6 (C 0) @ replicate 4 (P 1) @ replicate 5 (C 0) @ [P 0]"

text \<open>
  Producer 1 puts its second event in \<open>x\<close> and pushes it; producer 2 acquires \<open>x\<close>, overwrites it with its
  first event and pushes it again. Consumer 0 delivers \<open>x\<close> twice, returns it once, and is delayed before it
  returns it again. The event of producer 0 goes through \<open>a\<close>.
\<close>

definition race_second :: "batch_actor list" where
  "race_second = replicate 3 (P 1) @ replicate 7 (P 2) @ replicate 13 (C 0) @ replicate 3 (P 0) @ replicate 11 (C 1)"

definition waiting_disp :: batch_disp where
  "waiting_disp = \<lparr>g_phase = Waiting, g_batch = [], g_sent = []\<rparr>"

definition race_start :: "nat \<Rightarrow> nat \<Rightarrow> nat \<Rightarrow> u64 \<Rightarrow> shadow" where
  "race_start a x c A =
     \<lparr>sh_ring = [], sh_pool = race_pool a x A \<lparr>nd_data = None, nd_next = Some x\<rparr> \<lparr>nd_data = None, nd_next = Some c\<rparr> (Some a),
      sh_producers = replicate 4 \<lparr>pr_i = 0, pr_pc = PrTest\<rparr>, sh_consumers = replicate 2 CsRunning,
      sh_disps = replicate 2 waiting_disp, sh_main = JoinProducers 0, sh_running = True, sh_log = []\<rparr>"

definition race_middle :: "nat \<Rightarrow> nat \<Rightarrow> nat \<Rightarrow> u64 \<Rightarrow> shadow" where
  "race_middle a x c A =
     \<lparr>sh_ring = [], sh_pool = race_pool a x A \<lparr>nd_data = Some 0, nd_next = Some c\<rparr> \<lparr>nd_data = None, nd_next = Some c\<rparr> (Some x),
      sh_producers = [\<lparr>pr_i = 0, pr_pc = PrFill a\<rparr>, \<lparr>pr_i = 1, pr_pc = PrFill x\<rparr>, \<lparr>pr_i = 0, pr_pc = PrTest\<rparr>, \<lparr>pr_i = 0, pr_pc = PrTest\<rparr>],
      sh_consumers = replicate 2 CsRunning, sh_disps = replicate 2 waiting_disp, sh_main = JoinProducers 0, sh_running = True, sh_log = [0]\<rparr>"

text \<open>Consumer 0 is about to return \<open>x\<close>, which is free.\<close>

definition race_calm :: "nat \<Rightarrow> nat \<Rightarrow> nat \<Rightarrow> u64 \<Rightarrow> nat \<Rightarrow> batch_producer list \<Rightarrow> nat list \<Rightarrow> shadow" where
  "race_calm a x c A i ps js =
     \<lparr>sh_ring = [], sh_pool = race_pool a x A \<lparr>nd_data = Some i, nd_next = Some x\<rparr> \<lparr>nd_data = Some 0, nd_next = Some c\<rparr> (Some a),
      sh_producers = ps, sh_consumers = [CsRelease (RelLoad x), CsRunning],
      sh_disps = [\<lparr>g_phase = Returning, g_batch = [], g_sent = []\<rparr>, waiting_disp], sh_main = JoinProducers 0, sh_running = True, sh_log = js\<rparr>"

lemmas shadow_eval = race_pool_steps shadow_fetch_numeral numeral_2_eq_2 numeral_3_eq_3 replicate_step Let_def shadow_disp_def waiting_disp_def

lemma race_first_run:
  assumes "a \<noteq> x" and "A \<le> 16384"
  shows "shadow_steps (race_start a x c A) race_first = Some (race_middle a x c A)"
  using assms unfolding race_start_def race_first_def race_middle_def replicate_step
  by (simp add: shadow_eval)

lemma race_second_run:
  assumes "a \<noteq> x" and "A \<le> 16384"
  shows "shadow_steps (race_middle a x c A) race_second = Some (race_calm a x c A 0
    [\<lparr>pr_i = 1, pr_pc = PrTest\<rparr>, \<lparr>pr_i = 2, pr_pc = PrTest\<rparr>, \<lparr>pr_i = 1, pr_pc = PrTest\<rparr>, \<lparr>pr_i = 0, pr_pc = PrTest\<rparr>] [0, 0, 0, 0])"
  using assms unfolding race_middle_def race_second_def race_calm_def replicate_step
  by (simp add: shadow_eval)

text \<open>From there each event is posted and delivered at once, through the node \<open>a\<close>.\<close>

definition race_round :: "nat \<Rightarrow> batch_actor list" where
  "race_round j = replicate 7 (P j) @ replicate 11 (C 1)"

lemma race_round_run:
  assumes "a \<noteq> x" and "A \<le> 16384" and "j < length ps" and "ps ! j = \<lparr>pr_i = i, pr_pc = PrTest\<rparr>" and "i < 2500"
  shows "shadow_steps (race_calm a x c A i0 ps js) (race_round j) =
    Some (race_calm a x c A i (ps[j := \<lparr>pr_i = i + 1, pr_pc = PrTest\<rparr>]) (js @ [i]))"
  using assms unfolding race_calm_def race_round_def replicate_step
  by (simp add: shadow_eval)

lemma race_rounds_run:
  assumes ax: "a \<noteq> x" "A \<le> 16384" and "j < length ps" and "ps ! j = \<lparr>pr_i = i, pr_pc = PrTest\<rparr>" and "i + k \<le> 2500"
  shows "\<exists>i1. shadow_steps (race_calm a x c A i0 ps js) (concat (replicate k (race_round j))) =
    Some (race_calm a x c A i1 (ps[j := \<lparr>pr_i = i + k, pr_pc = PrTest\<rparr>]) (js @ [i..<i + k]))"
  using assms(3-5)
proof (induction k arbitrary: i i0 ps js)
  case 0
  then have "ps[j := \<lparr>pr_i = i, pr_pc = PrTest\<rparr>] = ps" by (metis list_update_id)
  then show ?case by auto
next
  case (Suc k)
  let ?ps = "ps[j := \<lparr>pr_i = i + 1, pr_pc = PrTest\<rparr>]"
  have "i < 2500" using Suc.prems(3) by simp
  note one = race_round_run [OF ax Suc.prems(1,2) this, of c i0 js]
  from Suc.IH [of ?ps "i + 1" i "js @ [i]"] Suc.prems obtain i1
    where i1: "shadow_steps (race_calm a x c A i ?ps (js @ [i])) (concat (replicate k (race_round j))) =
      Some (race_calm a x c A i1 (ps[j := \<lparr>pr_i = i + 1 + k, pr_pc = PrTest\<rparr>]) ((js @ [i]) @ [i + 1..<i + 1 + k]))" by auto
  have "(js @ [i]) @ [i + 1..<i + 1 + k] = js @ [i..<i + Suc k]" by (simp add: upt_conv_Cons del: upt_Suc)
  moreover have "concat (replicate (Suc k) (race_round j)) = race_round j @ concat (replicate k (race_round j))" by simp
  moreover have "i + 1 + k = i + Suc k" by simp
  ultimately show ?case using i1 shadow_steps_append [OF one] by metis
qed

text \<open>The producers end, consumer 0 returns \<open>x\<close> once more, and all threads end.\<close>

definition race_last :: "batch_actor list" where
  "race_last = [P 0, P 1, P 2, P 3] @ replicate 6 BatchMain @ replicate 6 (C 0) @ replicate 2 (C 1) @ replicate 3 BatchMain"

lemma race_last_run:
  assumes "a \<noteq> x" and "A \<le> 16384"
  shows "\<exists>sh. shadow_steps (race_calm a x c A i (replicate 4 \<lparr>pr_i = 2500, pr_pc = PrTest\<rparr>) js) race_last = Some sh \<and>
    sh_main sh = Printed \<and> sh_log sh = js \<and>
    sh_pool sh = race_pool a x A \<lparr>nd_data = Some i, nd_next = Some x\<rparr> \<lparr>nd_data = Some 0, nd_next = Some a\<rparr> (Some x)"
  using assms unfolding race_calm_def race_last_def replicate_step
  by (simp add: shadow_eval)

lemma race_run:
  assumes ax: "a \<noteq> x" "A \<le> 16384"
  shows "\<exists>as sh i. shadow_steps (race_start a x c A) as = Some sh \<and> sh_main sh = Printed \<and>
    sh_log sh = [0, 0, 0, 0] @ [1..<2500] @ [2..<2500] @ [1..<2500] @ [0..<2500] \<and>
    sh_pool sh = race_pool a x A \<lparr>nd_data = Some i, nd_next = Some x\<rparr> \<lparr>nd_data = Some 0, nd_next = Some a\<rparr> (Some x)"
proof -
  let ?d = "\<lambda>i. \<lparr>pr_i = i, pr_pc = PrTest\<rparr>" and ?r = "\<lambda>k j. concat (replicate k (race_round j))"
  note rounds = race_rounds_run [OF ax]
  note run1 = race_first_run [OF ax, of c] race_second_run [OF ax, of c]
  obtain i0 where r0: "shadow_steps (race_calm a x c A 0 [?d 1, ?d 2, ?d 1, ?d 0] [0, 0, 0, 0]) (?r 2499 0) =
      Some (race_calm a x c A i0 [?d 2500, ?d 2, ?d 1, ?d 0] ([0, 0, 0, 0] @ [1..<2500]))"
    using rounds [of 0 "[?d 1, ?d 2, ?d 1, ?d 0]" 1 2499 c 0 "[0, 0, 0, 0]"] by (auto simp del: upt_Suc)
  obtain i1 where r1: "shadow_steps (race_calm a x c A i0 [?d 2500, ?d 2, ?d 1, ?d 0] ([0, 0, 0, 0] @ [1..<2500])) (?r 2498 1) =
      Some (race_calm a x c A i1 [?d 2500, ?d 2500, ?d 1, ?d 0] ([0, 0, 0, 0] @ [1..<2500] @ [2..<2500]))"
    using rounds [of 1 "[?d 2500, ?d 2, ?d 1, ?d 0]" 2 2498 c i0 "[0, 0, 0, 0] @ [1..<2500]"] by auto
  obtain i2 where r2: "shadow_steps (race_calm a x c A i1 [?d 2500, ?d 2500, ?d 1, ?d 0] ([0, 0, 0, 0] @ [1..<2500] @ [2..<2500])) (?r 2499 2) =
      Some (race_calm a x c A i2 [?d 2500, ?d 2500, ?d 2500, ?d 0] ([0, 0, 0, 0] @ [1..<2500] @ [2..<2500] @ [1..<2500]))"
    using rounds [of 2 "[?d 2500, ?d 2500, ?d 1, ?d 0]" 1 2499 c i1 "[0, 0, 0, 0] @ [1..<2500] @ [2..<2500]"] by (auto simp: numeral_2_eq_2)
  obtain i3 where r3: "shadow_steps (race_calm a x c A i2 [?d 2500, ?d 2500, ?d 2500, ?d 0] ([0, 0, 0, 0] @ [1..<2500] @ [2..<2500] @ [1..<2500]))
      (?r 2500 3) = Some (race_calm a x c A i3 (replicate 4 (?d 2500)) ([0, 0, 0, 0] @ [1..<2500] @ [2..<2500] @ [1..<2500] @ [0..<2500]))"
    using rounds [of 3 "[?d 2500, ?d 2500, ?d 2500, ?d 0]" 0 2500 c i2 "[0, 0, 0, 0] @ [1..<2500] @ [2..<2500] @ [1..<2500]"]
    by (auto simp: numeral_3_eq_3 replicate_step)
  from race_last_run [OF ax] obtain sh where sh: "shadow_steps (race_calm a x c A i3 (replicate 4 (?d 2500))
      ([0, 0, 0, 0] @ [1..<2500] @ [2..<2500] @ [1..<2500] @ [0..<2500])) race_last = Some sh" "sh_main sh = Printed"
    "sh_log sh = [0, 0, 0, 0] @ [1..<2500] @ [2..<2500] @ [1..<2500] @ [0..<2500]"
    "sh_pool sh = race_pool a x A \<lparr>nd_data = Some i3, nd_next = Some x\<rparr> \<lparr>nd_data = Some 0, nd_next = Some a\<rparr> (Some x)" by blast
  have "shadow_steps (race_start a x c A) (race_first @ race_second @ ?r 2499 0 @ ?r 2498 1 @ ?r 2499 2 @ ?r 2500 3 @ race_last) = Some sh"
    by (simp only: shadow_steps_append [OF run1(1)] shadow_steps_append [OF run1(2)] shadow_steps_append [OF r0] shadow_steps_append [OF r1]
        shadow_steps_append [OF r2] shadow_steps_append [OF r3] sh(1))
  with sh(2-4) show ?thesis by blast
qed

text \<open>The schedule starts at the top two nodes of the free list.\<close>

lemma batch_ready_start:
  assumes size: "\<And>i t. length (b i t) = 16" and ready: "batch_ready b q"
  shows "batch_queue_inv b (log (b_world q)) (batch_program_start q 0)" and "batch_control_inv (batch_program_start q 0)"
    and "\<exists>a x c A. a \<noteq> x \<and> A \<le> 16384 \<and> shadows b (log (b_world q)) (batch_program_start q 0) (race_start a x c A)"
proof -
  note R = ready [unfolded batch_ready_def]
  have "one_observer b (b_topics q)" using R by (simp add: one_observer_def batch_event_def bq_ok_def)
  with batch_program_start_inv [of q b] R
  show start: "batch_queue_inv b (log (b_world q)) (batch_program_start q 0)" "batch_control_inv (batch_program_start q 0)" by simp_all
  have "contents (b_queue q) = []" using R by (metis length_0_conv length_mpending)
  moreover have "bq_ok q" using R by simp
  then have "pool_inv (b_messagePool q) (set (contents (b_queue q) @ t_batch q))" by (simp add: bq_ok_def mchan_def chan_ok_def)
  ultimately obtain fl where fl: "lf_inv (b_messagePool q) fl {}" using R by (auto simp: pool_inv_def)
  have len: "length fl = pool_nodes (b_messagePool q)" using lf_inv_nodes [OF fl] by simp
  then have "\<not> length fl < 3" using R by simp
  then obtain a x c rest where list: "fl = a # x # c # rest"
    by (cases fl; cases "tl fl"; cases "tl (tl fl)") auto
  from lf_invD(6) [OF fl] obtain u v where cells: "m_freeList (b_messagePool q) = Some a" "cells (nodes (b_messagePool q)) a = Some u"
    "nd_next u = Some x" "cells (nodes (b_messagePool q)) x = Some v" "nd_next v = Some c" by (auto simp: list)
  let ?A = "m_allocated (b_messagePool q)"
  have "unat ?A = length fl" using lf_invD(7) [OF fl] len R by (simp add: unsigned_of_nat take_bit_nat_eq_self)
  then have "?A \<le> 16384" using len R by (simp add: word_le_nat_alt)
  moreover have "a \<noteq> x" using lf_invD(2) [OF fl] list by simp
  moreover have "shadows_pool b (b_messagePool q)
      (race_pool a x ?A \<lparr>nd_data = None, nd_next = Some x\<rparr> \<lparr>nd_data = None, nd_next = Some c\<rparr> (Some a))"
    using cells R by (simp add: shadows_pool_def race_pool_def)
  then have "shadows b (log (b_world q)) (batch_program_start q 0) (race_start a x c ?A)"
    using start R \<open>contents (b_queue q) = []\<close>
    by (simp add: shadows_def shadows_queue_def race_start_def batch_program_start_def batch_threads_def waiting_disp_def)
  ultimately show "\<exists>a x c A. a \<noteq> x \<and> A \<le> 16384 \<and> shadows b (log (b_world q)) (batch_program_start q 0) (race_start a x c A)" by blast
qed

text \<open>A free list that is a cycle of two nodes cannot be destroyed.\<close>

lemma cyclic_pool_destroy:
  assumes "a \<noteq> x" and "shadows_pool b p (race_pool a x A \<lparr>nd_data = i, nd_next = Some x\<rparr> \<lparr>nd_data = j, nd_next = Some a\<rparr> (Some x))"
  shows "pool_destroy p = Some (Inl UseAfterFree)"
proof -
  have "m_freeList p = Some x" using assms(2) by (simp add: shadows_pool_def race_pool_def)
  moreover obtain u where "cells (nodes p) a = Some u" "nd_next u = Some x"
    using shadows_pool_next [OF assms(2) race_pool_steps(11) [OF assms(1)]] by auto
  moreover obtain v where "cells (nodes p) x = Some v" "nd_next v = Some a"
    using shadows_pool_next [OF assms(2) race_pool_steps(12) [OF assms(1)]] by auto
  ultimately show ?thesis using assms(1) unfolding pool_destroy_def by (simp add: pool_destroy_loop.simps)
qed

lemma mset_upt_first: "i < n \<Longrightarrow> mset (map f [i..<n]) = add_mset (f i) (mset (map f [Suc i..<n]))"
  by (simp add: upt_conv_Cons del: mset_map)

section \<open>Properties\<close>

text \<open>C20. The whole batch example, for every schedule of its seven threads, down to the atomic accesses of the pool: after the first
half, which delivers its 10000 events, any schedule that does not run into a fault and ends prints 10000 produced and 10000
consumed events, because every push is followed by one call, although \<open>running\<close> and \<open>empty()\<close> are read apart
and the pool is not made for four acquiring threads. Each of the 10000 calls is for one of the events.\<close>

theorem batch_program_counts:
  assumes size: "\<And>i t. length (bytesEvent i t) = 16"
  shows "\<exists>q. batch_example bytesEvent = ret (q, 0, 10000) \<and>
    (\<forall>as s. batch_program_steps bytesEvent (batch_program_start q 0) as = ret s \<and> v_main s = Printed \<longrightarrow>
       v_produced s = 10000 \<and> batch_counted_since (log (b_world q)) (n_queue (v_sys s)) = 10000 \<and>
       (\<exists>new. log (b_world (n_queue (v_sys s))) = log (b_world q) @ new \<and> length new = 10000 \<and>
          set new \<subseteq> event_call bytesEvent ` {..<2500}))"
proof -
  obtain q where q: "batch_example bytesEvent = ret (q, 0, 10000)" "batch_ready bytesEvent q" using batch_example_ok [of bytesEvent] size by blast
  note start = batch_ready_start(1,2) [OF size q(2)]
  have "batch_queue_inv bytesEvent (log (b_world q)) s \<and> batch_control_inv s"
    if "batch_program_steps bytesEvent (batch_program_start q 0) as = ret s" for as s
    using batch_program_steps_inv [OF size start that] .
  with q(1) batch_program_end show ?thesis by blast
qed

text \<open>C19. In the same program the pool is shared by four acquiring threads, and events get lost. There is a schedule without any fault that
ends and prints 10000 produced and 10000 consumed events, in which the event 1 of one producer is never delivered and the event 0
of another is delivered twice; the free list is then a cycle, so that destroying the pool reads a node that it has
deleted.\<close>

theorem batch_program_loses_event:
  assumes size: "\<And>i t. length (bytesEvent i t) = 16"
  shows "\<exists>q as s new. batch_example bytesEvent = ret (q, 0, 10000) \<and>
    batch_program_steps bytesEvent (batch_program_start q 0) as = ret s \<and> v_main s = Printed \<and>
    v_produced s = 10000 \<and> batch_counted_since (log (b_world q)) (n_queue (v_sys s)) = 10000 \<and>
    log (b_world (n_queue (v_sys s))) = log (b_world q) @ new \<and>
    mset new + {#event_call bytesEvent 1#} =
      mset (concat (replicate 4 (map (event_call bytesEvent) [0..<2500]))) + {#event_call bytesEvent 0#} \<and>
    pool_destroy (b_messagePool (n_queue (v_sys s))) = Some (Inl UseAfterFree)"
proof -
  let ?c = "event_call bytesEvent"
  obtain q where q: "batch_example bytesEvent = ret (q, 0, 10000)" "batch_ready bytesEvent q" using batch_example_ok [of bytesEvent] size by blast
  obtain a x c A where ax: "a \<noteq> x" "A \<le> 16384"
    and start: "shadows bytesEvent (log (b_world q)) (batch_program_start q 0) (race_start a x c A)" using batch_ready_start(3) [OF size q(2)] by blast
  obtain as sh i where run: "shadow_steps (race_start a x c A) as = Some sh" "sh_main sh = Printed"
    "sh_log sh = [0, 0, 0, 0] @ [1..<2500] @ [2..<2500] @ [1..<2500] @ [0..<2500]"
    "sh_pool sh = race_pool a x A \<lparr>nd_data = Some i, nd_next = Some x\<rparr> \<lparr>nd_data = Some 0, nd_next = Some a\<rparr> (Some x)"
    using race_run [OF ax, of c] by blast
  from shadows_steps [OF size start run(1)] obtain s
    where s: "batch_program_steps bytesEvent (batch_program_start q 0) as = ret s" "shadows bytesEvent (log (b_world q)) s sh" by blast
  note S = shadowsD [OF s(2)] and Q = shadowsD(3) [OF s(2), unfolded shadows_queue_def]
  have printed: "v_main s = Printed" using S(7) run(2) by simp
  have "pool_destroy (b_messagePool (n_queue (v_sys s))) = Some (Inl UseAfterFree)"
    using cyclic_pool_destroy [OF ax(1)] Q run(4) by metis
  moreover have "mset (map ?c (sh_log sh)) + {#?c 1#} = mset (concat (replicate 4 (map ?c [0..<2500]))) + {#?c 0#}"
  proof -
    have "mset (map ?c [0..<2500]) = add_mset (?c 0) (mset (map ?c [1..<2500]))"
      "mset (map ?c [1..<2500]) = add_mset (?c 1) (mset (map ?c [2..<2500]))"
      using mset_upt_first [of 0 2500 ?c] mset_upt_first [of 1 2500 ?c] by (simp_all add: numeral_2_eq_2 del: mset_map)
    then show ?thesis by (simp add: run(3) replicate_step del: mset_map)
  qed
  moreover note batch_program_end [OF S(1,2) printed]
  ultimately show ?thesis using q(1) s(1) printed Q by blast
qed

theorem batch_program_counts_witness:
  "\<exists>q. batch_example (\<lambda>i t. replicate 16 (ucast i)) = ret (q, 0, 10000) \<and>
    (\<forall>as s. batch_program_steps (\<lambda>i t. replicate 16 (ucast i)) (batch_program_start q 0) as = ret s \<and> v_main s = Printed \<longrightarrow> v_produced s = 10000)"
  using batch_program_counts [of "\<lambda>i t. replicate 16 (ucast i)"] by (simp only: length_replicate) blast

theorem batch_program_loses_event_witness:
  "\<exists>q as s. batch_example (\<lambda>i t. replicate 16 (ucast i)) = ret (q, 0, 10000) \<and>
    batch_program_steps (\<lambda>i t. replicate 16 (ucast i)) (batch_program_start q 0) as = ret s \<and> v_produced s = 10000 \<and>
    pool_destroy (b_messagePool (n_queue (v_sys s))) = Some (Inl UseAfterFree)"
  using batch_program_loses_event [of "\<lambda>i t. replicate 16 (ucast i)"] by (simp only: length_replicate) blast

end
