(* ===== verification/Example_Emulator.thy ===== *)
theory Example_Emulator
  imports Queue_Emulator
begin

text \<open>
  Two programs on \<open>EventQueueEmulator\<close>: \<open>src/examples/emulator_queue/main.cpp\<close> (the part that one
  thread runs) and \<open>src/examples/turbo_benchmark/main.cpp\<close> (one test, without its measurements of
  time). Their callbacks count; here the counters are computed from the log of the calls. How
  an integer lies in memory is a parameter, of which only the size is used, and so are the
  bytes of a local array that is posted uninitialised. The second half of the first program, an
  emulator and a dispatcher thread, is in \<open>Example_Emulator_Threads\<close>.
\<close>

section \<open>The programs\<close>

text \<open>The callbacks, as addresses of functions, and what they do.\<close>

definition onVBlank :: nat where "onVBlank = 1"
definition onAudio :: nat where "onAudio = 2"
definition onTrace :: nat where "onTrace = 3"

record emu_counts =
  vblankCount :: int
  audioCount :: int
  traceCount :: int

fun emu_callback :: "delivery \<Rightarrow> emu_counts \<Rightarrow> emu_counts" where
  "emu_callback (Call f tid dat sz ud) c =
     (if f = onVBlank then c\<lparr>vblankCount := vblankCount c + 1\<rparr>
      else if f = onAudio then c\<lparr>audioCount := audioCount c + 1\<rparr>
      else if f = onTrace then c\<lparr>traceCount := traceCount c + 1\<rparr>
      else c)"

definition emu_counted :: "emu_queue \<Rightarrow> emu_counts" where
  "emu_counted q = fold emu_callback (emu_log q) \<lparr>vblankCount = 0, audioCount = 0, traceCount = 0\<rparr>"

text \<open>Three topics, each with the one observer that is given for it.\<close>

definition emu_setup :: "nat \<Rightarrow> nat \<Rightarrow> nat \<Rightarrow> emu_queue \<Rightarrow> emu_queue \<times> u16 \<times> u16 \<times> u16" where
  "emu_setup f1 f2 f3 q =
     (let (q, vblank) = emu_registerTopic q Critical; (q, audio) = emu_registerTopic q Critical;
          (q, trace) = emu_registerTopic q Normal;
          (q, _) = emu_addObserver q vblank (Some f1) 0; (q, _) = emu_addObserver q audio (Some f2) 0;
          (q, _) = emu_addObserver q trace (Some f3) 0 in
      (q, vblank, audio, trace))"

definition emu_example_frame ::
  "(u32 \<Rightarrow> u8 list) \<Rightarrow> (u16 \<Rightarrow> u8 list) \<Rightarrow> (nat \<Rightarrow> nat \<Rightarrow> u8 list) \<Rightarrow> u16 \<Rightarrow> u16 \<Rightarrow> u16 \<Rightarrow> nat \<Rightarrow> emu_queue \<Rightarrow> emu_queue run" where
  "emu_example_frame bytes32 bytes16 garbage vblank audio trace frame q =
     rbind (ignore (emu_postFast q vblank (Some (bytes32 (of_nat frame))) 4)) (\<lambda>q.
       rbind (for_loop (\<lambda>a q. ignore (emu_postFast q audio (Some (bytes16 (of_nat a))) 2)) 0 12 q) (\<lambda>q.
         rbind (for_loop (\<lambda>t q. ignore (emu_postBulk q trace (Some (garbage frame t)) 32)) 0 100 q) (\<lambda>q.
           ignore (emu_dispatchPriority q))))"

definition emu_example ::
  "(u32 \<Rightarrow> u8 list) \<Rightarrow> (u16 \<Rightarrow> u8 list) \<Rightarrow> (nat \<Rightarrow> nat \<Rightarrow> u8 list) \<Rightarrow> (emu_queue \<times> u16 \<times> u16 \<times> u16) run" where
  "emu_example bytes32 bytes16 garbage =
     rbind (Some (emu_new 4096 16384)) (\<lambda>q.
       let (q, vblank, audio, trace) = emu_setup onVBlank onAudio onTrace q in
       rbind (for_loop (emu_example_frame bytes32 bytes16 garbage vblank audio trace) 0 60 q) (\<lambda>q.
         rbind (ignore (emu_dispatchAll q)) (\<lambda>q. ret (q, vblank, audio, trace))))"

text \<open>The benchmark: two counters, and one frame and one test.\<close>

definition onCritical :: nat where "onCritical = 4"
definition onBulk :: nat where "onBulk = 5"

record turbo_counts =
  criticalCount :: int
  bulkCount :: int

fun turbo_callback :: "delivery \<Rightarrow> turbo_counts \<Rightarrow> turbo_counts" where
  "turbo_callback (Call f tid dat sz ud) c =
     (if f = onCritical then c\<lparr>criticalCount := criticalCount c + 1\<rparr>
      else if f = onBulk then c\<lparr>bulkCount := bulkCount c + 1\<rparr>
      else c)"

definition turbo_counted :: "emu_queue \<Rightarrow> turbo_counts" where
  "turbo_counted q = fold turbo_callback (emu_log q) \<lparr>criticalCount = 0, bulkCount = 0\<rparr>"

definition turbo_frame :: "nat \<Rightarrow> u16 \<Rightarrow> u16 \<Rightarrow> u16 \<Rightarrow> emu_queue \<Rightarrow> emu_queue run" where
  "turbo_frame tracesPerFrame vblank audio trace q =
     (let payload = Some (replicate 32 0) in
      rbind (ignore (emu_postFast q vblank payload 8)) (\<lambda>q.
        rbind (for_loop (\<lambda>a q. ignore (emu_postFast q audio payload 16)) 0 12 q) (\<lambda>q.
          rbind (for_loop (\<lambda>t q. ignore (emu_postBulk q trace payload 32)) 0 tracesPerFrame q) (\<lambda>q.
            ignore (emu_dispatchAll q)))))"

definition turbo_runTest :: "nat \<Rightarrow> emu_queue run" where
  "turbo_runTest tracesPerFrame =
     rbind (Some (emu_new 8192 65536)) (\<lambda>q.
       let (q, vblank, audio, trace) = emu_setup onCritical onCritical onBulk q in
       for_loop (\<lambda>frame. turbo_frame tracesPerFrame vblank audio trace) 0 10000 q)"

section \<open>The state between two statements\<close>

declare topic_calls.simps [simp del] upt_rec_numeral [simp del]

lemma topics_3 [simp]: "(0 :: u16) < EMU_MAX_TOPICS" "(1 :: u16) < EMU_MAX_TOPICS" "(2 :: u16) < EMU_MAX_TOPICS"
  "EMU_MAX_TOPICS \<noteq> 0" "\<not> EMU_MAX_TOPICS \<le> 0" "\<not> EMU_MAX_TOPICS \<le> 1" "\<not> EMU_MAX_TOPICS \<le> 2"
  by (simp_all add: EMU_MAX_TOPICS_def word_le_nat_alt)

text \<open>
  A well-formed queue with given topics, capacities, lanes and log, and at least so much room
  for further pushes.
\<close>

definition emu_at :: "topic_table \<Rightarrow> nat \<Rightarrow> nat \<Rightarrow> nat \<Rightarrow> nat \<Rightarrow> delivery list list \<Rightarrow> delivery list list \<Rightarrow> delivery list \<Rightarrow> emu_queue \<Rightarrow> bool" where
  "emu_at ts C D R S F B l q \<longleftrightarrow> emu_ok q \<and> e_topics q = ts \<and> capacity (e_fastQueue q) = C \<and> capacity (e_bulkQueue q) = D \<and>
     R \<le> push_room (e_fastQueue q) \<and> S \<le> push_room (e_bulkQueue q) \<and> emu_fast q = F \<and> emu_bulk q = B \<and> emu_log q = l"

lemma at_postFast:
  assumes at: "emu_at ts C D R S F B l q" and "topic < EMU_MAX_TOPICS" "buffer_ok dat sz" "sz \<le> EMU_INLINE_MAX"
    and "length F < C" and "0 < R"
  shows "\<exists>q'. ignore (emu_postFast q topic dat sz) = ret q' \<and> emu_at ts C D (R - 1) S (F @ topic_calls ts (topic, dat, sz)) B l q'"
proof -
  have ok: "emu_ok q" "length (emu_fast q) < capacity (e_fastQueue q)" "0 < push_room (e_fastQueue q)"
    using at assms(5,6) by (auto simp: emu_at_def)
  from emu_postFast_ok [OF ok(1) assms(2-4) ok(2,3)] obtain q' where q': "emu_postFast q topic dat sz = ret (q', True)" "emu_ok q'"
    "emu_log q' = emu_log q" "emu_fast q' = emu_fast q @ topic_calls (e_topics q) (topic, dat, sz)" "emu_bulk q' = emu_bulk q"
    "e_topics q' = e_topics q" "e_bulkQueue q' = e_bulkQueue q" "capacity (e_fastQueue q') = capacity (e_fastQueue q)"
    "push_room (e_fastQueue q) \<le> push_room (e_fastQueue q') + 1" by blast
  then show ?thesis using at by (auto simp: emu_at_def)
qed

lemma at_postBulk:
  assumes at: "emu_at ts C D R S F B l q" and "topic < EMU_MAX_TOPICS" "buffer_ok dat sz"
    and "length B < D" and "0 < S"
  shows "\<exists>q'. ignore (emu_postBulk q topic dat sz) = ret q' \<and> emu_at ts C D R (S - 1) F (B @ topic_calls ts (topic, dat, sz)) l q'"
proof -
  have ok: "emu_ok q" "length (emu_bulk q) < capacity (e_bulkQueue q)" "0 < push_room (e_bulkQueue q)"
    using at assms(4,5) unfolding emu_at_def by (metis, metis, linarith)
  from emu_postBulk_ok [OF ok(1) assms(2,3) ok(2,3)] obtain q' where q': "emu_postBulk q topic dat sz = ret (q', True)" "emu_ok q'"
    "emu_log q' = emu_log q" "emu_bulk q' = emu_bulk q @ topic_calls (e_topics q) (topic, dat, sz)" "emu_fast q' = emu_fast q"
    "e_topics q' = e_topics q" "e_fastQueue q' = e_fastQueue q" "capacity (e_bulkQueue q') = capacity (e_bulkQueue q)"
    "push_room (e_bulkQueue q) \<le> push_room (e_bulkQueue q') + 1" by blast
  then show ?thesis using at unfolding emu_at_def by (intro exI [of _ q']) (simp, linarith)
qed

text \<open>Loops of posts to one topic, each of which leads to the calls that \<open>c\<close> names.\<close>

lemma at_postFast_loop:
  assumes at: "emu_at ts C D R S F B l q" and "topic < EMU_MAX_TOPICS" and "sz \<le> EMU_INLINE_MAX"
    and buf: "\<And>i. i < n \<Longrightarrow> buffer_ok (dat i) sz" and calls: "\<And>i. i < n \<Longrightarrow> topic_calls ts (topic, dat i, sz) = [c i]"
    and "length F + n \<le> C" and "n \<le> R"
  shows "\<exists>q'. for_loop (\<lambda>i q. ignore (emu_postFast q topic (dat i) sz)) 0 n q = ret q' \<and>
    emu_at ts C D (R - n) S (F @ map c [0..<n]) B l q'"
proof -
  let ?I = "\<lambda>i. emu_at ts C D (R - i) S (F @ map c [0..<i]) B l"
  have "\<exists>q'. for_loop (\<lambda>i q. ignore (emu_postFast q topic (dat i) sz)) 0 n q = ret q' \<and> ?I (0 + n) q'"
  proof (rule for_loop_ok)
    show "\<exists>q'. ignore (emu_postFast s topic (dat j) sz) = ret q' \<and> ?I (Suc j) q'" if "j < 0 + n" "?I j s" for j s
      using at_postFast [OF that(2) assms(2), of "dat j" sz] buf [of j] calls [of j] assms(3,6,7) that(1) by auto
  qed (use at in simp)
  then show ?thesis by simp
qed

lemma at_postBulk_loop:
  assumes at: "emu_at ts C D R S F B l q" and "topic < EMU_MAX_TOPICS"
    and buf: "\<And>i. i < n \<Longrightarrow> buffer_ok (dat i) sz" and calls: "\<And>i. i < n \<Longrightarrow> topic_calls ts (topic, dat i, sz) = [c i]"
    and "length B + n \<le> D" and "n \<le> S"
  shows "\<exists>q'. for_loop (\<lambda>i q. ignore (emu_postBulk q topic (dat i) sz)) 0 n q = ret q' \<and>
    emu_at ts C D R (S - n) F (B @ map c [0..<n]) l q'"
proof -
  let ?I = "\<lambda>i. emu_at ts C D R (S - i) F (B @ map c [0..<i]) l"
  have "\<exists>q'. for_loop (\<lambda>i q. ignore (emu_postBulk q topic (dat i) sz)) 0 n q = ret q' \<and> ?I (0 + n) q'"
  proof (rule for_loop_ok)
    show "\<exists>q'. ignore (emu_postBulk s topic (dat j) sz) = ret q' \<and> ?I (Suc j) q'" if "j < 0 + n" "?I j s" for j s
      using at_postBulk [OF that(2) assms(2), of "dat j" sz] buf [of j] calls [of j] assms(5,6) that(1) by auto
  qed (use at in simp)
  then show ?thesis by simp
qed

lemma at_dispatchAll:
  assumes "emu_at ts C D R S F B l q"
  shows "\<exists>q'. ignore (emu_dispatchAll q) = ret q' \<and> emu_at ts C D R S [] [] (l @ concat F @ concat B) q'"
proof -
  have "emu_ok q" using assms by (simp add: emu_at_def)
  from emu_dispatchAll_ok [OF this] obtain q' where q': "ignore (emu_dispatchAll q) = ret q'" "emu_ok q'" "emu_fast q' = []"
    "emu_bulk q' = []" "emu_frame q' = emu_frame q" "emu_log q' = emu_log q @ concat (emu_fast q) @ concat (emu_bulk q)"
    by auto
  then show ?thesis using assms unfolding emu_at_def emu_frame_def by (intro exI [of _ q']) simp
qed

lemma at_dispatchPriority:
  assumes "emu_at ts C D R S F B l q"
  shows "\<exists>q'. ignore (emu_dispatchPriority q) = ret q' \<and> emu_at ts C D R S [] (tl B) (l @ concat F @ concat (take 1 B)) q'"
proof -
  have "emu_ok q" using assms by (simp add: emu_at_def)
  from emu_dispatchPriority_ok [OF this] obtain q' where q': "ignore (emu_dispatchPriority q) = ret q'" "emu_ok q'" "emu_fast q' = []"
    "emu_bulk q' = tl (emu_bulk q)" "emu_frame q' = emu_frame q" "emu_log q' = emu_log q @ concat (emu_fast q) @ concat (take 1 (emu_bulk q))"
    by auto
  then show ?thesis using assms unfolding emu_at_def emu_frame_def by (intro exI [of _ q']) simp
qed

text \<open>The setup, and the calls that it makes due.\<close>

definition one_call :: "nat \<Rightarrow> u16 \<Rightarrow> u8 list \<Rightarrow> u64 \<Rightarrow> delivery" where
  "one_call f topic bytes sz = Call f topic (Some (map Some (take (unat sz) bytes))) sz 0"

lemma emu_setup_ok:
  assumes "emu_new C D = Inr q" and ok: "emu_ok q" and empty: "emu_fast q = []" "emu_bulk q = []" "emu_log q = []"
    and count: "e_topicCount q = 0" and none: "\<forall>t. e_topics q t = no_observers \<and> e_priority q t = None"
    and "capacity (e_fastQueue q) = C" "capacity (e_bulkQueue q) = D" "R \<le> push_room (e_fastQueue q)" "S \<le> push_room (e_bulkQueue q)"
  shows "\<exists>q' ts. emu_setup f1 f2 f3 q = (q', 0, 1, 2) \<and> emu_at ts C D R S [] [] [] q' \<and>
    (\<forall>bytes sz. topic_calls ts (0, Some bytes, sz) = [[one_call f1 0 bytes sz]] \<and>
       topic_calls ts (1, Some bytes, sz) = [[one_call f2 1 bytes sz]] \<and> topic_calls ts (2, Some bytes, sz) = [[one_call f3 2 bytes sz]])"
proof -
  let ?add = "\<lambda>ts t f. fst (add_observer EMU_MAX_TOPICS EMU_MAX_OBSERVERS ts t (Some f) 0)"
  let ?ts = "?add (?add (?add (e_topics q) 0 f1) 1 f2) 2 f3"
  have add: "topics_ok 8 ts \<Longrightarrow> topics_ok 8 (?add ts t f)" for ts t f
    using add_observer_ok [of EMU_MAX_OBSERVERS ts "Some f" EMU_MAX_TOPICS t 0] by (simp add: EMU_MAX_OBSERVERS_def)
  have topics: "topics_ok 8 ?ts" using emu_okD(4) [OF ok] by (intro add)
  let ?p = "(e_priority q)(0 := Some Critical, 1 := Some Critical, 2 := Some Normal)"
  let ?q = "q\<lparr>e_topicCount := 3, e_priority := ?p, e_topics := ?ts\<rparr>"
  have reg: "emu_registerTopic q p = (q\<lparr>e_topicCount := i + 1, e_priority := (e_priority q)(unat i := Some p)\<rparr>, i)"
    if "e_topicCount q = i" "i < EMU_MAX_TOPICS" for q p i
    using that by (simp add: emu_registerTopic_def Let_def not_le [symmetric])
  have obs: "emu_addObserver q t cb 0 = (q\<lparr>e_topics := fst (add_observer EMU_MAX_TOPICS EMU_MAX_OBSERVERS (e_topics q) t cb 0)\<rparr>,
      snd (add_observer EMU_MAX_TOPICS EMU_MAX_OBSERVERS (e_topics q) t cb 0))" for q t cb
    by (simp add: emu_addObserver_def split_def Let_def)
  have "emu_setup f1 f2 f3 q = (?q, 0, 1, 2)"
    unfolding emu_setup_def by (simp add: reg [where i = 0] reg [where i = 1] reg [where i = 2] obs count)
  moreover have "emu_at ?ts C D R S [] [] [] ?q"
    using assms topics by (simp add: emu_at_def emu_ok_def emu_fast_def)
  moreover have "topic_calls ?ts (0, Some bytes, sz) = [[one_call f1 0 bytes sz]] \<and>
       topic_calls ?ts (1, Some bytes, sz) = [[one_call f2 1 bytes sz]] \<and> topic_calls ?ts (2, Some bytes, sz) = [[one_call f3 2 bytes sz]]"
    for bytes sz
    using none by (simp add: add_observer_def EMU_MAX_OBSERVERS_def no_observers_def expected_calls_def
        expected_def buffer_bytes_def one_call_def topic_calls.simps)
  ultimately show ?thesis by blast
qed

text \<open>A new queue, set up.\<close>

definition set_up :: "nat \<Rightarrow> nat \<Rightarrow> nat \<Rightarrow> topic_table \<Rightarrow> bool" where
  "set_up f1 f2 f3 ts \<longleftrightarrow> (\<forall>bytes sz. topic_calls ts (0, Some bytes, sz) = [[one_call f1 0 bytes sz]] \<and>
     topic_calls ts (1, Some bytes, sz) = [[one_call f2 1 bytes sz]] \<and> topic_calls ts (2, Some bytes, sz) = [[one_call f3 2 bytes sz]])"

lemma set_upD:
  assumes "set_up f1 f2 f3 ts"
  shows "topic_calls ts (0, Some bytes, sz) = [[one_call f1 0 bytes sz]]" "topic_calls ts (1, Some bytes, sz) = [[one_call f2 1 bytes sz]]"
    "topic_calls ts (2, Some bytes, sz) = [[one_call f3 2 bytes sz]]"
  using assms by (simp_all add: set_up_def)

lemma emu_start:
  assumes "C = 2 ^ k" "1 \<le> k" "k \<le> 61" "D = 2 ^ l" "1 \<le> l" "l \<le> 61" and "R \<le> 2 ^ 63 - 1 - C" and "S \<le> 2 ^ 63 - 1 - D"
  shows "\<exists>q q0 ts. emu_new C D = Inr q \<and> emu_setup f1 f2 f3 q = (q0, 0, 1, 2) \<and> emu_at ts C D R S [] [] [] q0 \<and> set_up f1 f2 f3 ts"
proof -
  obtain q where q: "emu_new C D = Inr q" "emu_ok q" "emu_fast q = []" "emu_bulk q = []" "emu_log q = []" "e_topicCount q = 0"
    "\<forall>t. e_topics q t = no_observers \<and> e_priority q t = None" "capacity (e_fastQueue q) = C" "capacity (e_bulkQueue q) = D"
    "push_room (e_fastQueue q) = 2 ^ 63 - 1 - C" "push_room (e_bulkQueue q) = 2 ^ 63 - 1 - D"
    using emu_new_ok [OF assms(1-6)] by blast
  with assms(7,8) emu_setup_ok [OF q(1-9), of R S f1 f2 f3] show ?thesis by (auto simp: set_up_def)
qed

lemma buffer_ok_bytes: "unat sz \<le> length bytes \<Longrightarrow> buffer_ok (Some bytes) sz"
  by (simp add: buffer_ok_def buffer_bytes_def)

text \<open>Adding up what the callbacks count.\<close>

definition add_counts :: "emu_counts \<Rightarrow> int \<Rightarrow> int \<Rightarrow> int \<Rightarrow> emu_counts" where
  "add_counts c v a t = \<lparr>vblankCount = vblankCount c + v, audioCount = audioCount c + a, traceCount = traceCount c + t\<rparr>"

lemma emu_callback_one [simp]:
  "emu_callback (one_call onVBlank topic bytes sz) c = add_counts c 1 0 0"
  "emu_callback (one_call onAudio topic bytes sz) c = add_counts c 0 1 0"
  "emu_callback (one_call onTrace topic bytes sz) c = add_counts c 0 0 1"
  by (simp_all add: one_call_def add_counts_def onVBlank_def onAudio_def onTrace_def)

lemma add_counts_add [simp]:
  "add_counts (add_counts c v a t) v' a' t' = add_counts c (v + v') (a + a') (t + t')" "add_counts c 0 0 0 = c"
  by (simp_all add: add_counts_def)

lemma fold_counts:
  assumes "\<And>x c. x \<in> set xs \<Longrightarrow> fold emu_callback (g x) c = add_counts c v a t"
  shows "fold emu_callback (concat (map g xs)) c = add_counts c (int (length xs) * v) (int (length xs) * a) (int (length xs) * t)"
  using assms
proof (induction xs arbitrary: c)
  case (Cons x xs)
  then have "fold emu_callback (g x) c = add_counts c v a t" by simp
  with Cons show ?case by (simp add: algebra_simps)
qed simp

section \<open>The example\<close>

text \<open>What one frame of the example delivers: its critical events, and the oldest trace of all.\<close>

definition trace_call :: "(nat \<Rightarrow> nat \<Rightarrow> u8 list) \<Rightarrow> nat \<Rightarrow> delivery" where
  "trace_call garbage i = one_call onTrace 2 (garbage (i div 100) (i mod 100)) 32"

definition frame_calls :: "(u32 \<Rightarrow> u8 list) \<Rightarrow> (u16 \<Rightarrow> u8 list) \<Rightarrow> (nat \<Rightarrow> nat \<Rightarrow> u8 list) \<Rightarrow> nat \<Rightarrow> delivery list" where
  "frame_calls bytes32 bytes16 garbage f =
     one_call onVBlank 0 (bytes32 (of_nat f)) 4 # map (\<lambda>a. one_call onAudio 1 (bytes16 (of_nat a)) 2) [0..<12] @
     [trace_call garbage f]"

lemma emu_example_frame_ok:
  assumes sizes: "\<And>x. length (bytes32 x) = 4" "\<And>x. length (bytes16 x) = 2" "\<And>i j. length (garbage i j) = 32"
    and calls: "\<And>bytes sz. topic_calls ts (0, Some bytes, sz) = [[one_call onVBlank 0 bytes sz]]"
      "\<And>bytes sz. topic_calls ts (1, Some bytes, sz) = [[one_call onAudio 1 bytes sz]]"
      "\<And>bytes sz. topic_calls ts (2, Some bytes, sz) = [[one_call onTrace 2 bytes sz]]"
    and at: "emu_at ts 4096 16384 R S [] (map (\<lambda>i. [trace_call garbage i]) [f..<100 * f]) l q" and f: "f < 60" and "13 \<le> R" "100 \<le> S"
  shows "\<exists>q'. emu_example_frame bytes32 bytes16 garbage 0 1 2 f q = ret q' \<and>
    emu_at ts 4096 16384 (R - 13) (S - 100) [] (map (\<lambda>i. [trace_call garbage i]) [Suc f..<100 * Suc f])
      (l @ frame_calls bytes32 bytes16 garbage f) q'"
proof -
  let ?v = "one_call onVBlank 0 (bytes32 (of_nat f)) 4"
  let ?a = "\<lambda>a. one_call onAudio 1 (bytes16 (of_nat a)) 2"
  let ?t = "trace_call garbage"
  let ?B = "map (\<lambda>i. [?t i]) [f..<100 * f]"
  have buf: "buffer_ok (Some (bytes32 x)) 4" "buffer_ok (Some (bytes16 y)) 2" "buffer_ok (Some (garbage i j)) 32" for x y i j
    by (rule buffer_ok_bytes; simp add: sizes)+
  have small: "(4 :: u64) \<le> EMU_INLINE_MAX" "(2 :: u64) \<le> EMU_INLINE_MAX" by (simp_all add: EMU_INLINE_MAX_def)
  obtain q1 where q1: "ignore (emu_postFast q 0 (Some (bytes32 (of_nat f))) 4) = ret q1"
    "emu_at ts 4096 16384 (R - 1) S [[?v]] ?B l q1"
    using at_postFast [OF at topics_3(1) buf(1) [of "of_nat f"] small(1)] assms(9) unfolding calls(1) by auto
  have R: "12 \<le> R - 1" using assms(9) by simp
  obtain q2 where q2: "for_loop (\<lambda>a q. ignore (emu_postFast q 1 (Some (bytes16 (of_nat a))) 2)) 0 12 q1 = ret q2"
    "emu_at ts 4096 16384 (R - 1 - 12) S ([[?v]] @ map (\<lambda>a. [?a a]) [0..<12]) ?B l q2"
    using at_postFast_loop [OF q1(2), of 1 2 12 "\<lambda>a. Some (bytes16 (of_nat a))" "\<lambda>a. [?a a]"] buf(2) small(2) calls(2) R by auto
  have "topic_calls ts (2, Some (garbage f i), 32) = [[?t (100 * f + i)]]" if "i < 100" for i
    using calls(3) [of "garbage f i" 32] that by (simp add: trace_call_def)
  with at_postBulk_loop [OF q2(2), of 2 100 "\<lambda>t. Some (garbage f t)" 32 "\<lambda>t. [?t (100 * f + t)]"] buf(3) assms(8,10)
  obtain q3 where q3: "for_loop (\<lambda>t q. ignore (emu_postBulk q 2 (Some (garbage f t)) 32)) 0 100 q2 = ret q3"
    "emu_at ts 4096 16384 (R - 1 - 12) (S - 100) ([[?v]] @ map (\<lambda>a. [?a a]) [0..<12]) (?B @ map (\<lambda>t. [?t (100 * f + t)]) [0..<100]) l q3"
    by auto
  have "map (\<lambda>t. [?t (100 * f + t)]) [0..<100] = map (\<lambda>i. [?t i]) [100 * f..<100 * f + 100]"
    by (rule nth_equalityI) simp_all
  moreover have "[f..<100 * f] @ [100 * f..<100 * f + 100] = f # [Suc f..<100 * Suc f]"
    using upt_add_eq_append [of f "100 * f" 100] upt_conv_Cons [of f "100 * f + 100"] by (simp add: add.commute)
  ultimately have B: "?B @ map (\<lambda>t. [?t (100 * f + t)]) [0..<100] = map (\<lambda>i. [?t i]) (f # [Suc f..<100 * Suc f])"
    by (metis map_append)
  have F: "concat ([[?v]] @ map (\<lambda>a. [?a a]) [0..<12]) = ?v # map ?a [0..<12]" by (simp add: concat_map_singleton)
  obtain q4 where "ignore (emu_dispatchPriority q3) = ret q4"
    "emu_at ts 4096 16384 (R - 13) (S - 100) [] (map (\<lambda>i. [?t i]) [Suc f..<100 * Suc f]) (l @ frame_calls bytes32 bytes16 garbage f) q4"
    using at_dispatchPriority [OF q3(2)] unfolding B F by (auto simp: frame_calls_def)
  then show ?thesis using q1(1) q2(1) q3(1) by (auto simp: emu_example_frame_def)
qed

text \<open>The single-threaded half of the emulator example returns. In each of its 60 frames the
vertical blank and the twelve audio events of the frame reach their observers, in this order, before
the one oldest trace event; the traces of all frames come in the order they were posted, the other
5940 of them after the loop. The counters end at 60, 720 and 6000, and no payload is left.\<close>

lemma emu_example_ok:
  assumes sizes: "\<And>x. length (bytes32 x) = 4" "\<And>x. length (bytes16 x) = 2" "\<And>i j. length (garbage i j) = 32"
  shows "\<exists>q ts. emu_example bytes32 bytes16 garbage = ret (q, 0, 1, 2) \<and> emu_at ts 4096 16384 50000 50000 [] [] (emu_log q) q \<and>
    set_up onVBlank onAudio onTrace ts \<and> emu_log q = concat (map (frame_calls bytes32 bytes16 garbage) [0..<60]) @ map (trace_call garbage) [60..<6000] \<and>
    emu_counted q = \<lparr>vblankCount = 60, audioCount = 720, traceCount = 6000\<rparr> \<and> live (rc_heap (e_world q)) = {}"
proof -
  let ?t = "trace_call garbage" and ?F = "frame_calls bytes32 bytes16 garbage"
  let ?B = "\<lambda>f. map (\<lambda>i. [?t i]) [f..<100 * f]"
  obtain q q0 ts where q0: "emu_new 4096 16384 = Inr q" "emu_setup onVBlank onAudio onTrace q = (q0, 0, 1, 2)"
    "emu_at ts 4096 16384 60000 60000 [] [] [] q0" and calls: "set_up onVBlank onAudio onTrace ts"
    using emu_start [of 4096 12 16384 14 60000 60000 onVBlank onAudio onTrace] by auto
  let ?I = "\<lambda>f. emu_at ts 4096 16384 (60000 - 13 * f) (60000 - 100 * f) [] (?B f) (concat (map ?F [0..<f]))"
  have "\<exists>q1. for_loop (emu_example_frame bytes32 bytes16 garbage 0 1 2) 0 60 q0 = ret q1 \<and> ?I (0 + 60) q1"
  proof (rule for_loop_ok)
    fix j s
    assume j: "j < 0 + 60" and I: "?I j s"
    have room: "13 \<le> 60000 - 13 * j" "100 \<le> 60000 - 100 * j" "j < 60" using j by linarith+
    have next_room: "60000 - 13 * j - 13 = 60000 - 13 * Suc j" "60000 - 100 * j - 100 = 60000 - 100 * Suc j" by presburger+
    have "concat (map ?F [0..<Suc j]) = concat (map ?F [0..<j]) @ ?F j" by (simp only: upt_Suc) simp
    with emu_example_frame_ok [OF sizes set_upD [OF calls] I room(3,1,2)]
    show "\<exists>s'. emu_example_frame bytes32 bytes16 garbage 0 1 2 j s = ret s' \<and> ?I (Suc j) s'" by (simp only: next_room)
  qed (use q0(3) in simp)
  then obtain q1 where q1: "for_loop (emu_example_frame bytes32 bytes16 garbage 0 1 2) 0 60 q0 = ret q1" "?I 60 q1" by auto
  obtain q2 where q2: "ignore (emu_dispatchAll q1) = ret q2" "emu_at ts 4096 16384 (60000 - 13 * 60) (60000 - 100 * 60) [] []
      (concat (map ?F [0..<60]) @ concat [] @ concat (?B 60)) q2" using at_dispatchAll [OF q1(2)] by blast
  have counts: "fold emu_callback (?F f) c = add_counts c 1 12 1" for f c
  proof -
    have "fold emu_callback (concat (map (\<lambda>a. [one_call onAudio 1 (bytes16 (of_nat a)) 2]) [0..<12])) c = add_counts c 0 12 0" for c
      by (subst fold_counts [where v = 0 and a = 1 and t = 0]) simp_all
    then show ?thesis by (simp add: frame_calls_def trace_call_def concat_map_singleton)
  qed
  have log: "emu_log q2 = concat (map ?F [0..<60]) @ map ?t [60..<6000]"
    using q2(2) by (simp add: emu_at_def concat_map_singleton)
  have "fold emu_callback (concat (map ?F [0..<60])) c = add_counts c 60 720 60" for c
    by (subst fold_counts [OF counts]) simp
  moreover have "fold emu_callback (concat (map (\<lambda>i. [?t i]) [60..<6000])) c = add_counts c 0 0 5940" for c
    by (subst fold_counts [where v = 0 and a = 0 and t = 1]) (simp_all add: trace_call_def)
  ultimately have "emu_counted q2 = \<lparr>vblankCount = 60, audioCount = 720, traceCount = 6000\<rparr>"
    unfolding emu_counted_def log by (simp add: concat_map_singleton add_counts_def)
  moreover have "emu_ok q2" "emu_bulk q2 = []" using q2(2) by (simp_all only: emu_at_def)
  then have "live (rc_heap (e_world q2)) = {}" using mchan_no_payload emu_okD(3) by blast
  moreover have "emu_example bytes32 bytes16 garbage = ret (q2, 0, 1, 2)" using q0(1,2) q1(1) q2(1) by (simp add: emu_example_def)
  moreover have "emu_at ts 4096 16384 50000 50000 [] [] (emu_log q2) q2" using q2(2) by (auto simp: emu_at_def)
  ultimately show ?thesis using log calls by blast
qed

section \<open>The benchmark\<close>

definition turbo_frame_calls :: "nat \<Rightarrow> delivery list" where
  "turbo_frame_calls n =
     one_call onCritical 0 (replicate 32 0) 8 # replicate 12 (one_call onCritical 1 (replicate 32 0) 16) @
     replicate n (one_call onBulk 2 (replicate 32 0) 32)"

lemma map_const_upt: "map (\<lambda>i. x) [0..<n] = replicate n x"
  by (simp add: map_replicate_const)

lemma turbo_critical_ok:
  assumes calls: "set_up onCritical onCritical onBulk ts" and at: "emu_at ts 8192 65536 R S [] [] l q" and "13 \<le> R"
  shows "\<exists>q1 q2. ignore (emu_postFast q 0 (Some (replicate 32 0)) 8) = ret q1 \<and>
    for_loop (\<lambda>a q. ignore (emu_postFast q 1 (Some (replicate 32 0)) 16)) 0 12 q1 = ret q2 \<and>
    emu_at ts 8192 65536 (R - 13) S
      ([one_call onCritical 0 (replicate 32 0) 8] # map (\<lambda>i. [one_call onCritical 1 (replicate 32 0) 16]) [0..<12]) [] l q2"
proof -
  have buf: "buffer_ok (Some (replicate 32 0)) 8" "buffer_ok (Some (replicate 32 0)) 16" by (rule buffer_ok_bytes; simp)+
  have small: "(8 :: u64) \<le> EMU_INLINE_MAX" "(16 :: u64) \<le> EMU_INLINE_MAX" by (simp_all add: EMU_INLINE_MAX_def)
  obtain q1 where q1: "ignore (emu_postFast q 0 (Some (replicate 32 0)) 8) = ret q1"
    "emu_at ts 8192 65536 (R - 1) S [[one_call onCritical 0 (replicate 32 0) 8]] [] l q1"
    using at_postFast [OF at topics_3(1) buf(1) small(1)] assms(3) unfolding set_upD [OF calls] by auto
  have R: "12 \<le> R - 1" using assms(3) by simp
  from at_postFast_loop [OF q1(2), of 1 16 12 "\<lambda>a. Some (replicate 32 0)" "\<lambda>a. [one_call onCritical 1 (replicate 32 0) 16]"]
    buf(2) small(2) set_upD(2) [OF calls] R q1(1) show ?thesis by auto
qed

lemma turbo_frame_ok:
  assumes calls: "set_up onCritical onCritical onBulk ts" and at: "emu_at ts 8192 65536 R S [] [] l q" and "13 \<le> R"
    and n: "n \<le> 65536" "n \<le> S"
  shows "\<exists>q'. turbo_frame n 0 1 2 q = ret q' \<and> emu_at ts 8192 65536 (R - 13) (S - n) [] [] (l @ turbo_frame_calls n) q'"
proof -
  obtain q1 q2 where q2: "ignore (emu_postFast q 0 (Some (replicate 32 0)) 8) = ret q1"
    "for_loop (\<lambda>a q. ignore (emu_postFast q 1 (Some (replicate 32 0)) 16)) 0 12 q1 = ret q2"
    "emu_at ts 8192 65536 (R - 13) S
      ([one_call onCritical 0 (replicate 32 0) 8] # map (\<lambda>i. [one_call onCritical 1 (replicate 32 0) 16]) [0..<12]) [] l q2"
    using turbo_critical_ok [OF assms(1-3)] by blast
  have buf: "buffer_ok (Some (replicate 32 0)) 32" by (rule buffer_ok_bytes) simp
  from at_postBulk_loop [OF q2(3), of 2 n "\<lambda>a. Some (replicate 32 0)" 32 "\<lambda>a. [one_call onBulk 2 (replicate 32 0) 32]"]
    buf set_upD(3) [OF calls] n
  obtain q3 where q3: "for_loop (\<lambda>t q. ignore (emu_postBulk q 2 (Some (replicate 32 0)) 32)) 0 n q2 = ret q3"
    "emu_at ts 8192 65536 (R - 13) (S - n)
      ([one_call onCritical 0 (replicate 32 0) 8] # map (\<lambda>i. [one_call onCritical 1 (replicate 32 0) 16]) [0..<12])
      ([] @ map (\<lambda>i. [one_call onBulk 2 (replicate 32 0) 32]) [0..<n]) l q3" by auto
  from at_dispatchAll [OF q3(2)] q2(1,2) q3(1) show ?thesis
    by (simp add: turbo_frame_def turbo_frame_calls_def concat_map_singleton map_const_upt)
qed

text \<open>A frame with more traces than the bulk lane holds posts into a full lane that nobody empties.\<close>

lemma for_loop_None: "for_loop body i m s = ret s1 \<Longrightarrow> body (i + m) s1 = None \<Longrightarrow> m < n \<Longrightarrow> for_loop body i n s = None"
  using for_loop_append [of body i m "Suc (n - Suc m)" s] by simp

lemma turbo_frame_hangs:
  assumes calls: "set_up onCritical onCritical onBulk ts" and at: "emu_at ts 8192 65536 R S [] [] l q" and "13 \<le> R"
    and n: "65536 < n" "65536 \<le> S"
  shows "turbo_frame n 0 1 2 q = None"
proof -
  let ?F = "[one_call onCritical 0 (replicate 32 0) 8] # map (\<lambda>i. [one_call onCritical 1 (replicate 32 0) 16]) [0..<12]"
  let ?post = "\<lambda>t q. ignore (emu_postBulk q 2 (Some (replicate 32 0)) 32)"
  obtain q1 q2 where q2: "ignore (emu_postFast q 0 (Some (replicate 32 0)) 8) = ret q1"
    "for_loop (\<lambda>a q. ignore (emu_postFast q 1 (Some (replicate 32 0)) 16)) 0 12 q1 = ret q2"
    "emu_at ts 8192 65536 (R - 13) S ?F [] l q2" using turbo_critical_ok [OF assms(1-3)] by blast
  have buf: "buffer_ok (Some (replicate 32 0)) 32" by (rule buffer_ok_bytes) simp
  from at_postBulk_loop [OF q2(3), of 2 65536 "\<lambda>a. Some (replicate 32 0)" 32 "\<lambda>a. [one_call onBulk 2 (replicate 32 0) 32]"]
    buf set_upD(3) [OF calls] n
  obtain q3 where q3: "for_loop ?post 0 65536 q2 = ret q3"
    "emu_at ts 8192 65536 (R - 13) (S - 65536) ?F ([] @ map (\<lambda>i. [one_call onBulk 2 (replicate 32 0) 32]) [0..<65536]) l q3" by auto
  have ok: "emu_ok q3" "e_topics q3 = ts" "capacity (e_bulkQueue q3) = 65536" using q3(2) by (simp_all add: emu_at_def)
  have "length (emu_bulk q3) = 65536" using q3(2) unfolding emu_at_def by (metis append_Nil diff_zero length_map length_upt)
  then have full: "length (contents (e_bulkQueue q3)) = capacity (e_bulkQueue q3)" using ok(3) by simp
  have "t_count (ts (unat (2 :: u16))) \<noteq> 0" using set_upD(3) [OF calls, of "[]" 0] by (auto simp: topic_calls.simps)
  from send_message_full [OF emu_okD(3,4) [OF ok(1)] buf _ full, of 2] this
  have "emu_postBulk q3 2 (Some (replicate 32 0)) 32 = None" by (simp add: emu_postBulk_def ok(2))
  then have "?post (0 + 65536) q3 = None" by simp
  from for_loop_None [OF q3(1) this n(1)] q2(1,2) show ?thesis by (simp add: turbo_frame_def)
qed

lemma turbo_counts: "fold turbo_callback (turbo_frame_calls n) c = \<lparr>criticalCount = criticalCount c + 13, bulkCount = bulkCount c + int n\<rparr>"
proof -
  have "fold turbo_callback (replicate k (one_call onCritical topic bytes sz)) c = c\<lparr>criticalCount := criticalCount c + int k\<rparr>"
    for k topic bytes sz c by (induction k arbitrary: c) (simp_all add: one_call_def)
  moreover have "fold turbo_callback (replicate k (one_call onBulk topic bytes sz)) c = c\<lparr>bulkCount := bulkCount c + int k\<rparr>"
    for k topic bytes sz c by (induction k arbitrary: c) (simp_all add: one_call_def onBulk_def onCritical_def)
  moreover have "turbo_callback (one_call onCritical 0 (replicate 32 0) 8) c = c\<lparr>criticalCount := criticalCount c + 1\<rparr>" for c
    by (simp add: one_call_def)
  ultimately show ?thesis by (cases c) (simp add: turbo_frame_calls_def)
qed

lemma turbo_counts_frames:
  "fold turbo_callback (concat (map (\<lambda>_. turbo_frame_calls n) [0..<k])) c =
     \<lparr>criticalCount = criticalCount c + 13 * int k, bulkCount = bulkCount c + int k * int n\<rparr>"
  by (induction k) (simp_all add: turbo_counts algebra_simps)

text \<open>One test of the turbo benchmark returns exactly if a frame has at most 65536 traces, the
capacity of the bulk lane; then each of its 10000 frames delivers its 13 critical events and after them
its traces, and the counters end at 130000 and 10000 times the number of traces. With more traces the
posting thread, which is the only one to dispatch, waits for a free slot for ever.\<close>

lemma turbo_spec:
  "if n \<le> 65536
   then \<exists>q. turbo_runTest n = ret q \<and> emu_log q = concat (map (\<lambda>_. turbo_frame_calls n) [0..<10000]) \<and>
     turbo_counted q = \<lparr>criticalCount = 130000, bulkCount = 10000 * int n\<rparr> \<and> emu_fast q = [] \<and> emu_bulk q = []
   else turbo_runTest n = None"
proof -
  let ?S = "10000 * 65536"
  obtain q q0 ts where q0: "emu_new 8192 65536 = Inr q" "emu_setup onCritical onCritical onBulk q = (q0, 0, 1, 2)"
    "emu_at ts 8192 65536 130000 ?S [] [] [] q0" and calls: "set_up onCritical onCritical onBulk ts"
    using emu_start [of 8192 13 65536 16 130000 ?S onCritical onCritical onBulk] by auto
  have run: "turbo_runTest n = for_loop (\<lambda>frame. turbo_frame n 0 1 2) 0 10000 q0" using q0(1,2) by (simp add: turbo_runTest_def)
  show ?thesis
  proof (cases "n \<le> 65536")
    case True
    let ?I = "\<lambda>k. emu_at ts 8192 65536 (130000 - 13 * k) (?S - k * 65536) [] [] (concat (map (\<lambda>_. turbo_frame_calls n) [0..<k]))"
    have "\<exists>q1. for_loop (\<lambda>frame. turbo_frame n 0 1 2) 0 10000 q0 = ret q1 \<and> ?I (0 + 10000) q1"
    proof (rule for_loop_ok)
      fix j s
      assume j: "j < 0 + 10000" and I: "?I j s"
      have room: "13 \<le> 130000 - 13 * j" "n \<le> ?S - j * 65536" using j True by linarith+
      have next_room: "130000 - 13 * j - 13 = 130000 - 13 * Suc j" "?S - Suc j * 65536 \<le> ?S - j * 65536 - n" using True by simp_all
      have "emu_at ts 8192 65536 R S [] [] l q \<Longrightarrow> S' \<le> S \<Longrightarrow> emu_at ts 8192 65536 R S' [] [] l q" for R S S' l q
        by (simp add: emu_at_def)
      from turbo_frame_ok [OF calls I room(1) True room(2)] this [OF _ next_room(2)]
      show "\<exists>s'. turbo_frame n 0 1 2 s = ret s' \<and> ?I (Suc j) s'" unfolding next_room(1) by fastforce
    qed (use q0(3) in simp)
    then obtain q1 where q1: "for_loop (\<lambda>frame. turbo_frame n 0 1 2) 0 10000 q0 = ret q1"
      "emu_log q1 = concat (map (\<lambda>_. turbo_frame_calls n) [0..<10000])" "emu_fast q1 = []" "emu_bulk q1 = []"
      unfolding add_0 emu_at_def by blast
    then have "turbo_counted q1 = \<lparr>criticalCount = 130000, bulkCount = 10000 * int n\<rparr>"
      by (simp add: turbo_counted_def turbo_counts_frames)
    with q1 True show ?thesis by (simp only: run if_True) blast
  next
    case False
    then have "turbo_frame n 0 1 2 q0 = None" using turbo_frame_hangs [OF calls q0(3)] by simp
    then have "for_loop (\<lambda>frame. turbo_frame n 0 1 2) 0 10000 q0 = None"
      using for_loop_None [of "\<lambda>frame. turbo_frame n 0 1 2" 0 0 q0 q0 10000] by simp
    with False show ?thesis by (simp only: run if_False)
  qed
qed

text \<open>The scenarios of the benchmark, and that all of them end.\<close>

definition turbo_scenarios :: "nat list" where
  "turbo_scenarios = [0, 10, 50, 100, 200, 500, 1000]"

lemma turbo_scenarios_end: "\<forall>n \<in> set turbo_scenarios. \<exists>q. turbo_runTest n = ret q"
proof
  fix n
  assume "n \<in> set turbo_scenarios"
  then have "n \<le> 65536" by (auto simp: turbo_scenarios_def)
  then show "\<exists>q. turbo_runTest n = ret q" using turbo_spec [of n] by auto
qed

end
