(* ===== verification/Emulator_Threads.thy ===== *)
theory Emulator_Threads
  imports Queue_Emulator Fast_Threads
begin

text \<open>
  The threads of \<open>EventQueueEmulator\<close>: one thread posts to the two lanes and one dispatches,
  interleaved between the operations on the rings and on the pools, as in \<open>Fast_Threads\<close>. A lane
  is named by the priority of its topics. \<open>dispatchPriority\<close> and \<open>dispatchAll\<close> are what the
  dispatching thread composes of these steps.

  In the abstract machine a lane is a list of messages, and a message the calls it will make.
\<close>

section \<open>Threads\<close>

datatype emu_pc = EIdle | EPopped topic_priority nat | EDelivered topic_priority nat

record emu_sys =
  u_queue :: emu_queue
  u_poster :: "(topic_priority \<times> nat) option"
  u_disp :: emu_pc

datatype emu_action =
    EFill topic_priority u16 buffer u64
  | EPush
  | EPop topic_priority
  | EDeliver
  | ERelease

text \<open>A post that is refused, and one for a topic that nobody observes, takes no further step.\<close>

definition post_refused :: "emu_queue \<Rightarrow> topic_priority \<Rightarrow> u16 \<Rightarrow> u64 \<Rightarrow> bool" where
  "post_refused q lane topic sz \<longleftrightarrow> EMU_MAX_TOPICS \<le> topic \<or> (lane = Critical \<and> EMU_INLINE_MAX < sz)"

fun emu_fill :: "topic_priority \<Rightarrow> u16 \<Rightarrow> buffer \<Rightarrow> u64 \<Rightarrow> emu_queue \<Rightarrow> (emu_queue \<times> nat) outcome" where
  "emu_fill Critical topic dat sz q =
     obind (chan_fill (acquire zero_fast_message) obj_read obj_write (fill_fast (e_topics q) topic dat sz) (e_fastPool q) (e_world q))
       (\<lambda>(p, n, w). Inr (q\<lparr>e_fastPool := p, e_world := w\<rparr>, n))"
| "emu_fill Normal topic dat sz q =
     obind (chan_fill (acquire zero_message) obj_read obj_write (fill_for (e_topics q) topic dat sz) (e_bulkPool q) (e_world q))
       (\<lambda>(p, n, w). Inr (q\<lparr>e_bulkPool := p, e_world := w\<rparr>, n))"

fun emu_ring :: "topic_priority \<Rightarrow> emu_queue \<Rightarrow> nat mpmc" where
  "emu_ring Critical q = e_fastQueue q"
| "emu_ring Normal q = e_bulkQueue q"

fun emu_set_ring :: "topic_priority \<Rightarrow> nat mpmc \<Rightarrow> emu_queue \<Rightarrow> emu_queue" where
  "emu_set_ring Critical r q = q\<lparr>e_fastQueue := r\<rparr>"
| "emu_set_ring Normal r q = q\<lparr>e_bulkQueue := r\<rparr>"

fun emu_deliver :: "topic_priority \<Rightarrow> nat \<Rightarrow> emu_queue \<Rightarrow> emu_queue outcome" where
  "emu_deliver Critical n q =
     obind (deref (obj_read (e_fastPool q) n)) (\<lambda>m.
       obind (deliver_fast (unat EMU_MAX_OBSERVERS) m (e_world q)) (\<lambda>w. Inr (q\<lparr>e_world := w\<rparr>)))"
| "emu_deliver Normal n q =
     obind (deref (obj_read (e_bulkPool q) n)) (\<lambda>m.
       obind (deliver (unat EMU_MAX_OBSERVERS) m (e_world q)) (\<lambda>w. Inr (q\<lparr>e_world := w\<rparr>)))"

fun emu_release :: "topic_priority \<Rightarrow> nat \<Rightarrow> emu_queue \<Rightarrow> emu_queue outcome" where
  "emu_release Critical n q = obind (release (e_fastPool q) (Some n)) (\<lambda>p. Inr (q\<lparr>e_fastPool := p\<rparr>))"
| "emu_release Normal n q = obind (release (e_bulkPool q) (Some n)) (\<lambda>p. Inr (q\<lparr>e_bulkPool := p\<rparr>))"

text \<open>An action that the thread is not ready for changes nothing.\<close>

fun emu_act :: "emu_action \<Rightarrow> emu_sys \<Rightarrow> emu_sys run" where
  "emu_act (EFill lane topic dat sz) s =
     (let q = u_queue s in
      if u_poster s \<noteq> None \<or> post_refused q lane topic sz \<or> t_count (e_topics q (unat topic)) = 0 then ret s
      else Some (obind (emu_fill lane topic dat sz q) (\<lambda>(q1, n). Inr (s\<lparr>u_queue := q1, u_poster := Some (lane, n)\<rparr>))))"
| "emu_act EPush s =
     (case u_poster s of
        None \<Rightarrow> ret s
      | Some (lane, n) \<Rightarrow>
          rbind (try_push (emu_ring lane (u_queue s)) n) (\<lambda>(r, b).
            ret (s\<lparr>u_queue := emu_set_ring lane r (u_queue s), u_poster := (if b then None else Some (lane, n))\<rparr>)))"
| "emu_act (EPop lane) s =
     (if u_disp s \<noteq> EIdle then ret s
      else
        rbind (try_pop (emu_ring lane (u_queue s))) (\<lambda>(r, x).
          ret (s\<lparr>u_queue := emu_set_ring lane r (u_queue s),
                 u_disp := (case x of None \<Rightarrow> EIdle | Some n \<Rightarrow> EPopped lane n)\<rparr>)))"
| "emu_act EDeliver s =
     (case u_disp s of
        EPopped lane n \<Rightarrow> Some (obind (emu_deliver lane n (u_queue s)) (\<lambda>q. Inr (s\<lparr>u_queue := q, u_disp := EDelivered lane n\<rparr>)))
      | _ \<Rightarrow> ret s)"
| "emu_act ERelease s =
     (case u_disp s of
        EDelivered lane n \<Rightarrow> Some (obind (emu_release lane n (u_queue s)) (\<lambda>q. Inr (s\<lparr>u_queue := q, u_disp := EIdle\<rparr>)))
      | _ \<Rightarrow> ret s)"

definition emu_threads :: "emu_queue \<Rightarrow> emu_sys" where
  "emu_threads q = \<lparr>u_queue = q, u_poster = None, u_disp = EIdle\<rparr>"

section \<open>The abstract machine\<close>

datatype lane_pc = LIdle | LPopped topic_priority "delivery list" | LDelivered

record emu_abs =
  l_topics :: topic_table
  l_lane :: "topic_priority \<Rightarrow> delivery list list"
  l_poster :: "(topic_priority \<times> delivery list) option"
  l_disp :: lane_pc
  l_log :: "delivery list"

fun lane_act :: "(topic_priority \<Rightarrow> nat) \<Rightarrow> emu_action \<Rightarrow> emu_abs \<Rightarrow> emu_abs" where
  "lane_act C (EFill lane topic dat sz) a =
     (if l_poster a \<noteq> None \<or> EMU_MAX_TOPICS \<le> topic \<or> (lane = Critical \<and> EMU_INLINE_MAX < sz) \<or> t_count (l_topics a (unat topic)) = 0
      then a
      else a\<lparr>l_poster := Some (lane, expected_calls (l_topics a) topic dat sz)\<rparr>)"
| "lane_act C EPush a =
     (case l_poster a of
        None \<Rightarrow> a
      | Some (lane, d) \<Rightarrow>
          if length (l_lane a lane) < C lane then a\<lparr>l_lane := (l_lane a)(lane := l_lane a lane @ [d]), l_poster := None\<rparr> else a)"
| "lane_act C (EPop lane) a =
     (if l_disp a \<noteq> LIdle then a
      else case l_lane a lane of [] \<Rightarrow> a | d # ds \<Rightarrow> a\<lparr>l_lane := (l_lane a)(lane := ds), l_disp := LPopped lane d\<rparr>)"
| "lane_act C EDeliver a =
     (case l_disp a of LPopped lane d \<Rightarrow> a\<lparr>l_log := l_log a @ d, l_disp := LDelivered\<rparr> | _ \<Rightarrow> a)"
| "lane_act C ERelease a = (case l_disp a of LDelivered \<Rightarrow> a\<lparr>l_disp := LIdle\<rparr> | _ \<Rightarrow> a)"

text \<open>What the threads stand for.\<close>

fun lane_calls :: "emu_queue \<Rightarrow> topic_priority \<Rightarrow> nat \<Rightarrow> delivery list" where
  "lane_calls q Critical n = fast_deliveries (the (obj_read (e_fastPool q) n))"
| "lane_calls q Normal n = deliveries (rc_heap (e_world q)) (the (obj_read (e_bulkPool q) n))"

definition lane_pc_abs :: "emu_queue \<Rightarrow> emu_pc \<Rightarrow> lane_pc" where
  "lane_pc_abs q pc =
     (case pc of EIdle \<Rightarrow> LIdle | EPopped lane n \<Rightarrow> LPopped lane (lane_calls q lane n) | EDelivered lane n \<Rightarrow> LDelivered)"

definition emu_abs_of :: "emu_sys \<Rightarrow> emu_abs" where
  "emu_abs_of s =
     (let q = u_queue s in
      \<lparr>l_topics = e_topics q, l_lane = (\<lambda>lane. map (lane_calls q lane) (contents (emu_ring lane q))),
       l_poster = map_option (\<lambda>(lane, n). (lane, lane_calls q lane n)) (u_poster s), l_disp = lane_pc_abs q (u_disp s),
       l_log = emu_log q\<rparr>)"

section \<open>Invariant\<close>

text \<open>
  The nodes of a lane that the threads hold, and those with calls due: in the ring, at the
  poster, and popped but not delivered.
\<close>

definition posted_nodes :: "emu_sys \<Rightarrow> topic_priority \<Rightarrow> nat list" where
  "posted_nodes s lane = (case u_poster s of None \<Rightarrow> [] | Some (l, n) \<Rightarrow> if l = lane then [n] else [])"

definition popped_nodes :: "emu_sys \<Rightarrow> topic_priority \<Rightarrow> nat list" where
  "popped_nodes s lane = (case u_disp s of EPopped l n \<Rightarrow> if l = lane then [n] else [] | _ \<Rightarrow> [])"

definition spent_nodes :: "emu_sys \<Rightarrow> topic_priority \<Rightarrow> nat list" where
  "spent_nodes s lane = (case u_disp s of EDelivered l n \<Rightarrow> if l = lane then [n] else [] | _ \<Rightarrow> [])"

definition lane_held :: "emu_sys \<Rightarrow> topic_priority \<Rightarrow> nat list" where
  "lane_held s lane = posted_nodes s lane @ popped_nodes s lane @ spent_nodes s lane"

definition lane_due :: "emu_sys \<Rightarrow> topic_priority \<Rightarrow> nat list" where
  "lane_due s lane = contents (emu_ring lane (u_queue s)) @ posted_nodes s lane @ popped_nodes s lane"

definition esys_inv :: "emu_sys \<Rightarrow> bool" where
  "esys_inv s \<longleftrightarrow>
     (let q = u_queue s in
      ring_chan_ok (e_fastQueue q) (e_fastPool q) (lane_held s Critical) \<and>
      (\<forall>n \<in> set (lane_due s Critical). fast_msg_ok (the (obj_read (e_fastPool q) n))) \<and>
      ring_chan_ok (e_bulkQueue q) (e_bulkPool q) (lane_held s Normal) \<and>
      msgs_ok 8 (rc_heap (e_world q)) (vals obj_read (e_bulkPool q) (lane_due s Normal)) \<and> topics_ok 8 (e_topics q))"

lemma esys_invD:
  assumes "esys_inv s"
  shows "ring_chan_ok (e_fastQueue (u_queue s)) (e_fastPool (u_queue s)) (lane_held s Critical)"
    and "\<And>n. n \<in> set (lane_due s Critical) \<Longrightarrow> fast_msg_ok (the (obj_read (e_fastPool (u_queue s)) n))"
    and "ring_chan_ok (e_bulkQueue (u_queue s)) (e_bulkPool (u_queue s)) (lane_held s Normal)"
    and "msgs_ok 8 (rc_heap (e_world (u_queue s))) (vals obj_read (e_bulkPool (u_queue s)) (lane_due s Normal))"
    and "topics_ok 8 (e_topics (u_queue s))"
  using assms by (simp_all add: esys_inv_def Let_def)

lemma esys_invI:
  assumes "ring_chan_ok (e_fastQueue (u_queue s)) (e_fastPool (u_queue s)) B" "mset B = mset (lane_held s Critical)"
    and "\<And>n. n \<in> set (lane_due s Critical) \<Longrightarrow> fast_msg_ok (the (obj_read (e_fastPool (u_queue s)) n))"
    and "ring_chan_ok (e_bulkQueue (u_queue s)) (e_bulkPool (u_queue s)) B'" "mset B' = mset (lane_held s Normal)"
    and "msgs_ok 8 (rc_heap (e_world (u_queue s))) ms" "mset ms = mset (vals obj_read (e_bulkPool (u_queue s)) (lane_due s Normal))"
    and "topics_ok 8 (e_topics (u_queue s))"
  shows "esys_inv s"
  using chan_ok_perm [OF assms(2,1)] chan_ok_perm [OF assms(5,4)] msgs_ok_perm [OF assms(7,6)] assms(3,8)
  by (simp add: esys_inv_def Let_def)

lemma lane_ring_inv: "esys_inv s \<Longrightarrow> ring_inv (emu_ring lane (u_queue s))"
  by (cases lane) (simp_all add: esys_inv_def chan_ok_def Let_def)

text \<open>A step that leaves the calls due as they were.\<close>

definition same_calls :: "emu_sys \<Rightarrow> emu_queue \<Rightarrow> bool" where
  "same_calls s q' \<longleftrightarrow> (\<forall>lane. \<forall>n \<in> set (lane_due s lane). lane_calls q' lane n = lane_calls (u_queue s) lane n)"

lemma same_callsD:
  assumes "same_calls s q'"
  shows "map (lane_calls q' lane) (contents (emu_ring lane (u_queue s))) = map (lane_calls (u_queue s) lane) (contents (emu_ring lane (u_queue s)))"
    and "u_poster s = Some (lane, n) \<Longrightarrow> lane_calls q' lane n = lane_calls (u_queue s) lane n"
    and "lane_pc_abs q' (u_disp s) = lane_pc_abs (u_queue s) (u_disp s)"
  using assms by (auto simp: same_calls_def lane_due_def posted_nodes_def popped_nodes_def lane_pc_abs_def split: emu_pc.split)

text \<open>What a step of the threads must do.\<close>

definition lane_caps :: "emu_queue \<Rightarrow> topic_priority \<Rightarrow> nat" where
  "lane_caps q lane = capacity (emu_ring lane q)"

definition lane_refines :: "emu_sys \<Rightarrow> emu_action \<Rightarrow> emu_sys \<Rightarrow> bool" where
  "lane_refines s a s' \<longleftrightarrow> esys_inv s' \<and> emu_abs_of s' = lane_act (lane_caps (u_queue s)) a (emu_abs_of s) \<and>
     lane_caps (u_queue s') = lane_caps (u_queue s) \<and>
     (\<forall>lane. push_room (emu_ring lane (u_queue s)) \<le> push_room (emu_ring lane (u_queue s')) + 
       (if a = EPush \<and> l_poster (emu_abs_of s') \<noteq> l_poster (emu_abs_of s) then 1 else 0))"

lemma lane_refines_stutter:
  "esys_inv s \<Longrightarrow> lane_act (lane_caps (u_queue s)) a (emu_abs_of s) = emu_abs_of s \<Longrightarrow> lane_refines s a s"
  by (simp add: lane_refines_def)

lemma lane_refines_room:
  "lane_refines s a s' \<Longrightarrow> push_room (emu_ring lane (u_queue s)) \<le> push_room (emu_ring lane (u_queue s')) +
     (if a = EPush \<and> l_poster (emu_abs_of s') \<noteq> l_poster (emu_abs_of s) then 1 else 0)"
  unfolding lane_refines_def by blast

section \<open>Refinement\<close>

lemma emu_set_ring_simps [simp]:
  "emu_ring l (emu_set_ring lane r q) = (if l = lane then r else emu_ring l q)"
  "e_fastPool (emu_set_ring lane r q) = e_fastPool q" "e_bulkPool (emu_set_ring lane r q) = e_bulkPool q"
  "e_world (emu_set_ring lane r q) = e_world q" "e_topics (emu_set_ring lane r q) = e_topics q"
  by (cases lane; cases l; simp)+

lemma lane_calls_set_ring [simp]: "lane_calls (emu_set_ring lane r q) l n = lane_calls q l n"
  by (cases l) simp_all

lemma same_calls_set_ring: "same_calls s (emu_set_ring lane r (u_queue s))"
  by (simp add: same_calls_def)

lemma lane_pc_set_ring [simp]: "lane_pc_abs (emu_set_ring lane r q) = lane_pc_abs q"
  by (simp add: lane_pc_abs_def fun_eq_iff split: emu_pc.split)

lemma set_ring_same [simp]: "emu_set_ring lane (emu_ring lane q) q = q"
  by (cases lane) simp_all

lemma emu_push_ok:
  assumes inv: "esys_inv s" and room: "\<And>lane. 0 < push_room (emu_ring lane (u_queue s))"
  shows "\<exists>s'. emu_act EPush s = ret s' \<and> lane_refines s EPush s'"
proof (cases "u_poster s")
  case None
  then have "emu_act EPush s = ret s" "lane_act C EPush (emu_abs_of s) = emu_abs_of s" for C by (simp_all add: emu_abs_of_def Let_def)
  then show ?thesis using lane_refines_stutter [OF inv] by blast
next
  case (Some x)
  then obtain lane n where x: "u_poster s = Some (lane, n)" by (cases x) simp
  let ?q = "u_queue s"
  let ?r = "emu_ring lane ?q"
  note D = esys_invD [OF inv] and ring = lane_ring_inv [OF inv, of lane]
  show ?thesis
  proof (cases "length (contents ?r) < capacity ?r")
    case False
    then have "length (contents ?r) = capacity ?r" using length_contents_le [OF ring] by simp
    from try_push_full [OF ring this] have "emu_act EPush s = ret s" using x by simp
    moreover have "lane_act (lane_caps ?q) EPush (emu_abs_of s) = emu_abs_of s"
      using False x by (simp add: emu_abs_of_def Let_def lane_caps_def)
    ultimately show ?thesis using lane_refines_stutter [OF inv] by metis
  next
    case True
    obtain r where r: "try_push ?r n = ret (r, True)" "ring_inv r" "contents r = contents ?r @ [n]"
      "capacity r = capacity ?r" "push_room r = push_room ?r - 1" using try_push_ok [OF ring True room] by blast
    let ?s = "s\<lparr>u_queue := emu_set_ring lane r ?q, u_poster := None\<rparr>"
    have act: "emu_act EPush s = ret ?s" using x r(1) by simp
    have "esys_inv ?s"
      using D r(2,3) x
      by (cases lane) (auto simp: esys_inv_def Let_def lane_held_def lane_due_def posted_nodes_def popped_nodes_def spent_nodes_def
          chan_ok_def insert_commute)
    moreover have "emu_abs_of ?s = lane_act (lane_caps ?q) EPush (emu_abs_of s)"
      using x True r(3) by (auto simp: emu_abs_of_def Let_def lane_caps_def fun_eq_iff)
    moreover have "lane_caps (u_queue ?s) = lane_caps ?q" using r(4) by (simp add: lane_caps_def fun_eq_iff)
    moreover have "l_poster (emu_abs_of ?s) \<noteq> l_poster (emu_abs_of s)" using x by (simp add: emu_abs_of_def Let_def)
    ultimately show ?thesis using act r(5) by (auto simp: lane_refines_def)
  qed
qed

lemma emu_pop_ok:
  assumes inv: "esys_inv s"
  shows "\<exists>s'. emu_act (EPop lane) s = ret s' \<and> lane_refines s (EPop lane) s'"
proof (cases "u_disp s = EIdle")
  case False
  then have "emu_act (EPop lane) s = ret s" "lane_act C (EPop lane) (emu_abs_of s) = emu_abs_of s" for C
    by (simp_all add: emu_abs_of_def Let_def lane_pc_abs_def split: emu_pc.split)
  then show ?thesis using lane_refines_stutter [OF inv] by blast
next
  case idle: True
  let ?q = "u_queue s"
  let ?r = "emu_ring lane ?q"
  note D = esys_invD [OF inv] and ring = lane_ring_inv [OF inv, of lane]
  have pc: "lane_pc_abs ?q (u_disp s) = LIdle" using idle by (simp add: lane_pc_abs_def)
  show ?thesis
  proof (cases "contents ?r")
    case Nil
    from try_pop_empty [OF ring Nil] have "emu_act (EPop lane) s = ret s" using idle by simp
    moreover have "lane_act (lane_caps ?q) (EPop lane) (emu_abs_of s) = emu_abs_of s" using Nil by (simp add: emu_abs_of_def Let_def)
    ultimately show ?thesis using lane_refines_stutter [OF inv] by metis
  next
    case (Cons n ns)
    obtain r where r: "try_pop ?r = ret (r, Some n)" "ring_inv r" "contents r = ns" "capacity r = capacity ?r" "push_room r = push_room ?r"
      using try_pop_ok [OF ring Cons] by blast
    let ?s = "s\<lparr>u_queue := emu_set_ring lane r ?q, u_disp := EPopped lane n\<rparr>"
    have act: "emu_act (EPop lane) s = ret ?s" using idle r(1) by simp
    have nodes: "popped_nodes s l = []" "spent_nodes s l = []" "posted_nodes ?s l = posted_nodes s l"
      "popped_nodes ?s l = (if l = lane then [n] else [])" "spent_nodes ?s l = []" for l
      using idle by (simp_all add: popped_nodes_def spent_nodes_def posted_nodes_def)
    have "esys_inv ?s"
    proof (cases lane)
      case Critical
      have "ring_chan_ok r (e_fastPool ?q) (n # posted_nodes s Critical)"
        using D(1) Cons r(2,3) nodes Critical by (auto simp: lane_held_def chan_ok_def insert_commute)
      then show ?thesis
        using D Critical Cons r(3) nodes
        by (intro esys_invI [where B = "n # posted_nodes s Critical" and B' = "lane_held s Normal"])
          (auto simp: lane_held_def lane_due_def)
    next
      case Normal
      have "ring_chan_ok r (e_bulkPool ?q) (n # posted_nodes s Normal)"
        using D(3) Cons r(2,3) nodes Normal by (auto simp: lane_held_def chan_ok_def insert_commute)
      then show ?thesis
        using D Normal Cons r(3) nodes
        by (intro esys_invI [where B' = "n # posted_nodes s Normal" and B = "lane_held s Critical"])
          (auto simp: lane_held_def lane_due_def)
    qed
    moreover have "emu_abs_of ?s = lane_act (lane_caps ?q) (EPop lane) (emu_abs_of s)"
      using Cons r(3) pc by (auto simp: emu_abs_of_def Let_def fun_eq_iff) (simp_all add: lane_pc_abs_def)
    moreover have "lane_caps (u_queue ?s) = lane_caps ?q" using r(4) by (simp add: lane_caps_def fun_eq_iff)
    ultimately show ?thesis using act r(5) by (auto simp: lane_refines_def)
  qed
qed

lemma lane_abs_frame:
  assumes "same_calls s q'" and "e_topics q' = e_topics (u_queue s)" and "\<And>lane. emu_ring lane q' = emu_ring lane (u_queue s)"
  shows "(\<lambda>lane. map (lane_calls q' lane) (contents (emu_ring lane q'))) = l_lane (emu_abs_of s)"
    and "lane_pc_abs q' (u_disp s) = l_disp (emu_abs_of s)" and "e_topics q' = l_topics (emu_abs_of s)"
    and "map_option (\<lambda>(lane, n). (lane, lane_calls q' lane n)) (u_poster s) = l_poster (emu_abs_of s)"
  using same_callsD [OF assms(1)] assms(2,3) by (auto simp: emu_abs_of_def Let_def fun_eq_iff simp del: map_eq_conv intro: option.map_cong)

lemma post_nodes:
  "posted_nodes (s\<lparr>u_queue := q', u_poster := Some (lane, n)\<rparr>) l = (if l = lane then [n] else [])"
  "popped_nodes (s\<lparr>u_queue := q', u_poster := p\<rparr>) l = popped_nodes s l"
  "spent_nodes (s\<lparr>u_queue := q', u_poster := p\<rparr>) l = spent_nodes s l"
  by (auto simp: posted_nodes_def popped_nodes_def spent_nodes_def)

text \<open>What a filled message is: a node of its lane with the calls of the post, nobody else's changed.\<close>

definition filled_by :: "emu_sys \<Rightarrow> topic_priority \<Rightarrow> u16 \<Rightarrow> buffer \<Rightarrow> u64 \<Rightarrow> emu_queue \<Rightarrow> nat \<Rightarrow> bool" where
  "filled_by s lane topic dat sz q' n \<longleftrightarrow> same_calls s q' \<and>
     lane_calls q' lane n = expected_calls (e_topics (u_queue s)) topic dat sz \<and> e_topics q' = e_topics (u_queue s) \<and>
     emu_log q' = emu_log (u_queue s) \<and> (\<forall>l. emu_ring l q' = emu_ring l (u_queue s)) \<and>
     esys_inv (s\<lparr>u_queue := q', u_poster := Some (lane, n)\<rparr>)"

lemma emu_fill_critical_ok:
  assumes inv: "esys_inv s" and none: "u_poster s = None" and buf: "buffer_ok dat sz" and small: "sz \<le> EMU_INLINE_MAX"
  shows "\<exists>q' n. emu_fill Critical topic dat sz (u_queue s) = Inr (q', n) \<and> filled_by s Critical topic dat sz q' n"
proof -
  let ?q = "u_queue s"
  note D = esys_invD [OF inv]
  have posted: "posted_nodes s l = []" for l using none by (simp add: posted_nodes_def)
  note fill = fill_fast_ok [where topic = topic, OF D(5) buf small]
  let ?mk = "fill_fast (e_topics ?q) topic dat sz" and ?B = "lane_held s Critical"
  have mk: "\<exists>m w1. ?mk old (e_world ?q) = Inr (m, w1)" for old using fill [of old "e_world ?q"] by blast
  from chan.hold_ok [where mk = ?mk and w = "e_world ?q", OF D(1) mk, of zero_fast_message]
  obtain p n w old m where h: "chan_fill (acquire zero_fast_message) obj_read obj_write ?mk (e_fastPool ?q) (e_world ?q) = Inr (p, n, w)"
    "?mk old (e_world ?q) = Inr (m, w)" "ring_chan_ok (e_fastQueue ?q) p (?B @ [n])"
    "ring_msgs (e_fastQueue ?q) p = ring_msgs (e_fastQueue ?q) (e_fastPool ?q)" "vals obj_read p (?B @ [n]) = vals obj_read (e_fastPool ?q) ?B @ [m]" by blast
  have m: "w = e_world ?q" "fast_msg_ok m" "fast_deliveries m = expected_calls (e_topics ?q) topic dat sz"
    using fill [of old "e_world ?q"] h(2) by auto
  have new: "the (obj_read p n) = m" using h(5) by simp
  have same: "the (obj_read p a) = the (obj_read (e_fastPool ?q) a)" if "a \<in> set (lane_due s Critical)" for a
    using that h(4,5) by (auto simp: lane_due_def lane_held_def chan_msgs_def vals_def posted)
  let ?q' = "?q\<lparr>e_fastPool := p, e_world := w\<rparr>"
  let ?s = "s\<lparr>u_queue := ?q', u_poster := Some (Critical, n)\<rparr>"
  have "esys_inv ?s"
  proof (rule esys_invI [where B = "?B @ [n]" and B' = "lane_held s Normal" and ms = "vals obj_read (e_bulkPool ?q) (lane_due s Normal)"])
    show "fast_msg_ok (the (obj_read (e_fastPool (u_queue ?s)) a))" if "a \<in> set (lane_due ?s Critical)" for a
      using that new m(2) D(2) same by (cases "a = n") (auto simp: lane_due_def post_nodes)
  qed (use h(3) D(3-5) m(1) posted in \<open>simp_all add: lane_held_def lane_due_def post_nodes\<close>)
  moreover have "lane_calls ?q' l a = lane_calls ?q l a" if "a \<in> set (lane_due s l)" for l a
    using that same m(1) by (cases l) simp_all
  then have "same_calls s ?q'" by (simp add: same_calls_def)
  moreover have "emu_ring l ?q' = emu_ring l ?q" for l by (cases l) simp_all
  ultimately show ?thesis using h(1) m new by (simp add: filled_by_def)
qed

lemma emu_fill_normal_ok:
  assumes inv: "esys_inv s" and none: "u_poster s = None" and buf: "buffer_ok dat sz"
    and obs: "t_count (e_topics (u_queue s) (unat topic)) \<noteq> 0"
  shows "\<exists>q' n. emu_fill Normal topic dat sz (u_queue s) = Inr (q', n) \<and> filled_by s Normal topic dat sz q' n"
proof -
  let ?q = "u_queue s"
  note D = esys_invD [OF inv]
  have posted: "posted_nodes s l = []" for l using none by (simp add: posted_nodes_def)
  note fill = fill_for_ok [where topic = topic, OF D(4,5) buf obs]
  let ?mk = "fill_for (e_topics ?q) topic dat sz" and ?B = "lane_held s Normal"
  from chan.hold_ok [where mk = ?mk and w = "e_world ?q", OF D(3) fill(1), of zero_message]
  obtain p n w old m where h: "chan_fill (acquire zero_message) obj_read obj_write ?mk (e_bulkPool ?q) (e_world ?q) = Inr (p, n, w)"
    "?mk old (e_world ?q) = Inr (m, w)" "ring_chan_ok (e_bulkQueue ?q) p (?B @ [n])"
    "ring_msgs (e_bulkQueue ?q) p = ring_msgs (e_bulkQueue ?q) (e_bulkPool ?q)" "vals obj_read p (?B @ [n]) = vals obj_read (e_bulkPool ?q) ?B @ [m]" by blast
  note m = fill(2) [OF h(2)]
  have new: "the (obj_read p n) = m" using h(5) by simp
  have same: "the (obj_read p a) = the (obj_read (e_bulkPool ?q) a)" if "a \<in> set (lane_due s Normal)" for a
    using that h(4,5) by (auto simp: lane_due_def lane_held_def chan_msgs_def vals_def posted)
  let ?q' = "?q\<lparr>e_bulkPool := p, e_world := w\<rparr>"
  let ?s = "s\<lparr>u_queue := ?q', u_poster := Some (Normal, n)\<rparr>"
  let ?ms = "vals obj_read (e_bulkPool ?q) (lane_due s Normal)"
  have due: "vals obj_read p (lane_due s Normal) = ?ms" using same by (simp add: vals_def)
  have "esys_inv ?s"
  proof (rule esys_invI [where B = "lane_held s Critical" and B' = "?B @ [n]" and ms = "?ms @ [m]"])
    show "mset (?ms @ [m]) = mset (vals obj_read (e_bulkPool (u_queue ?s)) (lane_due ?s Normal))"
      unfolding due [symmetric] using new posted by (simp add: lane_due_def post_nodes)
  qed (use h(3) D m posted in \<open>simp_all add: lane_held_def lane_due_def post_nodes\<close>)
  moreover have "lane_calls ?q' l a = lane_calls ?q l a" if "a \<in> set (lane_due s l)" for l a
    using that same m by (cases l) (auto simp: vals_def)
  then have "same_calls s ?q'" by (simp add: same_calls_def)
  moreover have "emu_ring l ?q' = emu_ring l ?q" for l by (cases l) simp_all
  ultimately show ?thesis using h(1) m new by (simp add: filled_by_def)
qed

lemma emu_fill_ok:
  assumes inv: "esys_inv s" and buf: "buffer_ok dat sz"
  shows "\<exists>s'. emu_act (EFill lane topic dat sz) s = ret s' \<and> lane_refines s (EFill lane topic dat sz) s'"
proof (cases "u_poster s \<noteq> None \<or> post_refused (u_queue s) lane topic sz \<or> t_count (e_topics (u_queue s) (unat topic)) = 0")
  case True
  then have "emu_act (EFill lane topic dat sz) s = ret s" by (auto simp: Let_def)
  moreover have "lane_act C (EFill lane topic dat sz) (emu_abs_of s) = emu_abs_of s" for C
    using True by (auto simp: emu_abs_of_def Let_def post_refused_def)
  ultimately show ?thesis using lane_refines_stutter [OF inv] by blast
next
  case False
  let ?q = "u_queue s"
  have none: "u_poster s = None" using False by blast
  have obs: "t_count (e_topics ?q (unat topic)) \<noteq> 0" and small: "lane = Critical \<Longrightarrow> sz \<le> EMU_INLINE_MAX"
    using False by (auto simp: post_refused_def)
  obtain q' n where fill: "emu_fill lane topic dat sz ?q = Inr (q', n)" "filled_by s lane topic dat sz q' n"
    using emu_fill_critical_ok [OF inv none buf] emu_fill_normal_ok [OF inv none buf obs] small by (cases lane) blast+
  then have q': "emu_fill lane topic dat sz ?q = Inr (q', n)" "same_calls s q'"
    "lane_calls q' lane n = expected_calls (e_topics ?q) topic dat sz" "e_topics q' = e_topics ?q" "emu_log q' = emu_log ?q"
    "\<forall>l. emu_ring l q' = emu_ring l ?q" "esys_inv (s\<lparr>u_queue := q', u_poster := Some (lane, n)\<rparr>)"
    unfolding filled_by_def by blast+
  let ?s = "s\<lparr>u_queue := q', u_poster := Some (lane, n)\<rparr>"
  have "emu_act (EFill lane topic dat sz) s = ret ?s" using False q'(1) by (auto simp: Let_def)
  moreover have "emu_abs_of ?s = (emu_abs_of s)\<lparr>l_poster := Some (lane, expected_calls (e_topics ?q) topic dat sz)\<rparr>"
    using lane_abs_frame [OF q'(2,4)] q'(3,5,6) by (simp add: emu_abs_of_def Let_def)
  then have "emu_abs_of ?s = lane_act (lane_caps ?q) (EFill lane topic dat sz) (emu_abs_of s)"
    using False none by (auto simp: post_refused_def emu_abs_of_def Let_def)
  ultimately show ?thesis using q'(6,7) by (auto simp: lane_refines_def lane_caps_def fun_eq_iff)
qed

lemma disp_nodes:
  "posted_nodes (s\<lparr>u_queue := q', u_disp := pc\<rparr>) l = posted_nodes s l"
  "popped_nodes (s\<lparr>u_queue := q', u_disp := EDelivered lane n\<rparr>) l = []" "popped_nodes (s\<lparr>u_queue := q', u_disp := EIdle\<rparr>) l = []"
  "spent_nodes (s\<lparr>u_queue := q', u_disp := EDelivered lane n\<rparr>) l = (if l = lane then [n] else [])"
  "spent_nodes (s\<lparr>u_queue := q', u_disp := EIdle\<rparr>) l = []"
  by (auto simp: posted_nodes_def popped_nodes_def spent_nodes_def)

lemma emu_deliver_ok:
  assumes inv: "esys_inv s"
  shows "\<exists>s'. emu_act EDeliver s = ret s' \<and> lane_refines s EDeliver s'"
proof (cases "\<exists>lane n. u_disp s = EPopped lane n")
  case False
  then have "emu_act EDeliver s = ret s" "lane_act C EDeliver (emu_abs_of s) = emu_abs_of s" for C
    by (simp_all add: emu_abs_of_def Let_def lane_pc_abs_def split: emu_pc.split)
  then show ?thesis using lane_refines_stutter [OF inv] by blast
next
  case True
  then obtain lane n where pc: "u_disp s = EPopped lane n" by blast
  let ?q = "u_queue s"
  note D = esys_invD [OF inv]
  have pops: "popped_nodes s l = (if l = lane then [n] else [])" "spent_nodes s l = []" for l
    by (auto simp: popped_nodes_def spent_nodes_def pc)
  let ?after = "\<lambda>q'. s\<lparr>u_queue := q', u_disp := EDelivered lane n\<rparr>"
  have held: "lane_held (?after q') l = lane_held s l" for q' l by (simp add: lane_held_def disp_nodes pops)
  have "\<exists>w. emu_deliver lane n ?q = Inr (?q\<lparr>e_world := w\<rparr>) \<and> log w = emu_log ?q @ lane_calls ?q lane n \<and>
    esys_inv (?after (?q\<lparr>e_world := w\<rparr>)) \<and>
    (\<forall>l a. a \<in> set (contents (emu_ring l ?q) @ posted_nodes s l) \<longrightarrow> lane_calls (?q\<lparr>e_world := w\<rparr>) l a = lane_calls ?q l a)"
  proof (cases lane)
    case Critical
    have "pool_inv (e_fastPool ?q) (set (contents (e_fastQueue ?q) @ lane_held s Critical))" using D(1) by (simp add: chan_ok_def)
    then obtain m where m: "obj_read (e_fastPool ?q) n = Some m" using lf_pool.rd_ok [of _ _ n] pops(1) Critical by (force simp: lane_held_def)
    then have "fast_msg_ok m" using D(2) [of n] by (simp add: lane_due_def pops Critical)
    let ?w = "(e_world ?q)\<lparr>log := emu_log ?q @ fast_deliveries m\<rparr>"
    have "emu_deliver lane n ?q = Inr (?q\<lparr>e_world := ?w\<rparr>)" using m deliver_fast_ok [OF \<open>fast_msg_ok m\<close>] Critical by simp
    moreover have "esys_inv (?after (?q\<lparr>e_world := ?w\<rparr>))"
      using D Critical unfolding esys_inv_def Let_def held by (auto simp: lane_due_def disp_nodes pops)
    moreover have "lane_calls (?q\<lparr>e_world := ?w\<rparr>) l a = lane_calls ?q l a" for l a by (cases l) simp_all
    moreover have "lane_calls ?q lane n = fast_deliveries m" using m Critical by simp
    ultimately show ?thesis by (intro exI [of _ ?w]) simp
  next
    case Normal
    have "pool_inv (e_bulkPool ?q) (set (contents (e_bulkQueue ?q) @ lane_held s Normal))" using D(3) by (simp add: chan_ok_def)
    then obtain m where m: "obj_read (e_bulkPool ?q) n = Some m" using lf_pool.rd_ok [of _ _ n] pops(1) Normal by (force simp: lane_held_def)
    let ?rest = "vals obj_read (e_bulkPool ?q) (contents (e_bulkQueue ?q) @ posted_nodes s Normal)"
    have "mset (vals obj_read (e_bulkPool ?q) (lane_due s Normal)) = mset (m # ?rest)" using m by (simp add: lane_due_def pops Normal)
    then have "msgs_ok 8 (rc_heap (e_world ?q)) (m # ?rest)" using msgs_ok_perm D(4) by blast
    from deliver_msgs_ok [OF this] obtain w where w: "deliver 8 m (e_world ?q) = Inr w"
      "log w = emu_log ?q @ deliveries (rc_heap (e_world ?q)) m" "msgs_ok 8 (rc_heap w) ?rest"
      "map (deliveries (rc_heap w)) ?rest = map (deliveries (rc_heap (e_world ?q))) ?rest" by blast
    have "emu_deliver lane n ?q = Inr (?q\<lparr>e_world := w\<rparr>)" using m w(1) Normal by simp
    moreover have "esys_inv (?after (?q\<lparr>e_world := w\<rparr>))"
      using D Normal w(3) unfolding esys_inv_def Let_def held by (auto simp: lane_due_def disp_nodes pops)
    moreover have "lane_calls (?q\<lparr>e_world := w\<rparr>) l a = lane_calls ?q l a"
      if "a \<in> set (contents (emu_ring l ?q) @ posted_nodes s l)" for l a
      using that w(4) by (cases l) (auto simp: vals_def)
    ultimately show ?thesis using m w(2) Normal by (intro exI [of _ w]) simp
  qed
  then obtain w where w: "emu_deliver lane n ?q = Inr (?q\<lparr>e_world := w\<rparr>)" "log w = emu_log ?q @ lane_calls ?q lane n"
    "esys_inv (?after (?q\<lparr>e_world := w\<rparr>))"
    "\<And>l a. a \<in> set (contents (emu_ring l ?q) @ posted_nodes s l) \<Longrightarrow> lane_calls (?q\<lparr>e_world := w\<rparr>) l a = lane_calls ?q l a" by blast
  have act: "emu_act EDeliver s = ret (?after (?q\<lparr>e_world := w\<rparr>))" using pc w(1) by simp
  have ring: "emu_ring l (?q\<lparr>e_world := w\<rparr>) = emu_ring l ?q" for l by (cases l) simp_all
  have "emu_abs_of (?after (?q\<lparr>e_world := w\<rparr>)) = lane_act (lane_caps ?q) EDeliver (emu_abs_of s)"
    using w(2,4) pc ring by (auto simp: emu_abs_of_def Let_def lane_pc_abs_def posted_nodes_def fun_eq_iff intro!: option.map_cong)
  then show ?thesis using act w(3) ring by (auto simp: lane_refines_def lane_caps_def fun_eq_iff)
qed

lemma emu_release_ok:
  assumes inv: "esys_inv s"
  shows "\<exists>s'. emu_act ERelease s = ret s' \<and> lane_refines s ERelease s'"
proof (cases "\<exists>lane n. u_disp s = EDelivered lane n")
  case False
  then have "emu_act ERelease s = ret s" "lane_act C ERelease (emu_abs_of s) = emu_abs_of s" for C
    by (simp_all add: emu_abs_of_def Let_def lane_pc_abs_def split: emu_pc.split)
  then show ?thesis using lane_refines_stutter [OF inv] by blast
next
  case True
  then obtain lane n where pc: "u_disp s = EDelivered lane n" by blast
  let ?q = "u_queue s"
  note D = esys_invD [OF inv]
  have pops: "popped_nodes s l = []" "spent_nodes s l = (if l = lane then [n] else [])" for l
    by (auto simp: popped_nodes_def spent_nodes_def pc)
  let ?after = "\<lambda>q'. s\<lparr>u_queue := q', u_disp := EIdle\<rparr>"
  let ?ns = "\<lambda>l. contents (emu_ring l ?q) @ posted_nodes s l"
  have due: "lane_due s l = ?ns l" for l by (simp add: lane_due_def pops)
  have "\<exists>q'. emu_release lane n ?q = Inr q' \<and> same_calls s q' \<and> e_topics q' = e_topics ?q \<and> emu_log q' = emu_log ?q \<and>
    (\<forall>l. emu_ring l q' = emu_ring l ?q) \<and> esys_inv (?after q')"
  proof (cases lane)
    case Critical
    have *: "pool_inv (e_fastPool ?q) (set (n # ?ns Critical))" "distinct (n # ?ns Critical)"
      using D(1) pops Critical by (auto simp: lane_held_def chan_ok_def insert_commute)
    from lf_pool.drop_ok [OF *] obtain p where p: "release (e_fastPool ?q) (Some n) = Inr p" "pool_inv p (set (?ns Critical))"
      "vals obj_read p (?ns Critical) = vals obj_read (e_fastPool ?q) (?ns Critical)" by blast
    let ?q' = "?q\<lparr>e_fastPool := p\<rparr>"
    have same: "the (obj_read p a) = the (obj_read (e_fastPool ?q) a)" if "a \<in> set (?ns Critical)" for a
      using p(3) that by (auto simp: vals_def)
    have "esys_inv (?after ?q')"
      using D(1-5) p(2) *(2) same pops Critical unfolding esys_inv_def Let_def due
      by (auto simp: lane_held_def lane_due_def disp_nodes chan_ok_def)
    moreover have "lane_calls ?q' l a = lane_calls ?q l a" if "a \<in> set (?ns l)" for l a using same that by (cases l) simp_all
    then have "same_calls s ?q'" by (simp add: same_calls_def due)
    moreover have "emu_ring l ?q' = emu_ring l ?q" for l by (cases l) simp_all
    ultimately show ?thesis using p(1) Critical by simp
  next
    case Normal
    have *: "pool_inv (e_bulkPool ?q) (set (n # ?ns Normal))" "distinct (n # ?ns Normal)"
      using D(3) pops Normal by (auto simp: lane_held_def chan_ok_def insert_commute)
    from lf_pool.drop_ok [OF *] obtain p where p: "release (e_bulkPool ?q) (Some n) = Inr p" "pool_inv p (set (?ns Normal))"
      "vals obj_read p (?ns Normal) = vals obj_read (e_bulkPool ?q) (?ns Normal)" by blast
    let ?q' = "?q\<lparr>e_bulkPool := p\<rparr>"
    have same: "the (obj_read p a) = the (obj_read (e_bulkPool ?q) a)" if "a \<in> set (?ns Normal)" for a
      using p(3) that by (auto simp: vals_def)
    have "msgs_ok 8 (rc_heap (e_world ?q)) (vals obj_read p (?ns Normal))" using D(4) unfolding p(3) due .
    then have "esys_inv (?after ?q')"
      using D(1-3,5) p(2) *(2) pops Normal unfolding esys_inv_def Let_def
      by (auto simp: lane_held_def lane_due_def disp_nodes chan_ok_def)
    moreover have "lane_calls ?q' l a = lane_calls ?q l a" if "a \<in> set (?ns l)" for l a using same that by (cases l) simp_all
    then have "same_calls s ?q'" by (simp add: same_calls_def due)
    moreover have "emu_ring l ?q' = emu_ring l ?q" for l by (cases l) simp_all
    ultimately show ?thesis using p(1) Normal by simp
  qed
  then obtain q' where q': "emu_release lane n ?q = Inr q'" "same_calls s q'" "e_topics q' = e_topics ?q" "emu_log q' = emu_log ?q"
    "\<And>l. emu_ring l q' = emu_ring l ?q" "esys_inv (?after q')" by blast
  have act: "emu_act ERelease s = ret (?after q')" using pc q'(1) by simp
  have "emu_abs_of (?after q') = (emu_abs_of s)\<lparr>l_disp := LIdle\<rparr>"
    using lane_abs_frame [OF q'(2,3,5)] q'(4) by (simp add: emu_abs_of_def Let_def) (simp add: lane_pc_abs_def)
  moreover have "l_disp (emu_abs_of s) = LDelivered" by (simp add: emu_abs_of_def Let_def lane_pc_abs_def pc)
  ultimately show ?thesis using act q'(5,6) by (auto simp: lane_refines_def lane_caps_def fun_eq_iff)
qed

section \<open>Schedules\<close>

fun emu_acts :: "emu_sys \<Rightarrow> emu_action list \<Rightarrow> emu_sys run" where
  "emu_acts s [] = ret s"
| "emu_acts s (a # as) = rbind (emu_act a s) (\<lambda>s1. emu_acts s1 as)"

text \<open>
  Posts with a valid buffer, to the lane that the topic belongs to: \<open>crit\<close> says which topics are
  critical.
\<close>

definition lane_post :: "(u16 \<Rightarrow> bool) \<Rightarrow> emu_action \<Rightarrow> bool" where
  "lane_post crit a = (case a of EFill lane topic dat sz \<Rightarrow> buffer_ok dat sz \<and> (crit topic \<longleftrightarrow> lane = Critical) | _ \<Rightarrow> True)"

lemma emu_act_ok:
  assumes inv: "esys_inv s" and post: "lane_post crit a" and room: "\<And>lane. a = EPush \<Longrightarrow> 0 < push_room (emu_ring lane (u_queue s))"
  shows "\<exists>s'. emu_act a s = ret s' \<and> lane_refines s a s'"
proof (cases a)
  case (EFill lane topic dat sz)
  then show ?thesis using emu_fill_ok [OF inv] post by (simp add: lane_post_def del: emu_act.simps)
qed (use emu_push_ok [OF inv room] emu_pop_ok [OF inv] emu_deliver_ok [OF inv] emu_release_ok [OF inv] in \<open>simp_all del: emu_act.simps\<close>)

lemma emu_acts_ok:
  assumes "esys_inv s" and "\<forall>a \<in> set as. lane_post crit a" and "\<And>lane. length as \<le> push_room (emu_ring lane (u_queue s))"
  shows "\<exists>s'. emu_acts s as = ret s' \<and> esys_inv s' \<and> emu_abs_of s' = fold (lane_act (lane_caps (u_queue s))) as (emu_abs_of s)"
  using assms
proof (induction as arbitrary: s)
  case (Cons a as)
  have "lane_post crit a" using Cons.prems(2) by simp
  moreover have "0 < push_room (emu_ring lane (u_queue s))" for lane using Cons.prems(3) [of lane] by simp
  ultimately obtain s1 where s1: "emu_act a s = ret s1" "lane_refines s a s1" using emu_act_ok [OF Cons.prems(1)] by blast
  have "length as \<le> push_room (emu_ring lane (u_queue s1))" for lane
  proof -
    have "push_room (emu_ring lane (u_queue s)) \<le> push_room (emu_ring lane (u_queue s1)) + 1"
      using lane_refines_room [OF s1(2), of lane] by (simp split: if_splits)
    then show ?thesis using Cons.prems(3) [of lane] by simp
  qed
  with Cons.IH [of s1] s1 Cons.prems(2) show ?case by (auto simp: lane_refines_def simp del: emu_act.simps)
qed simp

text \<open>The calls of a lane that were made, by the topic of a call, and the calls that are due on it.\<close>

fun on_lane :: "(u16 \<Rightarrow> bool) \<Rightarrow> topic_priority \<Rightarrow> delivery \<Rightarrow> bool" where
  "on_lane crit lane (Call f topic dat sz ud) \<longleftrightarrow> (crit topic \<longleftrightarrow> lane = Critical)"

definition lane_popped :: "emu_abs \<Rightarrow> topic_priority \<Rightarrow> delivery list" where
  "lane_popped a lane = (case l_disp a of LPopped l d \<Rightarrow> if l = lane then d else [] | _ \<Rightarrow> [])"

definition lane_posting :: "emu_abs \<Rightarrow> topic_priority \<Rightarrow> delivery list" where
  "lane_posting a lane = (case l_poster a of None \<Rightarrow> [] | Some (l, d) \<Rightarrow> if l = lane then d else [])"

definition lane_calls_due :: "emu_abs \<Rightarrow> topic_priority \<Rightarrow> delivery list" where
  "lane_calls_due a lane = lane_popped a lane @ concat (l_lane a lane) @ lane_posting a lane"

definition lane_made :: "(u16 \<Rightarrow> bool) \<Rightarrow> emu_abs \<Rightarrow> topic_priority \<Rightarrow> delivery list" where
  "lane_made crit a lane = filter (on_lane crit lane) (l_log a)"

definition lanes_apart :: "(u16 \<Rightarrow> bool) \<Rightarrow> emu_abs \<Rightarrow> bool" where
  "lanes_apart crit a \<longleftrightarrow> (\<forall>lane. \<forall>c \<in> set (lane_calls_due a lane). on_lane crit lane c)"

fun lane_post_of :: "emu_action \<Rightarrow> emu_abs \<Rightarrow> topic_priority \<Rightarrow> delivery list" where
  "lane_post_of (EFill l topic dat sz) a lane =
     (if l_poster a \<noteq> None \<or> EMU_MAX_TOPICS \<le> topic \<or> (l = Critical \<and> EMU_INLINE_MAX < sz) \<or> t_count (l_topics a (unat topic)) = 0 \<or>
        l \<noteq> lane then [] else expected_calls (l_topics a) topic dat sz)"
| "lane_post_of _ a lane = []"

fun lane_posts :: "(topic_priority \<Rightarrow> nat) \<Rightarrow> emu_action list \<Rightarrow> emu_abs \<Rightarrow> topic_priority \<Rightarrow> delivery list" where
  "lane_posts C [] a lane = []"
| "lane_posts C (x # xs) a lane = lane_post_of x a lane @ lane_posts C xs (lane_act C x a) lane"

lemma expected_calls_topic: "c \<in> set (expected_calls ts topic dat sz) \<Longrightarrow> on_lane crit lane c \<longleftrightarrow> (crit topic \<longleftrightarrow> lane = Critical)"
  by (auto simp: expected_calls_def expected_def)

lemmas lane_defs = lane_calls_due_def lane_popped_def lane_posting_def

lemma on_other_lane: "on_lane crit l c \<Longrightarrow> l \<noteq> lane \<Longrightarrow> \<not> on_lane crit lane c"
  by (cases c; cases l; cases lane) auto

lemma filter_lane:
  assumes "\<forall>c \<in> set d. on_lane crit l c"
  shows "filter (on_lane crit lane) d = (if l = lane then d else [])"
  using assms on_other_lane by (auto simp: filter_id_conv filter_empty_conv)

text \<open>What a step does to the calls due: a post adds to one lane at the end, a delivery takes from the front.\<close>

lemma due_fill:
  "lane_calls_due (lane_act C (EFill l topic dat sz) a) lane = lane_calls_due a lane @ lane_post_of (EFill l topic dat sz) a lane"
proof (cases "l_poster a")
  case None
  then show ?thesis by (simp add: lane_defs)
qed (simp add: lane_defs)

lemma due_push: "lane_calls_due (lane_act C EPush a) lane = lane_calls_due a lane"
  by (auto simp: lane_defs split: option.split)

lemma due_pop: "lane_calls_due (lane_act C (EPop l) a) lane = lane_calls_due a lane"
  by (auto simp: lane_defs split: list.split)

lemma due_deliver:
  "lane_calls_due a lane = (case l_disp a of LPopped l d \<Rightarrow> if l = lane then d else [] | _ \<Rightarrow> []) @ lane_calls_due (lane_act C EDeliver a) lane"
  by (cases "l_disp a") (simp_all add: lane_defs)

lemma due_release: "lane_calls_due (lane_act C ERelease a) lane = lane_calls_due a lane"
  by (cases "l_disp a") (simp_all add: lane_defs)

lemma log_step: "x \<noteq> EDeliver \<Longrightarrow> l_log (lane_act C x a) = l_log a"
  by (cases x) (auto split: option.split list.split lane_pc.split)

lemma lane_fifo_step:
  assumes apart: "lanes_apart crit a" and post: "lane_post crit x"
  shows "lanes_apart crit (lane_act C x a) \<and>
    lane_made crit (lane_act C x a) lane @ lane_calls_due (lane_act C x a) lane =
      lane_made crit a lane @ lane_calls_due a lane @ lane_post_of x a lane"
proof (cases x)
  case (EFill l topic dat sz)
  have "on_lane crit l c" if "c \<in> set (expected_calls (l_topics a) topic dat sz)" for c
    using expected_calls_topic [OF that] post EFill by (simp add: lane_post_def)
  then have "\<forall>c \<in> set (lane_post_of x a L). on_lane crit L c" for L using EFill by auto
  then have "lanes_apart crit (lane_act C x a)" using apart unfolding lanes_apart_def EFill due_fill by auto
  then show ?thesis using log_step [of x C a] due_fill [of C l topic dat sz a lane] EFill
    by (simp add: lane_made_def del: lane_act.simps)
next
  case EPush
  then show ?thesis using apart log_step [of x C a] due_push [of C a] by (simp add: lanes_apart_def lane_made_def del: lane_act.simps)
next
  case (EPop l)
  then show ?thesis using apart log_step [of x C a] due_pop [of C l a] by (simp add: lanes_apart_def lane_made_def del: lane_act.simps)
next
  case EDeliver
  show ?thesis
  proof (cases "l_disp a")
    case (LPopped l d)
    have due: "lane_calls_due a L = (if l = L then d else []) @ lane_calls_due (lane_act C x a) L" for L
      using due_deliver [of a L C] EDeliver LPopped by (simp del: lane_act.simps)
    then have "\<forall>c \<in> set d. on_lane crit l c" using apart by (force simp: lanes_apart_def)
    from filter_lane [OF this, of lane] have "lane_made crit (lane_act C x a) lane = lane_made crit a lane @ (if l = lane then d else [])"
      using EDeliver LPopped by (simp add: lane_made_def)
    moreover have "lanes_apart crit (lane_act C x a)" using apart unfolding lanes_apart_def due by (auto split: if_splits)
    ultimately show ?thesis using due [of lane] EDeliver by (simp del: lane_act.simps)
  qed (use EDeliver apart in simp_all)
next
  case ERelease
  then show ?thesis using apart log_step [of x C a] due_release [of C a] by (simp add: lanes_apart_def lane_made_def del: lane_act.simps)
qed

lemma lane_fifo:
  assumes "lanes_apart crit a" and "\<forall>x \<in> set xs. lane_post crit x"
  shows "lane_made crit (fold (lane_act C) xs a) lane @ lane_calls_due (fold (lane_act C) xs a) lane =
    lane_made crit a lane @ lane_calls_due a lane @ lane_posts C xs a lane"
  using assms
proof (induction xs arbitrary: a)
  case (Cons x xs)
  have "lane_post crit x" using Cons.prems(2) by simp
  from lane_fifo_step [OF Cons.prems(1) this, of C lane] Cons.IH [of "lane_act C x a"] Cons.prems(2) show ?case by simp
qed simp

lemma esys_start:
  assumes "emu_ok q"
  shows "esys_inv (emu_threads q)"
  using assms by (auto simp: esys_inv_def Let_def emu_threads_def emu_ok_def mchan_def lane_held_def lane_due_def posted_nodes_def
      popped_nodes_def spent_nodes_def chan_msgs_def vals_def)

lemma emu_threads_abs:
  assumes "emu_fast q = []" and "emu_bulk q = []"
  shows "emu_abs_of (emu_threads q) = \<lparr>l_topics = e_topics q, l_lane = (\<lambda>_. []), l_poster = None, l_disp = LIdle, l_log = emu_log q\<rparr>"
proof -
  have "contents (emu_ring lane q) = []" for lane
    using assms by (cases lane) (auto simp: emu_fast_def mpending_def chan_msgs_def vals_def)
  then show ?thesis by (simp add: emu_abs_of_def Let_def emu_threads_def lane_pc_abs_def)
qed

lemma esys_no_payload:
  assumes "esys_inv s" and "lane_due s Normal = []"
  shows "live (rc_heap (e_world (u_queue s))) = {}"
  using esys_invD(4) [OF assms(1)] msgs_ok_no_payload unfolding assms(2) by auto

text \<open>
  C5. Threads of the emulator queue: from a well-formed queue with empty lanes, every interleaving of a
  posting thread with a dispatching thread runs without a fault and refines the abstract
  machine. If every topic is posted to the lane of its priority, each lane is served in order, every call
  exactly once, whatever the dispatching thread does on the other lane: the calls made of a lane's topics, followed by
  those still due on the lane, are those of before and of its posts. When no bulk message is left, no payload is.
\<close>

theorem emu_threads_deliver:
  assumes "emu_ok q" and "emu_fast q = []" and "emu_bulk q = []" and "\<forall>a \<in> set as. lane_post crit a"
    and "\<And>lane. length as \<le> push_room (emu_ring lane q)"
  shows "\<exists>s. emu_acts (emu_threads q) as = ret s \<and> esys_inv s \<and>
    emu_abs_of s = fold (lane_act (lane_caps q)) as (emu_abs_of (emu_threads q)) \<and>
    (\<forall>lane. filter (on_lane crit lane) (emu_log (u_queue s)) @ lane_calls_due (emu_abs_of s) lane =
       filter (on_lane crit lane) (emu_log q) @ lane_posts (lane_caps q) as (emu_abs_of (emu_threads q)) lane) \<and>
    (lane_due s Normal = [] \<longrightarrow> live (rc_heap (e_world (u_queue s))) = {})"
proof -
  have q: "u_queue (emu_threads q) = q" by (simp add: emu_threads_def)
  obtain s where s: "emu_acts (emu_threads q) as = ret s" "esys_inv s"
    "emu_abs_of s = fold (lane_act (lane_caps q)) as (emu_abs_of (emu_threads q))"
    using emu_acts_ok [OF esys_start [OF assms(1)] assms(4)] assms(5) by (auto simp: q)
  have start: "lane_calls_due (emu_abs_of (emu_threads q)) lane = []" "l_log (emu_abs_of (emu_threads q)) = emu_log q" for lane
    unfolding emu_threads_abs [OF assms(2,3)] by (simp_all add: lane_defs)
  then have "lanes_apart crit (emu_abs_of (emu_threads q))" by (simp add: lanes_apart_def)
  from lane_fifo [OF this assms(4), of "lane_caps q"] have
    "lane_made crit (emu_abs_of s) lane @ lane_calls_due (emu_abs_of s) lane =
      filter (on_lane crit lane) (emu_log q) @ lane_posts (lane_caps q) as (emu_abs_of (emu_threads q)) lane" for lane
    by (simp add: s(3) start lane_made_def)
  moreover have "l_log (emu_abs_of s) = emu_log (u_queue s)" by (simp add: emu_abs_of_def Let_def)
  ultimately show ?thesis using s esys_no_payload [OF s(2)] by (simp add: lane_made_def)
qed

theorem emu_threads_deliver_witness:
  "\<exists>q s. emu_ok q \<and>
     emu_acts (emu_threads q) [EFill Normal 1 (Some [2]) 1, EPush, EFill Critical 0 (Some [1]) 1, EPop Normal, EPush, EDeliver, ERelease, EPop Critical] =
       ret s \<and>
     filter (on_lane (\<lambda>t. t = 0) Critical) (emu_log (u_queue s)) @ lane_calls_due (emu_abs_of s) Critical = [Call 7 0 (Some [Some 1]) 1 9] \<and>
     filter (on_lane (\<lambda>t. t = 0) Normal) (emu_log (u_queue s)) @ lane_calls_due (emu_abs_of s) Normal = [Call 8 1 (Some [Some 2]) 1 9]"
proof -
  obtain q where q: "emu_ok q" "emu_fast q = []" "emu_bulk q = []" "emu_log q = []" "\<forall>t. e_topics q t = no_observers"
    "push_room (e_fastQueue q) = 2 ^ 63 - 3" "push_room (e_bulkQueue q) = 2 ^ 63 - 3"
    "capacity (e_fastQueue q) = 2" "capacity (e_bulkQueue q) = 2" using emu_new_2 by blast
  let ?add = "\<lambda>ts t f. fst (add_observer EMU_MAX_TOPICS EMU_MAX_OBSERVERS ts t (Some f) 9)"
  let ?ts = "?add (?add (e_topics q) 0 7) 1 8"
  let ?q = "q\<lparr>e_topics := ?ts\<rparr>"
  let ?as = "[EFill Normal 1 (Some [2]) 1, EPush, EFill Critical 0 (Some [1]) 1, EPop Normal, EPush, EDeliver, ERelease, EPop Critical]"
  have add: "topics_ok 8 ts \<Longrightarrow> topics_ok 8 (?add ts t f)" for ts t f
    using add_observer_ok [of EMU_MAX_OBSERVERS ts "Some f" EMU_MAX_TOPICS t 9] by (simp add: EMU_MAX_OBSERVERS_def)
  have "topics_ok 8 ?ts" using emu_okD(4) [OF q(1)] by (intro add)
  then have ok: "emu_ok ?q" "emu_fast ?q = []" "emu_bulk ?q = []" using q(1-3) by (simp_all add: emu_ok_def emu_fast_def)
  have post: "\<forall>a \<in> set ?as. lane_post (\<lambda>t. t = 0) a" by (simp add: lane_post_def buffer_ok_def buffer_bytes_def)
  have room: "length ?as \<le> push_room (emu_ring lane ?q)" for lane using q(6,7) by (cases lane) simp_all
  have start: "emu_abs_of (emu_threads ?q) = \<lparr>l_topics = ?ts, l_lane = (\<lambda>_. []), l_poster = None, l_disp = LIdle, l_log = []\<rparr>"
    unfolding emu_threads_abs [OF ok(2,3)] using q(4) by simp
  have "lane_caps ?q Critical = 2" "lane_caps ?q Normal = 2" using q(8,9) by (simp_all add: lane_caps_def)
  then have "lane_posts (lane_caps ?q) ?as (emu_abs_of (emu_threads ?q)) Critical = [Call 7 0 (Some [Some 1]) 1 9]"
    "lane_posts (lane_caps ?q) ?as (emu_abs_of (emu_threads ?q)) Normal = [Call 8 1 (Some [Some 2]) 1 9]"
    unfolding start using q(5)
    by (simp_all add: add_observer_def EMU_MAX_TOPICS_def EMU_MAX_OBSERVERS_def EMU_INLINE_MAX_def no_observers_def expected_calls_def
        expected_def buffer_bytes_def word_le_nat_alt)
  moreover obtain s where "emu_acts (emu_threads ?q) ?as = ret s"
    "\<forall>lane. filter (on_lane (\<lambda>t. t = 0) lane) (emu_log (u_queue s)) @ lane_calls_due (emu_abs_of s) lane =
       filter (on_lane (\<lambda>t. t = 0) lane) (emu_log ?q) @ lane_posts (lane_caps ?q) ?as (emu_abs_of (emu_threads ?q)) lane"
    using emu_threads_deliver [OF ok post room] by blast
  ultimately show ?thesis using ok(1) q(4) by (intro exI [of _ ?q] exI [of _ s]) (simp del: emu_acts.simps)
qed

end
