(* ===== verification/Example_Emulator_Threads.thy ===== *)
theory Example_Emulator_Threads
  imports Example_Emulator Emulator_Threads
begin

text \<open>
  The second half of \<open>src/examples/emulator_queue/main.cpp\<close>: an emulator thread, a dispatcher and
  the main thread, interleaved at the steps of \<open>Emulator_Threads\<close> and at their accesses to
  \<open>running\<close> and to the two parts of \<open>empty()\<close>. Sleeping and yielding do nothing, and the return value of
  \<open>dispatchPriority\<close> only decides about yielding. Unlike in \<open>Example_Fast\<close> the lanes can be full: a post then
  tries again until the dispatcher has made room.
\<close>

section \<open>The program\<close>

text \<open>The posts of the emulator thread, in program order: the lane, and what is posted to it.\<close>

type_synonym lane_event = "topic_priority \<times> u16 \<times> buffer \<times> u64"

definition emulator_frame :: "(u32 \<Rightarrow> u8 list) \<Rightarrow> (u16 \<Rightarrow> u8 list) \<Rightarrow> (nat \<Rightarrow> u8 list) \<Rightarrow> u16 \<Rightarrow> u16 \<Rightarrow> u16 \<Rightarrow> nat \<Rightarrow> lane_event list" where
  "emulator_frame bytes32 bytes16 garbage vblank audio trace frame =
     (Critical, vblank, Some (bytes32 (of_nat frame)), 4) #
     map (\<lambda>a. (Critical, audio, Some (bytes16 (of_nat a)), 2)) [0..<12] @
     map (\<lambda>t. (Normal, trace, Some (garbage frame), 32)) [0..<50]"

definition emulator_posts :: "(u32 \<Rightarrow> u8 list) \<Rightarrow> (u16 \<Rightarrow> u8 list) \<Rightarrow> (nat \<Rightarrow> u8 list) \<Rightarrow> u16 \<Rightarrow> u16 \<Rightarrow> u16 \<Rightarrow> lane_event list" where
  "emulator_posts bytes32 bytes16 garbage vblank audio trace =
     concat (map (emulator_frame bytes32 bytes16 garbage vblank audio trace) [0..<600])"

text \<open>
  The emulator thread is before its next post, has a message to push, or is done. The dispatcher is before
  reading \<open>running\<close>, before one of the two tests of \<open>empty()\<close>, or at a step of \<open>dispatchPriority\<close>
  on one of the lanes. The main thread waits for the emulator, is about to clear \<open>running\<close>,
  waits for the dispatcher, or is done.
\<close>

datatype emulator_pc = NextPost | Pushing | PostsDone
datatype dispatcher_pc = AtRunning | AtFastEmpty | AtBulkEmpty | AtPop topic_priority | AtDeliver topic_priority | AtRelease topic_priority | AtEnd
datatype emu_main_pc = JoinEmulator | StopRunning | JoinDispatcher | MainDone

record emu_program =
  p_sys :: emu_sys
  p_posts :: "lane_event list"
  p_running :: bool
  p_emulator :: emulator_pc
  p_dispatcher :: dispatcher_pc
  p_main :: emu_main_pc

definition emu_program_start :: "emu_queue \<Rightarrow> lane_event list \<Rightarrow> emu_program" where
  "emu_program_start q es = \<lparr>p_sys = emu_threads q, p_posts = es, p_running = True,
     p_emulator = NextPost, p_dispatcher = AtRunning, p_main = JoinEmulator\<rparr>"

definition posted :: "emu_sys \<Rightarrow> emulator_pc" where
  "posted z = (if u_poster z = None then NextPost else Pushing)"

definition emulator_step :: "emu_program \<Rightarrow> emu_program run" where
  "emulator_step s =
     (case p_emulator s of
        NextPost \<Rightarrow>
          (case p_posts s of
             [] \<Rightarrow> ret (s\<lparr>p_emulator := PostsDone\<rparr>)
           | (lane, topic, dat, sz) # rest \<Rightarrow>
               rbind (emu_act (EFill lane topic dat sz) (p_sys s)) (\<lambda>z. ret (s\<lparr>p_sys := z, p_posts := rest, p_emulator := posted z\<rparr>)))
      | Pushing \<Rightarrow> rbind (emu_act EPush (p_sys s)) (\<lambda>z. ret (s\<lparr>p_sys := z, p_emulator := posted z\<rparr>))
      | PostsDone \<Rightarrow> ret s)"

text \<open>
  \<open>dispatchPriority\<close> pops fast messages until there is none, and then one bulk message: after a
  fast message it is back at the fast lane, after a bulk message, or none, it returns to the loop test.
\<close>

fun no_message :: "topic_priority \<Rightarrow> dispatcher_pc" where
  "no_message Critical = AtPop Normal"
| "no_message Normal = AtRunning"

fun dispatched :: "topic_priority \<Rightarrow> dispatcher_pc" where
  "dispatched Critical = AtPop Critical"
| "dispatched Normal = AtRunning"

definition dispatcher_step :: "emu_program \<Rightarrow> emu_program run" where
  "dispatcher_step s =
     (case p_dispatcher s of
        AtRunning \<Rightarrow> ret (s\<lparr>p_dispatcher := (if p_running s then AtPop Critical else AtFastEmpty)\<rparr>)
      | AtFastEmpty \<Rightarrow> ret (s\<lparr>p_dispatcher := (if emu_fastEmpty (u_queue (p_sys s)) then AtBulkEmpty else AtPop Critical)\<rparr>)
      | AtBulkEmpty \<Rightarrow> ret (s\<lparr>p_dispatcher := (if emu_bulkEmpty (u_queue (p_sys s)) then AtEnd else AtPop Critical)\<rparr>)
      | AtPop lane \<Rightarrow>
          rbind (emu_act (EPop lane) (p_sys s)) (\<lambda>z.
            ret (s\<lparr>p_sys := z, p_dispatcher := (if u_disp z = EIdle then no_message lane else AtDeliver lane)\<rparr>))
      | AtDeliver lane \<Rightarrow> rbind (emu_act EDeliver (p_sys s)) (\<lambda>z. ret (s\<lparr>p_sys := z, p_dispatcher := AtRelease lane\<rparr>))
      | AtRelease lane \<Rightarrow> rbind (emu_act ERelease (p_sys s)) (\<lambda>z. ret (s\<lparr>p_sys := z, p_dispatcher := dispatched lane\<rparr>))
      | AtEnd \<Rightarrow> ret s)"

definition emu_main_step :: "emu_program \<Rightarrow> emu_program run" where
  "emu_main_step s =
     (case p_main s of
        JoinEmulator \<Rightarrow> ret (if p_emulator s = PostsDone then s\<lparr>p_main := StopRunning\<rparr> else s)
      | StopRunning \<Rightarrow> ret (s\<lparr>p_running := False, p_main := JoinDispatcher\<rparr>)
      | JoinDispatcher \<Rightarrow> ret (if p_dispatcher s = AtEnd then s\<lparr>p_main := MainDone\<rparr> else s)
      | MainDone \<Rightarrow> ret s)"

datatype emu_actor = EmulatorThread | DispatcherThread | MainThread

fun emu_program_step :: "emu_actor \<Rightarrow> emu_program \<Rightarrow> emu_program run" where
  "emu_program_step EmulatorThread s = emulator_step s"
| "emu_program_step DispatcherThread s = dispatcher_step s"
| "emu_program_step MainThread s = emu_main_step s"

fun emu_program_steps :: "emu_program \<Rightarrow> emu_actor list \<Rightarrow> emu_program run" where
  "emu_program_steps s [] = ret s"
| "emu_program_steps s (a # as) = rbind (emu_program_step a s) (\<lambda>s1. emu_program_steps s1 as)"

text \<open>The counters, which were set to zero when the log was \<open>l\<close>.\<close>

definition emu_counted_since :: "delivery list \<Rightarrow> emu_queue \<Rightarrow> emu_counts" where
  "emu_counted_since l q = fold emu_callback (drop (length l) (emu_log q)) \<lparr>vblankCount = 0, audioCount = 0, traceCount = 0\<rparr>"

section \<open>Invariant\<close>

declare emu_act.simps [simp del] lane_act.simps [simp del]

lemma poster_abs: "u_poster z = None \<longleftrightarrow> l_poster (emu_abs_of z) = None"
  by (simp add: emu_abs_of_def Let_def)

lemma disp_abs: "u_disp z = EIdle \<longleftrightarrow> l_disp (emu_abs_of z) = LIdle"
  by (simp add: emu_abs_of_def Let_def lane_pc_abs_def split: emu_pc.split)

lemma empty_abs:
  assumes "esys_inv z"
  shows "emu_fastEmpty (u_queue z) \<longleftrightarrow> l_lane (emu_abs_of z) Critical = []"
    and "emu_bulkEmpty (u_queue z) \<longleftrightarrow> l_lane (emu_abs_of z) Normal = []"
  using mpmc_empty_contents [OF lane_ring_inv [OF assms, of Critical]] mpmc_empty_contents [OF lane_ring_inv [OF assms, of Normal]]
  by (simp_all add: emu_fastEmpty_def emu_bulkEmpty_def emu_abs_of_def Let_def)


text \<open>What the events are to call, by lane, and that they are accepted.\<close>

fun event_calls :: "topic_table \<Rightarrow> lane_event \<Rightarrow> delivery list" where
  "event_calls ts (lane, topic, dat, sz) = expected_calls ts topic dat sz"

fun event_ok :: "(u16 \<Rightarrow> bool) \<Rightarrow> topic_table \<Rightarrow> lane_event \<Rightarrow> bool" where
  "event_ok crit ts (lane, topic, dat, sz) \<longleftrightarrow> lane_post crit (EFill lane topic dat sz) \<and> topic < EMU_MAX_TOPICS \<and>
     (lane = Critical \<longrightarrow> sz \<le> EMU_INLINE_MAX) \<and> t_count (ts (unat topic)) \<noteq> 0"

definition lane_event_calls :: "topic_table \<Rightarrow> topic_priority \<Rightarrow> lane_event list \<Rightarrow> delivery list" where
  "lane_event_calls ts lane es = concat (map (event_calls ts) (filter (\<lambda>e. fst e = lane) es))"

lemma lane_event_calls_simps [simp]:
  "lane_event_calls ts lane [] = []"
  "lane_event_calls ts lane (e # es) = (if fst e = lane then event_calls ts e else []) @ lane_event_calls ts lane es"
  by (simp_all add: lane_event_calls_def)

definition disp_at :: "dispatcher_pc \<Rightarrow> lane_pc \<Rightarrow> bool" where
  "disp_at pc d \<longleftrightarrow> (case pc of AtDeliver lane \<Rightarrow> (\<exists>c. d = LPopped lane c) | AtRelease lane \<Rightarrow> d = LDelivered | _ \<Rightarrow> d = LIdle)"

definition to_push :: "emu_program \<Rightarrow> nat" where
  "to_push s = length (p_posts s) + (if p_emulator s = Pushing then 1 else 0)"

text \<open>For the events \<open>es\<close> of the whole thread, a log \<open>l\<close> at its start and lanes of capacity \<open>C\<close>.\<close>

definition emu_queue_inv ::
  "(u16 \<Rightarrow> bool) \<Rightarrow> (topic_priority \<Rightarrow> nat) \<Rightarrow> topic_table \<Rightarrow> delivery list \<Rightarrow> lane_event list \<Rightarrow> emu_program \<Rightarrow> bool" where
  "emu_queue_inv crit C ts l es s \<longleftrightarrow>
     (let a = emu_abs_of (p_sys s); q = u_queue (p_sys s) in
      esys_inv (p_sys s) \<and> lane_caps q = C \<and> (\<forall>lane. to_push s \<le> push_room (emu_ring lane q)) \<and>
      l_topics a = ts \<and> lanes_apart crit a \<and> (\<exists>new. l_log a = l @ new) \<and> (\<forall>e \<in> set (p_posts s). event_ok crit ts e) \<and>
      (\<forall>lane. lane_made crit a lane @ lane_calls_due a lane @ lane_event_calls ts lane (p_posts s) =
         filter (on_lane crit lane) l @ lane_event_calls ts lane es) \<and>
      (l_poster a \<noteq> None \<longleftrightarrow> p_emulator s = Pushing) \<and> disp_at (p_dispatcher s) (l_disp a))"

definition emu_control_inv :: "emu_program \<Rightarrow> bool" where
  "emu_control_inv s \<longleftrightarrow>
     (p_emulator s = PostsDone \<longrightarrow> p_posts s = []) \<and> (p_running s \<longleftrightarrow> p_main s \<in> {JoinEmulator, StopRunning}) \<and>
     (p_main s \<noteq> JoinEmulator \<longrightarrow> p_emulator s = PostsDone) \<and>
     (p_dispatcher s \<in> {AtFastEmpty, AtBulkEmpty, AtEnd} \<longrightarrow> \<not> p_running s) \<and>
     (p_dispatcher s \<in> {AtBulkEmpty, AtEnd} \<longrightarrow> l_lane (emu_abs_of (p_sys s)) Critical = []) \<and>
     (p_dispatcher s = AtEnd \<longrightarrow> l_lane (emu_abs_of (p_sys s)) Normal = []) \<and> (p_main s = MainDone \<longrightarrow> p_dispatcher s = AtEnd)"

text \<open>What an action of a thread does to the invariant.\<close>

lemma emu_queue_invD:
  assumes "emu_queue_inv crit C ts l es s"
  shows "esys_inv (p_sys s)" "lane_caps (u_queue (p_sys s)) = C" "l_topics (emu_abs_of (p_sys s)) = ts"
    "\<And>e. e \<in> set (p_posts s) \<Longrightarrow> event_ok crit ts e" "l_poster (emu_abs_of (p_sys s)) = None \<longleftrightarrow> p_emulator s \<noteq> Pushing"
    "disp_at (p_dispatcher s) (l_disp (emu_abs_of (p_sys s)))" "\<exists>new. l_log (emu_abs_of (p_sys s)) = l @ new"
    "lane_made crit (emu_abs_of (p_sys s)) lane @ lane_calls_due (emu_abs_of (p_sys s)) lane @ lane_event_calls ts lane (p_posts s) =
       filter (on_lane crit lane) l @ lane_event_calls ts lane es"
  using assms unfolding emu_queue_inv_def Let_def by blast+

lemma lane_topics [simp]: "l_topics (lane_act C x a) = l_topics a"
  by (cases x) (auto simp: lane_act.simps split: option.split list.split lane_pc.split)

lemma lane_log_grows: "\<exists>new. l_log (lane_act C x a) = l_log a @ new"
  by (cases x) (auto simp: lane_act.simps split: option.split list.split lane_pc.split)

lemma queue_act:
  assumes Q: "emu_queue_inv crit C ts l es s" and post: "lane_post crit x" and push: "x = EPush \<Longrightarrow> p_emulator s = Pushing"
  shows "\<exists>z. emu_act x (p_sys s) = ret z \<and> emu_abs_of z = lane_act C x (emu_abs_of (p_sys s)) \<and>
    (\<forall>pc es' em. (\<forall>lane. lane_post_of x (emu_abs_of (p_sys s)) lane @ lane_event_calls ts lane es' = lane_event_calls ts lane (p_posts s)) \<longrightarrow>
       set es' \<subseteq> set (p_posts s) \<longrightarrow> (l_poster (emu_abs_of z) \<noteq> None \<longleftrightarrow> em = Pushing) \<longrightarrow> disp_at pc (l_disp (emu_abs_of z)) \<longrightarrow>
       length es' + (if em = Pushing then 1 else 0) + (if x = EPush \<and> l_poster (emu_abs_of z) \<noteq> l_poster (emu_abs_of (p_sys s)) then 1 else 0) \<le>
         to_push s \<longrightarrow>
       emu_queue_inv crit C ts l es (s\<lparr>p_sys := z, p_posts := es', p_emulator := em, p_dispatcher := pc\<rparr>))"
proof -
  let ?a = "emu_abs_of (p_sys s)"
  have inv: "esys_inv (p_sys s)" "lane_caps (u_queue (p_sys s)) = C" "lanes_apart crit ?a" "l_topics ?a = ts"
    "\<And>lane. to_push s \<le> push_room (emu_ring lane (u_queue (p_sys s)))" "\<exists>new. l_log ?a = l @ new"
    "\<And>lane. lane_made crit ?a lane @ lane_calls_due ?a lane @ lane_event_calls ts lane (p_posts s) =
         filter (on_lane crit lane) l @ lane_event_calls ts lane es"
    "\<forall>e \<in> set (p_posts s). event_ok crit ts e"
    using Q by (simp_all add: emu_queue_inv_def Let_def)
  have "0 < push_room (emu_ring lane (u_queue (p_sys s)))" if "x = EPush" for lane
    using inv(5) [of lane] push [OF that] by (simp add: to_push_def)
  from emu_act_ok [OF inv(1) post this] obtain z where z: "emu_act x (p_sys s) = ret z" "lane_refines (p_sys s) x z" by blast
  have abs: "esys_inv z" "emu_abs_of z = lane_act C x ?a" "lane_caps (u_queue z) = C"
    using z(2) unfolding lane_refines_def inv(2) by blast+
  have fifo: "lanes_apart crit (emu_abs_of z)" "lane_made crit (emu_abs_of z) lane @ lane_calls_due (emu_abs_of z) lane =
      lane_made crit ?a lane @ lane_calls_due ?a lane @ lane_post_of x ?a lane" for lane
    using lane_fifo_step [OF inv(3) post] unfolding abs(2) by blast+
  have log: "\<exists>new. l_log (emu_abs_of z) = l @ new" using inv(6) lane_log_grows [of C x ?a] unfolding abs(2) by force
  have due: "lane_made crit (emu_abs_of z) lane @ lane_calls_due (emu_abs_of z) lane @ lane_event_calls ts lane es' =
      filter (on_lane crit lane) l @ lane_event_calls ts lane es"
    if "lane_post_of x ?a lane @ lane_event_calls ts lane es' = lane_event_calls ts lane (p_posts s)" for lane es'
    using fifo(2) [of lane] inv(7) [of lane] by (metis append.assoc that)
  have "n \<le> push_room (emu_ring lane (u_queue z))"
    if "n + (if x = EPush \<and> l_poster (emu_abs_of z) \<noteq> l_poster ?a then 1 else 0) \<le> to_push s" for n lane
    using lane_refines_room [OF z(2), of lane] inv(5) [of lane] that by linarith
  note room = this [of "length es' + (if em = Pushing then 1 else 0)" for es' and em :: emulator_pc]
  have topics: "l_topics (emu_abs_of z) = ts" by (simp add: abs(2) inv(4))
  show ?thesis
  proof (intro exI [of _ z] conjI allI impI)
    fix pc es' em
    assume H: "\<forall>lane. lane_post_of x ?a lane @ lane_event_calls ts lane es' = lane_event_calls ts lane (p_posts s)"
      "set es' \<subseteq> set (p_posts s)" "l_poster (emu_abs_of z) \<noteq> None \<longleftrightarrow> em = Pushing" "disp_at pc (l_disp (emu_abs_of z))"
      "length es' + (if em = Pushing then 1 else 0) + (if x = EPush \<and> l_poster (emu_abs_of z) \<noteq> l_poster ?a then 1 else 0) \<le> to_push s"
    have "\<forall>e \<in> set es'. event_ok crit ts e" using inv(8) H(2) by blast
    then show "emu_queue_inv crit C ts l es (s\<lparr>p_sys := z, p_posts := es', p_emulator := em, p_dispatcher := pc\<rparr>)"
      using abs(1,3) topics fifo(1) log due H room [OF H(5)] by (simp add: emu_queue_inv_def Let_def to_push_def)
  qed (rule z(1), rule abs(2))
qed


section \<open>The steps keep the invariant and make progress\<close>

text \<open>
  An upper bound on the steps still to come, and a thread that brings the program nearer to its
  end. The emulator thread is blocked while the lane it pushes to is full.
\<close>

definition lanes_empty :: "emu_abs \<Rightarrow> bool" where
  "lanes_empty a \<longleftrightarrow> l_lane a Critical = [] \<and> l_lane a Normal = []"

fun disp_work :: "emu_abs \<Rightarrow> dispatcher_pc \<Rightarrow> nat" where
  "disp_work a AtEnd = 0"
| "disp_work a (AtPop Normal) = (if l_lane a Normal = [] then 7 else 2)"
| "disp_work a (AtPop Critical) = (if lanes_empty a then 9 else 3)"
| "disp_work a AtBulkEmpty = 4"
| "disp_work a AtFastEmpty = 5"
| "disp_work a AtRunning = 6"
| "disp_work a (AtRelease lane) = 10"
| "disp_work a (AtDeliver lane) = 11"

definition emu_work :: "emu_program \<Rightarrow> nat" where
  "emu_work s =
     (let a = emu_abs_of (p_sys s) in
      12 * length (p_posts s) + (if l_poster a = None then 0 else 11) + 10 * (length (l_lane a Critical) + length (l_lane a Normal)) +
      (if p_emulator s = PostsDone then 0 else 1) + disp_work a (p_dispatcher s) +
      (case p_main s of JoinEmulator \<Rightarrow> 3 | StopRunning \<Rightarrow> 2 | JoinDispatcher \<Rightarrow> 1 | MainDone \<Rightarrow> 0))"

definition blocked :: "(topic_priority \<Rightarrow> nat) \<Rightarrow> emu_abs \<Rightarrow> bool" where
  "blocked C a \<longleftrightarrow> (case l_poster a of None \<Rightarrow> False | Some (lane, d) \<Rightarrow> C lane \<le> length (l_lane a lane))"

definition emu_next_actor :: "(topic_priority \<Rightarrow> nat) \<Rightarrow> emu_program \<Rightarrow> emu_actor" where
  "emu_next_actor C s =
     (if p_emulator s \<noteq> PostsDone then if blocked C (emu_abs_of (p_sys s)) then DispatcherThread else EmulatorThread
      else if p_main s = JoinDispatcher \<and> p_dispatcher s \<noteq> AtEnd then DispatcherThread else MainThread)"

lemma posted_abs: "posted z = (if l_poster (emu_abs_of z) = None then NextPost else Pushing)"
  by (simp add: posted_def poster_abs)

lemma emulator_control:
  assumes "emu_control_inv s" and "p_emulator s \<noteq> PostsDone" and "em = PostsDone \<Longrightarrow> es = []"
  shows "emu_control_inv (s\<lparr>p_sys := z, p_posts := es, p_emulator := em\<rparr>)"
  using assms by (auto simp: emu_control_inv_def)

lemma emulator_fill:
  assumes Q: "emu_queue_inv crit C ts l es s" and pc: "p_emulator s = NextPost" "p_posts s = (lane, topic, dat, sz) # rest"
  shows "\<exists>z. emulator_step s = ret (s\<lparr>p_sys := z, p_posts := rest, p_emulator := Pushing\<rparr>) \<and>
    emu_queue_inv crit C ts l es (s\<lparr>p_sys := z, p_posts := rest, p_emulator := Pushing\<rparr>) \<and>
    (\<exists>d. emu_abs_of z = (emu_abs_of (p_sys s))\<lparr>l_poster := Some d\<rparr>)"
proof -
  let ?a = "emu_abs_of (p_sys s)" and ?x = "EFill lane topic dat sz"
  have inv: "event_ok crit ts (lane, topic, dat, sz)" "l_poster ?a = None" "l_topics ?a = ts" "disp_at (p_dispatcher s) (l_disp ?a)"
    using emu_queue_invD(4) [OF Q, of "(lane, topic, dat, sz)"] emu_queue_invD(3,5,6) [OF Q] pc by simp_all
  have post: "lane_post crit ?x" using inv(1) by simp
  obtain z where z: "emu_act ?x (p_sys s) = ret z" "emu_abs_of z = lane_act C ?x ?a" and keep:
    "\<And>pc es' em. \<lbrakk>\<forall>L. lane_post_of ?x ?a L @ lane_event_calls ts L es' = lane_event_calls ts L (p_posts s);
       set es' \<subseteq> set (p_posts s); l_poster (emu_abs_of z) \<noteq> None \<longleftrightarrow> em = Pushing; disp_at pc (l_disp (emu_abs_of z));
       length es' + (if em = Pushing then 1 else 0) \<le> to_push s\<rbrakk> \<Longrightarrow>
       emu_queue_inv crit C ts l es (s\<lparr>p_sys := z, p_posts := es', p_emulator := em, p_dispatcher := pc\<rparr>)"
    using queue_act [OF Q post] by auto
  have abs: "emu_abs_of z = ?a\<lparr>l_poster := Some (lane, expected_calls ts topic dat sz)\<rparr>"
    using z(2) inv(1-3) by (auto simp: lane_act.simps not_le)
  have "emu_queue_inv crit C ts l es (s\<lparr>p_sys := z, p_posts := rest, p_emulator := Pushing, p_dispatcher := p_dispatcher s\<rparr>)"
    by (rule keep) (use inv pc abs in \<open>auto simp: to_push_def not_le\<close>)
  then have "emu_queue_inv crit C ts l es (s\<lparr>p_sys := z, p_posts := rest, p_emulator := Pushing\<rparr>)" by simp
  moreover have "emulator_step s = ret (s\<lparr>p_sys := z, p_posts := rest, p_emulator := Pushing\<rparr>)"
    using pc z(1) by (simp add: emulator_step_def posted_abs abs)
  ultimately show ?thesis using abs by auto
qed

lemma emulator_push:
  assumes Q: "emu_queue_inv crit C ts l es s" and pc: "p_emulator s = Pushing"
  shows "\<exists>z. emulator_step s = ret (s\<lparr>p_sys := z, p_emulator := posted z\<rparr>) \<and>
    emu_queue_inv crit C ts l es (s\<lparr>p_sys := z, p_emulator := posted z\<rparr>) \<and>
    (if blocked C (emu_abs_of (p_sys s)) then emu_abs_of z = emu_abs_of (p_sys s)
     else \<exists>lane d. emu_abs_of z = (emu_abs_of (p_sys s))\<lparr>l_lane := (l_lane (emu_abs_of (p_sys s)))(lane := l_lane (emu_abs_of (p_sys s)) lane @ [d]),
       l_poster := None\<rparr> \<and> l_poster (emu_abs_of (p_sys s)) \<noteq> None)"
proof -
  let ?a = "emu_abs_of (p_sys s)"
  have inv: "l_poster ?a \<noteq> None" "disp_at (p_dispatcher s) (l_disp ?a)"
    using emu_queue_invD(5,6) [OF Q] pc by simp_all
  obtain lane d where d: "l_poster ?a = Some (lane, d)" using inv(1) by auto
  have post: "lane_post crit EPush" by (simp add: lane_post_def)
  obtain z where z: "emu_act EPush (p_sys s) = ret z" "emu_abs_of z = lane_act C EPush ?a" and keep:
    "\<And>pc es' em. \<lbrakk>\<forall>L. lane_post_of EPush ?a L @ lane_event_calls ts L es' = lane_event_calls ts L (p_posts s);
       set es' \<subseteq> set (p_posts s); l_poster (emu_abs_of z) \<noteq> None \<longleftrightarrow> em = Pushing; disp_at pc (l_disp (emu_abs_of z));
       length es' + (if em = Pushing then 1 else 0) + (if l_poster (emu_abs_of z) \<noteq> l_poster ?a then 1 else 0) \<le> to_push s\<rbrakk> \<Longrightarrow>
       emu_queue_inv crit C ts l es (s\<lparr>p_sys := z, p_posts := es', p_emulator := em, p_dispatcher := pc\<rparr>)"
    using queue_act [OF Q post pc] by auto
  have abs: "emu_abs_of z = (if blocked C ?a then ?a
      else ?a\<lparr>l_lane := (l_lane ?a)(lane := l_lane ?a lane @ [d]), l_poster := None\<rparr>)"
    using z(2) d by (simp add: lane_act.simps blocked_def not_le)
  have "emu_queue_inv crit C ts l es (s\<lparr>p_sys := z, p_posts := p_posts s, p_emulator := posted z, p_dispatcher := p_dispatcher s\<rparr>)"
    by (rule keep) (use inv pc abs d in \<open>auto simp: to_push_def posted_abs\<close>)
  then have "emu_queue_inv crit C ts l es (s\<lparr>p_sys := z, p_emulator := posted z\<rparr>)" by simp
  moreover have "emulator_step s = ret (s\<lparr>p_sys := z, p_emulator := posted z\<rparr>)" using pc z(1) by (simp add: emulator_step_def)
  ultimately show ?thesis using abs d by (intro exI [of _ z]) auto
qed

lemma disp_work_push: "disp_work (a\<lparr>l_lane := (l_lane a)(lane := l_lane a lane @ [d]), l_poster := p\<rparr>) pc \<le> disp_work a pc"
  by (cases "(a, pc)" rule: disp_work.cases) (simp_all add: lanes_empty_def)

lemma emulator_ok:
  assumes Q: "emu_queue_inv crit C ts l es s" and I: "emu_control_inv s"
  shows "\<exists>s'. emulator_step s = ret s' \<and> emu_queue_inv crit C ts l es s' \<and> emu_control_inv s' \<and>
    (p_emulator s \<noteq> PostsDone \<and> \<not> blocked C (emu_abs_of (p_sys s)) \<longrightarrow> emu_work s' < emu_work s)"
proof (cases "p_emulator s")
  case NextPost
  show ?thesis
  proof (cases "p_posts s")
    case Nil
    let ?s = "s\<lparr>p_emulator := PostsDone\<rparr>"
    have "emu_queue_inv crit C ts l es ?s" using Q NextPost by (simp add: emu_queue_inv_def Let_def to_push_def)
    moreover have "emu_control_inv ?s" using I Nil by (auto simp: emu_control_inv_def)
    moreover have "emu_work ?s < emu_work s" using NextPost by (simp add: emu_work_def Let_def)
    ultimately show ?thesis using NextPost Nil by (simp add: emulator_step_def)
  next
    case (Cons e rest)
    obtain lane topic dat sz where e: "e = (lane, topic, dat, sz)" by (cases e)
    from emulator_fill [OF Q NextPost Cons [unfolded e]] obtain z d where
      z: "emulator_step s = ret (s\<lparr>p_sys := z, p_posts := rest, p_emulator := Pushing\<rparr>)"
      "emu_queue_inv crit C ts l es (s\<lparr>p_sys := z, p_posts := rest, p_emulator := Pushing\<rparr>)"
      "emu_abs_of z = (emu_abs_of (p_sys s))\<lparr>l_poster := Some d\<rparr>" by blast
    have "disp_work (emu_abs_of z) pc = disp_work (emu_abs_of (p_sys s)) pc" for pc
      unfolding z(3) by (cases "(emu_abs_of (p_sys s), pc)" rule: disp_work.cases) (simp_all add: lanes_empty_def)
    then have "emu_work (s\<lparr>p_sys := z, p_posts := rest, p_emulator := Pushing\<rparr>) < emu_work s"
      using z(3) Cons NextPost by (simp add: emu_work_def Let_def)
    moreover have "emu_control_inv (s\<lparr>p_sys := z, p_posts := rest, p_emulator := Pushing\<rparr>)"
      using I NextPost z(3) by (auto simp: emu_control_inv_def)
    ultimately show ?thesis using z by blast
  qed
next
  case Pushing
  let ?a = "emu_abs_of (p_sys s)"
  from emulator_push [OF Q Pushing] obtain z where z: "emulator_step s = ret (s\<lparr>p_sys := z, p_emulator := posted z\<rparr>)"
    "emu_queue_inv crit C ts l es (s\<lparr>p_sys := z, p_emulator := posted z\<rparr>)" and abs:
    "if blocked C ?a then emu_abs_of z = ?a
     else \<exists>lane d. emu_abs_of z = ?a\<lparr>l_lane := (l_lane ?a)(lane := l_lane ?a lane @ [d]), l_poster := None\<rparr> \<and> l_poster ?a \<noteq> None" by blast
  have main: "p_main s = JoinEmulator" "p_running s" using I Pushing by (auto simp: emu_control_inv_def)
  then have "emu_control_inv (s\<lparr>p_sys := z, p_emulator := posted z\<rparr>)"
    using I by (auto simp: emu_control_inv_def posted_def)
  moreover have "emu_work (s\<lparr>p_sys := z, p_emulator := posted z\<rparr>) < emu_work s" if free: "\<not> blocked C ?a"
  proof -
    obtain lane d where new: "emu_abs_of z = ?a\<lparr>l_lane := (l_lane ?a)(lane := l_lane ?a lane @ [d]), l_poster := None\<rparr>" "l_poster ?a \<noteq> None"
      using abs unfolding if_not_P [OF free] by blast
    show ?thesis
      using disp_work_push [where a = ?a and lane = lane and d = d and p = None and pc = "p_dispatcher s"] new(2) Pushing
      by (cases lane; cases "l_poster ?a") (simp_all add: emu_work_def Let_def new(1) posted_def)
  qed
  ultimately show ?thesis using z by blast
next
  case PostsDone
  then show ?thesis using Q I by (simp add: emulator_step_def)
qed


text \<open>The dispatcher: an action on the queue, and the positions between the actions.\<close>

lemma dispatcher_act:
  assumes Q: "emu_queue_inv crit C ts l es s" and x: "x = EPop lane \<or> x = EDeliver \<or> x = ERelease"
  shows "\<exists>z. emu_act x (p_sys s) = ret z \<and> emu_abs_of z = lane_act C x (emu_abs_of (p_sys s)) \<and>
    (\<forall>pc. disp_at pc (l_disp (emu_abs_of z)) \<longrightarrow> emu_queue_inv crit C ts l es (s\<lparr>p_sys := z, p_dispatcher := pc\<rparr>))"
proof -
  let ?a = "emu_abs_of (p_sys s)"
  have x': "lane_post crit x" "x \<noteq> EPush" "lane_post_of x ?a L = []" for L using x by (auto simp: lane_post_def)
  then obtain z where z: "emu_act x (p_sys s) = ret z" "emu_abs_of z = lane_act C x ?a" and keep:
    "\<And>pc es' em. \<lbrakk>\<forall>L. lane_post_of x ?a L @ lane_event_calls ts L es' = lane_event_calls ts L (p_posts s);
       set es' \<subseteq> set (p_posts s); l_poster (emu_abs_of z) \<noteq> None \<longleftrightarrow> em = Pushing; disp_at pc (l_disp (emu_abs_of z));
       length es' + (if em = Pushing then 1 else 0) \<le> to_push s\<rbrakk> \<Longrightarrow>
       emu_queue_inv crit C ts l es (s\<lparr>p_sys := z, p_posts := es', p_emulator := em, p_dispatcher := pc\<rparr>)"
    using queue_act [OF Q x'(1)] by auto
  have poster: "l_poster (emu_abs_of z) = l_poster ?a"
    using x unfolding z(2) by (auto simp: lane_act.simps split: list.split lane_pc.split)
  have "emu_queue_inv crit C ts l es (s\<lparr>p_sys := z, p_posts := p_posts s, p_emulator := p_emulator s, p_dispatcher := pc\<rparr>)"
    if "disp_at pc (l_disp (emu_abs_of z))" for pc
    by (rule keep) (use that x'(3) poster emu_queue_invD(5) [OF Q] in \<open>simp_all add: to_push_def\<close>)
  then show ?thesis using z by auto
qed

lemma dispatcher_moves:
  assumes "emu_queue_inv crit C ts l es s" and "disp_at pc (l_disp (emu_abs_of (p_sys s)))"
  shows "emu_queue_inv crit C ts l es (s\<lparr>p_dispatcher := pc\<rparr>)"
  using assms unfolding emu_queue_inv_def Let_def by (simp add: to_push_def)

lemma dispatcher_control:
  assumes "emu_control_inv s" and "p_dispatcher s \<noteq> AtEnd" and "pc \<in> {AtFastEmpty, AtBulkEmpty, AtEnd} \<Longrightarrow> \<not> p_running s"
    and "pc \<in> {AtBulkEmpty, AtEnd} \<Longrightarrow> l_lane (emu_abs_of z) Critical = []" and "pc = AtEnd \<Longrightarrow> l_lane (emu_abs_of z) Normal = []"
  shows "emu_control_inv (s\<lparr>p_sys := z, p_dispatcher := pc\<rparr>)"
  using assms by (auto simp: emu_control_inv_def)

text \<open>It can only turn in circles while the program is running and both lanes are empty.\<close>

definition dispatcher_busy :: "emu_program \<Rightarrow> bool" where
  "dispatcher_busy s \<longleftrightarrow> p_dispatcher s \<noteq> AtEnd \<and> (p_running s \<longrightarrow> \<not> lanes_empty (emu_abs_of (p_sys s)))"

definition dispatcher_good ::
  "(u16 \<Rightarrow> bool) \<Rightarrow> (topic_priority \<Rightarrow> nat) \<Rightarrow> topic_table \<Rightarrow> delivery list \<Rightarrow> lane_event list \<Rightarrow> emu_program \<Rightarrow> emu_program \<Rightarrow> bool" where
  "dispatcher_good crit C ts l es s s' \<longleftrightarrow> emu_queue_inv crit C ts l es s' \<and> emu_control_inv s' \<and>
     (dispatcher_busy s \<longrightarrow> emu_work s' < emu_work s)"

lemma dispatcher_work:
  assumes "l_poster (emu_abs_of z) = l_poster (emu_abs_of (p_sys s))"
    and "10 * (length (l_lane (emu_abs_of z) Critical) + length (l_lane (emu_abs_of z) Normal)) + disp_work (emu_abs_of z) pc <
      10 * (length (l_lane (emu_abs_of (p_sys s)) Critical) + length (l_lane (emu_abs_of (p_sys s)) Normal)) +
      disp_work (emu_abs_of (p_sys s)) (p_dispatcher s)"
  shows "emu_work (s\<lparr>p_sys := z, p_dispatcher := pc\<rparr>) < emu_work s"
  using assms by (simp add: emu_work_def Let_def)

lemma dispatcher_tests:
  assumes Q: "emu_queue_inv crit C ts l es s" and I: "emu_control_inv s" and pc: "p_dispatcher s \<in> {AtRunning, AtFastEmpty, AtBulkEmpty}"
  shows "\<exists>pc'. dispatcher_step s = ret (s\<lparr>p_dispatcher := pc'\<rparr>) \<and> dispatcher_good crit C ts l es s (s\<lparr>p_dispatcher := pc'\<rparr>)"
proof -
  let ?a = "emu_abs_of (p_sys s)"
  define pc' where "pc' = (if p_dispatcher s = AtRunning then if p_running s then AtPop Critical else AtFastEmpty
     else if p_dispatcher s = AtFastEmpty then if l_lane ?a Critical = [] then AtBulkEmpty else AtPop Critical
     else if l_lane ?a Normal = [] then AtEnd else AtPop Critical)"
  have "dispatcher_step s = ret (s\<lparr>p_dispatcher := pc'\<rparr>)"
    using pc empty_abs [OF emu_queue_invD(1) [OF Q]] by (auto simp: dispatcher_step_def pc'_def)
  moreover have "l_disp ?a = LIdle" using emu_queue_invD(6) [OF Q] pc by (auto simp: disp_at_def)
  then have "emu_queue_inv crit C ts l es (s\<lparr>p_dispatcher := pc'\<rparr>)"
    by (intro dispatcher_moves [OF Q]) (auto simp: disp_at_def pc'_def)
  moreover have "emu_control_inv (s\<lparr>p_dispatcher := pc'\<rparr>)"
    using I pc unfolding pc'_def emu_control_inv_def by (elim insertE; simp split: if_split)
  moreover have "emu_work (s\<lparr>p_dispatcher := pc'\<rparr>) < emu_work s" if "dispatcher_busy s"
    using pc that unfolding pc'_def dispatcher_busy_def lanes_empty_def
    by (elim insertE) (auto simp: emu_work_def Let_def lanes_empty_def)
  ultimately show ?thesis by (auto simp: dispatcher_good_def)
qed

lemma dispatcher_pop:
  assumes Q: "emu_queue_inv crit C ts l es s" and I: "emu_control_inv s" and pc: "p_dispatcher s = AtPop lane"
  shows "\<exists>s'. dispatcher_step s = ret s' \<and> dispatcher_good crit C ts l es s s'"
proof -
  let ?a = "emu_abs_of (p_sys s)"
  have idle: "l_disp ?a = LIdle" using emu_queue_invD(6) [OF Q] pc by (simp add: disp_at_def)
  obtain z where z: "emu_act (EPop lane) (p_sys s) = ret z" "emu_abs_of z = lane_act C (EPop lane) ?a"
    and keep: "\<And>pc. disp_at pc (l_disp (emu_abs_of z)) \<Longrightarrow> emu_queue_inv crit C ts l es (s\<lparr>p_sys := z, p_dispatcher := pc\<rparr>)"
    using dispatcher_act [OF Q, of "EPop lane" lane] by blast
  define pc' where "pc' = (if l_lane ?a lane = [] then no_message lane else AtDeliver lane)"
  have abs: "l_disp (emu_abs_of z) = (case l_lane ?a lane of [] \<Rightarrow> LIdle | d # ds \<Rightarrow> LPopped lane d)"
    "l_poster (emu_abs_of z) = l_poster ?a" "l_lane (emu_abs_of z) = (l_lane ?a)(lane := tl (l_lane ?a lane))"
    using idle unfolding z(2) by (auto simp: lane_act.simps split: list.split)
  have step: "dispatcher_step s = ret (s\<lparr>p_sys := z, p_dispatcher := pc'\<rparr>)"
    using pc z(1) by (simp add: dispatcher_step_def disp_abs abs(1) pc'_def split: list.split)
  have "emu_queue_inv crit C ts l es (s\<lparr>p_sys := z, p_dispatcher := pc'\<rparr>)"
    by (rule keep) (cases lane; simp add: disp_at_def pc'_def abs(1) split: list.split)
  moreover have "emu_control_inv (s\<lparr>p_sys := z, p_dispatcher := pc'\<rparr>)"
    by (rule dispatcher_control [OF I]) (cases lane; simp add: pc pc'_def split: if_splits)+
  moreover have "emu_work (s\<lparr>p_sys := z, p_dispatcher := pc'\<rparr>) < emu_work s"
  proof (rule dispatcher_work [OF abs(2)])
    show "10 * (length (l_lane (emu_abs_of z) Critical) + length (l_lane (emu_abs_of z) Normal)) + disp_work (emu_abs_of z) pc' <
      10 * (length (l_lane ?a Critical) + length (l_lane ?a Normal)) + disp_work ?a (p_dispatcher s)"
      by (cases lane; cases "l_lane ?a lane") (auto simp: pc pc'_def abs(3) lanes_empty_def)
  qed
  ultimately show ?thesis using step by (auto simp: dispatcher_good_def)
qed

lemma dispatcher_hold:
  assumes Q: "emu_queue_inv crit C ts l es s" and I: "emu_control_inv s" and pc: "p_dispatcher s = AtDeliver lane \<or> p_dispatcher s = AtRelease lane"
  shows "\<exists>s'. dispatcher_step s = ret s' \<and> dispatcher_good crit C ts l es s s'"
proof -
  let ?a = "emu_abs_of (p_sys s)"
  define x where "x = (if p_dispatcher s = AtDeliver lane then EDeliver else ERelease)"
  have x: "x = EDeliver \<or> x = ERelease" by (simp add: x_def)
  define pc' where "pc' = (if p_dispatcher s = AtDeliver lane then AtRelease lane else dispatched lane)"
  obtain z where z: "emu_act x (p_sys s) = ret z" "emu_abs_of z = lane_act C x ?a"
    and keep: "\<And>pc. disp_at pc (l_disp (emu_abs_of z)) \<Longrightarrow> emu_queue_inv crit C ts l es (s\<lparr>p_sys := z, p_dispatcher := pc\<rparr>)"
    using dispatcher_act [OF Q, of x lane] x by blast
  have disp: "disp_at (p_dispatcher s) (l_disp ?a)" using emu_queue_invD(6) [OF Q] .
  then have at: "disp_at pc' (l_disp (emu_abs_of z))"
    using pc unfolding z(2) by (cases lane) (auto simp: disp_at_def x_def pc'_def lane_act.simps)
  have abs: "l_poster (emu_abs_of z) = l_poster ?a" "l_lane (emu_abs_of z) = l_lane ?a"
    unfolding z(2) by (auto simp: x_def lane_act.simps split: lane_pc.split)
  have "dispatcher_step s = ret (s\<lparr>p_sys := z, p_dispatcher := pc'\<rparr>)"
    using pc z(1) by (auto simp: dispatcher_step_def x_def pc'_def)
  moreover have "emu_control_inv (s\<lparr>p_sys := z, p_dispatcher := pc'\<rparr>)"
    by (rule dispatcher_control [OF I]) (use pc in \<open>cases lane; auto simp: pc'_def split: if_splits\<close>)+
  moreover have "emu_work (s\<lparr>p_sys := z, p_dispatcher := pc'\<rparr>) < emu_work s"
    using pc by (intro dispatcher_work [OF abs(1)]) (cases lane; auto simp: pc'_def abs(2))
  ultimately show ?thesis using keep [OF at] by (auto simp: dispatcher_good_def)
qed

lemma dispatcher_ok:
  assumes Q: "emu_queue_inv crit C ts l es s" and I: "emu_control_inv s"
  shows "\<exists>s'. dispatcher_step s = ret s' \<and> dispatcher_good crit C ts l es s s'"
proof (cases "p_dispatcher s")
  case AtEnd
  then show ?thesis using Q I by (simp add: dispatcher_step_def dispatcher_good_def dispatcher_busy_def)
qed (use dispatcher_tests [OF Q I] dispatcher_pop [OF Q I] dispatcher_hold [OF Q I] in auto)


lemma emu_main_ok:
  assumes Q: "emu_queue_inv crit C ts l es s" and I: "emu_control_inv s"
  shows "\<exists>s'. emu_main_step s = ret s' \<and> emu_queue_inv crit C ts l es s' \<and> emu_control_inv s' \<and>
    (p_main s \<noteq> MainDone \<and> emu_next_actor C s = MainThread \<longrightarrow> emu_work s' < emu_work s)"
proof -
  have "emu_queue_inv crit C ts l es (s\<lparr>p_main := m\<rparr>)" "emu_queue_inv crit C ts l es (s\<lparr>p_running := False, p_main := m\<rparr>)" for m
    using Q unfolding emu_queue_inv_def Let_def by (simp_all add: to_push_def)
  then show ?thesis
    using Q I by (cases "p_main s") (auto simp: emu_main_step_def emu_control_inv_def emu_work_def Let_def emu_next_actor_def split: if_splits)
qed

lemma emu_program_step_ok:
  assumes Q: "emu_queue_inv crit C ts l es s" and I: "emu_control_inv s"
  shows "\<exists>s'. emu_program_step a s = ret s' \<and> emu_queue_inv crit C ts l es s' \<and> emu_control_inv s' \<and>
    (p_main s \<noteq> MainDone \<and> a = emu_next_actor C s \<longrightarrow> emu_work s' < emu_work s)"
proof (cases a)
  case EmulatorThread
  then show ?thesis using emulator_ok [OF Q I] by (auto simp: emu_next_actor_def split: if_splits)
next
  case DispatcherThread
  have "dispatcher_busy s" if "DispatcherThread = emu_next_actor C s"
  proof (cases "p_emulator s = PostsDone")
    case True
    then show ?thesis using that I by (auto simp: emu_next_actor_def dispatcher_busy_def emu_control_inv_def split: if_splits)
  next
    case False
    then have blocked: "blocked C (emu_abs_of (p_sys s))" using that by (auto simp: emu_next_actor_def split: if_splits)
    then obtain lane where "C lane \<le> length (l_lane (emu_abs_of (p_sys s)) lane)"
      by (auto simp: blocked_def split: option.splits)
    moreover have "0 < C lane"
      using lane_ring_inv [OF emu_queue_invD(1) [OF Q], of lane] emu_queue_invD(2) [OF Q] by (auto simp: lane_caps_def ring_inv_def Let_def)
    ultimately have "\<not> lanes_empty (emu_abs_of (p_sys s))" by (cases lane) (auto simp: lanes_empty_def)
    moreover have "p_dispatcher s \<noteq> AtEnd" using I False by (auto simp: emu_control_inv_def)
    ultimately show ?thesis by (simp add: dispatcher_busy_def)
  qed
  then show ?thesis using dispatcher_ok [OF Q I] DispatcherThread by (auto simp: dispatcher_good_def)
next
  case MainThread
  then show ?thesis using emu_main_ok [OF Q I] by auto
qed

lemma emu_program_steps_ok:
  assumes "emu_queue_inv crit C ts l es s" and "emu_control_inv s"
  shows "\<exists>s'. emu_program_steps s as = ret s' \<and> emu_queue_inv crit C ts l es s' \<and> emu_control_inv s'"
  using assms
proof (induction as arbitrary: s)
  case (Cons a as)
  from emu_program_step_ok [OF Cons.prems, of a] obtain s1 where
    "emu_program_step a s = ret s1" "emu_queue_inv crit C ts l es s1" "emu_control_inv s1" by blast
  with Cons.IH show ?case by simp
qed simp

lemma emu_program_progress:
  assumes "emu_queue_inv crit C ts l es s" and "emu_control_inv s"
  shows "\<exists>as s'. emu_program_steps s as = ret s' \<and> p_main s' = MainDone \<and> length as \<le> emu_work s"
  using assms
proof (induction "emu_work s" arbitrary: s rule: less_induct)
  case less
  show ?case
  proof (cases "p_main s = MainDone")
    case True
    then show ?thesis by (intro exI [of _ "[]"] exI [of _ s]) simp
  next
    case False
    from emu_program_step_ok [OF less.prems, of "emu_next_actor C s"] False obtain s1 where
      s1: "emu_program_step (emu_next_actor C s) s = ret s1" "emu_queue_inv crit C ts l es s1" "emu_control_inv s1" "emu_work s1 < emu_work s"
      by blast
    from less.hyps [OF s1(4,2,3)] obtain as s' where
      "emu_program_steps s1 as = ret s'" "p_main s' = MainDone" "length as \<le> emu_work s1" by blast
    with s1 show ?thesis by (intro exI [of _ "emu_next_actor C s # as"] exI [of _ s']) simp
  qed
qed

text \<open>How it starts and how it ends, for any posts.\<close>

lemma emu_program_init:
  assumes "emu_ok q" and "emu_fast q = []" and "emu_bulk q = []" and "\<And>e. e \<in> set es \<Longrightarrow> event_ok crit (e_topics q) e"
    and "\<And>lane. length es \<le> push_room (emu_ring lane q)"
  shows "emu_queue_inv crit (lane_caps q) (e_topics q) (emu_log q) es (emu_program_start q es) \<and> emu_control_inv (emu_program_start q es)"
proof -
  have "lane_calls_due (emu_abs_of (emu_threads q)) lane = []" for lane unfolding emu_threads_abs [OF assms(2,3)] by (simp add: lane_defs)
  moreover have "u_queue (emu_threads q) = q" by (simp add: emu_threads_def)
  ultimately show ?thesis
    using esys_start [OF assms(1)] assms(4,5)
    by (auto simp: emu_queue_inv_def emu_control_inv_def Let_def emu_program_start_def to_push_def lanes_apart_def disp_at_def
        lane_made_def emu_threads_abs [OF assms(2,3)])
qed

lemma emu_program_end:
  assumes Q: "emu_queue_inv crit C ts l es s" and I: "emu_control_inv s" and "p_main s = MainDone"
  shows "\<exists>new. emu_log (u_queue (p_sys s)) = l @ new \<and> (\<forall>lane. filter (on_lane crit lane) new = lane_event_calls ts lane es) \<and>
    live (rc_heap (e_world (u_queue (p_sys s)))) = {}"
proof -
  let ?a = "emu_abs_of (p_sys s)"
  have pcs: "p_dispatcher s = AtEnd" "p_emulator s = PostsDone" "p_posts s = []" "l_lane ?a Critical = []" "l_lane ?a Normal = []"
    using I assms(3) by (auto simp: emu_control_inv_def)
  have none: "l_poster ?a = None" "l_disp ?a = LIdle" using emu_queue_invD(5,6) [OF Q] pcs(1,2) by (simp_all add: disp_at_def)
  have empty: "l_lane ?a lane = []" for lane using pcs(4,5) by (cases lane) simp_all
  then have due: "lane_calls_due ?a lane = []" for lane using none by (simp add: lane_defs)
  obtain new where new: "l_log ?a = l @ new" using emu_queue_invD(7) [OF Q] by blast
  have "filter (on_lane crit lane) l @ filter (on_lane crit lane) new = filter (on_lane crit lane) l @ lane_event_calls ts lane es" for lane
    using emu_queue_invD(8) [OF Q, of lane] by (simp add: due pcs(3) lane_made_def new)
  moreover have "l_log ?a = emu_log (u_queue (p_sys s))" by (simp add: emu_abs_of_def Let_def)
  moreover have "lane_due (p_sys s) Normal = []"
    using none empty [of Normal] poster_abs [of "p_sys s"] disp_abs [of "p_sys s"]
    by (simp add: lane_due_def posted_nodes_def popped_nodes_def) (simp add: emu_abs_of_def Let_def)
  then have "live (rc_heap (e_world (u_queue (p_sys s)))) = {}" by (rule esys_no_payload [OF emu_queue_invD(1) [OF Q]])
  ultimately show ?thesis using new by (intro exI [of _ new]) auto
qed


section \<open>The program as a whole\<close>

text \<open>The calls due on the two lanes: of a frame, and of its traces.\<close>

definition critical_calls :: "(u32 \<Rightarrow> u8 list) \<Rightarrow> (u16 \<Rightarrow> u8 list) \<Rightarrow> nat \<Rightarrow> delivery list" where
  "critical_calls bytes32 bytes16 f =
     one_call onVBlank 0 (bytes32 (of_nat f)) 4 # map (\<lambda>a. one_call onAudio 1 (bytes16 (of_nat a)) 2) [0..<12]"

definition normal_calls :: "(nat \<Rightarrow> u8 list) \<Rightarrow> nat \<Rightarrow> delivery list" where
  "normal_calls garbage f = map (\<lambda>t. one_call onTrace 2 (garbage f) 32) [0..<50]"

lemma set_up_calls:
  assumes "set_up f1 f2 f3 ts"
  shows "expected_calls ts 0 (Some bytes) sz = [one_call f1 0 bytes sz] \<and> t_count (ts 0) \<noteq> 0"
    "expected_calls ts 1 (Some bytes) sz = [one_call f2 1 bytes sz] \<and> t_count (ts 1) \<noteq> 0"
    "expected_calls ts 2 (Some bytes) sz = [one_call f3 2 bytes sz] \<and> t_count (ts 2) \<noteq> 0"
  using topic_calls_one [OF set_upD(1) [OF assms, of bytes sz]] topic_calls_one [OF set_upD(2) [OF assms, of bytes sz]]
    topic_calls_one [OF set_upD(3) [OF assms, of bytes sz]] by simp_all

lemma lane_event_calls_append: "lane_event_calls ts lane (xs @ ys) = lane_event_calls ts lane xs @ lane_event_calls ts lane ys"
  by (simp add: lane_event_calls_def)

lemma lane_event_calls_concat: "lane_event_calls ts lane (concat xss) = concat (map (lane_event_calls ts lane) xss)"
  by (induction xss) (simp_all add: lane_event_calls_append)

lemma lane_event_calls_map:
  assumes "\<And>x. x \<in> set xs \<Longrightarrow> fst (e x) = L \<and> event_calls ts (e x) = [c x]"
  shows "lane_event_calls ts lane (map e xs) = (if L = lane then map c xs else [])"
  using assms by (induction xs) auto

lemma emulator_frame_calls:
  assumes "set_up onVBlank onAudio onTrace ts"
  shows "lane_event_calls ts Critical (emulator_frame bytes32 bytes16 garbage 0 1 2 f) = critical_calls bytes32 bytes16 f"
    and "lane_event_calls ts Normal (emulator_frame bytes32 bytes16 garbage 0 1 2 f) = normal_calls garbage f"
proof -
  note calls = set_up_calls [OF assms]
  have audio: "lane_event_calls ts lane (map (\<lambda>a. (Critical, 1, Some (bytes16 (of_nat a)), 2)) [0..<12]) =
      (if Critical = lane then map (\<lambda>a. one_call onAudio 1 (bytes16 (of_nat a)) 2) [0..<12] else [])" for lane
    by (rule lane_event_calls_map) (simp add: calls)
  have trace: "lane_event_calls ts lane (map (\<lambda>t. (Normal, 2, Some (garbage f), 32)) [0..<50]) =
      (if Normal = lane then map (\<lambda>t. one_call onTrace 2 (garbage f) 32) [0..<50] else [])" for lane
    by (rule lane_event_calls_map) (simp add: calls)
  show "lane_event_calls ts Critical (emulator_frame bytes32 bytes16 garbage 0 1 2 f) = critical_calls bytes32 bytes16 f"
    "lane_event_calls ts Normal (emulator_frame bytes32 bytes16 garbage 0 1 2 f) = normal_calls garbage f"
    by (simp_all add: emulator_frame_def lane_event_calls_append audio trace calls critical_calls_def normal_calls_def)
qed

lemma emulator_posts_calls:
  assumes "set_up onVBlank onAudio onTrace ts"
  shows "lane_event_calls ts Critical (emulator_posts bytes32 bytes16 garbage 0 1 2) = concat (map (critical_calls bytes32 bytes16) [0..<600])"
    and "lane_event_calls ts Normal (emulator_posts bytes32 bytes16 garbage 0 1 2) = concat (map (normal_calls garbage) [0..<600])"
  unfolding emulator_posts_def lane_event_calls_concat
  by (simp_all add: emulator_frame_calls [OF assms] comp_def)

lemma emulator_posts_ok:
  assumes sizes: "\<And>x. length (bytes32 x) = 4" "\<And>x. length (bytes16 x) = 2" "\<And>i. length (garbage i) = 32"
    and ts: "set_up onVBlank onAudio onTrace ts" and e: "e \<in> set (emulator_posts bytes32 bytes16 garbage 0 1 2)"
  shows "event_ok (\<lambda>topic. topic \<noteq> 2) ts e"
proof -
  have buf: "buffer_ok (Some (bytes32 x)) 4" "buffer_ok (Some (bytes16 y)) 2" "buffer_ok (Some (garbage i)) 32" for x y i
    by (rule buffer_ok_bytes; simp add: sizes)+
  note calls = set_up_calls [OF ts, of "[]" 0]
  from e obtain f where "e \<in> set (emulator_frame bytes32 bytes16 garbage 0 1 2 f)" by (auto simp: emulator_posts_def)
  then show ?thesis using buf calls by (auto simp: emulator_frame_def lane_post_def EMU_INLINE_MAX_def)
qed

lemma length_emulator_posts: "length (emulator_posts bytes32 bytes16 garbage v a t) = 37800"
proof -
  have "length (emulator_frame bytes32 bytes16 garbage v a t f) = 63" for f by (simp add: emulator_frame_def)
  then show ?thesis by (simp add: emulator_posts_def length_concat comp_def sum_list_triv)
qed

text \<open>The counters do not depend on how the calls of the two lanes interleave.\<close>

lemma emu_callback_commutes: "emu_callback x (emu_callback y c) = emu_callback y (emu_callback x c)"
  by (cases x; cases y) auto

lemma counts_by_lane:
  "fold emu_callback new c = fold emu_callback (filter (on_lane crit Critical) new @ filter (on_lane crit Normal) new) c"
proof -
  have "on_lane crit Normal x \<longleftrightarrow> \<not> on_lane crit Critical x" for x by (cases x) simp
  then have "mset new = mset (filter (on_lane crit Critical) new @ filter (on_lane crit Normal) new)" by (simp add: multiset_partition)
  then show ?thesis by (intro fun_cong [OF fold_multiset_equiv]) (auto simp: fun_eq_iff emu_callback_commutes)
qed


lemma emulator_posts_counts:
  "fold emu_callback (concat (map (critical_calls bytes32 bytes16) [0..<600]) @ concat (map (normal_calls garbage) [0..<600])) c =
     add_counts c 600 7200 30000"
proof -
  have one: "fold emu_callback (map f xs) c = add_counts c (int (length xs) * v) (int (length xs) * a) (int (length xs) * t)"
    if "\<And>x c. emu_callback (f x) c = add_counts c v a t" for f :: "nat \<Rightarrow> delivery" and xs c v a t
    using fold_counts [of xs "\<lambda>x. [f x]" v a t c] that by (simp add: concat_map_singleton)
  have "fold emu_callback (critical_calls bytes32 bytes16 f) c = add_counts c 1 12 0" for f c
    by (simp add: critical_calls_def one [where v = 0 and a = 1 and t = 0])
  then have critical: "fold emu_callback (concat (map (critical_calls bytes32 bytes16) [0..<600])) c = add_counts c 600 7200 0" for c
    by (subst fold_counts [where v = 1 and a = 12 and t = 0]) simp_all
  have "fold emu_callback (normal_calls garbage f) c = add_counts c 0 0 50" for f c
    by (simp add: normal_calls_def one [where v = 0 and a = 0 and t = 1])
  then have "fold emu_callback (concat (map (normal_calls garbage) [0..<600])) c = add_counts c 0 0 30000" for c
    by (subst fold_counts [where v = 0 and a = 0 and t = 50]) simp_all
  then show ?thesis by (simp add: critical)
qed

lemma emulator_program_end:
  assumes Q: "emu_queue_inv (\<lambda>topic. topic \<noteq> 2) C ts l (emulator_posts bytes32 bytes16 buf 0 1 2) s" and I: "emu_control_inv s"
    and "p_main s = MainDone" and ts: "set_up onVBlank onAudio onTrace ts"
  shows "(\<exists>new. emu_log (u_queue (p_sys s)) = l @ new \<and>
       filter (on_lane (\<lambda>topic. topic \<noteq> 2) Critical) new = concat (map (critical_calls bytes32 bytes16) [0..<600]) \<and>
       filter (on_lane (\<lambda>topic. topic \<noteq> 2) Normal) new = concat (map (normal_calls buf) [0..<600])) \<and>
    emu_counted_since l (u_queue (p_sys s)) = \<lparr>vblankCount = 600, audioCount = 7200, traceCount = 30000\<rparr> \<and>
    live (rc_heap (e_world (u_queue (p_sys s)))) = {}"
proof -
  let ?crit = "\<lambda>topic :: u16. topic \<noteq> 2"
  from emu_program_end [OF Q I assms(3)] obtain new where new: "emu_log (u_queue (p_sys s)) = l @ new"
    "\<And>lane. filter (on_lane ?crit lane) new = lane_event_calls ts lane (emulator_posts bytes32 bytes16 buf 0 1 2)"
    "live (rc_heap (e_world (u_queue (p_sys s)))) = {}" by blast
  note lanes = new(2) [of Critical, unfolded emulator_posts_calls [OF ts]] new(2) [of Normal, unfolded emulator_posts_calls [OF ts]]
  have drop: "drop (length l) (l @ new) = new" by simp
  have "emu_counted_since l (u_queue (p_sys s)) = \<lparr>vblankCount = 600, audioCount = 7200, traceCount = 30000\<rparr>"
    unfolding emu_counted_since_def new(1) drop counts_by_lane [of new _ ?crit] lanes emulator_posts_counts by (simp add: add_counts_def)
  then show ?thesis using new(1,3) lanes by blast
qed

text \<open>C18. The whole emulator example. Its first part returns and delivers, in each of 60 frames, the critical
events of the frame before the one oldest trace, and the other traces after the loop. From there every
schedule of the emulator, the dispatcher and the main thread runs without a fault, also when a full lane makes
the emulator push again, and from wherever it stops some continuation ends the program. When the main
thread is done, each lane has delivered its events of all 600 frames once, in the order of the posts, although the
dispatcher tests \<open>running\<close> and the two lanes apart; the counters, set to zero in between, are 600, 7200 and
30000, and no payload is left.\<close>

theorem emu_program_spec:
  assumes sizes: "\<And>x. length (bytes32 x) = 4" "\<And>x. length (bytes16 x) = 2" "\<And>i j. length (garbage i j) = 32" "\<And>i. length (buf i) = 32"
  shows "\<exists>q. emu_example bytes32 bytes16 garbage = ret (q, 0, 1, 2) \<and>
    emu_log q = concat (map (frame_calls bytes32 bytes16 garbage) [0..<60]) @ map (trace_call garbage) [60..<6000] \<and>
    emu_counted q = \<lparr>vblankCount = 60, audioCount = 720, traceCount = 6000\<rparr> \<and>
    (\<forall>as. \<exists>s. emu_program_steps (emu_program_start q (emulator_posts bytes32 bytes16 buf 0 1 2)) as = ret s \<and>
       (p_main s = MainDone \<longrightarrow>
          (\<exists>new. emu_log (u_queue (p_sys s)) = emu_log q @ new \<and>
             filter (on_lane (\<lambda>topic. topic \<noteq> 2) Critical) new = concat (map (critical_calls bytes32 bytes16) [0..<600]) \<and>
             filter (on_lane (\<lambda>topic. topic \<noteq> 2) Normal) new = concat (map (normal_calls buf) [0..<600])) \<and>
          emu_counted_since (emu_log q) (u_queue (p_sys s)) = \<lparr>vblankCount = 600, audioCount = 7200, traceCount = 30000\<rparr> \<and>
          live (rc_heap (e_world (u_queue (p_sys s)))) = {}) \<and>
       (\<exists>more s'. emu_program_steps s more = ret s' \<and> p_main s' = MainDone))"
proof -
  let ?es = "emulator_posts bytes32 bytes16 buf 0 1 2" and ?crit = "\<lambda>topic :: u16. topic \<noteq> 2"
  obtain q ts where q: "emu_example bytes32 bytes16 garbage = ret (q, 0, 1, 2)" "emu_at ts 4096 16384 50000 50000 [] [] (emu_log q) q"
    "set_up onVBlank onAudio onTrace ts"
    "emu_log q = concat (map (frame_calls bytes32 bytes16 garbage) [0..<60]) @ map (trace_call garbage) [60..<6000]"
    "emu_counted q = \<lparr>vblankCount = 60, audioCount = 720, traceCount = 6000\<rparr>" using emu_example_ok [of bytes32 bytes16 garbage] sizes(1-3) by blast
  have at: "emu_ok q" "emu_fast q = []" "emu_bulk q = []" "e_topics q = ts" "50000 \<le> push_room (e_fastQueue q)" "50000 \<le> push_room (e_bulkQueue q)"
    using q(2) by (simp_all only: emu_at_def)
  have "length ?es \<le> push_room (emu_ring lane q)" for lane using at(5,6) by (cases lane) (simp_all add: length_emulator_posts)
  from emu_program_init [OF at(1-3) _ this, of ?crit] emulator_posts_ok [OF sizes(1,2,4) q(3)] at(4)
  have start: "emu_queue_inv ?crit (lane_caps q) ts (emu_log q) ?es (emu_program_start q ?es)" "emu_control_inv (emu_program_start q ?es)"
    by simp_all
  have "\<exists>s. emu_program_steps (emu_program_start q ?es) as = ret s \<and>
       (p_main s = MainDone \<longrightarrow>
          (\<exists>new. emu_log (u_queue (p_sys s)) = emu_log q @ new \<and>
             filter (on_lane ?crit Critical) new = concat (map (critical_calls bytes32 bytes16) [0..<600]) \<and>
             filter (on_lane ?crit Normal) new = concat (map (normal_calls buf) [0..<600])) \<and>
          emu_counted_since (emu_log q) (u_queue (p_sys s)) = \<lparr>vblankCount = 600, audioCount = 7200, traceCount = 30000\<rparr> \<and>
          live (rc_heap (e_world (u_queue (p_sys s)))) = {}) \<and>
       (\<exists>more s'. emu_program_steps s more = ret s' \<and> p_main s' = MainDone)" for as
  proof -
    obtain s where s: "emu_program_steps (emu_program_start q ?es) as = ret s"
      "emu_queue_inv ?crit (lane_caps q) ts (emu_log q) ?es s" "emu_control_inv s" using emu_program_steps_ok [OF start] by blast
    have "\<exists>more s'. emu_program_steps s more = ret s' \<and> p_main s' = MainDone" using emu_program_progress [OF s(2,3)] by blast
    with s(1) emulator_program_end [OF s(2,3) _ q(3)] show ?thesis by blast
  qed
  with q(1,4,5) show ?thesis by blast
qed

theorem emu_program_spec_witness:
  "\<exists>q. emu_example (\<lambda>x. replicate 4 (ucast x)) (\<lambda>x. replicate 2 (ucast x)) (\<lambda>i j. replicate 32 7) = ret (q, 0, 1, 2) \<and>
     (\<exists>more s. emu_program_steps (emu_program_start q
        (emulator_posts (\<lambda>x. replicate 4 (ucast x)) (\<lambda>x. replicate 2 (ucast x)) (\<lambda>i. replicate 32 8) 0 1 2)) more = ret s \<and> p_main s = MainDone)"
proof -
  let ?b = "\<lambda>x :: u32. replicate 4 (ucast x) :: u8 list" and ?c = "\<lambda>x :: u16. replicate 2 (ucast x) :: u8 list"
  obtain q where q: "emu_example ?b ?c (\<lambda>i j. replicate 32 7) = ret (q, 0, 1, 2)"
    "\<forall>as. \<exists>s. emu_program_steps (emu_program_start q (emulator_posts ?b ?c (\<lambda>i. replicate 32 8) 0 1 2)) as = ret s \<and>
       (\<exists>more s'. emu_program_steps s more = ret s' \<and> p_main s' = MainDone)"
    using emu_program_spec [of ?b ?c "\<lambda>i j. replicate 32 7" "\<lambda>i. replicate 32 8"] by (simp only: length_replicate) blast
  from q(2) [rule_format, of "[]"] q(1) show ?thesis by auto
qed

end
