(* ===== verification/Turbo_Statistics.thy ===== *)
theory Turbo_Statistics
  imports Complex_Main Example_Emulator
begin

text \<open>
  The statistics of \<open>src/examples/turbo_benchmark/main.cpp\<close>: the times of the frames, their
  percentiles, and the line that a test prints. The clock is a parameter, the sequence of its readings in
  nanoseconds; of \<open>std::chrono::steady_clock\<close> only that it never goes back is used. A \<open>double\<close> is a
  rational number without rounding, and \<open>std::sort\<close> is \<open>sort\<close>.
\<close>

section \<open>Definitions\<close>

text \<open>
  The readings of a test, in program order: \<open>totalStart\<close>, then \<open>frameStart\<close> and \<open>frameEnd\<close> of each frame, then
  \<open>totalEnd\<close>.
\<close>

definition turbo_times :: "(nat \<Rightarrow> int) \<Rightarrow> int list" where
  "turbo_times clock = map (\<lambda>frame. clock (2 * frame + 2) - clock (2 * frame + 1)) [0..<10000]"

definition turbo_totalMs :: "(nat \<Rightarrow> int) \<Rightarrow> int" where
  "turbo_totalMs clock = (clock 20001 - clock 0) div 1000000"

text \<open>\<open>size() - 1\<close> is computed modulo \<open>2\<^sup>6\<^sup>4\<close>, and an index outside the vector is a fault.\<close>

definition percentile :: "int list \<Rightarrow> rat \<Rightarrow> rat outcome" where
  "percentile frameTimesNs p =
     (let idx = nat \<lfloor>p * of_nat (unat (of_nat (length frameTimesNs) - 1 :: u64))\<rfloor> in
      if idx < length frameTimesNs then Inr (of_int (frameTimesNs ! idx) / 1000) else Inl OutOfBounds)"

text \<open>A test of less than a millisecond divides by zero; the \<open>double\<close> is then infinite.\<close>

definition effectiveFps :: "int \<Rightarrow> rat option" where
  "effectiveFps totalMs = (if totalMs = 0 then None else Some (10000 / (of_int totalMs / 1000)))"

record turbo_line =
  msgsPerFrame :: nat
  fps :: "rat option"
  P50 :: rat
  P99 :: rat
  PMax :: rat

definition turbo_report :: "nat \<Rightarrow> (nat \<Rightarrow> int) \<Rightarrow> turbo_line outcome" where
  "turbo_report tracesPerFrame clock =
     (let frameTimesNs = sort (turbo_times clock) in
      obind (percentile frameTimesNs (50 / 100)) (\<lambda>p50.
        obind (percentile frameTimesNs (99 / 100)) (\<lambda>p99.
          obind (percentile frameTimesNs 1) (\<lambda>m.
            Inr \<lparr>msgsPerFrame = 1 + 12 + tracesPerFrame, fps = effectiveFps (turbo_totalMs clock),
                 P50 = p50, P99 = p99, PMax = m\<rparr>))))"

section \<open>What the numbers mean\<close>

lemma percentile_index:
  assumes "xs \<noteq> []" and "length xs < 2 ^ 64" and "0 \<le> p" and "p \<le> 1"
  shows "nat \<lfloor>p * of_nat (length xs - 1)\<rfloor> < length xs"
    and "percentile xs p = Inr (of_int (xs ! nat \<lfloor>p * of_nat (length xs - 1)\<rfloor>) / 1000)"
proof -
  have "0 < length xs" using assms(1) by simp
  then have size: "unat (of_nat (length xs) - 1 :: u64) = length xs - 1"
  proof -
    have "(of_nat (length xs) - 1 :: u64) = of_nat (length xs - 1)" using \<open>0 < length xs\<close> by (cases "length xs") simp_all
    then show ?thesis using assms(2) by (simp add: unsigned_of_nat take_bit_nat_eq_self)
  qed
  have "p * of_nat (length xs - 1) \<le> of_nat (length xs - 1)" using assms(4) by (simp add: mult_left_le_one_le assms(3))
  then have "\<lfloor>p * of_nat (length xs - 1)\<rfloor> \<le> int (length xs - 1)" by (simp add: floor_le_iff le_less_trans)
  then show "nat \<lfloor>p * of_nat (length xs - 1)\<rfloor> < length xs" using \<open>0 < length xs\<close> by linarith
  then show "percentile xs p = Inr (of_int (xs ! nat \<lfloor>p * of_nat (length xs - 1)\<rfloor>) / 1000)"
    by (simp only: percentile_def Let_def size if_True)
qed

text \<open>On an empty vector every percentile of a positive rank is a fault.\<close>

lemma percentile_empty: "percentile [] p = Inl OutOfBounds"
  by (simp add: percentile_def Let_def)

lemma sorted_rank:
  fixes xs :: "int list"
  assumes "sorted xs" and "i < length xs"
  shows "i + 1 \<le> length (filter (\<lambda>x. x \<le> xs ! i) xs)"
proof -
  have "set (take (Suc i) xs) \<subseteq> {x. x \<le> xs ! i}"
  proof
    fix x
    assume "x \<in> set (take (Suc i) xs)"
    then obtain k where k: "k < length (take (Suc i) xs)" "x = take (Suc i) xs ! k" by (metis in_set_conv_nth)
    then have "k \<le> i" "x = xs ! k" by simp_all
    then show "x \<in> {x. x \<le> xs ! i}" using assms sorted_nth_mono by auto
  qed
  then have "filter (\<lambda>x. x \<le> xs ! i) (take (Suc i) xs) = take (Suc i) xs" by (auto simp: filter_id_conv)
  moreover have "length (filter (\<lambda>x. x \<le> xs ! i) (take (Suc i) xs)) \<le> length (filter (\<lambda>x. x \<le> xs ! i) xs)"
    by (metis append_take_drop_id filter_append length_append le_add1)
  ultimately show ?thesis using assms(2) by simp
qed

lemma filter_sort_length: "length (filter P (sort xs)) = length (filter P xs)"
  by (simp add: filter_sort)

lemma length_turbo_times [simp]: "length (turbo_times clock) = 10000"
  by (simp add: turbo_times_def)

text \<open>
  The report is always defined. Half of the frames took at most \<open>P50\<close>, 99 percent at most \<open>P99\<close>, and \<open>PMax\<close> is the
  longest frame.
\<close>

lemma turbo_report_ok:
  "\<exists>r. turbo_report n clock = Inr r \<and> msgsPerFrame r = length (turbo_frame_calls n) \<and>
     P50 r \<le> P99 r \<and> P99 r \<le> PMax r \<and> PMax r = of_int (Max (set (turbo_times clock))) / 1000 \<and>
     5000 \<le> length (filter (\<lambda>t. of_int t / 1000 \<le> P50 r) (turbo_times clock)) \<and>
     9900 \<le> length (filter (\<lambda>t. of_int t / 1000 \<le> P99 r) (turbo_times clock))"
proof -
  let ?xs = "sort (turbo_times clock)"
  have xs: "length ?xs = 10000" "?xs \<noteq> []" by (simp_all flip: length_greater_0_conv)
  have at: "percentile ?xs p = Inr (of_int (?xs ! i) / 1000)" if "nat \<lfloor>p * 9999\<rfloor> = i" "0 \<le> p" "p \<le> 1" for p i
    using percentile_index(2) [OF xs(2) _ that(2,3)] that(1) by simp
  have "\<lfloor>9999 / 2 :: rat\<rfloor> = 4999" "\<lfloor>989901 / 100 :: rat\<rfloor> = 9899" by (rule floor_unique; simp)+
  note floors = this
  have p: "percentile ?xs (50 / 100) = Inr (of_int (?xs ! 4999) / 1000)" "percentile ?xs (99 / 100) = Inr (of_int (?xs ! 9899) / 1000)"
    "percentile ?xs 1 = Inr (of_int (?xs ! 9999) / 1000)"
    by (rule at; simp add: floors)+
  have le: "?xs ! 4999 \<le> ?xs ! 9899" "?xs ! 9899 \<le> ?xs ! 9999" by (intro sorted_nth_mono; simp)+
  have "x \<le> ?xs ! 9999" if mem: "x \<in> set ?xs" for x
  proof -
    obtain k where k: "k < length ?xs" "?xs ! k = x" using mem unfolding in_set_conv_nth by blast
    then have "k \<le> 9999" using xs(1) by simp
    then show ?thesis using sorted_nth_mono [of ?xs k 9999] k(2) by simp
  qed
  moreover have "?xs ! 9999 \<in> set ?xs" by (rule nth_mem) simp
  ultimately have max: "Max (set (turbo_times clock)) = ?xs ! 9999" by (intro Max_eqI) auto
  have rank: "i + 1 \<le> length (filter (\<lambda>t. of_int t / 1000 \<le> (of_int (?xs ! i) / 1000 :: rat)) (turbo_times clock))" if "i < 10000" for i
    using sorted_rank [of ?xs i] that by (simp add: filter_sort_length divide_le_cancel)
  let ?r = "\<lparr>msgsPerFrame = 1 + 12 + n, fps = effectiveFps (turbo_totalMs clock), P50 = of_int (?xs ! 4999) / 1000,
    P99 = of_int (?xs ! 9899) / 1000, PMax = of_int (?xs ! 9999) / 1000\<rparr>"
  have "turbo_report n clock = Inr ?r" unfolding turbo_report_def Let_def p obind_simps by (rule refl)
  moreover have "msgsPerFrame ?r = length (turbo_frame_calls n)" by (simp add: turbo_frame_calls_def)
  moreover have "P50 ?r \<le> P99 ?r" "P99 ?r \<le> PMax ?r" using le by (simp_all add: divide_right_mono)
  moreover have "PMax ?r = of_int (Max (set (turbo_times clock))) / 1000" by (simp add: max)
  moreover have "5000 \<le> length (filter (\<lambda>t. of_int t / 1000 \<le> P50 ?r) (turbo_times clock))"
    "9900 \<le> length (filter (\<lambda>t. of_int t / 1000 \<le> P99 ?r) (turbo_times clock))" using rank [of 4999] rank [of 9899] by simp_all
  ultimately show ?thesis by blast
qed

text \<open>With a clock that never goes back no frame time is negative, and together they are at most the total time.\<close>

lemma turbo_times_sum:
  assumes "mono clock"
  shows "\<forall>t \<in> set (turbo_times clock). 0 \<le> t" and "sum_list (turbo_times clock) \<le> clock 20001 - clock 0"
proof -
  show "\<forall>t \<in> set (turbo_times clock). 0 \<le> t" using assms by (auto simp: turbo_times_def monoD)
  have "(\<Sum>k\<leftarrow>[0..<m]. clock (2 * k + 2) - clock (2 * k + 1)) \<le> clock (2 * m) - clock 0" for m
  proof (induction m)
    case 0
    then show ?case by simp
  next
    case (Suc m)
    have "clock (2 * m) \<le> clock (2 * m + 1)" using assms by (simp add: monoD)
    with Suc show ?case by simp
  qed
  from this [of 10000] monoD [OF assms, of 20000 20001] show "sum_list (turbo_times clock) \<le> clock 20001 - clock 0"
    by (simp add: turbo_times_def)
qed

end
