(* ===== verification/Example_Center.thy ===== *)
theory Example_Center
  imports Message_Center Complex_Main
begin

text \<open>
  The program \<open>src/examples/message_center/main.cpp\<close> on \<open>MessageCenter\<close>: the main thread adds five
  observers and posts six events by topic name, while the worker of the default center makes its
  rounds, in any interleaving; then the center is disposed of. The callbacks only print; what
  they print is computed from the log of the calls. How a payload object lies in memory is a parameter
  \<open>object\<close>, and \<open>view\<close> is how the callbacks read it back; a callback that reads an object of another
  class is a fault. All coordinates in the program are exact in a \<open>float\<close> and are
  rational numbers here. Sleeping promises nothing: how far the worker gets is up to the schedule.
\<close>

section \<open>The program\<close>

datatype payload =
    PlayerMoved u32 rat rat
  | PlayerHealth u32 int int
  | GameEvent string

datatype printed =
    MovedLine u32 rat rat
  | HealthLine u32 int int
  | EventLine string
  | BoundsLine u32
  | WarningLine u32

definition gameLogger :: nat where "gameLogger = 1"
definition onPlayerMoved :: nat where "onPlayerMoved = 1"
definition onPlayerHealth :: nat where "onPlayerHealth = 2"
definition onGameEvent :: nat where "onGameEvent = 3"
definition checkBounds :: nat where "checkBounds = 4"
definition checkHealth :: nat where "checkHealth = 5"

text \<open>What a call prints: \<open>None\<close> for a missing object, one of another class, or an unknown callback.\<close>

definition logger_prints :: "nat \<Rightarrow> payload \<Rightarrow> printed list option" where
  "logger_prints method e =
     (case e of
        PlayerMoved playerId x y \<Rightarrow> if method = onPlayerMoved then Some [MovedLine playerId x y] else None
      | PlayerHealth playerId health maxHealth \<Rightarrow>
          if method = onPlayerHealth then Some [HealthLine playerId health maxHealth] else None
      | GameEvent eventName \<Rightarrow> None)"

definition maxX :: rat where "maxX = 100"
definition maxY :: rat where "maxY = 100"

definition lambda_prints :: "nat \<Rightarrow> payload \<Rightarrow> printed list option" where
  "lambda_prints f e =
     (case e of
        GameEvent eventName \<Rightarrow> if f = onGameEvent then Some [EventLine eventName] else None
      | PlayerMoved playerId x y \<Rightarrow>
          if f = checkBounds then Some (if maxX < x \<or> maxY < y then [BoundsLine playerId] else []) else None
      | PlayerHealth playerId health maxHealth \<Rightarrow>
          if f = checkHealth
          then Some (if health < sgn maxHealth * (\<bar>maxHealth\<bar> div 4) then [WarningLine playerId] else []) else None)"

definition call_prints :: "(string \<Rightarrow> payload) \<Rightarrow> ev_call \<Rightarrow> printed list option" where
  "call_prints view call =
     (case call of
        ECall (Method inst method) tid (Some obj) \<Rightarrow> if inst = gameLogger then logger_prints method (view obj) else None
      | ECall (Func f) tid (Some obj) \<Rightarrow> lambda_prints f (view obj)
      | _ \<Rightarrow> None)"

fun prints :: "(string \<Rightarrow> payload) \<Rightarrow> ev_call list \<Rightarrow> printed list option" where
  "prints view [] = Some []"
| "prints view (c # cs) =
     (case (call_prints view c, prints view cs) of (Some xs, Some ys) \<Rightarrow> Some (xs @ ys) | _ \<Rightarrow> None)"

definition center_adds :: "command list" where
  "center_adds =
     [CmdAddMethod ''player.moved'' (Some gameLogger) (Some onPlayerMoved),
      CmdAddMethod ''player.health'' (Some gameLogger) (Some onPlayerHealth),
      CmdAddFunc ''game.event'' (Some onGameEvent),
      CmdAddFunc ''player.moved'' (Some checkBounds),
      CmdAddFunc ''player.health'' (Some checkHealth)]"

definition center_events :: "(string \<times> payload) list" where
  "center_events =
     [(''game.event'', GameEvent ''Game started''),
      (''player.moved'', PlayerMoved 1 (21 / 2) 20),
      (''player.moved'', PlayerMoved 2 150 50),
      (''player.health'', PlayerHealth 1 100 100),
      (''player.health'', PlayerHealth 2 15 100),
      (''game.event'', GameEvent ''Round complete'')]"

definition center_post :: "(payload \<Rightarrow> string) \<Rightarrow> string \<times> payload \<Rightarrow> command" where
  "center_post object e = CmdPostTopic (fst e) (Some (object (snd e))) False"

definition center_program :: "(payload \<Rightarrow> string) \<Rightarrow> command list" where
  "center_program object = center_adds @ map (center_post object) center_events"

text \<open>The main thread goes on with its program, or the worker makes a round.\<close>

datatype center_actor = MainThread | WorkerThread

fun example_step :: "center_actor \<Rightarrow> center \<times> command list \<Rightarrow> (center \<times> command list) run" where
  "example_step MainThread (c, todo) =
     (case todo of
        [] \<Rightarrow> ret (c, [])
      | cmd # rest \<Rightarrow> rbind (ev_command (mc_events c) cmd) (\<lambda>s. ret (c\<lparr>mc_events := s\<rparr>, rest)))"
| "example_step WorkerThread (c, todo) = rbind (mc_worker_round quiet c) (\<lambda>c1. ret (c1, todo))"

fun example_steps :: "center \<times> command list \<Rightarrow> center_actor list \<Rightarrow> (center \<times> command list) run" where
  "example_steps z [] = ret z"
| "example_steps z (a # as) = rbind (example_step a z) (\<lambda>z1. example_steps z1 as)"

definition center_example :: "(payload \<Rightarrow> string) \<Rightarrow> center_actor list \<Rightarrow> (center \<times> command list) run" where
  "center_example object as =
     (case mc_Default None True of Some c \<Rightarrow> example_steps (c, center_program object) as | None \<Rightarrow> None)"

section \<open>Adding the observers\<close>

lemmas center_defs = ev_new_def ev_init_def ev_AddFunc_def ev_AddMethod_def ev_new_descriptor_def heap_new_def heap_empty_def
  ev_AddDescriptor_def ev_RegisterTopic_def ev_observer_vector_def ev_GetObservers_def heap_read_def heap_write_def
  new_descriptor_def MAX_TOPICS_def

lemma center_adds_run:
  "\<exists>s. ev_commands ev_new center_adds = ret s \<and> v_queue s = [] \<and> v_log s = [] \<and> live (v_payloads s) = {} \<and>
     v_resolveMap s = [''player.moved'' \<mapsto> 0, ''player.health'' \<mapsto> 1, ''game.event'' \<mapsto> 2] \<and>
     targets (ev_observers s 0) = [Method gameLogger onPlayerMoved, Func checkBounds] \<and>
     targets (ev_observers s 1) = [Method gameLogger onPlayerHealth, Func checkHealth] \<and>
     targets (ev_observers s 2) = [Func onGameEvent]"
  by (simp add: center_adds_def center_defs desc_ptrs_def ev_observers_def descriptor_target_def)

text \<open>Adding an observer makes no message, and the worker has nothing to do meanwhile.\<close>

definition is_add :: "command \<Rightarrow> bool" where
  "is_add cmd = (case cmd of CmdAddMethod topic inst cb \<Rightarrow> True | CmdAddFunc topic cb \<Rightarrow> True | _ \<Rightarrow> False)"

lemma ev_AddDescriptor_queue: "ev_AddDescriptor s topic obs = Inr (s', i) \<Longrightarrow> v_queue s' = v_queue s"
  by (auto simp: ev_AddDescriptor_def ev_observer_vector_def ev_RegisterTopic_def Let_def heap_new_def obind_eq_Inr
      split: prod.splits if_splits option.splits)

lemma is_add_ok:
  assumes ok: "mc_ok c" and wait: "may_wait (mc_events c)" and add: "is_add cmd"
  shows "\<exists>s. ev_command (mc_events c) cmd = ret s \<and> mc_ok (c\<lparr>mc_events := s\<rparr>) \<and> may_wait s \<and>
    v_queue s = v_queue (mc_events c) \<and> v_log s = v_log (mc_events c)"
proof -
  have inv: "ev_inv [] (mc_events c)" using ok by (simp add: mc_ok_def)
  obtain s where s: "ev_command (mc_events c) cmd = ret s" "ev_inv [] s" "extends (mc_events c) s" using ev_command_ok [OF inv wait] by blast
  have "v_queue s = v_queue (mc_events c)"
    using s(1) add by (cases cmd) (auto simp: is_add_def ev_AddMethod_def ev_AddFunc_def ev_new_descriptor_def heap_new_def obind_eq_Inr
        dest!: ev_AddDescriptor_queue)
  moreover have "may_wait s" using extends_may_wait [OF s(3)] wait by blast
  moreover have "v_log s = v_log (mc_events c)" using s(3) by (simp add: extends_def)
  ultimately show ?thesis using s(1,2) ok by (simp add: mc_ok_def)
qed

lemma idle_round: "mc_ok c \<Longrightarrow> v_queue (mc_events c) = [] \<Longrightarrow> mc_worker_round H c = ret c"
  by (simp add: mc_worker_round_def mc_ok_def ev_GetQueueMessage_def)

text \<open>So a schedule either ends among the additions or comes to the rest with all observers added.\<close>

lemma adding_steps:
  assumes "mc_ok c" and "may_wait (mc_events c)" and "v_queue (mc_events c) = []" and "\<forall>cmd \<in> set adds. is_add cmd"
    and "ev_commands (mc_events c) adds = ret s"
  shows "(\<exists>c1 rest. example_steps (c, adds @ posts) as = ret (c1, rest @ posts) \<and> rest \<noteq> [] \<and> mc_ok c1 \<and> v_log (mc_events c1) = v_log (mc_events c)) \<or>
    (\<exists>as2. example_steps (c, adds @ posts) as = example_steps (c\<lparr>mc_events := s\<rparr>, posts) as2 \<and> mc_ok (c\<lparr>mc_events := s\<rparr>))"
  using assms
proof (induction as arbitrary: c adds)
  case Nil
  then show ?case by (cases "adds = []") (auto simp: exI [of _ "[]"])
next
  case (Cons a as)
  show ?case
  proof (cases adds)
    case Nil
    then show ?thesis using Cons.prems by (intro disjI2 exI [of _ "a # as"]) auto
  next
    case (Cons cmd rest)
    show ?thesis
    proof (cases a)
      case MainThread
      have "is_add cmd" using Cons.prems(4) Cons by simp
      from is_add_ok [OF Cons.prems(1,2) this] obtain s1 where s1: "ev_command (mc_events c) cmd = ret s1" "mc_ok (c\<lparr>mc_events := s1\<rparr>)"
        "may_wait s1" "v_queue s1 = []" "v_log s1 = v_log (mc_events c)" using Cons.prems(3) by auto
      with Cons.IH [of "c\<lparr>mc_events := s1\<rparr>" rest] Cons.prems(4,5) Cons MainThread show ?thesis by simp
    next
      case WorkerThread
      then show ?thesis using Cons.IH [OF Cons.prems] idle_round [OF Cons.prems(1,3)] by simp
    qed
  qed
qed

section \<open>Posting and delivering\<close>

text \<open>A message that is not to be cleaned up leaves its payload behind.\<close>

lemma ev_Dispatch_quiet_frame:
  assumes inv: "ev_inv (m # B) s" and msg: "cells (v_messages s) m = Some msg" "\<not> e_cleanup msg"
    and run: "ev_Dispatch quiet tid (Some m) s = ret s'"
  shows "v_payloads s' = v_payloads s \<and> v_resolveMap s' = v_resolveMap s \<and> v_queue s' = v_queue s \<and>
    v_messages s' = heap_delete (v_messages s) m"
proof -
  let ?s1 = "ev_MarkDispatchActive s"
  have "observers_inv s" "messages_inv (m # B) ?s1" "cells (v_messages ?s1) m = Some msg"
    using inv msg(1) by (simp_all add: ev_inv_def) (simp add: ev_MarkDispatchActive_def)
  then show ?thesis
    using run msg ev_invoke_all_quiet [of "m # B" ?s1 m msg tid]
    by (auto simp: ev_Dispatch_def ev_snapshot_ok ev_delete_message_def delete_obj_def ev_MarkDispatchActive_def
        ev_MarkDispatchComplete_def split: option.splits)
qed

definition all_kept :: "evq \<Rightarrow> bool" where
  "all_kept s \<longleftrightarrow> (\<forall>m msg. cells (v_messages s) m = Some msg \<longrightarrow> \<not> e_cleanup msg)"

lemma round_frame:
  assumes ok: "mc_ok c" and kept: "all_kept (mc_events c)" and run: "mc_worker_round quiet c = ret c'"
  shows "v_payloads (mc_events c') = v_payloads (mc_events c) \<and> v_resolveMap (mc_events c') = v_resolveMap (mc_events c) \<and>
    all_kept (mc_events c')"
proof (cases "v_queue (mc_events c)")
  case Nil
  then show ?thesis using idle_round [OF ok Nil] run kept by simp
next
  case (Cons m ms)
  have inv: "ev_inv [] (mc_events c)" using ok by (simp add: mc_ok_def)
  note get = ev_GetQueueMessage_ok [OF inv Cons]
  obtain msg where msg: "cells (v_messages (mc_events c)) m = Some msg" using get(3) by blast
  then have keep: "\<not> e_cleanup msg" using kept by (simp add: all_kept_def)
  obtain s2 where s2: "ev_Dispatch quiet (sint (e_tid msg)) (Some m) ((mc_events c)\<lparr>v_queue := ms\<rparr>) = ret s2" "c' = c\<lparr>mc_events := s2\<rparr>"
    using run ok get(1) msg by (auto simp: mc_worker_round_def mc_ok_def rbind_eq_ret)
  from ev_Dispatch_quiet_frame [OF get(2) _ keep s2(1)] msg kept s2(2) show ?thesis
    by (auto simp: all_kept_def heap_delete_def split: if_splits)
qed

lemma post_frame:
  assumes ok: "mc_ok c" and kept: "all_kept (mc_events c)" and tid: "v_resolveMap (mc_events c) topic = Some tid" "topic \<noteq> []" "0 \<le> tid" "tid < 2 ^ 31"
  shows "\<exists>s. ev_command (mc_events c) (CmdPostTopic topic (Some obj) False) = ret s \<and> mc_ok (c\<lparr>mc_events := s\<rparr>) \<and>
    ev_due s = ev_due (mc_events c) @ [ev_calls (mc_events c) tid (Some obj)] \<and> ev_observers s = ev_observers (mc_events c) \<and>
    v_log s = v_log (mc_events c) \<and> v_resolveMap s = v_resolveMap (mc_events c) \<and> all_kept s \<and>
    (finite (live (v_payloads (mc_events c))) \<longrightarrow> finite (live (v_payloads s)) \<and>
       card (live (v_payloads s)) = Suc (card (live (v_payloads (mc_events c)))))"
proof -
  let ?s = "mc_events c"
  let ?s1 = "?s\<lparr>v_payloads := fst (heap_new (v_payloads ?s) obj)\<rparr>"
  let ?s2 = "ev_Post ?s1 tid (Some (next_addr (v_payloads ?s))) False"
  have mk: "make_payload ?s (Some obj) = (?s1, Some (next_addr (v_payloads ?s)))"
    by (simp add: make_payload_def ev_new_payload_def heap_new_def)
  have cmd: "ev_command ?s (CmdPostTopic topic (Some obj) False) = ret ?s2"
    using tid(1,2) mk by (simp add: ev_PostTopic_def ev_ResolveTopic_def)
  have "valid_action (Posting tid (Some obj) False)" using tid(4) by (simp add: valid_action_def)
  from mc_post_ok [OF ok this, of quiet] tid(3) mk have
    post: "mc_ok (c\<lparr>mc_events := ?s2\<rparr>)" "ev_due ?s2 = ev_due ?s @ [ev_calls ?s tid (Some obj)]" "ev_observers ?s2 = ev_observers ?s"
      "v_log ?s2 = v_log ?s" by simp_all
  have frame: "v_resolveMap ?s2 = v_resolveMap ?s" "v_payloads ?s2 = fst (heap_new (v_payloads ?s) obj)"
    using tid(3) by (simp_all add: ev_Post_def heap_new_def)
  have kept2: "all_kept ?s2" using kept tid(3) by (auto simp: all_kept_def ev_Post_def heap_new_def)
  have "heap_ok (v_payloads ?s)" using ok by (simp add: mc_ok_def ev_inv_def messages_inv_def)
  then have "next_addr (v_payloads ?s) \<notin> live (v_payloads ?s)" by (simp add: heap_ok_fresh domIff)
  moreover have "live (v_payloads ?s2) = insert (next_addr (v_payloads ?s)) (live (v_payloads ?s))"
    unfolding frame(2) by (auto simp: heap_new_def)
  ultimately show ?thesis using cmd post frame(1) kept2 by (intro exI [of _ ?s2]) (simp add: domIff)
qed

definition event_calls :: "evq \<Rightarrow> (payload \<Rightarrow> string) \<Rightarrow> string \<times> payload \<Rightarrow> ev_call list" where
  "event_calls s object e = ev_calls s (the (v_resolveMap s (fst e))) (Some (object (snd e)))"

definition known_topic :: "evq \<Rightarrow> string \<Rightarrow> bool" where
  "known_topic s topic \<longleftrightarrow> topic \<noteq> [] \<and> (\<exists>tid. v_resolveMap s topic = Some tid \<and> 0 \<le> tid \<and> tid < 2 ^ 31)"

text \<open>A step in which nothing is posted: the main thread is through, or the worker does a round.\<close>

lemma no_post_step:
  assumes ok: "mc_ok c" and kept: "all_kept (mc_events c)" and idle: "\<not> (a = MainThread \<and> es \<noteq> [])"
  shows "\<exists>c1. example_step a (c, map (center_post object) es) = ret (c1, map (center_post object) es) \<and> mc_ok c1 \<and>
      all_kept (mc_events c1) \<and> v_payloads (mc_events c1) = v_payloads (mc_events c) \<and> v_resolveMap (mc_events c1) = v_resolveMap (mc_events c) \<and>
      ev_observers (mc_events c1) = ev_observers (mc_events c) \<and> length (ev_due (mc_events c1)) \<le> length (ev_due (mc_events c)) \<and>
      v_log (mc_events c1) @ concat (ev_due (mc_events c1)) = v_log (mc_events c) @ concat (ev_due (mc_events c))"
proof (cases a)
  case MainThread
  then show ?thesis using idle ok kept by simp
next
  case WorkerThread
  obtain c1 where c1: "mc_worker_round quiet c = ret c1" "mc_ok c1" "ev_due (mc_events c1) = tl (ev_due (mc_events c))"
    "ev_observers (mc_events c1) = ev_observers (mc_events c)" "v_log (mc_events c1) = v_log (mc_events c) @ concat (take 1 (ev_due (mc_events c)))"
    using mc_round_ok [OF ok] by blast
  have "concat (take 1 (ev_due (mc_events c))) @ concat (tl (ev_due (mc_events c))) = concat (ev_due (mc_events c))" by (cases "ev_due (mc_events c)") simp_all
  then show ?thesis using WorkerThread c1 round_frame [OF ok kept c1(1)] by simp
qed

lemma posting_steps:
  assumes "mc_ok c" and "all_kept (mc_events c)" and "finite (live (v_payloads (mc_events c)))"
    and "\<forall>e \<in> set es. known_topic (mc_events c) (fst e)"
  shows "\<exists>c1 sent rest. example_steps (c, map (center_post object) es) as = ret (c1, map (center_post object) rest) \<and>
    es = sent @ rest \<and> mc_ok c1 \<and> card (live (v_payloads (mc_events c1))) = card (live (v_payloads (mc_events c))) + length sent \<and>
    length (ev_due (mc_events c1)) \<le> length (ev_due (mc_events c)) + length sent \<and>
    v_log (mc_events c1) @ concat (ev_due (mc_events c1)) =
      v_log (mc_events c) @ concat (ev_due (mc_events c)) @ concat (map (event_calls (mc_events c) object) sent)"
  using assms
proof (induction as arbitrary: c es)
  case Nil
  then show ?case by - (rule exI [of _ c], rule exI [of _ "[]"], rule exI [of _ es], simp)
next
  case (Cons a as)
  let ?s = "mc_events c"
  show ?case
  proof (cases "a = MainThread \<and> es \<noteq> []")
    case True
    then obtain e es1 where es: "es = e # es1" by (cases es) auto
    obtain tid where tid: "v_resolveMap ?s (fst e) = Some tid" "fst e \<noteq> []" "0 \<le> tid" "tid < 2 ^ 31"
      using Cons.prems(4) es by (auto simp: known_topic_def)
    from post_frame [OF Cons.prems(1,2) tid, of "object (snd e)"] Cons.prems(3) obtain s where
      s: "ev_command ?s (CmdPostTopic (fst e) (Some (object (snd e))) False) = ret s" "mc_ok (c\<lparr>mc_events := s\<rparr>)"
      "ev_due s = ev_due ?s @ [ev_calls ?s tid (Some (object (snd e)))]" "ev_observers s = ev_observers ?s" "v_log s = v_log ?s"
      "v_resolveMap s = v_resolveMap ?s" "all_kept s" "finite (live (v_payloads s))"
      "card (live (v_payloads s)) = Suc (card (live (v_payloads ?s)))" by blast
    have same: "event_calls s = event_calls ?s" "known_topic s = known_topic ?s"
      by (simp_all add: event_calls_def ev_calls_def known_topic_def s(4,6) fun_eq_iff)
    have "ev_calls ?s tid (Some (object (snd e))) = event_calls ?s object e" using tid(1) by (simp add: event_calls_def)
    with Cons.IH [of "c\<lparr>mc_events := s\<rparr>" es1] s same Cons.prems(4) es obtain c1 sent rest where
      "example_steps (c\<lparr>mc_events := s\<rparr>, map (center_post object) es1) as = ret (c1, map (center_post object) rest)"
      "es1 = sent @ rest" "mc_ok c1" "card (live (v_payloads (mc_events c1))) = Suc (card (live (v_payloads ?s))) + length sent"
      "length (ev_due (mc_events c1)) \<le> Suc (length (ev_due ?s)) + length sent"
      "v_log (mc_events c1) @ concat (ev_due (mc_events c1)) =
        v_log ?s @ concat (ev_due ?s) @ event_calls ?s object e @ concat (map (event_calls ?s object) sent)" by auto
    with s(1) True es show ?thesis
      by - (rule exI [of _ c1], rule exI [of _ "e # sent"], rule exI [of _ rest],
        simp add: center_post_def [of object e] del: ev_command.simps)
  next
    case False
    from no_post_step [OF Cons.prems(1,2) False]
    obtain c1 where c1: "example_step a (c, map (center_post object) es) = ret (c1, map (center_post object) es)" "mc_ok c1"
      "all_kept (mc_events c1)" "v_payloads (mc_events c1) = v_payloads ?s" "v_resolveMap (mc_events c1) = v_resolveMap ?s"
      "ev_observers (mc_events c1) = ev_observers ?s" "length (ev_due (mc_events c1)) \<le> length (ev_due ?s)"
      "v_log (mc_events c1) @ concat (ev_due (mc_events c1)) = v_log ?s @ concat (ev_due ?s)" by blast
    have same: "event_calls (mc_events c1) = event_calls ?s" "known_topic (mc_events c1) = known_topic ?s"
      by (simp_all add: event_calls_def ev_calls_def known_topic_def c1(5,6) fun_eq_iff)
    from Cons.IH [of c1 es] c1 same Cons.prems obtain c2 sent rest where
      "example_steps (c1, map (center_post object) es) as = ret (c2, map (center_post object) rest)" "es = sent @ rest" "mc_ok c2"
      "card (live (v_payloads (mc_events c2))) = card (live (v_payloads ?s)) + length sent"
      "length (ev_due (mc_events c2)) \<le> length (ev_due (mc_events c1)) + length sent"
      "v_log (mc_events c2) @ concat (ev_due (mc_events c2)) =
        v_log ?s @ concat (ev_due ?s) @ concat (map (event_calls ?s object) sent)" by auto
    with c1(1,7) show ?thesis by - (rule exI [of _ c2], rule exI [of _ sent], rule exI [of _ rest], simp)
  qed
qed

section \<open>What is printed\<close>

definition center_output :: "printed list" where
  "center_output =
     [EventLine ''Game started'', MovedLine 1 (21 / 2) 20, MovedLine 2 150 50, BoundsLine 2,
      HealthLine 1 100 100, HealthLine 2 15 100, WarningLine 2, EventLine ''Round complete'']"

lemma prints_append:
  "prints view (xs @ ys) = (case (prints view xs, prints view ys) of (Some a, Some b) \<Rightarrow> Some (a @ b) | _ \<Rightarrow> None)"
  by (induction xs) (simp_all split: option.split)

lemma prints_prefix: "prints view (xs @ ys) = Some out \<Longrightarrow> \<exists>a b. prints view xs = Some a \<and> out = a @ b"
  by (auto simp: prints_append split: option.splits)

definition reads_back :: "(payload \<Rightarrow> string) \<Rightarrow> (string \<Rightarrow> payload) \<Rightarrow> bool" where
  "reads_back object view \<longleftrightarrow> (\<forall>e \<in> set center_events. view (object (snd e)) = snd e)"

lemma center_prints:
  assumes "reads_back object view" and "v_resolveMap s = [''player.moved'' \<mapsto> 0, ''player.health'' \<mapsto> 1, ''game.event'' \<mapsto> 2]"
    and "targets (ev_observers s 0) = [Method gameLogger onPlayerMoved, Func checkBounds]"
    and "targets (ev_observers s 1) = [Method gameLogger onPlayerHealth, Func checkHealth]" and "targets (ev_observers s 2) = [Func onGameEvent]"
  shows "prints view (concat (map (event_calls s object) center_events)) = Some center_output"
  using assms
  by (simp add: reads_back_def center_events_def event_calls_def ev_calls_def call_prints_def logger_prints_def lambda_prints_def
      onPlayerMoved_def onPlayerHealth_def onGameEvent_def checkBounds_def checkHealth_def maxX_def maxY_def center_output_def)

section \<open>The program as a whole\<close>

lemma example_steps_append: "example_steps z (as @ bs) = rbind (example_steps z as) (\<lambda>z1. example_steps z1 bs)"
  by (induction as arbitrary: z) (simp_all add: rbind_def split: option.split sum.split)

lemma example_steps_todo: "example_steps (c, todo) as = ret (c1, todo1) \<Longrightarrow> todo1 = drop (count_list as MainThread) todo"
proof (induction as arbitrary: c todo)
  case (Cons a as)
  then show ?case by (cases a) (auto simp: rbind_eq_ret drop_Cons' split: list.splits dest!: Cons.IH)
qed simp

lemma example_steps_rounds:
  "mc_ok c \<Longrightarrow> example_steps (c, todo) (replicate k WorkerThread) = rbind (mc_schedule quiet c (replicate k Round)) (\<lambda>c1. ret (c1, todo))"
proof (induction k arbitrary: c)
  case (Suc k)
  obtain c1 where "mc_worker_round quiet c = ret c1" "mc_ok c1" using mc_round_inv [OF Suc.prems] by blast
  then show ?case using Suc by (simp add: mc_ok_def)
qed simp

text \<open>The state after any schedule.\<close>

lemma center_example_ok:
  assumes view: "reads_back object view"
  shows "\<exists>c todo out. center_example object as = ret (c, todo) \<and> mc_ok c \<and> prints view (v_log (mc_events c)) = Some out \<and>
    (\<exists>more. center_output = out @ more) \<and>
    (todo = [] \<longrightarrow> card (live (v_payloads (mc_events c))) = 6 \<and> length (ev_due (mc_events c)) \<le> 6 \<and>
       (ev_due (mc_events c) = [] \<longrightarrow> out = center_output))"
proof -
  let ?c = "mc_Start mc_new"
  let ?posts = "map (center_post object) center_events"
  obtain s where s: "ev_commands (mc_events ?c) center_adds = ret s" "v_queue s = []" "v_log s = []" "live (v_payloads s) = {}"
    and topics: "v_resolveMap s = [''player.moved'' \<mapsto> 0, ''player.health'' \<mapsto> 1, ''game.event'' \<mapsto> 2]"
    and targets: "targets (ev_observers s 0) = [Method gameLogger onPlayerMoved, Func checkBounds]"
      "targets (ev_observers s 1) = [Method gameLogger onPlayerHealth, Func checkHealth]" "targets (ev_observers s 2) = [Func onGameEvent]"
    using center_adds_run by (auto simp: mc_Start_def mc_new_def)
  have start: "may_wait (mc_events ?c)" "v_queue (mc_events ?c) = []" "\<forall>cmd \<in> set center_adds. is_add cmd" "v_log (mc_events ?c) = []"
    by (simp_all add: mc_Start_def mc_new_def ev_new_def ev_init_def may_wait_def center_adds_def is_add_def)
  have run: "center_example object as = example_steps (?c, center_adds @ ?posts) as"
    by (simp add: center_example_def mc_Default_def center_program_def)
  from adding_steps [OF mc_Start_new_ok start(1-3) s(1), of ?posts as] show ?thesis
  proof (elim disjE exE conjE)
    fix c1 rest
    assume c1: "example_steps (?c, center_adds @ ?posts) as = ret (c1, rest @ ?posts)" "rest \<noteq> []" "mc_ok c1" "v_log (mc_events c1) = v_log (mc_events ?c)"
    then show ?thesis using start(4) unfolding run
      by - (rule exI [of _ c1], rule exI [of _ "rest @ ?posts"], rule exI [of _ "[]"], simp)
  next
    fix as2
    let ?c2 = "?c\<lparr>mc_events := s\<rparr>"
    assume as2: "example_steps (?c, center_adds @ ?posts) as = example_steps (?c2, ?posts) as2" "mc_ok ?c2"
    have "live (v_messages s) = {}" using as2(2) s(2) by (simp add: mc_ok_def ev_inv_def messages_inv_def)
    then have kept: "all_kept (mc_events ?c2)" by (simp add: all_kept_def)
    have known: "\<forall>e \<in> set center_events. known_topic (mc_events ?c2) (fst e)" by (simp add: center_events_def known_topic_def topics)
    have due: "ev_due s = []" by (simp add: ev_due_def s(2))
    obtain c1 sent rest where c1: "example_steps (?c2, ?posts) as2 = ret (c1, map (center_post object) rest)"
      "center_events = sent @ rest" "mc_ok c1" "card (live (v_payloads (mc_events c1))) = length sent"
      "length (ev_due (mc_events c1)) \<le> length sent"
      "v_log (mc_events c1) @ concat (ev_due (mc_events c1)) = concat (map (event_calls s object) sent)"
      using posting_steps [OF as2(2) kept _ known, of object as2] s(3,4) due by auto
    have "v_log (mc_events c1) @ concat (ev_due (mc_events c1)) @ concat (map (event_calls s object) rest) =
        concat (map (event_calls s object) center_events)" using c1(2,6) by (metis append.assoc concat_append map_append)
    with center_prints [OF view topics targets] have all:
      "prints view (v_log (mc_events c1) @ concat (ev_due (mc_events c1)) @ concat (map (event_calls s object) rest)) = Some center_output"
      by simp
    from prints_prefix [OF all] obtain out more where out: "prints view (v_log (mc_events c1)) = Some out" "center_output = out @ more" by blast
    have "length center_events = 6" by (simp add: center_events_def)
    then have "length sent = 6" if "rest = []" using c1(2) that by simp
    moreover have "out = center_output" if "rest = []" "ev_due (mc_events c1) = []" using all out(1) that by simp
    ultimately show ?thesis unfolding run as2(1) using c1(1,3-5) out by (intro exI [of _ c1] exI [of _ "map (center_post object) rest"] exI [of _ out]) auto
  qed
qed

text \<open>C21. The message-center example, whatever the schedule of its main thread and the worker: it runs
without a fault, and what has been printed is always a beginning of the expected lines, the bounds
warning and the health warning among them. Once all events are posted all six payloads are still
allocated, and once none is waiting the lines are complete; from wherever a schedule stops some continuation
gets there. Disposing of the center at any time returns; when all events were posted it leaves the
six payloads allocated.\<close>

theorem center_example_spec:
  assumes view: "reads_back object view"
  shows "\<exists>c todo out. center_example object as = ret (c, todo) \<and> prints view (v_log (mc_events c)) = Some out \<and>
    (\<exists>more. center_output = out @ more) \<and>
    (todo = [] \<longrightarrow> card (live (v_payloads (mc_events c))) = 6 \<and> (v_queue (mc_events c) = [] \<longrightarrow> out = center_output)) \<and>
    (\<exists>more c2. center_example object (as @ more) = ret (c2, []) \<and> v_queue (mc_events c2) = [] \<and>
       prints view (v_log (mc_events c2)) = Some center_output) \<and>
    mc_DisposeDefault quiet (Some c) = ret None \<and>
    (\<exists>c1 s. mc_Stop quiet c = ret c1 \<and> mc_destroy quiet c1 = ret s \<and> v_payloads s = v_payloads (mc_events c))"
proof -
  obtain c todo out where c: "center_example object as = ret (c, todo)" "mc_ok c" "prints view (v_log (mc_events c)) = Some out"
    "\<exists>more. center_output = out @ more" "todo = [] \<Longrightarrow> card (live (v_payloads (mc_events c))) = 6"
    "todo = [] \<Longrightarrow> ev_due (mc_events c) = [] \<Longrightarrow> out = center_output"
    using center_example_ok [OF view, of as] by blast
  let ?main = "as @ replicate 11 MainThread"
  let ?all = "?main @ replicate 6 WorkerThread"
  obtain c1 todo1 where c1: "center_example object ?main = ret (c1, todo1)" "mc_ok c1" "todo1 = [] \<Longrightarrow> length (ev_due (mc_events c1)) \<le> 6"
    using center_example_ok [OF view, of ?main] by blast
  have "example_steps (mc_Start mc_new, center_program object) ?main = ret (c1, todo1)"
    using c1(1) by (simp add: center_example_def mc_Default_def)
  from example_steps_todo [OF this] have todo1: "todo1 = []"
    by (simp add: center_program_def center_adds_def center_events_def numeral_eq_Suc)
  obtain c2 where c2: "mc_schedule quiet c1 (replicate 6 Round) = ret c2" "mc_ok c2" "ev_due (mc_events c2) = []"
    using mc_rounds_ok [OF c1(2) c1(3)] todo1 by blast
  have "center_example object ?all = rbind (center_example object ?main) (\<lambda>z. example_steps z (replicate 6 WorkerThread))"
    by (simp only: center_example_def mc_Default_def option.case example_steps_append [of _ ?main])
  then have "center_example object ?all = ret (c2, [])"
    using c1(1) c2(1) example_steps_rounds [OF c1(2), of "[]" 6] by (simp add: todo1)
  with center_example_ok [OF view, of ?all] c2(3)
  have done_all: "center_example object ?all = ret (c2, [])" "prints view (v_log (mc_events c2)) = Some center_output" by auto
  have empty: "ev_due s = [] \<longleftrightarrow> v_queue s = []" for s by (simp add: ev_due_def)
  have "\<exists>c1 s. mc_Stop quiet c = ret c1 \<and> mc_destroy quiet c1 = ret s \<and> v_payloads s = v_payloads (mc_events c)"
    by (rule mc_stop_destroy [OF c(2)])
  moreover from this have "mc_DisposeDefault quiet (Some c) = ret None" by (auto simp: mc_DisposeDefault_def)
  moreover have "\<exists>more c2. center_example object (as @ more) = ret (c2, []) \<and> v_queue (mc_events c2) = [] \<and>
       prints view (v_log (mc_events c2)) = Some center_output"
    using done_all c2(3) empty by (intro exI [of _ "replicate 11 MainThread @ replicate 6 WorkerThread"] exI [of _ c2]) simp
  ultimately show ?thesis using c(1,3-6) empty by blast
qed

text \<open>A way to write the six payloads as strings, and to read them.\<close>

fun demo_object :: "payload \<Rightarrow> string" where
  "demo_object (PlayerMoved playerId x y) = (if playerId = 1 then ''M1'' else ''M2'')"
| "demo_object (PlayerHealth playerId health maxHealth) = (if playerId = 1 then ''H1'' else ''H2'')"
| "demo_object (GameEvent eventName) = CHR ''E'' # eventName"

definition demo_view :: "string \<Rightarrow> payload" where
  "demo_view obj = the (map_of (map (\<lambda>e. (demo_object (snd e), snd e)) center_events) obj)"

lemma demo_reads_back: "reads_back demo_object demo_view"
  by (simp add: reads_back_def demo_view_def center_events_def)

theorem center_example_spec_witness:
  "\<exists>as c. center_example demo_object as = ret (c, []) \<and> prints demo_view (v_log (mc_events c)) = Some center_output"
  using center_example_spec [OF demo_reads_back, of "[]"] by auto

end
