(* ===== verification/Spec2Isabelle.thy ===== *)
theory Spec2Isabelle
  imports MPMC_Concurrent Pool_Concurrent Queue_Fast Queue_Batch Queue_Emulator Queue_Broadcast
    Fast_Threads Event_Queue_Spec Event_Queue_Session Event_Queue_Sync Event_Queue_Dump Message_Center_Spec
    Center_Sync Center_Fast_Spec Collection_Helper
    Batch_Threads Example_Fast Example_Batch_Race Example_Emulator_Threads Turbo_Statistics Example_Center
begin

text \<open>
  Verification library of the C++ message centre (\<open>src/src\<close>).

  \<^bold>\<open>The program.\<close> Producers post events to topics, observers registered for a topic are called
  with them. There are two families. \<open>EventQueue\<close> and \<open>MessageCenter\<close> (\<open>eventqueue.cpp\<close>,
  \<open>messagecenter.cpp\<close>) use mutexes, topic names and payload objects, and a worker thread. The
  others share a lock-free ring (\<open>mpmc_queue.h\<close>), object pools (\<open>objectpool.h\<close>,
  \<open>objectpool_lockfree.h\<close>) and reference-counted payloads (\<open>payload_refcounted.h\<close>):
  \<open>eventqueue_fast.h\<close>, \<open>eventqueue_batch.h\<close>, \<open>eventqueue_emulator.h\<close>,
  \<open>eventqueue_broadcast.h\<close> and \<open>messagecenter_fast.h\<close>.

  \<^bold>\<open>Theories and the code they model.\<close>
  \<^item> \<open>MC_Prelude\<close>: machine words, outcomes, a store of objects made with \<open>new\<close>, \<open>memcpy\<close>.
  \<^item> \<open>MPMC_Queue\<close>: \<open>MPMCQueue\<close>, every operation as one thread runs it, and the locale
    \<open>bounded_fifo\<close>, which the ring implements. \<open>MPMC_Concurrent\<close>: the same operations cut into
    their atomic accesses, run by any number of threads under every interleaving.
  \<^item> \<open>Object_Pool\<close>: \<open>ObjectPool\<close> and the locale \<open>object_pool\<close>. \<open>Pool_LockFree\<close>:
    \<open>ObjectPoolLockFree\<close>. \<open>Pool_Concurrent\<close>: its atomic accesses under every interleaving.
  \<^item> \<open>Payload\<close>: \<open>RefCountedPayload\<close> and \<open>PayloadGuard\<close>.
  \<^item> \<open>Message_Channel\<close>: a ring of pointers over a pool is a list of messages (locale
    \<open>message_channel\<close>), and the draining loops. \<open>Broadcast_Message\<close>: the message struct of the
    fast queues, filled in and delivered. \<open>Event_Contract\<close>: topics with observers, and the locale
    \<open>event_queue\<close>: what posting and dispatching promise, end to end.
  \<^item> \<open>Queue_Fast\<close>, \<open>Queue_Batch\<close>, \<open>Queue_Emulator\<close>, \<open>Queue_Broadcast\<close>: one header each, every operation.
    Each interprets the locale \<open>event_queue\<close> on its own definitions where its contract fits.
    \<open>Fast_Threads\<close>: a posting and many dispatching threads on one \<open>EventQueueBroadcastFast\<close>.
    \<open>Batch_Threads\<close>: a posting thread with its batch buffer and many dispatching threads on one
    \<open>EventQueueBroadcastFastBatch\<close>.
    \<open>Emulator_Threads\<close>: a posting and a dispatching thread on the two lanes of one \<open>EventQueueEmulator\<close>.
  \<^item> \<open>Event_Queue\<close>: \<open>EventQueue\<close>, with descriptors, vectors, messages and payloads as objects on
    stores and handlers that call back into the queue. \<open>Event_Queue_Spec\<close>: what its operations do.
    \<open>Event_Queue_Session\<close>: whole sessions with it, clients that make and delete objects and hand over pointers
    included: memory safety and observer ids.
    \<open>Event_Queue_Sync\<close>: \<open>Dispatch\<close> and \<open>RemoveObserver\<close> of any number of threads, as a step relation.
    \<open>Event_Queue_Dump\<close>: the debug dumps as text, and the operators of \<open>src/include/streamhelper.h\<close>.
  \<^item> \<open>Message_Center\<close> and \<open>Message_Center_Spec\<close>: \<open>MessageCenter\<close>, its worker and life cycle,
    and the test wrapper \<open>MessageCenterCUT\<close>.
    \<open>Center_Sync\<close>: \<open>Start\<close> and \<open>Stop\<close> of any number of threads and the workers, as a step relation.
  \<^item> \<open>Message_Center_Fast\<close> and \<open>Center_Fast_Spec\<close>: \<open>MessageCenterFast\<close>, its dispatch thread and
    schedules of a posting thread against it.
  \<^item> \<open>Collection_Helper\<close>: the container helpers of \<open>src/include/collectionhelper.h\<close>.
  \<^item> Programs of \<open>src/examples\<close>, on top of the queues they use: \<open>Example_Fast\<close> (a producer, a consumer
    and the main thread on \<open>EventQueueBroadcastFast\<close>), \<open>Example_Batch\<close> (the part that one thread
    runs), \<open>Example_Batch_Threads\<close> (four producers, two consumers and the main thread on one
    \<open>EventQueueBroadcastFastBatch\<close>, with the pool cut at its atomic accesses), \<open>Example_Batch_Race\<close> (a schedule of them that loses an
    event), \<open>Example_Emulator\<close> (the emulator
    example, as far as one thread runs it, and the turbo benchmark), \<open>Turbo_Statistics\<close> (what the benchmark
    computes from its clock), \<open>Example_Emulator_Threads\<close> (the emulator
    thread, the dispatcher and the main thread of the emulator example) and \<open>Example_Center\<close> (the main thread and the worker of the
    default \<open>MessageCenter\<close>).

  \<^bold>\<open>Conventions.\<close> Definitions carry the names of the code, with a prefix per class (\<open>fq_\<close>, \<open>bq_\<close>,
  \<open>emu_\<close>, \<open>bc_\<close>, \<open>ev_\<close>, \<open>mc_\<close>, \<open>mf_\<close>). What C++ leaves undefined is a value of type \<open>fault\<close>. An
  operation that always returns has type \<open>fault + 'a\<close>; one with a loop or a wait that may not
  end has type \<open>(fault + 'a) option\<close>, where \<open>None\<close> is a run that never ends. There is no fuel:
  loops are \<open>partial_function\<close>s, and where a property says that they return it proves it.
  Callbacks and handlers are numbers; what they were given is recorded in a log.

  \<^bold>\<open>What the lemmas show.\<close> Per component an invariant that every operation keeps
  (\<open>ring_inv\<close>, \<open>sys_inv\<close>, \<open>lf_inv\<close>, \<open>owns\<close>, \<open>fq_ok\<close>, \<open>fsys_inv\<close>, \<open>bsys_inv\<close>, \<open>esys_inv\<close>, \<open>ev_inv\<close>, \<open>sync_inv\<close>, \<open>one_worker_inv\<close>, \<open>mc_ok\<close>, \<open>mf_ok\<close>) and an abstraction
  (\<open>contents\<close>, \<open>queue\<close>, \<open>chan_msgs\<close>, \<open>fq_pending\<close>, \<open>ev_observers\<close>, \<open>ev_due\<close>, \<open>mf_events\<close>) that says what
  each operation does on every branch. The concurrent ring refines an abstract queue step by
  step and is FIFO; the lock-free pool is safe with one acquiring thread and unsafe with two.
  Every queue delivers what was posted, in order, to the observers due, once, and frees its
  payloads. A session with an \<open>EventQueue\<close> is memory safe if its client respects what the queue owns
  (\<open>well_behaved\<close>; without that it need not be, \<open>ev_misuse\<close>), and ids of observers are never reused
  (\<open>id_steps\<close>). \<open>MessageCenterFast\<close> delivers under every interleaving of one posting thread with its
  dispatch thread (\<open>run_inv\<close>); several posting threads would race in its pool, as in the batch example.
  In the end-to-end theorems the pointer to the data is taken once per message and read at each call (\<open>data_ptr\<close>);
  the defects that the code has in corner cases are theorems too. The example programs, all but one, end under every schedule with every event delivered; that they can
  always go on to their end is shown with a measure of the work left (\<open>work\<close>, \<open>emu_work\<close>). The one is the
  batch example: it makes as many calls as pushes under every schedule (\<open>batch_queue_inv\<close>), but its four producers
  share a pool made for one, and a schedule built on a small machine that the program simulates (\<open>shadows\<close>) loses
  an event.

  \<^bold>\<open>Bounds.\<close> Positions of the ring are 64-bit words and their difference is signed: the invariant
  speaks of fewer than \<open>2^63\<close> pushes over the life of a ring (\<open>push_room\<close>). The counter of
  empty turns of \<open>MessageCenterFast\<close> is an \<open>int\<close>: schedules of fewer than \<open>2^31\<close> steps. Observer
  ids of \<open>EventQueue\<close> are 64-bit words: sessions of fewer than \<open>2^64 - 2\<close> operations.

  \<^bold>\<open>Not modelled.\<close> Memory orders weaker than sequential consistency, time (the clock of the turbo benchmark is a parameter and its \<open>double\<close>s are
  rationals), the output on the console and thread names, the programs of \<open>src/benchmarks\<close> and the tests, which only
  measure or check the parts above, several posting threads of one \<open>MessageCenterFast\<close>, handlers of an \<open>EventQueue\<close> that
  hand over pointers or dispose of the queue, and the compiler macros of \<open>platform.h\<close>. In
  the batch example a message is filled in, and a ring is pushed to or popped from, in one step. The element type of a pool, the code of callbacks
  of a client, the answer of \<open>malloc\<close>, the layout of objects in memory and the printing of a pointer
  are parameters.
\<close>

end
